(* ===== verification/Spocp_Base.thy ===== *)
theory Spocp_Base
  imports Main "HOL-Library.Word" "HOL-Library.Monad_Syntax"
begin

text \<open>
  The vocabulary shared by all components: bytes and the C character macros, the
  result codes of the library, memory reads that may fault, the integer widths of
  the source, decimal numerals, and the generic lemmas on them.

  Conventions used throughout the development.
  \<^item> A byte is a \<open>char\<close>; \<open>of_char\<close> reads it as C's \<open>unsigned char\<close> and
    \<open>schar\<close> as C's (signed) \<open>char\<close>.
  \<^item> A C pointer into a byte buffer is the list of the bytes of the buffer from the
    pointed-to byte on; advancing the pointer drops bytes from the list.
  \<^item> A function whose C code can leave its buffers or follow a null pointer returns
    an \<open>option\<close>, and \<open>None\<close> is that undefined behaviour.
  \<^item> A \<open>size_t\<close> is a natural number below \<open>2 ^ 64\<close>; the places where the code can
    wrap around use \<open>szsub\<close> and \<open>szadd\<close>. An \<open>int\<close> is an integer and
    \<open>i32\<close> wraps it to 32 bits, two's complement.
  \<^item> Logging (\<open>traceLog\<close>, \<open>LOG\<close>, \<open>DEBUG\<close>) and the freeing of memory are not
    modelled; a null \<open>char *\<close> is the empty buffer.
\<close>

subsection \<open>Collections of facts\<close>

named_theorems ccode "evaluation rules of the modelled C code"
named_theorems cwf "well-formedness of the C data is preserved"

lemmas option_bind_fundef_cong [fundef_cong] = Option.bind_cong

subsection \<open>Result codes\<close>

datatype spocp_result =
    SPOCP_WORKING | SPOCP_SUCCESS | SPOCP_MULTI | SPOCP_DENIED | SPOCP_CLOSE
  | SPOCP_EXISTS | SPOCP_OPERATIONSERROR | SPOCP_PROTOCOLERROR | SPOCP_UNKNOWNCOMMAND
  | SPOCP_SYNTAXERROR | SPOCP_TIMELIMITEXCEEDED | SPOCP_SIZELIMITEXCEEDED
  | SPOCP_AUTHDATA | SPOCP_AUTHERR | SPOCP_AUTHINPROGRESS | SPOCP_BUSY
  | SPOCP_UNAVAILABLE | SPOCP_UNWILLING | SPOCP_SERVER_DOWN | SPOCP_LOCAL_ERROR
  | SPOCP_TIMEOUT | SPOCP_FILTER_ERROR | SPOCP_PARAM_ERROR | SPOCP_NO_MEMORY
  | SPOCP_NOT_SUPPORTED | SPOCP_BUF_OVERFLOW | SPOCP_MISSING_CHAR | SPOCP_MISSING_ARG
  | SPOCP_STATE_VIOLATION | SPOCP_SSL_START | SPOCP_SSL_ERR | SPOCP_CERT_ERR
  | SPOCP_OTHER | SPOCP_UNKNOWN_TYPE | SPOCP_UNIMPLEMENTED | SPOCP_INFO_UNAVAIL
  | SPOCP_SASLBINDINPROGRESS | SPOCP_SSLCON_EXIST | SPOCP_REDIRECT

subsection \<open>Bytes and the character macros of proto.h\<close>

type_synonym bytes = "char list"

definition schar :: "char \<Rightarrow> int" where
  "schar c = (if of_char c < (128::nat) then int (of_char c) else int (of_char c) - 256)"

definition in_range :: "char \<Rightarrow> char \<Rightarrow> char \<Rightarrow> bool" where
  "in_range a b c \<longleftrightarrow> schar a \<le> schar c \<and> schar c \<le> schar b"

definition ASCII_LOWER :: "char \<Rightarrow> bool" where
  "ASCII_LOWER c = in_range CHR ''a'' CHR ''z'' c"

definition ASCII_UPPER :: "char \<Rightarrow> bool" where
  "ASCII_UPPER c = in_range CHR ''A'' CHR ''Z'' c"

definition DIGIT :: "char \<Rightarrow> bool" where
  "DIGIT c = in_range CHR ''0'' CHR ''9'' c"

definition ALPHA :: "char \<Rightarrow> bool" where
  "ALPHA c \<longleftrightarrow> ASCII_LOWER c \<or> ASCII_UPPER c"

definition HEX_LOWER :: "char \<Rightarrow> bool" where
  "HEX_LOWER c = in_range CHR ''a'' CHR ''f'' c"

definition HEX_UPPER :: "char \<Rightarrow> bool" where
  "HEX_UPPER c = in_range CHR ''A'' CHR ''F'' c"

definition HEX :: "char \<Rightarrow> bool" where
  "HEX c \<longleftrightarrow> DIGIT c \<or> HEX_LOWER c \<or> HEX_UPPER c"

definition BASE64 :: "char \<Rightarrow> bool" where
  "BASE64 c \<longleftrightarrow> ALPHA c \<or> DIGIT c \<or> c = CHR ''+'' \<or> c = CHR ''/''"

definition WHITESPACE :: "char \<Rightarrow> bool" where
  "WHITESPACE c \<longleftrightarrow> c = CHR '' '' \<or> c = CHR 0x0A \<or> c = CHR 0x09 \<or>
     c = CHR 0x0B \<or> c = CHR 0x0D \<or> c = CHR 0x0C"

definition SCHAR :: "char \<Rightarrow> bool" where
  "SCHAR c \<longleftrightarrow> c = CHR 0x22 \<or> c = CHR ''%'' \<or> c = CHR ''|'' \<or>
     c = CHR ''('' \<or> c = CHR '')'' \<or> c = CHR ''/''"

definition VCHAR :: "char \<Rightarrow> bool" where
  "VCHAR c \<longleftrightarrow> in_range CHR ''!'' CHR 0x7E c \<and> \<not> SCHAR c"

definition DIRCHAR :: "char \<Rightarrow> bool" where
  "DIRCHAR c \<longleftrightarrow> VCHAR c \<or> c = CHR ''/''"

definition digitval :: "char \<Rightarrow> int" where
  "digitval c = schar c - 48"

abbreviation NUL :: char where "NUL \<equiv> CHR 0x00"

lemmas char_macros = ASCII_LOWER_def ASCII_UPPER_def DIGIT_def ALPHA_def HEX_LOWER_def
  HEX_UPPER_def HEX_def BASE64_def WHITESPACE_def SCHAR_def VCHAR_def DIRCHAR_def
  in_range_def schar_def

subsection \<open>Memory\<close>

definition rd :: "bytes \<Rightarrow> nat \<Rightarrow> char option" where
  "rd p i = (if i < length p then Some (p ! i) else None)"

definition adv :: "nat \<Rightarrow> bytes \<Rightarrow> bytes option" where
  "adv n p = (if n \<le> length p then Some (drop n p) else None)"

lemma rd_Some [simp]: "i < length p \<Longrightarrow> rd p i = Some (p ! i)"
  by (simp add: rd_def)

lemma rd_eq_Some_iff: "rd p i = Some c \<longleftrightarrow> i < length p \<and> p ! i = c"
  by (auto simp: rd_def)

lemma rd_Cons_0 [simp]: "rd (c # p) 0 = Some c"
  by (simp add: rd_def)

lemma rd_Nil [simp]: "rd [] i = None"
  by (simp add: rd_def)

lemma adv_Some [simp]: "n \<le> length p \<Longrightarrow> adv n p = Some (drop n p)"
  by (simp add: adv_def)

lemma adv_eq_Some_iff: "adv n p = Some q \<longleftrightarrow> n \<le> length p \<and> q = drop n p"
  by (auto simp: adv_def)

text \<open>A C string is what precedes the first NUL of its buffer; \<open>strlen\<close> faults on a
  buffer without one.\<close>

definition strlen :: "bytes \<Rightarrow> nat option" where
  "strlen p = (let s = takeWhile (\<lambda>c. c \<noteq> NUL) p
               in if length s < length p then Some (length s) else None)"

lemma strlen_terminated [simp]:
  "NUL \<notin> set s \<Longrightarrow> strlen (s @ NUL # r) = Some (length s)"
  by (simp add: strlen_def takeWhile_append)

subsection \<open>Machine integers\<close>

definition SIZE_MAX :: nat where
  "SIZE_MAX = 2 ^ 64 - 1"

definition szsub :: "nat \<Rightarrow> nat \<Rightarrow> nat" where
  "szsub a b = (a + 2 ^ 64 - b) mod 2 ^ 64"

definition szadd :: "nat \<Rightarrow> nat \<Rightarrow> nat" where
  "szadd a b = (a + b) mod 2 ^ 64"

definition i32 :: "int \<Rightarrow> int" where
  "i32 x = signed_take_bit 31 x"

definition i64 :: "int \<Rightarrow> int" where
  "i64 x = signed_take_bit 63 x"

definition size_of_int :: "int \<Rightarrow> nat" where
  "size_of_int x = nat (x mod 2 ^ 64)"

lemma szsub_le [simp]: "b \<le> a \<Longrightarrow> a < 2 ^ 64 \<Longrightarrow> szsub a b = a - b"
proof -
  assume a: "b \<le> a" "a < 2 ^ 64"
  then have "a + 2 ^ 64 - b = (a - b) + 2 ^ 64" by simp
  then have "szsub a b = ((a - b) + 2 ^ 64) mod 2 ^ 64" by (simp only: szsub_def)
  also have "\<dots> = a - b" using a by (simp only: mod_add_self2) simp
  finally show ?thesis .
qed

lemma szadd_small [simp]: "a + b < 2 ^ 64 \<Longrightarrow> szadd a b = a + b"
  by (simp add: szadd_def)

lemma i32_small [simp]: "0 \<le> x \<Longrightarrow> x < 2 ^ 31 \<Longrightarrow> i32 x = x"
  by (simp add: i32_def signed_take_bit_int_eq_self)

lemma i64_small [simp]: "0 \<le> x \<Longrightarrow> x < 2 ^ 63 \<Longrightarrow> i64 x = x"
  by (simp add: i64_def signed_take_bit_int_eq_self)

lemma i32_range: "- (2 ^ 31) \<le> i32 x \<and> i32 x < 2 ^ 31"
  unfolding i32_def
  by (metis signed_take_bit_int_greater_eq_minus_exp signed_take_bit_int_less_exp)

lemma size_of_int_nonneg [simp]: "0 \<le> x \<Longrightarrow> x < 2 ^ 64 \<Longrightarrow> size_of_int x = nat x"
  by (simp add: size_of_int_def)

lemma size_of_int_neg: "x < 0 \<Longrightarrow> - (2 ^ 31) \<le> x \<Longrightarrow> size_of_int x = nat (x + 2 ^ 64)"
proof -
  assume a: "x < 0" "- (2 ^ 31) \<le> x"
  then have "x mod 2 ^ 64 = (x + 2 ^ 64) mod 2 ^ 64" by simp
  also have "\<dots> = x + 2 ^ 64" using a by (intro mod_pos_pos_trivial) auto
  finally show ?thesis by (simp add: size_of_int_def)
qed

subsection \<open>Decimal numerals\<close>

text \<open>What \<open>%d\<close> and \<open>%u\<close> print for a non-negative number.\<close>

definition digit_char :: "nat \<Rightarrow> char" where
  "digit_char d = char_of (48 + d)"

fun decimal :: "nat \<Rightarrow> bytes" where
  "decimal n = (if n < 10 then [digit_char n] else decimal (n div 10) @ [digit_char (n mod 10)])"

declare decimal.simps [simp del]

definition dec_value :: "bytes \<Rightarrow> int" where
  "dec_value ds = foldl (\<lambda>n c. n * 10 + digitval c) 0 ds"

lemma of_char_digit_char [simp]: "d < 10 \<Longrightarrow> of_char (digit_char d) = (48 + d :: nat)"
  by (simp add: digit_char_def)

lemma digitval_digit_char [simp]: "d < 10 \<Longrightarrow> digitval (digit_char d) = int d"
  by (simp add: digitval_def schar_def)

lemma DIGIT_digit_char [simp]: "d < 10 \<Longrightarrow> DIGIT (digit_char d)"
  by (simp add: DIGIT_def in_range_def schar_def)

lemma digitval_range: "DIGIT c \<Longrightarrow> 0 \<le> digitval c \<and> digitval c \<le> 9"
  by (simp add: DIGIT_def in_range_def digitval_def) (simp add: schar_def)

lemma decimal_DIGIT: "c \<in> set (decimal n) \<Longrightarrow> DIGIT c"
proof (induction n rule: decimal.induct)
  case (1 n)
  then show ?case
    by (cases "n < 10") (auto simp: decimal.simps [of n])
qed

lemma decimal_nonempty [simp]: "decimal n \<noteq> []"
  by (subst decimal.simps) simp

lemma dec_value_snoc [simp]: "dec_value (ds @ [c]) = dec_value ds * 10 + digitval c"
  by (simp add: dec_value_def)

lemma dec_value_Nil [simp]: "dec_value [] = 0"
  by (simp add: dec_value_def)

lemma dec_value_decimal [simp]: "dec_value (decimal n) = int n"
proof (induction n rule: decimal.induct)
  case (1 n)
  show ?case
  proof (cases "n < 10")
    case True
    then show ?thesis by (subst decimal.simps) (simp add: dec_value_def)
  next
    case False
    then have "dec_value (decimal (n div 10)) = int (n div 10)" using "1.IH" by simp
    moreover have "int (n div 10) * 10 + int (n mod 10) = int n" by presburger
    ultimately show ?thesis using False by (subst decimal.simps) simp
  qed
qed

lemma decimal_inj: "decimal m = decimal n \<Longrightarrow> m = n"
  by (metis dec_value_decimal of_nat_eq_iff)

lemma not_DIGIT_consts [simp]:
  "\<not> DIGIT CHR '':''" "\<not> DIGIT CHR ''(''" "\<not> DIGIT CHR '')''" "\<not> DIGIT NUL"
  by (simp_all add: DIGIT_def in_range_def schar_def)

text \<open>The number of digits \<open>DIGITS\<close> reports is that of \<open>decimal\<close> up to a million.\<close>

definition DIGITS :: "nat \<Rightarrow> nat" where
  "DIGITS n = (if n \<ge> 100000 then 6 else if n \<ge> 10000 then 5 else if n \<ge> 1000 then 4
               else if n \<ge> 100 then 3 else if n \<ge> 10 then 2 else 1)"

lemma length_decimal_step: "\<not> n < 10 \<Longrightarrow> length (decimal n) = Suc (length (decimal (n div 10)))"
  by (subst decimal.simps) simp

lemma length_decimal_digit [simp]: "n < 10 \<Longrightarrow> length (decimal n) = 1"
  by (subst decimal.simps) simp

lemma DIGITS_step: "\<not> n < 10 \<Longrightarrow> n < 1000000 \<Longrightarrow> DIGITS n = Suc (DIGITS (n div 10))"
  unfolding DIGITS_def by auto

lemma DIGITS_decimal: "n < 1000000 \<Longrightarrow> DIGITS n = length (decimal n)"
proof (induction n rule: decimal.induct)
  case (1 n)
  show ?case
  proof (cases "n < 10")
    case True
    then show ?thesis by (simp add: DIGITS_def)
  next
    case False
    have "n div 10 < 1000000" using "1.prems" by simp
    then have "DIGITS (n div 10) = length (decimal (n div 10))" using "1.IH" False by simp
    with False "1.prems" show ?thesis by (simp add: DIGITS_step length_decimal_step)
  qed
qed

subsection \<open>Lists\<close>

lemma takeWhile_digits_append:
  "(\<And>c. c \<in> set ds \<Longrightarrow> DIGIT c) \<Longrightarrow> \<not> DIGIT c \<Longrightarrow>
   takeWhile DIGIT (ds @ c # r) = ds"
  by (subst takeWhile_append2) auto

lemma dropWhile_digits_append:
  "(\<And>c. c \<in> set ds \<Longrightarrow> DIGIT c) \<Longrightarrow> \<not> DIGIT c \<Longrightarrow>
   dropWhile DIGIT (ds @ c # r) = c # r"
  by (subst dropWhile_append2) auto

end
