(* ===== verification/Octet.thy ===== *)
theory Octet
  imports Spocp_Base
begin

text \<open>
  Octet strings, the byte arrays of \<open>lib/oct.c\<close>. An \<^verbatim>\<open>octet_t\<close> has a pointer
  \<^verbatim>\<open>val\<close>, a length \<^verbatim>\<open>len\<close> and the size \<^verbatim>\<open>size\<close> of the memory it owns (0 when the
  memory belongs to somebody else). In the model \<open>oct_val\<close> is the memory from the pointer
  to the end of its buffer, so it may be longer than \<open>oct_len\<close>. Lengths are below
  \<open>2 ^ 31\<close>, so that the \<^verbatim>\<open>int\<close> copies of a length the code makes are exact. The bytes
  that \<^verbatim>\<open>Malloc\<close> and \<^verbatim>\<open>Realloc\<close> leave undefined are NUL in the model; nothing reads them.
\<close>

record octet =
  oct_val :: bytes
  oct_len :: nat
  oct_size :: nat

text \<open>The bytes an octet string denotes, and the two well-formedness conditions: its
  length stays inside its buffer, and an owned buffer is as large as recorded.\<close>

definition content :: "octet \<Rightarrow> bytes" where
  "content o1 = take (oct_len o1) (oct_val o1)"

definition wf_octet :: "octet \<Rightarrow> bool" where
  "wf_octet o1 \<longleftrightarrow> oct_len o1 \<le> length (oct_val o1) \<and> oct_len o1 < 2 ^ 31"

definition wf_dyn :: "octet \<Rightarrow> bool" where
  "wf_dyn o1 \<longleftrightarrow> wf_octet o1 \<and> oct_len o1 \<le> oct_size o1 \<and> oct_size o1 \<le> length (oct_val o1)"

definition mk_octet :: "bytes \<Rightarrow> octet" where
  "mk_octet s = \<lparr>oct_val = s, oct_len = length s, oct_size = 0\<rparr>"

lemma content_mk_octet [simp]: "content (mk_octet s) = s"
  by (simp add: content_def mk_octet_def)

lemma wf_mk_octet [cwf]: "length s < 2 ^ 31 \<Longrightarrow> wf_octet (mk_octet s)"
  by (simp add: wf_octet_def mk_octet_def)

lemma length_content [simp]: "wf_octet o1 \<Longrightarrow> length (content o1) = oct_len o1"
  by (simp add: content_def wf_octet_def)

lemma wf_octet_split: "wf_octet o1 \<Longrightarrow> \<exists>r. oct_val o1 = content o1 @ r"
  by (metis append_take_drop_id content_def)

subsection \<open>Memory operations used by the code\<close>

definition wr :: "bytes \<Rightarrow> nat \<Rightarrow> bytes \<Rightarrow> bytes option" where
  "wr p i s = (if i + length s \<le> length p then Some (take i p @ s @ drop (i + length s) p) else None)"

definition rdn :: "bytes \<Rightarrow> nat \<Rightarrow> bytes option" where
  "rdn p n = (if n \<le> length p then Some (take n p) else None)"

definition realloc :: "bytes \<Rightarrow> nat \<Rightarrow> bytes" where
  "realloc p n = take n p @ replicate (n - length p) NUL"

fun memcmp :: "bytes \<Rightarrow> bytes \<Rightarrow> nat \<Rightarrow> int option" where
  "memcmp p q 0 = Some 0"
| "memcmp (c # p) (d # q) (Suc n) =
     (if c = d then memcmp p q n else Some (int (of_char c) - int (of_char d)))"
| "memcmp p q (Suc n) = None"

lemma length_realloc [simp]: "length (realloc p n) = n"
  by (simp add: realloc_def)

lemma take_realloc [simp]: "k \<le> n \<Longrightarrow> k \<le> length p \<Longrightarrow> take k (realloc p n) = take k p"
  by (simp add: realloc_def)

lemma rdn_Some [simp]: "n \<le> length p \<Longrightarrow> rdn p n = Some (take n p)"
  by (simp add: rdn_def)

subsection \<open>Searching\<close>

fun find_balancing_loop :: "bytes \<Rightarrow> nat \<Rightarrow> char \<Rightarrow> char \<Rightarrow> nat \<Rightarrow> nat \<Rightarrow> int option" where
  "find_balancing_loop q 0 left right len seen = Some (- 1)"
| "find_balancing_loop [] (Suc n) left right len seen = None"
| "find_balancing_loop (c # q) (Suc n) left right len seen =
     (if c = left then find_balancing_loop q n left right len (Suc seen)
      else if c = right then
        (if seen = 0 then Some (int (len - Suc n))
         else find_balancing_loop q n left right len (seen - 1))
      else find_balancing_loop q n left right len seen)"

definition oct_find_balancing :: "octet \<Rightarrow> char \<Rightarrow> char \<Rightarrow> int option" where
  "oct_find_balancing o1 left right =
     find_balancing_loop (oct_val o1) (oct_len o1) left right (oct_len o1) 0"

fun octchr_loop :: "bytes \<Rightarrow> nat \<Rightarrow> char \<Rightarrow> nat \<Rightarrow> int option" where
  "octchr_loop p 0 ch i = Some (- 1)"
| "octchr_loop [] (Suc n) ch i = None"
| "octchr_loop (c # p) (Suc n) ch i = (if c = ch then Some (int i) else octchr_loop p n ch (Suc i))"

definition octchr :: "octet \<Rightarrow> char \<Rightarrow> int option" where
  "octchr op ch = octchr_loop (oct_val op) (oct_len op) ch 0"

fun octpbrk_loop :: "bytes \<Rightarrow> nat \<Rightarrow> bytes \<Rightarrow> nat \<Rightarrow> int option" where
  "octpbrk_loop p 0 acc i = Some (- 1)"
| "octpbrk_loop [] (Suc n) acc i = None"
| "octpbrk_loop (c # p) (Suc n) acc i =
     (if c \<in> set acc then Some (int i) else octpbrk_loop p n acc (Suc i))"

definition octpbrk :: "octet \<Rightarrow> octet \<Rightarrow> int option" where
  "octpbrk op acc =
     (if oct_len op = 0 then Some (- 1)
      else do { s \<leftarrow> rdn (oct_val acc) (oct_len acc); octpbrk_loop (oct_val op) (oct_len op) s 0 })"

text \<open>The inner loop of \<open>octstr\<close>: does the rest \<open>np\<close> of the NUL terminated needle match?\<close>

fun octstr_here :: "bytes \<Rightarrow> bytes \<Rightarrow> bool option" where
  "octstr_here op [] = None"
| "octstr_here op (c # np) =
     (if c = NUL then Some True
      else case op of [] \<Rightarrow> None | d # op' \<Rightarrow> if d = c then octstr_here op' np else Some False)"

fun octstr_loop :: "bytes \<Rightarrow> bytes \<Rightarrow> nat \<Rightarrow> nat \<Rightarrow> int option" where
  "octstr_loop sp needle n 0 = Some (- 1)"
| "octstr_loop sp needle n (Suc k) =
     (case sp of [] \<Rightarrow> None
      | d # sp' \<Rightarrow>
        (case needle of [] \<Rightarrow> None
         | c # np \<Rightarrow>
           if d = c
           then (case octstr_here sp' np of None \<Rightarrow> None
                 | Some True \<Rightarrow> Some (int n)
                 | Some False \<Rightarrow> octstr_loop sp' needle (Suc n) k)
           else octstr_loop sp' needle (Suc n) k))"

definition octstr :: "octet \<Rightarrow> bytes \<Rightarrow> int option" where
  "octstr o1 needle = do {
     nl \<leftarrow> strlen needle;
     if nl > oct_len o1 then Some (- 1)
     else octstr_loop (oct_val o1) needle 0 (oct_len o1 - nl + 1) }"

subsection \<open>Comparing\<close>

definition octcmp :: "octet option \<Rightarrow> octet option \<Rightarrow> int option" where
  "octcmp a b = (case (a, b) of
      (Some a, Some b) \<Rightarrow> do {
        r \<leftarrow> memcmp (oct_val a) (oct_val b) (min (oct_len a) (oct_len b));
        Some (if r = 0 then i32 (int (oct_len a) - int (oct_len b)) else r) }
    | _ \<Rightarrow> Some (- 1))"

definition octncmp :: "octet \<Rightarrow> octet \<Rightarrow> nat \<Rightarrow> int option" where
  "octncmp a b cn = memcmp (oct_val a) (oct_val b) (min (min (oct_len a) (oct_len b)) cn)"

definition oct2strcmp :: "octet option \<Rightarrow> bytes option \<Rightarrow> int option" where
  "oct2strcmp o1 s = (case (o1, s) of
      (None, None) \<Rightarrow> Some 0
    | (None, Some s) \<Rightarrow> Some (if s = [] then 0 else - 1)
    | (Some o1, None) \<Rightarrow> Some (- 1)
    | (Some o1, Some s) \<Rightarrow>
        if s = [] then Some (- 1)
        else if length s = oct_len o1 then memcmp s (oct_val o1) (oct_len o1)
        else do {
          let n = (if length s < oct_len o1 then length s else oct_len o1);
          r \<leftarrow> memcmp s (oct_val o1) n;
          Some (if r = 0 then (if n = length s then - 1 else 1) else r) })"

definition oct2strncmp :: "octet \<Rightarrow> bytes \<Rightarrow> nat \<Rightarrow> int option" where
  "oct2strncmp o1 s l = memcmp s (oct_val o1) (min (min (length s) (oct_len o1)) l)"

text \<open>\<open>octrcmp\<close> starts at the first byte of both strings and steps backwards, so from the
  second round on it reads before its buffers.\<close>

definition octrcmp :: "octet \<Rightarrow> octet \<Rightarrow> int option" where
  "octrcmp a b =
     (let n = min (oct_len a) (oct_len b) in
      if n = 0 then Some (i32 (int (oct_len a) - int (oct_len b)))
      else do {
        c \<leftarrow> rd (oct_val a) 0; d \<leftarrow> rd (oct_val b) 0;
        if c \<noteq> d then Some (schar c - schar d)
        else if n = 1 then Some (i32 (int (oct_len a) - int (oct_len b)))
        else None })"

subsection \<open>Copying, growing and appending\<close>

function oct_grow :: "nat \<Rightarrow> nat \<Rightarrow> nat" where
  "oct_grow sz new = (if sz = 0 \<or> new \<le> sz then sz else oct_grow (sz * 2) new)"
  by pat_completeness auto
termination
  by (relation "measure (\<lambda>(sz, new). new - sz)") auto

declare oct_grow.simps [simp del]

definition oct_resize :: "octet \<Rightarrow> nat \<Rightarrow> spocp_result \<times> octet" where
  "oct_resize o1 new =
     (if oct_size o1 = 0 then (SPOCP_DENIED, o1)
      else if new < oct_size o1 then (SPOCP_SUCCESS, o1)
      else let sz = oct_grow (oct_size o1) new
           in (SPOCP_SUCCESS, o1\<lparr>oct_size := sz, oct_val := realloc (oct_val o1) sz\<rparr>))"

definition oct_assign :: "bytes \<Rightarrow> octet" where
  "oct_assign str = \<lparr>oct_val = str @ [NUL], oct_len = length str, oct_size = 0\<rparr>"

definition octln :: "octet option \<Rightarrow> octet option \<Rightarrow> int \<times> octet option" where
  "octln a b = (case (a, b) of
      (Some a, Some b) \<Rightarrow> (1, Some \<lparr>oct_val = oct_val b, oct_len = oct_len b, oct_size = 0\<rparr>)
    | _ \<Rightarrow> (- 1, a))"

definition octcln :: "octet option \<Rightarrow> octet option" where
  "octcln src = map_option (\<lambda>s. \<lparr>oct_val = oct_val s, oct_len = oct_len s, oct_size = 0\<rparr>) src"

definition octdup :: "octet option \<Rightarrow> octet option option" where
  "octdup oct = (case oct of None \<Rightarrow> Some None
     | Some oct \<Rightarrow>
        if oct_len oct \<noteq> 0 then do {
          s \<leftarrow> rdn (oct_val oct) (oct_len oct);
          Some (Some \<lparr>oct_val = s @ [NUL], oct_len = oct_len oct, oct_size = oct_len oct\<rparr>) }
        else Some (Some \<lparr>oct_val = [], oct_len = 0, oct_size = 0\<rparr>))"

text \<open>\<open>octcpy_room\<close> and \<open>octcat_room\<close> are the parts of \<open>octcpy\<close> and \<open>octcat\<close> that see to the
  memory before the bytes are copied.\<close>

definition octcpy_room :: "octet \<Rightarrow> nat \<Rightarrow> spocp_result \<times> octet" where
  "octcpy_room cpy n =
     (if oct_size cpy = 0 then (SPOCP_SUCCESS, cpy\<lparr>oct_val := replicate (n + 1) NUL\<rparr>)
      else if oct_size cpy < n then oct_resize cpy n
      else (SPOCP_SUCCESS, cpy))"

definition octcpy :: "octet \<Rightarrow> octet \<Rightarrow> (spocp_result \<times> octet) option" where
  "octcpy cpy oct = (case octcpy_room cpy (oct_len oct) of (r, c) \<Rightarrow>
     if r \<noteq> SPOCP_SUCCESS then Some (SPOCP_DENIED, c)
     else do {
       s \<leftarrow> rdn (oct_val oct) (oct_len oct);
       v \<leftarrow> wr (oct_val c) 0 s;
       Some (SPOCP_SUCCESS, \<lparr>oct_val = v, oct_len = oct_len oct, oct_size = oct_len oct\<rparr>) })"

definition octclr :: "octet \<Rightarrow> octet" where
  "octclr oct = \<lparr>oct_val = [], oct_len = 0, oct_size = 0\<rparr>"

definition octmove :: "octet \<Rightarrow> octet \<Rightarrow> octet \<times> octet" where
  "octmove a b = (b, \<lparr>oct_val = [], oct_len = 0, oct_size = 0\<rparr>)"

definition octcat_room :: "octet \<Rightarrow> nat \<Rightarrow> spocp_result \<times> octet" where
  "octcat_room oct n =
     (if n > oct_size oct
      then (case oct_resize oct n of
              (r, o1) \<Rightarrow> (r, if r = SPOCP_SUCCESS then o1\<lparr>oct_size := n\<rparr> else o1))
      else (SPOCP_SUCCESS, oct))"

definition octcat :: "octet \<Rightarrow> bytes \<Rightarrow> nat \<Rightarrow> (spocp_result \<times> octet) option" where
  "octcat oct s l = (case octcat_room oct (oct_len oct + l) of (r, o1) \<Rightarrow>
     if r \<noteq> SPOCP_SUCCESS then Some (SPOCP_DENIED, o1)
     else do {
       src \<leftarrow> rdn s l;
       v \<leftarrow> wr (oct_val o1) (oct_len o1) src;
       Some (SPOCP_SUCCESS, o1\<lparr>oct_val := v, oct_len := oct_len oct + l\<rparr>) })"

definition oct_new :: "nat \<Rightarrow> bytes option \<Rightarrow> octet option" where
  "oct_new sz v = (case v of
      None \<Rightarrow> Some \<lparr>oct_val = replicate sz NUL, oct_len = 0, oct_size = sz\<rparr>
    | Some v \<Rightarrow> do {
        n \<leftarrow> (if sz = 0 then strlen v else Some sz);
        s \<leftarrow> rdn v n;
        Some \<lparr>oct_val = s, oct_len = n, oct_size = n\<rparr> })"

definition str2oct :: "bytes \<Rightarrow> bool \<Rightarrow> octet" where
  "str2oct str dynamic =
     \<lparr>oct_val = str @ [NUL], oct_len = length str, oct_size = (if dynamic then length str else 0)\<rparr>"

definition octset :: "bytes \<Rightarrow> nat \<Rightarrow> octet" where
  "octset s n = \<lparr>oct_val = s, oct_len = n, oct_size = n\<rparr>"

subsection \<open>Escaping\<close>

definition esc_plain :: "char \<Rightarrow> bool" where
  "esc_plain c \<longleftrightarrow> 0x20 \<le> schar c \<and> schar c < 0x7E \<and> schar c \<noteq> 0x25"

definition hexdigit :: "nat \<Rightarrow> char" where
  "hexdigit d = (if d > 9 then char_of (d + 0x57) else char_of (d + 0x30))"

definition esc_char :: "char \<Rightarrow> char \<Rightarrow> bytes" where
  "esc_char ec c =
     (if esc_plain c then [c]
      else [ec, hexdigit (of_char c div 16), hexdigit (of_char c mod 16)])"

definition oct2strdup_size :: "bytes \<Rightarrow> char \<Rightarrow> nat" where
  "oct2strdup_size s ec =
     (if ec = NUL then length s + 1 else 1 + (\<Sum>c\<leftarrow>s. if esc_plain c then 1 else 4))"

definition oct2strdup :: "octet option \<Rightarrow> char \<Rightarrow> bytes option option" where
  "oct2strdup op ec = (case op of None \<Rightarrow> Some None
     | Some op \<Rightarrow>
        if oct_len op = 0 then Some None
        else do {
          s \<leftarrow> rdn (oct_val op) (oct_len op);
          Some (Some ((if ec = NUL then s else concat (map (esc_char ec) s)) @ [NUL])) })"

text \<open>\<open>oct2strcpy\<close> returns the C result and the bytes it has written to \<^verbatim>\<open>str\<close>; \<open>room\<close> is the
  distance from \<^verbatim>\<open>sp\<close> to \<^verbatim>\<open>end\<close>.\<close>

fun oct2strcpy_loop :: "char \<Rightarrow> bytes \<Rightarrow> nat \<Rightarrow> bytes \<times> bool" where
  "oct2strcpy_loop ec [] room = (if room = 0 then ([], False) else ([NUL], True))"
| "oct2strcpy_loop ec (c # cs) room =
     (if room = 0 then ([], False)
      else if esc_plain c then
        (case oct2strcpy_loop ec cs (room - 1) of (w, ok) \<Rightarrow> (c # w, ok))
      else if room \<le> 3 then ([], False)
      else (case oct2strcpy_loop ec cs (room - 3) of (w, ok) \<Rightarrow> (esc_char ec c @ w, ok)))"

definition oct2strcpy :: "octet \<Rightarrow> nat \<Rightarrow> char \<Rightarrow> (int \<times> bytes) option" where
  "oct2strcpy op len ec =
     (if oct_len op = 0 \<or> oct_len op + 1 > len then Some (- 1, [])
      else do {
        s \<leftarrow> rdn (oct_val op) (oct_len op);
        if ec = NUL then Some (int (oct_len op), s @ [NUL])
        else case oct2strcpy_loop ec s len of
          (w, ok) \<Rightarrow> Some (if ok then int (oct_len op) else - 1, w) })"

definition hexval :: "char \<Rightarrow> nat option" where
  "hexval c = (if HEX_LOWER c then Some (of_char c - 0x57)
     else if HEX_UPPER c then Some (of_char c - 0x37)
     else if DIGIT c then Some (of_char c - 0x30) else None)"

text \<open>The loop of \<open>oct_de_escape\<close> over the bytes from \<^verbatim>\<open>fp\<close> to \<^verbatim>\<open>ep\<close>; \<open>c\<close> is the C variable of
  that name, which keeps its value when a hex digit is malformed. The result is the
  bytes written at \<^verbatim>\<open>tp\<close> and whether the loop ended normally.\<close>

fun de_escape_loop :: "char \<Rightarrow> nat \<Rightarrow> bytes \<Rightarrow> bytes \<times> bool" where
  "de_escape_loop ec c [] = ([], True)"
| "de_escape_loop ec c (f # fp) =
     (if f = ec then
        (case fp of [] \<Rightarrow> ([], False)
         | g # fp' \<Rightarrow>
            if g = ec then (case de_escape_loop ec c fp' of (w, ok) \<Rightarrow> (g # w, ok))
            else let c1 = (case hexval g of Some h \<Rightarrow> (h * 16) mod 256 | None \<Rightarrow> c) in
              (case fp' of [] \<Rightarrow> ([], False)
               | h # fp'' \<Rightarrow>
                  let c2 = (case hexval h of Some l \<Rightarrow> (c1 + l) mod 256 | None \<Rightarrow> c1) in
                  (case de_escape_loop ec c2 fp'' of (w, ok) \<Rightarrow> (char_of c2 # w, ok))))
      else (case de_escape_loop ec c fp of (w, ok) \<Rightarrow> (f # w, ok)))"

definition oct_de_escape :: "octet option \<Rightarrow> char \<Rightarrow> (int \<times> octet option) option" where
  "oct_de_escape op ec = (case op of None \<Rightarrow> Some (0, None)
     | Some op \<Rightarrow> do {
         s \<leftarrow> rdn (oct_val op) (oct_len op);
         case de_escape_loop ec 0 s of (w, ok) \<Rightarrow>
           let v = w @ drop (length w) (oct_val op) in
           Some (if ok then (int (length w), Some (op\<lparr>oct_val := v, oct_len := length w\<rparr>))
                 else (- 1, Some (op\<lparr>oct_val := v\<rparr>))) })"

subsection \<open>Numbers\<close>

text \<open>The digits are read from the last one, with the weight \<open>d\<close> and the sum \<open>r\<close> as 32-bit
  integers.\<close>

fun octtoi_loop :: "bytes \<Rightarrow> int \<Rightarrow> int \<Rightarrow> int" where
  "octtoi_loop [] r d = r"
| "octtoi_loop (c # cs) r d =
     (if \<not> DIGIT c then - 1
      else octtoi_loop cs (i32 (r + i32 (digitval c * d))) (i32 (d * 10)))"

definition octtoi :: "octet \<Rightarrow> int option" where
  "octtoi o1 =
     (if oct_len o1 > 10 then Some (- 1)
      else do {
        big \<leftarrow> (if oct_len o1 = 10
                then map_option (\<lambda>r. r > 0) (oct2strcmp (Some o1) (Some ''2147483647''))
                else Some False);
        if big then Some (- 1)
        else do { s \<leftarrow> rdn (oct_val o1) (oct_len o1); Some (octtoi_loop (rev s) 0 1) } })"


subsection \<open>Order\<close>

definition byte_order :: "(char \<times> char) set" where
  "byte_order = {(c, d). (of_char c :: nat) < of_char d}"

lemma of_char_less_iff: "c \<noteq> d \<Longrightarrow> (of_char c :: nat) < of_char d \<or> (of_char d :: nat) < of_char c"
  by (metis char_of_char nat_neq_iff)

lemma memcmp_total: "n \<le> length p \<Longrightarrow> n \<le> length q \<Longrightarrow> \<exists>r. memcmp p q n = Some r"
  by (induction p q n rule: memcmp.induct) auto

lemma memcmp_zero_iff:
  "memcmp p q n = Some r \<Longrightarrow> r = 0 \<longleftrightarrow> take n p = take n q"
  by (induction p q n rule: memcmp.induct) (auto split: if_splits)

lemma memcmp_neg_iff:
  "memcmp p q n = Some r \<Longrightarrow> r < 0 \<longleftrightarrow> (take n p, take n q) \<in> lexord byte_order"
  by (induction p q n rule: memcmp.induct) (auto simp: byte_order_def split: if_splits)

text \<open>Comparing the common part first and the lengths afterwards is the lexicographic order.\<close>

lemma lexord_by_prefix:
  assumes "n = min (length xs) (length ys)"
  shows "(xs, ys) \<in> lexord r \<longleftrightarrow>
    (take n xs, take n ys) \<in> lexord r \<or> take n xs = take n ys \<and> length xs < length ys"
  using assms
proof (induction xs arbitrary: ys n)
  case Nil
  then show ?case by (cases ys) auto
next
  case (Cons x xs)
  show ?case
  proof (cases ys)
    case Nil
    then show ?thesis using Cons.prems by simp
  next
    case (Cons y ys')
    define m where "m = min (length xs) (length ys')"
    have n: "n = Suc m" using Cons.prems Cons by (simp add: m_def)
    show ?thesis using Cons.IH [OF m_def] by (auto simp: Cons n)
  qed
qed

lemma eq_by_prefix:
  "n = min (length xs) (length ys) \<Longrightarrow>
   xs = ys \<longleftrightarrow> take n xs = take n ys \<and> length xs = length ys"
  by auto

lemma i32_diff_sign:
  assumes "a < 2 ^ 31" "b < 2 ^ 31"
  shows "i32 (int a - int b) = int a - int b"
  unfolding i32_def by (rule signed_take_bit_int_eq_self) (use assms in auto)

lemma octcmp_lex:
  assumes "wf_octet a" and "wf_octet b"
  shows "\<exists>r. octcmp (Some a) (Some b) = Some r \<and>
    (r = 0 \<longleftrightarrow> content a = content b) \<and> (r < 0 \<longleftrightarrow> (content a, content b) \<in> lexord byte_order)"
proof -
  define n where "n = min (oct_len a) (oct_len b)"
  have nab: "n = min (length (content a)) (length (content b))" using assms by (simp add: n_def)
  have len: "n \<le> length (oct_val a)" "n \<le> length (oct_val b)"
    using assms by (auto simp: wf_octet_def n_def)
  then obtain r where r: "memcmp (oct_val a) (oct_val b) n = Some r" using memcmp_total by blast
  have tk: "take n (oct_val a) = take n (content a)" "take n (oct_val b) = take n (content b)"
    by (auto simp: content_def n_def min_def)
  have z: "r = 0 \<longleftrightarrow> take n (content a) = take n (content b)"
    using memcmp_zero_iff [OF r] tk by simp
  have ng: "r < 0 \<longleftrightarrow> (take n (content a), take n (content b)) \<in> lexord byte_order"
    using memcmp_neg_iff [OF r] tk by simp
  define s where "s = (if r = 0 then i32 (int (oct_len a) - int (oct_len b)) else r)"
  have s: "octcmp (Some a) (Some b) = Some s" using r by (simp add: octcmp_def s_def n_def)
  have d: "i32 (int (oct_len a) - int (oct_len b)) = int (oct_len a) - int (oct_len b)"
    using assms by (intro i32_diff_sign) (auto simp: wf_octet_def)
  have irr: "\<not> (take n (content a), take n (content a)) \<in> lexord byte_order"
    by (simp add: byte_order_def lexord_irreflexive)
  have "s = 0 \<longleftrightarrow> content a = content b"
    using eq_by_prefix [OF nab] z d assms by (auto simp: s_def)
  moreover have "s < 0 \<longleftrightarrow> (content a, content b) \<in> lexord byte_order"
    using lexord_by_prefix [OF nab, of byte_order] z ng d assms irr by (auto simp: s_def)
  ultimately show ?thesis using s by blast
qed

text \<open>\<open>octcmp\<close> of two octet strings always returns, and its sign is the
  lexicographic order of the bytes read as unsigned: zero for equal strings, negative when
  the first is the smaller.\<close>

theorem octcmp_order:
  assumes "wf_octet a" and "wf_octet b"
  shows "\<exists>r. octcmp (Some a) (Some b) = Some r \<and>
    (r = 0 \<longleftrightarrow> content a = content b) \<and> (r < 0 \<longleftrightarrow> (content a, content b) \<in> lexord byte_order)"
  using assms by (rule octcmp_lex)

theorem octcmp_order_witness:
  "wf_octet (mk_octet ''ab'') \<and> wf_octet (mk_octet ''b'') \<and>
   (\<exists>r. octcmp (Some (mk_octet ''ab'')) (Some (mk_octet ''b'')) = Some r \<and>
     (r = 0 \<longleftrightarrow> ''ab'' = ''b'') \<and> (r < 0 \<longleftrightarrow> (''ab'', ''b'') \<in> lexord byte_order))"
  using octcmp_order [of "mk_octet ''ab''" "mk_octet ''b''"] by (simp add: wf_mk_octet)


lemma oct2strcmp_reversed:
  assumes "wf_octet o1" and "s \<noteq> []"
  shows "\<exists>r. oct2strcmp (Some o1) (Some s) = Some r \<and>
    (r = 0 \<longleftrightarrow> s = content o1) \<and> (r < 0 \<longleftrightarrow> (s, content o1) \<in> lexord byte_order)"
proof -
  define n where "n = min (length s) (oct_len o1)"
  have nab: "n = min (length s) (length (content o1))" using assms by (simp add: n_def)
  have len: "n \<le> length s" "n \<le> length (oct_val o1)"
    using assms by (auto simp: wf_octet_def n_def)
  then obtain r where r: "memcmp s (oct_val o1) n = Some r" using memcmp_total by blast
  have tk: "take n (oct_val o1) = take n (content o1)"
    by (auto simp: content_def n_def min_def)
  have z: "r = 0 \<longleftrightarrow> take n s = take n (content o1)" using memcmp_zero_iff [OF r] tk by simp
  have ng: "r < 0 \<longleftrightarrow> (take n s, take n (content o1)) \<in> lexord byte_order"
    using memcmp_neg_iff [OF r] tk by simp
  have irr: "\<not> (take n s, take n s) \<in> lexord byte_order"
    by (simp add: byte_order_def lexord_irreflexive)
  define t where "t = (if length s = oct_len o1 then r
     else if r = 0 then (if length s < oct_len o1 then - 1 else 1) else r)"
  have t: "oct2strcmp (Some o1) (Some s) = Some t"
    using r assms by (auto simp: oct2strcmp_def t_def n_def Let_def min_def split: if_splits)
  have "t = 0 \<longleftrightarrow> s = content o1"
    using eq_by_prefix [OF nab] z assms by (auto simp: t_def)
  moreover have "t < 0 \<longleftrightarrow> (s, content o1) \<in> lexord byte_order"
    using lexord_by_prefix [OF nab, of byte_order] z ng assms irr by (auto simp: t_def)
  ultimately show ?thesis using t by blast
qed

subsection \<open>Appending\<close>

lemma oct_grow_ge: "0 < sz \<Longrightarrow> new \<le> oct_grow sz new \<and> sz \<le> oct_grow sz new"
proof (induction sz new rule: oct_grow.induct)
  case (1 sz new)
  then show ?case
    by (cases "sz = 0 \<or> new \<le> sz") (auto simp: oct_grow.simps [of sz new])
qed

lemma oct_resize_ok:
  assumes "wf_dyn o1" and "0 < oct_size o1"
  obtains o2 where "oct_resize o1 n = (SPOCP_SUCCESS, o2)" and "n \<le> length (oct_val o2)"
    and "content o2 = content o1" and "oct_len o2 = oct_len o1" and "wf_dyn o2" 
proof (cases "n < oct_size o1")
  case True
  then show ?thesis using assms that [of o1] by (auto simp: oct_resize_def wf_dyn_def)
next
  case False
  define g where "g = oct_grow (oct_size o1) n"
  have g: "n \<le> g" "oct_size o1 \<le> g" using oct_grow_ge assms(2) by (auto simp: g_def)
  show ?thesis
    by (rule that [of "o1\<lparr>oct_size := g, oct_val := realloc (oct_val o1) g\<rparr>"])
      (use False assms g in \<open>auto simp: oct_resize_def g_def [symmetric] wf_dyn_def wf_octet_def content_def\<close>)
qed

lemma wr_Some: "i + length s \<le> length p \<Longrightarrow> wr p i s = Some (take i p @ s @ drop (i + length s) p)"
  by (simp add: wr_def)

lemma octcat_room_ok:
  assumes "wf_dyn o1" and "0 < oct_size o1" and "oct_len o1 \<le> n"
  obtains o2 where "octcat_room o1 n = (SPOCP_SUCCESS, o2)"
    and "take (oct_len o1) (oct_val o2) = content o1" and "oct_len o2 = oct_len o1"
    and "n \<le> oct_size o2" and "oct_size o2 \<le> length (oct_val o2)" and "0 < oct_size o2"
proof (cases "n > oct_size o1")
  case True
  obtain o2 where "oct_resize o1 n = (SPOCP_SUCCESS, o2)" "n \<le> length (oct_val o2)"
    "content o2 = content o1" "oct_len o2 = oct_len o1"
    using oct_resize_ok [OF assms(1,2)] by metis
  with True show ?thesis
    by (intro that [of "o2\<lparr>oct_size := n\<rparr>"]) (auto simp: octcat_room_def content_def)
next
  case False
  with assms show ?thesis
    by (intro that [of o1]) (auto simp: octcat_room_def content_def wf_dyn_def)
qed

lemma octcat_content:
  assumes "wf_dyn o1" and "0 < oct_size o1" and "l \<le> length s" and "oct_len o1 + l < 2 ^ 31"
  shows "\<exists>o2. octcat o1 s l = Some (SPOCP_SUCCESS, o2) \<and> content o2 = content o1 @ take l s \<and>
    wf_dyn o2 \<and> 0 < oct_size o2"
proof -
  obtain o2 where o2: "octcat_room o1 (oct_len o1 + l) = (SPOCP_SUCCESS, o2)"
      "take (oct_len o1) (oct_val o2) = content o1" "oct_len o2 = oct_len o1"
      "oct_len o1 + l \<le> oct_size o2" "oct_size o2 \<le> length (oct_val o2)" "0 < oct_size o2"
    using octcat_room_ok [OF assms(1,2), of "oct_len o1 + l"] by auto
  then have "octcat o1 s l = Some (SPOCP_SUCCESS, o2\<lparr>oct_val := content o1 @ take l s @
      drop (oct_len o1 + l) (oct_val o2), oct_len := oct_len o1 + l\<rparr>)"
    using assms(3) by (simp add: octcat_def wr_Some)
  moreover have "length (content o1) = oct_len o1" using assms(1) by (simp add: wf_dyn_def)
  ultimately show ?thesis
    using o2 assms(3,4) by (auto simp: content_def wf_dyn_def wf_octet_def)
qed

text \<open>\<open>octcat\<close> on an octet string that owns its memory succeeds, grows the memory
  when needed, appends exactly the given bytes and keeps the octet string well formed.\<close>

theorem octcat_appends:
  assumes "wf_dyn o1" and "0 < oct_size o1" and "l \<le> length s" and "oct_len o1 + l < 2 ^ 31"
  shows "\<exists>o2. octcat o1 s l = Some (SPOCP_SUCCESS, o2) \<and> content o2 = content o1 @ take l s \<and>
    wf_dyn o2 \<and> 0 < oct_size o2"
  using assms by (rule octcat_content)

theorem octcat_appends_witness:
  "\<exists>o2. octcat \<lparr>oct_val = ''ab'', oct_len = 2, oct_size = 2\<rparr> ''cde'' 3 = Some (SPOCP_SUCCESS, o2) \<and>
    content o2 = ''abcde'' \<and> wf_dyn o2 \<and> 0 < oct_size o2"
  using octcat_appends [of "\<lparr>oct_val = ''ab'', oct_len = 2, oct_size = 2\<rparr>" 3 "''cde''"]
  by (simp add: wf_dyn_def wf_octet_def content_def)


subsection \<open>Copying\<close>

lemma octdup_content:
  assumes "wf_octet o1" and "oct_len o1 \<noteq> 0"
  shows "\<exists>o2. octdup (Some o1) = Some (Some o2) \<and> content o2 = content o1 \<and> wf_dyn o2 \<and>
    rd (oct_val o2) (oct_len o2) = Some NUL"
  using assms by (auto simp: octdup_def wf_octet_def wf_dyn_def content_def nth_append)

lemma octcpy_content:
  assumes "wf_dyn c \<or> oct_size c = 0" and "wf_octet o1"
  shows "\<exists>o2. octcpy c o1 = Some (SPOCP_SUCCESS, o2) \<and> content o2 = content o1 \<and> wf_dyn o2"
proof -
  have o1: "oct_len o1 \<le> length (oct_val o1)" using assms(2) by (simp add: wf_octet_def)
  have "\<exists>c'. octcpy_room c (oct_len o1) = (SPOCP_SUCCESS, c') \<and> oct_len o1 \<le> length (oct_val c')"
  proof (cases "oct_size c = 0 \<or> \<not> oct_size c < oct_len o1")
    case True
    then show ?thesis using assms(1) by (auto simp: octcpy_room_def wf_dyn_def)
  next
    case False
    then have "wf_dyn c" "0 < oct_size c" using assms(1) by auto
    then obtain c' where "oct_resize c (oct_len o1) = (SPOCP_SUCCESS, c')" "oct_len o1 \<le> length (oct_val c')"
      using oct_resize_ok by metis
    with False show ?thesis by (auto simp: octcpy_room_def)
  qed
  then obtain c' where "octcpy_room c (oct_len o1) = (SPOCP_SUCCESS, c')" "oct_len o1 \<le> length (oct_val c')"
    by blast
  with o1 assms(2) show ?thesis
    by (auto simp: octcpy_def wr_Some content_def wf_dyn_def wf_octet_def)
qed

subsection \<open>Escaping\<close>

lemma hexval_hexdigit [simp]: "d < 16 \<Longrightarrow> hexval (hexdigit d) = Some d"
  by (simp add: hexval_def hexdigit_def HEX_LOWER_def HEX_UPPER_def DIGIT_def in_range_def schar_def)

lemma hexdigit_HEX: "d < 16 \<Longrightarrow> HEX (hexdigit d)"
  by (simp add: hexdigit_def HEX_def HEX_LOWER_def HEX_UPPER_def DIGIT_def in_range_def schar_def)

lemma de_escape_esc_char:
  assumes "\<not> esc_plain ec" and "\<not> HEX ec"
  shows "de_escape_loop ec c (esc_char ec d @ r) =
    (case de_escape_loop ec (if esc_plain d then c else of_char d) r of (w, ok) \<Rightarrow> (d # w, ok))"
proof (cases "esc_plain d")
  case True
  with assms(1) have "d \<noteq> ec" by auto
  with True show ?thesis by (simp add: esc_char_def)
next
  case False
  have hi: "of_char d div 16 < (16::nat)" by (simp add: less_mult_imp_div_less)
  have ne: "hexdigit (of_char d div 16) \<noteq> ec" using assms(2) hexdigit_HEX [OF hi] by auto
  have "of_char d div 16 * 16 + of_char d mod 16 = (of_char d :: nat)" by simp
  with False hi ne show ?thesis by (simp add: esc_char_def Let_def)
qed

lemma de_escape_escaped:
  assumes "\<not> esc_plain ec" and "\<not> HEX ec"
  shows "de_escape_loop ec c (concat (map (esc_char ec) s)) = (s, True)"
  by (induction s arbitrary: c) (simp_all add: de_escape_esc_char [OF assms])

text \<open>Escaping a non-empty octet string with \<^verbatim>\<open>%\<close> by \<open>oct2strdup\<close> and reading the
  result back with \<open>oct_de_escape\<close> returns the original bytes, whatever they are.\<close>

theorem escape_roundtrip:
  assumes "wf_octet o1" and "oct_len o1 \<noteq> 0"
  shows "\<exists>s o2. oct2strdup (Some o1) CHR ''%'' = Some (Some (s @ [NUL])) \<and>
    oct_de_escape (Some (mk_octet s)) CHR ''%'' = Some (int (oct_len o1), Some o2) \<and>
    content o2 = content o1"
proof -
  have pc: "\<not> esc_plain CHR ''%''" "\<not> HEX CHR ''%''"
    by (simp_all add: esc_plain_def char_macros)
  define s where "s = concat (map (esc_char CHR ''%'') (content o1))"
  have "oct2strdup (Some o1) CHR ''%'' = Some (Some (s @ [NUL]))"
    using assms by (simp add: oct2strdup_def wf_octet_def s_def content_def)
  moreover have "oct_de_escape (Some (mk_octet s)) CHR ''%'' = Some (int (oct_len o1),
      Some \<lparr>oct_val = content o1 @ drop (length (content o1)) s, oct_len = length (content o1), oct_size = 0\<rparr>)"
    using de_escape_escaped [OF pc, of 0 "content o1"] assms
    by (simp add: oct_de_escape_def mk_octet_def s_def)
  ultimately show ?thesis using assms by (auto simp: content_def wf_octet_def min_def)
qed

theorem escape_roundtrip_witness:
  "\<exists>s o2. oct2strdup (Some (mk_octet [CHR ''%'', CHR 0xFF])) CHR ''%'' = Some (Some (s @ [NUL])) \<and>
    oct_de_escape (Some (mk_octet s)) CHR ''%'' = Some (2, Some o2) \<and>
    content o2 = [CHR ''%'', CHR 0xFF]"
  using escape_roundtrip [of "mk_octet [CHR ''%'', CHR 0xFF]"]
  by (simp add: wf_mk_octet) (simp add: mk_octet_def)


lemma escaped_length: "length (concat (map (esc_char ec) s)) \<le> (\<Sum>c\<leftarrow>s. if esc_plain c then 1 else 4)"
  by (induction s) (auto simp: esc_char_def)

lemma oct2strdup_fits:
  assumes "oct2strdup (Some o1) ec = Some (Some r)"
  shows "length r \<le> oct2strdup_size (content o1) ec"
  using assms escaped_length [of ec "content o1"]
  by (auto simp: oct2strdup_def oct2strdup_size_def content_def rdn_def split: if_splits)

lemma oct2strcpy_loop_bound: "length (fst (oct2strcpy_loop ec s room)) \<le> room"
  by (induction ec s room rule: oct2strcpy_loop.induct)
    (auto simp: esc_char_def split: prod.splits)

lemma oct2strcpy_loop_ok:
  "oct2strcpy_loop ec s room = (w, True) \<Longrightarrow> w = concat (map (esc_char ec) s) @ [NUL]"
  by (induction ec s room arbitrary: w rule: oct2strcpy_loop.induct)
    (auto simp: esc_char_def split: prod.splits if_splits)

text \<open>\<open>oct2strcpy\<close> never writes more than the given number of bytes, also when it
  gives up in the middle, and what it has written when it succeeds is the (escaped) string
  with its terminating NUL.\<close>

theorem oct2strcpy_bounded:
  assumes "oct2strcpy op n ec = Some (r, w)"
  shows "length w \<le> n \<and> (r \<noteq> - 1 \<longrightarrow>
    w = (if ec = NUL then content op else concat (map (esc_char ec) (content op))) @ [NUL])"
  using assms oct2strcpy_loop_bound [of ec "content op" n] oct2strcpy_loop_ok [of ec "content op" n]
  by (auto simp: oct2strcpy_def content_def rdn_def split: if_splits prod.splits)


theorem oct2strcpy_bounded_witness:
  "oct2strcpy (mk_octet ''a%'') 5 CHR ''%'' = Some (2, ''a%25'' @ [NUL]) \<and>
   length (''a%25'' @ [NUL]) \<le> 5"
proof -
  have "oct2strcpy (mk_octet ''a%'') 5 CHR ''%'' = Some (2, ''a%25'' @ [NUL])" by code_simp
  then show ?thesis using oct2strcpy_bounded by blast
qed


subsection \<open>Numbers\<close>

lemma octtoi_loop_nondigit: "\<exists>c \<in> set cs. \<not> DIGIT c \<Longrightarrow> octtoi_loop cs r d = - 1"
  by (induction cs r d rule: octtoi_loop.induct) auto

lemma dec_value_nonneg: "\<forall>c \<in> set s. DIGIT c \<Longrightarrow> 0 \<le> dec_value s \<and> dec_value s < 10 ^ length s"
proof (induction s rule: rev_induct)
  case (snoc c s)
  then have "0 \<le> dec_value s" "dec_value s < 10 ^ length s" "0 \<le> digitval c" "digitval c \<le> 9"
    using digitval_range by auto
  then show ?case by simp
qed simp

lemma octtoi_loop_digits:
  assumes "\<forall>c \<in> set cs. DIGIT c" and "k + length cs \<le> 9" and "0 \<le> r" and "r < 10 ^ k"
  shows "octtoi_loop cs r (10 ^ k) = r + 10 ^ k * dec_value (rev cs)"
  using assms
proof (induction cs arbitrary: r k)
  case (Cons c cs)
  have c: "0 \<le> digitval c" "digitval c \<le> 9" using Cons.prems digitval_range by auto
  have k: "Suc k \<le> 9" using Cons.prems by simp
  then have "(10::int) ^ Suc k \<le> 10 ^ 9" by (rule power_increasing) simp
  then have p: "10 * (10::int) ^ k \<le> 1000000000" by simp
  define r' where "r' = r + digitval c * 10 ^ k"
  have le: "digitval c * 10 ^ k \<le> 9 * 10 ^ k" using c by (intro mult_right_mono) auto
  have r': "0 \<le> r'" using c Cons.prems(3) by (simp add: r'_def)
  have r'u: "r' < 10 ^ Suc k" using Cons.prems(4) le unfolding r'_def power_Suc by linarith
  have dk: "i32 (digitval c * 10 ^ k) = digitval c * 10 ^ k"
  proof (rule i32_small)
    show "0 \<le> digitval c * 10 ^ k" using c by simp
    have "digitval c * 10 ^ k \<le> 900000000" using le p by linarith
    then show "digitval c * 10 ^ k < 2 ^ 31" by simp
  qed
  have rr: "i32 (r + digitval c * 10 ^ k) = r'"
    using r' r'u p by (simp add: r'_def [symmetric])
  have d: "i32 (10 ^ k * 10) = 10 ^ Suc k" using p by simp
  have "octtoi_loop (c # cs) r (10 ^ k) = octtoi_loop cs r' (10 ^ Suc k)"
    using Cons.prems(1) by (simp add: dk rr d del: power_Suc)
  also have "\<dots> = r' + 10 ^ Suc k * dec_value (rev cs)"
    using Cons.prems r' r'u by (intro Cons.IH) auto
  finally show ?case by (simp add: r'_def algebra_simps)
qed simp

text \<open>On at most nine characters \<open>octtoi\<close> returns the decimal value when all of them are
  digits and -1 otherwise.\<close>

theorem octtoi_nine_digits:
  assumes "wf_octet o1" and "oct_len o1 \<le> 9"
  shows "octtoi o1 = Some (if \<forall>c \<in> set (content o1). DIGIT c then dec_value (content o1) else - 1)"
proof -
  have "octtoi o1 = Some (octtoi_loop (rev (content o1)) 0 1)"
    using assms by (simp add: octtoi_def wf_octet_def content_def)
  moreover have "octtoi_loop (rev (content o1)) 0 1 = dec_value (content o1)"
    if "\<forall>c \<in> set (content o1). DIGIT c"
    using octtoi_loop_digits [of "rev (content o1)" 0 0] that assms by simp
  moreover have "octtoi_loop (rev (content o1)) 0 1 = - 1"
    if "\<not> (\<forall>c \<in> set (content o1). DIGIT c)"
    using that by (intro octtoi_loop_nondigit) auto
  ultimately show ?thesis by simp
qed

theorem octtoi_nine_digits_witness:
  "octtoi (mk_octet ''007'') = Some 7"
  using octtoi_nine_digits [of "mk_octet ''007''"]
  by (simp add: wf_octet_def mk_octet_def content_def dec_value_def digitval_def char_macros)


lemma byte_order_asym: "asym (lexord byte_order)"
  by (rule lexord_asym) (auto simp: byte_order_def asym_on_def)

text \<open>\<open>octtoi\<close> guards against numbers above \<open>2147483647\<close> with \<open>oct2strcmp\<close>, whose sign is
  that of the string against the octet string; so it rejects exactly the ten-character
  numbers that are smaller, which fit an \<^verbatim>\<open>int\<close>.\<close>

theorem octtoi_ten_digits_rejected:
  assumes "wf_octet o1" and "oct_len o1 = 10"
    and "(content o1, ''2147483647'') \<in> lexord byte_order"
  shows "octtoi o1 = Some (- 1)"
proof -
  have ne: "(''2147483647'' :: bytes) \<noteq> []" by simp
  obtain r where r: "oct2strcmp (Some o1) (Some ''2147483647'') = Some r"
      "r = 0 \<longleftrightarrow> ''2147483647'' = content o1"
      "r < 0 \<longleftrightarrow> (''2147483647'', content o1) \<in> lexord byte_order"
    using oct2strcmp_reversed [OF assms(1) ne] by blast
  have "(''2147483647'', content o1) \<notin> lexord byte_order"
    using assms(3) byte_order_asym by (meson asymD)
  moreover have "''2147483647'' \<noteq> content o1"
    using assms(3) byte_order_asym by (metis asymD)
  ultimately have "r > 0" using r(2,3) by linarith
  then show ?thesis using r(1) assms(2) by (simp add: octtoi_def)
qed

theorem octtoi_ten_digits_rejected_witness:
  "octtoi (mk_octet ''1000000000'') = Some (- 1) \<and> octtoi (mk_octet ''9999999999'') = Some 1410065407"
proof
  show "octtoi (mk_octet ''1000000000'') = Some (- 1)"
    by (rule octtoi_ten_digits_rejected)
      (simp_all add: wf_mk_octet mk_octet_def wf_octet_def content_def byte_order_def)
  show "octtoi (mk_octet ''9999999999'') = Some 1410065407" by code_simp
qed


subsection \<open>Searching\<close>

lemma octstr_here_iff:
  "NUL \<notin> set np \<Longrightarrow> length np \<le> length op \<Longrightarrow>
   octstr_here op (np @ [NUL]) = Some (take (length np) op = np)"
  by (induction np arbitrary: op) (auto simp: Suc_le_length_iff)

definition occurs_at :: "bytes \<Rightarrow> bytes \<Rightarrow> nat \<Rightarrow> bool" where
  "occurs_at s p k \<longleftrightarrow> take (length s) (drop k p) = s"

lemma octstr_loop_first:
  assumes "NUL \<notin> set s" and "s \<noteq> []" and "k + length s \<le> Suc (length sp)"
  shows "\<exists>r. octstr_loop sp (s @ [NUL]) n k = Some r \<and>
    (r = - 1 \<and> (\<forall>j<k. \<not> occurs_at s sp j) \<or>
     (\<exists>j<k. r = int (n + j) \<and> occurs_at s sp j \<and> (\<forall>i<j. \<not> occurs_at s sp i)))"
  using assms(3)
proof (induction k arbitrary: sp n)
  case (Suc k)
  obtain c s' where s: "s = c # s'" using assms(2) by (cases s) auto
  obtain d sp' where sp: "sp = d # sp'" using Suc.prems assms(2) by (cases sp) (auto simp: s)
  have here: "octstr_here sp' (s' @ [NUL]) = Some (take (length s') sp' = s')"
    using assms(1) Suc.prems by (intro octstr_here_iff) (auto simp: s sp)
  have occ0: "occurs_at s sp 0 \<longleftrightarrow> c = d \<and> take (length s') sp' = s'"
    by (auto simp: occurs_at_def s sp)
  have occS: "occurs_at s sp (Suc j) \<longleftrightarrow> occurs_at s sp' j" for j
    by (simp add: occurs_at_def sp)
  show ?case
  proof (cases "occurs_at s sp 0")
    case True
    then have "octstr_loop sp (s @ [NUL]) n (Suc k) = Some (int n)"
      using here occ0 by (simp add: s sp)
    with True show ?thesis by (intro exI [of _ "int n"]) auto
  next
    case False
    have eq: "octstr_loop sp (s @ [NUL]) n (Suc k) = octstr_loop sp' (s @ [NUL]) (Suc n) k"
      using False here occ0 by (auto simp: s sp)
    have "k + length s \<le> Suc (length sp')" using Suc.prems by (simp add: sp)
    from Suc.IH [OF this, of "Suc n"] obtain r
      where r: "octstr_loop sp' (s @ [NUL]) (Suc n) k = Some r"
        "r = - 1 \<and> (\<forall>j<k. \<not> occurs_at s sp' j) \<or>
         (\<exists>j<k. r = int (Suc n + j) \<and> occurs_at s sp' j \<and> (\<forall>i<j. \<not> occurs_at s sp' i))"
      by blast
    have all: "(\<forall>i<Suc j. \<not> occurs_at s sp i) \<longleftrightarrow> (\<forall>i<j. \<not> occurs_at s sp' i)" for j
      using False by (simp add: All_less_Suc2 occS)
    from r(2) show ?thesis
    proof
      assume "r = - 1 \<and> (\<forall>j<k. \<not> occurs_at s sp' j)"
      then show ?thesis using r(1) eq all by (intro exI [of _ r]) simp
    next
      assume "\<exists>j<k. r = int (Suc n + j) \<and> occurs_at s sp' j \<and> (\<forall>i<j. \<not> occurs_at s sp' i)"
      then obtain j where "j < k" "r = int (n + Suc j)" "occurs_at s sp (Suc j)"
        "\<forall>i<Suc j. \<not> occurs_at s sp i" using occS all by auto
      then show ?thesis using r(1) eq by (intro exI [of _ r]) auto
    qed
  qed
qed simp

text \<open>\<open>octstr\<close> returns the index of the first occurrence of the needle in the octet string,
  and -1 exactly when there is none.\<close>

theorem octstr_first_occurrence:
  assumes "wf_octet o1" and "s \<noteq> []" and "NUL \<notin> set s"
  shows "\<exists>r. octstr o1 (s @ [NUL]) = Some r \<and>
    (r = - 1 \<longrightarrow> (\<forall>k. \<not> occurs_at s (content o1) k)) \<and>
    (r \<noteq> - 1 \<longrightarrow> 0 \<le> r \<and> occurs_at s (content o1) (nat r) \<and>
       (\<forall>j < nat r. \<not> occurs_at s (content o1) j))"
proof -
  have len: "oct_len o1 \<le> length (oct_val o1)" using assms(1) by (simp add: wf_octet_def)
  have late: "\<not> occurs_at s (content o1) k" if "oct_len o1 < k + length s" for k
  proof
    assume "occurs_at s (content o1) k"
    then have "length (take (length s) (drop k (content o1))) = length s" by (simp add: occurs_at_def)
    then show False using that assms(1,2) by (cases s) (auto simp: min_def split: if_splits)
  qed
  have eqv: "occurs_at s (oct_val o1) j \<longleftrightarrow> occurs_at s (content o1) j" if "j + length s \<le> oct_len o1" for j
    using that by (auto simp: occurs_at_def content_def drop_take min_def)
  show ?thesis
  proof (cases "length s > oct_len o1")
    case True
    then have "octstr o1 (s @ [NUL]) = Some (- 1)"
      using assms(3) by (simp add: octstr_def)
    with True late show ?thesis by (intro exI [of _ "- 1"]) auto
  next
    case False
    define k where "k = oct_len o1 - length s + 1"
    have "k + length s \<le> Suc (length (oct_val o1))" using False len by (simp add: k_def)
    then obtain r where r: "octstr_loop (oct_val o1) (s @ [NUL]) 0 k = Some r"
      "r = - 1 \<and> (\<forall>j<k. \<not> occurs_at s (oct_val o1) j) \<or>
       (\<exists>j<k. r = int j \<and> occurs_at s (oct_val o1) j \<and> (\<forall>i<j. \<not> occurs_at s (oct_val o1) i))"
      using octstr_loop_first [OF assms(3,2), of k "oct_val o1" 0] by auto
    have o: "octstr o1 (s @ [NUL]) = Some r"
      using r(1) False assms(3) by (simp add: octstr_def k_def)
    have jk: "j < k \<longleftrightarrow> j + length s \<le> oct_len o1" for j using False by (auto simp: k_def)
    have all: "j < k" if "occurs_at s (content o1) j" for j
      using that late [of j] jk by (meson not_le)
    show ?thesis using r(2) o eqv jk by (intro exI [of _ r]) (auto dest: all)
  qed
qed

theorem octstr_first_occurrence_witness:
  "\<exists>r. octstr (mk_octet ''aab'') (''ab'' @ [NUL]) = Some r \<and>
    (r \<noteq> - 1 \<longrightarrow> 0 \<le> r \<and> occurs_at ''ab'' ''aab'' (nat r))"
  using octstr_first_occurrence [of "mk_octet ''aab''" "''ab''"] by (auto simp: wf_mk_octet)


definition never_over :: "char \<Rightarrow> char \<Rightarrow> nat \<Rightarrow> bytes \<Rightarrow> nat \<Rightarrow> bool" where
  "never_over left right seen q n \<longleftrightarrow>
     (\<forall>k\<le>n. count_list (take k q) right \<le> seen + count_list (take k q) left)"

lemma never_over_0 [simp]: "never_over left right seen q 0"
  by (simp add: never_over_def)

lemma never_over_Cons:
  assumes "left \<noteq> right"
  shows "never_over left right seen (c # q) (Suc n) \<longleftrightarrow>
    (if c = left then never_over left right (Suc seen) q n
     else if c = right then 0 < seen \<and> never_over left right (seen - 1) q n
     else never_over left right seen q n)"
proof -
  have "(\<forall>k\<le>Suc n. P k) \<longleftrightarrow> P 0 \<and> (\<forall>k\<le>n. P (Suc k))" for P
    by (metis Suc_le_mono le0 not0_implies_Suc)
  then show ?thesis using assms by (auto simp: never_over_def)
qed

lemma find_balancing_loop_spec:
  assumes "left \<noteq> right" and "n \<le> length q" and "n \<le> len"
  shows "\<exists>r. find_balancing_loop q n left right len seen = Some r \<and>
    (r = - 1 \<and> never_over left right seen q n \<or>
     (\<exists>i<n. r = int (len - n + i) \<and> q ! i = right \<and> never_over left right seen q i \<and>
        \<not> never_over left right seen q (Suc i)))"
  using assms(2,3)
proof (induction n arbitrary: q seen)
  case (Suc n)
  obtain c q' where q: "q = c # q'" using Suc.prems by (cases q) auto
  have IH: "\<exists>r. find_balancing_loop q' n left right len seen' = Some r \<and>
    (r = - 1 \<and> never_over left right seen' q' n \<or>
     (\<exists>i<n. r = int (len - n + i) \<and> q' ! i = right \<and> never_over left right seen' q' i \<and>
        \<not> never_over left right seen' q' (Suc i)))" for seen'
    using Suc.prems by (intro Suc.IH) (auto simp: q)
  have shift: "len - n + i = len - Suc n + Suc i" for i using Suc.prems by simp
  define seen' where "seen' = (if c = left then Suc seen else if c = right then seen - 1 else seen)"
  show ?case
  proof (cases "c = right \<and> seen = 0")
    case True
    then show ?thesis using assms(1)
      by (intro exI [of _ "int (len - Suc n)"])
        (auto simp: q never_over_Cons intro!: exI [of _ 0])
  next
    case False
    have step: "find_balancing_loop q (Suc n) left right len seen = find_balancing_loop q' n left right len seen'"
      using False assms(1) by (auto simp: q seen'_def)
    have no: "never_over left right seen q (Suc k) \<longleftrightarrow> never_over left right seen' q' k" for k
      using False assms(1) by (auto simp: q never_over_Cons seen'_def)
    from IH [of seen'] obtain r where r: "find_balancing_loop q' n left right len seen' = Some r"
      "r = - 1 \<and> never_over left right seen' q' n \<or>
       (\<exists>i<n. r = int (len - n + i) \<and> q' ! i = right \<and> never_over left right seen' q' i \<and>
        \<not> never_over left right seen' q' (Suc i))" by blast
    from r(2) have "r = - 1 \<and> never_over left right seen q (Suc n) \<or>
       (\<exists>i<Suc n. r = int (len - Suc n + i) \<and> q ! i = right \<and> never_over left right seen q i \<and>
        \<not> never_over left right seen q (Suc i))"
    proof
      assume "\<exists>i<n. r = int (len - n + i) \<and> q' ! i = right \<and> never_over left right seen' q' i \<and>
        \<not> never_over left right seen' q' (Suc i)"
      then obtain i where "i < n" "r = int (len - n + i)" "q' ! i = right"
        "never_over left right seen' q' i" "\<not> never_over left right seen' q' (Suc i)" by blast
      then show ?thesis using shift [of i] no
        by (intro disjI2 exI [of _ "Suc i"]) (simp add: q)
    qed (simp add: no)
    then show ?thesis using step r(1) by auto
  qed
qed simp

lemma oct_find_balancing_spec:
  assumes "wf_octet o1" and "left \<noteq> right"
  shows "\<exists>r. oct_find_balancing o1 left right = Some r \<and>
    (r = - 1 \<and> never_over left right 0 (content o1) (oct_len o1) \<or>
     (0 \<le> r \<and> r < int (oct_len o1) \<and> content o1 ! nat r = right \<and>
        never_over left right 0 (content o1) (nat r) \<and>
        \<not> never_over left right 0 (content o1) (Suc (nat r))))"
proof -
  have len: "oct_len o1 \<le> length (oct_val o1)" using assms(1) by (simp add: wf_octet_def)
  have eqv: "never_over left right 0 (oct_val o1) k \<longleftrightarrow> never_over left right 0 (content o1) k"
    if "k \<le> oct_len o1" for k
    using that by (auto simp: never_over_def content_def min_def)
  show ?thesis
    using find_balancing_loop_spec [OF assms(2) len order.refl, of 0] eqv
    by (fastforce simp: oct_find_balancing_def content_def)
qed


end
