(* ===== verification/Dynarray.thy ===== *)
theory Dynarray
  imports Spocp_Base
begin

text \<open>
  The growable pointer arrays of \<open>lib/varr.c\<close>, and the interface that they share with
  the octet string arrays (\<open>lib/octarr.c\<close>) and the rule indexes (\<open>lib/index.c\<close>): adding
  at the end, with the memory doubled when it is full.

  A \<^verbatim>\<open>varr_t\<close> with \<^verbatim>\<open>n\<close> used slots is the list of these slots and the allocated size; no
  operation looks at the slots past \<^verbatim>\<open>n\<close>. A null array is \<open>None\<close> where the code accepts
  one. Storing into a slot past the allocated size is a fault.
\<close>

subsection \<open>The interface: adding at the end\<close>

fun fold_add :: "('r \<Rightarrow> 'a \<Rightarrow> 'r option) \<Rightarrow> 'r \<Rightarrow> 'a list \<Rightarrow> 'r option" where
  "fold_add add r [] = Some r"
| "fold_add add r (v # vs) = do { r' \<leftarrow> add r v; fold_add add r' vs }"

locale growable =
  fixes add :: "'r \<Rightarrow> 'a \<Rightarrow> 'r option"
    and items :: "'r \<Rightarrow> 'a list"
    and ok :: "'r \<Rightarrow> bool"
  assumes add_law: "ok r \<Longrightarrow> \<exists>r'. add r v = Some r' \<and> ok r' \<and> items r' = items r @ [v]"
begin

lemma addE:
  assumes "ok r"
  obtains r' where "add r v = Some r'" and "ok r'" and "items r' = items r @ [v]"
  using add_law [OF assms] by blast

lemma fold_add_items:
  "ok r \<Longrightarrow> \<exists>r'. fold_add add r vs = Some r' \<and> ok r' \<and> items r' = items r @ vs"
proof (induction vs arbitrary: r)
  case (Cons v vs)
  obtain r' where r': "add r v = Some r'" "ok r'" "items r' = items r @ [v]"
    using Cons.prems by (rule addE)
  from Cons.IH [OF r'(2)] show ?case using r' by auto
qed simp

text \<open>A client that adds only what is new keeps the items distinct and computes a union.\<close>

lemma add_if_new:
  assumes "ok r" and "distinct (items r)"
  shows "\<exists>r'. (if v \<in> set (items r) then Some r else add r v) = Some r' \<and> ok r' \<and>
    distinct (items r') \<and> set (items r') = insert v (set (items r))"
proof (cases "v \<in> set (items r)")
  case False
  obtain r' where "add r v = Some r'" "ok r'" "items r' = items r @ [v]"
    using assms(1) by (rule addE)
  with False assms show ?thesis by auto
qed (use assms in auto)

end

subsection \<open>The arrays of lib/varr.c\<close>

record 'a varr =
  v_items :: "'a list"
  v_size :: nat

definition varr_new :: "nat \<Rightarrow> 'a varr" where
  "varr_new n = \<lparr>v_items = [], v_size = n\<rparr>"

definition varr_add :: "'a varr option \<Rightarrow> 'a \<Rightarrow> 'a varr option" where
  "varr_add va v =
     (let a = (case va of None \<Rightarrow> varr_new 4
               | Some a \<Rightarrow> if length (v_items a) = v_size a then a\<lparr>v_size := v_size a * 2\<rparr> else a)
      in if length (v_items a) < v_size a then Some (a\<lparr>v_items := v_items a @ [v]\<rparr>) else None)"

definition varr_len :: "'a varr option \<Rightarrow> nat" where
  "varr_len va = (case va of None \<Rightarrow> 0 | Some a \<Rightarrow> length (v_items a))"

fun find_from :: "'a list \<Rightarrow> 'a \<Rightarrow> nat \<Rightarrow> int" where
  "find_from [] v i = - 1"
| "find_from (x # xs) v i = (if x = v then int i else find_from xs v (Suc i))"

definition varr_find :: "'a varr option \<Rightarrow> 'a \<Rightarrow> int" where
  "varr_find va v = (case va of None \<Rightarrow> - 1 | Some a \<Rightarrow> find_from (v_items a) v 0)"

text \<open>One pass of the two loops of \<open>varr_rm_dup\<close>: the first pair of slots that compare
  equal, and the array with the later of the two removed.\<close>

fun rm_dup_pass :: "('a \<Rightarrow> 'a \<Rightarrow> int) \<Rightarrow> 'a list \<Rightarrow> 'a list option" where
  "rm_dup_pass cf [] = None"
| "rm_dup_pass cf (x # xs) =
     (case dropWhile (\<lambda>y. cf y x \<noteq> 0) xs of
        [] \<Rightarrow> map_option ((#) x) (rm_dup_pass cf xs)
      | _ # ys \<Rightarrow> Some (x # takeWhile (\<lambda>y. cf y x \<noteq> 0) xs @ ys))"

lemma rm_dup_pass_length: "rm_dup_pass cf xs = Some ys \<Longrightarrow> length ys < length xs"
proof (induction xs arbitrary: ys)
  case (Cons x xs)
  show ?case
  proof (cases "dropWhile (\<lambda>y. cf y x \<noteq> 0) xs")
    case Nil
    then have "rm_dup_pass cf (x # xs) = map_option ((#) x) (rm_dup_pass cf xs)"
      by (simp only: rm_dup_pass.simps list.case)
    then show ?thesis using Cons by auto
  next
    case (Cons z zs)
    have "length (takeWhile (\<lambda>y. cf y x \<noteq> 0) xs) + length (z # zs) = length xs"
      by (metis Cons length_append takeWhile_dropWhile_id)
    then show ?thesis using Cons.prems Cons by auto
  qed
qed simp

function rm_dup_loop :: "('a \<Rightarrow> 'a \<Rightarrow> int) \<Rightarrow> 'a list \<Rightarrow> 'a list" where
  "rm_dup_loop cf xs =
     (if length xs > 1
      then (case rm_dup_pass cf xs of None \<Rightarrow> xs | Some ys \<Rightarrow> rm_dup_loop cf ys)
      else xs)"
  by pat_completeness auto
termination
  by (relation "measure (\<lambda>(cf, xs). length xs)") (auto dest: rm_dup_pass_length)

declare rm_dup_loop.simps [simp del]

definition varr_rm_dup :: "'a varr option \<Rightarrow> ('a \<Rightarrow> 'a \<Rightarrow> int) \<Rightarrow> 'a varr option" where
  "varr_rm_dup va cf = map_option (\<lambda>a. a\<lparr>v_items := rm_dup_loop cf (v_items a)\<rparr>) va"

fun next_after :: "'a list \<Rightarrow> 'a \<Rightarrow> 'a option" where
  "next_after (x # y # xs) v = (if x = v then Some y else next_after (y # xs) v)"
| "next_after xs v = None"

definition varr_next :: "'a varr option \<Rightarrow> 'a option \<Rightarrow> 'a option" where
  "varr_next va v = (case (va, v) of (Some a, Some v) \<Rightarrow> next_after (v_items a) v | _ \<Rightarrow> None)"

definition varr_first :: "'a varr option \<Rightarrow> 'a option" where
  "varr_first va = (case va of None \<Rightarrow> None
     | Some a \<Rightarrow> (case v_items a of [] \<Rightarrow> None | x # _ \<Rightarrow> Some x))"

definition varr_pop :: "'a varr option \<Rightarrow> 'a option \<times> 'a varr option" where
  "varr_pop va = (case va of None \<Rightarrow> (None, None)
     | Some a \<Rightarrow> if v_items a = [] then (None, va)
                 else (Some (last (v_items a)), Some (a\<lparr>v_items := butlast (v_items a)\<rparr>)))"

definition varr_fifo_pop :: "'a varr option \<Rightarrow> 'a option \<times> 'a varr option" where
  "varr_fifo_pop va = (case va of None \<Rightarrow> (None, None)
     | Some a \<Rightarrow> (case v_items a of [] \<Rightarrow> (None, va)
                  | x # xs \<Rightarrow> (Some x, Some (a\<lparr>v_items := xs\<rparr>))))"

definition varr_dup :: "'a varr option \<Rightarrow> ('a \<Rightarrow> 'a) option \<Rightarrow> 'a varr option" where
  "varr_dup old df =
     map_option (\<lambda>a. a\<lparr>v_items := (case df of None \<Rightarrow> v_items a | Some f \<Rightarrow> map f (v_items a))\<rparr>) old"

text \<open>The loop \<^verbatim>\<open>while (b->n)\<close> of \<open>varr_or\<close>: the slots of \<open>b\<close> are popped from the end.\<close>

fun varr_or_loop :: "'a varr \<Rightarrow> 'a list \<Rightarrow> 'a varr option" where
  "varr_or_loop a [] = Some a"
| "varr_or_loop a (v # vs) =
     (if varr_find (Some a) v < 0
      then (case varr_add (Some a) v of None \<Rightarrow> None | Some a' \<Rightarrow> varr_or_loop a' vs)
      else varr_or_loop a vs)"

definition varr_or :: "'a varr option \<Rightarrow> 'a varr option \<Rightarrow> bool \<Rightarrow> 'a varr option option" where
  "varr_or a b noninv = (case (a, b) of
      (None, _) \<Rightarrow> Some (if noninv then varr_dup b None else b)
    | (Some a, None) \<Rightarrow> Some (Some a)
    | (Some a, Some b) \<Rightarrow>
        if noninv then map_option Some (fold_add (\<lambda>r. varr_add (Some r)) a (v_items b))
        else map_option Some (varr_or_loop a (rev (v_items b))))"

definition varr_first_common :: "'a varr option \<Rightarrow> 'a varr option \<Rightarrow> 'a option" where
  "varr_first_common a b = (case (a, b) of
      (Some a, Some _) \<Rightarrow> List.find (\<lambda>x. varr_find b x \<ge> 0) (v_items a)
    | _ \<Rightarrow> None)"

definition varr_and :: "'a varr option \<Rightarrow> 'a varr option \<Rightarrow> 'a varr option option" where
  "varr_and a b = (case (a, b) of
      (Some a, Some _) \<Rightarrow>
        fold_add (\<lambda>r v. map_option Some (varr_add r v)) None
          (filter (\<lambda>x. varr_find b x \<ge> 0) (v_items a))
    | _ \<Rightarrow> Some None)"

definition varr_rm :: "'a varr \<Rightarrow> 'a \<Rightarrow> 'a option \<times> 'a varr" where
  "varr_rm va v = (if v \<in> set (v_items va) then (Some v, va\<lparr>v_items := remove1 v (v_items va)\<rparr>)
                   else (None, va))"

definition varr_nth :: "'a varr option \<Rightarrow> int \<Rightarrow> 'a option" where
  "varr_nth va n = (case va of None \<Rightarrow> None
     | Some a \<Rightarrow> if n < 0 \<or> n \<ge> int (length (v_items a)) then None else Some (v_items a ! nat n))"

subsection \<open>Well-formedness and the interface\<close>

definition varr_ok :: "'a varr \<Rightarrow> bool" where
  "varr_ok a \<longleftrightarrow> length (v_items a) \<le> v_size a \<and> 0 < v_size a"

definition varr_ok0 :: "'a varr option \<Rightarrow> bool" where
  "varr_ok0 va = pred_option varr_ok va"

definition varr_list :: "'a varr option \<Rightarrow> 'a list" where
  "varr_list va = (case va of None \<Rightarrow> [] | Some a \<Rightarrow> v_items a)"

lemma varr_add_None: "varr_add None v = Some \<lparr>v_items = [v], v_size = 4\<rparr>"
  by (simp add: varr_add_def varr_new_def)

lemma varr_add_Some:
  assumes "varr_ok a"
  obtains a' where "varr_add (Some a) v = Some a'" and "varr_ok a'" and "v_items a' = v_items a @ [v]"
proof (cases "length (v_items a) = v_size a")
  case True
  show ?thesis
    by (rule that [of "a\<lparr>v_items := v_items a @ [v], v_size := v_size a * 2\<rparr>"])
      (use True assms in \<open>simp_all add: varr_add_def varr_ok_def\<close>)
next
  case False
  show ?thesis
    by (rule that [of "a\<lparr>v_items := v_items a @ [v]\<rparr>"])
      (use False assms in \<open>simp_all add: varr_add_def varr_ok_def\<close>)
qed

lemma varr_add_law:
  "varr_ok0 va \<Longrightarrow> \<exists>a. varr_add va v = Some a \<and> varr_ok a \<and> v_items a = varr_list va @ [v]"
proof (cases va)
  case None
  then show ?thesis by (simp add: varr_add_None varr_ok_def varr_list_def)
next
  case (Some a)
  assume "varr_ok0 va"
  then have "varr_ok a" by (simp add: varr_ok0_def Some)
  then obtain a' where "varr_add (Some a) v = Some a'" "varr_ok a'" "v_items a' = v_items a @ [v]"
    by (rule varr_add_Some)
  then show ?thesis by (simp add: Some varr_list_def)
qed

interpretation va: growable "\<lambda>r v. varr_add (Some r) v" v_items varr_ok
proof
  fix r :: "'a varr" and v
  assume "varr_ok r"
  then show "\<exists>r'. varr_add (Some r) v = Some r' \<and> varr_ok r' \<and> v_items r' = v_items r @ [v]"
    using varr_add_law [of "Some r" v] by (simp add: varr_ok0_def varr_list_def)
qed

interpretation va0: growable "\<lambda>r v. map_option Some (varr_add r v)" varr_list varr_ok0
proof
  fix r :: "'a varr option" and v
  assume "varr_ok0 r"
  then obtain a where "varr_add r v = Some a" "varr_ok a" "v_items a = varr_list r @ [v]"
    using varr_add_law [of r v] by auto
  then show "\<exists>r'. map_option Some (varr_add r v) = Some r' \<and> varr_ok0 r' \<and> varr_list r' = varr_list r @ [v]"
    by (simp add: varr_ok0_def varr_list_def)
qed

subsection \<open>Functional behaviour\<close>

lemma find_from_neg_iff: "find_from xs v i < 0 \<longleftrightarrow> v \<notin> set xs"
  by (induction xs v i rule: find_from.induct) auto

lemma varr_find_neg_iff [simp]: "varr_find (Some a) v < 0 \<longleftrightarrow> v \<notin> set (v_items a)"
  by (simp add: varr_find_def find_from_neg_iff)

lemma varr_find_nonneg_iff [simp]: "varr_find (Some a) v \<ge> 0 \<longleftrightarrow> v \<in> set (v_items a)"
  using varr_find_neg_iff [of a v] by linarith

lemma find_from_index:
  "find_from xs v i = int k \<Longrightarrow> i \<le> k \<and> k < i + length xs \<and> xs ! (k - i) = v \<and> v \<notin> set (take (k - i) xs)"
proof (induction xs v i rule: find_from.induct)
  case (2 x xs v i)
  show ?case
  proof (cases "x = v")
    case False
    then have *: "Suc i \<le> k \<and> k < Suc i + length xs \<and> xs ! (k - Suc i) = v \<and> v \<notin> set (take (k - Suc i) xs)"
      using 2 by simp
    then have "k - i = Suc (k - Suc i)" by arith
    then show ?thesis using False * by auto
  qed (use 2 in auto)
qed simp

lemma varr_or_loop_union:
  "varr_ok a \<Longrightarrow> distinct (v_items a) \<Longrightarrow>
   \<exists>r. varr_or_loop a vs = Some r \<and> varr_ok r \<and> distinct (v_items r) \<and>
     set (v_items r) = set (v_items a) \<union> set vs"
proof (induction vs arbitrary: a)
  case (Cons v vs)
  show ?case
  proof (cases "v \<in> set (v_items a)")
    case True
    then show ?thesis using Cons.IH [OF Cons.prems] by auto
  next
    case False
    obtain a' where a': "varr_add (Some a) v = Some a'" "varr_ok a'" "v_items a' = v_items a @ [v]"
      using Cons.prems(1) by (rule va.addE)
    then show ?thesis using False Cons.IH [of a'] Cons.prems(2) by auto
  qed
qed simp

text \<open>\<open>varr_or\<close> of two arrays is a union. With the flag \<^verbatim>\<open>noninv\<close> it appends all of the
  second array; without it it adds only what is missing, so a duplicate-free first array
  stays duplicate free.\<close>

theorem varr_or_union:
  assumes "varr_ok a" and "varr_ok b"
  shows "(\<exists>r. varr_or (Some a) (Some b) True = Some (Some r) \<and> varr_ok r \<and>
      v_items r = v_items a @ v_items b) \<and>
    (distinct (v_items a) \<longrightarrow> (\<exists>r. varr_or (Some a) (Some b) False = Some (Some r) \<and> varr_ok r \<and>
      distinct (v_items r) \<and> set (v_items r) = set (v_items a) \<union> set (v_items b)))"
  using va.fold_add_items [OF assms(1), of "v_items b"]
    varr_or_loop_union [OF assms(1), of "rev (v_items b)"]
  by (auto simp: varr_or_def)

theorem varr_or_union_witness:
  "(\<exists>r. varr_or (Some \<lparr>v_items = [1::nat, 2], v_size = 2\<rparr>) (Some \<lparr>v_items = [2, 3], v_size = 4\<rparr>) True =
      Some (Some r) \<and> v_items r = [1, 2, 2, 3]) \<and>
   (\<exists>r. varr_or (Some \<lparr>v_items = [1::nat, 2], v_size = 2\<rparr>) (Some \<lparr>v_items = [2, 3], v_size = 4\<rparr>) False =
      Some (Some r) \<and> set (v_items r) = {1, 2, 3})"
  using varr_or_union [of "\<lparr>v_items = [1::nat, 2], v_size = 2\<rparr>" "\<lparr>v_items = [2, 3], v_size = 4\<rparr>"]
  by (auto simp: varr_ok_def)

lemma varr_and_inter:
  assumes "varr_and (Some a) (Some b) = Some r"
  shows "varr_list r = filter (\<lambda>x. x \<in> set (v_items b)) (v_items a)"
proof -
  obtain r' where "fold_add (\<lambda>r v. map_option Some (varr_add r v)) None
      (filter (\<lambda>x. varr_find (Some b) x \<ge> 0) (v_items a)) = Some r'"
    "varr_list r' = [] @ filter (\<lambda>x. varr_find (Some b) x \<ge> 0) (v_items a)"
    using va0.fold_add_items [of None] by (force simp: varr_ok0_def varr_list_def)
  with assms show ?thesis by (simp add: varr_and_def)
qed

lemma varr_and_total: "\<exists>r. varr_and a b = Some r \<and> varr_ok0 r"
proof (cases a; cases b)
  fix a' b' assume "a = Some a'" "b = Some b'"
  then show ?thesis
    using va0.fold_add_items [of None] by (force simp: varr_and_def varr_ok0_def)
qed (auto simp: varr_and_def varr_ok0_def)

lemma varr_first_common_iff:
  "varr_first_common (Some a) (Some b) = None \<longleftrightarrow> set (v_items a) \<inter> set (v_items b) = {}"
  by (auto simp: varr_first_common_def find_None_iff)

lemma varr_pop_add:
  "varr_ok a \<Longrightarrow> varr_add (Some a) v = Some a' \<Longrightarrow>
   fst (varr_pop (Some a')) = Some v \<and> varr_list (snd (varr_pop (Some a'))) = v_items a"
  by (auto simp: varr_add_def varr_pop_def varr_list_def Let_def split: if_splits)

text \<open>What \<open>varr_rm_dup\<close> leaves: no two slots compare equal, and every original slot
  compares equal to one that is left, when the comparison is an equivalence.\<close>

definition cmp_equiv :: "('a \<Rightarrow> 'a \<Rightarrow> int) \<Rightarrow> bool" where
  "cmp_equiv cf \<longleftrightarrow> (\<forall>x. cf x x = 0) \<and> (\<forall>x y. cf x y = 0 \<longrightarrow> cf y x = 0) \<and>
     (\<forall>x y z. cf x y = 0 \<longrightarrow> cf y z = 0 \<longrightarrow> cf x z = 0)"

lemma rm_dup_pass_None: "rm_dup_pass cf xs = None \<Longrightarrow> sorted_wrt (\<lambda>x y. cf y x \<noteq> 0) xs"
proof (induction xs)
  case (Cons x xs)
  then have "dropWhile (\<lambda>y. cf y x \<noteq> 0) xs = []" by (auto split: list.splits)
  moreover from this have "rm_dup_pass cf xs = None"
    using Cons.prems by (simp only: rm_dup_pass.simps list.case) simp
  ultimately show ?case using Cons.IH by (simp add: dropWhile_eq_Nil_conv)
qed simp

lemma rm_dup_pass_Some:
  "rm_dup_pass cf xs = Some ys \<Longrightarrow>
   set ys \<subseteq> set xs \<and> (\<forall>x \<in> set xs. x \<in> set ys \<or> (\<exists>y \<in> set ys. cf x y = 0))"
proof (induction xs arbitrary: ys)
  case (Cons x xs)
  show ?case
  proof (cases "dropWhile (\<lambda>y. cf y x \<noteq> 0) xs")
    case Nil
    then have "rm_dup_pass cf (x # xs) = map_option ((#) x) (rm_dup_pass cf xs)"
      by (simp only: rm_dup_pass.simps list.case)
    then obtain zs where "rm_dup_pass cf xs = Some zs" "ys = x # zs" using Cons.prems by auto
    with Cons.IH [of zs] show ?thesis by auto
  next
    case (Cons z zs)
    have z: "cf z x = 0" using Cons hd_dropWhile [of "\<lambda>y. cf y x \<noteq> 0" xs] by simp
    have xs: "set xs = set (takeWhile (\<lambda>y. cf y x \<noteq> 0) xs) \<union> set (z # zs)"
      by (metis Cons set_append takeWhile_dropWhile_id)
    have "ys = x # takeWhile (\<lambda>y. cf y x \<noteq> 0) xs @ zs" using Cons.prems Cons by simp
    then show ?thesis using z xs by auto
  qed
qed simp

lemma rm_dup_loop_spec:
  "cmp_equiv cf \<Longrightarrow> sorted_wrt (\<lambda>x y. cf y x \<noteq> 0) (rm_dup_loop cf xs) \<and>
    set (rm_dup_loop cf xs) \<subseteq> set xs \<and> (\<forall>x \<in> set xs. \<exists>y \<in> set (rm_dup_loop cf xs). cf x y = 0)"
proof (induction cf xs rule: rm_dup_loop.induct)
  case (1 cf xs)
  have refl: "cf x x = 0" for x using "1.prems" by (simp add: cmp_equiv_def)
  have trans: "cf x y = 0 \<Longrightarrow> cf y z = 0 \<Longrightarrow> cf x z = 0" for x y z
    using "1.prems" unfolding cmp_equiv_def by blast
  show ?case
  proof (cases "1 < length xs")
    case False
    then have "rm_dup_loop cf xs = xs" by (subst rm_dup_loop.simps) simp
    moreover have "sorted_wrt (\<lambda>x y. cf y x \<noteq> 0) xs" using False by (cases xs; cases "tl xs") auto
    ultimately show ?thesis using refl by auto
  next
    case long: True
    show ?thesis
    proof (cases "rm_dup_pass cf xs")
      case None
      then have "rm_dup_loop cf xs = xs" using long by (subst rm_dup_loop.simps) simp
      then show ?thesis using rm_dup_pass_None [OF None] refl by auto
    next
      case (Some ys)
      then have eq: "rm_dup_loop cf xs = rm_dup_loop cf ys"
        using long by (subst rm_dup_loop.simps) simp
      note IH = "1.IH" [OF long Some "1.prems"]
      show ?thesis
        unfolding eq using IH rm_dup_pass_Some [OF Some] trans by blast
    qed
  qed
qed

text \<open>\<open>varr_rm_dup\<close> ends, keeps only slots of the array, leaves no two that compare equal, and
  for every slot of the original array leaves one that compares equal to it, when the
  comparison is an equivalence.\<close>

theorem varr_rm_dup_spec:
  assumes "cmp_equiv cf"
  shows "\<exists>b. varr_rm_dup (Some a) cf = Some b \<and> v_size b = v_size a \<and>
    sorted_wrt (\<lambda>x y. cf y x \<noteq> 0) (v_items b) \<and> set (v_items b) \<subseteq> set (v_items a) \<and>
    (\<forall>x \<in> set (v_items a). \<exists>y \<in> set (v_items b). cf x y = 0)"
  using rm_dup_loop_spec [OF assms, of "v_items a"] by (simp add: varr_rm_dup_def)

theorem varr_rm_dup_spec_witness:
  "\<exists>b. varr_rm_dup (Some \<lparr>v_items = [1, 2, 1, 2], v_size = 4\<rparr>) (\<lambda>x y. x - y :: int) = Some b \<and>
    distinct (v_items b)"
proof -
  have "cmp_equiv (\<lambda>x y. x - y :: int)" by (simp add: cmp_equiv_def)
  from varr_rm_dup_spec [OF this, of "\<lparr>v_items = [1, 2, 1, 2], v_size = 4\<rparr>"]
  obtain b where b: "varr_rm_dup (Some \<lparr>v_items = [1, 2, 1, 2], v_size = 4\<rparr>) (\<lambda>x y. x - y :: int) = Some b"
    "sorted_wrt (\<lambda>x y. y - x \<noteq> 0) (v_items b)" by blast
  have "distinct xs" if "sorted_wrt (\<lambda>x y. y - x \<noteq> 0) xs" for xs :: "int list"
    using that by (induction xs) auto
  from this [OF b(2)] have "distinct (v_items b)" .
  with b(1) show ?thesis by blast
qed

end
