(* ===== verification/Octarr.thy ===== *)
theory Octarr
  imports Octet Dynarray
begin

text \<open>
  Arrays of octet strings (\<open>lib/octarr.c\<close>), splitting an octet string at a separator, the
  string helpers of \<open>lib/string.c\<close> and the choice of a cache time (\<open>lib/cachetime.c\<close>).

  An \<^verbatim>\<open>octarr_t\<close> is the list of its \<^verbatim>\<open>n\<close> octet strings and the allocated size.
\<close>

record octarr =
  oa_arr :: "octet list"
  oa_size :: nat

definition octarr_new :: "nat \<Rightarrow> octarr" where
  "octarr_new n = \<lparr>oa_arr = [], oa_size = n\<rparr>"

fun octdup_all :: "octet list \<Rightarrow> octet list option" where
  "octdup_all [] = Some []"
| "octdup_all (o1 # os) =
     (case octdup (Some o1) of
        Some (Some d) \<Rightarrow> map_option ((#) d) (octdup_all os)
      | _ \<Rightarrow> None)"

definition octarr_dup :: "octarr option \<Rightarrow> octarr option option" where
  "octarr_dup old = (case old of None \<Rightarrow> Some None
     | Some oa \<Rightarrow> map_option (\<lambda>ds. Some \<lparr>oa_arr = ds, oa_size = oa_size oa\<rparr>) (octdup_all (oa_arr oa)))"

definition octarr_add :: "octarr option \<Rightarrow> octet \<Rightarrow> octarr option" where
  "octarr_add oa op =
     (let a = (case oa of None \<Rightarrow> octarr_new 4 | Some a \<Rightarrow> a);
          b = (if oa_size a = 0 then \<lparr>oa_arr = [], oa_size = 2\<rparr>
               else if length (oa_arr a) = oa_size a then a\<lparr>oa_size := oa_size a * 2\<rparr>
               else a)
      in if length (oa_arr b) < oa_size b then Some (b\<lparr>oa_arr := oa_arr b @ [op]\<rparr>) else None)"

definition octarr_mr :: "octarr option \<Rightarrow> nat \<Rightarrow> octarr option" where
  "octarr_mr oa n = map_option (\<lambda>a.
     if oa_size a = 0 then \<lparr>oa_arr = [], oa_size = n\<rparr>
     else if n > oa_size a then a\<lparr>oa_size := n\<rparr> else a) oa"

definition octarr_pop :: "octarr option \<Rightarrow> octet option \<times> octarr option" where
  "octarr_pop oa = (case oa of None \<Rightarrow> (None, None)
     | Some a \<Rightarrow> (case oa_arr a of [] \<Rightarrow> (None, oa)
                  | x # xs \<Rightarrow> (Some x, Some (a\<lparr>oa_arr := xs\<rparr>))))"

definition octarr_rpop :: "octarr option \<Rightarrow> octet option \<times> octarr option" where
  "octarr_rpop oa = (case oa of None \<Rightarrow> (None, None)
     | Some a \<Rightarrow> if oa_arr a = [] then (None, oa)
                 else (Some (last (oa_arr a)), Some (a\<lparr>oa_arr := butlast (oa_arr a)\<rparr>)))"

fun octarr_join_loop :: "octarr \<Rightarrow> octet list \<Rightarrow> octarr option" where
  "octarr_join_loop target [] = Some target"
| "octarr_join_loop target (o1 # os) =
     (case octarr_add (Some target) o1 of None \<Rightarrow> None | Some t \<Rightarrow> octarr_join_loop t os)"

definition octarr_join :: "octarr option \<Rightarrow> octarr option \<Rightarrow> octarr option option" where
  "octarr_join target source = (case (target, source) of
      (None, _) \<Rightarrow> Some source
    | (_, None) \<Rightarrow> Some target
    | (Some t, Some s) \<Rightarrow> map_option Some (octarr_join_loop t (oa_arr s)))"

text \<open>\<open>octarr_join\<close> when \<^verbatim>\<open>target\<close> and \<^verbatim>\<open>source\<close> are the same array: what is taken from its front is added at
  its end. An empty array would be released and then returned, which is a fault.\<close>

partial_function (option) octarr_join_self :: "octarr \<Rightarrow> octarr option" where
  [code]: "octarr_join_self a = (case octarr_pop (Some a) of
      (Some o1, Some a') \<Rightarrow> Option.bind (octarr_add (Some a') o1) octarr_join_self
    | _ \<Rightarrow> None)"

text \<open>\<open>octarr_rm\<close> refuses only \<^verbatim>\<open>n > oa->n\<close>: with \<^verbatim>\<open>n == oa->n\<close> it reads a slot past the octet
  strings, which is a fault here, as is a negative index.\<close>

definition octarr_rm :: "octarr option \<Rightarrow> int \<Rightarrow> (octet option \<times> octarr option) option" where
  "octarr_rm oa n = (case oa of None \<Rightarrow> Some (None, None)
     | Some a \<Rightarrow>
        if n > int (length (oa_arr a)) then Some (None, oa)
        else if n < 0 \<or> n = int (length (oa_arr a)) then None
        else Some (Some (oa_arr a ! nat n),
               Some (a\<lparr>oa_arr := take (nat n) (oa_arr a) @ drop (Suc (nat n)) (oa_arr a)\<rparr>)))"

subsection \<open>Splitting\<close>

text \<open>The inner loop of \<open>oct_split\<close>: from \<^verbatim>\<open>cp\<close> with \<^verbatim>\<open>l\<close> bytes left and \<^verbatim>\<open>n\<close> counted. After an
  escape byte the pointer moves on, \<^verbatim>\<open>n\<close> does not, and the escaped byte is still compared
  with the separator.\<close>

fun split_inner :: "bytes \<Rightarrow> int \<Rightarrow> char \<Rightarrow> char \<Rightarrow> nat \<Rightarrow> (bytes \<times> int \<times> nat) option" where
  "split_inner [] l c ec n = (if l = 0 then Some ([], l, n) else None)"
| "split_inner (x # xs) l c ec n =
     (if l = 0 then Some (x # xs, l, n)
      else if x = ec then
        (case xs of [] \<Rightarrow> None
         | y # ys \<Rightarrow> if y = c then Some (xs, l - 1, n) else split_inner ys (l - 2) c ec (Suc n))
      else if x = c then Some (x # xs, l, n)
      else split_inner xs (l - 1) c ec (Suc n))"

fun split_skip :: "bytes \<Rightarrow> int \<Rightarrow> char \<Rightarrow> (bytes \<times> int) option" where
  "split_skip [] l c = None"
| "split_skip (x # xs) l c = (if x = c then split_skip xs (l - 1) c else Some (x # xs, l))"

lemma split_inner_length: "split_inner cp l c ec n = Some (cp', l', n') \<Longrightarrow> length cp' \<le> length cp"
  by (induction cp l c ec n rule: split_inner.induct) (fastforce split: if_splits list.splits)+

lemma split_skip_length: "split_skip cp l c = Some (cp', l') \<Longrightarrow> length cp' \<le> length cp"
  by (induction cp l c rule: split_skip.induct) (auto split: if_splits)

text \<open>The outer loop; \<^verbatim>\<open>i\<close> is never incremented, so the test against \<^verbatim>\<open>max\<close> is that of the first
  round.\<close>

function split_outer ::
  "bytes \<Rightarrow> int \<Rightarrow> char \<Rightarrow> char \<Rightarrow> bool \<Rightarrow> int \<Rightarrow> octarr \<Rightarrow> octet \<Rightarrow> octarr option" where
  "split_outer sp l c ec flag mx oa oct =
     (if l \<noteq> 0 \<and> (mx = 0 \<or> 0 < mx) then
        (case split_inner sp l c ec 0 of None \<Rightarrow> None
         | Some (cp, l', n) \<Rightarrow>
           (case octarr_add (Some oa) (oct\<lparr>oct_len := n\<rparr>) of None \<Rightarrow> None
            | Some oa' \<Rightarrow>
              if flag then
                (case cp of [] \<Rightarrow> None
                 | _ # cp1 \<Rightarrow>
                   (case split_skip cp1 l' c of None \<Rightarrow> None
                    | Some (cp2, l2) \<Rightarrow>
                        split_outer cp2 l2 c ec flag mx oa' \<lparr>oct_val = cp2, oct_len = 0, oct_size = 0\<rparr>))
              else if l' \<noteq> 0 then
                (case cp of [] \<Rightarrow> None
                 | _ # cp1 \<Rightarrow>
                   split_outer cp1 (l' - 1) c ec flag mx oa' \<lparr>oct_val = cp1, oct_len = 0, oct_size = 0\<rparr>)
              else Some oa'))
      else octarr_add (Some oa) oct)"
  by pat_completeness auto
termination
  by (relation "measure (\<lambda>(sp, _). length sp)")
    (fastforce dest: split_inner_length split_skip_length)+

declare split_outer.simps [simp del]

definition oct_split :: "octet option \<Rightarrow> char \<Rightarrow> char \<Rightarrow> bool \<Rightarrow> int \<Rightarrow> octarr option option" where
  "oct_split o1 c ec flag mx = (case o1 of None \<Rightarrow> Some None
     | Some o1 \<Rightarrow>
        (case octdup (Some o1) of
           Some (Some oct) \<Rightarrow>
             map_option Some
               (split_outer (oct_val oct) (int (oct_len oct)) c ec flag mx (octarr_new 4) oct)
         | _ \<Rightarrow> None))"

subsection \<open>String helpers\<close>

definition rmcrlf :: "bytes \<Rightarrow> bytes" where
  "rmcrlf s = rev (dropWhile (\<lambda>c. c = CHR 0x0D \<or> c = CHR 0x0A) (rev s))"

definition is_blank :: "char \<Rightarrow> bool" where
  "is_blank c \<longleftrightarrow> c = CHR '' '' \<or> c = CHR 0x09"

text \<open>\<open>rmlt\<close> walks back from the last byte without looking for the start of the string.\<close>

definition rmlt :: "bytes \<Rightarrow> bytes option" where
  "rmlt s = (if list_all is_blank s then None
             else Some (dropWhile is_blank (rev (dropWhile is_blank (rev s)))))"

fun find_balancing :: "bytes \<Rightarrow> char \<Rightarrow> char \<Rightarrow> nat \<Rightarrow> nat \<Rightarrow> nat option" where
  "find_balancing [] left right seen i = None"
| "find_balancing (c # q) left right seen i =
     (if c = left then find_balancing q left right (Suc seen) (Suc i)
      else if c = right then
        (if seen = 0 then Some i else find_balancing q left right (seen - 1) (Suc i))
      else find_balancing q left right seen (Suc i))"

subsection \<open>Cache times\<close>

record cachetime =
  ct_limit :: int
  ct_pattern :: octet

fun cachetime_loop :: "octet \<Rightarrow> cachetime list \<Rightarrow> int \<Rightarrow> cachetime option \<Rightarrow> cachetime option option" where
  "cachetime_loop str [] mx xct = Some xct"
| "cachetime_loop str (ct # cts) mx xct =
     (if oct_size (ct_pattern ct) = 0 \<and> mx = - 1 then cachetime_loop str cts 0 (Some ct)
      else let l = int (oct_len (ct_pattern ct)) in
        if l > mx then
          (case octncmp str (ct_pattern ct) (oct_len (ct_pattern ct)) of None \<Rightarrow> None
           | Some r \<Rightarrow> if r = 0 then cachetime_loop str cts l (Some ct)
                       else cachetime_loop str cts mx xct)
        else cachetime_loop str cts mx xct)"

definition cachetime_set :: "octet \<Rightarrow> cachetime list \<Rightarrow> int option" where
  "cachetime_set str cts =
     map_option (\<lambda>x. case x of None \<Rightarrow> 0 | Some ct \<Rightarrow> ct_limit ct) (cachetime_loop str cts (- 1) None)"

subsection \<open>The array interface\<close>

definition octarr_ok :: "octarr \<Rightarrow> bool" where
  "octarr_ok a \<longleftrightarrow> length (oa_arr a) \<le> oa_size a"

lemma octarr_ok_new [simp]: "octarr_ok (octarr_new n)" "oa_arr (octarr_new n) = []"
  by (simp_all add: octarr_ok_def octarr_new_def)

lemma octarr_add_Some:
  assumes "octarr_ok a"
  obtains a' where "octarr_add (Some a) v = Some a'" and "octarr_ok a'" and "oa_arr a' = oa_arr a @ [v]"
proof (cases "oa_size a = 0")
  case True
  show ?thesis
    by (rule that [of "\<lparr>oa_arr = [v], oa_size = 2\<rparr>"])
      (use True assms in \<open>simp_all add: octarr_add_def octarr_ok_def\<close>)
next
  case False
  show ?thesis
  proof (cases "length (oa_arr a) = oa_size a")
    case True
    show ?thesis
      by (rule that [of "a\<lparr>oa_arr := oa_arr a @ [v], oa_size := oa_size a * 2\<rparr>"])
        (use True False assms in \<open>simp_all add: octarr_add_def octarr_ok_def\<close>)
  next
    case room: False
    show ?thesis
      by (rule that [of "a\<lparr>oa_arr := oa_arr a @ [v]\<rparr>"])
        (use room False assms in \<open>simp_all add: octarr_add_def octarr_ok_def\<close>)
  qed
qed

interpretation oa: growable "\<lambda>r v. octarr_add (Some r) v" oa_arr octarr_ok
proof
  fix r v
  assume "octarr_ok r"
  then show "\<exists>r'. octarr_add (Some r) v = Some r' \<and> octarr_ok r' \<and> oa_arr r' = oa_arr r @ [v]"
    by (rule octarr_add_Some) auto
qed

lemma octarr_join_loop_fold: "octarr_join_loop t os = fold_add (\<lambda>r v. octarr_add (Some r) v) t os"
  by (induction os arbitrary: t) (auto split: option.splits)

text \<open>\<open>octarr_join\<close> of two arrays is the concatenation: it pops the octet strings of the
  second from the front and adds them at the end of the first, growing it as needed.\<close>

lemma octarr_join_append:
  assumes "octarr_ok t" and "octarr_ok s"
  shows "\<exists>r. octarr_join (Some t) (Some s) = Some (Some r) \<and> octarr_ok r \<and>
    oa_arr r = oa_arr t @ oa_arr s"
  using oa.fold_add_items [OF assms(1), of "oa_arr s"]
  by (auto simp: octarr_join_def octarr_join_loop_fold)

text \<open>Joined to itself, an array is turned round by one place in each round of the loop, and the loop does not end.\<close>

lemma octarr_join_self_round:
  assumes "octarr_ok a" and "oa_arr a \<noteq> []"
  shows "\<exists>a'. octarr_join_self a = octarr_join_self a' \<and> octarr_ok a' \<and> oa_arr a' = rotate1 (oa_arr a)"
proof -
  obtain o1 os where a: "oa_arr a = o1 # os" using assms(2) by (cases "oa_arr a") auto
  have "octarr_ok (a\<lparr>oa_arr := os\<rparr>)" using assms(1) a by (simp add: octarr_ok_def)
  then obtain a' where "octarr_add (Some (a\<lparr>oa_arr := os\<rparr>)) o1 = Some a'" "octarr_ok a'" "oa_arr a' = os @ [o1]"
    by (rule octarr_add_Some [of _ o1]) auto
  then show ?thesis using a by (subst octarr_join_self.simps) (auto simp: octarr_pop_def)
qed

lemma octarr_join_self_diverges: "octarr_join_self a = None"
proof (cases "octarr_join_self a")
  case (Some b)
  have False
    by (rule octarr_join_self.raw_induct [where P = "\<lambda>a b. False", OF _ Some])
      (auto simp: bind_eq_Some_conv split: prod.splits option.splits)
  then show ?thesis ..
qed

subsection \<open>Splitting is splitting\<close>

fun split_on :: "'a \<Rightarrow> 'a list \<Rightarrow> 'a list list" where
  "split_on c [] = [[]]"
| "split_on c (x # xs) =
     (if x = c then [] # split_on c xs
      else (case split_on c xs of [] \<Rightarrow> [[x]] | p # ps \<Rightarrow> (x # p) # ps))"

lemma split_on_nonempty [simp]: "split_on c xs \<noteq> []"
  by (induction xs) (auto split: list.splits)

lemma split_on_no_sep: "c \<notin> set xs \<Longrightarrow> split_on c xs = [xs]"
  by (induction xs) auto

lemma split_on_sep: "c \<notin> set xs \<Longrightarrow> split_on c (xs @ c # ys) = xs # split_on c ys"
  by (induction xs) auto

text \<open>Without an escape byte in the way the inner loop stops at the first separator.\<close>

lemma split_inner_noescape:
  assumes "NUL \<notin> set s" and "c \<noteq> NUL"
  shows "split_inner (s @ r) (int (length s)) c NUL n =
    Some (dropWhile (\<lambda>x. x \<noteq> c) s @ r, int (length (dropWhile (\<lambda>x. x \<noteq> c) s)),
      n + length (takeWhile (\<lambda>x. x \<noteq> c) s))"
  using assms
proof (induction s arbitrary: n)
  case Nil
  then show ?case by (cases r) auto
qed auto

definition pieces :: "octarr \<Rightarrow> bytes list" where
  "pieces oa = map content (oa_arr oa)"

lemma split_outer_noescape:
  assumes "NUL \<notin> set s" and "c \<noteq> NUL" and "octarr_ok oa" and "oct_val oct = s @ r" and "s \<noteq> []"
    and "length s < 2 ^ 31" and "list_all wf_octet (oa_arr oa)"
  shows "\<exists>oa'. split_outer (s @ r) (int (length s)) c NUL False 0 oa oct = Some oa' \<and> octarr_ok oa' \<and>
    list_all wf_octet (oa_arr oa') \<and> pieces oa' = pieces oa @ split_on c s"
  using assms
proof (induction s arbitrary: oa oct rule: length_induct)
  case (1 s)
  define t d where "t = takeWhile (\<lambda>x. x \<noteq> c) s" and "d = dropWhile (\<lambda>x. x \<noteq> c) s"
  have s: "s = t @ d" by (simp add: t_def d_def)
  have tc: "c \<notin> set t" by (auto simp: t_def dest: set_takeWhileD)
  define o2 where "o2 = oct\<lparr>oct_len := length t\<rparr>"
  have c2: "content o2 = t" using 1(5) s by (simp add: content_def o2_def)
  obtain oa2 where oa2: "octarr_add (Some oa) o2 = Some oa2" "octarr_ok oa2" "oa_arr oa2 = oa_arr oa @ [o2]"
    using 1(4) by (rule octarr_add_Some)
  have p2: "pieces oa2 = pieces oa @ [t]" by (simp add: pieces_def oa2(3) c2)
  have "wf_octet o2" using 1(5,7) s by (simp add: wf_octet_def o2_def)
  then have w2: "list_all wf_octet (oa_arr oa2)" using 1(8) oa2(3) by simp
  have inner: "split_inner (s @ r) (int (length s)) c NUL 0 = Some (d @ r, int (length d), length t)"
    using split_inner_noescape [OF 1(2,3), of r 0] by (simp add: t_def d_def)
  show ?case
  proof (cases d)
    case Nil
    then have "split_outer (s @ r) (int (length s)) c NUL False 0 oa oct = Some oa2"
      using inner oa2(1) 1(6) by (subst split_outer.simps) (simp add: o2_def)
    moreover have "split_on c s = [t]" using Nil s tc split_on_no_sep [of c t] by simp
    ultimately show ?thesis using oa2(2) p2 w2 by simp
  next
    case (Cons x d')
    have x: "x = c" using Cons hd_dropWhile [of "\<lambda>x. x \<noteq> c" s] by (simp add: d_def)
    define o3 where "o3 = \<lparr>oct_val = d' @ r, oct_len = 0, oct_size = 0\<rparr>"
    have step: "split_outer (s @ r) (int (length s)) c NUL False 0 oa oct =
        split_outer (d' @ r) (int (length d')) c NUL False 0 oa2 o3"
      using inner oa2(1) 1(6) Cons by (subst split_outer.simps) (simp add: o2_def o3_def)
    have sp: "split_on c s = t # split_on c d'" using s Cons x tc by (simp add: split_on_sep)
    show ?thesis
    proof (cases "d' = []")
      case True
      obtain oa3 where "octarr_add (Some oa2) o3 = Some oa3" "octarr_ok oa3" "oa_arr oa3 = oa_arr oa2 @ [o3]"
        using oa2(2) by (rule octarr_add_Some)
      moreover have "wf_octet o3" by (simp add: o3_def wf_octet_def)
      ultimately show ?thesis using True step sp p2 w2
        by (auto simp: split_outer.simps [of r] pieces_def o3_def content_def)
    next
      case False
      have "\<exists>oa'. split_outer (d' @ r) (int (length d')) c NUL False 0 oa2 o3 = Some oa' \<and> octarr_ok oa' \<and>
          list_all wf_octet (oa_arr oa') \<and> pieces oa' = pieces oa2 @ split_on c d'"
        using 1(1,2,3,7) oa2(2) w2 False s Cons by (auto simp: o3_def)
      then show ?thesis using step sp p2 by simp
    qed
  qed
qed

lemma oct_split_wf:
  assumes "wf_octet o1" and "oct_len o1 \<noteq> 0" and "NUL \<notin> set (content o1)" and "c \<noteq> NUL"
  shows "\<exists>oa. oct_split (Some o1) c NUL False 0 = Some (Some oa) \<and> list_all wf_octet (oa_arr oa) \<and> pieces oa = split_on c (content o1)"
proof -
  define oct where "oct = \<lparr>oct_val = content o1 @ [NUL], oct_len = oct_len o1, oct_size = oct_len o1\<rparr>"
  have dup: "octdup (Some o1) = Some (Some oct)"
    using assms(1,2) by (simp add: octdup_def wf_octet_def content_def oct_def)
  have ne: "content o1 \<noteq> []" using assms(2) length_content [OF assms(1)] by (metis list.size(3))
  obtain oa where "split_outer (content o1 @ [NUL]) (int (length (content o1))) c NUL False 0 (octarr_new 4) oct = Some oa"
      "list_all wf_octet (oa_arr oa)" "pieces oa = pieces (octarr_new 4) @ split_on c (content o1)"
    using split_outer_noescape [of "content o1" c "octarr_new 4" oct "[NUL]"] assms(3,4) ne length_content [OF assms(1)] assms(1)
    by (auto simp: oct_def wf_octet_def)
  then show ?thesis
    using dup assms(1) by (simp add: oct_split_def oct_def pieces_def)
qed

text \<open>Without an escape byte and without the flag, \<open>oct_split\<close> splits a non-empty octet
  string (with no NUL in it) at every occurrence of the separator: the contents of the
  resulting octet strings, in order, are the parts between the separators.\<close>

theorem oct_split_pieces:
  assumes "wf_octet o1" and "oct_len o1 \<noteq> 0" and "NUL \<notin> set (content o1)" and "c \<noteq> NUL"
  shows "\<exists>oa. oct_split (Some o1) c NUL False 0 = Some (Some oa) \<and> pieces oa = split_on c (content o1)"
  using oct_split_wf [OF assms] by blast

theorem oct_split_pieces_witness:
  "\<exists>oa. oct_split (Some (mk_octet ''a;;bc'')) CHR '';'' NUL False 0 = Some (Some oa) \<and>
    pieces oa = [''a'', '''', ''bc'']"
proof -
  have "split_on CHR '';'' ''a;;bc'' = [''a'', '''', ''bc'']" by simp
  then show ?thesis
    using oct_split_pieces [of "mk_octet ''a;;bc''" "CHR '';''"]
    by (simp add: wf_mk_octet) (simp add: mk_octet_def)
qed

text \<open>The escape byte of \<open>oct_split\<close> does not do what it is for: a separator that follows it
  still ends the part, and a part with an escape byte in it loses its last byte.\<close>

lemma oct_split_escape_ignored:
  "(\<exists>oa. oct_split (Some (mk_octet [CHR ''a'', CHR 0x5C, CHR '';'', CHR ''b''])) CHR '';'' CHR 0x5C False 0 =
      Some (Some oa) \<and> pieces oa = [''a'', ''b'']) \<and>
   (\<exists>oa. oct_split (Some (mk_octet [CHR ''a'', CHR 0x5C, CHR ''x'', CHR ''b''])) CHR '';'' CHR 0x5C False 0 =
      Some (Some oa) \<and> pieces oa = [[CHR ''a'', CHR 0x5C, CHR ''x'']])"
proof -
  have "map_option (map_option pieces)
      (oct_split (Some (mk_octet [CHR ''a'', CHR 0x5C, CHR '';'', CHR ''b''])) CHR '';'' CHR 0x5C False 0) =
    Some (Some [''a'', ''b''])" by code_simp
  moreover have "map_option (map_option pieces)
      (oct_split (Some (mk_octet [CHR ''a'', CHR 0x5C, CHR ''x'', CHR ''b''])) CHR '';'' CHR 0x5C False 0) =
    Some (Some [[CHR ''a'', CHR 0x5C, CHR ''x'']])" by code_simp
  ultimately show ?thesis by auto
qed

subsection \<open>The cache time is that of the longest pattern\<close>

definition ct_applies :: "octet \<Rightarrow> cachetime \<Rightarrow> bool" where
  "ct_applies str ct =
     (let n = min (oct_len str) (oct_len (ct_pattern ct))
      in take n (content str) = take n (content (ct_pattern ct)))"

definition wf_ct :: "cachetime \<Rightarrow> bool" where
  "wf_ct ct \<longleftrightarrow> wf_octet (ct_pattern ct) \<and> (oct_size (ct_pattern ct) = 0 \<longleftrightarrow> oct_len (ct_pattern ct) = 0)"

definition ct_best :: "octet \<Rightarrow> cachetime set \<Rightarrow> cachetime option \<Rightarrow> bool" where
  "ct_best str D x = (case x of None \<Rightarrow> (\<forall>ct \<in> D. \<not> ct_applies str ct)
     | Some b \<Rightarrow> b \<in> D \<and> ct_applies str b \<and>
         (\<forall>ct \<in> D. ct_applies str ct \<longrightarrow> oct_len (ct_pattern ct) \<le> oct_len (ct_pattern b)))"

lemma octncmp_applies:
  assumes "wf_octet str" and "wf_ct ct"
  shows "\<exists>r. octncmp str (ct_pattern ct) (oct_len (ct_pattern ct)) = Some r \<and>
    (r = 0 \<longleftrightarrow> ct_applies str ct)"
proof -
  define n where "n = min (oct_len str) (oct_len (ct_pattern ct))"
  have "n \<le> length (oct_val str)" "n \<le> length (oct_val (ct_pattern ct))"
    using assms by (auto simp: n_def wf_octet_def wf_ct_def)
  then obtain r where r: "memcmp (oct_val str) (oct_val (ct_pattern ct)) n = Some r"
    using memcmp_total by blast
  have "min (min (oct_len str) (oct_len (ct_pattern ct))) (oct_len (ct_pattern ct)) = n"
    by (simp add: n_def)
  then show ?thesis
    using r memcmp_zero_iff [OF r] n_def
    by (simp add: octncmp_def ct_applies_def content_def Let_def min_def)
qed

lemma cachetime_loop_best:
  assumes "wf_octet str" and "\<forall>ct \<in> set cts. wf_ct ct" and "ct_best str D x"
    and "mx = (case x of None \<Rightarrow> - 1 | Some b \<Rightarrow> int (oct_len (ct_pattern b)))"
  shows "\<exists>y. cachetime_loop str cts mx x = Some y \<and> ct_best str (D \<union> set cts) y"
  using assms(2-4)
proof (induction cts arbitrary: D mx x)
  case (Cons ct cts)
  have wf: "wf_ct ct" using Cons.prems(1) by simp
  obtain r where r: "octncmp str (ct_pattern ct) (oct_len (ct_pattern ct)) = Some r"
    "r = 0 \<longleftrightarrow> ct_applies str ct" using octncmp_applies [OF assms(1) wf] by blast
  have zero: "ct_applies str ct" if "oct_len (ct_pattern ct) = 0"
    using that by (simp add: ct_applies_def)
  have rest: "\<forall>ct \<in> set cts. wf_ct ct" using Cons.prems(1) by simp
  define y where "y = (if ct_applies str ct \<and> mx < int (oct_len (ct_pattern ct)) then Some ct else x)"
  define my where "my = (case y of None \<Rightarrow> - 1 | Some b \<Rightarrow> int (oct_len (ct_pattern b)))"
  have "cachetime_loop str (ct # cts) mx x = cachetime_loop str cts my y"
    using r zero wf Cons.prems(3)
    by (auto simp: y_def my_def wf_ct_def Let_def split: option.splits)
  moreover have "ct_best str (insert ct D) y"
    using Cons.prems(2,3) by (auto simp: ct_best_def y_def split: option.splits if_splits)
  then have "\<exists>z. cachetime_loop str cts my y = Some z \<and> ct_best str (insert ct D \<union> set cts) z"
    using rest my_def by (intro Cons.IH) auto
  ultimately show ?case by simp
qed simp

text \<open>\<open>cachetime_set\<close> returns the limit of a definition whose pattern agrees with the string on
  their common length and is at least as long as every other such pattern, and 0 exactly
  when no definition applies.\<close>

theorem cachetime_set_longest:
  assumes "wf_octet str" and "\<forall>ct \<in> set cts. wf_ct ct"
  shows "\<exists>x. ct_best str (set cts) x \<and>
    cachetime_set str cts = Some (case x of None \<Rightarrow> 0 | Some ct \<Rightarrow> ct_limit ct)"
  using cachetime_loop_best [OF assms, of "{}" None "- 1"]
  by (auto simp: cachetime_set_def ct_best_def)

theorem cachetime_set_longest_witness:
  "\<exists>x. ct_best (mk_octet ''abc'')
      {\<lparr>ct_limit = 9, ct_pattern = \<lparr>oct_val = ''ab'', oct_len = 2, oct_size = 2\<rparr>\<rparr>} x \<and>
    cachetime_set (mk_octet ''abc'')
      [\<lparr>ct_limit = 9, ct_pattern = \<lparr>oct_val = ''ab'', oct_len = 2, oct_size = 2\<rparr>\<rparr>] =
    Some (case x of None \<Rightarrow> 0 | Some ct \<Rightarrow> ct_limit ct)"
  using cachetime_set_longest [of "mk_octet ''abc''"
      "[\<lparr>ct_limit = 9, ct_pattern = \<lparr>oct_val = ''ab'', oct_len = 2, oct_size = 2\<rparr>\<rparr>]"]
  by (simp add: mk_octet_def wf_ct_def wf_octet_def)

end
