(* ===== verification/Sexp.thy ===== *)
theory Sexp
  imports Octarr "HOL-Library.Sublist"
begin

text \<open>
  The canonical S-expressions of \<open>lib/sexp.c\<close>: the length prefix (\<open>get_len\<close>), the
  length-prefixed string (\<open>get_str\<close>), the length of an S-expression at the start of an input
  (\<open>sexp_len\<close>) and the formatted output of S-expressions (\<open>sexp_printv\<close>).

  An input is consumed through an octet string whose \<^verbatim>\<open>val\<close> and \<^verbatim>\<open>len\<close> are moved forward, so the
  operations return the octet string as they leave it. The error messages read up to three bytes
  at the place of the error; like all logging they are left out.
\<close>

subsection \<open>Reading\<close>

text \<open>The loop over digits that \<open>get_len\<close> and \<open>is_numeric\<close> share: \<open>k\<close> is \<^verbatim>\<open>op->len - l\<close>. The signed
  variable that collects them wraps; its sign bit is bit \<open>b\<close>.\<close>

fun digit_loop :: "nat \<Rightarrow> nat \<Rightarrow> bytes \<Rightarrow> int \<Rightarrow> nat \<Rightarrow> (int \<times> nat \<times> bytes) option" where
  "digit_loop b 0 sp n l = Some (n, l, sp)"
| "digit_loop b (Suc k) [] n l = None"
| "digit_loop b (Suc k) (c # sp) n l =
     (if DIGIT c
      then digit_loop b k sp
        (signed_take_bit b ((if n \<noteq> 0 then signed_take_bit b (n * 10) else n) + digitval c)) (Suc l)
      else Some (n, l, c # sp))"

definition get_len :: "octet \<Rightarrow> ((spocp_result + int) \<times> octet) option" where
  "get_len op =
     (if oct_len op = 0 then Some (Inl SPOCP_MISSING_CHAR, op)
      else do {
        (n, l, sp) \<leftarrow> digit_loop 31 (oct_len op) (oct_val op) 0 0;
        if n = 0 then Some (Inl SPOCP_SYNTAXERROR, op)
        else if l = oct_len op then Some (Inl SPOCP_MISSING_CHAR, op)
        else do {
          c \<leftarrow> rd sp 0;
          if c \<noteq> CHR '':'' then Some (Inl SPOCP_SYNTAXERROR, op)
          else Some (Inr n, op\<lparr>oct_len := oct_len op - l, oct_val := sp\<rparr>) } })"

text \<open>The result of \<open>get_len\<close> is \<open>- 1\<close> when it fails. \<open>get_str\<close> stores it in the \<^verbatim>\<open>size_t\<close>
  \<^verbatim>\<open>ro->len\<close> before it asks whether it is negative, so that test never succeeds and is
  not in the model; \<open>- 1\<close> goes on as \<open>SIZE_MAX\<close>.\<close>

definition len_value :: "spocp_result + int \<Rightarrow> nat" where
  "len_value r = size_of_int (case r of Inl _ \<Rightarrow> - 1 | Inr n \<Rightarrow> n)"

definition get_str :: "octet \<Rightarrow> ((spocp_result + octet) \<times> octet) option" where
  "get_str so = do {
     (r, so) \<leftarrow> get_len so;
     let len = len_value r;
     if szsub (oct_len so) 1 < len then Some (Inl SPOCP_MISSING_CHAR, so)
     else if len = 0 then Some (Inl SPOCP_SYNTAXERROR, so)
     else do {
       p \<leftarrow> adv 1 (oct_val so);
       q \<leftarrow> adv len p;
       Some (Inr \<lparr>oct_val = p, oct_len = len, oct_size = 0\<rparr>,
             so\<lparr>oct_val := q, oct_len := szsub (szsub (oct_len so) 1) len\<rparr>) } }"

subsection \<open>Views\<close>

text \<open>An octet string whose bytes are \<open>s\<close>, in a buffer that goes on with \<open>x\<close>.\<close>

definition view :: "bytes \<Rightarrow> bytes \<Rightarrow> nat \<Rightarrow> octet" where
  "view s x sz = \<lparr>oct_val = s @ x, oct_len = length s, oct_size = sz\<rparr>"

lemma view_simps [simp]:
  "oct_val (view s x sz) = s @ x" "oct_len (view s x sz) = length s" "oct_size (view s x sz) = sz"
  "content (view s x sz) = s"
  by (simp_all add: view_def content_def)

lemma view_eq_iff [simp]: "view s x sz = view t y sz' \<longleftrightarrow> s = t \<and> x = y \<and> sz = sz'"
  by (auto simp: view_def)

lemma wf_view [simp]: "wf_octet (view s x sz) \<longleftrightarrow> length s < 2 ^ 31"
  by (auto simp: wf_octet_def)

lemma wf_octet_view: "wf_octet o1 \<Longrightarrow> \<exists>x. o1 = view (content o1) x (oct_size o1)"
proof -
  assume wf: "wf_octet o1"
  then obtain x where "oct_val o1 = content o1 @ x" using wf_octet_split by blast
  then have "o1 = view (content o1) x (oct_size o1)"
    using wf by (cases o1) (simp add: view_def)
  then show ?thesis ..
qed

lemma wf_octetE:
  assumes "wf_octet o1"
  obtains s x sz where "o1 = view s x sz" and "length s < 2 ^ 31"
  using wf_octet_view [OF assms] assms by (metis wf_view)

lemma mk_octet_view: "mk_octet s = view s [] 0"
  by (simp add: mk_octet_def view_def)

subsection \<open>The length prefix\<close>

text \<open>The value the loop computes: decimal, with wrap-around.\<close>

definition wrap_value :: "bytes \<Rightarrow> int" where
  "wrap_value ds = i32 (dec_value ds)"

lemma digit_step:
  "signed_take_bit b ((if signed_take_bit b a \<noteq> 0 then signed_take_bit b (signed_take_bit b a * 10)
     else signed_take_bit b a) + c) = signed_take_bit b (a * 10 + c)" for a c :: int
proof -
  have *: "signed_take_bit b (signed_take_bit b (signed_take_bit b a * 10) + c) = signed_take_bit b (a * 10 + c)"
    by (metis signed_take_bit_add signed_take_bit_mult signed_take_bit_signed_take_bit min.idem)
  then show ?thesis by (cases "signed_take_bit b a = 0") auto
qed

lemma digit_loop_value:
  assumes "k \<le> length sp"
  shows "digit_loop b k sp (signed_take_bit b (dec_value ds)) l =
    (let d = takeWhile DIGIT (take k sp)
     in Some (signed_take_bit b (dec_value (ds @ d)), l + length d, drop (length d) sp))"
  using assms
proof (induction k arbitrary: sp ds l)
  case (Suc k)
  obtain c sp' where sp: "sp = c # sp'" using Suc.prems by (cases sp) auto
  have "digit_loop b k sp' (signed_take_bit b (dec_value (ds @ [c]))) (Suc l) =
    (let d = takeWhile DIGIT (take k sp')
     in Some (signed_take_bit b (dec_value (ds @ c # d)), Suc l + length d, drop (length d) sp'))"
    using Suc.IH [of sp' "ds @ [c]" "Suc l"] Suc.prems by (simp add: sp Let_def)
  then show ?case
    unfolding sp by (simp only: digit_loop.simps digit_step dec_value_snoc) (simp add: Let_def)
qed simp

lemma digit_loop_view:
  "digit_loop b (length s) (s @ x) 0 0 =
    Some (signed_take_bit b (dec_value (takeWhile DIGIT s)), length (takeWhile DIGIT s), dropWhile DIGIT s @ x)"
proof -
  have "drop (length (takeWhile DIGIT s)) (s @ x) = dropWhile DIGIT s @ x"
    using length_takeWhile_le [of DIGIT s] by (simp add: dropWhile_eq_drop)
  then show ?thesis
    using digit_loop_value [of "length s" "s @ x" b "[]" 0] by (simp add: Let_def)
qed

lemma get_len_view:
  "get_len (view s x sz) =
    (let d = takeWhile DIGIT s; r = dropWhile DIGIT s in
     Some (if s = [] then (Inl SPOCP_MISSING_CHAR, view s x sz)
           else if wrap_value d = 0 then (Inl SPOCP_SYNTAXERROR, view s x sz)
           else if r = [] then (Inl SPOCP_MISSING_CHAR, view s x sz)
           else if hd r \<noteq> CHR '':'' then (Inl SPOCP_SYNTAXERROR, view s x sz)
           else (Inr (wrap_value d), view r x sz)))"
proof -
  define d r where "d = takeWhile DIGIT s" and "r = dropWhile DIGIT s"
  have s: "s = d @ r" by (simp add: d_def r_def)
  have loop: "digit_loop 31 (length s) (s @ x) 0 0 = Some (wrap_value d, length d, r @ x)"
    using digit_loop_view [of 31 s x] by (simp add: wrap_value_def i32_def d_def r_def)
  have upd: "(view s x sz)\<lparr>oct_len := length s - length d, oct_val := r @ x\<rparr> = view r x sz"
    by (simp add: view_def s)
  have nil: "length d = length s \<longleftrightarrow> r = []" by (simp add: s)
  show ?thesis
  proof (cases "s = []")
    case True
    then show ?thesis by (simp add: get_len_def)
  next
    case False
    then show ?thesis
      unfolding get_len_def view_simps loop Let_def d_def [symmetric] r_def [symmetric]
      by (cases "r = []") (simp_all add: nil upd rd_def nth_append hd_conv_nth)
  qed
qed

lemma len_value_Inl [simp]: "len_value (Inl e) = SIZE_MAX"
  by (simp add: len_value_def size_of_int_neg SIZE_MAX_def)

lemma len_value_Inr: "len_value (Inr n) = size_of_int n"
  by (simp add: len_value_def)

subsection \<open>The length-prefixed string\<close>

text \<open>\<open>netstring s a r\<close>: the bytes \<open>s\<close> are a length, a colon, a string \<open>a\<close> of that length, and \<open>r\<close>.
  The length is what the wrapping loop makes of the digits.\<close>

definition netstring :: "bytes \<Rightarrow> bytes \<Rightarrow> bytes \<Rightarrow> bool" where
  "netstring s a r \<longleftrightarrow> (\<exists>d. s = d @ CHR '':'' # a @ r \<and> (\<forall>c\<in>set d. DIGIT c) \<and> a \<noteq> [] \<and>
     wrap_value d = int (length a))"

lemma wrap_value_range: "- (2 ^ 31) \<le> wrap_value d \<and> wrap_value d < 2 ^ 31"
  unfolding wrap_value_def by (rule i32_range)

lemma get_str_view:
  assumes len: "length s < 2 ^ 31" and ne: "s \<noteq> []"
  shows "if (\<exists>a r. netstring s a r)
    then \<exists>a r. netstring s a r \<and> get_str (view s x sz) = Some (Inr (view a (r @ x) 0), view r x sz)
    else \<exists>so'. get_str (view s x sz) = Some (Inl SPOCP_MISSING_CHAR, so')"
proof -
  define d r n where "d = takeWhile DIGIT s" and "r = dropWhile DIGIT s" and "n = wrap_value d"
  have s: "s = d @ r" by (simp add: d_def r_def)
  have dig: "\<forall>c\<in>set d. DIGIT c" by (auto simp: d_def dest: set_takeWhileD)
  have rlen: "length r < 2 ^ 31" using len by (simp add: s)
  have nr: "- (2 ^ 31) \<le> n" "n < 2 ^ 31" using wrap_value_range [of d] by (simp_all add: n_def)
  have G: "get_len (view s x sz) = Some (if n = 0 then (Inl SPOCP_SYNTAXERROR, view s x sz)
           else if r = [] then (Inl SPOCP_MISSING_CHAR, view s x sz)
           else if hd r \<noteq> CHR '':'' then (Inl SPOCP_SYNTAXERROR, view s x sz)
           else (Inr n, view r x sz))"
    using get_len_view [of s x sz] ne by (simp add: Let_def d_def [symmetric] r_def [symmetric] n_def)
  have net: "netstring s a t \<Longrightarrow> r = CHR '':'' # a @ t \<and> n = int (length a) \<and> a \<noteq> []" for a t
    unfolding netstring_def n_def d_def r_def
    by (auto simp: takeWhile_digits_append dropWhile_digits_append)
  have big: "szsub (length y) 1 < SIZE_MAX" if "y \<noteq> []" "length y < 2 ^ 31" for y :: bytes
    using that by (cases y) (simp_all add: SIZE_MAX_def)
  consider (ok) r' where "n > 0" "r = CHR '':'' # r'" "nat n \<le> length r'"
    | (hdr) "n = 0 \<or> r = [] \<or> hd r \<noteq> CHR '':''"
    | (len) r' where "n \<noteq> 0" "r = CHR '':'' # r'" "n < 0 \<or> nat n > length r'"
    by (cases r) (auto simp: not_le, force)
  then show ?thesis
  proof cases
    case ok
    define a t where "a = take (nat n) r'" and "t = drop (nat n) r'"
    have r': "r' = a @ t" "length a = nat n" using ok(3) by (simp_all add: a_def t_def)
    have "netstring s a t" unfolding netstring_def
      using ok dig r' by (intro exI [of _ d]) (auto simp: s n_def)
    moreover have "get_str (view s x sz) = Some (Inr (view a (t @ x) 0), view t x sz)"
    proof -
      have "len_value (Inr n) = length a" using ok(1) nr r'(2) by (simp add: len_value_Inr)
      then show ?thesis
        using ok(1) rlen r'(2) unfolding get_str_def G
        by (simp add: ok(2) r'(1) Let_def adv_def view_def)
    qed
    ultimately show ?thesis by (auto simp: if_split)
  next
    case hdr
    then have "\<not> (\<exists>a t. netstring s a t)" using net by fastforce
    moreover obtain e where "get_len (view s x sz) = Some (Inl e, view s x sz)"
      using hdr G by (auto split: if_splits)
    then have "get_str (view s x sz) = Some (Inl SPOCP_MISSING_CHAR, view s x sz)"
      using big [OF ne len] by (simp add: get_str_def Let_def)
    ultimately show ?thesis by auto
  next
    case len
    have lv: "len_value (Inr n) > length r'"
      using len(3) nr rlen by (auto simp: len_value_Inr size_of_int_neg len(2))
    have "\<not> (\<exists>a t. netstring s a t)" using len net by (fastforce simp: len(2))
    moreover have "get_str (view s x sz) = Some (Inl SPOCP_MISSING_CHAR, view r x sz)"
      using len(1,2) lv rlen by (simp add: get_str_def G Let_def)
    ultimately show ?thesis by auto
  qed
qed

lemma netstring_unique:
  assumes "netstring s a r" and "netstring s a' r'"
  shows "a = a' \<and> r = r'"
proof -
  obtain d where d: "s = d @ CHR '':'' # a @ r" "\<forall>c\<in>set d. DIGIT c" "wrap_value d = int (length a)"
    using assms(1) unfolding netstring_def by blast
  obtain d' where d': "s = d' @ CHR '':'' # a' @ r'" "\<forall>c\<in>set d'. DIGIT c" "wrap_value d' = int (length a')"
    using assms(2) unfolding netstring_def by blast
  have "d = takeWhile DIGIT s" unfolding d(1) by (subst takeWhile_digits_append) (use d(2) in auto)
  moreover have "d' = takeWhile DIGIT s" unfolding d'(1) by (subst takeWhile_digits_append) (use d'(2) in auto)
  ultimately have "d = d'" by simp
  then have "length a = length a'" "d @ CHR '':'' # a @ r = d @ CHR '':'' # a' @ r'"
    using d(1,3) d'(1,3) by auto
  then show ?thesis by simp
qed

lemma get_str_netstring:
  assumes "netstring s a r" and "length s < 2 ^ 31"
  shows "get_str (view s x sz) = Some (Inr (view a (r @ x) 0), view r x sz)"
proof -
  have "s \<noteq> []" using assms(1) by (auto simp: netstring_def)
  have "\<exists>a r. netstring s a r" using assms(1) by blast
  with get_str_view [OF assms(2) \<open>s \<noteq> []\<close>, of x sz]
  have "\<exists>a r. netstring s a r \<and> get_str (view s x sz) = Some (Inr (view a (r @ x) 0), view r x sz)"
    by (simp only: if_True)
  then obtain a' r' where "netstring s a' r'" "get_str (view s x sz) = Some (Inr (view a' (r' @ x) 0), view r' x sz)"
    by blast
  with netstring_unique [OF assms(1)] show ?thesis by blast
qed

text \<open>A string as the library writes it.\<close>

definition netstr :: "bytes \<Rightarrow> bytes" where
  "netstr a = decimal (length a) @ CHR '':'' # a"

lemma netstring_netstr [simp]:
  assumes "a \<noteq> []" and "length a < 2 ^ 31"
  shows "netstring (netstr a @ r) a r"
  unfolding netstring_def netstr_def
  by (intro exI [of _ "decimal (length a)"]) (use assms in \<open>auto simp: wrap_value_def dest: decimal_DIGIT\<close>)

lemma get_str_netstr:
  assumes "a \<noteq> []" and "length (netstr a @ r) < 2 ^ 31"
  shows "get_str (view (netstr a @ r) x sz) = Some (Inr (view a (r @ x) 0), view r x sz)"
  using assms by (intro get_str_netstring netstring_netstr) (auto simp: netstr_def)

text \<open>\<open>get_str\<close> on a non-empty octet string reads exactly the length-prefixed string at its start,
  when there is one, and leaves the octet string at the byte behind it; otherwise it fails.
  Every failure is reported as SPOCP_MISSING_CHAR, a malformed length too.\<close>

theorem get_str_reads:
  assumes "wf_octet so" and "content so \<noteq> []"
  shows "\<exists>res so'. get_str so = Some (res, so') \<and>
    (case res of
       Inr ro \<Rightarrow> netstring (content so) (content ro) (content so') \<and> wf_octet ro \<and> wf_octet so'
     | Inl e \<Rightarrow> e = SPOCP_MISSING_CHAR \<and> (\<nexists>a r. netstring (content so) a r))"
proof -
  obtain s x sz where so: "so = view s x sz" "length s < 2 ^ 31" using assms(1) by (rule wf_octetE)
  have ne: "s \<noteq> []" using assms(2) so by simp
  have len: "netstring s a r \<Longrightarrow> length a < 2 ^ 31 \<and> length r < 2 ^ 31" for a r
    using so(2) by (auto simp: netstring_def)
  show ?thesis
    using get_str_view [OF so(2) ne, of x sz] len unfolding so(1)
    by (auto split: if_splits)
qed

theorem get_str_reads_witness:
  "\<exists>res so'. get_str (mk_octet ''3:abc)'') = Some (res, so') \<and>
    (case res of Inr ro \<Rightarrow> netstring ''3:abc)'' (content ro) (content so') | Inl e \<Rightarrow> False)"
proof -
  have "netstr ''abc'' = ''3:abc''" by code_simp
  then have "netstring ''3:abc)'' ''abc'' '')''"
    using netstring_netstr [of "''abc''" "'')''"] by simp
  moreover have "content (mk_octet ''3:abc)'') \<noteq> []" "wf_octet (mk_octet ''3:abc)'')"
    by (simp_all add: wf_mk_octet)
  from get_str_reads [OF this(2,1)] obtain res so' where r: "get_str (mk_octet ''3:abc)'') = Some (res, so')"
    "case res of Inr ro \<Rightarrow> netstring (content (mk_octet ''3:abc)'')) (content ro) (content so') \<and> wf_octet ro \<and> wf_octet so'
     | Inl e \<Rightarrow> e = SPOCP_MISSING_CHAR \<and> (\<nexists>a r. netstring (content (mk_octet ''3:abc)'')) a r)" by blast
  ultimately show ?thesis by (cases res) auto
qed

subsection \<open>The length of an S-expression\<close>

lemma get_len_Inr_shorter: "get_len op = Some (r, op') \<Longrightarrow> oct_len op \<noteq> 0 \<Longrightarrow> 0 < oct_len op' \<and> oct_len op' \<le> oct_len op"
proof -
  assume g: "get_len op = Some (r, op')" and "oct_len op \<noteq> 0"
  have "digit_loop b k sp n l = Some (n', l', sp') \<Longrightarrow> l' \<le> l + k" for b k sp n l n' l' sp'
    by (induction b k sp n l rule: digit_loop.induct) (auto split: if_splits)
  from this [of 31 "oct_len op" "oct_val op" 0 0] g \<open>oct_len op \<noteq> 0\<close> show ?thesis
    by (auto simp: get_len_def bind_eq_Some_conv le_neq_implies_less split: if_splits)
qed

lemma digit_loop_le: "digit_loop b k sp n l = Some (n', l', sp') \<Longrightarrow> length sp' \<le> length sp"
  by (induction b k sp n l rule: digit_loop.induct) (auto split: if_splits)

lemma get_str_val_shorter:
  assumes "get_str so = Some (Inr ro, so')"
  shows "length (oct_val so') < length (oct_val so)"
proof -
  obtain r so1 where 1: "get_len so = Some (r, so1)" using assms by (auto simp: get_str_def bind_eq_Some_conv)
  have "length (oct_val so1) \<le> length (oct_val so)"
    using 1 digit_loop_le by (fastforce simp: get_len_def bind_eq_Some_conv split: if_splits)
  moreover have "length (oct_val so') < length (oct_val so1)"
    using assms 1 by (auto simp: get_str_def Let_def bind_eq_Some_conv adv_eq_Some_iff split: if_splits)
  ultimately show ?thesis by simp
qed

lemma get_str_shorter:
  assumes g: "get_str so = Some (Inr ro, so')" and ne: "oct_len so \<noteq> 0"
  shows "oct_len so' < oct_len so"
proof -
  obtain r so1 where 1: "get_len so = Some (r, so1)" using g by (auto simp: get_str_def bind_eq_Some_conv)
  then have len: "0 < oct_len so1" "oct_len so1 \<le> oct_len so" using ne by (auto dest: get_len_Inr_shorter)
  define m where "m = szsub (oct_len so1) 1"
  have m: "m < 2 ^ 64" "m < oct_len so1"
  proof -
    have "oct_len so1 + 2 ^ 64 - 1 = oct_len so1 - 1 + 2 ^ 64" using len by simp
    then have "m = (oct_len so1 - 1) mod 2 ^ 64" unfolding m_def szsub_def by (simp only: mod_add_self2)
    moreover have "(oct_len so1 - 1) mod 2 ^ 64 \<le> oct_len so1 - 1" by (rule mod_less_eq_dividend)
    ultimately show "m < 2 ^ 64" "m < oct_len so1" using len by auto
  qed
  have "\<not> m < len_value r" "len_value r \<noteq> 0" "oct_len so' = szsub m (len_value r)"
    using g 1 by (auto simp: get_str_def Let_def m_def bind_eq_Some_conv split: if_splits)
  then have "oct_len so' < m" using m(1) by simp
  then show ?thesis using m(2) len(2) by simp
qed

lemma get_str_error: "get_str so = Some (Inl e, so') \<Longrightarrow> e = SPOCP_SYNTAXERROR \<or> e = SPOCP_MISSING_CHAR"
  by (auto simp: get_str_def Let_def bind_eq_Some_conv split: if_splits)

text \<open>The loop of \<open>sexp_len\<close>, from the octet string \<open>oct\<close> and the depth on. It ends with a result
  code, or with the length that is left and the depth. The last alternative, any other result of
  \<open>get_str\<close>, would go round the loop again.\<close>

function sexp_len_loop :: "octet \<Rightarrow> int \<Rightarrow> (int + nat \<times> int) option" where
  "sexp_len_loop oct depth =
     (if oct_len oct = 0 then Some (Inr (0, depth))
      else case rd (oct_val oct) 0 of
        None \<Rightarrow> None
      | Some c \<Rightarrow>
          if c = CHR ''('' then
            sexp_len_loop (oct\<lparr>oct_len := oct_len oct - 1, oct_val := drop 1 (oct_val oct)\<rparr>) (i32 (depth + 1))
          else if c = CHR '')'' then
            (let d = i32 (depth - 1) in
             if d < 0 then Some (Inr (oct_len oct - 1, d))
             else sexp_len_loop (oct\<lparr>oct_len := oct_len oct - 1, oct_val := drop 1 (oct_val oct)\<rparr>) d)
          else
            (case get_str oct of
               None \<Rightarrow> None
             | Some (Inl r, oct') \<Rightarrow>
                 if r = SPOCP_SYNTAXERROR then Some (Inl (- 1))
                 else if r = SPOCP_MISSING_CHAR then Some (Inl 0)
                 else sexp_len_loop oct' depth
             | Some (Inr str, oct') \<Rightarrow> sexp_len_loop oct' depth))"
  by pat_completeness auto
termination
  by (relation "measure (\<lambda>(oct, depth). oct_len oct)") (auto dest: get_str_error get_str_shorter)

declare sexp_len_loop.simps [simp del]

definition sexp_len :: "octet \<Rightarrow> int option" where
  "sexp_len sexp = do {
     c \<leftarrow> rd (oct_val sexp) 0;
     if c \<noteq> CHR ''('' then Some (- 1)
     else do {
       r \<leftarrow> sexp_len_loop \<lparr>oct_val = drop 1 (oct_val sexp), oct_len = szsub (oct_len sexp) 1, oct_size = 0\<rparr> 0;
       Some (case r of Inl v \<Rightarrow> v
             | Inr (left, depth) \<Rightarrow> if depth \<ge> 0 then 0 else i32 (int (oct_len sexp) - int left)) } }"

text \<open>S-expressions and their canonical form.\<close>

datatype sexp = Atom bytes | List "sexp list"

fun canon :: "sexp \<Rightarrow> bytes" where
  "canon (Atom a) = netstr a"
| "canon (List xs) = CHR ''('' # concat (map canon xs) @ [CHR '')'']"

lemma canon_induct [case_names Atom List Nil Cons]:
  assumes "\<And>a. P (Atom a)" "\<And>xs. Q xs \<Longrightarrow> P (List xs)" "Q []" "\<And>x xs. P x \<Longrightarrow> Q xs \<Longrightarrow> Q (x # xs)"
  shows "P e" "Q xs"
proof -
  have P: "P e" for e
  proof (induction e)
    case (List ys)
    then have "Q ys" by (induction ys) (use assms(3,4) in auto)
    then show ?case by (rule assms(2))
  qed (rule assms(1))
  then show "P e" .
  show "Q xs" by (induction xs) (use assms(3,4) P in auto)
qed

fun sexp_ok :: "sexp \<Rightarrow> bool" where
  "sexp_ok (Atom a) \<longleftrightarrow> a \<noteq> []"
| "sexp_ok (List xs) \<longleftrightarrow> (\<forall>x\<in>set xs. sexp_ok x)"

lemma sexp_len_loop_Nil [simp]: "sexp_len_loop (view [] x sz) d = Some (Inr (0, d))"
  by (simp add: sexp_len_loop.simps)

lemma sexp_len_loop_open [simp]:
  "sexp_len_loop (view (CHR ''('' # s) x sz) d = sexp_len_loop (view s x sz) (i32 (d + 1))"
  by (subst sexp_len_loop.simps) (simp add: view_def)

lemma sexp_len_loop_close:
  "sexp_len_loop (view (CHR '')'' # s) x sz) d =
    (if i32 (d - 1) < 0 then Some (Inr (length s, i32 (d - 1))) else sexp_len_loop (view s x sz) (i32 (d - 1)))"
  by (subst sexp_len_loop.simps) (simp add: view_def Let_def)

text \<open>\<open>bal k s r\<close>: read from a place inside \<open>k\<close> further open lists, \<open>s\<close> closes all of them and the
  outermost list too, and \<open>r\<close> is left.\<close>

inductive bal :: "nat \<Rightarrow> bytes \<Rightarrow> bytes \<Rightarrow> bool" where
  bal_end: "bal 0 (CHR '')'' # r) r"
| bal_close: "bal k s r \<Longrightarrow> bal (Suc k) (CHR '')'' # s) r"
| bal_open: "bal (Suc k) s r \<Longrightarrow> bal k (CHR ''('' # s) r"
| bal_atom: "netstring s a t \<Longrightarrow> bal k t r \<Longrightarrow> bal k s r"

lemma netstring_hd: "netstring s a t \<Longrightarrow> \<exists>c r. s = c # r \<and> DIGIT c"
proof -
  assume "netstring s a t"
  then obtain d where d: "s = d @ CHR '':'' # a @ t" "\<forall>c\<in>set d. DIGIT c" "a \<noteq> []" "wrap_value d = int (length a)"
    by (auto simp: netstring_def)
  then have "d \<noteq> []" by (auto simp: wrap_value_def i32_def)
  with d show ?thesis by (cases d) auto
qed

lemma netstring_no_paren [simp]: "\<not> netstring (CHR ''('' # s) a t" "\<not> netstring (CHR '')'' # s) a t" "\<not> netstring [] a t"
  using netstring_hd by fastforce+

lemma netstring_shorter: "netstring s a t \<Longrightarrow> length t < length s"
  by (auto simp: netstring_def)

lemma netstring_extend: "netstring s a t \<Longrightarrow> netstring (s @ z) a (t @ z)"
  by (auto simp: netstring_def)

inductive_cases bal_NilE: "bal k [] r"
inductive_cases bal_closeE: "bal k (CHR '')'' # s) r"
inductive_cases bal_openE: "bal k (CHR ''('' # s) r"

lemma bal_Nil [simp]: "\<not> bal k [] r"
  by (auto elim: bal_NilE)

lemma bal_close_iff [simp]: "bal k (CHR '')'' # s) r \<longleftrightarrow> (case k of 0 \<Rightarrow> r = s | Suc k \<Rightarrow> bal k s r)"
  by (auto elim!: bal_closeE intro: bal_end bal_close split: nat.splits)

lemma bal_open_iff [simp]: "bal k (CHR ''('' # s) r \<longleftrightarrow> bal (Suc k) s r"
  by (auto elim!: bal_openE intro: bal_open)

lemma bal_atom_iff:
  assumes "netstring s a t"
  shows "bal k s r \<longleftrightarrow> bal k t r"
proof
  assume "bal k s r"
  then show "bal k t r" using assms
    by (cases rule: bal.cases) (auto dest: netstring_unique)
qed (rule bal_atom [OF assms])

lemma bal_other:
  assumes "c \<noteq> CHR ''(''" "c \<noteq> CHR '')''" "\<nexists>a t. netstring (c # s) a t"
  shows "\<not> bal k (c # s) r"
proof
  assume "bal k (c # s) r"
  then show False using assms by (cases rule: bal.cases) auto
qed

lemma bal_det: "bal k s r \<Longrightarrow> bal k s r' \<Longrightarrow> r = r'"
  by (induction rule: bal.induct) (auto simp: bal_atom_iff)

lemma bal_extend: "bal k s r \<Longrightarrow> bal k (s @ z) (r @ z)"
proof (induction rule: bal.induct)
  case (bal_atom s a t k r)
  then show ?case using netstring_extend bal.bal_atom by blast
qed simp_all

lemma i32_id: "- (2 ^ 31) \<le> x \<Longrightarrow> x < 2 ^ 31 \<Longrightarrow> i32 x = x"
  by (simp add: i32_def signed_take_bit_int_eq_self)

lemma sexp_len_loop_bal:
  assumes "k + length s < 2 ^ 31"
  shows "(\<exists>r. bal k s r \<and> sexp_len_loop (view s x sz) (int k) = Some (Inr (length r, - 1))) \<or>
    (\<nexists>r. bal k s r) \<and> (sexp_len_loop (view s x sz) (int k) = Some (Inl 0) \<or>
      (\<exists>d\<ge>0. sexp_len_loop (view s x sz) (int k) = Some (Inr (0, d))))"
  using assms
proof (induction "length s" arbitrary: s k rule: less_induct)
  case less
  show ?case
  proof (cases s)
    case (Cons c t)
    consider "c = CHR ''(''" | "c = CHR '')''" | a u where "netstring s a u"
      | "c \<noteq> CHR ''(''" "c \<noteq> CHR '')''" "\<nexists>a u. netstring s a u" by blast
    then show ?thesis
    proof cases
      case 1
      have "i32 (int k + 1) = int (Suc k)" using less.prems by (subst i32_id) (auto simp: Cons)
      then have "sexp_len_loop (view s x sz) (int k) = sexp_len_loop (view t x sz) (int (Suc k))"
        by (simp only: Cons 1 sexp_len_loop_open)
      then show ?thesis using less.hyps [of t "Suc k"] less.prems by (simp add: Cons 1)
    next
      case 2
      show ?thesis
      proof (cases k)
        case 0
        have "i32 (- 1) = - 1" by (subst i32_id) auto
        then show ?thesis by (simp add: Cons 2 0 sexp_len_loop_close)
      next
        case (Suc k')
        have "i32 (int k - 1) = int k'" using less.prems by (subst i32_id) (auto simp: Suc)
        then show ?thesis using less.hyps [of t k'] less.prems
          by (simp add: Cons 2 Suc sexp_len_loop_close)
      qed
    next
      case 3
      have "length s < 2 ^ 31" using less.prems by simp
      then have g: "get_str (view s x sz) = Some (Inr (view a (u @ x) 0), view u x sz)"
        by (rule get_str_netstring [OF 3])
      have "c \<noteq> CHR ''(''" "c \<noteq> CHR '')''" using 3 by (auto simp: Cons)
      then have "sexp_len_loop (view s x sz) (int k) = sexp_len_loop (view u x sz) (int k)"
        using g by (subst sexp_len_loop.simps) (simp add: Cons)
      moreover have "length u < length s" using 3 by (rule netstring_shorter)
      ultimately show ?thesis
        using less.hyps [of u k] less.prems by (simp add: bal_atom_iff [OF 3])
    next
      case 4
      have "length s < 2 ^ 31" "s \<noteq> []" using less.prems by (simp_all add: Cons)
      from get_str_view [OF this, of x sz] 4(3)
      obtain so' where "get_str (view s x sz) = Some (Inl SPOCP_MISSING_CHAR, so')" by auto
      then have "sexp_len_loop (view s x sz) (int k) = Some (Inl 0)"
        using 4(1,2) by (subst sexp_len_loop.simps) (simp add: Cons)
      moreover have "\<nexists>r. bal k s r" using 4 bal_other unfolding Cons by blast
      ultimately show ?thesis by simp
    qed
  qed simp
qed

lemma sexp_len_view:
  assumes "length s < 2 ^ 31" and "s \<noteq> []"
  shows "\<exists>n. sexp_len (view s x sz) = Some n \<and>
    (n = - 1 \<and> hd s \<noteq> CHR ''('' \<or>
     hd s = CHR ''('' \<and> (\<exists>r. bal 0 (tl s) r \<and> n = int (length s) - int (length r)) \<or>
     hd s = CHR ''('' \<and> (\<nexists>r. bal 0 (tl s) r) \<and> n = 0)"
proof -
  obtain c t where s: "s = c # t" using assms(2) by (cases s) auto
  have e: "\<lparr>oct_val = drop 1 (oct_val (view s x sz)), oct_len = szsub (oct_len (view s x sz)) 1, oct_size = 0\<rparr>
      = view t x 0" using assms(1) by (simp add: s view_def)
  have c: "i32 (int (length s) - int (length r)) = int (length s) - int (length r)"
    if "bal 0 t r" for r :: bytes
  proof -
    have "bal k u v \<Longrightarrow> length v < length u" for k u v
      by (induction rule: bal.induct) (auto dest: netstring_shorter)
    from this [OF that] show ?thesis using assms(1) by (subst i32_id) (auto simp: s)
  qed
  show ?thesis
  proof (cases "c = CHR ''(''")
    case True
    have "0 + length t < 2 ^ 31" using assms(1) by (simp add: s)
    from sexp_len_loop_bal [OF this, of x 0] show ?thesis
      unfolding sexp_len_def e using True c
      by (auto simp: s split: if_splits)
  qed (simp add: sexp_len_def s)
qed

text \<open>On every non-empty octet string \<open>sexp_len\<close> returns. It returns \<open>- 1\<close> exactly when the first
  byte is no opening parenthesis; otherwise the length of the list at the start of
  the input when it is complete, and 0 in all other cases, also when the input can never
  become an S-expression.\<close>

theorem sexp_len_spec:
  assumes "wf_octet o1" and "content o1 \<noteq> []"
  shows "\<exists>n. sexp_len o1 = Some n \<and>
    (n = - 1 \<and> hd (content o1) \<noteq> CHR ''('' \<or>
     hd (content o1) = CHR ''('' \<and>
       (\<exists>r. bal 0 (tl (content o1)) r \<and> n = int (oct_len o1) - int (length r)) \<or>
     hd (content o1) = CHR ''('' \<and> (\<nexists>r. bal 0 (tl (content o1)) r) \<and> n = 0)"
proof -
  obtain s x sz where o1: "o1 = view s x sz" "length s < 2 ^ 31" using assms(1) by (rule wf_octetE)
  then show ?thesis using sexp_len_view [of s x sz] assms(2) by simp
qed

theorem sexp_len_spec_witness:
  "\<exists>n. sexp_len (mk_octet ''x'') = Some n \<and> n = - 1"
  using sexp_len_spec [of "mk_octet ''x''"] by (simp add: wf_mk_octet)

subsection \<open>Canonical S-expressions\<close>

lemma bal_canon:
  "sexp_ok e \<Longrightarrow> length (canon e) < 2 ^ 31 \<Longrightarrow> bal k (canon e @ s) r \<longleftrightarrow> bal k s r"
  "(\<forall>x\<in>set xs. sexp_ok x) \<Longrightarrow> length (concat (map canon xs)) < 2 ^ 31 \<Longrightarrow>
     bal k (concat (map canon xs) @ s) r \<longleftrightarrow> bal k s r"
proof (induction e and xs arbitrary: k s and k s rule: canon_induct)
  case (Atom a)
  then show ?case using bal_atom_iff [OF netstring_netstr [of a s], of k r] by (simp add: netstr_def)
qed simp_all

text \<open>\<open>sexp_len\<close> finds the end of a canonical S-expression whatever follows it, and asks for more
  (returns 0) on every proper prefix of it.\<close>

theorem sexp_len_canonical:
  assumes "sexp_ok (List xs)" and "length (canon (List xs) @ r) < 2 ^ 31"
  shows "sexp_len (view (canon (List xs) @ r) x sz) = Some (int (length (canon (List xs)))) \<and>
    (\<forall>p. p \<noteq> [] \<and> strict_prefix p (canon (List xs)) \<longrightarrow> sexp_len (view p x sz) = Some 0)"
proof (intro conjI allI impI)
  define b where "b = concat (map canon xs) @ [CHR '')'']"
  have canon: "canon (List xs) = CHR ''('' # b" by (simp add: b_def)
  have len: "length (canon (List xs)) < 2 ^ 31" using assms(2) by simp
  have whole: "bal 0 (b @ r) r'  \<longleftrightarrow> r' = r" for r r'
    using bal_canon(2) [of xs 0 "CHR '')'' # r" r'] assms len by (auto simp: b_def)
  show "sexp_len (view (canon (List xs) @ r) x sz) = Some (int (length (canon (List xs))))"
    using sexp_len_view [of "canon (List xs) @ r" x sz] assms(2) unfolding canon by (simp add: whole)
  fix p
  assume p: "p \<noteq> [] \<and> strict_prefix p (canon (List xs))"
  then obtain q z where q: "p = CHR ''('' # q" "b = q @ z" "z \<noteq> []"
    unfolding canon by (cases p) (auto elim!: strict_prefixE')
  have "\<nexists>r. bal 0 q r"
  proof
    assume "\<exists>r. bal 0 q r"
    then obtain r where "bal 0 q r" ..
    then have "bal 0 (b @ []) (r @ z)" using bal_extend [of 0 q r z] q(2) by simp
    then show False using whole [of "[]"] q(3) by simp
  qed
  moreover have "length p < 2 ^ 31" using p len prefix_length_less by fastforce
  ultimately show "sexp_len (view p x sz) = Some 0"
    using sexp_len_view [of p x sz] p by (auto simp: q(1))
qed

theorem sexp_len_canonical_witness:
  "sexp_len (view (''(3:abc)'' @ ''xyz'') [] 0) = Some 7 \<and> sexp_len (view ''(3:ab'' [] 0) = Some 0"
proof -
  have c: "canon (List [Atom ''abc'']) = ''(3:abc)''" by code_simp
  have "sexp_ok (List [Atom ''abc''])" "length (canon (List [Atom ''abc'']) @ ''xyz'') < 2 ^ 31"
    unfolding c by simp_all
  from sexp_len_canonical [OF this, of "[]" 0] have *:
    "sexp_len (view (''(3:abc)'' @ ''xyz'') [] 0) = Some (int (length ''(3:abc)''))"
    "\<forall>p. p \<noteq> [] \<and> strict_prefix p ''(3:abc)'' \<longrightarrow> sexp_len (view p [] 0) = Some 0"
    unfolding c by blast+
  moreover have "strict_prefix ''(3:ab'' ''(3:abc)''" by (simp add: strict_prefix_def)
  ultimately show ?thesis by simp
qed

subsection \<open>Formatted output\<close>

text \<open>
  The arguments of \<open>sexp_printv\<close> and \<open>sexp_printa\<close>, by the type the format character expects.
  An array ends at its null pointer, so it is a list; a C string is given without its NUL.

  The output is written to the memory \<^verbatim>\<open>sexp\<close> of \<open>cap\<close> bytes. The state of the loops is the bytes
  written so far (the \<^verbatim>\<open>sp - sexp\<close> first bytes of the memory) and \<^verbatim>\<open>bsize\<close>. A step returns \<open>None\<close>
  for undefined behaviour (a write behind the memory, an argument of another type) and
  \<open>Some None\<close> where the code returns the null pointer.
\<close>

datatype parg = ArgO "octet option" | ArgOA "octet list option" | ArgX "octarr option"
  | ArgS "bytes option" | ArgSA "bytes list option"

type_synonym pstate = "bytes \<times> nat"

definition nbind :: "'a option option \<Rightarrow> ('a \<Rightarrow> 'b option option) \<Rightarrow> 'b option option" where
  "nbind x f = (case x of None \<Rightarrow> None | Some None \<Rightarrow> Some None | Some (Some a) \<Rightarrow> f a)"

fun nfold :: "('x \<Rightarrow> 's \<Rightarrow> 's option option) \<Rightarrow> 'x list \<Rightarrow> 's \<Rightarrow> 's option option" where
  "nfold f [] st = Some (Some st)"
| "nfold f (x # xs) st = nbind (f x st) (nfold f xs)"

text \<open>\<^verbatim>\<open>n = snprintf(sp, bsize, ...)\<close> with the test that follows it. When the text just fits, its last
  byte is overwritten by the terminating NUL and yet counted.\<close>

definition put_fmt :: "nat \<Rightarrow> bytes \<Rightarrow> pstate \<Rightarrow> pstate option option" where
  "put_fmt cap t st = (case st of (out, bsize) \<Rightarrow>
     if length out + min (length t + 1) bsize > cap then None
     else if length t > bsize then Some None
     else Some (Some (out @ (if length t = bsize \<and> t \<noteq> [] then butlast t @ [NUL] else t), bsize - length t)))"

text \<open>The test of the length and the \<^verbatim>\<open>memcpy\<close> of an octet string.\<close>

definition put_mem :: "nat \<Rightarrow> octet \<Rightarrow> pstate \<Rightarrow> pstate option option" where
  "put_mem cap oc st = (case st of (out, bsize) \<Rightarrow>
     if oct_len oc > bsize then Some None
     else case rdn (oct_val oc) (oct_len oc) of
       None \<Rightarrow> None
     | Some t \<Rightarrow> if length out + length t > cap then None else Some (Some (out @ t, bsize - length t)))"

definition put_char :: "nat \<Rightarrow> char \<Rightarrow> pstate \<Rightarrow> pstate option option" where
  "put_char cap c st = (case st of (out, bsize) \<Rightarrow>
     if length out + 1 > cap then None else Some (Some (out @ [c], bsize - 1)))"

definition put_oct :: "nat \<Rightarrow> bytes \<Rightarrow> octet \<Rightarrow> pstate \<Rightarrow> pstate option option" where
  "put_oct cap sep oc st =
     (if oct_len oc = 0 then Some (Some st)
      else nbind (put_fmt cap (decimal (oct_len oc) @ sep) st) (put_mem cap oc))"

definition put_raw :: "nat \<Rightarrow> octet \<Rightarrow> pstate \<Rightarrow> pstate option option" where
  "put_raw cap oc st = (if oct_len oc = 0 then Some (Some st) else put_mem cap oc st)"

text \<open>One round of the loop of \<open>sexp_printv\<close>, for the format character \<open>f\<close>: the action for an argument,
  and the choice of the argument among those not yet used.\<close>

definition opt_arg :: "'a option \<Rightarrow> ('a \<Rightarrow> pstate \<Rightarrow> pstate option option) \<Rightarrow> pstate \<Rightarrow> pstate option option" where
  "opt_arg x act = (case x of None \<Rightarrow> \<lambda>st. Some (Some st) | Some v \<Rightarrow> act v)"

definition put_str :: "nat \<Rightarrow> bytes \<Rightarrow> bytes \<Rightarrow> pstate \<Rightarrow> pstate option option" where
  "put_str cap t text = (if t = [] then (\<lambda>st. Some (Some st)) else put_fmt cap text)"

definition printv_arg :: "nat \<Rightarrow> char \<Rightarrow> parg \<Rightarrow> pstate \<Rightarrow> pstate option option" where
  "printv_arg cap f a = (case a of
      ArgO oc \<Rightarrow> if f = CHR ''o'' then opt_arg oc (put_oct cap '':'')
        else if f = CHR ''u'' then opt_arg oc (put_mem cap) else (\<lambda>st. None)
    | ArgOA oa \<Rightarrow> if f = CHR ''O'' then opt_arg oa (nfold (put_oct cap '':''))
        else if f = CHR ''U'' then opt_arg oa (nfold (put_raw cap)) else (\<lambda>st. None)
    | ArgX x \<Rightarrow> if f = CHR ''X'' then opt_arg x (\<lambda>oa. nfold (put_oct cap '':'') (oa_arr oa)) else (\<lambda>st. None)
    | ArgS s \<Rightarrow> if f = CHR ''a'' then opt_arg s (\<lambda>t. put_str cap t (netstr t))
        else if f = CHR ''l'' then opt_arg s (\<lambda>t. put_str cap t t) else (\<lambda>st. None)
    | ArgSA s \<Rightarrow> if f = CHR ''A'' then opt_arg s (nfold (\<lambda>t. put_fmt cap (netstr t)))
        else if f = CHR ''L'' then opt_arg s (nfold (put_fmt cap)) else (\<lambda>st. None))"

definition printv_step :: "nat \<Rightarrow> char \<Rightarrow> parg list \<Rightarrow> pstate \<Rightarrow> (parg list \<times> pstate) option option" where
  "printv_step cap f args st =
     (if f = CHR ''('' \<or> f = CHR '')'' then nbind (put_char cap f st) (\<lambda>st. Some (Some (args, st)))
      else if f \<in> set ''oOaAlLuUX'' then
        (case args of [] \<Rightarrow> None
         | a # rest \<Rightarrow> nbind (printv_arg cap f a st) (\<lambda>st. Some (Some (rest, st))))
      else Some (Some (args, st)))"

fun printv_loop :: "nat \<Rightarrow> bytes \<Rightarrow> parg list \<Rightarrow> pstate \<Rightarrow> pstate option option" where
  "printv_loop cap [] args st = Some (Some st)"
| "printv_loop cap (f # fmt) args st =
     (if snd st = 0 then Some (Some st)
      else nbind (printv_step cap f args st) (\<lambda>(rest, st'). printv_loop cap fmt rest st'))"

definition sexp_printv :: "nat \<Rightarrow> bytes option \<Rightarrow> parg list \<Rightarrow> pstate option option" where
  "sexp_printv sz fmt args = (case fmt of None \<Rightarrow> Some None
     | Some fmt \<Rightarrow> printv_loop sz fmt args ([], sz))"

text \<open>\<open>sexp_printa\<close> takes its arguments from an array, keeps two bytes back, returns null for most
  null arguments, and writes a letter z into the length prefixes of \<open>O\<close>.\<close>

definition printa_step :: "nat \<Rightarrow> char \<Rightarrow> parg list \<Rightarrow> pstate \<Rightarrow> (parg list \<times> pstate) option option" where
  "printa_step cap f args st =
     (case args of
        ArgOA None # rest \<Rightarrow> if f \<in> set ''OU'' then Some None else printv_step cap f args st
      | ArgX None # rest \<Rightarrow> if f = CHR ''X'' then Some None else printv_step cap f args st
      | ArgSA None # rest \<Rightarrow> if f \<in> set ''AL'' then Some None else printv_step cap f args st
      | ArgO None # rest \<Rightarrow> if f = CHR ''u'' then Some None else printv_step cap f args st
      | ArgOA (Some os) # rest \<Rightarrow>
          if f = CHR ''O'' then nbind (nfold (put_oct cap ''z:'') os st) (\<lambda>st. Some (Some (rest, st)))
          else printv_step cap f args st
      | _ \<Rightarrow> printv_step cap f args st)"

fun printa_loop :: "nat \<Rightarrow> bytes \<Rightarrow> parg list \<Rightarrow> pstate \<Rightarrow> pstate option option" where
  "printa_loop cap [] args st = Some (Some st)"
| "printa_loop cap (f # fmt) args st =
     (if snd st = 0 then Some (Some st)
      else nbind (printa_step cap f args st) (\<lambda>(rest, st'). printa_loop cap fmt rest st'))"

definition sexp_printa :: "nat \<Rightarrow> bytes option \<Rightarrow> parg list \<Rightarrow> pstate option option" where
  "sexp_printa sz fmt args = (case fmt of None \<Rightarrow> Some None
     | Some fmt \<Rightarrow> if fmt = [] then Some None
        else printa_loop sz fmt args ([], (sz + 2 ^ 32 - 2) mod 2 ^ 32))"

text \<open>What the format asks for. \<open>printed\<close> is \<open>None\<close> when the arguments do not have the types of the format.\<close>

definition oct_text :: "octet \<Rightarrow> bytes" where
  "oct_text oc = (if oct_len oc = 0 then [] else netstr (content oc))"

definition arg_text :: "char \<Rightarrow> parg \<Rightarrow> bytes option" where
  "arg_text f a = (case a of
      ArgO oc \<Rightarrow> if f = CHR ''o'' then Some (case oc of None \<Rightarrow> [] | Some oc \<Rightarrow> oct_text oc)
        else if f = CHR ''u'' then Some (case oc of None \<Rightarrow> [] | Some oc \<Rightarrow> content oc) else None
    | ArgOA oa \<Rightarrow> if f = CHR ''O'' then Some (case oa of None \<Rightarrow> [] | Some os \<Rightarrow> concat (map oct_text os))
        else if f = CHR ''U'' then Some (case oa of None \<Rightarrow> [] | Some os \<Rightarrow> concat (map content os)) else None
    | ArgX x \<Rightarrow> if f = CHR ''X'' then Some (case x of None \<Rightarrow> [] | Some oa \<Rightarrow> concat (map oct_text (oa_arr oa))) else None
    | ArgS s \<Rightarrow> if f = CHR ''a'' then Some (case s of None \<Rightarrow> [] | Some t \<Rightarrow> if t = [] then [] else netstr t)
        else if f = CHR ''l'' then Some (case s of None \<Rightarrow> [] | Some t \<Rightarrow> t) else None
    | ArgSA s \<Rightarrow> if f = CHR ''A'' then Some (case s of None \<Rightarrow> [] | Some ts \<Rightarrow> concat (map netstr ts))
        else if f = CHR ''L'' then Some (case s of None \<Rightarrow> [] | Some ts \<Rightarrow> concat ts) else None)"

fun printed :: "bytes \<Rightarrow> parg list \<Rightarrow> bytes option" where
  "printed [] args = Some []"
| "printed (f # fmt) args =
     (if f = CHR ''('' \<or> f = CHR '')'' then map_option (\<lambda>t. f # t) (printed fmt args)
      else if f \<in> set ''oOaAlLuUX'' then
        (case args of [] \<Rightarrow> None
         | a # rest \<Rightarrow> do { t \<leftarrow> arg_text f a; u \<leftarrow> printed fmt rest; Some (t @ u) })
      else printed fmt args)"

fun parg_ok :: "parg \<Rightarrow> bool" where
  "parg_ok (ArgO oc) \<longleftrightarrow> (\<forall>x. oc = Some x \<longrightarrow> wf_octet x)"
| "parg_ok (ArgOA oa) \<longleftrightarrow> (\<forall>os. oa = Some os \<longrightarrow> (\<forall>x\<in>set os. wf_octet x))"
| "parg_ok (ArgX x) \<longleftrightarrow> (\<forall>oa. x = Some oa \<longrightarrow> (\<forall>x\<in>set (oa_arr oa). wf_octet x))"
| "parg_ok _ \<longleftrightarrow> True"

text \<open>\<open>prints cap act t\<close>: \<open>act\<close> stays inside the memory and appends \<open>t\<close> when there is more room than \<open>t\<close>
  needs.\<close>

definition prints :: "nat \<Rightarrow> (pstate \<Rightarrow> pstate option option) \<Rightarrow> bytes \<Rightarrow> bool" where
  "prints cap act t \<longleftrightarrow> (\<forall>out b. length out + b \<le> cap \<longrightarrow>
     act (out, b) = Some None \<and> b \<le> length t \<or>
     (\<exists>out' b'. act (out, b) = Some (Some (out', b')) \<and> length out' + b' = length out + b \<and>
        (length t < b \<longrightarrow> out' = out @ t)))"

lemma printsI:
  assumes "\<And>out b. length out + b \<le> cap \<Longrightarrow>
     act (out, b) = Some None \<and> b \<le> length t \<or>
     (\<exists>out' b'. act (out, b) = Some (Some (out', b')) \<and> length out' + b' = length out + b \<and>
        (length t < b \<longrightarrow> out' = out @ t))"
  shows "prints cap act t"
  unfolding prints_def using assms by blast

lemma printsE:
  assumes "prints cap act t" and "length out + b \<le> cap"
  obtains (null) "act (out, b) = Some None" and "b \<le> length t"
  | (ok) out' b' where "act (out, b) = Some (Some (out', b'))" and "length out' + b' = length out + b"
      and "length t < b \<Longrightarrow> out' = out @ t"
  using assms unfolding prints_def by blast

lemma prints_skip [simp]: "prints cap (\<lambda>st. Some (Some st)) []"
  by (rule printsI) auto

lemma prints_nbind:
  assumes "prints cap f t" and "prints cap g u"
  shows "prints cap (\<lambda>st. nbind (f st) g) (t @ u)"
proof (rule printsI)
  fix out b assume room: "length (out :: bytes) + b \<le> cap"
  from assms(1) room show "nbind (f (out, b)) g = Some None \<and> b \<le> length (t @ u) \<or>
     (\<exists>out' b'. nbind (f (out, b)) g = Some (Some (out', b')) \<and> length out' + b' = length out + b \<and>
        (length (t @ u) < b \<longrightarrow> out' = out @ t @ u))"
  proof (cases rule: printsE)
    case f: (ok out1 b1)
    then have "length out1 + b1 \<le> cap" using room by simp
    with assms(2) show ?thesis
    proof (cases rule: printsE)
      case null
      have "b \<le> length (t @ u)" using null(2) f(2,3) by (cases "length t < b") auto
      then show ?thesis using null f by (simp add: nbind_def)
    qed (use f in \<open>auto simp: nbind_def\<close>)
  qed (simp add: nbind_def)
qed

lemma prints_nfold:
  assumes "\<And>x. x \<in> set xs \<Longrightarrow> prints cap (f x) (g x)"
  shows "prints cap (nfold f xs) (concat (map g xs))"
  using assms
proof (induction xs)
  case (Cons x xs)
  have "prints cap (\<lambda>st. nbind (f x st) (nfold f xs)) (g x @ concat (map g xs))"
    using Cons by (intro prints_nbind) auto
  moreover have "nfold f (x # xs) = (\<lambda>st. nbind (f x st) (nfold f xs))" by (rule ext) simp
  ultimately show ?case by simp
qed (simp add: prints_def)

lemma prints_fmt: "prints cap (put_fmt cap t) t"
  by (rule printsI) (auto simp: put_fmt_def)

lemma prints_mem: "wf_octet oc \<Longrightarrow> prints cap (put_mem cap oc) (content oc)"
  by (rule printsI) (auto simp: put_mem_def wf_octet_def content_def)

lemma prints_oct: "wf_octet oc \<Longrightarrow> prints cap (put_oct cap '':'' oc) (oct_text oc)"
proof -
  assume wf: "wf_octet oc"
  have "prints cap (\<lambda>st. nbind (put_fmt cap (decimal (oct_len oc) @ '':'') st) (put_mem cap oc)) ((decimal (oct_len oc) @ '':'') @ content oc)"
    by (intro prints_nbind prints_fmt prints_mem wf)
  then show ?thesis using wf by (cases "oct_len oc = 0") (simp_all add: put_oct_def [abs_def] oct_text_def netstr_def)
qed

lemma prints_raw: "wf_octet oc \<Longrightarrow> prints cap (put_raw cap oc) (content oc)"
  using prints_mem [of oc cap] by (cases "oct_len oc = 0") (simp_all add: put_raw_def [abs_def] content_def)

lemma prints_opt:
  assumes "\<And>v. x = Some v \<Longrightarrow> prints cap (act v) (g v)"
  shows "prints cap (opt_arg x act) (case x of None \<Rightarrow> [] | Some v \<Rightarrow> g v)"
  using assms by (cases x) (simp_all add: opt_arg_def)

lemma prints_str: "prints cap (put_str cap t u) (if t = [] then [] else u)"
  by (simp add: put_str_def prints_fmt)

lemma prints_str_id: "prints cap (put_str cap t t) t"
  using prints_str [of cap t t] by (simp split: if_splits)

lemmas prints_items = prints_fmt prints_mem prints_oct prints_raw prints_str prints_str_id
  prints_nfold [where g = oct_text] prints_nfold [where g = content] prints_nfold [where g = netstr]
  prints_nfold [where g = "\<lambda>t. t", simplified]

lemma printv_arg_prints:
  assumes "arg_text f a = Some t" and "parg_ok a"
  shows "prints cap (printv_arg cap f a) t"
  using assms by (cases a) (auto simp: arg_text_def printv_arg_def intro!: prints_opt prints_items split: if_splits)

lemma printv_loop_prints:
  assumes "printed fmt args = Some t" and "\<forall>a\<in>set args. parg_ok a"
  shows "prints cap (printv_loop cap fmt args) t"
  using assms
proof (induction fmt arbitrary: args t)
  case (Cons f fmt)
  show ?case
  proof (rule printsI)
    fix out b assume room: "length (out :: bytes) + b \<le> cap"
    define G where "G act t \<longleftrightarrow> act = Some None \<and> b \<le> length t \<or>
     (\<exists>out' b'. act = Some (Some (out', b')) \<and> length out' + b' = length out + b \<and>
        (length t < b \<longrightarrow> out' = out @ t))" for act and t :: bytes
    have G: "prints cap act t \<Longrightarrow> G (act (out, b)) t" for act t
      using room unfolding prints_def G_def by blast
    have "G (printv_loop cap (f # fmt) args (out, b)) t"
    proof (cases "b = 0")
      case True
      then show ?thesis by (simp add: G_def)
    next
      case b: False
      consider (paren) "f = CHR ''('' \<or> f = CHR '')''" | (arg) "f \<in> set ''oOaAlLuUX''"
        | (other) "f \<noteq> CHR ''(''" "f \<noteq> CHR '')''" "f \<notin> set ''oOaAlLuUX''" by blast
      then show ?thesis
      proof cases
        case paren
        then obtain u where u: "printed fmt args = Some u" "t = f # u" using Cons.prems(1) by auto
        have "length (out @ [f]) + (b - 1) \<le> cap" using room b by simp
        with Cons.IH [OF u(1) Cons.prems(2)] show ?thesis
        proof (cases rule: printsE)
          case null
          then show ?thesis using paren b room u(2) by (auto simp: G_def printv_step_def put_char_def nbind_def)
        next
          case (ok out' b')
          then show ?thesis using paren b room u(2) by (auto simp: G_def printv_step_def put_char_def nbind_def)
        qed
      next
        case arg
        then have np: "f \<noteq> CHR ''(''" "f \<noteq> CHR '')''" by auto
        then obtain a rest v u where a: "args = a # rest" "arg_text f a = Some v" "printed fmt rest = Some u" "t = v @ u"
          using Cons.prems(1) arg by (auto simp: bind_eq_Some_conv split: list.splits)
        have "prints cap (\<lambda>st. nbind (printv_arg cap f a st) (printv_loop cap fmt rest)) t"
          unfolding a(4) using Cons.IH [OF a(3)] Cons.prems(2) a(1,2) by (intro prints_nbind printv_arg_prints) auto
        moreover have "printv_loop cap (f # fmt) args (out, b) = nbind (printv_arg cap f a (out, b)) (printv_loop cap fmt rest)"
          using b arg np by (auto simp: a(1) printv_step_def nbind_def split: option.splits)
        ultimately show ?thesis using G by simp
      next
        case other
        then have "printed fmt args = Some t" using Cons.prems(1) by auto
        then show ?thesis using G [OF Cons.IH [OF _ Cons.prems(2)]] other b
          by (simp add: printv_step_def nbind_def)
      qed
    qed
    then show "printv_loop cap (f # fmt) args (out, b) = Some None \<and> b \<le> length t \<or>
     (\<exists>out' b'. printv_loop cap (f # fmt) args (out, b) = Some (Some (out', b')) \<and> length out' + b' = length out + b \<and>
        (length t < b \<longrightarrow> out' = out @ t))" by (simp add: G_def)
  qed
qed (simp add: prints_def)

text \<open>C40: \<open>sexp_printv\<close>, called with arguments of the types its format asks for, never writes outside
  the memory it is given. When the text is shorter than the memory it returns exactly the text
  and the number of bytes left; it returns null only when the text does not fit.\<close>

theorem sexp_printv_prints:
  assumes "printed fmt args = Some t" and "\<forall>a\<in>set args. parg_ok a"
  shows "\<exists>r. sexp_printv sz (Some fmt) args = Some r \<and>
    (case r of None \<Rightarrow> sz \<le> length t
     | Some (out, left) \<Rightarrow> length out + left = sz \<and> (length t < sz \<longrightarrow> out = t))"
  using printv_loop_prints [OF assms, of sz]
  by (cases rule: printsE [of _ _ _ "[]" sz]) (auto simp: sexp_printv_def)

theorem sexp_printv_prints_witness:
  "sexp_printv 20 (Some ''(aa)'') [ArgS (Some ''abc''), ArgS (Some ''x'')] = Some (Some (''(3:abc1:x)'', 10))"
proof -
  have "printed ''(aa)'' [ArgS (Some ''abc''), ArgS (Some ''x'')] = Some ''(3:abc1:x)''" by code_simp
  from sexp_printv_prints [OF this, of 20] show ?thesis by (auto split: option.splits)
qed

end
