(* ===== verification/Iobuf.thy ===== *)
theory Iobuf
  imports Sexp
begin

text \<open>
  The input and output buffers of the server, \<open>server/iobuf.c\<close>. A buffer is a block of
  \<open>io_bsize\<close> bytes with a read position, a write position and a marker; the pointers
  \<^verbatim>\<open>r\<close>, \<^verbatim>\<open>w\<close>, \<^verbatim>\<open>p\<close> and \<^verbatim>\<open>end\<close> of the C structure are offsets into the block. The
  marker \<open>io_p\<close> is an integer because \<open>iobuf_shift\<close> can move it out of the block.
  A null buffer is \<open>None\<close> in the operations that test for it. The mutex and the
  condition variable are not part of the state: every operation below runs under the
  lock, so it is one step. An operation that writes outside its block is \<open>None\<close>, and so is
  one that goes on to use a pointer into a block that \<^verbatim>\<open>Realloc\<close> has released.

  A buffer is a queue of the bytes between its read and its write position
  (\<open>io_content\<close>). The lemmas show that the operations that add do append, or leave the
  buffer as it is when it may not grow, and that they keep the invariant \<open>wf_io\<close>.
\<close>

definition SPOCP_MAXBUF :: nat where
  "SPOCP_MAXBUF = 262144"

definition SPOCP_IOBUFSIZE :: nat where
  "SPOCP_IOBUFSIZE = 4096"

record iobuf =
  io_buf :: bytes
  io_r :: nat
  io_w :: nat
  io_p :: int
  io_end :: nat
  io_bsize :: nat
  io_left :: nat

subsection \<open>Creating and resizing\<close>

definition iobuf_new :: "nat \<Rightarrow> iobuf option" where
  "iobuf_new sz = do {
     buf \<leftarrow> wr (replicate sz NUL) 0 [NUL];
     Some \<lparr>io_buf = buf, io_r = 0, io_w = 0, io_p = 0, io_end = sz, io_bsize = sz,
           io_left = szsub sz 1\<rparr> }"

definition iobuf_resize :: "iobuf option \<Rightarrow> int \<Rightarrow> (spocp_result \<times> iobuf option) option" where
  "iobuf_resize io0 increase = (case io0 of
      None \<Rightarrow> Some (SPOCP_OPERATIONSERROR, None)
    | Some io \<Rightarrow>
        if io_bsize io = SPOCP_MAXBUF then Some (SPOCP_BUF_OVERFLOW, Some io)
        else if increase \<noteq> 0 \<and> SPOCP_MAXBUF < szadd (io_bsize io) (size_of_int increase)
        then Some (SPOCP_BUF_OVERFLOW, Some io)
        else
          (let nr = i32 (int (io_bsize io));
               bs = (if increase \<noteq> 0
                     then if increase < int SPOCP_IOBUFSIZE
                          then szadd (io_bsize io) SPOCP_IOBUFSIZE
                          else szadd (io_bsize io) (size_of_int increase)
                     else if SPOCP_MAXBUF < szadd (io_bsize io) SPOCP_IOBUFSIZE
                          then szadd (io_bsize io) SPOCP_MAXBUF
                          else szadd (io_bsize io) SPOCP_IOBUFSIZE);
               left = szadd (io_left io) (szsub bs (size_of_int nr))
           in do {
             buf \<leftarrow> wr (realloc (io_buf io) bs) (bs - 1) [NUL];
             Some (SPOCP_SUCCESS,
                   Some (io\<lparr>io_buf := buf, io_end := bs - 1, io_bsize := bs, io_left := left\<rparr>)) }))"

subsection \<open>Inserting in the middle\<close>

text \<open>\<open>where\<close> points into the block, so it dangles once the block has been resized.\<close>

definition iobuf_insert :: "iobuf \<Rightarrow> int \<Rightarrow> bytes \<Rightarrow> nat \<Rightarrow> (spocp_result \<times> iobuf) option" where
  "iobuf_insert io whr src srclen =
     (if io_left io < srclen then
        (case iobuf_resize (Some io) (int srclen) of
           None \<Rightarrow> None
         | Some (rc, io') \<Rightarrow> if rc \<noteq> SPOCP_SUCCESS then Some (rc, io) else None)
      else if whr < 0 \<or> int (io_w io) < whr then None
      else do {
        let dlen = io_w io - nat whr;
        d \<leftarrow> rdn (drop (nat whr) (io_buf io)) dlen;
        b \<leftarrow> wr (io_buf io) (nat whr + srclen) d;
        s \<leftarrow> rdn src srclen;
        b' \<leftarrow> wr b (nat whr) s;
        Some (SPOCP_SUCCESS, io\<lparr>io_buf := b', io_w := io_w io + srclen, io_left := io_left io - srclen\<rparr>) })"

definition iobuf_add_len_tag :: "iobuf option \<Rightarrow> (spocp_result \<times> iobuf option) option" where
  "iobuf_add_len_tag io0 = (case io0 of
      None \<Rightarrow> Some (SPOCP_SUCCESS, None)
    | Some io \<Rightarrow>
        (let len = nat ((int (io_w io) - io_p io) mod 2 ^ 32);
             ldef = decimal len @ '':''
         in do {
           (sr, io') \<leftarrow> iobuf_insert io (io_p io) ldef (length ldef);
           Some (sr, Some (if sr = SPOCP_SUCCESS then io'\<lparr>io_p := int (io_w io')\<rparr> else io')) }))"

subsection \<open>Dropping white space and what has been read\<close>

function shift_skip :: "bytes \<Rightarrow> nat \<Rightarrow> nat \<Rightarrow> nat option" where
  "shift_skip buf w r =
     (if r \<le> w then do {
        c \<leftarrow> rd buf r;
        if WHITESPACE c then shift_skip buf w (Suc r) else Some r }
      else Some r)"
  by pat_completeness auto
termination
  by (relation "measure (\<lambda>(buf, w, r). Suc w - r)") auto

declare shift_skip.simps [simp del]

definition iobuf_flush :: "iobuf \<Rightarrow> iobuf option" where
  "iobuf_flush io = do {
     b \<leftarrow> wr (io_buf io) 0 [NUL];
     Some (io\<lparr>io_p := 0, io_r := 0, io_w := 0, io_buf := b, io_left := szsub (io_bsize io) 1\<rparr>) }"

definition iobuf_shift :: "iobuf \<Rightarrow> iobuf option" where
  "iobuf_shift io = do {
     r \<leftarrow> shift_skip (io_buf io) (io_w io) (io_r io);
     if io_w io \<le> r then do {
       b \<leftarrow> wr (io_buf io) 0 [NUL];
       Some (io\<lparr>io_p := 0, io_r := 0, io_w := 0, io_left := szsub (io_bsize io) 1, io_buf := b\<rparr>) }
     else do {
       let len = io_w io - r;
       let last = int (io_w io) - io_p io;
       d \<leftarrow> rdn (drop r (io_buf io)) len;
       b \<leftarrow> wr (io_buf io) 0 d;
       b' \<leftarrow> wr b len [NUL];
       Some (io\<lparr>io_buf := b', io_r := 0, io_w := len, io_p := last,
                io_left := szsub (szsub (io_bsize io) len) 1\<rparr>) } }"

subsection \<open>Adding at the end\<close>

text \<open>The common part of the three functions that append: make room for \<open>n\<close> bytes, copy
  them to the write position and terminate them.\<close>

definition io_append :: "iobuf \<Rightarrow> bytes \<Rightarrow> iobuf option" where
  "io_append io s = do {
     b \<leftarrow> wr (io_buf io) (io_w io) s;
     b' \<leftarrow> wr b (io_w io + length s) [NUL];
     Some (io\<lparr>io_buf := b', io_w := io_w io + length s, io_left := szsub (io_left io) (length s)\<rparr>) }"

definition io_grow :: "iobuf \<Rightarrow> nat \<Rightarrow> (spocp_result \<times> iobuf) option" where
  "io_grow io n =
     (case iobuf_resize (Some io) (i32 (int (szsub n (io_left io)))) of
        Some (rc, Some io') \<Rightarrow> Some (rc, io')
      | _ \<Rightarrow> None)"

definition io_room :: "iobuf \<Rightarrow> nat \<Rightarrow> (spocp_result \<times> iobuf) option" where
  "io_room io n = (if io_left io < n then io_grow io n else Some (SPOCP_SUCCESS, io))"

definition iobuf_add :: "iobuf option \<Rightarrow> bytes \<Rightarrow> (spocp_result \<times> iobuf option) option" where
  "iobuf_add io0 s =
     (if s = [] \<or> s ! 0 = NUL then Some (SPOCP_SUCCESS, io0)
      else case io0 of
        None \<Rightarrow> Some (SPOCP_SUCCESS, None)
      | Some io \<Rightarrow> do {
          n \<leftarrow> strlen s;
          (rc, io1) \<leftarrow> (if i32 (int (io_left io)) < int n then io_grow io n
                        else Some (SPOCP_SUCCESS, io));
          if rc \<noteq> SPOCP_SUCCESS then Some (rc, Some io1)
          else do { io2 \<leftarrow> io_append io1 (take n s); Some (rc, Some io2) } })"

definition iobuf_addn :: "iobuf \<Rightarrow> bytes \<Rightarrow> nat \<Rightarrow> (spocp_result \<times> iobuf) option" where
  "iobuf_addn io s n =
     (if s = [] \<or> s ! 0 = NUL then Some (SPOCP_SUCCESS, io)
      else do {
        (rc, io1) \<leftarrow> io_room io n;
        if rc \<noteq> SPOCP_SUCCESS then Some (rc, io1)
        else do { d \<leftarrow> rdn s n; io2 \<leftarrow> io_append io1 d; Some (rc, io2) } })"

text \<open>The length field has room for six digits and the colon; a longer one is cut
  by \<^verbatim>\<open>snprintf\<close> while \<open>DIGITS\<close> still says six.\<close>

definition iobuf_add_octet :: "iobuf option \<Rightarrow> octet option \<Rightarrow> (spocp_result \<times> iobuf option) option" where
  "iobuf_add_octet io0 s0 = (case (s0, io0) of
      (None, _) \<Rightarrow> Some (SPOCP_SUCCESS, io0)
    | (Some s, None) \<Rightarrow> Some (SPOCP_SUCCESS, None)
    | (Some s, Some io) \<Rightarrow>
        if oct_len s = 0 then Some (SPOCP_SUCCESS, io0)
        else do {
          let lf = DIGITS (oct_len s) + 1;
          (rc, io1) \<leftarrow> io_room io (oct_len s + lf);
          if rc \<noteq> SPOCP_SUCCESS then Some (rc, Some io1)
          else do {
            let lenfield = take 7 (decimal (oct_len s mod 2 ^ 32) @ '':'');
            b \<leftarrow> wr (io_buf io1) (io_w io1) (lenfield @ [NUL]);
            v \<leftarrow> rdn (oct_val s) (oct_len s);
            b' \<leftarrow> wr b (io_w io1 + lf) v;
            b'' \<leftarrow> wr b' (io_w io1 + lf + oct_len s) [NUL];
            Some (rc, Some (io1\<lparr>io_buf := b'', io_w := io_w io1 + lf + oct_len s,
                                io_left := szsub (io_left io1) (oct_len s + lf)\<rparr>)) } })"

definition iobuf_content :: "iobuf option \<Rightarrow> int" where
  "iobuf_content io0 = (case io0 of None \<Rightarrow> - 1 | Some io \<Rightarrow> int (io_w io) - int (io_r io))"

subsection \<open>The buffer as a queue of bytes\<close>

definition io_content :: "iobuf \<Rightarrow> bytes" where
  "io_content io = drop (io_r io) (take (io_w io) (io_buf io))"

text \<open>The invariant: the block has the recorded size, and \<open>io_left\<close> counts the bytes
  behind the write position, the one kept for the terminating NUL apart. A block that has
  grown by the functions that append stays below \<open>SPOCP_MAXBUF + SPOCP_IOBUFSIZE\<close>.\<close>

definition wf_io :: "iobuf \<Rightarrow> bool" where
  "wf_io io \<longleftrightarrow> length (io_buf io) = io_bsize io \<and> io_r io \<le> io_w io \<and>
     io_w io + io_left io + 1 = io_bsize io \<and> io_bsize io < SPOCP_MAXBUF + SPOCP_IOBUFSIZE"

text \<open>Whether \<open>n\<close> more bytes are accepted: the block may grow up to \<open>SPOCP_MAXBUF\<close>.\<close>

definition io_fits :: "iobuf \<Rightarrow> nat \<Rightarrow> bool" where
  "io_fits io n \<longleftrightarrow> io_w io + n < max (io_bsize io) SPOCP_MAXBUF"

lemmas io_sizes = SPOCP_MAXBUF_def SPOCP_IOBUFSIZE_def

lemma wf_io_bounds:
  assumes "wf_io io"
  shows "io_bsize io < 2 ^ 31" "io_left io < 2 ^ 31" "io_w io < length (io_buf io)"
  using assms by (auto simp: wf_io_def io_sizes)

lemma length_io_content [simp]: "wf_io io \<Longrightarrow> length (io_content io) = io_w io - io_r io"
  by (simp add: wf_io_def io_content_def)

lemma length_wr: "wr p i s = Some q \<Longrightarrow> length q = length p"
  by (auto simp: wr_def split: if_splits)

lemma take_wr: "wr p i s = Some q \<Longrightarrow> j \<le> i \<Longrightarrow> take j q = take j p"
  by (auto simp: wr_def split: if_splits)

lemma take_wr_end: "wr p i s = Some q \<Longrightarrow> take (i + length s) q = take i p @ s"
  by (auto simp: wr_def split: if_splits)

lemma wr_ok: "i + length s \<le> length p \<Longrightarrow>
  \<exists>q. wr p i s = Some q \<and> length q = length p \<and> take (i + length s) q = take i p @ s"
  using length_wr take_wr_end wr_Some by blast

lemma iobuf_new_wf: "0 < n \<Longrightarrow> n \<le> SPOCP_MAXBUF \<Longrightarrow>
  \<exists>io. iobuf_new n = Some io \<and> wf_io io \<and> io_content io = []"
  by (simp add: iobuf_new_def wr_Some wf_io_def io_content_def io_sizes)

lemma iobuf_flush_wf: "wf_io io \<Longrightarrow>
  \<exists>io'. iobuf_flush io = Some io' \<and> wf_io io' \<and> io_content io' = []"
  by (auto simp: iobuf_flush_def wr_Some wf_io_def io_content_def io_sizes)

subsection \<open>Making room\<close>

lemma io_grow_ok:
  assumes wf: "wf_io io" and n: "io_left io < n" "n < 2 ^ 31" and fits: "io_fits io n"
  shows "\<exists>io1. io_grow io n = Some (SPOCP_SUCCESS, io1) \<and> wf_io io1 \<and> n \<le> io_left io1 \<and>
    io_r io1 = io_r io \<and> io_w io1 = io_w io \<and> io_p io1 = io_p io \<and>
    io_bsize io \<le> io_bsize io1 \<and> take (io_w io) (io_buf io1) = take (io_w io) (io_buf io)"
proof -
  define k where "k = n - io_left io"
  have k: "0 < k" "k < 2 ^ 31" "io_bsize io + k \<le> SPOCP_MAXBUF" "io_bsize io \<noteq> SPOCP_MAXBUF"
    using n fits wf by (auto simp: k_def io_fits_def wf_io_def)
  have inc: "i32 (int (szsub n (io_left io))) = int k"
    using n by (simp add: k_def)
  define bs where "bs = (if k < SPOCP_IOBUFSIZE then io_bsize io + SPOCP_IOBUFSIZE else io_bsize io + k)"
  have bs: "io_bsize io + k \<le> bs" "bs < SPOCP_MAXBUF + SPOCP_IOBUFSIZE" "io_bsize io < bs"
    using k by (auto simp: bs_def io_sizes)
  define left where "left = io_left io + (bs - io_bsize io)"
  have bs64: "bs < 2 ^ 31" using bs by (simp add: io_sizes)
  obtain b where b: "wr (realloc (io_buf io) bs) (bs - 1) [NUL] = Some b"
    "length b = bs" using bs wr_ok [of "bs - 1" "[NUL]" "realloc (io_buf io) bs"] by auto
  have tk: "take (io_w io) b = take (io_w io) (io_buf io)"
    using take_wr [OF b(1), of "io_w io"] wf bs by (auto simp: wf_io_def)
  have sz: "szadd (io_bsize io) k = io_bsize io + k"
    "szadd (io_bsize io) SPOCP_IOBUFSIZE = io_bsize io + SPOCP_IOBUFSIZE"
    using k(3) by (auto simp: io_sizes)
  have lf: "szadd (io_left io) (szsub bs (io_bsize io)) = left"
    using bs bs64 wf_io_bounds [OF wf] by (simp add: left_def)
  have "iobuf_resize (Some io) (int k) = Some (SPOCP_SUCCESS,
      Some (io\<lparr>io_buf := b, io_end := bs - 1, io_bsize := bs, io_left := left\<rparr>))"
    using k b(1) lf wf_io_bounds [OF wf]
    by (cases "k < SPOCP_IOBUFSIZE") (simp_all add: iobuf_resize_def sz Let_def bs_def)
  then have "io_grow io n = Some (SPOCP_SUCCESS,
      io\<lparr>io_buf := b, io_end := bs - 1, io_bsize := bs, io_left := left\<rparr>)"
    by (simp add: io_grow_def inc)
  then show ?thesis using wf bs b tk by (auto simp: wf_io_def left_def k_def)
qed

lemma io_grow_full:
  assumes wf: "wf_io io" and n: "io_left io < n" "n < 2 ^ 31" and fits: "\<not> io_fits io n"
  shows "io_grow io n = Some (SPOCP_BUF_OVERFLOW, io)"
proof -
  define k where "k = n - io_left io"
  have k: "0 < k" "k < 2 ^ 31" using n by (auto simp: k_def)
  have inc: "i32 (int (szsub n (io_left io))) = int k" using n by (simp add: k_def)
  have "szadd (io_bsize io) k = io_bsize io + k" using k wf_io_bounds [OF wf] by simp
  moreover have "io_bsize io = SPOCP_MAXBUF \<or> SPOCP_MAXBUF < io_bsize io + k"
    using fits n wf by (auto simp: io_fits_def k_def wf_io_def)
  ultimately have "iobuf_resize (Some io) (int k) = Some (SPOCP_BUF_OVERFLOW, Some io)"
    using k by (auto simp: iobuf_resize_def)
  then show ?thesis by (simp add: io_grow_def inc)
qed

lemma io_room_ok:
  assumes "wf_io io" "n < 2 ^ 31" "io_fits io n"
  shows "\<exists>io1. io_room io n = Some (SPOCP_SUCCESS, io1) \<and> wf_io io1 \<and> n \<le> io_left io1 \<and>
    io_r io1 = io_r io \<and> io_w io1 = io_w io \<and> io_p io1 = io_p io \<and>
    io_bsize io \<le> io_bsize io1 \<and> take (io_w io) (io_buf io1) = take (io_w io) (io_buf io)"
  using assms io_grow_ok by (cases "io_left io < n") (auto simp: io_room_def)

lemma io_room_full:
  assumes "wf_io io" "n < 2 ^ 31" "\<not> io_fits io n"
  shows "io_room io n = Some (SPOCP_BUF_OVERFLOW, io)"
  using assms io_grow_full by (auto simp: io_room_def io_fits_def wf_io_def)

lemma io_append_ok:
  assumes wf: "wf_io io" and s: "length s \<le> io_left io"
  shows "\<exists>io'. io_append io s = Some io' \<and> wf_io io' \<and> io_content io' = io_content io @ s \<and>
    io_w io' = io_w io + length s \<and> io_bsize io' = io_bsize io"
proof -
  have len: "io_w io + length s < length (io_buf io)" using wf s by (auto simp: wf_io_def)
  then obtain b where b: "wr (io_buf io) (io_w io) s = Some b" "length b = length (io_buf io)"
    "take (io_w io + length s) b = take (io_w io) (io_buf io) @ s"
    using wr_ok [of "io_w io" s "io_buf io"] by auto
  obtain c where c: "wr b (io_w io + length s) [NUL] = Some c" "length c = length b"
    using wr_ok [of "io_w io + length s" "[NUL]" b] len b(2) by auto
  have "take (io_w io + length s) c = take (io_w io) (io_buf io) @ s"
    using take_wr [OF c(1)] b(3) by simp
  moreover have "szsub (io_left io) (length s) = io_left io - length s"
    using s wf_io_bounds [OF wf] by simp
  ultimately show ?thesis using wf s b c by (auto simp: io_append_def wf_io_def io_content_def)
qed

subsection \<open>Appending\<close>

text \<open>What a call that adds the bytes \<open>s\<close> does: it appends them all, or the buffer would
  grow past its limit and stays as it was.\<close>

definition io_put :: "iobuf \<Rightarrow> bytes \<Rightarrow> nat \<Rightarrow> spocp_result \<Rightarrow> iobuf \<Rightarrow> bool" where
  "io_put io s n rc io' \<longleftrightarrow>
     (if io_fits io n
      then rc = SPOCP_SUCCESS \<and> wf_io io' \<and> io_content io' = io_content io @ s \<and>
           io_w io' = io_w io + n \<and> io_bsize io \<le> io_bsize io'
      else rc = SPOCP_BUF_OVERFLOW \<and> io' = io)"

lemma io_content_cong:
  "io_r io1 = io_r io \<Longrightarrow> io_w io1 = io_w io \<Longrightarrow>
   take (io_w io) (io_buf io1) = take (io_w io) (io_buf io) \<Longrightarrow> io_content io1 = io_content io"
  by (simp add: io_content_def)

lemma io_room_append:
  assumes wf: "wf_io io" and s: "length s < 2 ^ 31" and fits: "io_fits io (length s)"
  shows "\<exists>io1 io'. io_room io (length s) = Some (SPOCP_SUCCESS, io1) \<and>
    io_append io1 s = Some io' \<and> wf_io io' \<and> io_content io' = io_content io @ s \<and>
    io_w io' = io_w io + length s \<and> io_bsize io \<le> io_bsize io'"
proof -
  obtain io1 where io1: "io_room io (length s) = Some (SPOCP_SUCCESS, io1)" "wf_io io1"
    "length s \<le> io_left io1" "io_content io1 = io_content io" "io_w io1 = io_w io"
    "io_bsize io \<le> io_bsize io1"
    using io_room_ok [OF assms] io_content_cong by metis
  then show ?thesis using io_append_ok [OF io1(2,3)] by auto
qed

lemma iobuf_addn_put:
  assumes "wf_io io" "n \<le> length s" "n < 2 ^ 31" "s \<noteq> []" "s ! 0 \<noteq> NUL"
  shows "\<exists>rc io'. iobuf_addn io s n = Some (rc, io') \<and> io_put io (take n s) n rc io'"
proof (cases "io_fits io n")
  case True
  have l: "length (take n s) = n" using assms(2) by simp
  obtain io1 io' where "io_room io n = Some (SPOCP_SUCCESS, io1)"
    "io_append io1 (take n s) = Some io'" "wf_io io'" "io_content io' = io_content io @ take n s"
    "io_w io' = io_w io + n" "io_bsize io \<le> io_bsize io'"
    using io_room_append [of io "take n s"] assms True unfolding l by auto
  then show ?thesis using assms True by (simp add: iobuf_addn_def io_put_def)
next
  case False
  then show ?thesis using assms io_room_full [OF assms(1,3) False]
    by (simp add: iobuf_addn_def io_put_def)
qed

lemma iobuf_add_put:
  assumes "wf_io io" "NUL \<notin> set s" "s \<noteq> []" "length s < 2 ^ 31"
  shows "\<exists>rc io'. iobuf_add (Some io) (s @ NUL # x) = Some (rc, Some io') \<and>
    io_put io s (length s) rc io'"
proof -
  have h: "(s @ NUL # x) ! 0 \<noteq> NUL" using assms(2,3) by (cases s) auto
  have room: "(if i32 (int (io_left io)) < int (length s) then io_grow io (length s)
      else Some (SPOCP_SUCCESS, io)) = io_room io (length s)"
    using wf_io_bounds [OF assms(1)] by (simp add: io_room_def)
  show ?thesis
  proof (cases "io_fits io (length s)")
    case True
    from io_room_append [OF assms(1,4) True]
    show ?thesis using h assms True by (auto simp: iobuf_add_def room io_put_def)
  next
    case False
    from io_room_full [OF assms(1,4) False]
    show ?thesis using h assms False by (auto simp: iobuf_add_def room io_put_def)
  qed
qed

text \<open>An octet string goes in as a netstring. The length field holds up to six digits,
  which every string that fits has.\<close>

lemma iobuf_add_octet_put:
  assumes wf: "wf_io io" and o1: "wf_octet o1" "0 < oct_len o1" "oct_len o1 < 1000000"
  shows "\<exists>rc io'. iobuf_add_octet (Some io) (Some o1) = Some (rc, Some io') \<and>
    io_put io (netstr (content o1)) (length (netstr (content o1))) rc io'"
proof -
  define s where "s = netstr (content o1)"
  define lf where "lf = DIGITS (oct_len o1) + 1"
  define lenf where "lenf = decimal (oct_len o1) @ '':''"
  have dig: "length (decimal (oct_len o1)) = DIGITS (oct_len o1)"
    using DIGITS_decimal [OF o1(3)] by simp
  have lenl: "length lenf = lf" "lf \<le> 7" by (auto simp: lenf_def lf_def dig) (simp add: DIGITS_def)
  have s: "s = lenf @ content o1" "length s = oct_len o1 + lf"
    using o1 by (auto simp: s_def netstr_def lenf_def lf_def dig)
  have small: "oct_len o1 + lf < 2 ^ 31" using o1(3) lenl(2) by simp
  have tk: "take 7 (decimal (oct_len o1 mod 2 ^ 32) @ '':'') = lenf"
    using o1(3) lenl by (simp add: lenf_def)
  show ?thesis
  proof (cases "io_fits io (oct_len o1 + lf)")
    case True
    obtain io1 where io1: "io_room io (oct_len o1 + lf) = Some (SPOCP_SUCCESS, io1)" "wf_io io1"
      "oct_len o1 + lf \<le> io_left io1" "io_r io1 = io_r io" "io_w io1 = io_w io"
      "io_bsize io \<le> io_bsize io1" "take (io_w io) (io_buf io1) = take (io_w io) (io_buf io)"
      using io_room_ok [OF wf small True] by blast
    have room: "io_w io1 + lf + oct_len o1 < length (io_buf io1)" "io_left io1 < 2 ^ 31"
      using io1(2,3) wf_io_bounds by (auto simp: wf_io_def)
    obtain b where b: "wr (io_buf io1) (io_w io1) (lenf @ [NUL]) = Some b"
      "length b = length (io_buf io1)" "take (io_w io1 + lf + 1) b = take (io_w io1) (io_buf io1) @ lenf @ [NUL]"
      using wr_ok [of "io_w io1" "lenf @ [NUL]" "io_buf io1"] room o1(2) by (auto simp: lenl)
    have v: "rdn (oct_val o1) (oct_len o1) = Some (content o1)" "length (content o1) = oct_len o1"
      using o1(1) by (auto simp: wf_octet_def content_def)
    obtain c where c: "wr b (io_w io1 + lf) (content o1) = Some c" "length c = length b"
      "take (io_w io1 + lf + oct_len o1) c = take (io_w io1 + lf) b @ content o1"
      using wr_ok [of "io_w io1 + lf" "content o1" b] room v(2) b(2) by auto
    obtain d where d: "wr c (io_w io1 + lf + oct_len o1) [NUL] = Some d" "length d = length c"
      using wr_ok [of "io_w io1 + lf + oct_len o1" "[NUL]" c] room b(2) c(2) by auto
    have "take (io_w io1 + lf) b = take (io_w io1 + lf) (take (io_w io1 + lf + 1) b)" by simp
    also have "\<dots> = take (io_w io1) (io_buf io1) @ lenf"
      unfolding b(3) using room by (simp add: lenl)
    finally have tkd: "take (io_w io1 + lf + oct_len o1) d = take (io_w io1) (io_buf io1) @ s"
      using take_wr [OF d(1)] c(3) s(1) by simp
    define io' where "io' = io1\<lparr>io_buf := d, io_w := io_w io1 + lf + oct_len o1,
       io_left := szsub (io_left io1) (oct_len o1 + lf)\<rparr>"
    have "iobuf_add_octet (Some io) (Some o1) = Some (SPOCP_SUCCESS, Some io')"
      using o1(2) io1(1) v(1) by (simp add: iobuf_add_octet_def Let_def tk [simplified] b(1) c(1) d(1)
        io'_def lf_def [symmetric, simplified])
    moreover have "wf_io io'" using io1(2,3) b c d room by (auto simp: io'_def wf_io_def)
    moreover have "io_content io' = io_content io @ s"
      using tkd wf io1(2,4,5,7) room by (auto simp: io'_def io_content_def wf_io_def)
    moreover have "io_w io' = io_w io + length s" "io_bsize io \<le> io_bsize io'"
      using io1(5,6) by (auto simp: io'_def s(2))
    ultimately show ?thesis using True s(2) unfolding s_def [symmetric] by (simp add: io_put_def)
  next
    case False
    from io_room_full [OF wf small False]
    show ?thesis using o1(2) False s(2) unfolding s_def [symmetric]
      by (simp add: iobuf_add_octet_def io_put_def Let_def lf_def)
  qed
qed

subsection \<open>Shifting\<close>

lemma shift_skip_dropWhile:
  assumes "w < length buf" "r \<le> Suc w"
  shows "\<exists>r'. shift_skip buf w r = Some r' \<and> r \<le> r' \<and>
    drop r' (take w buf) = dropWhile WHITESPACE (drop r (take w buf))"
  using assms
proof (induction buf w r rule: shift_skip.induct)
  case (1 buf w r)
  show ?case
  proof (cases "r < w")
    case True
    then have dr: "drop r (take w buf) = buf ! r # drop (Suc r) (take w buf)"
      using "1.prems" Cons_nth_drop_Suc [of r "take w buf"] by simp
    show ?thesis
    proof (cases "WHITESPACE (buf ! r)")
      case ws: True
      have "\<exists>r'. shift_skip buf w (Suc r) = Some r' \<and> Suc r \<le> r' \<and>
          drop r' (take w buf) = dropWhile WHITESPACE (drop (Suc r) (take w buf))"
        using "1.IH" [of "buf ! r"] True ws "1.prems" by simp
      then show ?thesis using True ws "1.prems" dr
        by (subst shift_skip.simps) (auto intro: Suc_leD)
    next
      case False
      then show ?thesis using True "1.prems" dr by (subst shift_skip.simps) simp
    qed
  next
    case False
    then have "drop r' (take w buf) = []" if "r \<le> r'" for r' using that by simp
    moreover have "\<exists>r'. shift_skip buf w r = Some r' \<and> r \<le> r'"
      using False "1.prems" by (subst shift_skip.simps, subst shift_skip.simps) auto
    ultimately show ?thesis by (metis dropWhile.simps(1) order_refl)
  qed
qed

lemma iobuf_shift_ok:
  assumes wf: "wf_io io"
  shows "\<exists>io'. iobuf_shift io = Some io' \<and> wf_io io' \<and>
    io_content io' = dropWhile WHITESPACE (io_content io)"
proof -
  have w: "io_w io < length (io_buf io)" "io_r io \<le> Suc (io_w io)"
    using wf by (auto simp: wf_io_def)
  obtain r where r: "shift_skip (io_buf io) (io_w io) (io_r io) = Some r" "io_r io \<le> r"
    "drop r (take (io_w io) (io_buf io)) = dropWhile WHITESPACE (io_content io)"
    using shift_skip_dropWhile [OF w] by (auto simp: io_content_def)
  show ?thesis
  proof (cases "io_w io \<le> r")
    case True
    then have e: "dropWhile WHITESPACE (io_content io) = []" using r(3) by simp
    show ?thesis unfolding e using True r(1) wf
      by (auto simp: iobuf_shift_def wr_Some wf_io_def io_content_def io_sizes)
  next
    case False
    define len where "len = io_w io - r"
    define d where "d = dropWhile WHITESPACE (io_content io)"
    have ln: "len < length (io_buf io)" "len = length d" using w(1) r(3) by (auto simp: len_def d_def [symmetric])
    have rd: "rdn (drop r (io_buf io)) len = Some d"
      using w(1) False r(3) by (simp add: len_def d_def [symmetric] take_drop)
    obtain b where b: "wr (io_buf io) 0 d = Some b" "length b = length (io_buf io)"
      "take len b = d"
      using wr_ok [of 0 d "io_buf io"] ln by auto
    obtain c where c: "wr b len [NUL] = Some c" "length c = length b"
      using wr_ok [of len "[NUL]" b] ln b(2) by auto
    have tk: "take len c = d" using take_wr [OF c(1)] b(3) by simp
    have lf: "szsub (szsub (io_bsize io) len) 1 = io_bsize io - len - 1"
      using ln wf wf_io_bounds [OF wf] by (simp add: wf_io_def)
    show ?thesis unfolding d_def [symmetric] using False r(1) rd b c tk lf wf ln
      by (auto simp: iobuf_shift_def len_def [symmetric] Let_def io_content_def wf_io_def)
  qed
qed

subsection \<open>The interface of a bounded byte queue\<close>

text \<open>The clients of the buffers (the reply queue, the formatter of responses) rely on
  the following only: a put that fits appends the text of its source, one that does not fit
  changes nothing, and room for a sequence of puts stays room for its rest.\<close>

fun put_all :: "('q \<Rightarrow> 's \<Rightarrow> (spocp_result \<times> 'q) option) \<Rightarrow> 'q \<Rightarrow> 's list \<Rightarrow> 'q option" where
  "put_all put q [] = Some q"
| "put_all put q (s # ss) = do { (rc, q') \<leftarrow> put q s; put_all put q' ss }"

locale byte_queue =
  fixes inv :: "'q \<Rightarrow> bool" and bytes_of :: "'q \<Rightarrow> bytes" and room :: "'q \<Rightarrow> nat \<Rightarrow> bool"
    and put :: "'q \<Rightarrow> 's \<Rightarrow> (spocp_result \<times> 'q) option"
    and src_ok :: "'s \<Rightarrow> bool" and text_of :: "'s \<Rightarrow> bytes"
  assumes put_fits: "inv q \<Longrightarrow> src_ok s \<Longrightarrow> room q (length (text_of s)) \<Longrightarrow>
      \<exists>q'. put q s = Some (SPOCP_SUCCESS, q') \<and> inv q' \<and> bytes_of q' = bytes_of q @ text_of s \<and>
        (\<forall>n. room q (length (text_of s) + n) \<longrightarrow> room q' n)"
    and put_full: "inv q \<Longrightarrow> src_ok s \<Longrightarrow> \<not> room q (length (text_of s)) \<Longrightarrow>
      put q s = Some (SPOCP_BUF_OVERFLOW, q)"
    and room_less: "room q m \<Longrightarrow> n \<le> m \<Longrightarrow> room q n"
begin

lemma put_all_fits:
  assumes "inv q" "\<forall>s\<in>set ss. src_ok s" "room q (length (concat (map text_of ss)))"
  shows "\<exists>q'. put_all put q ss = Some q' \<and> inv q' \<and>
    bytes_of q' = bytes_of q @ concat (map text_of ss) \<and>
    (\<forall>n. room q (length (concat (map text_of ss)) + n) \<longrightarrow> room q' n)"
  using assms
proof (induction ss arbitrary: q)
  case (Cons s ss)
  have "room q (length (text_of s))" using Cons.prems(3) room_less by simp
  then obtain q' where q': "put q s = Some (SPOCP_SUCCESS, q')" "inv q'"
    "bytes_of q' = bytes_of q @ text_of s" "\<forall>n. room q (length (text_of s) + n) \<longrightarrow> room q' n"
    using put_fits [of q s] Cons.prems by auto
  then have "room q' (length (concat (map text_of ss)))" using Cons.prems(3) by simp
  then obtain q'' where q'': "put_all put q' ss = Some q''" "inv q''"
    "bytes_of q'' = bytes_of q' @ concat (map text_of ss)"
    "\<forall>n. room q' (length (concat (map text_of ss)) + n) \<longrightarrow> room q'' n"
    using Cons.IH [of q'] q'(2) Cons.prems(2) by auto
  then show ?case using q' by (auto simp: add.assoc)
qed simp

lemma put_all_total:
  assumes "inv q" "\<forall>s\<in>set ss. src_ok s"
  shows "\<exists>q' t. put_all put q ss = Some q' \<and> inv q' \<and> bytes_of q' = bytes_of q @ t"
  using assms
proof (induction ss arbitrary: q)
  case (Cons s ss)
  have "\<exists>rc q' t. put q s = Some (rc, q') \<and> inv q' \<and> bytes_of q' = bytes_of q @ t"
    using put_fits [of q s] put_full [of q s] Cons.prems
    by (cases "room q (length (text_of s))") auto
  then obtain rc q' t where q': "put q s = Some (rc, q')" "inv q'" "bytes_of q' = bytes_of q @ t"
    by blast
  then show ?case using Cons.IH [of q'] Cons.prems(2) by auto
qed simp

end

text \<open>Both functions that add are such puts: \<open>iobuf_addn\<close> of \<open>n\<close> bytes from a pointer,
  and \<open>iobuf_add_octet\<close> of an octet string as a netstring.\<close>

definition addn_put :: "iobuf \<Rightarrow> bytes \<times> nat \<Rightarrow> (spocp_result \<times> iobuf) option" where
  "addn_put io s = iobuf_addn io (fst s) (snd s)"

definition addn_ok :: "bytes \<times> nat \<Rightarrow> bool" where
  "addn_ok s \<longleftrightarrow> snd s \<le> length (fst s) \<and> snd s < 2 ^ 31 \<and> (snd s = 0 \<or> fst s ! 0 \<noteq> NUL)"

definition octet_put :: "iobuf \<Rightarrow> octet \<Rightarrow> (spocp_result \<times> iobuf) option" where
  "octet_put io o1 = do {
     (rc, io') \<leftarrow> iobuf_add_octet (Some io) (Some o1);
     io'' \<leftarrow> io';
     Some (rc, io'') }"

definition octet_ok :: "octet \<Rightarrow> bool" where
  "octet_ok o1 \<longleftrightarrow> wf_octet o1 \<and> 0 < oct_len o1 \<and> oct_len o1 < 1000000"

lemma io_fits_put: "io_put io s n rc io' \<Longrightarrow> io_fits io (n + m) \<Longrightarrow> io_fits io' m"
  by (auto simp: io_put_def io_fits_def split: if_splits)

lemma addn_put_io_put:
  assumes "wf_io io" "addn_ok s"
  shows "\<exists>rc io'. addn_put io s = Some (rc, io') \<and> io_put io (take (snd s) (fst s)) (snd s) rc io'"
proof (cases "fst s = [] \<or> fst s ! 0 = NUL")
  case True
  then have "snd s = 0" using assms(2) by (auto simp: addn_ok_def)
  moreover from this True have "addn_put io s = Some (SPOCP_SUCCESS, io)"
    by (simp add: addn_put_def iobuf_addn_def)
  ultimately show ?thesis using assms(1) by (auto simp: io_put_def io_fits_def wf_io_def)
next
  case False
  then show ?thesis using assms iobuf_addn_put [of io "snd s" "fst s"]
    by (auto simp: addn_put_def addn_ok_def)
qed

interpretation addn: byte_queue wf_io io_content io_fits addn_put addn_ok "\<lambda>s. take (snd s) (fst s)"
proof
  fix q s
  assume a: "wf_io q" "addn_ok s"
  then obtain rc io' where p: "addn_put q s = Some (rc, io')"
    "io_put q (take (snd s) (fst s)) (snd s) rc io'" using addn_put_io_put by blast
  have l: "length (take (snd s) (fst s)) = snd s" using a(2) by (simp add: addn_ok_def)
  { assume "io_fits q (length (take (snd s) (fst s)))"
    then show "\<exists>q'. addn_put q s = Some (SPOCP_SUCCESS, q') \<and> wf_io q' \<and>
        io_content q' = io_content q @ take (snd s) (fst s) \<and>
        (\<forall>n. io_fits q (length (take (snd s) (fst s)) + n) \<longrightarrow> io_fits q' n)"
      using p io_fits_put [OF p(2)] unfolding l by (auto simp: io_put_def) }
  { assume "\<not> io_fits q (length (take (snd s) (fst s)))"
    then show "addn_put q s = Some (SPOCP_BUF_OVERFLOW, q)"
      using p unfolding l by (auto simp: io_put_def) }
qed (auto simp: io_fits_def)

interpretation octput: byte_queue wf_io io_content io_fits octet_put octet_ok "\<lambda>o1. netstr (content o1)"
proof
  fix q s
  assume a: "wf_io q" "octet_ok s"
  then obtain rc io' where p: "octet_put q s = Some (rc, io')"
    "io_put q (netstr (content s)) (length (netstr (content s))) rc io'"
    using iobuf_add_octet_put [of q s] by (auto simp: octet_ok_def octet_put_def)
  { assume "io_fits q (length (netstr (content s)))"
    then show "\<exists>q'. octet_put q s = Some (SPOCP_SUCCESS, q') \<and> wf_io q' \<and>
        io_content q' = io_content q @ netstr (content s) \<and>
        (\<forall>n. io_fits q (length (netstr (content s)) + n) \<longrightarrow> io_fits q' n)"
      using p io_fits_put [OF p(2)] by (auto simp: io_put_def) }
  { assume "\<not> io_fits q (length (netstr (content s)))"
    then show "octet_put q s = Some (SPOCP_BUF_OVERFLOW, q)"
      using p by (auto simp: io_put_def) }
qed (auto simp: io_fits_def)

subsection \<open>Where the buffers go wrong\<close>

text \<open>Inserting into a buffer that has to grow writes through a pointer into the block that
  was released. \<open>iobuf_shift\<close> moves the marker to the number of bytes behind it instead of
  the number of bytes before it; and \<open>iobuf_addn\<close> takes text that begins with a NUL byte
  for no text.\<close>

lemma iobuf_insert_grow_faults:
  assumes "wf_io io" "io_left io < n" "io_bsize io + n \<le> SPOCP_MAXBUF" "0 < n"
  shows "iobuf_insert io p s n = None"
proof -
  have k: "io_bsize io \<noteq> SPOCP_MAXBUF" "\<not> SPOCP_MAXBUF < szadd (io_bsize io) (size_of_int (int n))"
    "int n \<noteq> 0" using assms by (auto simp: io_sizes)
  have "\<exists>io'. iobuf_resize (Some io) (int n) = Some (SPOCP_SUCCESS, io') \<or>
        iobuf_resize (Some io) (int n) = None"
    using k unfolding iobuf_resize_def Let_def
    by (auto simp: Option.bind_eq_Some_conv)
  then show ?thesis using assms(2) by (auto simp: iobuf_insert_def)
qed

lemma iobuf_shift_marker:
  assumes "wf_io io" "io_r io < io_w io" "\<not> WHITESPACE (io_buf io ! io_r io)"
  shows "\<exists>io'. iobuf_shift io = Some io' \<and> io_p io' = int (io_w io) - io_p io"
proof -
  have "shift_skip (io_buf io) (io_w io) (io_r io) = Some (io_r io)"
    using assms by (subst shift_skip.simps) (auto simp: wf_io_def)
  then show ?thesis using assms
    by (auto simp: iobuf_shift_def Let_def wr_Some wf_io_def)
qed

end
