(* ===== verification/Conn.thy ===== *)
theory Conn
  imports Iobuf
begin

text \<open>
  Connections, \<open>server/conn.c\<close>: the record of a connection, its set-up and reset, and the
  reading and writing of its buffers. The system calls are parameters: a call of
  \<^verbatim>\<open>select\<close>, \<^verbatim>\<open>read\<close> or \<^verbatim>\<open>write\<close> is given by its result. Files, certificates, addresses
  and the SASL and TLS layers are outside; a pointer field of those is kept only where the
  functions here set or test it. The queues that other components put into a connection (the
  pending replies \<open>'r\<close>, the operations of a transaction \<open>'o\<close>, the rulesets \<open>'s\<close>) are type
  parameters.
\<close>

definition CNST_FREE :: int where "CNST_FREE = 0"
definition CNST_SETUP :: int where "CNST_SETUP = 1"
definition CNST_ACTIVE :: int where "CNST_ACTIVE = 2"
definition CNST_STOP :: int where "CNST_STOP = 5"
definition CNST_WRITE :: int where "CNST_WRITE = 6"

datatype ssl_status = INACTIVE | REQUEST | NEGOTIATION | ACTIVE

record ('r, 'o, 's) conn =
  c_fd :: int
  c_status :: int
  c_sslstatus :: ssl_status
  c_con_type :: int
  c_phase :: nat
  c_ops_pending :: int
  c_stop :: bool
  c_operations :: int
  c_layer :: int
  c_hostname :: "bytes option"
  c_hostaddr :: "bytes option"
  c_subject :: "octet option"
  c_sexp_subject :: "bytes option"
  c_rs :: "'s option"
  c_transaction :: bool
  c_ops :: "'o list"
  c_in :: iobuf
  c_out :: iobuf
  c_head :: "'r list"

subsection \<open>Life of a connection object\<close>

definition conn_new :: "('r, 'o, 's) conn option" where
  "conn_new = do {
     i \<leftarrow> iobuf_new SPOCP_IOBUFSIZE;
     out \<leftarrow> iobuf_new SPOCP_IOBUFSIZE;
     Some \<lparr>c_fd = 0, c_status = CNST_FREE, c_sslstatus = INACTIVE, c_con_type = 0, c_phase = 0,
       c_ops_pending = 0, c_stop = False, c_operations = 0, c_layer = 0, c_hostname = None,
       c_hostaddr = None, c_subject = None, c_sexp_subject = None, c_rs = None, c_transaction = False, c_ops = [],
       c_in = i, c_out = out, c_head = []\<rparr> }"

definition conn_close :: "('r, 'o, 's) conn \<Rightarrow> ('r, 'o, 's) conn" where
  "conn_close c = c\<lparr>c_fd := 0\<rparr>"

definition conn_iobuf_clear :: "('r, 'o, 's) conn \<Rightarrow> ('r, 'o, 's) conn option" where
  "conn_iobuf_clear c = do {
     i \<leftarrow> iobuf_flush (c_in c);
     out \<leftarrow> iobuf_flush (c_out c);
     Some (c\<lparr>c_in := i, c_out := out\<rparr>) }"

definition conn_reset :: "('r, 'o, 's) conn \<Rightarrow> ('r, 'o, 's) conn option" where
  "conn_reset c =
     (let c1 = (if c_fd c \<noteq> 0 then conn_close c else c)
      in conn_iobuf_clear (c1\<lparr>c_status := CNST_FREE, c_sslstatus := INACTIVE, c_fd := 0,
           c_operations := 0, c_hostname := None, c_hostaddr := None, c_subject := None, c_sexp_subject := None\<rparr>))"

definition nonempty_str :: "bytes \<Rightarrow> bytes option" where
  "nonempty_str s = (if s = [] \<or> s ! 0 = NUL then None else Some s)"

definition conn_setup :: "('r, 'o, 's) conn \<Rightarrow> 's option \<Rightarrow> int \<Rightarrow> bytes \<Rightarrow> bytes \<Rightarrow> ('r, 'o, 's) conn" where
  "conn_setup c root fd hostname ipaddr =
     c\<lparr>c_fd := fd, c_status := CNST_SETUP, c_sslstatus := INACTIVE, c_con_type := 1,
       c_hostaddr := nonempty_str ipaddr, c_hostname := nonempty_str hostname,
       c_rs := root, c_layer := 0, c_stop := False\<rparr>"

subsection \<open>Reading\<close>

text \<open>\<open>sel\<close> is what \<^verbatim>\<open>select\<close> returns, \<open>n\<close> what \<^verbatim>\<open>read\<close> returns, and \<open>intr\<close> says that
  \<^verbatim>\<open>errno\<close> is 0 or \<^verbatim>\<open>EINTR\<close>.\<close>

definition conn_readn :: "int \<Rightarrow> int \<Rightarrow> bool \<Rightarrow> int" where
  "conn_readn sel n intr = (if sel \<noteq> 0 then if n \<le> 0 then if intr then 0 else - 1 else n else 0)"

text \<open>\<open>data\<close> is what the \<^verbatim>\<open>readn\<close> function of the connection stored at the write position
  and \<open>n\<close> the number of bytes it returned.\<close>

definition spocp_conn_read :: "iobuf \<Rightarrow> int \<Rightarrow> bytes \<Rightarrow> (int \<times> iobuf) option" where
  "spocp_conn_read io n data =
     (if 0 < n then do {
        b \<leftarrow> wr (io_buf io) (io_w io) data;
        b' \<leftarrow> wr b (io_w io + nat n) [NUL];
        Some (n, io\<lparr>io_buf := b', io_w := io_w io + nat n, io_left := szsub (io_left io) (nat n)\<rparr>) }
      else Some (n, io))"

text \<open>\<open>strpbrk\<close> on a NUL terminated string: the offset of the first byte of \<open>accept\<close>, if
  any; \<open>None\<close> outside when the memory has no terminator.\<close>

fun strpbrk :: "bytes \<Rightarrow> bytes \<Rightarrow> nat \<Rightarrow> nat option option" where
  "strpbrk [] accept i = None"
| "strpbrk (c # s) accept i =
     (if c = NUL then Some None else if c \<in> set accept then Some (Some i) else strpbrk s accept (Suc i))"

abbreviation CR :: char where "CR \<equiv> CHR 0x0D"
abbreviation LF :: char where "LF \<equiv> CHR 0x0A"

text \<open>\<open>refill\<close> is the effect of the extra \<open>spocp_conn_read\<close> on the buffer when there is no line
  end yet. The result is the offset of the line in the buffer.\<close>

definition next_line :: "iobuf \<Rightarrow> (iobuf \<Rightarrow> iobuf) \<Rightarrow> (nat option \<times> iobuf) option" where
  "next_line io0 refill = do {
     s0 \<leftarrow> strpbrk (drop (io_r io0) (io_buf io0)) [CR, LF] (io_r io0);
     (s, io) \<leftarrow> (case s0 of
         Some k \<Rightarrow> Some (Some k, io0)
       | None \<Rightarrow> do {
           s1 \<leftarrow> strpbrk (drop (io_r (refill io0)) (io_buf (refill io0))) [CR, LF] (io_r (refill io0));
           Some (s1, refill io0) });
     case s of
       None \<Rightarrow> Some (None, io)
     | Some k \<Rightarrow> do {
         c \<leftarrow> rd (io_buf io) k;
         d \<leftarrow> (if c = CR then rd (io_buf io) (Suc k) else Some NUL);
         if c = CR \<and> d = LF then Some (Some (io_r io), io\<lparr>io_buf := (io_buf io)[k := NUL], io_r := k + 2\<rparr>)
         else if c = LF then Some (Some (io_r io), io\<lparr>io_buf := (io_buf io)[k := NUL], io_r := k + 1\<rparr>)
         else Some (None, io) } }"

subsection \<open>Writing\<close>

text \<open>One turn of the loop of \<open>conn_writen\<close>: \<^verbatim>\<open>select\<close> timed out, or \<^verbatim>\<open>write\<close> wrote some
  bytes, was interrupted, or failed. The script of turns is followed until the data is
  written, a write fails or a wait times out; the result is the return value and the bytes
  that went out. \<open>None\<close> when the script is too short.\<close>

datatype write_turn = TimedOut | Wrote nat | Interrupted | Failed

fun writen_loop :: "write_turn list \<Rightarrow> bytes \<Rightarrow> nat \<Rightarrow> (int \<times> bytes) option" where
  "writen_loop script [] n = Some (int n, [])"
| "writen_loop [] (c # s) n = None"
| "writen_loop (t # script) (c # s) n = (case t of
      TimedOut \<Rightarrow> Some (int n, [])
    | Failed \<Rightarrow> Some (- 1, [])
    | Interrupted \<Rightarrow> writen_loop script (c # s) n
    | Wrote k \<Rightarrow> do {
        (r, out) \<leftarrow> writen_loop script (drop k (c # s)) n;
        Some (r, take k (c # s) @ out) })"

definition conn_writen :: "int \<Rightarrow> bytes \<Rightarrow> write_turn list \<Rightarrow> (int \<times> bytes) option" where
  "conn_writen fd s script =
     (if fd = 0 then Some (int (length s), []) else writen_loop script s (length s))"

text \<open>\<open>n\<close> is what the \<^verbatim>\<open>writen\<close> function of the connection returned for the content of the
  output buffer.\<close>

definition spocp_conn_write :: "iobuf \<Rightarrow> int \<Rightarrow> (int \<times> iobuf) option" where
  "spocp_conn_write out n =
     (if 0 \<le> n then do {
        out' \<leftarrow> iobuf_shift (out\<lparr>io_r := io_r out + nat n, io_left := szsub (io_left out) (nat n)\<rparr>);
        Some (n, out') }
      else Some (n, out))"

subsection \<open>What reading and writing do to the content\<close>

lemma spocp_conn_read_appends:
  assumes wf: "wf_io io" and d: "length data = nat n" "nat n \<le> io_left io" and n: "0 < n"
  shows "\<exists>io'. spocp_conn_read io n data = Some (n, io') \<and> wf_io io' \<and>
    io_content io' = io_content io @ data"
  using io_append_ok [OF wf, of data] d n
  by (auto simp: spocp_conn_read_def io_append_def Option.bind_eq_Some_conv)

text \<open>A full input buffer takes no more: \<^verbatim>\<open>read\<close> is asked for 0 bytes and its answer 0 looks
  like the end of the connection.\<close>

lemma spocp_conn_read_full:
  assumes "wf_io io" "io_left io = 0" "length data = nat n" "nat n \<le> io_left io"
  shows "spocp_conn_read io n data = Some (n, io)"
  using assms by (simp add: spocp_conn_read_def)

lemma spocp_conn_write_all:
  assumes wf: "wf_io out"
  shows "\<exists>out'. spocp_conn_write out (int (length (io_content out))) =
      Some (int (length (io_content out)), out') \<and> wf_io out' \<and> io_content out' = [] \<and>
    io_r out' = 0 \<and> io_w out' = 0"
proof -
  define n where "n = io_w out - io_r out"
  define o1 where "o1 = out\<lparr>io_r := io_w out, io_left := szsub (io_left out) n\<rparr>"
  have le: "io_r out \<le> io_w out" "io_w out < length (io_buf out)" "length (io_buf out) = io_bsize out"
    "0 < io_bsize out" "io_bsize out < SPOCP_MAXBUF + SPOCP_IOBUFSIZE"
    using wf by (auto simp: wf_io_def)
  obtain r where r: "shift_skip (io_buf out) (io_w out) (io_w out) = Some r" "io_w out \<le> r"
    using shift_skip_dropWhile [of "io_w out" "io_buf out" "io_w out"] le by auto
  obtain b where b: "wr (io_buf out) 0 [NUL] = Some b" "length b = length (io_buf out)"
    using wr_ok [of 0 "[NUL]" "io_buf out"] le by auto
  have "iobuf_shift o1 = Some (o1\<lparr>io_p := 0, io_r := 0, io_w := 0,
      io_left := szsub (io_bsize out) 1, io_buf := b\<rparr>)"
    using r b by (simp add: iobuf_shift_def o1_def)
  moreover have "out\<lparr>io_r := io_r out + n, io_left := szsub (io_left out) n\<rparr> = o1"
    using le by (simp add: o1_def n_def)
  moreover have "length (io_content out) = n" using wf by (simp add: n_def)
  ultimately show ?thesis using wf b le
    by (auto simp: spocp_conn_write_def wf_io_def io_content_def io_sizes o1_def)
qed

text \<open>What goes out is a prefix of the data; it is all of it unless a write failed or a wait
  timed out. But after a time-out \<open>conn_writen\<close> still reports that everything was written.\<close>

lemma writen_loop_prefix: "writen_loop script s n = Some (r, out) \<Longrightarrow> \<exists>rest. s = out @ rest"
proof (induction script s n arbitrary: r out rule: writen_loop.induct)
  case (3 t script c s n)
  then show ?case
  proof (cases t)
    case (Wrote k)
    then obtain out' where o: "writen_loop script (drop k (c # s)) n = Some (r, out')"
      "out = take k (c # s) @ out'" using "3.prems" by (auto simp: Option.bind_eq_Some_conv)
    then obtain rest where "drop k (c # s) = out' @ rest" using "3.IH"(1) Wrote by blast
    then show ?thesis using o(2) by (metis append.assoc append_take_drop_id)
  qed auto
qed auto

lemma writen_loop_complete:
  "writen_loop script s n = Some (r, out) \<Longrightarrow> TimedOut \<notin> set script \<Longrightarrow> r \<noteq> - 1 \<Longrightarrow>
   r = int n \<and> out = s"
proof (induction script s n arbitrary: r out rule: writen_loop.induct)
  case (3 t script c s n)
  show ?case
  proof (cases t)
    case (Wrote k)
    then obtain out' where o: "writen_loop script (drop k (c # s)) n = Some (r, out')"
      "out = take k (c # s) @ out'" using "3.prems" by (auto simp: Option.bind_eq_Some_conv)
    then have "r = int n" "out' = drop k (c # s)" using "3.IH"(1) [OF Wrote o(1)] "3.prems" by auto
    then show ?thesis using o(2) by simp
  qed (use 3 in auto)
qed auto

lemma conn_writen_timeout:
  "fd \<noteq> 0 \<Longrightarrow> s \<noteq> [] \<Longrightarrow> conn_writen fd s (TimedOut # script) = Some (int (length s), [])"
  by (cases s) (auto simp: conn_writen_def)

text \<open>A connection object is used again for later clients. Resetting and setting it up for
  the next client keeps the transaction of the one before, with the operations it has
  queued, its authentication phase and the replies that wait.\<close>

lemma conn_reuse_keeps_transaction:
  assumes "wf_io (c_in c)" "wf_io (c_out c)"
  shows "\<exists>c1. conn_reset c = Some c1 \<and>
    (let c2 = conn_setup c1 root fd host ip
     in c_transaction c2 = c_transaction c \<and> c_ops c2 = c_ops c \<and> c_phase c2 = c_phase c \<and>
        c_head c2 = c_head c \<and> c_rs c2 = root)"
proof -
  obtain i where "iobuf_flush (c_in c) = Some i" using iobuf_flush_wf [OF assms(1)] by blast
  moreover obtain o1 where "iobuf_flush (c_out c) = Some o1" using iobuf_flush_wf [OF assms(2)] by blast
  ultimately show ?thesis
    by (auto simp: conn_reset_def conn_iobuf_clear_def conn_close_def conn_setup_def Let_def)
qed

end
