(* ===== verification/Reply.thy ===== *)
theory Reply
  imports Conn
begin

text \<open>
  The reply queue of a connection, \<open>server/reply.c\<close>. Requests of a connection are worked
  on by several threads and may finish in any order; the queue keeps one entry per request,
  in the order of the requests. An entry waits (it names its work item) until the worker
  hands over the buffer with the reply, and the finished entries at the front are copied to
  the output buffer of the connection. A work item is known by its address, so it is a
  parameter \<open>'w\<close> of the model. The functions that lock the queue are one step each;
  \<open>reply_add\<close> walks the queue without the lock, which is not modelled.

  \<open>reply_log\<close> is what the client is to see: one text per request, in the order of the
  requests. The main lemma says that whatever the interleaving of requests, completions and
  transfers, the output is the concatenation of a prefix of the log.
\<close>

record 'w reply =
  rp_wi :: "'w option"
  rp_buf :: "iobuf option"

definition reply_new :: "'w \<Rightarrow> 'w reply" where
  "reply_new wi = \<lparr>rp_wi = Some wi, rp_buf = None\<rparr>"

fun reply_push :: "'w reply list \<Rightarrow> 'w reply \<Rightarrow> 'w reply list" where
  "reply_push [] rep = [rep]"
| "reply_push (r # rs) rep = r # reply_push rs rep"

fun reply_pop :: "'w reply list \<Rightarrow> 'w reply option \<times> 'w reply list" where
  "reply_pop [] = (None, [])"
| "reply_pop (r # rs) = (Some r, rs)"

definition add_reply_queuer :: "'w reply list \<Rightarrow> 'w \<Rightarrow> 'w reply list" where
  "add_reply_queuer q wi = reply_push q (reply_new wi)"

text \<open>The first entry that waits for the work item gets its buffer; the flag says whether
  there was one.\<close>

fun reply_add :: "'w reply list \<Rightarrow> 'w \<Rightarrow> iobuf \<Rightarrow> bool \<times> 'w reply list" where
  "reply_add [] wi buf = (False, [])"
| "reply_add (rp # rps) wi buf =
     (if rp_wi rp = Some wi then (True, rp\<lparr>rp_buf := Some buf, rp_wi := None\<rparr> # rps)
      else let (f, rps') = reply_add rps wi buf in (f, rp # rps'))"

fun gather_replies :: "iobuf \<Rightarrow> 'w reply list \<Rightarrow> (nat \<times> iobuf \<times> 'w reply list) option" where
  "gather_replies out [] = Some (0, out, [])"
| "gather_replies out (rp # rps) = (case rp_buf rp of
      None \<Rightarrow> Some (0, out, rp # rps)
    | Some buf \<Rightarrow> do {
        (sr, out') \<leftarrow> iobuf_addn out (drop (io_r buf) (io_buf buf)) (io_w buf - io_r buf);
        (r, out'', rps') \<leftarrow> gather_replies out' rps;
        Some (Suc r, out'', rps') })"

subsection \<open>Gathering\<close>

definition reply_ok :: "iobuf \<Rightarrow> bool" where
  "reply_ok buf \<longleftrightarrow> wf_io buf \<and> (case io_content buf of [] \<Rightarrow> True | c # _ \<Rightarrow> c \<noteq> NUL)"

definition finished :: "'w reply list \<Rightarrow> iobuf list" where
  "finished q = map (the \<circ> rp_buf) (takeWhile (\<lambda>rp. rp_buf rp \<noteq> None) q)"

definition reply_src :: "iobuf \<Rightarrow> bytes \<times> nat" where
  "reply_src buf = (drop (io_r buf) (io_buf buf), io_w buf - io_r buf)"

lemma reply_src_content: "take (snd (reply_src buf)) (fst (reply_src buf)) = io_content buf"
  by (simp add: reply_src_def io_content_def drop_take)

lemma reply_src_ok:
  assumes "reply_ok buf"
  shows "addn_ok (reply_src buf)"
proof -
  have wf: "io_r buf \<le> io_w buf" "io_w buf < length (io_buf buf)" "io_w buf < 2 ^ 31"
    using assms wf_io_bounds [of buf] by (auto simp: reply_ok_def wf_io_def)
  have "io_buf buf ! io_r buf \<noteq> NUL" if "io_r buf < io_w buf"
  proof -
    have "io_content buf = io_buf buf ! io_r buf # drop (Suc (io_r buf)) (take (io_w buf) (io_buf buf))"
      using that wf by (simp add: io_content_def Cons_nth_drop_Suc [symmetric])
    then show ?thesis using assms by (simp add: reply_ok_def)
  qed
  then show ?thesis using wf by (auto simp: addn_ok_def reply_src_def)
qed

lemma reply_push_append [simp]: "reply_push q rep = q @ [rep]"
  by (induction q) auto

text \<open>Gathering is a sequence of puts of the finished buffers, so the laws of the byte
  queue apply.\<close>

lemma gather_replies_put_all:
  "gather_replies out q =
     map_option (\<lambda>out'. (length (finished q), out', dropWhile (\<lambda>rp. rp_buf rp \<noteq> None) q))
       (put_all addn_put out (map reply_src (finished q)))"
proof (induction out q rule: gather_replies.induct)
  case (2 out rp rps)
  show ?case
  proof (cases "rp_buf rp")
    case None
    then show ?thesis by (simp add: finished_def)
  next
    case (Some buf)
    then have f: "finished (rp # rps) = buf # finished rps" by (simp add: finished_def)
    show ?thesis
    proof (cases "addn_put out (reply_src buf)")
      case None
      then show ?thesis using Some f by (simp add: addn_put_def reply_src_def)
    next
      case (Some r)
      obtain sr out' where r: "r = (sr, out')" by force
      have a: "iobuf_addn out (drop (io_r buf) (io_buf buf)) (io_w buf - io_r buf) = Some (sr, out')"
        using Some r by (simp add: addn_put_def reply_src_def)
      have "gather_replies out' rps =
          map_option (\<lambda>out'. (length (finished rps), out', dropWhile (\<lambda>rp. rp_buf rp \<noteq> None) rps))
            (put_all addn_put out' (map reply_src (finished rps)))"
        using "2.IH" [OF \<open>rp_buf rp = Some buf\<close>, of "(sr, out')" sr out'] a by simp
      then show ?thesis using Some r f a \<open>rp_buf rp = Some buf\<close>
        by (cases "put_all addn_put out' (map reply_src (finished rps))") simp_all
    qed
  qed
qed (simp add: finished_def)

lemma gather_replies_ok:
  assumes "wf_io out" "\<forall>b\<in>set (finished q). reply_ok b"
    "io_fits out (length (concat (map io_content (finished q))))"
  shows "\<exists>out'. gather_replies out q =
      Some (length (finished q), out', dropWhile (\<lambda>rp. rp_buf rp \<noteq> None) q) \<and>
    wf_io out' \<and> io_content out' = io_content out @ concat (map io_content (finished q)) \<and>
    (\<forall>n. io_fits out (length (concat (map io_content (finished q))) + n) \<longrightarrow> io_fits out' n)"
proof -
  have m: "map (\<lambda>s. take (snd s) (fst s)) (map reply_src (finished q)) = map io_content (finished q)"
    by (simp add: reply_src_content)
  have "\<forall>s\<in>set (map reply_src (finished q)). addn_ok s" using assms(2) reply_src_ok by auto
  then obtain out' where "put_all addn_put out (map reply_src (finished q)) = Some out'" "wf_io out'"
    "io_content out' = io_content out @ concat (map io_content (finished q))"
    "\<forall>n. io_fits out (length (concat (map io_content (finished q))) + n) \<longrightarrow> io_fits out' n"
    using addn.put_all_fits [OF assms(1), of "map reply_src (finished q)"] assms(3) unfolding m by auto
  then show ?thesis by (simp add: gather_replies_put_all)
qed

subsection \<open>The order of the replies\<close>

datatype 'w rq_event = Request 'w | Complete 'w iobuf | Transfer | Write

text \<open>The queue, the output buffer of a connection and the bytes sent to the client, driven
  by the events. A write that succeeds writes the whole buffer.\<close>

type_synonym 'w rq_state = "'w reply list \<times> iobuf \<times> bytes"

fun rq_step :: "'w rq_event \<Rightarrow> 'w rq_state \<Rightarrow> 'w rq_state option" where
  "rq_step (Request w) (q, out, sent) = Some (add_reply_queuer q w, out, sent)"
| "rq_step (Complete w buf) (q, out, sent) = Some (snd (reply_add q w buf), out, sent)"
| "rq_step Transfer (q, out, sent) =
     do { (n, out', q') \<leftarrow> gather_replies out q; Some (q', out', sent) }"
| "rq_step Write (q, out, sent) = do {
     (n, out') \<leftarrow> spocp_conn_write out (int (length (io_content out)));
     Some (q, out', sent @ io_content out) }"

fun rq_run :: "'w rq_event list \<Rightarrow> 'w rq_state \<Rightarrow> 'w rq_state option" where
  "rq_run [] s = Some s"
| "rq_run (e # es) s = do { s' \<leftarrow> rq_step e s; rq_run es s' }"

text \<open>The specification: the requests in their order, each with its reply once there is
  one. A completion belongs to the request of its work item that has no reply yet.\<close>

type_synonym 'w rq_log = "('w \<times> bytes option) list"

fun log_reply :: "'w rq_log \<Rightarrow> 'w \<Rightarrow> bytes \<Rightarrow> 'w rq_log" where
  "log_reply [] w t = []"
| "log_reply ((v, r) # l) w t =
     (if v = w \<and> r = None then (v, Some t) # l else (v, r) # log_reply l w t)"

fun log_step :: "'w rq_log \<Rightarrow> 'w rq_event \<Rightarrow> 'w rq_log" where
  "log_step l (Request w) = l @ [(w, None)]"
| "log_step l (Complete w buf) = log_reply l w (io_content buf)"
| "log_step l Transfer = l"
| "log_step l Write = l"

text \<open>The buffers that workers hand over hold text.\<close>

fun event_ok :: "'w rq_event \<Rightarrow> bool" where
  "event_ok (Complete w buf) = reply_ok buf"
| "event_ok e = True"

definition log_text :: "'w rq_log \<Rightarrow> bytes" where
  "log_text l = concat (map (\<lambda>(w, r). case r of None \<Rightarrow> [] | Some t \<Rightarrow> t) l)"

definition answered :: "'w \<times> bytes option \<Rightarrow> bool" where
  "answered e \<longleftrightarrow> snd e \<noteq> None"

definition entry_rel :: "'w reply \<Rightarrow> 'w \<times> bytes option \<Rightarrow> bool" where
  "entry_rel rp e = (case snd e of
      None \<Rightarrow> rp_wi rp = Some (fst e) \<and> rp_buf rp = None
    | Some t \<Rightarrow> rp_wi rp = None \<and> (\<exists>b. rp_buf rp = Some b \<and> reply_ok b \<and> io_content b = t))"

text \<open>The simulation: the log splits into the replies that have left the queue and the
  entries of the queue; what was sent or waits in the buffer is the text of the former.\<close>

definition rq_rel :: "'w rq_log \<Rightarrow> 'w rq_log \<Rightarrow> 'w rq_state \<Rightarrow> bool" where
  "rq_rel l1 l2 s = (case s of (q, out, sent) \<Rightarrow>
     (\<forall>e\<in>set l1. answered e) \<and> list_all2 entry_rel q l2 \<and> wf_io out \<and>
     sent @ io_content out = log_text l1 \<and>
     (\<forall>n. length (io_content out) + n < SPOCP_MAXBUF \<longrightarrow> io_fits out n))"

lemma log_text_append [simp]: "log_text (l1 @ l2) = log_text l1 @ log_text l2"
  by (simp add: log_text_def)

lemma log_text_Nil [simp]: "log_text [] = []"
  by (simp add: log_text_def)

lemma log_reply_answered: "\<forall>e\<in>set l1. answered e \<Longrightarrow> log_reply (l1 @ l2) w t = l1 @ log_reply l2 w t"
  by (induction l1) (auto simp: answered_def)

lemma reply_add_rel:
  "list_all2 entry_rel q l \<Longrightarrow> reply_ok b \<Longrightarrow>
   list_all2 entry_rel (snd (reply_add q w b)) (log_reply l w (io_content b))"
proof (induction q l rule: list_all2_induct)
  case (Cons rp rps e l)
  obtain v r where e: "e = (v, r)" by force
  show ?case
  proof (cases "v = w \<and> r = None")
    case True
    then show ?thesis using Cons e by (auto simp: entry_rel_def)
  next
    case False
    then have "rp_wi rp \<noteq> Some w" using Cons e by (auto simp: entry_rel_def split: option.splits)
    then show ?thesis using Cons e False by (auto simp: split_def Let_def)
  qed
qed simp

lemma finished_rel:
  "list_all2 entry_rel q l \<Longrightarrow>
   (\<forall>b\<in>set (finished q). reply_ok b) \<and>
   concat (map io_content (finished q)) = log_text (takeWhile answered l) \<and>
   list_all2 entry_rel (dropWhile (\<lambda>rp. rp_buf rp \<noteq> None) q) (dropWhile answered l)"
proof (induction q l rule: list_all2_induct)
  case Nil
  then show ?case by (simp add: finished_def)
next
  case (Cons rp rps e l)
  then show ?case by (cases "snd e") (auto simp: entry_rel_def finished_def answered_def log_text_def
        split: prod.splits)
qed

lemma transfer_rel:
  assumes rel: "rq_rel l1 l2 (q, out, sent)" and fit: "length (log_text (l1 @ l2)) < SPOCP_MAXBUF"
  shows "\<exists>s'. rq_step Transfer (q, out, sent) = Some s' \<and>
    rq_rel (l1 @ takeWhile answered l2) (dropWhile answered l2) s'"
proof -
  define t where "t = log_text (takeWhile answered l2)"
  have r: "list_all2 entry_rel q l2" "wf_io out" "sent @ io_content out = log_text l1"
    "\<forall>n. length (io_content out) + n < SPOCP_MAXBUF \<longrightarrow> io_fits out n" "\<forall>e\<in>set l1. answered e"
    using rel by (auto simp: rq_rel_def)
  have f: "\<forall>b\<in>set (finished q). reply_ok b" "concat (map io_content (finished q)) = t"
    "list_all2 entry_rel (dropWhile (\<lambda>rp. rp_buf rp \<noteq> None) q) (dropWhile answered l2)"
    using finished_rel [OF r(1)] by (auto simp: t_def)
  have "length (log_text l1) = length sent + length (io_content out)"
    by (metis r(3) length_append)
  moreover have "length (log_text l2) = length t + length (log_text (dropWhile answered l2))"
    by (metis length_append log_text_append t_def takeWhile_dropWhile_id)
  ultimately have "io_fits out (length t)" using r(4) fit by simp
  then obtain out' where g: "gather_replies out q =
      Some (length (finished q), out', dropWhile (\<lambda>rp. rp_buf rp \<noteq> None) q)" "wf_io out'"
    "io_content out' = io_content out @ t" "\<forall>n. io_fits out (length t + n) \<longrightarrow> io_fits out' n"
    using gather_replies_ok [OF r(2) f(1)] f(2) by auto
  have "\<forall>e\<in>set (takeWhile answered l2). answered e" by (auto dest: set_takeWhileD)
  then have "rq_rel (l1 @ takeWhile answered l2) (dropWhile answered l2)
      (dropWhile (\<lambda>rp. rp_buf rp \<noteq> None) q, out', sent)"
    using r f(3) g by (auto simp: rq_rel_def t_def [symmetric] add.assoc)
  then show ?thesis using g(1) by simp
qed

lemma rq_step_rel:
  assumes rel: "rq_rel l1 l2 s" and ok: "event_ok e"
    and fit: "length (log_text (l1 @ l2)) < SPOCP_MAXBUF"
  shows "\<exists>s' l1' l2'. rq_step e s = Some s' \<and> rq_rel l1' l2' s' \<and> log_step (l1 @ l2) e = l1' @ l2'"
proof -
  obtain q out sent where s: "s = (q, out, sent)" by (metis prod_cases3)
  show ?thesis
  proof (cases e)
    case (Request w)
    then have "rq_rel l1 (l2 @ [(w, None)]) (add_reply_queuer q w, out, sent)"
      using rel s by (auto simp: rq_rel_def add_reply_queuer_def reply_new_def entry_rel_def
          intro: list_all2_appendI)
    then show ?thesis using Request s by (intro exI conjI) (assumption | simp)+
  next
    case (Complete w b)
    then have "rq_rel l1 (log_reply l2 w (io_content b)) (snd (reply_add q w b), out, sent)"
      using rel s ok reply_add_rel by (auto simp: rq_rel_def)
    moreover have "log_step (l1 @ l2) e = l1 @ log_reply l2 w (io_content b)"
      using Complete rel s log_reply_answered by (auto simp: rq_rel_def)
    ultimately show ?thesis using Complete s by (intro exI conjI) (assumption | simp)+
  next
    case Transfer
    then show ?thesis using transfer_rel [of l1 l2 q out sent] rel fit s
      by (metis append.assoc log_step.simps(3) takeWhile_dropWhile_id)
  next
    case Write
    have wf: "wf_io out" using rel s by (simp add: rq_rel_def)
    obtain out' where w: "spocp_conn_write out (int (length (io_content out))) =
        Some (int (length (io_content out)), out')" "wf_io out'" "io_content out' = []" "io_w out' = 0"
      using spocp_conn_write_all [OF wf] by blast
    then have "rq_rel l1 l2 (q, out', sent @ io_content out)"
      using rel s by (auto simp: rq_rel_def io_fits_def)
    then show ?thesis using Write s w(1) by (intro exI conjI) (assumption | simp)+
  qed
qed

lemma log_text_mono_step: "length (log_text l) \<le> length (log_text (log_step l e))"
proof -
  have "length (log_text l) \<le> length (log_text (log_reply l w t))" for w t
    by (induction l w t rule: log_reply.induct) (auto simp: log_text_def)
  then show ?thesis by (cases e) auto
qed

lemma log_text_mono: "length (log_text l) \<le> length (log_text (foldl log_step l es))"
  by (induction es arbitrary: l) (auto intro: le_trans log_text_mono_step)

lemma rq_run_rel:
  assumes "rq_rel l1 l2 s" "\<forall>e\<in>set es. event_ok e"
    "length (log_text (foldl log_step (l1 @ l2) es)) < SPOCP_MAXBUF"
  shows "\<exists>s' l1' l2'. rq_run es s = Some s' \<and> rq_rel l1' l2' s' \<and>
    foldl log_step (l1 @ l2) es = l1' @ l2'"
  using assms
proof (induction es arbitrary: l1 l2 s)
  case (Cons e es)
  have "length (log_text (l1 @ l2)) < SPOCP_MAXBUF"
    using Cons.prems(3) log_text_mono [of "l1 @ l2" "e # es"] by simp
  then obtain s' l1' l2' where st: "rq_step e s = Some s'" "rq_rel l1' l2' s'"
    "log_step (l1 @ l2) e = l1' @ l2'" using rq_step_rel [of l1 l2 s e] Cons.prems by auto
  then show ?case using Cons.IH [of l1' l2' s'] Cons.prems by auto
qed auto

text \<open>C23: Replies reach the client in the order of the requests. Take any sequence of
  requests, completions in whatever order the worker threads finish, transfers from the reply
  queue to the output buffer and writes of that buffer, on a new connection. If the replies
  together are smaller than the limit of a buffer, the run succeeds, and what has been sent
  or waits in the output buffer is the concatenation of the replies to the first requests, all
  of them answered; the remaining requests are the entries of the queue, in order.\<close>

theorem reply_order:
  assumes "\<forall>e\<in>set es. event_ok e"
    "length (log_text (foldl log_step [] es)) < SPOCP_MAXBUF" "iobuf_new SPOCP_IOBUFSIZE = Some out0"
  shows "\<exists>q out sent k. rq_run es ([], out0, []) = Some (q, out, sent) \<and>
    sent @ io_content out = log_text (take k (foldl log_step [] es)) \<and>
    (\<forall>e\<in>set (take k (foldl log_step [] es)). answered e) \<and>
    list_all2 entry_rel q (drop k (foldl log_step [] es))"
proof -
  have "rq_rel [] [] ([], out0, [])"
    using assms(3) iobuf_new_wf [of SPOCP_IOBUFSIZE]
    by (auto simp: rq_rel_def io_sizes io_fits_def iobuf_new_def wr_Some)
  then obtain s' l1 l2 where s': "rq_run es ([], out0, []) = Some s'" "rq_rel l1 l2 s'"
    "foldl log_step [] es = l1 @ l2"
    using rq_run_rel [of "[]" "[]" "([], out0, [])" es, unfolded append_Nil] assms by blast
  obtain q out sent where s: "s' = (q, out, sent)" by (metis prod_cases3)
  have "rq_run es ([], out0, []) = Some (q, out, sent) \<and>
    sent @ io_content out = log_text (take (length l1) (l1 @ l2)) \<and>
    (\<forall>e\<in>set (take (length l1) (l1 @ l2)). answered e) \<and> list_all2 entry_rel q (drop (length l1) (l1 @ l2))"
    using s' s by (simp add: rq_rel_def)
  then show ?thesis unfolding s'(3) by blast
qed

definition small_buf :: "bytes \<Rightarrow> iobuf" where
  "small_buf s = \<lparr>io_buf = s @ [NUL], io_r = 0, io_w = length s, io_p = 0, io_end = Suc (length s),
     io_bsize = Suc (length s), io_left = 0\<rparr>"

lemma small_buf_ok [simp]: "length s < 100 \<Longrightarrow> NUL \<notin> set s \<Longrightarrow> reply_ok (small_buf s)"
  by (auto simp: reply_ok_def wf_io_def small_buf_def io_content_def io_sizes split: list.splits)

lemma small_buf_content [simp]: "io_content (small_buf s) = s"
  by (simp add: small_buf_def io_content_def)

theorem reply_order_witness:
  "\<exists>out0 q out sent k. iobuf_new SPOCP_IOBUFSIZE = Some out0 \<and>
    rq_run [Request 0, Request (1::nat), Complete 1 (small_buf ''two''), Transfer,
      Complete 0 (small_buf ''one''), Transfer, Write] ([], out0, []) = Some (q, out, sent) \<and>
    sent @ io_content out = log_text (take k [(0::nat, Some ''one''), (1, Some ''two'')])"
proof -
  define es where "es = [Request 0, Request (1::nat), Complete 1 (small_buf ''two''), Transfer,
      Complete 0 (small_buf ''one''), Transfer, Write]"
  have l: "foldl log_step [] es = [(0, Some ''one''), (1, Some ''two'')]" by (simp add: es_def)
  have ok: "\<forall>e\<in>set es. event_ok e" by (simp add: es_def)
  have sz: "length (log_text (foldl log_step [] es)) < SPOCP_MAXBUF"
    unfolding l by (simp add: log_text_def io_sizes)
  obtain out0 where o0: "iobuf_new SPOCP_IOBUFSIZE = Some out0"
    using iobuf_new_wf [of SPOCP_IOBUFSIZE] by (auto simp: io_sizes)
  show ?thesis using reply_order [OF ok sz o0] o0 unfolding l unfolding es_def by blast
qed

end
