(* ===== verification/Pool.thy ===== *)
theory Pool
  imports Spocp_Base
begin

text \<open>
  The pools of \<open>server/pool.c\<close>: doubly linked lists of items that move between a pool of
  active and a pool of free items. The server keeps its connections and its work items in
  such pairs. The items are records in a store, and the links are addresses, because the
  operations change the links of neighbouring items and one of them is called on items that
  are not in the list. Following a null or dangling link is \<open>None\<close>. The two pools of a pair
  share the store; both are allocated together, so the code's tests for null pools always
  pass and are left out. The locks make each operation one step.

  \<open>pool_ok\<close> relates a pool to the list of its items. The lemmas show that adding puts an
  item at the end, that popping takes the last one (a pool is a stack), that removal takes
  an item out from anywhere, and that nothing else in the store changes.
\<close>

type_synonym addr = nat

record 'a pool_item =
  pi_prev :: "addr option"
  pi_next :: "addr option"
  pi_info :: 'a

type_synonym 'a store = "addr \<rightharpoonup> 'a pool_item"

record pool =
  p_size :: int
  p_head :: "addr option"
  p_tail :: "addr option"

subsection \<open>Links\<close>

definition set_next :: "'a store \<Rightarrow> addr option \<Rightarrow> addr option \<Rightarrow> 'a store option" where
  "set_next h p v = do { a \<leftarrow> p; it \<leftarrow> h a; Some (h(a \<mapsto> it\<lparr>pi_next := v\<rparr>)) }"

definition set_prev :: "'a store \<Rightarrow> addr option \<Rightarrow> addr option \<Rightarrow> 'a store option" where
  "set_prev h p v = do { a \<leftarrow> p; it \<leftarrow> h a; Some (h(a \<mapsto> it\<lparr>pi_prev := v\<rparr>)) }"

definition get_next :: "'a store \<Rightarrow> addr option \<Rightarrow> addr option option" where
  "get_next h p = do { a \<leftarrow> p; it \<leftarrow> h a; Some (pi_next it) }"

definition get_prev :: "'a store \<Rightarrow> addr option \<Rightarrow> addr option option" where
  "get_prev h p = do { a \<leftarrow> p; it \<leftarrow> h a; Some (pi_prev it) }"

subsection \<open>The operations on one pool\<close>

definition pool_new :: pool where
  "pool_new = \<lparr>p_size = 0, p_head = None, p_tail = None\<rparr>"

definition pool_pop :: "'a store \<Rightarrow> pool \<Rightarrow> ('a store \<times> pool \<times> addr option) option" where
  "pool_pop h p =
     (if p_size p = 0 then Some (h, p, None)
      else do {
        let item = p_tail p;
        (h1, p1) \<leftarrow> (if item \<noteq> p_head p then do {
             pr \<leftarrow> get_prev h item;
             nx \<leftarrow> get_next h item;
             h' \<leftarrow> set_next h pr nx;
             Some (h', p\<lparr>p_tail := pr\<rparr>) }
           else Some (h, p\<lparr>p_head := None, p_tail := None\<rparr>));
        h2 \<leftarrow> (if item \<noteq> None then do { h' \<leftarrow> set_prev h1 item None; set_next h' item None }
               else Some h1);
        Some (h2, p1\<lparr>p_size := p_size p1 - 1\<rparr>, item) })"

definition pool_rm_item :: "'a store \<Rightarrow> pool \<Rightarrow> addr \<Rightarrow> ('a store \<times> pool) option" where
  "pool_rm_item h p item = do {
     (h1, p1) \<leftarrow>
       (if p_head p = Some item then
          (if p_head p = p_tail p then Some (h, p\<lparr>p_head := None, p_tail := None\<rparr>)
           else do {
             nx \<leftarrow> get_next h (Some item);
             h' \<leftarrow> set_prev h nx None;
             Some (h', p\<lparr>p_head := nx\<rparr>) })
        else if p_tail p = Some item then do {
          pr \<leftarrow> get_prev h (Some item);
          h' \<leftarrow> set_next h pr None;
          Some (h', p\<lparr>p_tail := pr\<rparr>) }
        else do {
          pr \<leftarrow> get_prev h (Some item);
          nx \<leftarrow> get_next h (Some item);
          h' \<leftarrow> (if pr \<noteq> None then set_next h pr nx else Some h);
          h'' \<leftarrow> (if nx \<noteq> None then set_prev h' nx pr else Some h');
          Some (h'', p) });
     h2 \<leftarrow> set_next h1 (Some item) None;
     h3 \<leftarrow> set_prev h2 (Some item) None;
     Some (h3, p1\<lparr>p_size := p_size p1 - 1\<rparr>) }"

definition pool_add :: "'a store \<Rightarrow> pool \<Rightarrow> addr \<Rightarrow> ('a store \<times> pool) option" where
  "pool_add h p item =
     (if p_size p = 0 then do {
        h1 \<leftarrow> set_prev h (Some item) None;
        h2 \<leftarrow> set_next h1 (Some item) None;
        Some (h2, p\<lparr>p_head := Some item, p_tail := Some item, p_size := p_size p + 1\<rparr>) }
      else do {
        h1 \<leftarrow> set_next h (p_tail p) (Some item);
        h2 \<leftarrow> set_prev h1 (Some item) (p_tail p);
        h3 \<leftarrow> set_next h2 (Some item) None;
        Some (h3, p\<lparr>p_tail := Some item, p_size := p_size p + 1\<rparr>) })"

partial_function (option) pool_count :: "'a store \<Rightarrow> addr option \<Rightarrow> nat option" where
  [code]: "pool_count h p = (case p of
      None \<Rightarrow> Some 0
    | Some a \<Rightarrow> do { nx \<leftarrow> get_next h (Some a); n \<leftarrow> pool_count h nx; Some (Suc n) })"

definition pool_size :: "'a store \<Rightarrow> pool \<Rightarrow> nat option" where
  "pool_size h p = (if p_head p = None then Some 0 else pool_count h (p_head p))"

subsection \<open>A pair of pools\<close>

record 'a afpool =
  af_store :: "'a store"
  af_active :: pool
  af_free :: pool

definition afpool_new :: "'a store \<Rightarrow> 'a afpool" where
  "afpool_new h = \<lparr>af_store = h, af_active = pool_new, af_free = pool_new\<rparr>"

definition afpool_free_item :: "'a afpool \<Rightarrow> bool" where
  "afpool_free_item af \<longleftrightarrow> p_size (af_free af) \<noteq> 0"

definition afpool_active_item :: "'a afpool \<Rightarrow> bool" where
  "afpool_active_item af \<longleftrightarrow> p_size (af_active af) \<noteq> 0"

definition item_return :: "'a afpool \<Rightarrow> addr \<Rightarrow> 'a afpool option" where
  "item_return af item = do {
     (h1, a) \<leftarrow> pool_rm_item (af_store af) (af_active af) item;
     (h2, f) \<leftarrow> pool_add h1 (af_free af) item;
     Some (af\<lparr>af_store := h2, af_active := a, af_free := f\<rparr>) }"

definition afpool_push_item :: "'a afpool \<Rightarrow> addr \<Rightarrow> 'a afpool option" where
  "afpool_push_item af item = do {
     (h, a) \<leftarrow> pool_add (af_store af) (af_active af) item;
     Some (af\<lparr>af_store := h, af_active := a\<rparr>) }"

definition afpool_push_empty :: "'a afpool \<Rightarrow> addr \<Rightarrow> 'a afpool option" where
  "afpool_push_empty af item = do {
     (h, f) \<leftarrow> pool_add (af_store af) (af_free af) item;
     Some (af\<lparr>af_store := h, af_free := f\<rparr>) }"

definition afpool_get_item :: "'a afpool \<Rightarrow> ('a afpool \<times> addr option) option" where
  "afpool_get_item af =
     (if p_size (af_active af) \<noteq> 0 then do {
        (h, a, pi) \<leftarrow> pool_pop (af_store af) (af_active af);
        Some (af\<lparr>af_store := h, af_active := a\<rparr>, pi) }
      else Some (af, None))"

definition afpool_get_empty :: "'a afpool \<Rightarrow> ('a afpool \<times> addr option) option" where
  "afpool_get_empty af =
     (if p_size (af_free af) \<noteq> 0 then do {
        (h, f, pi) \<leftarrow> pool_pop (af_store af) (af_free af);
        Some (af\<lparr>af_store := h, af_free := f\<rparr>, pi) }
      else Some (af, None))"

definition afpool_first :: "'a afpool \<Rightarrow> addr option" where
  "afpool_first af = p_head (af_active af)"

definition number_of_active :: "'a afpool \<Rightarrow> nat option" where
  "number_of_active af = pool_size (af_store af) (af_active af)"

definition number_of_free :: "'a afpool \<Rightarrow> nat option" where
  "number_of_free af = pool_size (af_store af) (af_free af)"

subsection \<open>A pool as a list of items\<close>

fun first_or :: "addr list \<Rightarrow> addr option \<Rightarrow> addr option" where
  "first_or [] d = d"
| "first_or (x # xs) d = Some x"

fun last_or :: "addr option \<Rightarrow> addr list \<Rightarrow> addr option" where
  "last_or d [] = d"
| "last_or d (x # xs) = last_or (Some x) xs"

fun dseg :: "'a store \<Rightarrow> addr option \<Rightarrow> addr list \<Rightarrow> addr option \<Rightarrow> bool" where
  "dseg h pr [] nx = True"
| "dseg h pr (x # xs) nx = (\<exists>it. h x = Some it \<and> pi_prev it = pr \<and>
     pi_next it = first_or xs nx \<and> dseg h (Some x) xs nx)"

definition pool_ok :: "'a store \<Rightarrow> pool \<Rightarrow> addr list \<Rightarrow> bool" where
  "pool_ok h p xs \<longleftrightarrow> distinct xs \<and> dseg h None xs None \<and> p_size p = int (length xs) \<and>
     p_head p = first_or xs None \<and> p_tail p = last_or None xs"

lemma first_or_append [simp]: "first_or (xs @ ys) d = first_or xs (first_or ys d)"
  by (cases xs) auto

lemma last_or_append [simp]: "last_or d (xs @ ys) = last_or (last_or d xs) ys"
  by (induction xs arbitrary: d) auto

lemma dseg_append: "dseg h pr (xs @ ys) nx \<longleftrightarrow> dseg h pr xs (first_or ys nx) \<and> dseg h (last_or pr xs) ys nx"
  by (induction xs arbitrary: pr) auto

lemma dseg_upd [simp]: "a \<notin> set xs \<Longrightarrow> dseg (h(a \<mapsto> it)) pr xs nx = dseg h pr xs nx"
  by (induction xs arbitrary: pr) auto

lemma dseg_frame: "(\<And>b. b \<in> set xs \<Longrightarrow> h' b = h b) \<Longrightarrow> dseg h' pr xs nx = dseg h pr xs nx"
  by (induction xs arbitrary: pr) auto

lemma last_or_Some: "xs \<noteq> [] \<Longrightarrow> last_or d xs = Some (last xs)"
  by (induction xs arbitrary: d) auto

lemma last_or_notin: "a \<notin> set xs \<Longrightarrow> d \<noteq> Some a \<Longrightarrow> last_or d xs \<noteq> Some a"
  by (induction xs arbitrary: d) auto

lemma first_or_Some: "xs \<noteq> [] \<Longrightarrow> first_or xs d = Some (hd xs)"
  by (cases xs) auto

lemma pool_ok_frame: "pool_ok h p xs \<Longrightarrow> (\<And>b. b \<in> set xs \<Longrightarrow> h' b = h b) \<Longrightarrow> pool_ok h' p xs"
  using dseg_frame [of xs h' h None None] by (auto simp: pool_ok_def)

lemma pool_new_ok [simp]: "pool_ok h pool_new []"
  by (simp add: pool_ok_def pool_new_def)

text \<open>The links of the store are the only thing that changes: the items and what they
  carry stay.\<close>

definition same_items :: "'a store \<Rightarrow> 'a store \<Rightarrow> bool" where
  "same_items h h' \<longleftrightarrow> (\<forall>a. map_option pi_info (h' a) = map_option pi_info (h a))"

lemma same_items_refl [simp]: "same_items h h"
  by (simp add: same_items_def)

lemma same_items_trans: "same_items h h' \<Longrightarrow> same_items h' h'' \<Longrightarrow> same_items h h''"
  by (simp add: same_items_def)

lemma same_items_dom:
  assumes "same_items h h'"
  shows "dom h' = dom h"
proof -
  have "h' a = None \<longleftrightarrow> h a = None" for a
    using assms by (metis option.map_disc_iff same_items_def)
  then show ?thesis by (auto simp: dom_def)
qed

lemma same_items_upd: "h a = Some it \<Longrightarrow> pi_info it' = pi_info it \<Longrightarrow> same_items h (h(a \<mapsto> it'))"
  by (simp add: same_items_def)

lemmas link_defs = set_next_def set_prev_def get_next_def get_prev_def

definition only_changes :: "'a store \<Rightarrow> 'a store \<Rightarrow> addr set \<Rightarrow> bool" where
  "only_changes h h' A \<longleftrightarrow> same_items h h' \<and> (\<forall>b. b \<notin> A \<longrightarrow> h' b = h b)"

lemma pool_add_ok:
  assumes ok: "pool_ok h p xs" and a: "a \<in> dom h" "a \<notin> set xs"
  shows "\<exists>h' p'. pool_add h p a = Some (h', p') \<and> pool_ok h' p' (xs @ [a]) \<and>
    only_changes h h' (insert a (set xs))"
proof -
  obtain it where it: "h a = Some it" using a(1) by auto
  show ?thesis
  proof (cases xs rule: rev_cases)
    case Nil
    then show ?thesis using ok it
      by (auto simp: pool_add_def pool_ok_def link_defs only_changes_def same_items_def)
  next
    case (snoc ys t)
    obtain tt where tt: "h t = Some tt" "pi_next tt = None" "pi_prev tt = last_or None ys"
      using ok snoc by (auto simp: pool_ok_def dseg_append)
    define h' where "h' = h(t \<mapsto> tt\<lparr>pi_next := Some a\<rparr>, a \<mapsto> it\<lparr>pi_prev := Some t, pi_next := None\<rparr>)"
    define p' where "p' = p\<lparr>p_tail := Some a, p_size := p_size p + 1\<rparr>"
    have ne: "a \<noteq> t" "t \<notin> set ys" "a \<notin> set ys" using a(2) ok snoc by (auto simp: pool_ok_def)
    have add: "pool_add h p a = Some (h', p')"
      using ok snoc it tt ne by (auto simp: pool_add_def pool_ok_def link_defs h'_def p'_def)
    have "pool_ok h' p' (xs @ [a])"
      using ok snoc it tt ne by (auto simp: pool_ok_def h'_def p'_def dseg_append)
    moreover have "only_changes h h' (insert a (set xs))"
      using it tt ne snoc by (auto simp: only_changes_def same_items_def h'_def)
    ultimately show ?thesis using add by blast
  qed
qed

lemma pool_pop_ok:
  assumes ok: "pool_ok h p (xs @ [a])"
  shows "\<exists>h' p'. pool_pop h p = Some (h', p', Some a) \<and> pool_ok h' p' xs \<and>
    only_changes h h' (insert a (set xs))"
proof (cases xs rule: rev_cases)
  case Nil
  then show ?thesis using ok
    by (auto simp: pool_pop_def pool_ok_def link_defs only_changes_def same_items_def)
next
  case (snoc ys t)
  obtain tt where tt: "h t = Some tt" "pi_next tt = Some a" "pi_prev tt = last_or None ys"
    using ok snoc by (auto simp: pool_ok_def dseg_append)
  obtain it where it: "h a = Some it" "pi_next it = None" "pi_prev it = Some t"
    using ok snoc by (auto simp: pool_ok_def dseg_append)
  have ne: "a \<noteq> t" "t \<notin> set ys" "a \<notin> set ys" using ok snoc by (auto simp: pool_ok_def)
  have hd: "p_head p \<noteq> Some a" using ok snoc ne by (cases ys) (auto simp: pool_ok_def)
  define h' where "h' = h(t \<mapsto> tt\<lparr>pi_next := None\<rparr>, a \<mapsto> it\<lparr>pi_prev := None, pi_next := None\<rparr>)"
  define p' where "p' = p\<lparr>p_tail := Some t, p_size := p_size p - 1\<rparr>"
  have pop: "pool_pop h p = Some (h', p', Some a)"
    using ok snoc it tt ne hd by (auto simp: pool_pop_def pool_ok_def link_defs h'_def p'_def)
  have "pool_ok h' p' xs"
    using ok snoc it tt ne by (auto simp: pool_ok_def h'_def p'_def dseg_append)
  moreover have "only_changes h h' (insert a (set xs))"
    using it tt ne snoc by (auto simp: only_changes_def same_items_def h'_def)
  ultimately show ?thesis using pop by blast
qed

lemma dseg_member: "dseg h pr xs nx \<Longrightarrow> a \<in> set xs \<Longrightarrow> a \<in> dom h"
  by (induction xs arbitrary: pr) auto

text \<open>Removal, by the position of the item: alone, first, last or in between.\<close>

lemma pool_rm_single:
  assumes "pool_ok h p [a]"
  shows "\<exists>h' p'. pool_rm_item h p a = Some (h', p') \<and> pool_ok h' p' [] \<and> only_changes h h' {a}"
  using assms by (auto simp: pool_rm_item_def pool_ok_def link_defs only_changes_def same_items_def)

lemma pool_rm_first:
  assumes ok: "pool_ok h p (a # y # ys)"
  shows "\<exists>h' p'. pool_rm_item h p a = Some (h', p') \<and> pool_ok h' p' (y # ys) \<and>
    only_changes h h' (insert a (set (y # ys)))"
proof -
  obtain it iy where it: "h a = Some it" "pi_next it = Some y" "h y = Some iy" "a \<noteq> y"
    "y \<notin> set ys" "a \<notin> set ys" "pi_next iy = first_or ys None" "dseg h (Some y) ys None"
    using ok by (auto simp: pool_ok_def)
  have tl: "p_tail p \<noteq> Some a" "p_head p = Some a"
    using ok it last_or_notin [of a ys "Some y"] by (simp_all add: pool_ok_def)
  define h' where "h' = h(y \<mapsto> iy\<lparr>pi_prev := None\<rparr>, a \<mapsto> it\<lparr>pi_next := None, pi_prev := None\<rparr>)"
  define p' where "p' = p\<lparr>p_head := Some y, p_size := p_size p - 1\<rparr>"
  have "pool_rm_item h p a = Some (h', p')"
    using it tl by (auto simp: pool_rm_item_def link_defs h'_def p'_def)
  moreover have "pool_ok h' p' (y # ys)" using ok it by (auto simp: pool_ok_def h'_def p'_def)
  moreover have "only_changes h h' (insert a (set (y # ys)))"
    using it by (auto simp: only_changes_def same_items_def h'_def)
  ultimately show ?thesis by blast
qed

lemma pool_rm_inner:
  assumes ok: "pool_ok h p (xs @ [b] @ [a] @ ys)"
  shows "\<exists>h' p'. pool_rm_item h p a = Some (h', p') \<and> pool_ok h' p' (xs @ [b] @ ys) \<and>
    only_changes h h' (insert a (set (xs @ [b] @ ys)))"
proof -
  obtain it ib where it: "h a = Some it" "pi_prev it = Some b" "pi_next it = first_or ys None"
    "h b = Some ib" "pi_next ib = Some a" "pi_prev ib = last_or None xs"
    using ok by (auto simp: pool_ok_def dseg_append)
  have ne: "a \<noteq> b" "a \<notin> set xs" "b \<notin> set xs" "a \<notin> set ys" "b \<notin> set ys" "set xs \<inter> set ys = {}"
    using ok by (auto simp: pool_ok_def)
  have hd: "p_head p \<noteq> Some a" using ok ne by (cases xs) (auto simp: pool_ok_def)
  show ?thesis
  proof (cases ys)
    case Nil
    define h' where "h' = h(b \<mapsto> ib\<lparr>pi_next := None\<rparr>, a \<mapsto> it\<lparr>pi_next := None, pi_prev := None\<rparr>)"
    define p' where "p' = p\<lparr>p_tail := Some b, p_size := p_size p - 1\<rparr>"
    have "p_tail p = Some a" using ok Nil by (auto simp: pool_ok_def)
    then have "pool_rm_item h p a = Some (h', p')"
      using it ne hd by (auto simp: pool_rm_item_def link_defs h'_def p'_def)
    moreover have "pool_ok h' p' (xs @ [b] @ ys)"
      using ok it ne Nil by (auto simp: pool_ok_def h'_def p'_def dseg_append)
    moreover have "only_changes h h' (insert a (set (xs @ [b] @ ys)))"
      using it ne by (auto simp: only_changes_def same_items_def h'_def)
    ultimately show ?thesis by blast
  next
    case (Cons c zs)
    obtain ic where ic: "h c = Some ic" "a \<noteq> c" "b \<noteq> c" "c \<notin> set xs" "c \<notin> set zs"
      "pi_next ic = first_or zs None" "dseg h (Some c) zs None"
      using ok ne Cons by (auto simp: pool_ok_def dseg_append)
    have tl: "p_tail p \<noteq> Some a"
      using ok ne Cons last_or_notin [of a zs "Some c"] by (simp add: pool_ok_def)
    define h' where "h' = h(b \<mapsto> ib\<lparr>pi_next := Some c\<rparr>, c \<mapsto> ic\<lparr>pi_prev := Some b\<rparr>,
       a \<mapsto> it\<lparr>pi_next := None, pi_prev := None\<rparr>)"
    define p' where "p' = p\<lparr>p_size := p_size p - 1\<rparr>"
    have "pool_rm_item h p a = Some (h', p')"
      using it ne(1) ic(1,2,3) hd tl by (simp add: pool_rm_item_def link_defs h'_def p'_def Cons)
    moreover have "pool_ok h' p' (xs @ [b] @ ys)"
      using ok it ne ic Cons by (auto simp: pool_ok_def h'_def p'_def dseg_append)
    moreover have "only_changes h h' (insert a (set (xs @ [b] @ ys)))"
      using it ne ic Cons by (auto simp: only_changes_def same_items_def h'_def)
    ultimately show ?thesis by blast
  qed
qed

lemma pool_rm_item_ok:
  assumes ok: "pool_ok h p xs" and a: "a \<in> set xs"
  shows "\<exists>h' p'. pool_rm_item h p a = Some (h', p') \<and> pool_ok h' p' (remove1 a xs) \<and>
    only_changes h h' (set xs)"
proof -
  obtain us vs where xs: "xs = us @ a # vs" "a \<notin> set us" using a by (meson split_list_first)
  have rm: "remove1 a xs = us @ vs" using xs by (simp add: remove1_append)
  show ?thesis
  proof (cases us rule: rev_cases)
    case Nil
    then show ?thesis using ok xs rm pool_rm_single pool_rm_first by (cases vs) force+
  next
    case (snoc ys b)
    then show ?thesis using ok xs rm pool_rm_inner [of h p ys b a vs] by (simp add: insert_commute)
  qed
qed

lemma pool_count_dseg: "dseg h pr xs None \<Longrightarrow> pool_count h (first_or xs None) = Some (length xs)"
proof (induction xs arbitrary: pr)
  case Nil
  then show ?case by (subst pool_count.simps) simp
next
  case (Cons x xs)
  then obtain it where "h x = Some it" "pi_next it = first_or xs None" "dseg h (Some x) xs None" by auto
  with Cons.IH show ?case by (subst first_or.simps, subst pool_count.simps) (simp add: get_next_def)
qed

lemma pool_size_ok: "pool_ok h p xs \<Longrightarrow> pool_size h p = Some (length xs)"
  using pool_count_dseg [of h None xs] by (cases xs) (auto simp: pool_ok_def pool_size_def)

subsection \<open>The interface of a pool\<close>

text \<open>What a pair of pools over one store relies on: the three operations do to the list of
  a pool what their names say, and leave every item outside alone.\<close>

locale item_pool =
  fixes rep :: "'s \<Rightarrow> 'p \<Rightarrow> addr list \<Rightarrow> bool" and view :: "'s \<Rightarrow> addr \<rightharpoonup> 'i"
    and keeps :: "'s \<Rightarrow> 's \<Rightarrow> addr set \<Rightarrow> bool"
    and add :: "'s \<Rightarrow> 'p \<Rightarrow> addr \<Rightarrow> ('s \<times> 'p) option"
    and pop :: "'s \<Rightarrow> 'p \<Rightarrow> ('s \<times> 'p \<times> addr option) option"
    and rm :: "'s \<Rightarrow> 'p \<Rightarrow> addr \<Rightarrow> ('s \<times> 'p) option"
  assumes add_law: "rep h p xs \<Longrightarrow> a \<in> dom (view h) \<Longrightarrow> a \<notin> set xs \<Longrightarrow>
      \<exists>h' p'. add h p a = Some (h', p') \<and> rep h' p' (xs @ [a]) \<and> keeps h h' (insert a (set xs))"
    and pop_law: "rep h p (xs @ [a]) \<Longrightarrow>
      \<exists>h' p'. pop h p = Some (h', p', Some a) \<and> rep h' p' xs \<and> keeps h h' (insert a (set xs))"
    and rm_law: "rep h p xs \<Longrightarrow> a \<in> set xs \<Longrightarrow>
      \<exists>h' p'. rm h p a = Some (h', p') \<and> rep h' p' (remove1 a xs) \<and> keeps h h' (set xs)"
    and frame: "rep h p xs \<Longrightarrow> keeps h h' A \<Longrightarrow> A \<inter> set xs = {} \<Longrightarrow> rep h' p xs"
    and view_keeps: "keeps h h' A \<Longrightarrow> view h' = view h"
    and rep_live: "rep h p xs \<Longrightarrow> set xs \<subseteq> dom (view h)"
    and rep_distinct: "rep h p xs \<Longrightarrow> distinct xs"
begin

definition rep2 :: "'s \<Rightarrow> 'p \<Rightarrow> addr list \<Rightarrow> 'p \<Rightarrow> addr list \<Rightarrow> bool" where
  "rep2 h p xs q ys \<longleftrightarrow> rep h p xs \<and> rep h q ys \<and> set xs \<inter> set ys = {}"

lemma rep2_sym: "rep2 h p xs q ys \<Longrightarrow> rep2 h q ys p xs"
  by (auto simp: rep2_def)

lemma add2:
  assumes "rep2 h p xs q ys" "a \<in> dom (view h)" "a \<notin> set xs" "a \<notin> set ys"
  shows "\<exists>h' p'. add h p a = Some (h', p') \<and> rep2 h' p' (xs @ [a]) q ys \<and> view h' = view h"
proof -
  obtain h' p' where r: "add h p a = Some (h', p')" "rep h' p' (xs @ [a])"
    "keeps h h' (insert a (set xs))" using add_law assms by (meson rep2_def)
  moreover have "rep h' q ys" using assms r(3) frame by (auto simp: rep2_def)
  ultimately show ?thesis using assms view_keeps by (auto simp: rep2_def)
qed

lemma pop2:
  assumes "rep2 h p (xs @ [a]) q ys"
  shows "\<exists>h' p'. pop h p = Some (h', p', Some a) \<and> rep2 h' p' xs q ys \<and> view h' = view h"
proof -
  obtain h' p' where r: "pop h p = Some (h', p', Some a)" "rep h' p' xs"
    "keeps h h' (insert a (set xs))" using pop_law assms by (meson rep2_def)
  moreover have "rep h' q ys" using assms r(3) frame by (auto simp: rep2_def)
  ultimately show ?thesis using assms view_keeps by (auto simp: rep2_def)
qed

lemma move:
  assumes r2: "rep2 h p xs q ys" and a: "a \<in> set xs"
  shows "\<exists>h1 p' h2 q'. rm h p a = Some (h1, p') \<and> add h1 q a = Some (h2, q') \<and>
    rep2 h2 p' (remove1 a xs) q' (ys @ [a]) \<and> view h2 = view h"
proof -
  have d: "distinct xs" "a \<in> dom (view h)" "a \<notin> set ys"
    using r2 a rep_distinct rep_live [of h p xs] by (auto simp: rep2_def)
  obtain h1 p' where r: "rm h p a = Some (h1, p')" "rep h1 p' (remove1 a xs)" "keeps h h1 (set xs)"
    using rm_law r2 a by (meson rep2_def)
  have "rep2 h1 q ys p' (remove1 a xs)"
    using r2 r frame [OF _ r(3)] set_remove1_subset [of a xs] by (auto simp: rep2_def)
  moreover have "a \<notin> set (remove1 a xs)" "view h1 = view h" using d r(3) view_keeps by auto
  ultimately show ?thesis using add2 [of h1 q ys p' "remove1 a xs" a] d r(1) rep2_sym
    by (auto simp: rep2_def)
qed

end

definition infos :: "'a store \<Rightarrow> addr \<rightharpoonup> 'a" where
  "infos h a = map_option pi_info (h a)"

lemma dom_infos: "dom (infos h) = dom h"
  by (auto simp: infos_def dom_def)

lemma pool_ok_dom: "pool_ok h p xs \<Longrightarrow> set xs \<subseteq> dom h"
  using dseg_member by (fastforce simp: pool_ok_def)

interpretation dll: item_pool pool_ok infos only_changes pool_add pool_pop pool_rm_item
proof
  fix h h' :: "'b store" and p :: pool and xs A
  assume "pool_ok h p xs" "only_changes h h' A" "A \<inter> set xs = {}"
  then show "pool_ok h' p xs" using pool_ok_frame [of h p xs h'] by (auto simp: only_changes_def)
next
  fix h h' :: "'b store" and A
  assume "only_changes h h' A"
  then show "infos h' = infos h" by (auto simp: only_changes_def same_items_def infos_def)
qed (simp_all add: dom_infos pool_add_ok pool_pop_ok pool_rm_item_ok pool_ok_dom, simp add: pool_ok_def)

subsection \<open>Moving items between the active and the free pool\<close>

definition af_ok :: "'a afpool \<Rightarrow> addr list \<Rightarrow> addr list \<Rightarrow> bool" where
  "af_ok af act fr = dll.rep2 (af_store af) (af_active af) act (af_free af) fr"

lemma afpool_new_ok: "af_ok (afpool_new h) [] []"
  by (simp add: af_ok_def afpool_new_def dll.rep2_def)

lemma afpool_push_item_ok:
  assumes "af_ok af act fr" "a \<in> dom (infos (af_store af))" "a \<notin> set act" "a \<notin> set fr"
  shows "\<exists>af'. afpool_push_item af a = Some af' \<and> af_ok af' (act @ [a]) fr \<and>
    infos (af_store af') = infos (af_store af)"
  using dll.add2 [OF assms(1) [unfolded af_ok_def] assms(2-4)]
  by (auto simp: afpool_push_item_def af_ok_def)

lemma afpool_push_empty_ok:
  assumes "af_ok af act fr" "a \<in> dom (infos (af_store af))" "a \<notin> set act" "a \<notin> set fr"
  shows "\<exists>af'. afpool_push_empty af a = Some af' \<and> af_ok af' act (fr @ [a]) \<and>
    infos (af_store af') = infos (af_store af)"
  using dll.add2 [OF dll.rep2_sym [OF assms(1) [unfolded af_ok_def]] assms(2,4,3)] dll.rep2_sym
  by (fastforce simp: afpool_push_empty_def af_ok_def)

lemma afpool_get_item_ok:
  assumes "af_ok af (act @ [a]) fr"
  shows "\<exists>af'. afpool_get_item af = Some (af', Some a) \<and> af_ok af' act fr \<and>
    infos (af_store af') = infos (af_store af)"
proof -
  have "p_size (af_active af) \<noteq> 0" using assms by (auto simp: af_ok_def dll.rep2_def pool_ok_def)
  then show ?thesis using dll.pop2 [OF assms [unfolded af_ok_def]]
    by (auto simp: afpool_get_item_def af_ok_def)
qed

lemma afpool_get_empty_ok:
  assumes "af_ok af act (fr @ [a])"
  shows "\<exists>af'. afpool_get_empty af = Some (af', Some a) \<and> af_ok af' act fr \<and>
    infos (af_store af') = infos (af_store af)"
proof -
  have "p_size (af_free af) \<noteq> 0" using assms by (auto simp: af_ok_def dll.rep2_def pool_ok_def)
  then show ?thesis using dll.pop2 [OF dll.rep2_sym [OF assms [unfolded af_ok_def]]] dll.rep2_sym
    by (fastforce simp: afpool_get_empty_def af_ok_def)
qed

lemma item_return_ok:
  assumes "af_ok af act fr" "a \<in> set act"
  shows "\<exists>af'. item_return af a = Some af' \<and> af_ok af' (remove1 a act) (fr @ [a]) \<and>
    infos (af_store af') = infos (af_store af)"
  using dll.move [OF assms(1) [unfolded af_ok_def] assms(2)]
  by (auto simp: item_return_def af_ok_def)

lemma afpool_counts_ok:
  assumes "af_ok af act fr"
  shows "number_of_active af = Some (length act)" "number_of_free af = Some (length fr)"
  using assms pool_size_ok by (auto simp: af_ok_def dll.rep2_def number_of_active_def number_of_free_def)

end
