(* ===== verification/Tpool.thy ===== *)
theory Tpool
  imports Pool
begin

text \<open>
  The work queue of the server, \<open>server/tpool.c\<close>: the main thread queues the operations it
  has read, a fixed number of threads take them up. The queue is a pair of pools of work
  items (theory \<open>Pool\<close>), the active ones being the operations that wait. The contents of a
  work item are a parameter \<open>'a\<close>. Memory for new items comes from a counter of unused
  addresses. The parts of \<open>tpool_add_work\<close> and \<open>tpool_thread\<close> between two waits run under
  the lock of the queue and are one step.

  The lemmas show that a queued item is never lost and every item is in one place (waiting,
  free, or in the hands of a thread), that the item queued last is taken first, and that
  \<open>cur_queue_size\<close> is never counted up, so that \<open>max_queue_size\<close> does not bound the queue.
\<close>

definition DEF_QUEUE_SIZE :: int where
  "DEF_QUEUE_SIZE = 16"

record 'a tpool =
  tp_num_threads :: int
  tp_no_block :: bool
  tp_max_queue_size :: int
  tp_cur_queue_size :: int
  tp_queue :: "'a afpool"
  tp_queue_closed :: bool
  tp_shutdown :: bool
  tp_brk :: addr

text \<open>The items are allocated with \<^verbatim>\<open>Calloc\<close>; \<open>z\<close> is the zero work item.\<close>

fun add_work_structs :: "'a \<Rightarrow> 'a store \<Rightarrow> pool \<Rightarrow> addr \<Rightarrow> nat \<Rightarrow> ('a store \<times> pool \<times> addr) option" where
  "add_work_structs z h p brk 0 = Some (h, p, brk)"
| "add_work_structs z h p brk (Suc n) = do {
     (h', p') \<leftarrow> pool_add (h(brk \<mapsto> \<lparr>pi_prev = None, pi_next = None, pi_info = z\<rparr>)) p brk;
     add_work_structs z h' p' (Suc brk) n }"

definition tp_grow :: "'a \<Rightarrow> 'a tpool \<Rightarrow> int \<Rightarrow> 'a tpool option" where
  "tp_grow z tp n = do {
     (h, p, brk) \<leftarrow> add_work_structs z (af_store (tp_queue tp)) (af_free (tp_queue tp)) (tp_brk tp) (nat n);
     Some (tp\<lparr>tp_queue := (tp_queue tp)\<lparr>af_store := h, af_free := p\<rparr>, tp_brk := brk\<rparr>) }"

definition tpool_init :: "'a \<Rightarrow> 'a store \<Rightarrow> addr \<Rightarrow> int \<Rightarrow> int \<Rightarrow> bool \<Rightarrow> 'a tpool option" where
  "tpool_init z h brk wthreads max_queue_size no_block =
     (let cur = (if max_queue_size < DEF_QUEUE_SIZE then max_queue_size else DEF_QUEUE_SIZE)
      in tp_grow z
           \<lparr>tp_num_threads = wthreads, tp_no_block = no_block, tp_max_queue_size = max_queue_size,
            tp_cur_queue_size = cur, tp_queue = afpool_new h, tp_queue_closed = False,
            tp_shutdown = False, tp_brk = brk\<rparr> cur)"

text \<open>A call that adds work waits, or returns 0 (the queue is full), -1 (it is closed) or 1.
  The wait is for ever: the variable \<^verbatim>\<open>fi\<close> that the loop tests is not read again.\<close>

datatype add_result = Waits | Returned int

definition set_info :: "'a store \<Rightarrow> addr \<Rightarrow> 'a \<Rightarrow> 'a store option" where
  "set_info h a x = do { it \<leftarrow> h a; Some (h(a \<mapsto> it\<lparr>pi_info := x\<rparr>)) }"

definition tpool_add_work :: "'a \<Rightarrow> 'a tpool \<Rightarrow> 'a \<Rightarrow> (add_result \<times> 'a tpool) option" where
  "tpool_add_work z tp wi =
     (let closed = (tp_shutdown tp \<or> tp_queue_closed tp) in
      if \<not> afpool_free_item (tp_queue tp) \<and> tp_cur_queue_size tp = tp_max_queue_size tp \<and> \<not> closed
      then Some (if tp_no_block tp then Returned 0 else Waits, tp)
      else if closed then Some (Returned (- 1), tp)
      else if \<not> afpool_free_item (tp_queue tp) \<and> tp_max_queue_size tp \<le> tp_cur_queue_size tp
      then Some (Returned 0, tp)
      else do {
        tp1 \<leftarrow> (if \<not> afpool_free_item (tp_queue tp)
                then if tp_cur_queue_size tp + DEF_QUEUE_SIZE < tp_max_queue_size tp
                     then tp_grow z tp DEF_QUEUE_SIZE
                     else tp_grow z tp (tp_max_queue_size tp - tp_cur_queue_size tp)
                else Some tp);
        (q1, pi) \<leftarrow> afpool_get_empty (tp_queue tp1);
        a \<leftarrow> pi;
        h \<leftarrow> set_info (af_store q1) a wi;
        q2 \<leftarrow> afpool_push_item (q1\<lparr>af_store := h\<rparr>) a;
        Some (Returned 1, tp1\<lparr>tp_queue := q2\<rparr>) })"

text \<open>One round of a thread: it takes an item, works on it and gives it back cleared. The
  thread waits when nothing is queued.\<close>

definition tpool_take :: "'a tpool \<Rightarrow> ('a tpool \<times> (addr \<times> 'a) option) option" where
  "tpool_take tp =
     (if \<not> afpool_active_item (tp_queue tp) \<or> tp_shutdown tp then Some (tp, None)
      else do {
        (q, pi) \<leftarrow> afpool_get_item (tp_queue tp);
        case pi of
          None \<Rightarrow> Some (tp\<lparr>tp_queue := q\<rparr>, None)
        | Some a \<Rightarrow> do { it \<leftarrow> af_store q a; Some (tp\<lparr>tp_queue := q\<rparr>, Some (a, pi_info it)) } })"

definition tpool_finish :: "'a \<Rightarrow> 'a tpool \<Rightarrow> addr \<Rightarrow> 'a tpool option" where
  "tpool_finish z tp a = do {
     h \<leftarrow> set_info (af_store (tp_queue tp)) a z;
     q \<leftarrow> afpool_push_empty ((tp_queue tp)\<lparr>af_store := h\<rparr>) a;
     Some (tp\<lparr>tp_queue := q\<rparr>) }"

text \<open>\<open>tpool_destroy\<close> up to the point where it joins the threads; with \<open>finish\<close> it waits until
  \<open>cur_queue_size\<close> is zero.\<close>

definition tpool_destroy :: "'a tpool \<Rightarrow> bool \<Rightarrow> add_result \<times> 'a tpool" where
  "tpool_destroy tp finish =
     (if tp_queue_closed tp \<or> tp_shutdown tp then (Returned 0, tp)
      else let tp1 = tp\<lparr>tp_queue_closed := True\<rparr>
           in if finish \<and> tp_cur_queue_size tp \<noteq> 0 then (Waits, tp1)
              else (Returned 1, tp1\<lparr>tp_shutdown := True\<rparr>))"

subsection \<open>Where the work items are\<close>

text \<open>The items that wait, the free ones and those in the hands of the threads.\<close>

definition tp_ok :: "'a tpool \<Rightarrow> addr list \<Rightarrow> addr list \<Rightarrow> addr list \<Rightarrow> bool" where
  "tp_ok tp act fr busy \<longleftrightarrow> af_ok (tp_queue tp) act fr \<and> distinct busy \<and>
     set busy \<inter> (set act \<union> set fr) = {} \<and> set busy \<subseteq> dom (infos (af_store (tp_queue tp))) \<and>
     dom (infos (af_store (tp_queue tp))) \<subseteq> {..<tp_brk tp}"

definition waiting :: "'a tpool \<Rightarrow> addr list \<Rightarrow> 'a option list" where
  "waiting tp act = map (infos (af_store (tp_queue tp))) act"

lemma dseg_info: "h a = Some it \<Longrightarrow> dseg (h(a \<mapsto> it\<lparr>pi_info := x\<rparr>)) pr xs nx = dseg h pr xs nx"
  by (induction xs arbitrary: pr) auto

lemma set_info_ok:
  assumes "a \<in> dom (infos (af_store af))" "af_ok af act fr"
  shows "\<exists>h. set_info (af_store af) a x = Some h \<and> infos h = (infos (af_store af))(a \<mapsto> x) \<and>
    af_ok (af\<lparr>af_store := h\<rparr>) act fr"
proof -
  obtain it where it: "af_store af a = Some it" using assms(1) by (auto simp: dom_infos)
  define h where "h = (af_store af)(a \<mapsto> it\<lparr>pi_info := x\<rparr>)"
  have "pool_ok h p xs = pool_ok (af_store af) p xs" for p xs
    using dseg_info [of "af_store af", OF it] by (simp add: pool_ok_def h_def)
  moreover have "infos h = (infos (af_store af))(a \<mapsto> x)" by (auto simp: h_def infos_def)
  ultimately show ?thesis using assms(2) it
    by (auto simp: set_info_def h_def [symmetric] af_ok_def dll.rep2_def)
qed

lemma af_ok_fresh:
  assumes "af_ok af act fr" "a \<notin> set act" "a \<notin> set fr"
  shows "af_ok (af\<lparr>af_store := (af_store af)(a \<mapsto> it)\<rparr>) act fr"
  using assms by (auto simp: af_ok_def dll.rep2_def pool_ok_def)

lemma af_ok_dom: "af_ok af act fr \<Longrightarrow> set act \<union> set fr \<subseteq> dom (infos (af_store af))"
  using pool_ok_dom [of "af_store af"] unfolding af_ok_def dll.rep2_def dom_infos by blast

lemma add_work_structs_ok:
  assumes "af_ok af act fr" "dom (infos (af_store af)) \<subseteq> {..<brk}"
  shows "\<exists>h p. add_work_structs z (af_store af) (af_free af) brk n = Some (h, p, brk + n) \<and>
    af_ok (af\<lparr>af_store := h, af_free := p\<rparr>) act (fr @ [brk..<brk + n]) \<and>
    dom (infos h) = dom (infos (af_store af)) \<union> {brk..<brk + n} \<and>
    (\<forall>a<brk. infos h a = infos (af_store af) a)"
  using assms
proof (induction n arbitrary: af brk fr)
  case (Suc n)
  define it where "it = \<lparr>pi_prev = None, pi_next = None, pi_info = z\<rparr>"
  define af1 where "af1 = af\<lparr>af_store := (af_store af)(brk \<mapsto> it)\<rparr>"
  have new: "brk \<notin> set act" "brk \<notin> set fr" using af_ok_dom [OF Suc.prems(1)] Suc.prems(2) lessThan_iff less_irrefl by blast+
  then have ok1: "af_ok af1 act fr" using af_ok_fresh [OF Suc.prems(1)] by (simp add: af1_def)
  have inf1: "infos (af_store af1) = (infos (af_store af))(brk \<mapsto> z)"
    by (auto simp: af1_def infos_def it_def)
  obtain af2 where af2: "afpool_push_empty af1 brk = Some af2" "af_ok af2 act (fr @ [brk])"
    "infos (af_store af2) = infos (af_store af1)"
    using afpool_push_empty_ok [OF ok1 _ new] inf1 by auto
  then obtain h1 p1 where hp: "pool_add (af_store af1) (af_free af1) brk = Some (h1, p1)"
    "af2 = af1\<lparr>af_store := h1, af_free := p1\<rparr>"
    by (auto simp: afpool_push_empty_def Option.bind_eq_Some_conv)
  have dom2: "dom (infos (af_store af2)) \<subseteq> {..<Suc brk}" using af2(3) inf1 Suc.prems(2) by auto
  obtain h p where r: "add_work_structs z (af_store af2) (af_free af2) (Suc brk) n = Some (h, p, Suc brk + n)"
    "af_ok (af2\<lparr>af_store := h, af_free := p\<rparr>) act ((fr @ [brk]) @ [Suc brk..<Suc brk + n])"
    "dom (infos h) = dom (infos (af_store af2)) \<union> {Suc brk..<Suc brk + n}"
    "\<forall>a<Suc brk. infos h a = infos (af_store af2) a"
    using Suc.IH [OF af2(2) dom2] by blast
  have e: "af2\<lparr>af_store := h, af_free := p\<rparr> = af\<lparr>af_store := h, af_free := p\<rparr>"
    "fr @ [brk..<brk + Suc n] = (fr @ [brk]) @ [Suc brk..<Suc brk + n]" "Suc brk + n = brk + Suc n"
    by (simp_all add: hp(2) af1_def upt_conv_Cons)
  have d: "dom (infos h) = dom (infos (af_store af)) \<union> {brk..<brk + Suc n}"
    unfolding r(3) af2(3) inf1 by auto
  have "add_work_structs z (af_store af) (af_free af) brk (Suc n) = Some (h, p, brk + Suc n)"
    using r(1) hp by (simp add: af1_def it_def)
  moreover have "\<forall>a<brk. infos h a = infos (af_store af) a" using r(4) af2(3) inf1 by auto
  ultimately show ?case using r(2) d unfolding e by blast
qed auto

lemma tp_grow_ok:
  assumes ok: "tp_ok tp act fr busy"
  shows "\<exists>tp' fr'. tp_grow z tp n = Some tp' \<and> tp_ok tp' act (fr @ fr') busy \<and> length fr' = nat n \<and>
    waiting tp' act = waiting tp act \<and> tp_cur_queue_size tp' = tp_cur_queue_size tp \<and>
    tp_max_queue_size tp' = tp_max_queue_size tp \<and> tp_shutdown tp' = tp_shutdown tp \<and>
    tp_queue_closed tp' = tp_queue_closed tp"
proof -
  have af: "af_ok (tp_queue tp) act fr" "dom (infos (af_store (tp_queue tp))) \<subseteq> {..<tp_brk tp}"
    "set busy \<subseteq> dom (infos (af_store (tp_queue tp)))"
    using ok by (auto simp: tp_ok_def)
  obtain h p where r: "add_work_structs z (af_store (tp_queue tp)) (af_free (tp_queue tp)) (tp_brk tp)
      (nat n) = Some (h, p, tp_brk tp + nat n)"
    "af_ok ((tp_queue tp)\<lparr>af_store := h, af_free := p\<rparr>) act (fr @ [tp_brk tp..<tp_brk tp + nat n])"
    "dom (infos h) = dom (infos (af_store (tp_queue tp))) \<union> {tp_brk tp..<tp_brk tp + nat n}"
    "\<forall>a<tp_brk tp. infos h a = infos (af_store (tp_queue tp)) a"
    using add_work_structs_ok [OF af(1,2)] by blast
  define tp' where "tp' = tp\<lparr>tp_queue := (tp_queue tp)\<lparr>af_store := h, af_free := p\<rparr>,
     tp_brk := tp_brk tp + nat n\<rparr>"
  have "set act \<subseteq> {..<tp_brk tp}" using af_ok_dom [OF af(1)] af(2) by blast
  then have "waiting tp' act = waiting tp act" using r(4) by (auto simp: waiting_def tp'_def)
  moreover have "tp_ok tp' act (fr @ [tp_brk tp..<tp_brk tp + nat n]) busy"
  proof -
    have "\<forall>x\<in>set busy. x < tp_brk tp" using af(2,3) by blast
    then have "set busy \<inter> (set act \<union> set (fr @ [tp_brk tp..<tp_brk tp + nat n])) = {}"
      using ok by (auto simp: tp_ok_def)
    moreover have "set busy \<subseteq> dom (infos h)" unfolding r(3) using af(3) by blast
    moreover have "dom (infos h) \<subseteq> {..<tp_brk tp + nat n}" unfolding r(3) using af(2) by force
    ultimately show ?thesis using ok r(2) by (simp add: tp_ok_def tp'_def)
  qed
  moreover have "tp_grow z tp n = Some tp'" using r(1) by (simp add: tp_grow_def tp'_def)
  ultimately show ?thesis by (auto simp: tp'_def intro!: exI [of _ "[tp_brk tp..<tp_brk tp + nat n]"])
qed

subsection \<open>Adding, taking and finishing work\<close>

lemma afpool_free_item_iff: "af_ok af act fr \<Longrightarrow> afpool_free_item af \<longleftrightarrow> fr \<noteq> []"
  by (auto simp: afpool_free_item_def af_ok_def dll.rep2_def pool_ok_def)

lemma afpool_active_item_iff: "af_ok af act fr \<Longrightarrow> afpool_active_item af \<longleftrightarrow> act \<noteq> []"
  by (auto simp: afpool_active_item_def af_ok_def dll.rep2_def pool_ok_def)

lemma af_ok_disjoint: "af_ok af act fr \<Longrightarrow> distinct act \<and> distinct fr \<and> set act \<inter> set fr = {}"
  by (auto simp: af_ok_def dll.rep2_def pool_ok_def)

text \<open>The last free item is filled and queued.\<close>

lemma tp_enqueue:
  assumes ok: "tp_ok tp act (fr @ [a]) busy"
  shows "\<exists>q1 h q2. afpool_get_empty (tp_queue tp) = Some (q1, Some a) \<and>
    set_info (af_store q1) a wi = Some h \<and> afpool_push_item (q1\<lparr>af_store := h\<rparr>) a = Some q2 \<and>
    tp_ok (tp\<lparr>tp_queue := q2\<rparr>) (act @ [a]) fr busy \<and>
    waiting (tp\<lparr>tp_queue := q2\<rparr>) (act @ [a]) = waiting tp act @ [Some wi]"
proof -
  have af: "af_ok (tp_queue tp) act (fr @ [a])" using ok by (simp add: tp_ok_def)
  have nin: "a \<notin> set act" "a \<notin> set fr" using af_ok_disjoint [OF af] by auto
  have dom: "a \<in> dom (infos (af_store (tp_queue tp)))" using af_ok_dom [OF af] by auto
  obtain q1 where q1: "afpool_get_empty (tp_queue tp) = Some (q1, Some a)" "af_ok q1 act fr"
    "infos (af_store q1) = infos (af_store (tp_queue tp))" using afpool_get_empty_ok [OF af] by blast
  obtain h where h: "set_info (af_store q1) a wi = Some h" "infos h = (infos (af_store q1))(a \<mapsto> wi)"
    "af_ok (q1\<lparr>af_store := h\<rparr>) act fr" using set_info_ok [OF _ q1(2), of a wi] dom q1(3) by auto
  obtain q2 where q2: "afpool_push_item (q1\<lparr>af_store := h\<rparr>) a = Some q2" "af_ok q2 (act @ [a]) fr"
    "infos (af_store q2) = infos h" using afpool_push_item_ok [OF h(3) _ nin] h(2) by auto
  have "infos (af_store q2) = (infos (af_store (tp_queue tp)))(a \<mapsto> wi)" using q2(3) h(2) q1(3) by simp
  moreover from this have "dom (infos (af_store q2)) = dom (infos (af_store (tp_queue tp)))"
    using dom by auto
  ultimately have "tp_ok (tp\<lparr>tp_queue := q2\<rparr>) (act @ [a]) fr busy"
    "waiting (tp\<lparr>tp_queue := q2\<rparr>) (act @ [a]) = waiting tp act @ [Some wi]"
    using ok q2(2) nin by (auto simp: tp_ok_def waiting_def)
  then show ?thesis using q1(1) h(1) q2(1) by blast
qed

lemma tpool_add_work_ok:
  assumes ok: "tp_ok tp act fr busy" and opn: "\<not> tp_shutdown tp" "\<not> tp_queue_closed tp"
    and room: "fr \<noteq> [] \<or> tp_cur_queue_size tp < tp_max_queue_size tp"
  shows "\<exists>tp' a fr'. tpool_add_work z tp wi = Some (Returned 1, tp') \<and> tp_ok tp' (act @ [a]) fr' busy \<and>
    waiting tp' (act @ [a]) = waiting tp act @ [Some wi] \<and>
    tp_cur_queue_size tp' = tp_cur_queue_size tp \<and> tp_max_queue_size tp' = tp_max_queue_size tp \<and>
    tp_shutdown tp' = tp_shutdown tp \<and> tp_queue_closed tp' = tp_queue_closed tp"
proof -
  have fi: "afpool_free_item (tp_queue tp) \<longleftrightarrow> fr \<noteq> []"
    using afpool_free_item_iff ok by (auto simp: tp_ok_def)
  define grown where "grown = (if fr = []
                then if tp_cur_queue_size tp + DEF_QUEUE_SIZE < tp_max_queue_size tp
                     then tp_grow z tp DEF_QUEUE_SIZE
                     else tp_grow z tp (tp_max_queue_size tp - tp_cur_queue_size tp)
                else Some tp)"
  have "\<exists>tp1 fr1. grown = Some tp1 \<and> tp_ok tp1 act fr1 busy \<and> fr1 \<noteq> [] \<and>
    waiting tp1 act = waiting tp act \<and>
    tp_cur_queue_size tp1 = tp_cur_queue_size tp \<and> tp_max_queue_size tp1 = tp_max_queue_size tp \<and>
    tp_shutdown tp1 = tp_shutdown tp \<and> tp_queue_closed tp1 = tp_queue_closed tp"
  proof (cases "fr = []")
    case True
    define n where "n = (if tp_cur_queue_size tp + DEF_QUEUE_SIZE < tp_max_queue_size tp
      then DEF_QUEUE_SIZE else tp_max_queue_size tp - tp_cur_queue_size tp)"
    have "0 < nat n" using True room by (auto simp: n_def DEF_QUEUE_SIZE_def)
    moreover have "grown = tp_grow z tp n" using True by (simp add: grown_def n_def)
    ultimately show ?thesis using tp_grow_ok [OF ok, of z n] by fastforce
  next
    case False
    then show ?thesis using ok by (auto simp: grown_def)
  qed
  then obtain tp1 fr1 where g: "grown = Some tp1" "tp_ok tp1 act fr1 busy" "fr1 \<noteq> []"
    "waiting tp1 act = waiting tp act"
    "tp_cur_queue_size tp1 = tp_cur_queue_size tp" "tp_max_queue_size tp1 = tp_max_queue_size tp"
    "tp_shutdown tp1 = tp_shutdown tp" "tp_queue_closed tp1 = tp_queue_closed tp" by blast
  obtain fr' a where fr1: "fr1 = fr' @ [a]" using g(3) by (metis rev_exhaust)
  obtain q1 h q2 where e: "afpool_get_empty (tp_queue tp1) = Some (q1, Some a)"
    "set_info (af_store q1) a wi = Some h" "afpool_push_item (q1\<lparr>af_store := h\<rparr>) a = Some q2"
    "tp_ok (tp1\<lparr>tp_queue := q2\<rparr>) (act @ [a]) fr' busy"
    "waiting (tp1\<lparr>tp_queue := q2\<rparr>) (act @ [a]) = waiting tp1 act @ [Some wi]"
    using tp_enqueue [OF g(2) [unfolded fr1]] by blast
  have "tpool_add_work z tp wi = Some (Returned 1, tp1\<lparr>tp_queue := q2\<rparr>)"
    using opn room e(1-3) g(1)
    by (auto simp: tpool_add_work_def Let_def fi grown_def [symmetric])
  then show ?thesis using e(4,5) g by force
qed

lemma tpool_take_ok:
  assumes ok: "tp_ok tp (act @ [a]) fr busy" and opn: "\<not> tp_shutdown tp"
  shows "\<exists>tp' wi. tpool_take tp = Some (tp', Some (a, wi)) \<and> tp_ok tp' act fr (a # busy) \<and>
    waiting tp (act @ [a]) = waiting tp' act @ [Some wi]"
proof -
  have af: "af_ok (tp_queue tp) (act @ [a]) fr" using ok by (simp add: tp_ok_def)
  obtain q where q: "afpool_get_item (tp_queue tp) = Some (q, Some a)" "af_ok q act fr"
    "infos (af_store q) = infos (af_store (tp_queue tp))" using afpool_get_item_ok [OF af] by blast
  obtain it where it: "af_store q a = Some it" "infos (af_store q) a = Some (pi_info it)"
    using subsetD [OF af_ok_dom [OF af], of a] unfolding q(3) [symmetric]
    by (auto simp: infos_def dom_def)
  have nin: "a \<notin> set act" "a \<notin> set fr" "a \<notin> set busy"
    using af_ok_disjoint [OF af] ok by (auto simp: tp_ok_def)
  have "tpool_take tp = Some (tp\<lparr>tp_queue := q\<rparr>, Some (a, pi_info it))"
    using q(1) it(1) opn afpool_active_item_iff [OF af] by (simp add: tpool_take_def)
  moreover have "tp_ok (tp\<lparr>tp_queue := q\<rparr>) act fr (a # busy)"
    using ok q(2,3) it nin by (auto simp: tp_ok_def)
  moreover have "waiting tp (act @ [a]) = waiting (tp\<lparr>tp_queue := q\<rparr>) act @ [Some (pi_info it)]"
    using q(3) it(2) by (simp add: waiting_def)
  ultimately show ?thesis by blast
qed

lemma tpool_finish_ok:
  assumes ok: "tp_ok tp act fr busy" and a: "a \<in> set busy"
  shows "\<exists>tp'. tpool_finish z tp a = Some tp' \<and> tp_ok tp' act (fr @ [a]) (remove1 a busy) \<and>
    waiting tp' act = waiting tp act"
proof -
  have af: "af_ok (tp_queue tp) act fr" "a \<in> dom (infos (af_store (tp_queue tp)))" "a \<notin> set act"
    "a \<notin> set fr" "distinct busy" using ok a by (auto simp: tp_ok_def)
  obtain h where h: "set_info (af_store (tp_queue tp)) a z = Some h"
    "infos h = (infos (af_store (tp_queue tp)))(a \<mapsto> z)" "af_ok ((tp_queue tp)\<lparr>af_store := h\<rparr>) act fr"
    using set_info_ok [OF af(2,1)] by blast
  obtain q where q: "afpool_push_empty ((tp_queue tp)\<lparr>af_store := h\<rparr>) a = Some q"
    "af_ok q act (fr @ [a])" "infos (af_store q) = infos h"
    using afpool_push_empty_ok [OF h(3) _ af(3,4)] h(2) by auto
  have "dom (infos (af_store q)) = dom (infos (af_store (tp_queue tp)))" using q(3) h(2) af(2) by auto
  then have "tp_ok (tp\<lparr>tp_queue := q\<rparr>) act (fr @ [a]) (remove1 a busy)"
    using ok q(2) af(5) set_remove1_subset [of a busy] by (auto simp: tp_ok_def)
  moreover have "waiting (tp\<lparr>tp_queue := q\<rparr>) act = waiting tp act"
    using q(3) h(2) af(3) by (auto simp: waiting_def)
  ultimately show ?thesis using h(1) q(1) by (auto simp: tpool_finish_def)
qed

subsection \<open>The queue is a stack without bound\<close>

fun tpool_add_all :: "'a \<Rightarrow> 'a tpool \<Rightarrow> 'a list \<Rightarrow> (add_result list \<times> 'a tpool) option" where
  "tpool_add_all z tp [] = Some ([], tp)"
| "tpool_add_all z tp (w # ws) = do {
     (r, tp1) \<leftarrow> tpool_add_work z tp w;
     (rs, tp2) \<leftarrow> tpool_add_all z tp1 ws;
     Some (r # rs, tp2) }"

lemma tpool_init_ok:
  assumes "dom h \<subseteq> {..<brk}" "DEF_QUEUE_SIZE < m"
  shows "\<exists>tp fr. tpool_init z h brk n m nb = Some tp \<and> tp_ok tp [] fr [] \<and>
    tp_cur_queue_size tp = DEF_QUEUE_SIZE \<and> tp_max_queue_size tp = m \<and>
    \<not> tp_shutdown tp \<and> \<not> tp_queue_closed tp"
proof -
  define tp0 where "tp0 = \<lparr>tp_num_threads = n, tp_no_block = nb, tp_max_queue_size = m,
     tp_cur_queue_size = DEF_QUEUE_SIZE, tp_queue = afpool_new h, tp_queue_closed = False,
     tp_shutdown = False, tp_brk = brk\<rparr>"
  have "tp_ok tp0 [] [] []"
    using assms(1) afpool_new_ok [of h] by (auto simp: tp_ok_def tp0_def afpool_new_def dom_infos)
  from tp_grow_ok [OF this, of z DEF_QUEUE_SIZE] show ?thesis
    using assms(2) by (auto simp: tpool_init_def Let_def tp0_def)
qed

lemma tpool_add_all_ok:
  assumes "tp_ok tp act fr busy" "\<not> tp_shutdown tp" "\<not> tp_queue_closed tp"
    "tp_cur_queue_size tp < tp_max_queue_size tp"
  shows "\<exists>tp' act' fr'. tpool_add_all z tp ws = Some (replicate (length ws) (Returned 1), tp') \<and>
    tp_ok tp' act' fr' busy \<and> waiting tp' act' = waiting tp act @ map Some ws \<and> \<not> tp_shutdown tp'"
  using assms
proof (induction ws arbitrary: tp act fr)
  case (Cons w ws)
  obtain tp1 a fr1 where t: "tpool_add_work z tp w = Some (Returned 1, tp1)"
    "tp_ok tp1 (act @ [a]) fr1 busy" "waiting tp1 (act @ [a]) = waiting tp act @ [Some w]"
    "tp_cur_queue_size tp1 < tp_max_queue_size tp1" "\<not> tp_shutdown tp1" "\<not> tp_queue_closed tp1"
    using tpool_add_work_ok [OF Cons.prems(1-3)] Cons.prems by (metis (no_types, lifting))
  obtain tp' act' fr' where r: "tpool_add_all z tp1 ws = Some (replicate (length ws) (Returned 1), tp')"
    "tp_ok tp' act' fr' busy" "waiting tp' act' = waiting tp1 (act @ [a]) @ map Some ws" "\<not> tp_shutdown tp'"
    using Cons.IH [OF t(2,5,6,4)] by blast
  then have "tpool_add_all z tp (w # ws) = Some (replicate (length (w # ws)) (Returned 1), tp')"
    "waiting tp' act' = waiting tp act @ map Some (w # ws)" using t by auto
  then show ?case using r(2,4) by blast
qed auto

text \<open>C27: The work queue of the server (a pool with the limit of 64 items that \<open>main\<close> sets,
  or any limit above 16) accepts every operation, however many are waiting, so the limit and the
  answer "busy" never take effect; and a worker takes the operation that was queued last.\<close>

theorem tpool_unbounded_lifo:
  assumes "dom h \<subseteq> {..<brk}" "16 < m"
  shows "\<exists>tp tp1 tp2 a act. tpool_init z h brk n m nb = Some tp \<and>
    tpool_add_all z tp (ws @ [w]) = Some (replicate (Suc (length ws)) (Returned 1), tp1) \<and>
    tpool_take tp1 = Some (tp2, Some (a, w)) \<and> waiting tp2 act = map Some ws \<and>
    tp_max_queue_size tp = m"
proof -
  obtain tp fr where tp: "tpool_init z h brk n m nb = Some tp" "tp_ok tp [] fr []"
    "tp_cur_queue_size tp < tp_max_queue_size tp" "tp_max_queue_size tp = m"
    "\<not> tp_shutdown tp" "\<not> tp_queue_closed tp"
    using tpool_init_ok [OF assms(1), of m z n nb, unfolded DEF_QUEUE_SIZE_def, OF assms(2)] assms(2)
    by metis
  obtain tp1 act1 fr1 where t: "tpool_add_all z tp (ws @ [w]) =
      Some (replicate (Suc (length ws)) (Returned 1), tp1)"
    "tp_ok tp1 act1 fr1 []" "waiting tp1 act1 = map Some (ws @ [w])" "\<not> tp_shutdown tp1"
    using tpool_add_all_ok [OF tp(2,5,6,3), of z "ws @ [w]"] by (auto simp: waiting_def)
  obtain act a where a: "act1 = act @ [a]" using t(3) by (cases act1 rule: rev_cases) (auto simp: waiting_def)
  obtain tp2 wi where k: "tpool_take tp1 = Some (tp2, Some (a, wi))"
    "waiting tp1 (act @ [a]) = waiting tp2 act @ [Some wi]"
    using tpool_take_ok [OF t(2) [unfolded a] t(4)] by blast
  then have "wi = w" "waiting tp2 act = map Some ws" using t(3) unfolding a by auto
  then show ?thesis using tp(1,4) t(1) k(1) by blast
qed

theorem tpool_unbounded_lifo_witness:
  "\<exists>tp tp1 tp2 a act. tpool_init (0::nat) Map.empty 0 5 64 True = Some tp \<and>
    tpool_add_all 0 tp ([1..<100] @ [100]) = Some (replicate 100 (Returned 1), tp1) \<and>
    tpool_take tp1 = Some (tp2, Some (a, 100)) \<and> waiting tp2 act = map Some [1..<100] \<and>
    tp_max_queue_size tp = 64"
  using tpool_unbounded_lifo [of Map.empty 0 64 "0::nat" 5 True "[1..<100]" 100] by simp

text \<open>Shutting the pool down after the queue has drained, as the server does when it is freed,
  waits for ever: nothing counts \<open>cur_queue_size\<close> down.\<close>

lemma tpool_destroy_waits:
  assumes "dom h \<subseteq> {..<brk}" "16 < m" "tpool_init z h brk n m nb = Some tp"
  shows "fst (tpool_destroy tp True) = Waits"
  using tpool_init_ok [OF assms(1), of m z n nb] assms(2,3)
  by (auto simp: tpool_destroy_def DEF_QUEUE_SIZE_def Let_def)

end
