(* ===== verification/Ruleset.thy ===== *)
theory Ruleset
  imports Sexp
begin

text \<open>
  The tree of rulesets, \<open>server/ruleset.c\<close>. The rulesets of one level are a doubly linked list, and
  the pointer \<^verbatim>\<open>down\<close> of their parent leads to the one that was created first, somewhere in the middle
  of the list. In the model \<^verbatim>\<open>down\<close> is that ruleset with the list of its left and of its right
  neighbours, the nearest first; \<^verbatim>\<open>up\<close> is the ruleset around it. The root has one possible neighbour,
  the server part \<open>//\<close> on its left. The type \<open>'d\<close> stands for the rule database and the boundary
  conditions of a ruleset.

  A ruleset is designated by its position: for every level the step from \<^verbatim>\<open>down\<close> to the left or to the
  right.
\<close>

subsection \<open>Data\<close>

datatype 'd ruleset =
  Ruleset (rs_name: bytes) (rs_data: 'd) (rs_down: "('d ruleset list \<times> 'd ruleset \<times> 'd ruleset list) option")

type_synonym 'd level = "'d ruleset list \<times> 'd ruleset \<times> 'd ruleset list"

datatype side = Here | Lft nat | Rgt nat

record 'd forest =
  fo_server :: "'d ruleset option"
  fo_root :: "'d ruleset"

fun level_get :: "'d level \<Rightarrow> side \<Rightarrow> 'd ruleset" where
  "level_get (ls, h, rs) Here = h"
| "level_get (ls, h, rs) (Lft k) = ls ! k"
| "level_get (ls, h, rs) (Rgt k) = rs ! k"

fun level_put :: "'d level \<Rightarrow> side \<Rightarrow> 'd ruleset \<Rightarrow> 'd level" where
  "level_put (ls, h, rs) Here r = (ls, r, rs)"
| "level_put (ls, h, rs) (Lft k) r = (ls[k := r], h, rs)"
| "level_put (ls, h, rs) (Rgt k) r = (ls, h, rs[k := r])"

text \<open>The rulesets of a level from the far left to the far right.\<close>

definition kids :: "'d ruleset \<Rightarrow> 'd ruleset list" where
  "kids r = (case rs_down r of None \<Rightarrow> [] | Some (ls, h, rs) \<Rightarrow> rev ls @ h # rs)"

subsection \<open>Paths\<close>

text \<open>\<open>path_split\<close> does not look at the length of its argument: it reads on to the first byte that
  is not part of a path.\<close>

fun count_while :: "(char \<Rightarrow> bool) \<Rightarrow> bytes \<Rightarrow> nat option" where
  "count_while P [] = None"
| "count_while P (c # s) = (if P c then map_option Suc (count_while P s) else Some 0)"

function path_pieces :: "bytes \<Rightarrow> octet list" where
  "path_pieces s =
     (if s = [] then []
      else let n = length (takeWhile (\<lambda>c. c \<noteq> CHR ''/'') s) in
        \<lparr>oct_val = s @ [NUL], oct_len = n, oct_size = 0\<rparr> #
        path_pieces (dropWhile (\<lambda>c. c = CHR ''/'') (drop n s)))"
  by pat_completeness auto
termination
proof (relation "measure length")
  fix s :: bytes and n assume s: "s \<noteq> []" and n: "n = length (takeWhile (\<lambda>c. c \<noteq> CHR ''/'') s)"
  then show "(dropWhile (\<lambda>c. c = CHR ''/'') (drop n s), s) \<in> measure length"
  proof (cases s)
    case (Cons c t)
    have le: "length (dropWhile (\<lambda>c. c = CHR ''/'') (drop k t)) \<le> length t" for k
      using length_dropWhile_le [of "\<lambda>c. c = CHR ''/''" "drop k t"] by simp
    show ?thesis using n Cons le [of 0] le [of "length (takeWhile (\<lambda>c. c \<noteq> CHR ''/'') t)"]
      by (cases "c = CHR ''/''") auto
  qed simp
qed simp

declare path_pieces.simps [simp del]

definition path_split :: "octet \<Rightarrow> (octet list \<times> nat) option" where
  "path_split oct = do {
     k \<leftarrow> count_while (\<lambda>c. c = CHR ''/'') (oct_val oct);
     n \<leftarrow> count_while (\<lambda>c. c = CHR ''/'' \<or> DIRCHAR c) (drop k (oct_val oct));
     Some (path_pieces (take n (drop k (oct_val oct))), k + n) }"

subsection \<open>One level\<close>

definition ruleset_new :: "'d \<Rightarrow> octet \<Rightarrow> 'd ruleset" where
  "ruleset_new z name = Ruleset (takeWhile (\<lambda>c. c \<noteq> NUL) (take (oct_len name) (oct_val name))) z None"

text \<open>Walking to one side (\<open>s\<close> is \<open>-1\<close> to the left and \<open>1\<close> to the right) as long as the comparison
  says so.\<close>

fun walk_side :: "octet \<Rightarrow> int \<Rightarrow> 'd ruleset list \<Rightarrow> nat \<Rightarrow> nat option option" where
  "walk_side name s [] k = Some None"
| "walk_side name s (r # rs) k = do {
     c \<leftarrow> oct2strcmp (Some name) (Some (rs_name r));
     if 0 < s * c then walk_side name s rs (Suc k) else Some (if c = 0 then Some k else None) }"

definition one_level :: "octet \<Rightarrow> 'd level option \<Rightarrow> side option option" where
  "one_level name lv = (case lv of
      None \<Rightarrow> Some None
    | Some (ls, h, rs) \<Rightarrow> do {
        c \<leftarrow> oct2strcmp (Some name) (Some (rs_name h));
        if c < 0 then map_option (map_option Lft) (walk_side name (- 1) ls 0)
        else if 0 < c then map_option (map_option Rgt) (walk_side name 1 rs 0)
        else Some (Some Here) })"

fun walk_add :: "'d \<Rightarrow> octet \<Rightarrow> int \<Rightarrow> 'd ruleset list \<Rightarrow> nat \<Rightarrow> ('d ruleset list \<times> nat) option" where
  "walk_add z name s [] k = Some ([ruleset_new z name], k)"
| "walk_add z name s (r # rs) k = do {
     c \<leftarrow> oct2strcmp (Some name) (Some (rs_name r));
     if 0 < s * c then do { (rs', i) \<leftarrow> walk_add z name s rs (Suc k); Some (r # rs', i) }
     else if c = 0 then Some (r # rs, k)
     else Some (ruleset_new z name # r # rs, k) }"

definition add_to_level :: "'d \<Rightarrow> octet \<Rightarrow> 'd level \<Rightarrow> ('d level \<times> side) option" where
  "add_to_level z name lv = (case lv of (ls, h, rs) \<Rightarrow> do {
     c \<leftarrow> oct2strcmp (Some name) (Some (rs_name h));
     if c < 0 then do { (ls', i) \<leftarrow> walk_add z name (- 1) ls 0; Some ((ls', h, rs), Lft i) }
     else if 0 < c then do { (rs', i) \<leftarrow> walk_add z name 1 rs 0; Some ((ls, h, rs'), Rgt i) }
     else Some (lv, Here) })"

subsection \<open>Finding and creating rulesets\<close>

fun find_path :: "octet list \<Rightarrow> 'd ruleset \<Rightarrow> side list option option" where
  "find_path [] r = Some (Some [])"
| "find_path (n # ns) r = (case rs_down r of
      None \<Rightarrow> Some None
    | Some lv \<Rightarrow> do {
        p \<leftarrow> one_level n (Some lv);
        case p of
          None \<Rightarrow> Some None
        | Some i \<Rightarrow> map_option (map_option ((#) i)) (find_path ns (level_get lv i)) })"

fun create_path :: "'d \<Rightarrow> octet list \<Rightarrow> 'd ruleset \<Rightarrow> 'd ruleset option" where
  "create_path z [] r = Some r"
| "create_path z (n # ns) r = (case rs_down r of
      None \<Rightarrow> do {
        c \<leftarrow> create_path z ns (ruleset_new z n);
        Some (Ruleset (rs_name r) (rs_data r) (Some ([], c, []))) }
    | Some lv \<Rightarrow> do {
        p \<leftarrow> one_level n (Some lv);
        (lv', i) \<leftarrow> (case p of Some i \<Rightarrow> Some (lv, i) | None \<Rightarrow> add_to_level z n lv);
        c \<leftarrow> create_path z ns (level_get lv' i);
        Some (Ruleset (rs_name r) (rs_data r) (Some (level_put lv' i c))) })"

definition advance :: "octet \<Rightarrow> nat \<Rightarrow> octet" where
  "advance o1 k = o1\<lparr>oct_val := drop k (oct_val o1), oct_len := szsub (oct_len o1) k\<rparr>"

text \<open>The level of the root: the server part is its only neighbour.\<close>

definition root_level :: "'d forest \<Rightarrow> 'd level" where
  "root_level f = (case fo_server f of None \<Rightarrow> [] | Some s \<Rightarrow> [s], fo_root f, [])"

text \<open>The result of \<open>ruleset_find\<close>: whether the ruleset is below the server part, and its position;
  and what is left of the name.\<close>

definition ruleset_find :: "octet option \<Rightarrow> 'd forest \<Rightarrow> ((bool \<times> side list) option \<times> octet option) option" where
  "ruleset_find name f = (case name of
      None \<Rightarrow> Some (Some (False, []), None)
    | Some nm \<Rightarrow>
        if oct_len nm = 0 then Some (Some (False, []), name)
        else do {
          c0 \<leftarrow> rd (oct_val nm) 0;
          if c0 = CHR ''/'' \<and> oct_len nm = 1 then Some (Some (False, []), name)
          else do {
            c1 \<leftarrow> (if 2 \<le> oct_len nm \<and> c0 = CHR ''/'' then rd (oct_val nm) 1 else Some NUL);
            if c1 = CHR ''/'' then do {
              p \<leftarrow> one_level (oct_assign ''//'') (Some (root_level f));
              case p of
                None \<Rightarrow> Some (None, name)
              | Some _ \<Rightarrow>
                  if oct_len nm = 2 then Some (Some (True, []), Some (advance nm 2))
                  else do {
                    sv \<leftarrow> fo_server f;
                    let loc = advance nm 2;
                    (ns, pathlen) \<leftarrow> path_split loc;
                    q \<leftarrow> find_path ns sv;
                    Some (case q of None \<Rightarrow> (None, name)
                          | Some is \<Rightarrow> (Some (True, is), Some (advance loc pathlen))) } }
            else if c0 = CHR ''/'' then do {
              let loc = advance nm 1;
              (ns, pathlen) \<leftarrow> path_split loc;
              q \<leftarrow> find_path ns (fo_root f);
              Some (case q of None \<Rightarrow> (None, name)
                    | Some is \<Rightarrow> (Some (False, is), Some (advance loc pathlen))) }
            else Some (None, name) } })"

text \<open>\<open>ruleset_create\<close> for a tree that exists.\<close>

definition ruleset_create :: "'d \<Rightarrow> octet option \<Rightarrow> 'd forest \<Rightarrow> ('d forest \<times> octet option) option" where
  "ruleset_create z name f = (case name of
      None \<Rightarrow> Some (f, None)
    | Some nm \<Rightarrow>
        if oct_len nm = 0 then Some (f, name)
        else do {
          c0 \<leftarrow> rd (oct_val nm) 0;
          c1 \<leftarrow> (if 2 \<le> oct_len nm \<and> c0 = CHR ''/'' then rd (oct_val nm) 1 else Some NUL);
          if c1 = CHR ''/'' then do {
            p \<leftarrow> one_level (oct_assign ''//'') (Some (root_level f));
            sv \<leftarrow> (if p = None then Some (ruleset_new z (oct_assign ''//'')) else fo_server f);
            let loc = advance nm 2;
            (ns, pathlen) \<leftarrow> path_split loc;
            sv' \<leftarrow> create_path z ns sv;
            Some (f\<lparr>fo_server := Some sv'\<rparr>, Some (advance loc pathlen)) }
          else do {
            let loc = (if c0 = CHR ''/'' then advance nm 1 else nm);
            (ns, pathlen) \<leftarrow> path_split loc;
            r' \<leftarrow> create_path z ns (fo_root f);
            Some (f\<lparr>fo_root := r'\<rparr>, Some (advance loc pathlen)) } })"

subsection \<open>The tree as a map\<close>

text \<open>What the tree stands for: a map from paths to rulesets.\<close>

fun rs_get :: "'d ruleset \<Rightarrow> bytes list \<Rightarrow> 'd ruleset option" where
  "rs_get r [] = Some r"
| "rs_get r (n # ns) = (case find (\<lambda>k. rs_name k = n) (kids r) of None \<Rightarrow> None | Some k \<Rightarrow> rs_get k ns)"

text \<open>The invariant: the names of a level descend from left to right and none is empty.\<close>

definition higher :: "bytes \<Rightarrow> bytes \<Rightarrow> bool" where
  "higher a b \<longleftrightarrow> (b, a) \<in> lexord byte_order"

definition level_ok :: "'d ruleset list \<Rightarrow> bool" where
  "level_ok ks \<longleftrightarrow> sorted_wrt higher (map rs_name ks) \<and> (\<forall>k \<in> set ks. rs_name k \<noteq> [])"

definition rs_ok :: "'d ruleset \<Rightarrow> bool" where
  "rs_ok r \<longleftrightarrow> (\<forall>p x. rs_get r p = Some x \<longrightarrow> level_ok (kids x))"

lemma higher_irrefl [simp]: "\<not> higher a a"
  by (simp add: higher_def byte_order_def lexord_irreflexive)

lemma higher_trans: "higher a b \<Longrightarrow> higher b c \<Longrightarrow> higher a c"
  unfolding higher_def by (rule lexord_trans) (auto simp: byte_order_def trans_def)

lemma higher_linear: "a \<noteq> b \<Longrightarrow> \<not> higher a b \<Longrightarrow> higher b a"
  unfolding higher_def using lexord_linear [of byte_order a b] of_char_less_iff by (auto simp: byte_order_def)

lemma cmp_higher:
  assumes "wf_octet n" "s \<noteq> []"
  obtains c where "oct2strcmp (Some n) (Some s) = Some c" "c = 0 \<longleftrightarrow> s = content n"
    "c < 0 \<longleftrightarrow> higher (content n) s" "0 < c \<longleftrightarrow> higher s (content n)"
proof -
  obtain c where c: "oct2strcmp (Some n) (Some s) = Some c" "c = 0 \<longleftrightarrow> s = content n" "c < 0 \<longleftrightarrow> higher (content n) s"
    using oct2strcmp_reversed [OF assms] by (auto simp: higher_def)
  moreover have "0 < c \<longleftrightarrow> higher s (content n)"
  proof
    assume "0 < c"
    then show "higher s (content n)" using c(2,3) higher_linear [of "content n" s] by auto
  next
    assume "higher s (content n)"
    then have "s \<noteq> content n" "\<not> higher (content n) s" using higher_trans [of s "content n" s] by auto
    then show "0 < c" using c(2,3) by linarith
  qed
  ultimately show thesis by (rule that)
qed

lemma find_append: "find P (xs @ ys) = (case find P xs of None \<Rightarrow> find P ys | Some x \<Rightarrow> Some x)"
  by (induction xs) auto

lemma find_none: "(\<And>x. x \<in> set xs \<Longrightarrow> \<not> P x) \<Longrightarrow> find P xs = None"
  by (simp add: find_None_iff)

text \<open>The order in which the names are met on a walk.\<close>

definition dir :: "int \<Rightarrow> bytes \<Rightarrow> bytes \<Rightarrow> bool" where
  "dir s a b = (if s = 1 then higher a b else higher b a)"

lemma dir_irrefl [simp]: "\<not> dir s a a"
  by (simp add: dir_def)

lemma dir_trans: "dir s a b \<Longrightarrow> dir s b c \<Longrightarrow> dir s a c"
  by (auto simp: dir_def intro: higher_trans split: if_splits)

lemma dir_linear: "a \<noteq> b \<Longrightarrow> \<not> dir s a b \<Longrightarrow> dir s b a"
  using higher_linear by (auto simp: dir_def)

lemma cmp_dir:
  assumes "wf_octet n" "nm \<noteq> []" "s = 1 \<or> s = - 1"
  obtains c where "oct2strcmp (Some n) (Some nm) = Some c" "c = 0 \<longleftrightarrow> nm = content n"
    "0 < s * c \<longleftrightarrow> dir s nm (content n)"
proof -
  obtain c where "oct2strcmp (Some n) (Some nm) = Some c" "c = 0 \<longleftrightarrow> nm = content n"
    "c < 0 \<longleftrightarrow> higher (content n) nm" "0 < c \<longleftrightarrow> higher nm (content n)"
    using assms(1,2) by (rule cmp_higher)
  then show thesis using assms(3) by (intro that [of c]) (auto simp: dir_def)
qed

lemma walk_side_spec:
  assumes "wf_octet n" "s = 1 \<or> s = - 1"
  shows "sorted_wrt (dir s) (map rs_name rs) \<Longrightarrow> \<forall>r \<in> set rs. rs_name r \<noteq> [] \<Longrightarrow>
    \<exists>p. walk_side n s rs k = Some p \<and> (case p of None \<Rightarrow> \<forall>r \<in> set rs. rs_name r \<noteq> content n
      | Some i \<Rightarrow> k \<le> i \<and> i - k < length rs \<and> rs_name (rs ! (i - k)) = content n)"
proof (induction rs arbitrary: k)
  case (Cons r rs)
  obtain c where c: "oct2strcmp (Some n) (Some (rs_name r)) = Some c" "c = 0 \<longleftrightarrow> rs_name r = content n"
    "0 < s * c \<longleftrightarrow> dir s (rs_name r) (content n)"
    using cmp_dir [OF assms(1) _ assms(2)] Cons.prems by (metis list.set_intros(1))
  show ?case
  proof (cases "dir s (rs_name r) (content n)")
    case True
    then have "rs_name r \<noteq> content n" by (metis dir_irrefl)
    obtain p where p: "walk_side n s rs (Suc k) = Some p" "case p of None \<Rightarrow> \<forall>r \<in> set rs. rs_name r \<noteq> content n
      | Some i \<Rightarrow> Suc k \<le> i \<and> i - Suc k < length rs \<and> rs_name (rs ! (i - Suc k)) = content n"
      using Cons.IH [of "Suc k"] Cons.prems by auto
    have "(r # rs) ! (i - k) = rs ! (i - Suc k)" if "Suc k \<le> i" for i
      using that by (metis Suc_diff_le Suc_le_D diff_Suc_Suc nth_Cons_Suc Suc_le_mono)
    then show ?thesis using True c p \<open>rs_name r \<noteq> content n\<close> by (auto split: option.splits)
  next
    case False
    have "rs_name x \<noteq> content n" if "x \<in> set rs" "rs_name r \<noteq> content n" for x
      using that False Cons.prems(1) by auto
    then show ?thesis using False c by auto
  qed
qed simp

lemma walk_add_spec:
  assumes "wf_octet n" "s = 1 \<or> s = - 1"
  shows "sorted_wrt (dir s) (map rs_name rs) \<Longrightarrow> \<forall>r \<in> set rs. rs_name r \<noteq> [] \<and> rs_name r \<noteq> content n \<Longrightarrow>
    \<exists>j. walk_add z n s rs k = Some (take j rs @ ruleset_new z n # drop j rs, k + j) \<and> j \<le> length rs \<and>
      (\<forall>r \<in> set (take j rs). dir s (rs_name r) (content n)) \<and> (\<forall>r \<in> set (drop j rs). dir s (content n) (rs_name r))"
proof (induction rs arbitrary: k)
  case (Cons r rs)
  obtain c where c: "oct2strcmp (Some n) (Some (rs_name r)) = Some c" "c = 0 \<longleftrightarrow> rs_name r = content n"
    "0 < s * c \<longleftrightarrow> dir s (rs_name r) (content n)"
    using cmp_dir [OF assms(1) _ assms(2)] Cons.prems by (metis list.set_intros(1))
  show ?case
  proof (cases "dir s (rs_name r) (content n)")
    case True
    obtain j where j: "walk_add z n s rs (Suc k) = Some (take j rs @ ruleset_new z n # drop j rs, Suc k + j)" "j \<le> length rs"
      "\<forall>r \<in> set (take j rs). dir s (rs_name r) (content n)" "\<forall>r \<in> set (drop j rs). dir s (content n) (rs_name r)"
      using Cons.IH [of "Suc k"] Cons.prems by auto
    show ?thesis using True c j by (intro exI [of _ "Suc j"]) auto
  next
    case False
    then have "dir s (content n) (rs_name r)" using Cons.prems by (intro dir_linear) auto
    then have "\<forall>x \<in> set (r # rs). dir s (content n) (rs_name x)"
      using Cons.prems(1) dir_trans by auto
    then show ?thesis using False c Cons.prems by (intro exI [of _ 0]) auto
  qed
qed simp

subsection \<open>A level as a list\<close>

definition lvl :: "'d level \<Rightarrow> 'd ruleset list" where
  "lvl lv = (case lv of (ls, h, rs) \<Rightarrow> rev ls @ h # rs)"

fun lpos :: "'d level \<Rightarrow> side \<Rightarrow> nat" where
  "lpos (ls, h, rs) Here = length ls"
| "lpos (ls, h, rs) (Lft k) = length ls - Suc k"
| "lpos (ls, h, rs) (Rgt k) = length ls + Suc k"

fun side_ok :: "'d level \<Rightarrow> side \<Rightarrow> bool" where
  "side_ok (ls, h, rs) Here = True"
| "side_ok (ls, h, rs) (Lft k) = (k < length ls)"
| "side_ok (ls, h, rs) (Rgt k) = (k < length rs)"

lemma lvl_simp [simp]: "lvl (ls, h, rs) = rev ls @ h # rs"
  by (simp add: lvl_def)

lemma lpos_less: "side_ok lv i \<Longrightarrow> lpos lv i < length (lvl lv)"
  by (cases lv; cases i) auto

lemma level_get_nth: "side_ok lv i \<Longrightarrow> level_get lv i = lvl lv ! lpos lv i"
  by (cases lv; cases i) (auto simp: nth_append rev_nth)

lemma level_put_upd: "side_ok lv i \<Longrightarrow> lvl (level_put lv i r) = (lvl lv)[lpos lv i := r]"
  by (cases lv; cases i) (auto simp: list_update_append rev_update)

lemma level_ok_sides:
  "level_ok (rev ls @ h # rs) \<longleftrightarrow> sorted_wrt (dir (- 1)) (map rs_name ls) \<and> sorted_wrt (dir 1) (map rs_name rs) \<and>
     (\<forall>l \<in> set ls. higher (rs_name l) (rs_name h)) \<and> (\<forall>r \<in> set rs. higher (rs_name h) (rs_name r)) \<and>
     (\<forall>l \<in> set ls. \<forall>r \<in> set rs. higher (rs_name l) (rs_name r)) \<and> (\<forall>k \<in> set (rev ls @ h # rs). rs_name k \<noteq> [])"
  by (auto simp: level_ok_def sorted_wrt_append sorted_wrt_map sorted_wrt_rev dir_def)

lemma find_named:
  assumes "level_ok ks" "k \<in> set ks"
  shows "find (\<lambda>x. rs_name x = rs_name k) ks = Some k"
proof -
  obtain xs ys where ks: "ks = xs @ k # ys" using assms(2) by (auto simp: in_set_conv_decomp)
  then have "\<forall>x \<in> set xs. higher (rs_name x) (rs_name k)" using assms(1) by (auto simp: level_ok_def sorted_wrt_append)
  then have "find (\<lambda>x. rs_name x = rs_name k) xs = None" by (intro find_none) (metis higher_irrefl)
  then show ?thesis by (simp add: ks find_append)
qed

lemma one_level_spec:
  assumes n: "wf_octet n" and ok: "level_ok (lvl lv)"
  shows "\<exists>p. one_level n (Some lv) = Some p \<and>
    (case p of None \<Rightarrow> \<forall>k \<in> set (lvl lv). rs_name k \<noteq> content n
     | Some i \<Rightarrow> side_ok lv i \<and> rs_name (level_get lv i) = content n)"
proof -
  obtain ls h rs where lv: "lv = (ls, h, rs)" by (cases lv)
  have sides: "sorted_wrt (dir (- 1)) (map rs_name ls)" "sorted_wrt (dir 1) (map rs_name rs)"
     "\<forall>l \<in> set ls. higher (rs_name l) (rs_name h) \<and> rs_name l \<noteq> []" "\<forall>r \<in> set rs. higher (rs_name h) (rs_name r) \<and> rs_name r \<noteq> []"
     "rs_name h \<noteq> []"
    using ok by (auto simp: lv level_ok_sides)
  obtain c where c: "oct2strcmp (Some n) (Some (rs_name h)) = Some c" "c = 0 \<longleftrightarrow> rs_name h = content n"
    "c < 0 \<longleftrightarrow> higher (content n) (rs_name h)" "0 < c \<longleftrightarrow> higher (rs_name h) (content n)"
    using n sides(5) by (rule cmp_higher)
  obtain p where p: "walk_side n (- 1) ls 0 = Some p" "case p of None \<Rightarrow> \<forall>r \<in> set ls. rs_name r \<noteq> content n
      | Some i \<Rightarrow> i < length ls \<and> rs_name (ls ! i) = content n"
    using walk_side_spec [OF n, of "- 1" ls 0] sides by (auto cong: option.case_cong)
  obtain q where q: "walk_side n 1 rs 0 = Some q" "case q of None \<Rightarrow> \<forall>r \<in> set rs. rs_name r \<noteq> content n
      | Some i \<Rightarrow> i < length rs \<and> rs_name (rs ! i) = content n"
    using walk_side_spec [OF n, of 1 rs 0] sides by (auto cong: option.case_cong)
  consider "c < 0" | "0 < c" | "c = 0" by linarith
  then show ?thesis
  proof cases
    case 1
    then have "\<forall>r \<in> set rs. rs_name r \<noteq> content n" "rs_name h \<noteq> content n"
      using c(2,3) sides(4) higher_trans higher_irrefl by fastforce+
    then show ?thesis using 1 c(1) p by (auto simp: lv one_level_def split: option.splits)
  next
    case 2
    then have "\<forall>r \<in> set ls. rs_name r \<noteq> content n" "rs_name h \<noteq> content n"
      using c(2,4) sides(3) higher_trans higher_irrefl by fastforce+
    then show ?thesis using 2 c(1) q by (auto simp: lv one_level_def split: option.splits)
  next
    case 3
    then show ?thesis using c by (auto simp: lv one_level_def)
  qed
qed

lemma level_ok_insert:
  assumes "level_ok (xs @ ys)" "rs_name k \<noteq> []" "\<forall>x \<in> set xs. higher (rs_name x) (rs_name k)"
    "\<forall>y \<in> set ys. higher (rs_name k) (rs_name y)"
  shows "level_ok (xs @ k # ys)"
  using assms by (auto simp: level_ok_def sorted_wrt_append)

lemma add_to_level_spec:
  assumes n: "wf_octet n" "content n \<noteq> []" "NUL \<notin> set (content n)" and ok: "level_ok (lvl lv)"
    and fresh: "\<forall>k \<in> set (lvl lv). rs_name k \<noteq> content n"
  shows "\<exists>lv' i xs ys. add_to_level z n lv = Some (lv', i) \<and> side_ok lv' i \<and> level_ok (lvl lv') \<and>
    lvl lv = xs @ ys \<and> lvl lv' = xs @ Ruleset (content n) z None # ys \<and> level_get lv' i = Ruleset (content n) z None"
proof -
  obtain ls h rs where lv: "lv = (ls, h, rs)" by (cases lv)
  define new where "new = Ruleset (content n) z (None :: 'a level option)"
  have new: "ruleset_new z n = new"
    using n(3) by (simp add: ruleset_new_def new_def content_def) (metis takeWhile_eq_all_conv)
  have sides: "sorted_wrt (dir (- 1)) (map rs_name ls)" "sorted_wrt (dir 1) (map rs_name rs)"
     "\<forall>l \<in> set ls. higher (rs_name l) (rs_name h)" "\<forall>r \<in> set rs. higher (rs_name h) (rs_name r)"
     "rs_name h \<noteq> []" "\<forall>l \<in> set ls. rs_name l \<noteq> [] \<and> rs_name l \<noteq> content n" "\<forall>l \<in> set rs. rs_name l \<noteq> [] \<and> rs_name l \<noteq> content n"
    using ok fresh by (auto simp: lv level_ok_sides)
  obtain c where c: "oct2strcmp (Some n) (Some (rs_name h)) = Some c" "c = 0 \<longleftrightarrow> rs_name h = content n"
    "c < 0 \<longleftrightarrow> higher (content n) (rs_name h)" "0 < c \<longleftrightarrow> higher (rs_name h) (content n)"
    using n(1) sides(5) by (rule cmp_higher)
  have c0: "c \<noteq> 0" using c(2) fresh by (auto simp: lv)
  show ?thesis
  proof (cases "c < 0")
    case True
    obtain j where j: "walk_add z n (- 1) ls 0 = Some (take j ls @ new # drop j ls, j)" "j \<le> length ls"
      "\<forall>r \<in> set (take j ls). higher (content n) (rs_name r)" "\<forall>r \<in> set (drop j ls). higher (rs_name r) (content n)"
      using walk_add_spec [OF n(1), of "- 1" ls z 0] sides(1,6) by (auto simp: new dir_def)
    define xs ys where "xs = rev (drop j ls)" and "ys = rev (take j ls) @ h # rs"
    have "rev ls = rev (drop j ls) @ rev (take j ls)" by (metis append_take_drop_id rev_append)
    then have xy: "rev ls @ h # rs = xs @ ys" "rev (take j ls @ new # drop j ls) @ h # rs = xs @ new # ys"
      by (simp_all add: xs_def ys_def)
    have "\<forall>r \<in> set rs. higher (content n) (rs_name r)" using sides(4) True c(3) higher_trans by blast
    moreover have "level_ok (xs @ ys)" using ok by (simp add: lv xy(1))
    ultimately have "level_ok (xs @ new # ys)"
      using True c(3) j(3,4) n(2) by (intro level_ok_insert) (auto simp: xs_def ys_def new_def)
    then show ?thesis
      using True c(1) j xy by (intro exI [of _ "(take j ls @ new # drop j ls, h, rs)"] exI [of _ "Lft j"] exI [of _ xs] exI [of _ ys])
        (auto simp: lv add_to_level_def new_def nth_append)
  next
    case False
    then have pos: "0 < c" using c0 by linarith
    obtain j where j: "walk_add z n 1 rs 0 = Some (take j rs @ new # drop j rs, j)" "j \<le> length rs"
      "\<forall>r \<in> set (take j rs). higher (rs_name r) (content n)" "\<forall>r \<in> set (drop j rs). higher (content n) (rs_name r)"
      using walk_add_spec [OF n(1), of 1 rs z 0] sides(2,7) by (auto simp: new dir_def)
    define xs ys where "xs = rev ls @ h # take j rs" and "ys = drop j rs"
    have xy: "rev ls @ h # rs = xs @ ys" "rev ls @ h # (take j rs @ new # drop j rs) = xs @ new # ys"
      by (simp_all add: xs_def ys_def)
    have "\<forall>r \<in> set ls. higher (rs_name r) (content n)" using sides(3) pos c(4) higher_trans by blast
    moreover have "level_ok (xs @ ys)" using ok by (simp add: lv xy(1))
    ultimately have "level_ok (xs @ new # ys)"
      using pos c(4) j(3,4) n(2) by (intro level_ok_insert) (auto simp: xs_def ys_def new_def)
    then show ?thesis
      using pos c(1) j xy by (intro exI [of _ "(ls, h, take j rs @ new # drop j rs)"] exI [of _ "Rgt j"] exI [of _ xs] exI [of _ ys])
        (auto simp: lv add_to_level_def new_def nth_append)
  qed
qed

subsection \<open>Paths in the tree\<close>

lemma kids_lvl: "rs_down r = Some lv \<Longrightarrow> kids r = lvl lv"
  by (cases lv) (simp add: kids_def)

lemma rs_ok_unfold: "rs_ok r \<longleftrightarrow> level_ok (kids r) \<and> (\<forall>k \<in> set (kids r). rs_ok k)"
proof
  assume ok: "rs_ok r"
  then have l: "level_ok (kids r)" unfolding rs_ok_def by (metis rs_get.simps(1))
  moreover have "rs_ok k" if "k \<in> set (kids r)" for k
    unfolding rs_ok_def
  proof (intro allI impI)
    fix p x assume "rs_get k p = Some x"
    then have "rs_get r (rs_name k # p) = Some x" using find_named [OF l that] by simp
    then show "level_ok (kids x)" using ok unfolding rs_ok_def by blast
  qed
  ultimately show "level_ok (kids r) \<and> (\<forall>k \<in> set (kids r). rs_ok k)" by blast
next
  assume ok: "level_ok (kids r) \<and> (\<forall>k \<in> set (kids r). rs_ok k)"
  show "rs_ok r"
    unfolding rs_ok_def
  proof (intro allI impI)
    fix p x assume g: "rs_get r p = Some x"
    show "level_ok (kids x)"
    proof (cases p)
      case Nil then show ?thesis using g ok by simp
    next
      case (Cons n ns)
      then obtain k where "find (\<lambda>y. rs_name y = n) (kids r) = Some k" "rs_get k ns = Some x"
        using g by (auto split: option.splits)
      moreover from this have "k \<in> set (kids r)" by (auto simp: find_Some_iff)
      ultimately show ?thesis using ok unfolding rs_ok_def by blast
    qed
  qed
qed

text \<open>A piece of a path.\<close>

definition piece_ok :: "octet \<Rightarrow> bool" where
  "piece_ok n \<longleftrightarrow> wf_octet n \<and> content n \<noteq> [] \<and> NUL \<notin> set (content n)"

fun at_path :: "'d ruleset \<Rightarrow> side list \<Rightarrow> 'd ruleset option" where
  "at_path r [] = Some r"
| "at_path r (i # is) = (case rs_down r of None \<Rightarrow> None | Some lv \<Rightarrow> if side_ok lv i then at_path (level_get lv i) is else None)"

lemma find_path_spec:
  "rs_ok r \<Longrightarrow> \<forall>n \<in> set ns. piece_ok n \<Longrightarrow>
   \<exists>q. find_path ns r = Some q \<and> rs_get r (map content ns) = (case q of None \<Rightarrow> None | Some is \<Rightarrow> at_path r is)
     \<and> (\<forall>is. q = Some is \<longrightarrow> at_path r is \<noteq> None)"
proof (induction ns arbitrary: r)
  case (Cons n ns)
  show ?case
  proof (cases "rs_down r")
    case None
    then show ?thesis by (simp add: kids_def)
  next
    case (Some lv)
    have ok: "level_ok (lvl lv)" "\<forall>k \<in> set (lvl lv). rs_ok k"
      using Cons.prems(1) rs_ok_unfold [of r] by (auto simp: kids_lvl [OF Some])
    obtain p where p: "one_level n (Some lv) = Some p"
       "case p of None \<Rightarrow> \<forall>k \<in> set (lvl lv). rs_name k \<noteq> content n
        | Some i \<Rightarrow> side_ok lv i \<and> rs_name (level_get lv i) = content n"
      using one_level_spec [OF _ ok(1), of n] Cons.prems by (auto simp: piece_ok_def)
    show ?thesis
    proof (cases p)
      case None
      then have "find (\<lambda>k. rs_name k = content n) (kids r) = None" using p by (auto simp: kids_lvl [OF Some] find_None_iff)
      then show ?thesis using None p Some by simp
    next
      case (Some i)
      then have i: "side_ok lv i" "rs_name (level_get lv i) = content n" using p by auto
      then have m: "level_get lv i \<in> set (lvl lv)" by (simp add: level_get_nth lpos_less)
      then have "find (\<lambda>k. rs_name k = content n) (kids r) = Some (level_get lv i)"
        using find_named [OF ok(1) m] i(2) by (simp add: kids_lvl [OF \<open>rs_down r = Some lv\<close>])
      moreover obtain q where "find_path ns (level_get lv i) = Some q"
        "rs_get (level_get lv i) (map content ns) = (case q of None \<Rightarrow> None | Some is \<Rightarrow> at_path (level_get lv i) is)"
        "\<forall>is. q = Some is \<longrightarrow> at_path (level_get lv i) is \<noteq> None"
        using Cons.IH [of "level_get lv i"] Cons.prems m ok(2) by auto
      ultimately show ?thesis using i p(1) Some \<open>rs_down r = Some lv\<close> by (auto split: option.splits)
    qed
  qed
qed simp

lemma level_ok_update:
  assumes "level_ok ks" "i < length ks" "rs_name c = rs_name (ks ! i)"
  shows "level_ok (ks[i := c])"
proof -
  have "map rs_name (ks[i := c]) = map rs_name ks" using assms(2,3) by (metis list_update_id map_update nth_map)
  moreover have "\<forall>k \<in> set (ks[i := c]). rs_name k \<noteq> []"
    using assms set_update_subset_insert [of ks i c] nth_mem [OF assms(2)] by (metis insertE level_ok_def subsetD)
  ultimately show ?thesis using assms(1) by (simp add: level_ok_def)
qed

lemma find_update:
  assumes ok: "level_ok ks" and i: "i < length ks" "rs_name c = rs_name (ks ! i)"
  shows "find (\<lambda>k. rs_name k = m) (ks[i := c]) = (if m = rs_name c then Some c else find (\<lambda>k. rs_name k = m) ks)"
proof (cases "m = rs_name c")
  case True
  then show ?thesis using find_named [OF level_ok_update [OF assms], of c] i(1) by (simp add: set_update_memI)
next
  case False
  have ks: "ks = take i ks @ ks ! i # drop (Suc i) ks" using i(1) by (simp add: id_take_nth_drop)
  have "find (\<lambda>k. rs_name k = m) ks = find (\<lambda>k. rs_name k = m) (take i ks @ ks ! i # drop (Suc i) ks)"
    using ks by simp
  then show ?thesis using False i by (auto simp: upd_conv_take_nth_drop find_append split: option.split)
qed

lemma find_insert:
  assumes "level_ok (xs @ k # ys)"
  shows "find (\<lambda>x. rs_name x = m) (xs @ k # ys) = (if m = rs_name k then Some k else find (\<lambda>x. rs_name x = m) (xs @ ys))"
  using find_named [OF assms, of k] by (auto simp: find_append split: option.splits)

text \<open>What \<open>create_path\<close> does to the map: the rulesets on the path are there afterwards, the new
  ones with nothing in them, and all others are as before.\<close>

definition opened :: "'d \<Rightarrow> bytes list \<Rightarrow> 'd ruleset \<Rightarrow> 'd ruleset \<Rightarrow> bool" where
  "opened z p r r' \<longleftrightarrow> rs_name r' = rs_name r \<and> rs_data r' = rs_data r \<and> rs_ok r' \<and>
     (\<forall>q. map_option rs_data (rs_get r' q) =
        (if rs_get r q = None \<and> prefix q p then Some z else map_option rs_data (rs_get r q)))"

lemma rs_get_leaf: "rs_get (Ruleset nm d None) q = (if q = [] then Some (Ruleset nm d None) else None)"
  by (cases q) (auto simp: kids_def)

lemma rs_ok_leaf [simp]: "rs_ok (Ruleset nm d None)"
  by (auto simp: rs_ok_def rs_get_leaf kids_def level_ok_def)

lemma opened_kid:
  assumes ok: "rs_ok r" and lv: "rs_down r = Some lv" and i: "side_ok lv' i" "rs_name (level_get lv' i) = n"
    and ok': "level_ok (lvl lv')" "\<forall>k \<in> set (lvl lv'). rs_ok k"
    and kids: "\<And>m. find (\<lambda>k. rs_name k = m) (lvl lv') =
      (case find (\<lambda>k. rs_name k = m) (lvl lv) of Some k \<Rightarrow> Some k | None \<Rightarrow> if m = n then Some (Ruleset n z None) else None)"
    and c: "opened z p (level_get lv' i) c"
  shows "opened z (n # p) r (Ruleset (rs_name r) (rs_data r) (Some (level_put lv' i c)))"
proof -
  let ?r' = "Ruleset (rs_name r) (rs_data r) (Some (level_put lv' i c))"
  have j: "lpos lv' i < length (lvl lv')" "lvl lv' ! lpos lv' i = level_get lv' i"
    using i(1) by (simp_all add: lpos_less level_get_nth)
  have cn: "rs_name c = n" "rs_ok c" using c i(2) by (auto simp: opened_def)
  have kids': "kids ?r' = (lvl lv')[lpos lv' i := c]"
    using level_put_upd [OF i(1), of c] by (simp add: kids_def lvl_def)
  have "level_ok (kids ?r')" using level_ok_update [OF ok'(1) j(1), of c] j(2) cn(1) i(2) by (simp add: kids')
  moreover have "\<forall>k \<in> set (kids ?r'). rs_ok k"
    using ok'(2) cn(2) set_update_subset_insert [of "lvl lv'" "lpos lv' i" c] by (auto simp: kids')
  ultimately have "rs_ok ?r'" by (simp add: rs_ok_unfold [of ?r'])
  moreover have "map_option rs_data (rs_get ?r' q) =
      (if rs_get r q = None \<and> prefix q (n # p) then Some z else map_option rs_data (rs_get r q))" for q
  proof (cases q)
    case (Cons m ms)
    have f: "find (\<lambda>k. rs_name k = m) (kids ?r') = (if m = n then Some c else find (\<lambda>k. rs_name k = m) (lvl lv'))"
      using find_update [OF ok'(1) j(1), of c m] j(2) cn(1) i(2) by (simp add: kids')
    show ?thesis
    proof (cases "m = n")
      case True
      have g: "find (\<lambda>k. rs_name k = n) (lvl lv') = Some (level_get lv' i)"
        using find_named [OF ok'(1), of "level_get lv' i"] i(2) j by (metis nth_mem)
      have gr: "rs_get r q = (case find (\<lambda>k. rs_name k = n) (lvl lv) of None \<Rightarrow> None | Some k \<Rightarrow> rs_get k ms)"
        by (simp add: Cons True kids_lvl [OF lv])
      have "map_option rs_data (rs_get c ms) = (if rs_get (level_get lv' i) ms = None \<and> prefix ms p then Some z
          else map_option rs_data (rs_get (level_get lv' i) ms))"
        using c by (simp add: opened_def)
      moreover have "rs_get ?r' q = rs_get c ms" using f True by (simp add: Cons)
      moreover have "level_get lv' i = (case find (\<lambda>k. rs_name k = n) (lvl lv) of None \<Rightarrow> Ruleset n z None | Some k \<Rightarrow> k)"
        using g kids [of n] by (auto split: option.splits)
      moreover have "prefix q (n # p) \<longleftrightarrow> prefix ms p" by (simp add: Cons True)
      ultimately show ?thesis
        using gr by (cases "find (\<lambda>k. rs_name k = n) (lvl lv)") (simp_all add: rs_get_leaf del: rs_get.simps)
    next
      case False
      then show ?thesis using f kids [of m] by (auto simp: Cons kids_lvl [OF lv] split: option.splits)
    qed
  qed simp
  ultimately show ?thesis by (simp add: opened_def)
qed

lemma create_path_opened:
  "rs_ok r \<Longrightarrow> \<forall>n \<in> set ns. piece_ok n \<Longrightarrow> \<exists>r'. create_path z ns r = Some r' \<and> opened z (map content ns) r r'"
proof (induction ns arbitrary: r)
  case Nil
  then show ?case by (auto simp: opened_def)
next
  case (Cons n ns)
  have n: "wf_octet n" "content n \<noteq> []" "NUL \<notin> set (content n)" using Cons.prems(2) by (auto simp: piece_ok_def)
  show ?case
  proof (cases "rs_down r")
    case None
    have new: "ruleset_new z n = Ruleset (content n) z None"
      using n(3) by (simp add: ruleset_new_def content_def) (metis takeWhile_eq_all_conv)
    obtain c where c: "create_path z ns (Ruleset (content n) z None) = Some c"
        "opened z (map content ns) (Ruleset (content n) z None) c"
      using Cons.IH [of "Ruleset (content n) z None"] Cons.prems(2) by auto
    have cn: "rs_name c = content n" "rs_ok c" using c(2) by (auto simp: opened_def)
    define r' where "r' = Ruleset (rs_name r) (rs_data r) (Some ([], c, []))"
    have k: "kids r' = [c]" by (simp add: r'_def kids_def)
    have "rs_ok r'" using cn n(2) by (simp add: rs_ok_unfold [of r'] k level_ok_def)
    moreover have "map_option rs_data (rs_get r' q) =
        (if rs_get r q = None \<and> prefix q (map content (n # ns)) then Some z else map_option rs_data (rs_get r q))" for q
      using c(2) None cn(1) by (cases q) (auto simp: k r'_def kids_def opened_def rs_get_leaf split: if_splits)
    ultimately show ?thesis using c(1) None by (auto simp: new opened_def r'_def)
  next
    case (Some lv)
    have ok: "level_ok (lvl lv)" "\<forall>k \<in> set (lvl lv). rs_ok k"
      using Cons.prems(1) rs_ok_unfold [of r] by (auto simp: kids_lvl [OF Some])
    obtain p where p: "one_level n (Some lv) = Some p"
       "case p of None \<Rightarrow> \<forall>k \<in> set (lvl lv). rs_name k \<noteq> content n
        | Some i \<Rightarrow> side_ok lv i \<and> rs_name (level_get lv i) = content n"
      using one_level_spec [OF n(1) ok(1)] by auto
    obtain lv' i where l: "(case p of Some i \<Rightarrow> Some (lv, i) | None \<Rightarrow> add_to_level z n lv) = Some (lv', i)"
      and i: "side_ok lv' i" "rs_name (level_get lv' i) = content n" "rs_ok (level_get lv' i)"
      and ok': "level_ok (lvl lv')" "\<forall>k \<in> set (lvl lv'). rs_ok k"
      and kids: "\<And>m. find (\<lambda>k. rs_name k = m) (lvl lv') =
        (case find (\<lambda>k. rs_name k = m) (lvl lv) of Some k \<Rightarrow> Some k | None \<Rightarrow> if m = content n then Some (Ruleset (content n) z None) else None)"
    proof (cases p)
      case None
      then have fresh: "\<forall>k \<in> set (lvl lv). rs_name k \<noteq> content n" using p by simp
      obtain lv' i xs ys where a: "add_to_level z n lv = Some (lv', i)" "side_ok lv' i" "level_ok (lvl lv')"
        "lvl lv = xs @ ys" "lvl lv' = xs @ Ruleset (content n) z None # ys" "level_get lv' i = Ruleset (content n) z None"
        using add_to_level_spec [OF n ok(1) fresh, of z] by (elim exE conjE) (rule that, assumption+)
      have "find (\<lambda>k. rs_name k = content n) (xs @ ys) = None" using fresh a(4) by (auto simp: find_None_iff)
      then have "find (\<lambda>k. rs_name k = m) (lvl lv') =
        (case find (\<lambda>k. rs_name k = m) (lvl lv) of Some k \<Rightarrow> Some k | None \<Rightarrow> if m = content n then Some (Ruleset (content n) z None) else None)" for m
        using find_insert [of xs "Ruleset (content n) z None" ys m] a(3,4,5) by (auto split: option.split)
      then show thesis using None a ok by (intro that [of lv' i]) auto
    next
      case (Some j)
      then have j: "side_ok lv j" "rs_name (level_get lv j) = content n" using p by auto
      then have m: "level_get lv j \<in> set (lvl lv)" by (simp add: level_get_nth lpos_less)
      then have "find (\<lambda>k. rs_name k = content n) (lvl lv) = Some (level_get lv j)"
        using find_named [OF ok(1) m] j(2) by simp
      then show thesis using Some j m ok by (intro that [of lv j]) (auto split: option.split)
    qed
    obtain c where c: "create_path z ns (level_get lv' i) = Some c" "opened z (map content ns) (level_get lv' i) c"
      using Cons.IH [OF i(3)] Cons.prems(2) by auto
    have "opened z (content n # map content ns) r (Ruleset (rs_name r) (rs_data r) (Some (level_put lv' i c)))"
      using opened_kid [OF Cons.prems(1) Some i(1,2) ok' kids c(2)] .
    then show ?thesis using Some p(1) l c(1) by simp
  qed
qed

subsection \<open>The texts of paths\<close>

definition name_ok :: "bytes \<Rightarrow> bool" where
  "name_ok n \<longleftrightarrow> n \<noteq> [] \<and> (\<forall>c \<in> set n. DIRCHAR c \<and> c \<noteq> CHR ''/'' \<and> c \<noteq> NUL)"

definition path_text :: "bytes list \<Rightarrow> bytes" where
  "path_text p = concat (map ((#) CHR ''/'') p)"

lemma path_pieces_Nil [simp]: "path_pieces [] = []"
  by (subst path_pieces.simps) simp

lemma path_text_Cons: "path_text (n # p) = CHR ''/'' # n @ path_text p"
  by (simp add: path_text_def)

lemma count_while_all: "\<forall>c \<in> set s. P c \<Longrightarrow> \<not> P d \<Longrightarrow> count_while P (s @ d # x) = Some (length s)"
  by (induction s) auto

lemma name_ok_plain: "name_ok n \<Longrightarrow> n \<noteq> [] \<and> NUL \<notin> set n \<and> CHR ''/'' \<notin> set n"
  by (meson name_ok_def)

lemma path_pieces_text:
  "name_ok n \<Longrightarrow> \<forall>m \<in> set p. name_ok m \<Longrightarrow> length (n @ path_text p) < 2 ^ 31 \<Longrightarrow>
   map content (path_pieces (n @ path_text p)) = n # p \<and> (\<forall>o1 \<in> set (path_pieces (n @ path_text p)). piece_ok o1)"
proof (induction p arbitrary: n)
  case Nil
  then have tw: "takeWhile (\<lambda>c. c \<noteq> CHR ''/'') n = n" "n \<noteq> []" by (auto simp: name_ok_def takeWhile_eq_all_conv)
  have "path_pieces n = [\<lparr>oct_val = n @ [NUL], oct_len = length n, oct_size = 0\<rparr>]"
    unfolding path_pieces.simps [of n] tw(1) Let_def using tw(2) by simp
  then show ?case using name_ok_plain [OF Nil.prems(1)] Nil.prems(3) by (simp add: path_text_def content_def piece_ok_def wf_octet_def)
next
  case (Cons m p)
  define t where "t = path_text p"
  have n: "\<forall>c \<in> set n. c \<noteq> CHR ''/''" "n \<noteq> []" and m: "name_ok m" using Cons.prems by (auto simp: name_ok_def)
  then obtain d u where d: "m = d # u" "d \<noteq> CHR ''/''" by (cases m) (auto simp: name_ok_def)
  have tw: "takeWhile (\<lambda>c. c \<noteq> CHR ''/'') (n @ CHR ''/'' # m @ t) = n" using n(1) by (simp add: takeWhile_append2)
  have pt: "path_text (m # p) = CHR ''/'' # m @ t" by (simp add: path_text_def t_def)
  have dw: "dropWhile (\<lambda>c. c = CHR ''/'') (m @ t) = m @ t" using d by simp
  have "path_pieces (n @ path_text (m # p)) =
      \<lparr>oct_val = n @ path_text (m # p) @ [NUL], oct_len = length n, oct_size = 0\<rparr> # path_pieces (m @ t)"
    using n(2) by (subst path_pieces.simps) (simp add: pt tw dw Let_def)
  then show ?case
    using Cons.IH [OF m] Cons.prems(2,3) name_ok_plain [OF Cons.prems(1)]
    by (simp add: t_def path_text_Cons content_def piece_ok_def wf_octet_def)
qed

lemma path_split_text:
  assumes "name_ok n" "\<forall>m \<in> set p. name_ok m" "\<not> DIRCHAR d" "d \<noteq> CHR ''/''" "length (n @ path_text p) < 2 ^ 31"
  shows "\<exists>ns. path_split \<lparr>oct_val = n @ path_text p @ d # x, oct_len = l, oct_size = sz\<rparr> = Some (ns, length (n @ path_text p)) \<and>
    map content ns = n # p \<and> (\<forall>o1 \<in> set ns. piece_ok o1)"
proof -
  obtain c u where n: "n = c # u" "c \<noteq> CHR ''/''" using assms(1) by (cases n) (auto simp: name_ok_def)
  have "count_while (\<lambda>c. c = CHR ''/'') (n @ path_text p @ d # x) = Some 0" using n by simp
  moreover have "\<forall>c \<in> set (n @ path_text p). c = CHR ''/'' \<or> DIRCHAR c"
    using assms(1,2) by (auto simp: name_ok_def path_text_def)
  then have "count_while (\<lambda>c. c = CHR ''/'' \<or> DIRCHAR c) ((n @ path_text p) @ d # x) = Some (length (n @ path_text p))"
    using assms(3,4) by (intro count_while_all) auto
  ultimately show ?thesis using path_pieces_text [OF assms(1,2,5)] by (simp add: path_split_def)
qed

text \<open>A path as an argument: its text, and a NUL behind it.\<close>

abbreviation path_arg :: "bytes list \<Rightarrow> bytes \<Rightarrow> nat \<Rightarrow> octet" where
  "path_arg p x sz \<equiv> view (path_text p) (NUL # x) sz"

lemma path_arg_read:
  assumes "name_ok n" "\<forall>m \<in> set p. name_ok m" "length (path_text (n # p)) < 2 ^ 31"
  obtains ns d where "path_split (view (n @ path_text p) (NUL # x) sz) = Some (ns, length (n @ path_text p))"
    "map content ns = n # p" "\<forall>o1 \<in> set ns. piece_ok o1"
    "advance (path_arg (n # p) x sz) 1 = view (n @ path_text p) (NUL # x) sz"
    "advance (view (n @ path_text p) (NUL # x) sz) (length (n @ path_text p)) = view [] (NUL # x) sz"
    "rd (oct_val (path_arg (n # p) x sz)) 0 = Some CHR ''/''" "rd (oct_val (path_arg (n # p) x sz)) 1 = Some d"
    "d \<noteq> CHR ''/''" "2 \<le> oct_len (path_arg (n # p) x sz)"
proof -
  have nd: "\<not> DIRCHAR NUL" by code_simp
  have L: "length (n @ path_text p) < 2 ^ 31" using assms(3) by (simp add: path_text_Cons)
  obtain ns where ns: "path_split (view (n @ path_text p) (NUL # x) sz) = Some (ns, length (n @ path_text p))"
      "map content ns = n # p" "\<forall>o1 \<in> set ns. piece_ok o1"
    using path_split_text [OF assms(1,2) nd _ L, of x "length (n @ path_text p)" sz] by (auto simp: view_def)
  obtain d u where d: "n = d # u" "d \<noteq> CHR ''/''" using name_ok_plain [OF assms(1)] by (cases n) auto
  have "advance (path_arg (n # p) x sz) 1 = view (n @ path_text p) (NUL # x) sz"
      "advance (view (n @ path_text p) (NUL # x) sz) (length (n @ path_text p)) = view [] (NUL # x) sz"
    using L by (simp_all add: advance_def view_def path_text_Cons)
  moreover have "rd (oct_val (path_arg (n # p) x sz)) 0 = Some CHR ''/''" "rd (oct_val (path_arg (n # p) x sz)) 1 = Some d"
      "2 \<le> oct_len (path_arg (n # p) x sz)"
    using d by (simp_all add: path_text_Cons rd_def)
  ultimately show thesis using ns d(2) by (intro that [of ns d])
qed

lemma ruleset_create_path:
  assumes "name_ok n" "\<forall>m \<in> set p. name_ok m" "length (path_text (n # p)) < 2 ^ 31"
  obtains ns where "map content ns = n # p" "\<forall>o1 \<in> set ns. piece_ok o1"
    "ruleset_create z (Some (path_arg (n # p) x sz)) f =
       map_option (\<lambda>r'. (f\<lparr>fo_root := r'\<rparr>, Some (view [] (NUL # x) sz))) (create_path z ns (fo_root f))"
proof (rule path_arg_read [OF assms, of x sz])
  fix ns d assume a: "path_split (view (n @ path_text p) (NUL # x) sz) = Some (ns, length (n @ path_text p))"
    "map content ns = n # p" "\<forall>o1 \<in> set ns. piece_ok o1"
    "advance (path_arg (n # p) x sz) 1 = view (n @ path_text p) (NUL # x) sz"
    "advance (view (n @ path_text p) (NUL # x) sz) (length (n @ path_text p)) = view [] (NUL # x) sz"
    "rd (oct_val (path_arg (n # p) x sz)) 0 = Some CHR ''/''" "rd (oct_val (path_arg (n # p) x sz)) 1 = Some d"
    "d \<noteq> CHR ''/''" "2 \<le> oct_len (path_arg (n # p) x sz)"
  then have "ruleset_create z (Some (path_arg (n # p) x sz)) f =
       map_option (\<lambda>r'. (f\<lparr>fo_root := r'\<rparr>, Some (view [] (NUL # x) sz))) (create_path z ns (fo_root f))"
    by (cases "create_path z ns (fo_root f)") (auto simp: ruleset_create_def simp del: view_simps)
  then show thesis using a(2,3) by (intro that)
qed

lemma ruleset_find_path:
  assumes "name_ok n" "\<forall>m \<in> set p. name_ok m" "length (path_text (n # p)) < 2 ^ 31" and ok: "rs_ok (fo_root f)"
  shows "\<exists>res o1. ruleset_find (Some (path_arg (n # p) x sz)) f = Some (res, o1) \<and>
    (case res of None \<Rightarrow> rs_get (fo_root f) (n # p) = None
     | Some (sv, is) \<Rightarrow> \<not> sv \<and> at_path (fo_root f) is = rs_get (fo_root f) (n # p) \<and> rs_get (fo_root f) (n # p) \<noteq> None)"
proof (rule path_arg_read [OF assms(1-3), of x sz])
  fix ns d assume a: "path_split (view (n @ path_text p) (NUL # x) sz) = Some (ns, length (n @ path_text p))"
    "map content ns = n # p" "\<forall>o1 \<in> set ns. piece_ok o1"
    "advance (path_arg (n # p) x sz) 1 = view (n @ path_text p) (NUL # x) sz"
    "advance (view (n @ path_text p) (NUL # x) sz) (length (n @ path_text p)) = view [] (NUL # x) sz"
    "rd (oct_val (path_arg (n # p) x sz)) 0 = Some CHR ''/''" "rd (oct_val (path_arg (n # p) x sz)) 1 = Some d"
    "d \<noteq> CHR ''/''" "2 \<le> oct_len (path_arg (n # p) x sz)"
  obtain q where q: "find_path ns (fo_root f) = Some q"
      "rs_get (fo_root f) (n # p) = (case q of None \<Rightarrow> None | Some is \<Rightarrow> at_path (fo_root f) is)"
      "\<forall>is. q = Some is \<longrightarrow> at_path (fo_root f) is \<noteq> None"
    using find_path_spec [OF ok a(3)] a(2) by auto
  have "ruleset_find (Some (path_arg (n # p) x sz)) f = Some (case q of
      None \<Rightarrow> (None, Some (path_arg (n # p) x sz)) | Some is \<Rightarrow> (Some (False, is), Some (view [] (NUL # x) sz)))"
    using a q(1) by (auto simp: ruleset_find_def simp del: view_simps split: option.split)
  then show ?thesis using q(2,3) by (auto split: option.splits)
qed

text \<open>C21: Creating a ruleset and finding it. For a tree whose levels are in order, \<open>ruleset_create\<close>
  succeeds for every path of non-empty names, keeps the order, makes the missing rulesets of the path
  with nothing in them and leaves all other rulesets and their contents as they were; and afterwards
  \<open>ruleset_find\<close>, which walks from the first ruleset of every level to one side only, finds the ruleset
  of every such path that exists, and no other.\<close>

theorem ruleset_create_find:
  assumes "rs_ok (fo_root f)" and "name_ok n" "\<forall>m \<in> set p. name_ok m" "length (path_text (n # p)) < 2 ^ 31"
    and "name_ok n'" "\<forall>m \<in> set p'. name_ok m" "length (path_text (n' # p')) < 2 ^ 31"
  shows "\<exists>f'. ruleset_create z (Some (path_arg (n # p) x sz)) f = Some (f', Some (view [] (NUL # x) sz)) \<and>
    fo_server f' = fo_server f \<and> rs_ok (fo_root f') \<and>
    (\<forall>q. map_option rs_data (rs_get (fo_root f') q) =
       (if rs_get (fo_root f) q = None \<and> prefix q (n # p) then Some z else map_option rs_data (rs_get (fo_root f) q))) \<and>
    (\<exists>res o1. ruleset_find (Some (path_arg (n' # p') x sz)) f' = Some (res, o1) \<and>
       (case res of None \<Rightarrow> rs_get (fo_root f') (n' # p') = None
        | Some (sv, is) \<Rightarrow> \<not> sv \<and> at_path (fo_root f') is = rs_get (fo_root f') (n' # p') \<and>
            rs_get (fo_root f') (n' # p') \<noteq> None))"
proof (rule ruleset_create_path [OF assms(2-4), of z x sz f])
  fix ns assume a: "map content ns = n # p" "\<forall>o1 \<in> set ns. piece_ok o1"
    "ruleset_create z (Some (path_arg (n # p) x sz)) f =
       map_option (\<lambda>r'. (f\<lparr>fo_root := r'\<rparr>, Some (view [] (NUL # x) sz))) (create_path z ns (fo_root f))"
  obtain r' where r': "create_path z ns (fo_root f) = Some r'" "opened z (n # p) (fo_root f) r'"
    using create_path_opened [OF assms(1) a(2), of z] a(1) by auto
  then have "rs_ok (fo_root (f\<lparr>fo_root := r'\<rparr>))" by (simp add: opened_def)
  then show ?thesis
    using a(3) r' ruleset_find_path [OF assms(5-7), of "f\<lparr>fo_root := r'\<rparr>" x sz]
    by (intro exI [of _ "f\<lparr>fo_root := r'\<rparr>"]) (simp add: opened_def)
qed

definition one_ruleset :: "nat forest" where
  "one_ruleset = \<lparr>fo_server = None, fo_root = Ruleset [] 7 None\<rparr>"

theorem ruleset_create_find_witness:
  "\<exists>f'. ruleset_create 0 (Some (view (path_text [''a'', ''b'']) [NUL] 0)) one_ruleset = Some (f', Some (view [] [NUL] 0)) \<and>
    rs_get (fo_root f') [''a''] \<noteq> None"
proof -
  have ok: "name_ok ''a''" "\<forall>m \<in> set [''b'']. name_ok m" by code_simp+
  have r: "rs_ok (fo_root one_ruleset)" by (simp add: one_ruleset_def)
  have L: "length (path_text [''a'', ''b'']) < 2 ^ 31" by (simp add: path_text_def)
  obtain f' where f': "ruleset_create 0 (Some (view (path_text [''a'', ''b'']) [NUL] 0)) one_ruleset = Some (f', Some (view [] [NUL] 0))"
    "\<forall>q. map_option rs_data (rs_get (fo_root f') q) =
       (if rs_get (fo_root one_ruleset) q = None \<and> prefix q [''a'', ''b''] then Some 0 else map_option rs_data (rs_get (fo_root one_ruleset) q))"
    using ruleset_create_find [OF r ok L ok L, of 0 "[]" 0] by (elim exE conjE) (rule that)
  have "map_option rs_data (rs_get (fo_root f') [''a'']) = Some 0"
    using f'(2) [rule_format, of "[''a'']"] by (simp add: one_ruleset_def kids_def)
  then show ?thesis using f'(1) by auto
qed

end
