(* ===== verification/Ssn.thy ===== *)
theory Ssn
  imports Dynarray "HOL-Library.Sublist"
begin

text \<open>
  The ternary search tries for prefixes and suffixes (\<open>lib/ssn.c\<close>).

  A node has a character, the nodes for smaller and larger characters at the same place of the
  string, the node for the next place, and the part of the rule tree that follows a string that
  ends here. Null pointers to nodes are \<open>SNull\<close>; the type of the pointers into the rule tree is
  \<open>'n\<close>. An insertion gets the address \<open>j\<close> that \<open>junc_new\<close> would return.

  Strings are C strings: \<open>mem\<close> is the memory from \<^verbatim>\<open>str\<close> on. A prefix is read from its first
  byte to the terminating NUL, a suffix from its last byte backwards. The backward loop looks for
  a NUL in front of the first byte, so \<open>before\<close> has the memory in front of the string, nearest
  byte first; reading past its end is a fault.
\<close>

datatype 'n ssn =
    SNull
  | Ssn (s_ch: char) (s_left: "'n ssn") (s_down: "'n ssn") (s_right: "'n ssn") (s_next: "'n option") (s_refc: nat)

definition FORWARD :: nat where "FORWARD = 1"
definition BACKWARD :: nat where "BACKWARD = 2"

definition ssn_new :: "char \<Rightarrow> 'n ssn" where
  "ssn_new ch = Ssn ch SNull SNull SNull None 1"

subsection \<open>Insertion\<close>

text \<open>A new node with a chain of new nodes below it, \<^verbatim>\<open>next\<close> set in the last one.\<close>

fun chain :: "char \<Rightarrow> bytes \<Rightarrow> 'n \<Rightarrow> 'n ssn" where
  "chain c [] j = Ssn c SNull SNull SNull (Some j) 1"
| "chain c (d # ds) j = Ssn c SNull (chain d ds j) SNull None 1"

definition join_next :: "'n option \<Rightarrow> 'n \<Rightarrow> 'n" where
  "join_next nx j = (case nx of None \<Rightarrow> j | Some n \<Rightarrow> n)"

text \<open>The loop that follows the branches as far as possible, with what is done behind it. \<open>s\<close> has the
  bytes that can be read in the direction of the walk, \<open>k\<close> of them are in the string.\<close>

fun ssn_follow :: "'n ssn \<Rightarrow> nat \<Rightarrow> bytes \<Rightarrow> 'n \<Rightarrow> ('n ssn \<times> 'n) option" where
  "ssn_follow SNull k s j = None"
| "ssn_follow (Ssn ch l d r nx rc) k s j =
     (case s of [] \<Rightarrow> None
      | c # s1 \<Rightarrow>
         if c = NUL then Some (Ssn ch l d r (Some (join_next nx j)) rc, join_next nx j)
         else if c = ch then
           (if d \<noteq> SNull then map_option (\<lambda>(d', jp). (Ssn ch l d' r nx (rc + 1), jp)) (ssn_follow d (k - 1) s1 j)
            else (case s1 of [] \<Rightarrow> None
                  | c1 # s2 \<Rightarrow>
                     if c1 \<noteq> NUL then Some (Ssn ch l (chain c1 (take (k - 2) s2) j) r nx (rc + 1), j)
                     else Some (Ssn ch l d r (Some (join_next nx j)) (rc + 1), join_next nx j)))
         else if (of_char c :: nat) < of_char ch then
           (if l \<noteq> SNull then map_option (\<lambda>(l', jp). (Ssn ch l' d r nx rc, jp)) (ssn_follow l k s j)
            else Some (Ssn ch (chain c (take (k - 1) s1) j) d r nx rc, j))
         else
           (if r \<noteq> SNull then map_option (\<lambda>(r', jp). (Ssn ch l d r' nx rc, jp)) (ssn_follow r k s j)
            else Some (Ssn ch l d (chain c (take (k - 1) s1) j) nx rc, j)))"

definition ssn_insert_forward :: "'n ssn \<Rightarrow> bytes \<Rightarrow> 'n \<Rightarrow> ('n ssn \<times> 'n) option" where
  "ssn_insert_forward tp mem j =
     (if tp = SNull then
        (case mem of [] \<Rightarrow> None
         | c # s \<Rightarrow> map_option (\<lambda>k. (chain c (take k s) j, j)) (strlen s))
      else Option.bind (strlen mem) (\<lambda>k. ssn_follow tp k mem j))"

definition ssn_insert_backward :: "'n ssn \<Rightarrow> bytes \<Rightarrow> bytes \<Rightarrow> 'n \<Rightarrow> ('n ssn \<times> 'n) option" where
  "ssn_insert_backward tp before mem j =
     Option.bind (strlen mem) (\<lambda>k.
       let s = rev (take k mem) @ before in
       if tp = SNull then
         (case s of [] \<Rightarrow> None | c # s1 \<Rightarrow> Some (chain c (take (k - 1) s1) j, j))
       else ssn_follow tp k s j)"

definition ssn_insert :: "'n ssn \<Rightarrow> bytes \<Rightarrow> bytes \<Rightarrow> nat \<Rightarrow> 'n \<Rightarrow> ('n ssn \<times> 'n) option" where
  "ssn_insert tp before mem direction j =
     (if direction = FORWARD then ssn_insert_forward tp mem j else ssn_insert_backward tp before mem j)"

subsection \<open>Matching\<close>

text \<open>The bytes of a string in the order of a walk.\<close>

definition walk :: "nat \<Rightarrow> bytes \<Rightarrow> bytes option" where
  "walk direction mem =
     map_option (\<lambda>k. if direction = FORWARD then take k mem else rev (take k mem)) (strlen mem)"

definition varr_junc_add :: "'n varr option \<Rightarrow> 'n \<Rightarrow> 'n varr option" where
  "varr_junc_add va ju = varr_add va ju"

fun ssn_match_loop :: "'n ssn \<Rightarrow> bytes \<Rightarrow> 'n varr option \<Rightarrow> 'n varr option option" where
  "ssn_match_loop SNull s res = Some res"
| "ssn_match_loop (Ssn ch l d r nx rc) [] res = Some res"
| "ssn_match_loop (Ssn ch l d r nx rc) (c # s) res =
     (if c = ch then
        (case (case nx of None \<Rightarrow> Some res | Some n \<Rightarrow> map_option Some (varr_junc_add res n)) of
           None \<Rightarrow> None
         | Some res' \<Rightarrow> if d \<noteq> SNull then ssn_match_loop d s res' else Some res')
      else if (of_char c :: nat) < of_char ch then
        (if l \<noteq> SNull then ssn_match_loop l (c # s) res else Some res)
      else
        (if r \<noteq> SNull then ssn_match_loop r (c # s) res else Some res))"

definition ssn_match :: "'n ssn \<Rightarrow> bytes \<Rightarrow> nat \<Rightarrow> 'n varr option option" where
  "ssn_match pssn sp direction =
     (if pssn = SNull then Some None else Option.bind (walk direction sp) (\<lambda>s. ssn_match_loop pssn s None))"

fun get_rec_all_ssn_followers :: "'n ssn \<Rightarrow> 'n varr option \<Rightarrow> 'n varr option option" where
  "get_rec_all_ssn_followers SNull ja = Some ja"
| "get_rec_all_ssn_followers (Ssn ch l d r nx rc) ja = do {
     a \<leftarrow> (case nx of None \<Rightarrow> Some ja | Some n \<Rightarrow> map_option Some (varr_junc_add ja n));
     b \<leftarrow> get_rec_all_ssn_followers d a;
     c \<leftarrow> get_rec_all_ssn_followers l b;
     get_rec_all_ssn_followers r c }"

text \<open>The loop of \<open>ssn_lte_match\<close>: the counter \<^verbatim>\<open>f\<close> and the last node whose character matched.\<close>

fun ssn_lte_loop :: "'n ssn \<Rightarrow> bytes \<Rightarrow> 'n ssn \<Rightarrow> (nat \<times> 'n ssn) option" where
  "ssn_lte_loop SNull s ps = (if s = [] then Some (0, ps) else None)"
| "ssn_lte_loop (Ssn ch l d r nx rc) [] ps = Some (0, ps)"
| "ssn_lte_loop (Ssn ch l d r nx rc) (c # s) ps =
     (if c = ch then
        (if d \<noteq> SNull then ssn_lte_loop d s (Ssn ch l d r nx rc) else Some (1, Ssn ch l d r nx rc))
      else if (of_char c :: nat) < of_char ch then
        (if l \<noteq> SNull then ssn_lte_loop l (c # s) ps else Some (1, ps))
      else
        (if r \<noteq> SNull then ssn_lte_loop r (c # s) ps else Some (1, ps)))"

definition ssn_lte_match :: "'n ssn \<Rightarrow> bytes \<Rightarrow> nat \<Rightarrow> 'n varr option \<Rightarrow> 'n varr option option" where
  "ssn_lte_match pssn sp direction res = do {
     s \<leftarrow> walk direction sp;
     (f, ps) \<leftarrow> ssn_lte_loop pssn s SNull;
     if f = 0 then get_rec_all_ssn_followers ps res else Some res }"

subsection \<open>Removal and copies\<close>

text \<open>\<open>ssn_free\<close> releases the nodes down from its argument and the junction of the last one.\<close>

fun ssn_free :: "'n ssn \<Rightarrow> 'n list" where
  "ssn_free SNull = []"
| "ssn_free (Ssn ch l d r nx rc) =
     (if d \<noteq> SNull then ssn_free d else (case nx of None \<Rightarrow> [] | Some n \<Rightarrow> [n]))"

text \<open>The loop of \<open>ssn_delete\<close> returns the node as it leaves it (\<open>SNull\<close> when its parent must drop it),
  the result, and the junctions it has passed to \<open>junc_free\<close>, in order.\<close>

fun ssn_delete_loop :: "bool \<Rightarrow> 'n ssn \<Rightarrow> bytes \<Rightarrow> ('n ssn \<times> 'n option \<times> 'n list)" where
  "ssn_delete_loop tp SNull up = (SNull, None, [])"
| "ssn_delete_loop tp (Ssn ch l d r nx rc) [] = (Ssn ch l d r nx rc, nx, [])"
| "ssn_delete_loop tp (Ssn ch l d r nx rc) (c # up) =
     (if c = ch then
        let rc' = (rc + 2 ^ 32 - 1) mod 2 ^ 32 in
        if rc' = 0 then
          (SNull, None, ssn_free (Ssn ch l d r nx rc') @ (if tp then [] else ssn_free (Ssn ch l d r nx rc')))
        else if d \<noteq> SNull then
          (case ssn_delete_loop False d up of (d', jp, fr) \<Rightarrow> (Ssn ch l d' r nx rc', jp, fr))
        else (Ssn ch l d r nx rc', nx, [])
      else if (of_char c :: nat) < of_char ch then
        (if l \<noteq> SNull then
           (case ssn_delete_loop False l (c # up) of (l', jp, fr) \<Rightarrow> (Ssn ch l' d r nx rc, jp, fr))
         else (Ssn ch l d r nx rc, nx, []))
      else
        (if r \<noteq> SNull then
           (case ssn_delete_loop False r (c # up) of (r', jp, fr) \<Rightarrow> (Ssn ch l d r' nx rc, jp, fr))
         else (Ssn ch l d r nx rc, nx, [])))"

definition ssn_delete :: "'n ssn \<Rightarrow> bytes \<Rightarrow> nat \<Rightarrow> ('n ssn \<times> 'n option \<times> 'n list) option" where
  "ssn_delete tp sp direction =
     Option.bind (walk direction sp) (\<lambda>s. if tp = SNull then None else Some (ssn_delete_loop True tp s))"

subsection \<open>The strings of a trie\<close>

text \<open>What follows the string \<open>s\<close> in the trie.\<close>

fun ssn_look :: "'n ssn \<Rightarrow> bytes \<Rightarrow> 'n option" where
  "ssn_look SNull s = None"
| "ssn_look (Ssn ch l d r nx rc) [] = None"
| "ssn_look (Ssn ch l d r nx rc) (c # s) =
     (if c = ch then (if s = [] then nx else ssn_look d s)
      else if (of_char c :: nat) < of_char ch then ssn_look l (c # s)
      else ssn_look r (c # s))"

lemma ssn_look_Nil [simp]: "ssn_look t [] = None"
  by (cases t) auto

text \<open>Whether the nodes for all bytes of \<open>s\<close> are there.\<close>

fun ssn_path :: "'n ssn \<Rightarrow> bytes \<Rightarrow> bool" where
  "ssn_path SNull s = False"
| "ssn_path (Ssn ch l d r nx rc) [] = True"
| "ssn_path (Ssn ch l d r nx rc) (c # s) =
     (if c = ch then s = [] \<or> ssn_path d s
      else if (of_char c :: nat) < of_char ch then ssn_path l (c # s)
      else ssn_path r (c # s))"

lemma chain_not_SNull [simp]: "chain c s j \<noteq> SNull"
  by (cases s) auto

lemma ssn_look_chain: "ssn_look (chain c s j) = (ssn_look SNull)(c # s \<mapsto> j)"
proof (rule ext)
  show "ssn_look (chain c s j) x = ((ssn_look SNull)(c # s \<mapsto> j)) x" for x
  proof (induction s arbitrary: c x)
    case Nil
    then show ?case by (cases x) auto
  next
    case (Cons d s)
    then show ?case by (cases x) auto
  qed
qed

text \<open>How a change of one field of a node changes the strings.\<close>

lemma look_next: "ssn_look (Ssn ch l d r (Some n) rc) = (ssn_look (Ssn ch l d r nx rc'))([ch] \<mapsto> n)"
proof (rule ext)
  show "ssn_look (Ssn ch l d r (Some n) rc) x = ((ssn_look (Ssn ch l d r nx rc'))([ch] \<mapsto> n)) x" for x
    by (cases x) auto
qed

lemma look_down:
  assumes "ssn_look d' = (ssn_look d)(q \<mapsto> n)" and "q \<noteq> []"
  shows "ssn_look (Ssn ch l d' r nx rc) = (ssn_look (Ssn ch l d r nx rc'))(ch # q \<mapsto> n)"
proof (rule ext)
  show "ssn_look (Ssn ch l d' r nx rc) x = ((ssn_look (Ssn ch l d r nx rc'))(ch # q \<mapsto> n)) x" for x
    using assms by (cases x) auto
qed

lemma look_left:
  assumes "ssn_look l' = (ssn_look l)(c # q \<mapsto> n)" and "c \<noteq> ch" and "(of_char c :: nat) < of_char ch"
  shows "ssn_look (Ssn ch l' d r nx rc) = (ssn_look (Ssn ch l d r nx rc'))(c # q \<mapsto> n)"
proof (rule ext)
  show "ssn_look (Ssn ch l' d r nx rc) x = ((ssn_look (Ssn ch l d r nx rc'))(c # q \<mapsto> n)) x" for x
    using assms by (cases x) auto
qed

lemma look_right:
  assumes "ssn_look r' = (ssn_look r)(c # q \<mapsto> n)" and "c \<noteq> ch" and "\<not> (of_char c :: nat) < of_char ch"
  shows "ssn_look (Ssn ch l d r' nx rc) = (ssn_look (Ssn ch l d r nx rc'))(c # q \<mapsto> n)"
proof (rule ext)
  show "ssn_look (Ssn ch l d r' nx rc) x = ((ssn_look (Ssn ch l d r nx rc'))(c # q \<mapsto> n)) x" for x
    using assms by (cases x) auto
qed

text \<open>The nodes below the last node of \<open>s\<close>, and the string an insertion of \<open>s\<close> stores: when there
  are nodes below the last node of \<open>s\<close>, the loop has moved on to the first of them when it ends.\<close>

fun ssn_below :: "'n ssn \<Rightarrow> bytes \<Rightarrow> 'n ssn" where
  "ssn_below SNull s = SNull"
| "ssn_below (Ssn ch l d r nx rc) [] = SNull"
| "ssn_below (Ssn ch l d r nx rc) (c # s) =
     (if c = ch then (if s = [] then d else ssn_below d s)
      else if (of_char c :: nat) < of_char ch then ssn_below l (c # s)
      else ssn_below r (c # s))"

definition ssn_stored :: "'n ssn \<Rightarrow> bytes \<Rightarrow> bytes" where
  "ssn_stored t s = (if ssn_below t s = SNull then s else s @ [s_ch (ssn_below t s)])"

lemma ssn_follow_end:
  "t \<noteq> SNull \<Longrightarrow> ssn_follow t k (NUL # m) j =
    Some (Ssn (s_ch t) (s_left t) (s_down t) (s_right t) (Some (join_next (s_next t) j)) (s_refc t), join_next (s_next t) j)"
  by (cases t) auto

lemma ssn_look_root: "t \<noteq> SNull \<Longrightarrow> ssn_look t [s_ch t] = s_next t"
  by (cases t) auto

lemma ssn_stored_root: "t \<noteq> SNull \<Longrightarrow> \<exists>q. ssn_stored t (c # s) = c # q"
  by (simp add: ssn_stored_def)

lemma ssn_follow_look:
  assumes "t \<noteq> SNull" and "p \<noteq> []" and "NUL \<notin> set p"
  shows "\<exists>t'. ssn_follow t (length p) (p @ NUL # m) j = Some (t', join_next (ssn_look t (ssn_stored t p)) j) \<and>
    t' \<noteq> SNull \<and> ssn_look t' = (ssn_look t)(ssn_stored t p \<mapsto> join_next (ssn_look t (ssn_stored t p)) j)"
  using assms
proof (induction t arbitrary: p)
  case (Ssn ch l d r nx rc)
  obtain c s where p: "p = c # s" using Ssn.prems(2) by (cases p) auto
  have s: "NUL \<notin> set s" "c \<noteq> NUL" using Ssn.prems(3) by (auto simp: p)
  consider (last) "c = ch" "s = []" "d = SNull" | (over) "c = ch" "s = []" "d \<noteq> SNull"
    | (new) e es where "c = ch" "s = e # es" "d = SNull" | (down) "c = ch" "s \<noteq> []" "d \<noteq> SNull"
    | (lt) "c \<noteq> ch" "(of_char c :: nat) < of_char ch" | (gt) "c \<noteq> ch" "\<not> (of_char c :: nat) < of_char ch"
    by (cases s) auto
  then show ?case
  proof cases
    case last
    then show ?thesis using s by (simp add: p ssn_stored_def fun_upd_def look_next [of _ _ _ _ _ _ nx rc])
  next
    case over
    let ?d = "Ssn (s_ch d) (s_left d) (s_down d) (s_right d) (Some (join_next (s_next d) j)) (s_refc d)"
    have "ssn_look ?d = (ssn_look d)([s_ch d] \<mapsto> join_next (s_next d) j)"
      using over(3) by (cases d) (simp_all add: look_next)
    then have "ssn_look (Ssn ch l ?d r nx (Suc rc)) = (ssn_look (Ssn ch l d r nx rc))([ch, s_ch d] \<mapsto> join_next (s_next d) j)"
      by (rule look_down) simp
    then show ?thesis using over s by (simp add: p ssn_stored_def ssn_follow_end ssn_look_root fun_upd_def)
  next
    case new
    have "ssn_look (Ssn ch l (chain e es j) r nx (Suc rc)) = (ssn_look (Ssn ch l SNull r nx rc))(ch # e # es \<mapsto> j)"
      by (rule look_down [OF ssn_look_chain]) simp
    then show ?thesis using new s by (auto simp: p ssn_stored_def join_next_def fun_upd_def)
  next
    case down
    obtain d' where d': "ssn_follow d (length s) (s @ NUL # m) j = Some (d', join_next (ssn_look d (ssn_stored d s)) j)"
      "ssn_look d' = (ssn_look d)(ssn_stored d s \<mapsto> join_next (ssn_look d (ssn_stored d s)) j)"
      using Ssn.IH(2) [OF down(3,2) s(1)] by blast
    have "ssn_stored d s \<noteq> []" using down by (simp add: ssn_stored_def)
    moreover have "ssn_stored (Ssn ch l d r nx rc) (c # s) = c # ssn_stored d s"
      using down by (simp add: ssn_stored_def)
    ultimately show ?thesis using down s d' look_down [OF d'(2), of ch l r nx "Suc rc" rc] by (simp add: p fun_upd_def)
  next
    case lt
    show ?thesis
    proof (cases "l = SNull")
      case True
      have "ssn_look (Ssn ch (chain c s j) d r nx rc) = (ssn_look (Ssn ch SNull d r nx rc))(c # s \<mapsto> j)"
        by (rule look_left [OF ssn_look_chain lt])
      then show ?thesis using True lt s by (auto simp: p ssn_stored_def join_next_def fun_upd_def)
    next
      case False
      obtain l' where l': "ssn_follow l (length p) (p @ NUL # m) j = Some (l', join_next (ssn_look l (ssn_stored l p)) j)"
        "ssn_look l' = (ssn_look l)(ssn_stored l p \<mapsto> join_next (ssn_look l (ssn_stored l p)) j)"
        using Ssn.IH(1) [OF False Ssn.prems(2,3)] by blast
      have "ssn_stored (Ssn ch l d r nx rc) p = ssn_stored l p" using lt by (simp add: ssn_stored_def p)
      moreover obtain q where q: "ssn_stored l p = c # q" using ssn_stored_root [OF False] by (auto simp: p)
      ultimately show ?thesis using lt s False l' look_left [OF l'(2) [unfolded q] lt, of d r nx rc rc] by (simp add: p fun_upd_def)
    qed
  next
    case gt
    show ?thesis
    proof (cases "r = SNull")
      case True
      have "ssn_look (Ssn ch l d (chain c s j) nx rc) = (ssn_look (Ssn ch l d SNull nx rc))(c # s \<mapsto> j)"
        by (rule look_right [OF ssn_look_chain gt])
      then show ?thesis using True gt s by (auto simp: p ssn_stored_def join_next_def fun_upd_def)
    next
      case False
      obtain r' where r': "ssn_follow r (length p) (p @ NUL # m) j = Some (r', join_next (ssn_look r (ssn_stored r p)) j)"
        "ssn_look r' = (ssn_look r)(ssn_stored r p \<mapsto> join_next (ssn_look r (ssn_stored r p)) j)"
        using Ssn.IH(3) [OF False Ssn.prems(2,3)] by blast
      have "ssn_stored (Ssn ch l d r nx rc) p = ssn_stored r p" using gt by (simp add: ssn_stored_def p)
      moreover obtain q where q: "ssn_stored r p = c # q" using ssn_stored_root [OF False] by (auto simp: p)
      ultimately show ?thesis using gt s False r' look_right [OF r'(2) [unfolded q] gt, of l d nx rc rc] by (simp add: p fun_upd_def)
    qed
  qed
qed simp

lemma strlen_Cons: "c \<noteq> NUL \<Longrightarrow> strlen (c # s) = map_option Suc (strlen s)"
  by (simp add: strlen_def Let_def)

lemma ssn_insert_forward_look:
  assumes "p \<noteq> []" and "NUL \<notin> set p"
  shows "\<exists>t'. ssn_insert_forward t (p @ NUL # m) j = Some (t', join_next (ssn_look t (ssn_stored t p)) j) \<and>
    ssn_look t' = (ssn_look t)(ssn_stored t p \<mapsto> join_next (ssn_look t (ssn_stored t p)) j)"
proof (cases "t = SNull")
  case True
  obtain c s where p: "p = c # s" using assms(1) by (cases p) auto
  show ?thesis using assms(2)
    by (simp add: True p ssn_insert_forward_def ssn_look_chain ssn_stored_def join_next_def)
next
  case False
  then show ?thesis
    using ssn_follow_look [OF False assms, of m j] assms(2) by (auto simp: ssn_insert_forward_def)
qed

subsection \<open>Insertion from the end\<close>

text \<open>With a NUL in front of the string the backward insertion is the forward insertion of the
  reversed string.\<close>

lemma ssn_insert_backward_forward:
  assumes "p \<noteq> []" and "NUL \<notin> set p"
  shows "ssn_insert_backward t (NUL # b) (p @ NUL # m) j = ssn_insert_forward t (rev p @ NUL # b) j"
proof (cases "t = SNull")
  case True
  obtain c s where p: "rev p = c # s" using assms(1) by (cases "rev p") auto
  then have "NUL \<notin> set s" "length p = Suc (length s)" using assms(2) by (metis set_rev list.set_intros(2), metis length_rev length_Cons)
  then show ?thesis using assms(2) by (simp add: True p ssn_insert_backward_def ssn_insert_forward_def)
next
  case False
  have "strlen (rev p @ NUL # b) = Some (length p)" using strlen_terminated [of "rev p" b] assms(2) by simp
  then show ?thesis using False assms(2) by (simp add: ssn_insert_backward_def ssn_insert_forward_def)
qed

text \<open>Without a readable byte in front of it, the walk faults when all its nodes are there.\<close>

lemma ssn_follow_unterminated:
  assumes "t \<noteq> SNull" and "p \<noteq> []" and "NUL \<notin> set p"
  shows "ssn_follow t (length p) p j = (if ssn_path t p then None else ssn_follow t (length p) (p @ NUL # m) j)"
  using assms
proof (induction t arbitrary: p)
  case (Ssn ch l d r nx rc)
  obtain c s where p: "p = c # s" using Ssn.prems(2) by (cases p) auto
  have s: "NUL \<notin> set s" "c \<noteq> NUL" using Ssn.prems(3) by (auto simp: p)
  have nil: "ssn_follow d k [] j = None" for k by (cases d) auto
  show ?case
  proof (cases "c = ch")
    case True
    show ?thesis
    proof (cases s)
      case Nil
      then show ?thesis using True s by (simp add: p nil)
    next
      case (Cons e es)
      then have "e \<noteq> NUL" using s by auto
      then show ?thesis using True s Ssn.IH(2) [of s] Cons by (cases "d = SNull") (auto simp: p)
    qed
  next
    case False
    then show ?thesis using s Ssn.IH(1,3) [of p] Ssn.prems(3)
      by (cases "l = SNull"; cases "r = SNull") (auto simp: p)
  qed
qed simp

subsection \<open>Matching\<close>

lemma map_filter_compose: "List.map_filter f (map g xs) = List.map_filter (\<lambda>x. f (g x)) xs"
  by (induction xs) (auto simp: List.map_filter_def)

lemma map_filter_none: "(\<And>x. x \<in> set xs \<Longrightarrow> f x = None) \<Longrightarrow> List.map_filter f xs = []"
  by (induction xs) (auto simp: List.map_filter_def)

text \<open>The continuations of the stored strings along a walk, shortest first.\<close>

definition found :: "'n ssn \<Rightarrow> bytes \<Rightarrow> 'n list" where
  "found t s = List.map_filter (ssn_look t) (prefixes s)"

lemma found_SNull [simp]: "found SNull s = []"
  by (simp add: found_def map_filter_none)

lemma found_Nil [simp]: "found t [] = []"
  by (simp add: found_def map_filter_none)

lemma found_Cons: "found t (c # s) = List.map_filter (\<lambda>q. ssn_look t (c # q)) (prefixes s)"
  by (simp add: found_def map_filter_compose List.map_filter_simps)

lemma found_hit: "found (Ssn ch l d r nx rc) (ch # s) = (case nx of None \<Rightarrow> [] | Some n \<Rightarrow> [n]) @ found d s"
proof (cases s)
  case Nil
  then show ?thesis by (simp add: found_Cons List.map_filter_simps split: option.splits)
next
  case (Cons e es)
  then show ?thesis by (simp add: found_Cons map_filter_compose List.map_filter_simps split: option.splits)
qed

lemma ssn_match_loop_found:
  "varr_ok0 res \<Longrightarrow> \<exists>x. ssn_match_loop t s res = Some x \<and> varr_ok0 x \<and> varr_list x = varr_list res @ found t s"
proof (induction t s res rule: ssn_match_loop.induct)
  case (3 ch l d r nx rc c s res)
  let ?add = "case nx of None \<Rightarrow> Some res | Some n \<Rightarrow> map_option Some (varr_junc_add res n)"
  show ?case
  proof (cases "c = ch")
    case True
    obtain res' where res': "?add = Some res'" "varr_ok0 res'"
      "varr_list res' = varr_list res @ (case nx of None \<Rightarrow> [] | Some n \<Rightarrow> [n])"
    proof (cases nx)
      case None
      then show ?thesis using that [of res] "3.prems" by simp
    next
      case (Some n)
      obtain res' where "map_option Some (varr_add res n) = Some res'" "varr_ok0 res'" "varr_list res' = varr_list res @ [n]"
        using va0.add_law [OF "3.prems", of n] by blast
      then show ?thesis using that [of res'] Some by (simp add: varr_junc_add_def)
    qed
    show ?thesis
      using "3.IH"(1) [OF True res'(1) _ res'(2)] res' True by (cases "d = SNull") (auto simp: found_hit)
  next
    case False
    then show ?thesis using "3.IH"(2,3) "3.prems"
      by (cases "(of_char c :: nat) < of_char ch"; cases "l = SNull"; cases "r = SNull")
        (auto simp: found_Cons map_filter_none)
  qed
qed auto

lemma walk_terminated:
  "NUL \<notin> set s \<Longrightarrow> walk dir (s @ NUL # m) = Some (if dir = FORWARD then s else rev s)"
  by (simp add: walk_def)

lemma ssn_match_found:
  assumes "NUL \<notin> set s"
  shows "\<exists>x. ssn_match t (s @ NUL # m) dir = Some x \<and> varr_ok0 x \<and>
    varr_list x = found t (if dir = FORWARD then s else rev s)"
  using ssn_match_loop_found [of None t "if dir = FORWARD then s else rev s"]
  by (cases "t = SNull") (simp_all add: ssn_match_def walk_terminated [OF assms] varr_ok0_def varr_list_def)

lemma set_found: "set (found t s) = {n. \<exists>q. prefix q s \<and> ssn_look t q = Some n}"
  by (auto simp: found_def List.map_filter_def image_iff) (metis option.sel)

subsection \<open>The interface: an index of patterns\<close>

text \<open>Both directions are used through one interface. Inserting the pattern \<open>p\<close> stores a pattern that
  is \<open>p\<close> or depends on what is there already, and keeps the continuation of a stored pattern; a
  match gives the continuations of all stored patterns that are at the start (or the end) of the string.\<close>

locale pattern_index =
  fixes ins :: "'t \<Rightarrow> bytes \<Rightarrow> 'n \<Rightarrow> ('t \<times> 'n) option"
    and look :: "'t \<Rightarrow> bytes \<Rightarrow> 'n option"
    and stored :: "'t \<Rightarrow> bytes \<Rightarrow> bytes"
    and matches :: "'t \<Rightarrow> bytes \<Rightarrow> 'n list option"
    and sub :: "bytes \<Rightarrow> bytes \<Rightarrow> bool"
    and ok :: "bytes \<Rightarrow> bool"
  assumes ins_law: "ok p \<Longrightarrow> \<exists>t'. ins t p j = Some (t', join_next (look t (stored t p)) j) \<and>
      look t' = (look t)(stored t p \<mapsto> join_next (look t (stored t p)) j)"
    and matches_law: "NUL \<notin> set s \<Longrightarrow> \<exists>xs. matches t s = Some xs \<and> set xs = {n. \<exists>q. sub q s \<and> look t q = Some n}"
begin

lemma insE:
  assumes "ok p"
  obtains t' x where "ins t p j = Some (t', x)" and "x = join_next (look t (stored t p)) j"
    and "look t' = (look t)(stored t p \<mapsto> x)"
  using ins_law [OF assms, of t j] by blast

lemma matchesE:
  assumes "NUL \<notin> set s"
  obtains xs where "matches t s = Some xs" and "set xs = {n. \<exists>q. sub q s \<and> look t q = Some n}"
  using matches_law [OF assms, of t] by blast

lemma ins_keeps:
  assumes "ok p" and "ins t p j = Some (t', x)" and "look t q = Some n"
  shows "look t' q = Some n"
proof -
  have "look t' = (look t)(stored t p \<mapsto> join_next (look t (stored t p)) j)"
    using ins_law [OF assms(1), of t j] assms(2) by auto
  then show ?thesis using assms(3) by (auto simp: join_next_def)
qed

lemma ins_matches:
  assumes p: "ok p" and ins: "ins t p j = Some (t', x)" and s: "NUL \<notin> set s"
  shows "\<exists>xs xs'. matches t s = Some xs \<and> matches t' s = Some xs' \<and>
    set xs' = set xs \<union> (if sub (stored t p) s then {x} else {})"
proof -
  have x: "x = join_next (look t (stored t p)) j" and t': "look t' = (look t)(stored t p \<mapsto> x)"
    using ins_law [OF p, of t j] ins by auto
  obtain xs xs' where xs: "matches t s = Some xs" "set xs = {n. \<exists>q. sub q s \<and> look t q = Some n}"
    and xs': "matches t' s = Some xs'" "set xs' = {n. \<exists>q. sub q s \<and> look t' q = Some n}"
    using matches_law [OF s, of t] matches_law [OF s, of t'] by blast
  have keep: "look t q = Some n \<Longrightarrow> look t' q = Some n" for q n by (rule ins_keeps [OF p ins])
  have upd: "look t' q = Some n \<longleftrightarrow> (if q = stored t p then n = x else look t q = Some n)" for q n by (auto simp: t')
  have "n \<in> set xs' \<longleftrightarrow> n \<in> set xs \<union> (if sub (stored t p) s then {x} else {})" for n
  proof
    assume "n \<in> set xs'"
    then obtain q where "sub q s" "look t' q = Some n" unfolding xs'(2) by blast
    then show "n \<in> set xs \<union> (if sub (stored t p) s then {x} else {})"
      unfolding xs(2) by (cases "q = stored t p") (auto simp: upd)
  next
    assume "n \<in> set xs \<union> (if sub (stored t p) s then {x} else {})"
    then consider q where "sub q s" "look t q = Some n" | "n = x" "sub (stored t p) s"
      unfolding xs(2) by (auto split: if_splits)
    then have "\<exists>q. sub q s \<and> look t' q = Some n"
    proof cases
      case 1
      then show ?thesis using keep by blast
    next
      case 2
      then show ?thesis using upd [of "stored t p" n] by (intro exI [of _ "stored t p"]) simp
    qed
    then show "n \<in> set xs'" unfolding xs'(2) by simp
  qed
  then show ?thesis using xs(1) xs'(1) by blast
qed

end

definition pattern_ok :: "bytes \<Rightarrow> bool" where
  "pattern_ok p \<longleftrightarrow> p \<noteq> [] \<and> NUL \<notin> set p"

interpretation fwd: pattern_index "\<lambda>t p j. ssn_insert t [] (p @ [NUL]) FORWARD j" ssn_look ssn_stored
  "\<lambda>t s. map_option varr_list (ssn_match t (s @ [NUL]) FORWARD)" prefix pattern_ok
proof
  fix p and t :: "'a ssn" and j
  assume "pattern_ok p"
  then show "\<exists>t'. ssn_insert t [] (p @ [NUL]) FORWARD j = Some (t', join_next (ssn_look t (ssn_stored t p)) j) \<and>
      ssn_look t' = (ssn_look t)(ssn_stored t p \<mapsto> join_next (ssn_look t (ssn_stored t p)) j)"
    using ssn_insert_forward_look [of p t "[]" j] by (simp add: pattern_ok_def ssn_insert_def)
next
  fix s and t :: "'a ssn"
  assume "NUL \<notin> set s"
  then show "\<exists>xs. map_option varr_list (ssn_match t (s @ [NUL]) FORWARD) = Some xs \<and>
      set xs = {n. \<exists>q. prefix q s \<and> ssn_look t q = Some n}"
    using ssn_match_found [of s t "[]" FORWARD] by (auto simp: set_found)
qed

interpretation bwd: pattern_index "\<lambda>t p j. ssn_insert t [NUL] (p @ [NUL]) BACKWARD j" "\<lambda>t p. ssn_look t (rev p)"
  "\<lambda>t p. rev (ssn_stored t (rev p))" "\<lambda>t s. map_option varr_list (ssn_match t (s @ [NUL]) BACKWARD)" suffix pattern_ok
proof
  fix p and t :: "'a ssn" and j
  let ?x = "join_next (ssn_look t (ssn_stored t (rev p))) j"
  assume p: "pattern_ok p"
  then have "ssn_insert t [NUL] (p @ [NUL]) BACKWARD j = ssn_insert_forward t (rev p @ [NUL]) j"
    using ssn_insert_backward_forward [of p t "[]" "[]" j] by (simp add: pattern_ok_def ssn_insert_def FORWARD_def BACKWARD_def)
  then obtain t' where t': "ssn_insert t [NUL] (p @ [NUL]) BACKWARD j = Some (t', ?x)"
    "ssn_look t' = (ssn_look t)(ssn_stored t (rev p) \<mapsto> ?x)"
    using p ssn_insert_forward_look [of "rev p" t "[]" j] by (auto simp: pattern_ok_def)
  have "ssn_look t' (rev q) = ((\<lambda>p. ssn_look t (rev p))(rev (ssn_stored t (rev p)) \<mapsto> ?x)) q" for q
    using t'(2) by (auto simp: rev_swap)
  then show "\<exists>t'. ssn_insert t [NUL] (p @ [NUL]) BACKWARD j =
        Some (t', join_next (ssn_look t (rev (rev (ssn_stored t (rev p))))) j) \<and>
      (\<lambda>p. ssn_look t' (rev p)) = (\<lambda>p. ssn_look t (rev p))
        (rev (ssn_stored t (rev p)) \<mapsto> join_next (ssn_look t (rev (rev (ssn_stored t (rev p))))) j)"
    using t'(1) by auto
next
  fix s and t :: "'a ssn"
  assume s: "NUL \<notin> set s"
  have "(\<exists>q. prefix q (rev s) \<and> ssn_look t q = Some n) \<longleftrightarrow> (\<exists>q. suffix q s \<and> ssn_look t (rev q) = Some n)" for n
    by (metis rev_rev_ident suffix_to_prefix)
  then show "\<exists>xs. map_option varr_list (ssn_match t (s @ [NUL]) BACKWARD) = Some xs \<and>
      set xs = {n. \<exists>q. suffix q s \<and> ssn_look t (rev q) = Some n}"
    using ssn_match_found [OF s, of t "[]" BACKWARD] by (auto simp: set_found FORWARD_def BACKWARD_def)
qed

subsection \<open>Properties\<close>

text \<open>C36: the trie of the prefixes refines a map from strings to continuations. Inserting \<open>p\<close> succeeds and
  returns the old continuation of the stored string or the new one; for every atom \<open>s\<close> a match
  afterwards gives what it gave before, and the returned continuation exactly when \<open>s\<close> starts with the
  stored string. The stored string is \<open>p\<close> when no stored string goes on where \<open>p\<close> ends; otherwise it
  is \<open>p\<close> with one more character.\<close>

theorem ssn_insert_match:
  assumes "pattern_ok p" and "NUL \<notin> set s"
  shows "\<exists>t' x xs xs'. ssn_insert t [] (p @ [NUL]) FORWARD j = Some (t', x) \<and>
    x = join_next (ssn_look t (ssn_stored t p)) j \<and>
    map_option varr_list (ssn_match t (s @ [NUL]) FORWARD) = Some xs \<and>
    map_option varr_list (ssn_match t' (s @ [NUL]) FORWARD) = Some xs' \<and>
    set xs' = set xs \<union> (if prefix (ssn_stored t p) s then {x} else {}) \<and>
    ssn_stored t p = (case ssn_below t p of SNull \<Rightarrow> p | Ssn e _ _ _ _ _ \<Rightarrow> p @ [e])"
proof -
  obtain t' x where t': "ssn_insert t [] (p @ [NUL]) FORWARD j = Some (t', x)" "x = join_next (ssn_look t (ssn_stored t p)) j"
    using fwd.insE [OF assms(1)] by metis
  moreover have "ssn_stored t p = (case ssn_below t p of SNull \<Rightarrow> p | Ssn e _ _ _ _ _ \<Rightarrow> p @ [e])"
    by (cases "ssn_below t p") (simp_all add: ssn_stored_def)
  ultimately show ?thesis using fwd.ins_matches [OF assms(1) t'(1) assms(2)] by blast
qed

theorem ssn_insert_match_witness:
  "\<exists>t' x xs'. ssn_insert (chain CHR ''a'' ''b'' (7::nat)) [] (''a'' @ [NUL]) FORWARD 8 = Some (t', x) \<and> x = 7 \<and>
     map_option varr_list (ssn_match t' (''ac'' @ [NUL]) FORWARD) = Some xs' \<and> set xs' = {}"
proof -
  let ?t = "chain CHR ''a'' ''b'' (7::nat)"
  have "ssn_stored ?t ''a'' = ''ab''" "ssn_look ?t ''ab'' = Some 7"
    by (simp_all add: ssn_stored_def)
  moreover have "map_option varr_list (ssn_match ?t (''ac'' @ [NUL]) FORWARD) = Some []"
    by (simp add: ssn_match_def walk_def strlen_def FORWARD_def varr_list_def)
  ultimately show ?thesis
    using ssn_insert_match [of "''a''" "''ac''" ?t 8] by (auto simp: pattern_ok_def join_next_def)
qed

text \<open>C37: inserting a suffix is inserting the reversed string as a prefix, provided that the byte in
  front of the string is a NUL. When there is no such byte, the insertion reads out of bounds exactly
  if the suffix is the end of a string that is stored already, and is the same otherwise.\<close>

theorem ssn_insert_backward_equiv:
  assumes "pattern_ok p"
  shows "ssn_insert t (NUL # b) (p @ NUL # m) BACKWARD j = ssn_insert t b' (rev p @ NUL # b) FORWARD j \<and>
    ssn_insert t [] (p @ NUL # m) BACKWARD j =
      (if ssn_path t (rev p) then None else ssn_insert t b' (rev p @ NUL # m) FORWARD j)"
proof -
  have p: "p \<noteq> []" "NUL \<notin> set p" using assms by (simp_all add: pattern_ok_def)
  have "ssn_insert_backward t [] (p @ NUL # m) j =
    (if ssn_path t (rev p) then None else ssn_insert_forward t (rev p @ NUL # m) j)"
  proof (cases "t = SNull")
    case True
    then have "ssn_insert_backward t [] (p @ NUL # m) j = ssn_insert_backward t (NUL # m) (p @ NUL # m) j"
      using p by (simp add: ssn_insert_backward_def neq_Nil_conv split: list.splits)
    then show ?thesis using True ssn_insert_backward_forward [OF p, of t m m j] by simp
  next
    case False
    have "strlen (rev p @ NUL # m) = Some (length p)" using strlen_terminated [of "rev p" m] p(2) by simp
    then show ?thesis using False p ssn_follow_unterminated [OF False, of "rev p" j m]
      by (simp add: ssn_insert_backward_def ssn_insert_forward_def)
  qed
  then show ?thesis
    using ssn_insert_backward_forward [OF p, of t b m j] by (simp add: ssn_insert_def FORWARD_def BACKWARD_def)
qed

theorem ssn_insert_backward_equiv_witness:
  "ssn_insert (chain CHR ''b'' ''a'' (7::nat)) [] (''ab'' @ NUL # []) BACKWARD 8 = None"
  using ssn_insert_backward_equiv [of "''ab''" "chain CHR ''b'' ''a'' (7::nat)" "[]" "[]" 8 "[]"]
  by (simp add: pattern_ok_def)

text \<open>C38: removing a string at whose first node only one insertion is counted removes the whole trie
  below the pointer, with the nodes to the left and to the right that belong to other strings; below
  the top the junction of the string is released twice.\<close>

theorem ssn_delete_drops:
  assumes "NUL \<notin> set (c # s)"
  shows "ssn_delete (Ssn c l d r nx 1) (c # s @ [NUL]) FORWARD =
      Some (SNull, None, ssn_free (Ssn c l d r nx 0)) \<and>
    (e \<noteq> c \<and> \<not> (of_char c :: nat) < of_char e \<longrightarrow>
      ssn_delete (Ssn e l' d' (Ssn c l d r nx 1) nx' rc') (c # s @ [NUL]) FORWARD =
        Some (Ssn e l' d' SNull nx' rc', None, ssn_free (Ssn c l d r nx 0) @ ssn_free (Ssn c l d r nx 0)))"
  using walk_terminated [OF assms, of FORWARD "[]"] by (simp add: ssn_delete_def Let_def)

theorem ssn_delete_drops_witness:
  "\<exists>t. ssn_insert_forward (chain CHR ''b'' [] (1::nat)) (''a'' @ [NUL]) 2 = Some (t, 2) \<and> ssn_look t ''a'' = Some 2 \<and>
     ssn_delete t (''b'' @ [NUL]) FORWARD = Some (SNull, None, [1])"
proof -
  have "ssn_insert_forward (chain CHR ''b'' [] (1::nat)) (''a'' @ [NUL]) 2 =
    Some (Ssn CHR ''b'' (chain CHR ''a'' [] 2) SNull SNull (Some 1) 1, 2)"
    by (simp add: ssn_insert_forward_def strlen_def)
  then show ?thesis
    using ssn_delete_drops [of "CHR ''b''" "[]" "chain CHR ''a'' [] 2" SNull SNull "Some (1::nat)"] by simp
qed

end
