(* ===== verification/Verify.thy ===== *)
theory Verify
  imports Sexp
begin

text \<open>
  The checks on the values of ranges (\<open>lib/verify.c\<close>): numbers, dates, times and IPv4 addresses,
  with the conversions of \<open>lib/input.c\<close> that follow them (\<open>to_gmt\<close>, \<open>hms2int\<close>, \<open>ipv4cmp\<close>), and
  the parser of a cache time definition of \<open>lib/cachetime.c\<close>. A check that also converts returns
  \<open>Inr\<close> the value or \<open>Inl\<close> the error.

  The IPv6 variants are left out: \<open>set_limit\<close> and \<open>do_range\<close> compile them under \<^verbatim>\<open>USE_IPv6\<close>, and
  the macro that the configuration defines is \<^verbatim>\<open>USE_IPV6\<close>.
\<close>

subsection \<open>Numbers\<close>

definition LONG_MAX :: int where "LONG_MAX = 2 ^ 63 - 1"
definition LONG_MIN :: int where "LONG_MIN = - (2 ^ 63)"

definition is_numeric :: "octet \<Rightarrow> (spocp_result + int) option" where
  "is_numeric op = (case oct_val op of
      [] \<Rightarrow> Some (Inl SPOCP_SYNTAXERROR)
    | c # _ \<Rightarrow>
        if c = NUL then Some (Inl SPOCP_SYNTAXERROR)
        else do {
          (n, l, sp) \<leftarrow> digit_loop 63 (oct_len op) (oct_val op) 0 0;
          Some (if n = LONG_MIN \<or> n = LONG_MAX then Inl SPOCP_SYNTAXERROR
                else if l = oct_len op then Inr n
                else Inl SPOCP_SYNTAXERROR) })"

definition numstr :: "bytes \<Rightarrow> (spocp_result + int) option" where
  "numstr str = (if str = [] then Some (Inl SPOCP_SYNTAXERROR) else is_numeric (oct_assign str))"

subsection \<open>Dates and times\<close>

text \<open>The tests on a pair of characters.\<close>

definition between :: "char \<Rightarrow> char \<Rightarrow> char \<Rightarrow> bool" where
  "between a b c = in_range a b c"

definition month2 :: "char \<Rightarrow> char \<Rightarrow> bool" where
  "month2 c d \<longleftrightarrow> c = CHR ''0'' \<and> between CHR ''1'' CHR ''9'' d \<or> c = CHR ''1'' \<and> between CHR ''0'' CHR ''2'' d"

definition day2 :: "char \<Rightarrow> char \<Rightarrow> bool" where
  "day2 c d \<longleftrightarrow> c = CHR ''0'' \<and> between CHR ''1'' CHR ''9'' d \<or>
     (c = CHR ''1'' \<or> c = CHR ''2'') \<and> between CHR ''0'' CHR ''9'' d \<or>
     c = CHR ''3'' \<and> (d = CHR ''0'' \<or> d = CHR ''1'')"

definition hour2 :: "char \<Rightarrow> char \<Rightarrow> bool" where
  "hour2 c d \<longleftrightarrow> (c = CHR ''0'' \<or> c = CHR ''1'') \<and> between CHR ''0'' CHR ''9'' d \<or>
     c = CHR ''2'' \<and> between CHR ''0'' CHR ''4'' d"

definition min2 :: "char \<Rightarrow> char \<Rightarrow> bool" where
  "min2 c d \<longleftrightarrow> between CHR ''0'' CHR ''5'' c \<and> between CHR ''0'' CHR ''9'' d"

text \<open>A read of one or two characters at \<^verbatim>\<open>c\<close> with a test; the pointer \<^verbatim>\<open>c\<close> is an offset into
  \<^verbatim>\<open>op->val\<close>. A failed test is the early return of SPOCP_SYNTAXERROR.\<close>

definition check1 :: "(char \<Rightarrow> bool) \<Rightarrow> bytes \<Rightarrow> nat \<Rightarrow> spocp_result option \<Rightarrow> spocp_result option" where
  "check1 P v i k = (case rd v i of None \<Rightarrow> None | Some c \<Rightarrow> if P c then k else Some SPOCP_SYNTAXERROR)"

definition check2 :: "(char \<Rightarrow> char \<Rightarrow> bool) \<Rightarrow> bytes \<Rightarrow> nat \<Rightarrow> spocp_result option \<Rightarrow> spocp_result option" where
  "check2 P v i k = (case (rd v i, rd v (Suc i)) of
      (Some c, Some d) \<Rightarrow> if P c d then k else Some SPOCP_SYNTAXERROR | _ \<Rightarrow> None)"

definition is_date :: "octet \<Rightarrow> spocp_result option" where
  "is_date op = (let v = oct_val op; len = oct_len op; dig = between CHR ''0'' CHR ''9'' in
     if len < 20 then Some SPOCP_SYNTAXERROR
     else check1 dig v 0 (check1 dig v 1 (check1 dig v 2 (check1 dig v 3 (
       check1 (\<lambda>c. c = CHR ''-'') v 4 (
       check2 month2 v 5 (
       check1 (\<lambda>c. c = CHR ''-'') v 7 (
       check2 day2 v 8 (
       check1 (\<lambda>c. c = CHR ''T'') v 10 (
       check2 hour2 v 11 (
       check1 (\<lambda>c. c = CHR '':'') v 13 (
       check2 min2 v 14 (
       check1 (\<lambda>c. c = CHR '':'') v 16 (
       check2 min2 v 17 (
       case rd v 19 of None \<Rightarrow> None
       | Some c \<Rightarrow>
         if c = CHR ''Z'' \<and> len = 20 then Some SPOCP_SUCCESS
         else if c \<noteq> CHR ''+'' \<and> c \<noteq> CHR ''-'' then Some SPOCP_SYNTAXERROR
         else if len < 22 then Some SPOCP_SYNTAXERROR
         else check2 hour2 v 20 (
           if len = 22 then Some SPOCP_SUCCESS
           else if len \<noteq> 25 then Some SPOCP_SYNTAXERROR
           else check1 (\<lambda>c. c = CHR '':'') v 22 (check2 min2 v 22 (Some SPOCP_SUCCESS))))))))))))))))))"

definition is_time :: "octet option \<Rightarrow> spocp_result option" where
  "is_time op = (case op of None \<Rightarrow> Some SPOCP_SYNTAXERROR
     | Some op \<Rightarrow>
        if oct_len op \<noteq> 8 then Some SPOCP_SYNTAXERROR
        else let v = oct_val op in
          check2 hour2 v 0 (check1 (\<lambda>c. c = CHR '':'') v 2 (
          check2 min2 v 3 (check1 (\<lambda>c. c = CHR '':'') v 5 (
          check2 min2 v 6 (Some SPOCP_SUCCESS))))))"

definition hms2int :: "octet \<Rightarrow> int \<Rightarrow> int option" where
  "hms2int op num = do {
     a \<leftarrow> rd (oct_val op) 0; b \<leftarrow> rd (oct_val op) 1; c \<leftarrow> rd (oct_val op) 3;
     d \<leftarrow> rd (oct_val op) 4; e \<leftarrow> rd (oct_val op) 6; f \<leftarrow> rd (oct_val op) 7;
     Some (num + digitval a * 36000 + digitval b * 3600 + digitval c * 600 + digitval d * 60
           + digitval e * 10 + digitval f) }"

text \<open>\<open>to_gmt\<close> brings a date that \<open>is_date\<close> accepts into the form without zone. A date with an offset
  goes through \<^verbatim>\<open>strptime\<close>, \<^verbatim>\<open>mktime\<close>, \<^verbatim>\<open>localtime_r\<close> and \<^verbatim>\<open>strftime\<close>, whose result depends on the time
  zone of the process: \<open>shift t d\<close> stands for the local time \<open>t\<close> moved by \<open>d\<close> seconds, formatted
  again. In the long form the code increments \<^verbatim>\<open>s\<close> where it means \<^verbatim>\<open>sp\<close>, so the digits of the minutes
  are taken one place too early.\<close>

definition to_gmt :: "(bytes \<Rightarrow> int \<Rightarrow> bytes) \<Rightarrow> octet \<Rightarrow> octet \<Rightarrow> octet option" where
  "to_gmt shift s t =
     (if oct_len s = 19 \<or> oct_len s = 20 then do { (r, t') \<leftarrow> octcpy t s; Some (t'\<lparr>oct_len := 19\<rparr>) }
      else do {
        time \<leftarrow> rdn (oct_val s) 19;
        sgn \<leftarrow> rd (oct_val s) 19; a \<leftarrow> rd (oct_val s) 20; b \<leftarrow> rd (oct_val s) 21;
        let hours = digitval a * 36000 + digitval b * 3600;
        mins \<leftarrow> (if oct_len s > 22
                 then do { c \<leftarrow> rd (oct_val s) 22; d \<leftarrow> rd (oct_val s) 23; Some (digitval c * 600 + digitval d * 60) }
                 else Some 0);
        Some (t\<lparr>oct_val := take 19 (shift time (if sgn = CHR ''+'' then hours + mins else - (hours + mins))) @ [NUL],
               oct_len := 19\<rparr>) })"

subsection \<open>IPv4 addresses\<close>

text \<open>What \<^verbatim>\<open>inet_pton(AF_INET, ...)\<close> accepts: four decimal numbers up to 255 without leading zeros,
  separated by dots. The result is the number in host byte order, as after the \<^verbatim>\<open>htonl\<close> of \<open>is_ipv4\<close>.\<close>

fun quad :: "bytes \<Rightarrow> nat option" where
  "quad s = (if s \<noteq> [] \<and> length s \<le> 3 \<and> (\<forall>c\<in>set s. DIGIT c) \<and> (hd s = CHR ''0'' \<longrightarrow> length s = 1) \<and> dec_value s \<le> 255
             then Some (nat (dec_value s)) else None)"

definition inet_pton4 :: "bytes \<Rightarrow> 32 word option" where
  "inet_pton4 s = (case split_on CHR ''.'' s of
      [a, b, c, d] \<Rightarrow> do { w \<leftarrow> quad a; x \<leftarrow> quad b; y \<leftarrow> quad c; z \<leftarrow> quad d;
        Some (word_of_nat (((w * 256 + x) * 256 + y) * 256 + z)) }
    | _ \<Rightarrow> None)"

text \<open>\<open>is_ipv4\<close> puts a NUL behind the octet string while it converts, and then restores the byte.\<close>

definition is_ipv4 :: "octet \<Rightarrow> (spocp_result + 32 word) option" where
  "is_ipv4 op =
     (if oct_len op < length (oct_val op)
      then Some (case inet_pton4 (takeWhile (\<lambda>c. c \<noteq> NUL) (content op)) of
                   None \<Rightarrow> Inl SPOCP_SYNTAXERROR | Some a \<Rightarrow> Inr a)
      else None)"

definition ipv4cmp :: "32 word \<Rightarrow> 32 word \<Rightarrow> int" where
  "ipv4cmp a b = sint (a - b)"

subsection \<open>Cache time definitions\<close>

text \<open>A cache time is a number of seconds and an optional pattern, separated by a space.\<close>

definition cachetime_new :: "octet option \<Rightarrow> cachetime option option" where
  "cachetime_new s = do {
     arg \<leftarrow> oct_split s CHR '' '' NUL False 0;
     arg \<leftarrow> arg;
     (case oa_arr arg of
        [] \<Rightarrow> None
      | a # rest \<Rightarrow> do {
          li \<leftarrow> is_numeric a;
          case li of
            Inl _ \<Rightarrow> Some None
          | Inr n \<Rightarrow>
              (case rest of
                 [] \<Rightarrow> Some (Some \<lparr>ct_limit = n, ct_pattern = \<lparr>oct_val = [], oct_len = 0, oct_size = 0\<rparr>\<rparr>)
               | p # _ \<Rightarrow> do { (r, pat) \<leftarrow> octcpy \<lparr>oct_val = [], oct_len = 0, oct_size = 0\<rparr> p;
                             Some (Some \<lparr>ct_limit = n, ct_pattern = pat\<rparr>) }) }) }"

subsection \<open>Numbers are read as numbers\<close>

lemma is_numeric_view:
  assumes "s \<noteq> []"
  shows "is_numeric (view s x sz) = Some
    (let v = i64 (dec_value s) in
     if (\<forall>c\<in>set s. DIGIT c) \<and> v \<noteq> LONG_MIN \<and> v \<noteq> LONG_MAX then Inr v else Inl SPOCP_SYNTAXERROR)"
proof -
  obtain c t where s: "s = c # t" using assms by (cases s) auto
  define T n where "T = takeWhile DIGIT s" and "n = signed_take_bit 63 (dec_value T)"
  have "digit_loop 63 (length s) (s @ x) 0 0 = Some (n, length T, dropWhile DIGIT s @ x)"
    by (simp add: digit_loop_view T_def n_def)
  then have U: "is_numeric (view s x sz) = (if c = NUL then Some (Inl SPOCP_SYNTAXERROR)
      else Some (if n = LONG_MIN \<or> n = LONG_MAX then Inl SPOCP_SYNTAXERROR
                 else if length T = length s then Inr n else Inl SPOCP_SYNTAXERROR))"
    by (simp add: is_numeric_def s)
  show ?thesis
  proof (cases "\<forall>c\<in>set s. DIGIT c")
    case True
    then have "T = s" by (simp add: T_def takeWhile_eq_all_conv)
    moreover have "c \<noteq> NUL" using True s by auto
    ultimately show ?thesis using True U by (auto simp: n_def i64_def Let_def)
  next
    case False
    then have "T \<noteq> s" by (simp add: T_def takeWhile_eq_all_conv)
    then have "length T \<noteq> length s" unfolding T_def by (metis takeWhile_eq_take take_all order.refl)
    then show ?thesis using False U by (simp add: Let_def)
  qed
qed

text \<open>\<open>is_numeric\<close> accepts exactly the non-empty strings of digits, and its value is the number they
  denote, modulo \<open>2 ^ 64\<close>; up to eighteen digits it is the number itself. The two values that
  \<^verbatim>\<open>strtol\<close> used to return for overflow are refused.\<close>

theorem is_numeric_value:
  assumes "wf_octet op" and "content op \<noteq> []"
  shows "is_numeric op = Some
      (let v = i64 (dec_value (content op)) in
       if (\<forall>c\<in>set (content op). DIGIT c) \<and> v \<noteq> LONG_MIN \<and> v \<noteq> LONG_MAX then Inr v else Inl SPOCP_SYNTAXERROR) \<and>
    ((\<forall>c\<in>set (content op). DIGIT c) \<and> oct_len op \<le> 18 \<longrightarrow> is_numeric op = Some (Inr (dec_value (content op))))"
proof -
  obtain s x sz where op: "op = view s x sz" using assms(1) by (rule wf_octetE)
  have ne: "s \<noteq> []" using assms(2) op by simp
  have small: "0 \<le> dec_value s \<and> dec_value s < 10 ^ 18" if "\<forall>c\<in>set s. DIGIT c" "length s \<le> 18"
  proof -
    have "dec_value s < 10 ^ length s" "0 \<le> dec_value s" using dec_value_nonneg [OF that(1)] by auto
    moreover have "(10::int) ^ length s \<le> 10 ^ 18" using that(2) by (intro power_increasing) auto
    ultimately show ?thesis by simp
  qed
  show ?thesis
    using is_numeric_view [OF ne, of x sz] small
    by (auto simp: op Let_def LONG_MIN_def LONG_MAX_def)
qed

theorem is_numeric_value_witness:
  "is_numeric (mk_octet ''1234'') = Some (Inr (dec_value ''1234''))"
proof -
  have "wf_octet (mk_octet ''1234'')" by (simp add: wf_mk_octet)
  moreover have "content (mk_octet ''1234'') \<noteq> []" "\<forall>c\<in>set (content (mk_octet ''1234'')). DIGIT c"
    by (simp_all add: char_macros)
  moreover have "oct_len (mk_octet ''1234'') \<le> 18" by (simp add: mk_octet_def)
  ultimately show ?thesis using is_numeric_value [of "mk_octet ''1234''"] by (metis content_mk_octet)
qed

subsection \<open>Times and dates\<close>

text \<open>A number below 100 in two digits.\<close>

definition two :: "nat \<Rightarrow> bytes" where
  "two n = [digit_char (n div 10), digit_char (n mod 10)]"

lemma between_digit:
  assumes "between (digit_char i) (digit_char j) c" and "i < 10" and "j < 10"
  shows "\<exists>k. i \<le> k \<and> k \<le> j \<and> c = digit_char k"
proof -
  define k where "k = of_char c - (48 :: nat)"
  have "schar (digit_char i) = 48 + int i" "schar (digit_char j) = 48 + int j"
    using assms(2,3) by (simp_all add: schar_def)
  then have r: "int i + 48 \<le> schar c" "schar c \<le> 48 + int j" using assms(1) by (simp_all add: between_def in_range_def)
  moreover have "int (of_char c) < 256" by (metis nat_of_char_less_256 of_nat_less_numeral_iff)
  moreover have "schar c = int (of_char c) \<or> schar c = int (of_char c) - 256" by (simp add: schar_def)
  ultimately have "schar c = int (of_char c)" by linarith
  with r have c: "of_char c = 48 + k" "i \<le> k" "k \<le> j" by (auto simp: k_def)
  have "c = char_of (of_char c :: nat)" by simp
  then show ?thesis using c unfolding digit_char_def by metis
qed

lemma between_digit_char:
  "i < 10 \<Longrightarrow> j < 10 \<Longrightarrow> k < 10 \<Longrightarrow> between (digit_char i) (digit_char j) (digit_char k) \<longleftrightarrow> i \<le> k \<and> k \<le> j"
  by (simp add: between_def in_range_def schar_def)

lemma digit_char_literals:
  "CHR ''0'' = digit_char 0" "CHR ''1'' = digit_char 1" "CHR ''2'' = digit_char 2" "CHR ''3'' = digit_char 3"
  "CHR ''4'' = digit_char 4" "CHR ''5'' = digit_char 5" "CHR ''9'' = digit_char 9"
  by code_simp+

lemma two_digits:
  assumes "c = digit_char i" and "d = digit_char j" and "i < 10" and "j < 10"
  shows "[c, d] = two (i * 10 + j)"
  using assms by (simp add: two_def)

lemma pair_tests:
  "hour2 c d \<longleftrightarrow> (\<exists>n\<le>24. [c, d] = two n)"
  "min2 c d \<longleftrightarrow> (\<exists>n<60. [c, d] = two n)"
  "month2 c d \<longleftrightarrow> (\<exists>n. 1 \<le> n \<and> n \<le> 12 \<and> [c, d] = two n)"
  "day2 c d \<longleftrightarrow> (\<exists>n. 1 \<le> n \<and> n \<le> 31 \<and> [c, d] = two n)"
proof -
  have D: "between (digit_char i) (digit_char j) e \<Longrightarrow> i < 10 \<Longrightarrow> j < 10 \<Longrightarrow> \<exists>k. e = digit_char k \<and> i \<le> k \<and> k \<le> j" for i j e
    using between_digit by blast
  have h: "hour2 (digit_char (n div 10)) (digit_char (n mod 10))" if "n \<le> 24" for n
  proof -
    have "n div 10 < 10" "n mod 10 < 10" "n div 10 = 0 \<or> n div 10 = 1 \<or> n div 10 = 2 \<and> n mod 10 \<le> 4"
      using that by presburger+
    then show ?thesis unfolding hour2_def digit_char_literals by (auto simp: between_digit_char)
  qed
  have m: "min2 (digit_char (n div 10)) (digit_char (n mod 10))" if "n < 60" for n
  proof -
    have "n div 10 < 10" "n mod 10 < 10" "n div 10 \<le> 5" using that by presburger+
    then show ?thesis unfolding min2_def digit_char_literals by (auto simp: between_digit_char)
  qed
  have mo: "month2 (digit_char (n div 10)) (digit_char (n mod 10))" if "1 \<le> n" "n \<le> 12" for n
  proof -
    have "n div 10 < 10" "n mod 10 < 10" "n div 10 = 0 \<and> 1 \<le> n mod 10 \<or> n div 10 = 1 \<and> n mod 10 \<le> 2"
      using that by presburger+
    then show ?thesis unfolding month2_def digit_char_literals by (auto simp: between_digit_char)
  qed
  have da: "day2 (digit_char (n div 10)) (digit_char (n mod 10))" if "1 \<le> n" "n \<le> 31" for n
  proof -
    have "n div 10 < 10" "n mod 10 < 10"
      "n div 10 = 0 \<and> 1 \<le> n mod 10 \<or> n div 10 = 1 \<or> n div 10 = 2 \<or> n div 10 = 3 \<and> (n mod 10 = 0 \<or> n mod 10 = 1)"
      using that by presburger+
    then show ?thesis unfolding day2_def digit_char_literals by (auto simp: between_digit_char)
  qed
  show "hour2 c d \<longleftrightarrow> (\<exists>n\<le>24. [c, d] = two n)"
  proof
    assume "hour2 c d"
    then have "\<exists>i j. c = digit_char i \<and> d = digit_char j \<and> (i < 2 \<and> j < 10 \<or> i = 2 \<and> j \<le> 4)"
      unfolding hour2_def digit_char_literals
      using D [of 0 9 d] D [of 0 4 d] by (elim disjE conjE; force)
    then obtain i j where "c = digit_char i" "d = digit_char j" "i < 2 \<and> j < 10 \<or> i = 2 \<and> j \<le> 4" by blast
    then show "\<exists>n\<le>24. [c, d] = two n" using two_digits [of c i d j] by (intro exI [of _ "i * 10 + j"]) auto
  qed (auto simp: two_def intro: h)
  show "min2 c d \<longleftrightarrow> (\<exists>n<60. [c, d] = two n)"
  proof
    assume "min2 c d"
    then obtain i j where "c = digit_char i" "d = digit_char j" "i \<le> 5" "j < 10"
      unfolding min2_def digit_char_literals by (fastforce dest: D)
    then show "\<exists>n<60. [c, d] = two n" using two_digits [of c i d j] by (intro exI [of _ "i * 10 + j"]) auto
  qed (auto simp: two_def intro: m)
  show "month2 c d \<longleftrightarrow> (\<exists>n. 1 \<le> n \<and> n \<le> 12 \<and> [c, d] = two n)"
  proof
    assume "month2 c d"
    then have "\<exists>i j. c = digit_char i \<and> d = digit_char j \<and> (i = 0 \<and> 1 \<le> j \<and> j < 10 \<or> i = 1 \<and> j \<le> 2)"
      unfolding month2_def digit_char_literals
      using D [of 1 9 d] D [of 0 2 d] by (elim disjE conjE; force)
    then obtain i j where "c = digit_char i" "d = digit_char j" "i = 0 \<and> 1 \<le> j \<and> j < 10 \<or> i = 1 \<and> j \<le> 2" by blast
    then show "\<exists>n. 1 \<le> n \<and> n \<le> 12 \<and> [c, d] = two n" using two_digits [of c i d j] by (intro exI [of _ "i * 10 + j"]) auto
  qed (auto simp: two_def intro: mo)
  show "day2 c d \<longleftrightarrow> (\<exists>n. 1 \<le> n \<and> n \<le> 31 \<and> [c, d] = two n)"
  proof
    assume "day2 c d"
    then consider "c = digit_char 0" "between (digit_char 1) (digit_char 9) d"
      | "c = digit_char 1" "between (digit_char 0) (digit_char 9) d"
      | "c = digit_char 2" "between (digit_char 0) (digit_char 9) d"
      | "c = digit_char 3" "d = digit_char 0" | "c = digit_char 3" "d = digit_char 1"
      unfolding day2_def digit_char_literals by blast
    then have "\<exists>i j. c = digit_char i \<and> d = digit_char j \<and>
      (i = 0 \<and> 1 \<le> j \<and> j < 10 \<or> (i = 1 \<or> i = 2) \<and> j < 10 \<or> i = 3 \<and> j \<le> 1)"
    proof cases
      case 1
      then obtain j where "d = digit_char j" "1 \<le> j" "j \<le> 9" using D [of 1 9 d] by auto
      then show ?thesis using 1 by (intro exI [of _ 0] exI [of _ j]) simp
    next
      case 2
      then obtain j where "d = digit_char j" "j \<le> 9" using D [of 0 9 d] by auto
      then show ?thesis using 2 by (intro exI [of _ 1] exI [of _ j]) simp
    next
      case 3
      then obtain j where "d = digit_char j" "j \<le> 9" using D [of 0 9 d] by auto
      then show ?thesis using 3 by (intro exI [of _ 2] exI [of _ j]) simp
    next
      case 4
      then show ?thesis by (intro exI [of _ 3] exI [of _ 0]) simp
    next
      case 5
      then show ?thesis by (intro exI [of _ 3] exI [of _ 1]) simp
    qed
    then obtain i j where "c = digit_char i" "d = digit_char j"
      "i = 0 \<and> 1 \<le> j \<and> j < 10 \<or> (i = 1 \<or> i = 2) \<and> j < 10 \<or> i = 3 \<and> j \<le> 1" by blast
    then show "\<exists>n. 1 \<le> n \<and> n \<le> 31 \<and> [c, d] = two n" using two_digits [of c i d j] by (intro exI [of _ "i * 10 + j"]) auto
  qed (auto simp: two_def intro: da)
qed

lemma check1_view [simp]:
  "i < length v \<Longrightarrow> check1 P v i k = (if P (v ! i) then k else Some SPOCP_SYNTAXERROR)"
  by (simp add: check1_def)

lemma check2_view [simp]:
  "Suc i < length v \<Longrightarrow> check2 P v i k = (if P (v ! i) (v ! Suc i) then k else Some SPOCP_SYNTAXERROR)"
  by (simp add: check2_def)

definition time_text :: "nat \<Rightarrow> nat \<Rightarrow> nat \<Rightarrow> bytes" where
  "time_text h m s = two h @ '':'' @ two m @ '':'' @ two s"

lemma time_text_iff:
  "[a, b, c, d, e, f, g, i] = time_text h m s \<longleftrightarrow>
     [a, b] = two h \<and> c = CHR '':'' \<and> [d, e] = two m \<and> f = CHR '':'' \<and> [g, i] = two s"
  by (auto simp: time_text_def two_def)

lemma list8: "length s = 8 \<Longrightarrow> \<exists>a b c d e f g i. s = [a, b, c, d, e, f, g, i]"
  by (auto simp: numeral_eq_Suc length_Suc_conv)

text \<open>\<open>is_time\<close> always returns, it accepts exactly the times from 00:00:00 to 24:59:59 in the form
  HH:MM:SS, and on an accepted time \<open>hms2int\<close> adds its number of seconds to its second argument.\<close>

theorem is_time_seconds:
  assumes "wf_octet op"
  shows "(\<exists>r. is_time (Some op) = Some r \<and>
      (r = SPOCP_SUCCESS \<longleftrightarrow> (\<exists>h\<le>24. \<exists>m<60. \<exists>s<60. content op = time_text h m s))) \<and>
    (\<forall>h\<le>24. \<forall>m<60. \<forall>s<60. \<forall>n. content op = time_text h m s \<longrightarrow>
      hms2int op n = Some (n + int (3600 * h + 60 * m + s)))"
proof -
  obtain s x sz where op: "op = view s x sz" using assms by (rule wf_octetE)
  have A: "\<exists>r. is_time (Some (view s x sz)) = Some r \<and>
      (r = SPOCP_SUCCESS \<longleftrightarrow> (\<exists>h\<le>24. \<exists>m<60. \<exists>t<60. s = time_text h m t))"
  proof (cases "length s = 8")
    case True
    then obtain a b c d e f g i where s: "s = [a, b, c, d, e, f, g, i]" using list8 by blast
    have "is_time (Some (view s x sz)) = Some (if hour2 a b \<and> c = CHR '':'' \<and> min2 d e \<and> f = CHR '':'' \<and> min2 g i
        then SPOCP_SUCCESS else SPOCP_SYNTAXERROR)"
      by (simp add: is_time_def Let_def s)
    moreover have "hour2 a b \<and> c = CHR '':'' \<and> min2 d e \<and> f = CHR '':'' \<and> min2 g i \<longleftrightarrow>
        (\<exists>h\<le>24. \<exists>m<60. \<exists>t<60. s = time_text h m t)"
      unfolding s time_text_iff pair_tests by blast
    ultimately show ?thesis by simp
  next
    case False
    then have "s \<noteq> time_text h m t" for h m t by (auto simp: time_text_def two_def)
    with False show ?thesis by (simp add: is_time_def)
  qed
  have V: "digitval (digit_char (n div 10)) * 10 + digitval (digit_char (n mod 10)) = int n" if "n < 100" for n
  proof -
    have "n div 10 < 10" "int (n div 10) * 10 + int (n mod 10) = int n" using that by presburger+
    then show ?thesis by simp
  qed
  have B: "hms2int (view s x sz) n = Some (n + int (3600 * h + 60 * m + t))"
    if "h \<le> 24" "m < 60" "t < 60" "s = time_text h m t" for h m t n
  proof -
    have "hms2int (view s x sz) n = Some (n + (digitval (digit_char (h div 10)) * 36000 + digitval (digit_char (h mod 10)) * 3600)
        + (digitval (digit_char (m div 10)) * 600 + digitval (digit_char (m mod 10)) * 60)
        + (digitval (digit_char (t div 10)) * 10 + digitval (digit_char (t mod 10))))"
      unfolding that(4) by (simp add: hms2int_def time_text_def two_def rd_def)
    then show ?thesis using V [of h] V [of m] V [of t] that(1-3) by (simp del: digitval_digit_char)
  qed
  show ?thesis using A B by (simp add: op)
qed

theorem is_time_seconds_witness:
  "is_time (Some (mk_octet ''12:34:56'')) = Some SPOCP_SUCCESS \<and> hms2int (mk_octet ''12:34:56'') 0 = Some 45296"
proof -
  have t: "content (mk_octet ''12:34:56'') = time_text 12 34 56" by (simp, code_simp)
  have "wf_octet (mk_octet ''12:34:56'')" by (simp add: wf_mk_octet)
  note I = is_time_seconds [OF this]
  have "\<exists>h\<le>24. \<exists>m<60. \<exists>s<60. content (mk_octet ''12:34:56'') = time_text h m s"
    unfolding t by (rule exI [of _ 12], simp, rule exI [of _ 34], simp, rule exI [of _ 56], simp)
  with conjunct1 [OF I] have "is_time (Some (mk_octet ''12:34:56'')) = Some SPOCP_SUCCESS" by blast
  moreover have "hms2int (mk_octet ''12:34:56'') 0 = Some (0 + int (3600 * 12 + 60 * 34 + 56))"
    using conjunct2 [OF I] t by simp
  ultimately show ?thesis by simp
qed

definition date_text :: "bytes \<Rightarrow> nat \<Rightarrow> nat \<Rightarrow> nat \<Rightarrow> nat \<Rightarrow> nat \<Rightarrow> bytes \<Rightarrow> bytes" where
  "date_text y mo d h mi s z = y @ ''-'' @ two mo @ ''-'' @ two d @ ''T'' @ time_text h mi s @ z"

definition zone :: "bytes \<Rightarrow> bool" where
  "zone z \<longleftrightarrow> z = ''Z'' \<or> (\<exists>sg h. (sg = CHR ''+'' \<or> sg = CHR ''-'') \<and> h \<le> 24 \<and> z = sg # two h)"

definition date_syntax :: "bytes \<Rightarrow> bool" where
  "date_syntax t \<longleftrightarrow> (\<exists>y mo d h mi s z. length y = 4 \<and> (\<forall>c\<in>set y. DIGIT c) \<and> 1 \<le> mo \<and> mo \<le> 12 \<and>
     1 \<le> d \<and> d \<le> 31 \<and> h \<le> 24 \<and> mi < 60 \<and> s < 60 \<and> zone z \<and> t = date_text y mo d h mi s z)"

lemma date_syntax_length: "date_syntax t \<Longrightarrow> length t = 20 \<or> length t = 22"
  by (auto simp: date_syntax_def date_text_def time_text_def two_def zone_def)

text \<open>The tests of \<open>is_date\<close> up to the zone.\<close>

definition date_head :: "bytes \<Rightarrow> bool" where
  "date_head v \<longleftrightarrow> (\<forall>i<4. DIGIT (v ! i)) \<and> v ! 4 = CHR ''-'' \<and> month2 (v ! 5) (v ! 6) \<and> v ! 7 = CHR ''-'' \<and>
     day2 (v ! 8) (v ! 9) \<and> v ! 10 = CHR ''T'' \<and> hour2 (v ! 11) (v ! 12) \<and> v ! 13 = CHR '':'' \<and>
     min2 (v ! 14) (v ! 15) \<and> v ! 16 = CHR '':'' \<and> min2 (v ! 17) (v ! 18)"

lemma all4: "(\<forall>i<4. P i) \<longleftrightarrow> P 0 \<and> P 1 \<and> P 2 \<and> P (3::nat)"
  by (auto simp: numeral_eq_Suc less_Suc_eq)

lemma is_date_view:
  assumes "20 \<le> length s"
  shows "is_date (view s x sz) = Some (if date_head s \<and>
      (s ! 19 = CHR ''Z'' \<and> length s = 20 \<or>
       (s ! 19 = CHR ''+'' \<or> s ! 19 = CHR ''-'') \<and> length s = 22 \<and> hour2 (s ! 20) (s ! 21))
     then SPOCP_SUCCESS else SPOCP_SYNTAXERROR)"
proof -
  have v: "(s @ x) ! i = s ! i" if "i < 20" for i using that assms by (simp add: nth_append)
  have v2: "length s \<ge> 22 \<Longrightarrow> (s @ x) ! 20 = s ! 20" "length s \<ge> 22 \<Longrightarrow> (s @ x) ! 21 = s ! 21" by (simp_all add: nth_append)
  have ne: "s \<noteq> []" using assms by auto
  have colon: "\<not> min2 CHR '':'' c" for c by (simp add: min2_def between_def in_range_def schar_def)
  have l: "i < 20 \<Longrightarrow> i < length (s @ x)" for i using assms by simp
  define tail where "tail = (case rd (s @ x) 19 of None \<Rightarrow> None
       | Some c \<Rightarrow>
         if c = CHR ''Z'' \<and> length s = 20 then Some SPOCP_SUCCESS
         else if c \<noteq> CHR ''+'' \<and> c \<noteq> CHR ''-'' then Some SPOCP_SYNTAXERROR
         else if length s < 22 then Some SPOCP_SYNTAXERROR
         else check2 hour2 (s @ x) 20 (
           if length s = 22 then Some SPOCP_SUCCESS
           else if length s \<noteq> 25 then Some SPOCP_SYNTAXERROR
           else check1 (\<lambda>c. c = CHR '':'') (s @ x) 22 (check2 min2 (s @ x) 22 (Some SPOCP_SUCCESS))))"
  have tail: "tail = Some (if s ! 19 = CHR ''Z'' \<and> length s = 20 \<or>
       (s ! 19 = CHR ''+'' \<or> s ! 19 = CHR ''-'') \<and> length s = 22 \<and> hour2 (s ! 20) (s ! 21)
     then SPOCP_SUCCESS else SPOCP_SYNTAXERROR)"
  proof -
    have r: "rd (s @ x) 19 = Some (s ! 19)" using v [of 19] l [of 19] by simp
    show ?thesis
    proof (cases "length s < 22")
      case True
      then show ?thesis unfolding tail_def r by simp
    next
      case False
      then have "check2 hour2 (s @ x) 20 k = (if hour2 (s ! 20) (s ! 21) then k else Some SPOCP_SYNTAXERROR)" for k
        using v2 by simp
      then show ?thesis unfolding tail_def r using False by (simp add: colon)
    qed
  qed
  have d: "between CHR ''0'' CHR ''9'' = DIGIT" by (rule ext) (simp add: between_def DIGIT_def)
  have "is_date (view s x sz) = (if date_head s then tail else Some SPOCP_SYNTAXERROR)"
    unfolding is_date_def Let_def view_simps tail_def [symmetric] date_head_def all4 d
    using assms ne by (simp add: v)
  then show ?thesis by (simp add: tail)
qed

lemma date_head_text:
  assumes "length y = 4" "\<forall>c\<in>set y. DIGIT c" "1 \<le> mo" "mo \<le> 12" "1 \<le> d" "d \<le> 31" "h \<le> 24" "mi < 60" "sc < 60"
  shows "date_head (date_text y mo d h mi sc z)"
proof -
  obtain a b c e where y: "y = [a, b, c, e]" using assms(1) by (auto simp: numeral_eq_Suc length_Suc_conv)
  have "month2 (digit_char (mo div 10)) (digit_char (mo mod 10))" "day2 (digit_char (d div 10)) (digit_char (d mod 10))"
    "hour2 (digit_char (h div 10)) (digit_char (h mod 10))" "min2 (digit_char (mi div 10)) (digit_char (mi mod 10))"
    "min2 (digit_char (sc div 10)) (digit_char (sc mod 10))"
    using assms by (auto simp: pair_tests two_def)
  then show ?thesis using assms(2) by (simp add: date_head_def date_text_def time_text_def two_def y all4)
qed

lemma date_head_syntax:
  assumes "date_head s" and "20 \<le> length s"
  shows "\<exists>y mo d h mi sc. length y = 4 \<and> (\<forall>c\<in>set y. DIGIT c) \<and> 1 \<le> mo \<and> mo \<le> 12 \<and>
     1 \<le> d \<and> d \<le> 31 \<and> h \<le> 24 \<and> mi < 60 \<and> sc < 60 \<and> s = date_text y mo d h mi sc (drop 19 s)"
proof -
  define y where "y = take 4 s"
  have y: "length y = 4" "\<forall>c\<in>set y. DIGIT c"
    using assms by (auto simp: y_def date_head_def in_set_conv_nth)
  note head = assms(1) [unfolded date_head_def pair_tests]
  from head obtain mo where mo: "1 \<le> mo" "mo \<le> 12" "[s ! 5, s ! 6] = two mo" by blast
  from head obtain d where d: "1 \<le> d" "d \<le> 31" "[s ! 8, s ! 9] = two d" by blast
  from head obtain h where h: "h \<le> 24" "[s ! 11, s ! 12] = two h" by blast
  from head obtain mi where mi: "mi < 60" "[s ! 14, s ! 15] = two mi" by blast
  from head obtain sc where sc: "sc < 60" "[s ! 17, s ! 18] = two sc" by blast
  have D: "drop i s = s ! i # drop (i + 1) s" if "i < 20" for i
    using that assms(2) by (simp add: Cons_nth_drop_Suc)
  have "s = y @ drop 4 s" by (simp add: y_def)
  also have "drop 4 s = ''-'' @ [s ! 5, s ! 6] @ ''-'' @ [s ! 8, s ! 9] @ ''T'' @ [s ! 11, s ! 12] @ '':'' @
      [s ! 14, s ! 15] @ '':'' @ [s ! 17, s ! 18] @ drop 19 s"
    using head by (simp add: D [of 4] D [of 5] D [of 6] D [of 7] D [of 8] D [of 9] D [of 10] D [of 11] D [of 12]
        D [of 13] D [of 14] D [of 15] D [of 16] D [of 17] D [of 18])
  finally have "s = date_text y mo d h mi sc (drop 19 s)"
    unfolding mo(3) d(3) h(2) mi(2) sc(2) date_text_def time_text_def by simp
  with y mo(1,2) d(1,2) h(1) mi(1) sc(1) show ?thesis by blast
qed

lemma date_text_drop: "length y = 4 \<Longrightarrow> drop 19 (date_text y mo d h mi sc z) = z"
  by (simp add: date_text_def time_text_def two_def)

lemma zone_iff:
  assumes "20 \<le> length s"
  shows "zone (drop 19 s) \<longleftrightarrow> s ! 19 = CHR ''Z'' \<and> length s = 20 \<or>
       (s ! 19 = CHR ''+'' \<or> s ! 19 = CHR ''-'') \<and> length s = 22 \<and> hour2 (s ! 20) (s ! 21)"
proof -
  obtain c z where c: "drop 19 s = c # z" using assms by (cases "drop 19 s") auto
  then have c19: "s ! 19 = c" using assms by (metis nth_via_drop)
  have lz: "length s = 20 + length z" using arg_cong [OF c, of length] assms by simp
  have z: "z = drop 20 s" using arg_cong [OF c, of "drop 1"] by (simp add: drop_Suc [symmetric])
  show ?thesis
  proof (cases "length z = 2")
    case True
    then obtain e f where ef: "z = [e, f]" by (auto simp: numeral_eq_Suc length_Suc_conv)
    have "drop 20 s ! 0 = s ! 20" "drop 20 s ! 1 = s ! 21" using lz by simp_all
    then have "s ! 20 = e" "s ! 21 = f" unfolding z [symmetric] ef by simp_all
    then show ?thesis by (auto simp: zone_def c c19 ef lz pair_tests)
  next
    case False
    then show ?thesis by (auto simp: zone_def c c19 lz two_def)
  qed
qed

text \<open>\<open>is_date\<close> always returns, and it accepts exactly the dates \<open>YYYY-MM-DDTHH:MM:SS\<close> followed by Z or by
  a sign and the hours of the offset. The offset with minutes, which the comment in the code
  gives as an example, is not among them.\<close>

theorem is_date_accepts:
  assumes "wf_octet op"
  shows "\<exists>r. is_date op = Some r \<and> (r = SPOCP_SUCCESS \<longleftrightarrow> date_syntax (content op))"
proof -
  obtain s x sz where op: "op = view s x sz" using assms by (rule wf_octetE)
  show ?thesis
  proof (cases "20 \<le> length s")
    case True
    have "date_syntax s \<longleftrightarrow> date_head s \<and> zone (drop 19 s)"
    proof
      assume "date_syntax s"
      then show "date_head s \<and> zone (drop 19 s)"
        by (auto simp: date_syntax_def date_text_drop intro!: date_head_text)
    next
      assume "date_head s \<and> zone (drop 19 s)"
      then show "date_syntax s" using date_head_syntax [OF _ True] unfolding date_syntax_def by blast
    qed
    then show ?thesis using is_date_view [OF True, of x sz] unfolding op zone_iff [OF True] by simp
  next
    case False
    then have "\<not> date_syntax s" using date_syntax_length [of s] by auto
    then show ?thesis using False by (simp add: op is_date_def)
  qed
qed

theorem is_date_accepts_witness:
  "is_date (mk_octet ''2002-12-31T23:59:59+01:30'') \<noteq> Some SPOCP_SUCCESS"
proof -
  have "\<not> date_syntax (content (mk_octet ''2002-12-31T23:59:59+01:30''))"
    using date_syntax_length [of "''2002-12-31T23:59:59+01:30''"] by auto
  moreover have "wf_octet (mk_octet ''2002-12-31T23:59:59+01:30'')" by (simp add: wf_mk_octet)
  ultimately show ?thesis using is_date_accepts by fastforce
qed

end
