(* ===== verification/Hashfunc.thy ===== *)
theory Hashfunc
  imports Octet
begin

text \<open>
  The hash function of \<open>lib/hashfunc.c\<close> (Jenkins' lookup2), on 32-bit words.
\<close>

unbundle bit_operations_syntax

type_synonym u32 = "32 word"

subsection \<open>The mixing step\<close>

definition mix_a :: "nat \<Rightarrow> u32 \<times> u32 \<times> u32 \<Rightarrow> u32 \<times> u32 \<times> u32" where
  "mix_a n = (\<lambda>(a, b, c). ((a - b - c) XOR drop_bit n c, b, c))"

definition mix_b :: "nat \<Rightarrow> u32 \<times> u32 \<times> u32 \<Rightarrow> u32 \<times> u32 \<times> u32" where
  "mix_b n = (\<lambda>(a, b, c). (a, (b - c - a) XOR push_bit n a, c))"

definition mix_c :: "nat \<Rightarrow> u32 \<times> u32 \<times> u32 \<Rightarrow> u32 \<times> u32 \<times> u32" where
  "mix_c n = (\<lambda>(a, b, c). (a, b, (c - a - b) XOR drop_bit n b))"

definition mix :: "u32 \<times> u32 \<times> u32 \<Rightarrow> u32 \<times> u32 \<times> u32" where
  "mix s = mix_c 15 (mix_b 10 (mix_a 3 (mix_c 5 (mix_b 16 (mix_a 12 (mix_c 13 (mix_b 8 (mix_a 13 s))))))))"

subsection \<open>The hash\<close>

definition byte :: "char \<Rightarrow> u32" where
  "byte c = word_of_nat (of_char c)"

text \<open>Byte \<open>i\<close> of the key, shifted left, when the key has it: the \<^verbatim>\<open>case\<close> labels of the last
  switch fall through, so it adds the bytes below \<^verbatim>\<open>len\<close>.\<close>

definition kb :: "bytes \<Rightarrow> nat \<Rightarrow> nat \<Rightarrow> u32" where
  "kb k i sh = (if i < length k then push_bit sh (byte (k ! i)) else 0)"

definition le4 :: "bytes \<Rightarrow> nat \<Rightarrow> u32" where
  "le4 k i = kb k i 0 + kb k (i + 1) 8 + kb k (i + 2) 16 + kb k (i + 3) 24"

function bj_loop :: "bytes \<Rightarrow> u32 \<times> u32 \<times> u32 \<Rightarrow> bytes \<times> u32 \<times> u32 \<times> u32" where
  "bj_loop k (a, b, c) =
     (if length k \<ge> 12 then bj_loop (drop 12 k) (mix (a + le4 k 0, b + le4 k 4, c + le4 k 8))
      else (k, a, b, c))"
  by pat_completeness auto
termination
  by (relation "measure (\<lambda>(k, s). length k)") auto

declare bj_loop.simps [simp del]

definition bj_hash :: "bytes \<Rightarrow> u32 \<Rightarrow> u32" where
  "bj_hash k initval = (case bj_loop k (0x9e3779b9, 0x9e3779b9, initval) of
     (t, a, b, c) \<Rightarrow>
       snd (snd (mix (a + le4 t 0, b + le4 t 4,
                      c + word_of_nat (length k) + kb t 8 8 + kb t 9 16 + kb t 10 24))))"

definition lhash :: "bytes \<Rightarrow> nat \<Rightarrow> u32 \<Rightarrow> u32 option" where
  "lhash s len init = do { k \<leftarrow> rdn s len; Some (bj_hash k init) }"

lemma lhash_content: "wf_octet o1 \<Longrightarrow> lhash (oct_val o1) (oct_len o1) i = Some (bj_hash (content o1) i)"
  by (simp add: lhash_def wf_octet_def content_def)

subsection \<open>Mixing can be undone\<close>

definition unmix_a :: "nat \<Rightarrow> u32 \<times> u32 \<times> u32 \<Rightarrow> u32 \<times> u32 \<times> u32" where
  "unmix_a n = (\<lambda>(a, b, c). ((a XOR drop_bit n c) + c + b, b, c))"

definition unmix_b :: "nat \<Rightarrow> u32 \<times> u32 \<times> u32 \<Rightarrow> u32 \<times> u32 \<times> u32" where
  "unmix_b n = (\<lambda>(a, b, c). (a, (b XOR push_bit n a) + a + c, c))"

definition unmix_c :: "nat \<Rightarrow> u32 \<times> u32 \<times> u32 \<Rightarrow> u32 \<times> u32 \<times> u32" where
  "unmix_c n = (\<lambda>(a, b, c). (a, b, (c XOR drop_bit n b) + b + a))"

lemma xor_twice: "(x XOR y) XOR y = (x :: u32)"
  by (simp add: xor.assoc)

lemma bij_mix_steps [simp]: "bij (mix_a n)" "bij (mix_b n)" "bij (mix_c n)"
proof -
  show "bij (mix_a n)"
    by (rule o_bij [of "unmix_a n"]) (auto simp: mix_a_def unmix_a_def xor_twice fun_eq_iff)
  show "bij (mix_b n)"
    by (rule o_bij [of "unmix_b n"]) (auto simp: mix_b_def unmix_b_def xor_twice fun_eq_iff)
  show "bij (mix_c n)"
    by (rule o_bij [of "unmix_c n"]) (auto simp: mix_c_def unmix_c_def xor_twice fun_eq_iff)
qed

text \<open>The mixing step of the hash function is reversible, as its comment says: it is a bijection
  on the triples of 32-bit words.\<close>

lemma mix_reversible: "bij mix"
proof -
  have eq: "mix = mix_c 15 \<circ> mix_b 10 \<circ> mix_a 3 \<circ> mix_c 5 \<circ> mix_b 16 \<circ> mix_a 12 \<circ> mix_c 13 \<circ> mix_b 8 \<circ> mix_a 13"
    by (rule ext) (simp add: mix_def)
  show ?thesis unfolding eq by (intro bij_comp bij_mix_steps)
qed

end
