(* ===== verification/Element.thy ===== *)
theory Element
  imports Verify Hashfunc
begin

text \<open>
  The elements a canonical S-expression is parsed into (\<open>include/struct.h\<close>) and the operations of
  \<open>lib/element.c\<close> on them.

  An \<^verbatim>\<open>element_t\<close> is a value of the datatype \<open>element\<close>, one constructor for each type. The \<^verbatim>\<open>next\<close>
  pointers of the members of a list are the order of a HOL list and \<^verbatim>\<open>memberof\<close> is the position
  in the tree. A set whose array pointer is null is \<open>ESet None\<close>. The union in a boundary is a record
  with one field for each member; a range only ever uses the member of its type.
\<close>

record atom =
  a_hash :: u32
  a_val :: octet

record boundary =
  b_type :: nat
  b_num :: int
  b_v4 :: u32
  b_val :: octet

record range =
  r_lower :: boundary
  r_upper :: boundary

datatype element =
    EAtom atom
  | EList "element list"
  | ESet "element list option"
  | EPrefix atom
  | ESuffix atom
  | ERange range
  | EAny

definition null_octet :: octet where
  "null_octet = \<lparr>oct_val = [], oct_len = 0, oct_size = 0\<rparr>"

text \<open>The type codes of elements, of ranges and of the limits of a boundary.\<close>

definition SPOC_ATOM :: nat where "SPOC_ATOM = 0"
definition SPOC_LIST :: nat where "SPOC_LIST = 1"
definition SPOC_SET :: nat where "SPOC_SET = 2"
definition SPOC_PREFIX :: nat where "SPOC_PREFIX = 3"
definition SPOC_SUFFIX :: nat where "SPOC_SUFFIX = 4"
definition SPOC_RANGE :: nat where "SPOC_RANGE = 5"
definition SPOC_ENDOFLIST :: nat where "SPOC_ENDOFLIST = 6"
definition SPOC_ENDOFRULE :: nat where "SPOC_ENDOFRULE = 7"
definition SPOC_ANY :: nat where "SPOC_ANY = 8"

definition SPOC_DATE :: nat where "SPOC_DATE = 0"
definition SPOC_TIME :: nat where "SPOC_TIME = 1"
definition SPOC_ALPHA :: nat where "SPOC_ALPHA = 2"
definition SPOC_IPV4 :: nat where "SPOC_IPV4 = 3"
definition SPOC_NUMERIC :: nat where "SPOC_NUMERIC = 4"

definition LT :: nat where "LT = 0x10"
definition EQ :: nat where "EQ = 0x20"
definition GT :: nat where "GT = 0x40"

lemmas type_codes = SPOC_ATOM_def SPOC_LIST_def SPOC_SET_def SPOC_PREFIX_def SPOC_SUFFIX_def
  SPOC_RANGE_def SPOC_ENDOFLIST_def SPOC_ENDOFRULE_def SPOC_ANY_def
  SPOC_DATE_def SPOC_TIME_def SPOC_ALPHA_def SPOC_IPV4_def SPOC_NUMERIC_def LT_def EQ_def GT_def

fun element_type :: "element \<Rightarrow> nat" where
  "element_type (EAtom a) = SPOC_ATOM"
| "element_type (EList es) = SPOC_LIST"
| "element_type (ESet s) = SPOC_SET"
| "element_type (EPrefix a) = SPOC_PREFIX"
| "element_type (ESuffix a) = SPOC_SUFFIX"
| "element_type (ERange r) = SPOC_RANGE"
| "element_type EAny = SPOC_ANY"

subsection \<open>Printing\<close>

text \<open>The functions return the C result (1 or 0) and the octet string they have appended to. \<open>cat\<close> is
  a call of \<open>octcat\<close> with the test of its result, followed by the rest of the function.\<close>

definition cat :: "octet \<Rightarrow> bytes \<Rightarrow> (octet \<Rightarrow> (bool \<times> octet) option) \<Rightarrow> (bool \<times> octet) option" where
  "cat oct t k = (case octcat oct t (length t) of
      None \<Rightarrow> None
    | Some (r, oct') \<Rightarrow> if r = SPOCP_SUCCESS then k oct' else Some (False, oct'))"

definition element_atom_print :: "octet \<Rightarrow> atom \<Rightarrow> (bool \<times> octet) option" where
  "element_atom_print oct a =
     cat oct (decimal (oct_len (a_val a)) @ '':'')
       (\<lambda>oct. case rdn (oct_val (a_val a)) (oct_len (a_val a)) of None \<Rightarrow> None
         | Some t \<Rightarrow> cat oct t (\<lambda>oct. Some (True, oct)))"

text \<open>\<^verbatim>\<open>%ld\<close> of a number.\<close>

definition show_int :: "int \<Rightarrow> bytes" where
  "show_int n = (if n < 0 then CHR ''-'' # decimal (nat (- n)) else decimal (nat n))"

text \<open>A type that is none of the four cases of the switch leaves \<^verbatim>\<open>spec\<close> uninitialised: \<open>None\<close>.\<close>

definition numeric_boundary_print :: "octet \<Rightarrow> boundary \<Rightarrow> (bool \<times> octet) option" where
  "numeric_boundary_print oct b =
     (let type = int (b_type b) - int SPOC_NUMERIC;
          spec = (\<lambda>op. cat oct (''2:'' @ op @ netstr (show_int (b_num b))) (\<lambda>oct. Some (True, oct))) in
      if type = 0 then Some (True, oct)
      else if type = int (GT OR EQ) then spec ''ge''
      else if type = int GT then spec ''gt''
      else if type = int (LT OR EQ) then spec ''le''
      else if type = int LT then spec ''lt''
      else None)"

definition andthen :: "(bool \<times> octet) option \<Rightarrow> (octet \<Rightarrow> (bool \<times> octet) option) \<Rightarrow> (bool \<times> octet) option" where
  "andthen x k = (case x of None \<Rightarrow> None | Some (ok, oct) \<Rightarrow> if ok then k oct else Some (False, oct))"

definition range_numeric_print :: "octet \<Rightarrow> range \<Rightarrow> (bool \<times> octet) option" where
  "range_numeric_print oct r =
     andthen (numeric_boundary_print oct (r_lower r)) (\<lambda>oct. numeric_boundary_print oct (r_upper r))"

definition element_range_print :: "octet \<Rightarrow> range \<Rightarrow> (bool \<times> octet) option" where
  "element_range_print oct r =
     cat oct ''(1:*5:range'' (\<lambda>oct.
       andthen (if b_type (r_lower r) AND SPOC_NUMERIC \<noteq> 0 then range_numeric_print oct r else Some (True, oct))
         (\<lambda>oct. cat oct '')'' (\<lambda>oct. Some (True, oct))))"

fun element_print :: "octet \<Rightarrow> element \<Rightarrow> (bool \<times> octet) option"
  and element_print_all :: "octet \<Rightarrow> element list \<Rightarrow> (bool \<times> octet) option" where
  "element_print oct (EAtom a) = element_atom_print oct a"
| "element_print oct (EList es) =
     cat oct ''('' (\<lambda>oct. andthen (element_print_all oct es) (\<lambda>oct. cat oct '')'' (\<lambda>oct. Some (True, oct))))"
| "element_print oct (ESet s) =
     cat oct ''(1:*3:set'' (\<lambda>oct.
       andthen (case s of None \<Rightarrow> Some (True, oct) | Some es \<Rightarrow> element_print_all oct es)
         (\<lambda>oct. cat oct '')'' (\<lambda>oct. Some (True, oct))))"
| "element_print oct (ERange r) = element_range_print oct r"
| "element_print oct (EPrefix a) = Some (False, oct)"
| "element_print oct (ESuffix a) = Some (False, oct)"
| "element_print oct EAny = Some (False, oct)"
| "element_print_all oct [] = Some (True, oct)"
| "element_print_all oct (e # es) = andthen (element_print oct e) (\<lambda>oct. element_print_all oct es)"

subsection \<open>What printing appends\<close>

text \<open>\<open>growable\<close> for octet strings: an octet string that owns its memory and has room up to \<open>2 ^ 31\<close>.\<close>

definition out_ok :: "nat \<Rightarrow> octet \<Rightarrow> bool" where
  "out_ok n oct \<longleftrightarrow> wf_dyn oct \<and> 0 < oct_size oct \<and> oct_len oct + n < 2 ^ 31"

text \<open>\<open>appends act t\<close>: \<open>act\<close> succeeds and appends \<open>t\<close> to every octet string with enough room.\<close>

definition appends :: "(octet \<Rightarrow> (bool \<times> octet) option) \<Rightarrow> bytes \<Rightarrow> bool" where
  "appends act t \<longleftrightarrow> (\<forall>oct n. out_ok (length t + n) oct \<longrightarrow>
     (\<exists>oct'. act oct = Some (True, oct') \<and> content oct' = content oct @ t \<and> out_ok n oct'))"

lemma appendsE:
  assumes "appends act t" and "out_ok (length t + n) oct"
  obtains oct' where "act oct = Some (True, oct')" and "content oct' = content oct @ t" and "out_ok n oct'"
  using assms unfolding appends_def by blast

lemma appends_done [simp]: "appends (\<lambda>oct. Some (True, oct)) []"
  by (simp add: appends_def)

lemma appends_cat:
  assumes "appends k u"
  shows "appends (\<lambda>oct. cat oct t k) (t @ u)"
  unfolding appends_def
proof (intro allI impI)
  fix oct n
  assume ok: "out_ok (length (t @ u) + n) oct"
  then have d: "wf_dyn oct" "0 < oct_size oct" "oct_len oct + length t < 2 ^ 31" by (auto simp: out_ok_def)
  obtain o2 where o2: "octcat oct t (length t) = Some (SPOCP_SUCCESS, o2)" "content o2 = content oct @ t"
    "wf_dyn o2" "0 < oct_size o2"
    using octcat_content [OF d(1,2) order.refl d(3)] by auto
  have len: "length (content o2) = oct_len o2" "length (content oct) = oct_len oct"
    using o2(3) d(1) by (simp_all add: wf_dyn_def)
  then have "oct_len o2 = oct_len oct + length t" using arg_cong [OF o2(2), of length] by simp
  then have "out_ok (length u + n) o2" using ok o2(3,4) by (simp add: out_ok_def)
  with assms obtain o3 where "k o2 = Some (True, o3)" "content o3 = content o2 @ u" "out_ok n o3"
    by (rule appendsE)
  then show "\<exists>oct'. cat oct t k = Some (True, oct') \<and> content oct' = content oct @ t @ u \<and> out_ok n oct'"
    using o2 by (simp add: cat_def)
qed

lemma appends_andthen:
  assumes "appends act t" and "appends k u"
  shows "appends (\<lambda>oct. andthen (act oct) k) (t @ u)"
  unfolding appends_def
proof (intro allI impI)
  fix oct n
  assume "out_ok (length (t @ u) + n) oct"
  then have "out_ok (length t + (length u + n)) oct" by (simp add: add.assoc)
  with assms(1) obtain o2 where o2: "act oct = Some (True, o2)" "content o2 = content oct @ t" "out_ok (length u + n) o2"
    by (rule appendsE)
  from assms(2) o2(3) obtain o3 where "k o2 = Some (True, o3)" "content o3 = content o2 @ u" "out_ok n o3"
    by (rule appendsE)
  then show "\<exists>oct'. andthen (act oct) k = Some (True, oct') \<and> content oct' = content oct @ t @ u \<and> out_ok n oct'"
    using o2 by (simp add: andthen_def)
qed

lemma appends_text: "appends (\<lambda>oct. cat oct t (\<lambda>oct. Some (True, oct))) t"
  using appends_cat [OF appends_done, of t] by simp

text \<open>The text of the elements that \<open>element_print\<close> can print, and when it can.\<close>

fun ptext :: "element \<Rightarrow> bytes" where
  "ptext (EAtom a) = netstr (content (a_val a))"
| "ptext (EList es) = ''('' @ concat (map ptext es) @ '')''"
| "ptext (ESet s) = ''(1:*3:set'' @ (case s of None \<Rightarrow> [] | Some es \<Rightarrow> concat (map ptext es)) @ '')''"
| "ptext _ = []"

fun printable :: "element \<Rightarrow> bool" where
  "printable (EAtom a) \<longleftrightarrow> wf_octet (a_val a)"
| "printable (EList es) \<longleftrightarrow> (\<forall>e\<in>set es. printable e)"
| "printable (ESet s) \<longleftrightarrow> (case s of None \<Rightarrow> True | Some es \<Rightarrow> \<forall>e\<in>set es. printable e)"
| "printable _ \<longleftrightarrow> False"

lemma appends_atom: "wf_octet (a_val a) \<Longrightarrow> appends (\<lambda>oct. element_atom_print oct a) (netstr (content (a_val a)))"
proof -
  assume wf: "wf_octet (a_val a)"
  have "appends (\<lambda>oct. cat oct (decimal (oct_len (a_val a)) @ '':'') (\<lambda>oct. cat oct (content (a_val a)) (\<lambda>oct. Some (True, oct))))
      ((decimal (oct_len (a_val a)) @ '':'') @ content (a_val a))"
    by (intro appends_cat appends_text)
  moreover have "rdn (oct_val (a_val a)) (oct_len (a_val a)) = Some (content (a_val a))"
    using wf by (simp add: wf_octet_def content_def)
  ultimately show ?thesis using wf by (simp add: element_atom_print_def netstr_def)
qed

lemma element_print_appends:
  "printable e \<Longrightarrow> appends (\<lambda>oct. element_print oct e) (ptext e)"
  "(\<forall>e\<in>set es. printable e) \<Longrightarrow> appends (\<lambda>oct. element_print_all oct es) (concat (map ptext es))"
proof (induction e and es rule: element_print_element_print_all.induct)
  case (1 oct a)
  then show ?case by (simp add: appends_atom)
next
  case (2 oct es)
  have "appends (\<lambda>oct. cat oct ''('' (\<lambda>oct. andthen (element_print_all oct es) (\<lambda>oct. cat oct '')'' (\<lambda>oct. Some (True, oct)))))
      (''('' @ concat (map ptext es) @ '')'')"
    by (intro appends_cat appends_andthen appends_text) (use 2 in auto)
  then show ?case by simp
next
  case (3 oct s)
  have "appends (\<lambda>oct. case s of None \<Rightarrow> Some (True, oct) | Some es \<Rightarrow> element_print_all oct es)
      (case s of None \<Rightarrow> [] | Some es \<Rightarrow> concat (map ptext es))"
    using 3 by (cases s) auto
  then have "appends (\<lambda>oct. cat oct ''(1:*3:set'' (\<lambda>oct.
       andthen (case s of None \<Rightarrow> Some (True, oct) | Some es \<Rightarrow> element_print_all oct es)
         (\<lambda>oct. cat oct '')'' (\<lambda>oct. Some (True, oct)))))
      (''(1:*3:set'' @ (case s of None \<Rightarrow> [] | Some es \<Rightarrow> concat (map ptext es)) @ '')'')"
    by (intro appends_cat appends_andthen appends_text)
  then show ?case by simp
next
  case (9 oct e es)
  have "appends (\<lambda>oct. andthen (element_print oct e) (\<lambda>oct. element_print_all oct es)) (ptext e @ concat (map ptext es))"
    by (intro appends_andthen) (use 9 in auto)
  then show ?case by simp
qed auto

end
