(* ===== verification/Input.thy ===== *)
theory Input
  imports Element
begin

text \<open>
  The parser of canonical S-expressions (\<open>lib/input.c\<close>): \<open>element_get\<close> with the functions for lists,
  sets, ranges, prefixes and suffixes.

  A parsing function takes the octet string it reads from and returns the result (\<open>Inl\<close> a result
  code, \<open>Inr\<close> what was parsed) and the octet string as it leaves it. \<^verbatim>\<open>*op->val\<close> is read without a
  test of \<^verbatim>\<open>op->len\<close> in many places, and \<^verbatim>\<open>op->len--\<close> then wraps: \<open>step\<close> keeps that. \<open>shift\<close> is the time
  zone dependent part of \<open>to_gmt\<close>.
\<close>

definition step :: "octet \<Rightarrow> octet" where
  "step op = op\<lparr>oct_val := drop 1 (oct_val op), oct_len := szsub (oct_len op) 1\<rparr>"

subsection \<open>Atoms, prefixes and suffixes\<close>

definition atom_new :: "octet \<Rightarrow> atom option" where
  "atom_new op = do {
     (r, v) \<leftarrow> octcpy null_octet op;
     h \<leftarrow> lhash (oct_val op) (oct_len op) 0;
     Some \<lparr>a_hash = h, a_val = v\<rparr> }"

definition get_atom :: "octet \<Rightarrow> ((spocp_result + atom) \<times> octet) option" where
  "get_atom op = (case get_str op of
      None \<Rightarrow> None
    | Some (Inl r, op') \<Rightarrow> Some (Inl r, op')
    | Some (Inr oct, op') \<Rightarrow> map_option (\<lambda>a. (Inr a, op')) (atom_new oct))"

definition do_prefix :: "octet \<Rightarrow> ((spocp_result + element) \<times> octet) option" where
  "do_prefix oct = (case get_atom oct of
      None \<Rightarrow> None
    | Some (Inl r, oct') \<Rightarrow> Some (Inl r, oct')
    | Some (Inr a, oct') \<Rightarrow> do {
        c \<leftarrow> rd (oct_val oct') 0;
        if c \<noteq> CHR '')'' then Some (Inl SPOCP_SYNTAXERROR, oct') else Some (Inr (EPrefix a), step oct') })"

definition do_suffix :: "octet \<Rightarrow> ((spocp_result + element) \<times> octet) option" where
  "do_suffix oct = (case get_atom oct of
      None \<Rightarrow> None
    | Some (Inl r, oct') \<Rightarrow> Some (Inl r, oct')
    | Some (Inr a, oct') \<Rightarrow> do {
        c \<leftarrow> rd (oct_val oct') 0;
        if c \<noteq> CHR '')'' then Some (Inl SPOCP_SYNTAXERROR, oct') else Some (Inr (ESuffix a), step oct') })"

subsection \<open>Ranges\<close>

text \<open>\<open>set_delimiter\<close> returns the range and whether the limit is the lower one, or null.\<close>

definition set_delimiter :: "range \<Rightarrow> octet \<Rightarrow> (bool \<times> range) option option" where
  "set_delimiter rp oct =
     (if oct_len oct \<noteq> 2 then Some None
      else do {
        c \<leftarrow> rd (oct_val oct) 0; d \<leftarrow> rd (oct_val oct) 1;
        let low = (\<lambda>t. Some (Some (True, rp\<lparr>r_lower := (r_lower rp)\<lparr>b_type := b_type (r_lower rp) OR t\<rparr>\<rparr>)));
        let up = (\<lambda>t. Some (Some (False, rp\<lparr>r_upper := (r_upper rp)\<lparr>b_type := b_type (r_upper rp) OR t\<rparr>\<rparr>)));
        if c = CHR ''g'' then
          (if d = CHR ''e'' then low (GT OR EQ) else if d = CHR ''t'' then low GT else Some None)
        else if c = CHR ''l'' then
          (if d = CHR ''e'' then up (LT OR EQ) else if d = CHR ''t'' then up LT else Some None)
        else Some None })"

definition set_limit :: "(bytes \<Rightarrow> int \<Rightarrow> bytes) \<Rightarrow> boundary \<Rightarrow> octet \<Rightarrow> (spocp_result \<times> boundary) option" where
  "set_limit shift bp op =
     (let t = b_type bp AND 0x07 in
      if t = SPOC_NUMERIC then
        map_option (\<lambda>x. case x of Inl r \<Rightarrow> (r, bp) | Inr n \<Rightarrow> (SPOCP_SUCCESS, bp\<lparr>b_num := n\<rparr>)) (is_numeric op)
      else if t = SPOC_ALPHA then
        map_option (\<lambda>(r, v). (SPOCP_SUCCESS, bp\<lparr>b_val := v\<rparr>)) (octcpy (b_val bp) op)
      else if t = SPOC_DATE then do {
        r \<leftarrow> is_date op;
        if r = SPOCP_SUCCESS then do { v \<leftarrow> to_gmt shift op (b_val bp); Some (r, bp\<lparr>b_val := v\<rparr>) }
        else Some (r, bp) }
      else if t = SPOC_TIME then do {
        r \<leftarrow> is_time (Some op);
        if r = SPOCP_SUCCESS then do { n \<leftarrow> hms2int op (b_num bp); Some (r, bp\<lparr>b_num := n\<rparr>) }
        else Some (r, bp) }
      else if t = SPOC_IPV4 then
        map_option (\<lambda>x. case x of Inl r \<Rightarrow> (r, bp) | Inr a \<Rightarrow> (SPOCP_SUCCESS, bp\<lparr>b_v4 := a\<rparr>)) (is_ipv4 op)
      else Some (SPOCP_SYNTAXERROR, bp))"

text \<open>The difference of two \<^verbatim>\<open>long\<close> limits is stored in an \<^verbatim>\<open>int\<close>.\<close>

definition is_valid_range :: "range \<Rightarrow> spocp_result option" where
  "is_valid_range rp =
     (let lo = r_lower rp; up = r_upper rp; t = b_type lo AND 0x07 in
      if b_type lo AND 0xF0 \<noteq> 0 \<and> b_type up AND 0xF0 \<noteq> 0 then
        (if t \<notin> {SPOC_NUMERIC, SPOC_TIME, SPOC_IPV4, SPOC_ALPHA, SPOC_DATE} then Some SPOCP_UNKNOWN_TYPE
         else do {
           c \<leftarrow> (if t = SPOC_NUMERIC \<or> t = SPOC_TIME then Some (i32 (b_num up - b_num lo))
                else if t = SPOC_IPV4 then Some (ipv4cmp (b_v4 up) (b_v4 lo))
                else octcmp (Some (b_val up)) (Some (b_val lo)));
           Some (if c < 0 then SPOCP_SYNTAXERROR
                 else if c = 0 \<and> b_type up AND EQ = 0 \<and> b_type lo AND EQ = 0 then SPOCP_SYNTAXERROR
                 else SPOCP_SUCCESS) })
      else Some SPOCP_SUCCESS)"

definition is_atom :: "range \<Rightarrow> bool option" where
  "is_atom rp =
     (let lo = r_lower rp; up = r_upper rp; t = b_type lo AND 0x07 in
      if t = SPOC_NUMERIC \<or> t = SPOC_TIME then Some (b_num lo \<noteq> 0 \<and> b_num lo = b_num up)
      else if t = SPOC_IPV4 then Some (b_v4 lo = b_v4 up)
      else if t = SPOC_ALPHA \<or> t = SPOC_DATE then
        (if oct_len (b_val lo) = 0 \<or> oct_len (b_val up) = 0 then Some True
         else map_option (\<lambda>c. c = 0) (octcmp (Some (b_val lo)) (Some (b_val up))))
      else Some False)"

definition tolower :: "char \<Rightarrow> char" where
  "tolower c = (if ASCII_UPPER c then char_of (of_char c + (32::nat)) else c)"

text \<open>The type names are compared with \<^verbatim>\<open>strncasecmp\<close>.\<close>

definition range_type :: "octet \<Rightarrow> nat option option" where
  "range_type oct =
     (if oct_len oct \<in> {4, 5, 7} then do {
        s \<leftarrow> rdn (oct_val oct) (oct_len oct);
        let n = map tolower s;
        Some (if n = ''date'' then Some SPOC_DATE else if n = ''ipv4'' then Some SPOC_IPV4
              else if n = ''time'' then Some SPOC_TIME else if n = ''alpha'' then Some SPOC_ALPHA
              else if n = ''numeric'' then Some SPOC_NUMERIC else None) }
      else Some None)"

definition new_boundary :: "nat \<Rightarrow> boundary" where
  "new_boundary t = \<lparr>b_type = t, b_num = 0, b_v4 = 0, b_val = null_octet\<rparr>"

text \<open>A limiter and its value; the value is returned too, for the case that the range is an atom.\<close>

definition get_limit :: "(bytes \<Rightarrow> int \<Rightarrow> bytes) \<Rightarrow> range \<Rightarrow> octet \<Rightarrow> ((spocp_result + range \<times> octet) \<times> octet) option" where
  "get_limit shift rp op = (case get_str op of
      None \<Rightarrow> None
    | Some (Inl r, op1) \<Rightarrow> Some (Inl r, op1)
    | Some (Inr oct, op1) \<Rightarrow>
       (case set_delimiter rp oct of
          None \<Rightarrow> None
        | Some None \<Rightarrow> Some (Inl SPOCP_SYNTAXERROR, op1)
        | Some (Some (low, rp1)) \<Rightarrow>
           (case get_str op1 of
              None \<Rightarrow> None
            | Some (Inl r, op2) \<Rightarrow> Some (Inl r, op2)
            | Some (Inr val, op2) \<Rightarrow>
               (case set_limit shift (if low then r_lower rp1 else r_upper rp1) val of
                  None \<Rightarrow> None
                | Some (r, bp) \<Rightarrow>
                   if r \<noteq> SPOCP_SUCCESS then Some (Inl r, op2)
                   else Some (Inr (if low then rp1\<lparr>r_lower := bp\<rparr> else rp1\<lparr>r_upper := bp\<rparr>, val), op2)))))"

definition do_range :: "(bytes \<Rightarrow> int \<Rightarrow> bytes) \<Rightarrow> octet \<Rightarrow> ((spocp_result + element) \<times> octet) option" where
  "do_range shift op = (case get_str op of
      None \<Rightarrow> None
    | Some (Inl r, op1) \<Rightarrow> Some (Inl r, op1)
    | Some (Inr oct, op1) \<Rightarrow>
       (case range_type oct of
          None \<Rightarrow> None
        | Some None \<Rightarrow> Some (Inl SPOCP_SYNTAXERROR, op1)
        | Some (Some t) \<Rightarrow>
           let rp = \<lparr>r_lower = new_boundary t, r_upper = new_boundary t\<rparr> in
           (case rd (oct_val op1) 0 of
              None \<Rightarrow> None
            | Some c \<Rightarrow>
               if c = CHR '')'' then Some (Inr (ERange rp), step op1)
               else
               (case get_limit shift rp op1 of
                  None \<Rightarrow> None
                | Some (Inl r, op2) \<Rightarrow> Some (Inl r, op2)
                | Some (Inr (rp1, val), op2) \<Rightarrow>
                   (case rd (oct_val op2) 0 of
                      None \<Rightarrow> None
                    | Some c \<Rightarrow>
                       if c = CHR '')'' then Some (Inr (ERange rp1), step op2)
                       else
                       (case get_limit shift rp1 op2 of
                          None \<Rightarrow> None
                        | Some (Inl r, op3) \<Rightarrow> Some (Inl r, op3)
                        | Some (Inr (rp2, val), op3) \<Rightarrow> do {
                            c \<leftarrow> rd (oct_val op3) 0;
                            if c \<noteq> CHR '')'' then Some (Inl SPOCP_SYNTAXERROR, op3)
                            else do {
                              r \<leftarrow> is_valid_range rp2;
                              if r \<noteq> SPOCP_SUCCESS then Some (Inl r, op3)
                              else do {
                                at \<leftarrow> is_atom rp2;
                                if at then do { a \<leftarrow> atom_new val; Some (Inr (EAtom a), step op3) }
                                else Some (Inr (ERange rp2), step op3) } } }))))))"

subsection \<open>Elements\<close>

text \<open>The array of a set under construction: \<open>varr_or\<close> of two arrays of distinct pointers pops the
  second from its end.\<close>

definition set_or :: "element list option \<Rightarrow> element list option \<Rightarrow> element list option" where
  "set_or sa pa = (case (sa, pa) of
      (None, _) \<Rightarrow> pa | (Some a, None) \<Rightarrow> Some a | (Some a, Some b) \<Rightarrow> Some (a @ rev b))"

definition set_put :: "element list option \<Rightarrow> element \<Rightarrow> element list option" where
  "set_put sa e = (case sa of None \<Rightarrow> Some [e] | Some a \<Rightarrow> Some (a @ [e]))"

text \<open>The end of \<open>get_set\<close>: a set of one element keeps the null array it was made with, because
  the element is assigned to the parameter \<^verbatim>\<open>ep\<close>.\<close>

definition set_end :: "element list option \<Rightarrow> octet \<Rightarrow> ((spocp_result + element) \<times> octet) option" where
  "set_end sa oct = (case sa of
      None \<Rightarrow> None
    | Some es \<Rightarrow> do {
        c \<leftarrow> rd (oct_val oct) 0;
        Some (Inr (ESet (if length es = 1 then None else Some es)), if c = CHR '')'' then step oct else oct) })"

text \<open>
  \<open>element_get\<close>, with the loops of \<open>do_list\<close> and \<open>get_set\<close>. \<open>Inr None\<close> is the null element of a
  closing parenthesis. The loops go on with what \<open>element_get\<close> leaves; that this is always shorter
  (\<open>element_get_shorter\<close>, \<open>get_str_val_shorter\<close>) is tested in the definition to make the recursion
  well-founded; the test never fails.
\<close>

function (sequential) element_get ::
    "(bytes \<Rightarrow> int \<Rightarrow> bytes) \<Rightarrow> octet \<Rightarrow> ((spocp_result + element option) \<times> octet) option"
  and do_list :: "(bytes \<Rightarrow> int \<Rightarrow> bytes) \<Rightarrow> element list \<Rightarrow> bool \<Rightarrow> octet \<Rightarrow> ((spocp_result + element) \<times> octet) option"
  and get_set :: "(bytes \<Rightarrow> int \<Rightarrow> bytes) \<Rightarrow> element list option \<Rightarrow> octet \<Rightarrow> ((spocp_result + element) \<times> octet) option" where
  "element_get shift op =
     (if oct_len op = 0 then Some (Inl SPOCP_SYNTAXERROR, op)
      else case rd (oct_val op) 0 of
        None \<Rightarrow> None
      | Some c \<Rightarrow>
        if c = CHR '')'' then Some (Inr None, step op)
        else if c = CHR ''('' then
          (case get_str (step op) of
             None \<Rightarrow> None
           | Some (Inl r, op1) \<Rightarrow> Some (Inl r, op1)
           | Some (Inr oct, op1) \<Rightarrow>
               map_option (\<lambda>(r, op'). (map_sum (\<lambda>r. r) Some r, op'))
               (if length (oct_val op1) \<ge> length (oct_val op) then None
                else if oct_len oct = 1 \<and> rd (oct_val oct) 0 = Some CHR ''*'' then
                  (case rd (oct_val op1) 0 of
                     None \<Rightarrow> None
                   | Some c1 \<Rightarrow>
                     if c1 = CHR '')'' then Some (Inr EAny, step op1)
                     else
                     (case get_str op1 of
                        None \<Rightarrow> None
                      | Some (Inl r, op2) \<Rightarrow> Some (Inl r, op2)
                      | Some (Inr oct, op2) \<Rightarrow>
                          if length (oct_val op2) \<ge> length (oct_val op1) then None
                          else if content oct = ''prefix'' then do_prefix op2
                          else if content oct = ''suffix'' then do_suffix op2
                          else if content oct = ''range'' then do_range shift op2
                          else if content oct = ''set'' then get_set shift None op2
                          else Some (Inl SPOCP_SYNTAXERROR, op2)))
                else (case atom_new oct of None \<Rightarrow> None
                      | Some tag \<Rightarrow> do_list shift [EAtom tag] False op1)))
        else
          (case get_atom op of
             None \<Rightarrow> None
           | Some (Inl r, op1) \<Rightarrow> Some (Inl r, op1)
           | Some (Inr a, op1) \<Rightarrow> Some (Inr (Some (EAtom a)), op1)))"
| "do_list shift es open lo =
     (if oct_len lo = 0 then Some (if open then Inl SPOCP_SYNTAXERROR else Inr (EList es), lo)
      else case element_get shift lo of
        None \<Rightarrow> None
      | Some (Inl r, lo') \<Rightarrow> Some (Inl r, lo')
      | Some (Inr None, lo') \<Rightarrow> Some (Inr (EList es), lo')
      | Some (Inr (Some nep), lo') \<Rightarrow>
          if length (oct_val lo') < length (oct_val lo) then do_list shift (es @ [nep]) True lo' else None)"
| "get_set shift sa oct =
     (if oct_len oct = 0 then set_end sa oct
      else case rd (oct_val oct) 0 of
        None \<Rightarrow> None
      | Some c \<Rightarrow>
        if c = CHR '')'' then set_end sa oct
        else (case element_get shift oct of
            None \<Rightarrow> None
          | Some (Inl r, oct') \<Rightarrow> Some (Inl r, oct')
          | Some (Inr None, oct') \<Rightarrow> None
          | Some (Inr (Some nep), oct') \<Rightarrow>
              if length (oct_val oct') < length (oct_val oct) then
                get_set shift (case nep of ESet pa \<Rightarrow> set_or sa pa | _ \<Rightarrow> set_put sa nep) oct'
              else None))"
  by pat_completeness auto
termination
  by (relation "measure (\<lambda>x. case x of Inl (_, op) \<Rightarrow> 2 * length (oct_val op)
       | Inr (Inl (_, _, _, lo)) \<Rightarrow> 2 * length (oct_val lo) + 1
       | Inr (Inr (_, _, oct)) \<Rightarrow> 2 * length (oct_val oct) + 1)") auto

declare element_get.simps [simp del] do_list.simps [simp del] get_set.simps [simp del]

subsection \<open>What is left is shorter\<close>

lemma step_le: "length (oct_val (step op)) \<le> length (oct_val op)"
  by (simp add: step_def)

lemma get_atom_shorter: "get_atom op = Some (Inr a, op') \<Longrightarrow> length (oct_val op') < length (oct_val op)"
  by (auto simp: get_atom_def dest: get_str_val_shorter split: option.splits sum.splits)

lemma get_limit_shorter: "get_limit shift rp op = Some (Inr x, op') \<Longrightarrow> length (oct_val op') < length (oct_val op)"
  by (auto simp: get_limit_def dest!: get_str_val_shorter split: option.splits sum.splits if_splits)

lemma do_prefix_shorter: "do_prefix op = Some (Inr e, op') \<Longrightarrow> length (oct_val op') \<le> length (oct_val op)"
  "do_suffix op = Some (Inr e, op') \<Longrightarrow> length (oct_val op') \<le> length (oct_val op)"
  by (auto simp: do_prefix_def do_suffix_def bind_eq_Some_conv step_def
      dest!: get_atom_shorter split: option.splits sum.splits if_splits)

lemma do_range_shorter:
  assumes "do_range shift op = Some (Inr e, op')"
  shows "length (oct_val op') \<le> length (oct_val op)"
proof -
  obtain oct op1 t where 1: "get_str op = Some (Inr oct, op1)" "range_type oct = Some (Some t)"
    using assms by (auto simp: do_range_def Let_def split: option.splits sum.splits)
  note l1 = get_str_val_shorter [OF 1(1)]
  define rp where "rp = \<lparr>r_lower = new_boundary t, r_upper = new_boundary t\<rparr>"
  show ?thesis
  proof (cases "rd (oct_val op1) 0 = Some CHR '')''")
    case True
    then have "op' = step op1" using assms 1 by (simp add: do_range_def Let_def)
    then show ?thesis using l1 step_le [of op1] by simp
  next
    case False
    then obtain rp1 v op2 where 2: "get_limit shift rp op1 = Some (Inr (rp1, v), op2)"
      using assms 1 by (auto simp: do_range_def Let_def rp_def split: option.splits sum.splits if_splits)
    note l2 = get_limit_shorter [OF 2]
    show ?thesis
    proof (cases "rd (oct_val op2) 0 = Some CHR '')''")
      case True
      then have "op' = step op2" using assms 1 2 False by (auto simp: do_range_def Let_def rp_def split: option.splits)
      then show ?thesis using l1 l2 step_le [of op2] by simp
    next
      case False
      then obtain rp2 v' op3 where 3: "get_limit shift rp1 op2 = Some (Inr (rp2, v'), op3)" "op' = step op3"
        using assms 1 2 \<open>rd (oct_val op1) 0 \<noteq> Some CHR '')''\<close>
        by (auto simp: do_range_def Let_def rp_def bind_eq_Some_conv split: option.splits sum.splits if_splits)
      then show ?thesis using l1 l2 get_limit_shorter [OF 3(1)] step_le [of op3] by simp
    qed
  qed
qed

lemma map_sum_Inr_iff: "map_sum f g a = Inr x \<longleftrightarrow> (\<exists>y. a = Inr y \<and> x = g y)"
  by (cases a) auto

lemma do_list_le:
  "do_list shift es open lo = Some (Inr e, lo') \<Longrightarrow>
    (\<And>op op' x. length (oct_val op) \<le> length (oct_val lo) \<Longrightarrow> element_get shift op = Some (Inr x, op') \<Longrightarrow> length (oct_val op') < length (oct_val op)) \<Longrightarrow>
    length (oct_val lo') \<le> length (oct_val lo)"
proof (induction "length (oct_val lo)" arbitrary: es "open" lo rule: less_induct)
  case less
  show ?case
  proof (cases "oct_len lo = 0")
    case True
    then show ?thesis using less.prems(1) by (auto simp: do_list.simps split: if_splits)
  next
    case False
    then obtain x lo1 where 1: "element_get shift lo = Some (Inr x, lo1)"
      using less.prems(1) by (auto simp: do_list.simps [of shift es] split: option.splits sum.splits)
    have l: "length (oct_val lo1) < length (oct_val lo)" using less.prems(2) [OF _ 1] by simp
    show ?thesis
    proof (cases x)
      case None
      then show ?thesis using less.prems(1) 1 False l by (auto simp: do_list.simps [of shift es])
    next
      case (Some nep)
      then have "do_list shift (es @ [nep]) True lo1 = Some (Inr e, lo')"
        using less.prems(1) 1 False l by (simp add: do_list.simps [of shift es])
      then have "length (oct_val lo') \<le> length (oct_val lo1)" using less.hyps [OF l] less.prems(2) l by force
      then show ?thesis using l by simp
    qed
  qed
qed

lemma get_set_le:
  "get_set shift sa oct = Some (Inr e, oct') \<Longrightarrow>
    (\<And>op op' x. length (oct_val op) \<le> length (oct_val oct) \<Longrightarrow> element_get shift op = Some (Inr x, op') \<Longrightarrow> length (oct_val op') < length (oct_val op)) \<Longrightarrow>
    length (oct_val oct') \<le> length (oct_val oct)"
proof (induction "length (oct_val oct)" arbitrary: sa oct rule: less_induct)
  case less
  have se: "set_end sa oct = Some (Inr e, oct') \<Longrightarrow> ?case"
    using step_le [of oct] by (auto simp: set_end_def bind_eq_Some_conv split: option.splits if_splits)
  show ?case
  proof (cases "oct_len oct = 0 \<or> rd (oct_val oct) 0 = Some CHR '')''")
    case True
    then show ?thesis using less.prems(1) se by (auto simp: get_set.simps [of shift sa] split: if_splits option.splits)
  next
    case False
    then obtain nep o1 where 1: "element_get shift oct = Some (Inr (Some nep), o1)"
      "get_set shift (case nep of ESet pa \<Rightarrow> set_or sa pa | _ \<Rightarrow> set_put sa nep) o1 = Some (Inr e, oct')"
      using less.prems(1) by (auto simp: get_set.simps [of shift sa] split: option.splits sum.splits if_splits)
    have l: "length (oct_val o1) < length (oct_val oct)" using less.prems(2) [OF _ 1(1)] by simp
    then have "length (oct_val oct') \<le> length (oct_val o1)" using less.hyps [OF l 1(2)] less.prems(2) by force
    then show ?thesis using l by simp
  qed
qed

lemma element_get_shorter:
  "element_get shift op = Some (Inr x, op') \<Longrightarrow> length (oct_val op') < length (oct_val op)"
proof (induction "length (oct_val op)" arbitrary: op op' x rule: less_induct)
  case less
  have IH: "length (oct_val o1) \<le> length (oct_val o2) \<Longrightarrow> length (oct_val o2) < length (oct_val op) \<Longrightarrow>
      element_get shift o1 = Some (Inr y, o1') \<Longrightarrow> length (oct_val o1') < length (oct_val o1)" for o1 o2 o1' y
    using less.hyps [of o1 y o1'] by simp
  have d: "do_list shift es open lo = Some (Inr e, lo') \<Longrightarrow> length (oct_val lo) < length (oct_val op) \<Longrightarrow>
      length (oct_val lo') \<le> length (oct_val lo)" for es "open" lo e lo'
    using do_list_le [of shift es "open" lo e lo'] IH [of _ lo] by blast
  have g: "get_set shift sa lo = Some (Inr e, lo') \<Longrightarrow> length (oct_val lo) < length (oct_val op) \<Longrightarrow>
      length (oct_val lo') \<le> length (oct_val lo)" for sa lo e lo'
    using get_set_le [of shift sa lo e lo'] IH [of _ lo] by blast
  obtain c where c: "rd (oct_val op) 0 = Some c" "oct_len op \<noteq> 0"
    using less.prems by (auto simp: element_get.simps [of shift op] split: option.splits if_splits)
  have ne: "oct_val op \<noteq> []" using c by (auto simp: rd_eq_Some_iff)
  have st: "length (oct_val (step op)) < length (oct_val op)" using ne by (simp add: step_def)
  show ?case
  proof (cases "c = CHR ''('' ")
    case False
    show ?thesis
    proof (cases "c = CHR '')''")
      case True
      then show ?thesis using less.prems c st by (simp add: element_get.simps [of shift op])
    next
      case f: False
      then show ?thesis using less.prems c False
        by (auto simp: element_get.simps [of shift op] dest: get_atom_shorter split: option.splits sum.splits)
    qed
  next
    case True
    obtain oct op1 where 1: "get_str (step op) = Some (Inr oct, op1)"
      using less.prems c True by (auto simp: element_get.simps [of shift op] split: option.splits sum.splits)
    have l1: "length (oct_val op1) < length (oct_val op)" using get_str_val_shorter [OF 1] st by simp
    show ?thesis
    proof (cases "oct_len oct = 1 \<and> rd (oct_val oct) 0 = Some CHR ''*''")
      case f: False
      then obtain tag el where "do_list shift [EAtom tag] False op1 = Some (Inr el, op')"
        using less.prems c True 1 l1
        by (auto simp: element_get.simps [of shift op] map_sum_Inr_iff split: option.splits sum.splits if_splits)
      then show ?thesis using d l1 by fastforce
    next
      case t: True
      show ?thesis
      proof (cases "rd (oct_val op1) 0 = Some CHR '')''")
        case e: True
        then show ?thesis using less.prems c True 1 l1 t step_le [of op1]
          by (auto simp: element_get.simps [of shift op] split: option.splits)
      next
        case e: False
        then obtain o2 op2 where 2: "get_str op1 = Some (Inr o2, op2)"
          using less.prems c True 1 l1 t by (auto simp: element_get.simps [of shift op] split: option.splits sum.splits if_splits)
        have l2: "length (oct_val op2) < length (oct_val op)" using get_str_val_shorter [OF 2] l1 by simp
        obtain el where "(if content o2 = ''prefix'' then do_prefix op2
             else if content o2 = ''suffix'' then do_suffix op2
             else if content o2 = ''range'' then do_range shift op2
             else if content o2 = ''set'' then get_set shift None op2 else Some (Inl SPOCP_SYNTAXERROR, op2)) = Some (Inr el, op')"
          using less.prems c True 1 l1 t e 2 get_str_val_shorter [OF 2]
          by (auto simp: element_get.simps [of shift op] map_sum_Inr_iff split: option.splits sum.splits if_splits)
        then show ?thesis using l2
          by (auto dest!: do_prefix_shorter do_range_shorter g split: if_splits)
      qed
    qed
  qed
qed

subsection \<open>Reading on views\<close>

lemma step_view [simp]: "length s < 2 ^ 31 \<Longrightarrow> step (view (c # s) x sz) = view s x sz"
  by (simp add: step_def view_def)

text \<open>An atom as the parser makes it.\<close>

definition mk_atom :: "bytes \<Rightarrow> atom" where
  "mk_atom s = \<lparr>a_hash = bj_hash s 0,
     a_val = \<lparr>oct_val = s @ [NUL], oct_len = length s, oct_size = length s\<rparr>\<rparr>"

lemma content_mk_atom [simp]: "content (a_val (mk_atom s)) = s" "oct_len (a_val (mk_atom s)) = length s"
  by (simp_all add: mk_atom_def content_def)

lemma atom_new_view [simp]: "atom_new (view s x sz) = Some (mk_atom s)"
proof -
  have "octcpy null_octet (view s x sz) =
      Some (SPOCP_SUCCESS, \<lparr>oct_val = s @ [NUL], oct_len = length s, oct_size = length s\<rparr>)"
    by (simp add: octcpy_def octcpy_room_def null_octet_def wr_def replicate_append_same [symmetric])
  then show ?thesis by (simp add: atom_new_def lhash_def mk_atom_def)
qed

lemma get_atom_netstr:
  assumes "s \<noteq> []" and "length (netstr s @ r) < 2 ^ 31"
  shows "get_atom (view (netstr s @ r) x sz) = Some (Inr (mk_atom s), view r x sz)"
  by (simp add: get_atom_def get_str_netstr [OF assms])

lemma netstr_cons: "\<exists>c t. netstr s = c # t \<and> c \<noteq> CHR ''('' \<and> c \<noteq> CHR '')''"
proof -
  obtain c t where "decimal (length s) = c # t" by (cases "decimal (length s)") auto
  moreover from this have "DIGIT c" using decimal_DIGIT [of c "length s"] by simp
  then have "c \<noteq> CHR ''(''" "c \<noteq> CHR '')''" by auto
  ultimately show ?thesis by (simp add: netstr_def)
qed

lemma netstr_literals:
  "''1:*'' = netstr ''*''" "''6:prefix'' = netstr ''prefix''" "''6:suffix'' = netstr ''suffix''"
  "''5:range'' = netstr ''range''" "''3:set'' = netstr ''set''" "''7:numeric'' = netstr ''numeric''"
  "''2:ge'' = netstr ''ge''" "''2:gt'' = netstr ''gt''" "''2:le'' = netstr ''le''" "''2:lt'' = netstr ''lt''"
  by code_simp+

subsection \<open>Canonical text of an element\<close>

definition limit_text :: "boundary \<Rightarrow> bytes" where
  "limit_text b =
     (if b_type b = SPOC_NUMERIC then []
      else netstr (if b_type b = SPOC_NUMERIC OR GT OR EQ then ''ge'' else if b_type b = SPOC_NUMERIC OR GT then ''gt''
             else if b_type b = SPOC_NUMERIC OR LT OR EQ then ''le'' else ''lt'') @ netstr (decimal (nat (b_num b))))"

fun esexp :: "element \<Rightarrow> bytes" where
  "esexp (EAtom a) = netstr (content (a_val a))"
| "esexp (EList es) = CHR ''('' # concat (map esexp es) @ '')''"
| "esexp (ESet s) = CHR ''('' # netstr ''*'' @ netstr ''set'' @ (case s of None \<Rightarrow> [] | Some es \<Rightarrow> concat (map esexp es)) @ '')''"
| "esexp (EPrefix a) = CHR ''('' # netstr ''*'' @ netstr ''prefix'' @ netstr (content (a_val a)) @ '')''"
| "esexp (ESuffix a) = CHR ''('' # netstr ''*'' @ netstr ''suffix'' @ netstr (content (a_val a)) @ '')''"
| "esexp (ERange r) = CHR ''('' # netstr ''*'' @ netstr ''range'' @ netstr ''numeric'' @
     limit_text (r_lower r) @ limit_text (r_upper r) @ '')''"
| "esexp EAny = CHR ''('' # netstr ''*'' @ '')''"

definition good_atom :: "atom \<Rightarrow> bool" where
  "good_atom a \<longleftrightarrow> a = mk_atom (content (a_val a)) \<and> content (a_val a) \<noteq> []"

definition good_limit :: "nat set \<Rightarrow> boundary \<Rightarrow> bool" where
  "good_limit ts b \<longleftrightarrow> b_type b \<in> ts \<and> b_v4 b = 0 \<and> b_val b = null_octet \<and>
     0 \<le> b_num b \<and> b_num b < 10 ^ 18 \<and> (b_type b = SPOC_NUMERIC \<longrightarrow> b_num b = 0)"

definition good_range :: "range \<Rightarrow> bool" where
  "good_range r \<longleftrightarrow>
     good_limit {SPOC_NUMERIC, SPOC_NUMERIC OR GT, SPOC_NUMERIC OR GT OR EQ} (r_lower r) \<and>
     good_limit {SPOC_NUMERIC, SPOC_NUMERIC OR LT, SPOC_NUMERIC OR LT OR EQ} (r_upper r) \<and>
     (b_type (r_lower r) \<noteq> SPOC_NUMERIC \<and> b_type (r_upper r) \<noteq> SPOC_NUMERIC \<longrightarrow>
        b_num (r_lower r) < b_num (r_upper r) \<and> b_num (r_upper r) - b_num (r_lower r) < 2 ^ 31)"

fun good_elem :: "element \<Rightarrow> bool" where
  "good_elem (EAtom a) \<longleftrightarrow> good_atom a"
| "good_elem (EList es) \<longleftrightarrow> (case es of EAtom t # _ \<Rightarrow> content (a_val t) \<noteq> ''*'' | _ \<Rightarrow> False) \<and> (\<forall>e\<in>set es. good_elem e)"
| "good_elem (ESet s) \<longleftrightarrow> (case s of None \<Rightarrow> False
     | Some es \<Rightarrow> 2 \<le> length es \<and> (\<forall>e\<in>set es. element_type e \<noteq> SPOC_SET \<and> good_elem e))"
| "good_elem (EPrefix a) \<longleftrightarrow> good_atom a"
| "good_elem (ESuffix a) \<longleftrightarrow> good_atom a"
| "good_elem (ERange r) \<longleftrightarrow> good_range r"
| "good_elem EAny \<longleftrightarrow> True"

text \<open>\<open>parses shift e\<close>: \<open>element_get\<close> reads the text of \<open>e\<close> off its input.\<close>

definition parses :: "(bytes \<Rightarrow> int \<Rightarrow> bytes) \<Rightarrow> element \<Rightarrow> bool" where
  "parses shift e \<longleftrightarrow> (\<forall>r x sz. length (esexp e @ r) < 2 ^ 31 \<longrightarrow>
     element_get shift (view (esexp e @ r) x sz) = Some (Inr (Some e), view r x sz))"

lemma parsesD:
  "parses shift e \<Longrightarrow> length (esexp e @ r) < 2 ^ 31 \<Longrightarrow>
   element_get shift (view (esexp e @ r) x sz) = Some (Inr (Some e), view r x sz)"
  by (simp add: parses_def)

lemma esexp_cons: "\<exists>c t. esexp e = c # t \<and> c \<noteq> CHR '')''"
  using netstr_cons by (cases e) fastforce+

lemma do_list_parses:
  assumes "\<And>f. f \<in> set fs \<Longrightarrow> parses shift f" and "length (concat (map esexp fs) @ CHR '')'' # r) < 2 ^ 31"
  shows "do_list shift es op (view (concat (map esexp fs) @ CHR '')'' # r) x sz) =
    Some (Inr (EList (es @ fs)), view r x sz)"
  using assms
proof (induction fs arbitrary: es op)
  case Nil
  have "element_get shift (view (CHR '')'' # r) x sz) = Some (Inr None, view r x sz)"
    using Nil.prems(2) by (subst element_get.simps) simp
  then show ?case by (subst do_list.simps) simp
next
  case (Cons f fs)
  define rest where "rest = concat (map esexp fs) @ CHR '')'' # r"
  have g: "element_get shift (view (esexp f @ rest) x sz) = Some (Inr (Some f), view rest x sz)"
    using Cons.prems by (intro parsesD) (auto simp: rest_def)
  obtain c t where c: "esexp f = c # t" using esexp_cons by blast
  have "do_list shift es op (view (esexp f @ rest) x sz) = do_list shift (es @ [f]) True (view rest x sz)"
    by (subst do_list.simps) (simp add: g, simp add: c)
  also have "\<dots> = Some (Inr (EList (es @ f # fs)), view r x sz)"
    using Cons.IH [of "es @ [f]" True] Cons.prems by (simp add: rest_def)
  finally show ?case by (simp add: rest_def)
qed

lemma get_set_parses:
  assumes "\<And>f. f \<in> set fs \<Longrightarrow> parses shift f \<and> element_type f \<noteq> SPOC_SET"
    and "length (concat (map esexp fs) @ CHR '')'' # r) < 2 ^ 31"
    and "2 \<le> length (case sa of None \<Rightarrow> [] | Some es \<Rightarrow> es) + length fs"
  shows "get_set shift sa (view (concat (map esexp fs) @ CHR '')'' # r) x sz) =
    Some (Inr (ESet (Some ((case sa of None \<Rightarrow> [] | Some es \<Rightarrow> es) @ fs))), view r x sz)"
  using assms
proof (induction fs arbitrary: sa)
  case Nil
  then obtain es where sa: "sa = Some es" "length es \<noteq> 1" by (cases sa) auto
  show ?case using Nil.prems(2) sa(2) by (subst get_set.simps) (simp add: set_end_def sa(1))
next
  case (Cons f fs)
  define rest where "rest = concat (map esexp fs) @ CHR '')'' # r"
  have g: "element_get shift (view (esexp f @ rest) x sz) = Some (Inr (Some f), view rest x sz)"
    using Cons.prems by (intro parsesD) (auto simp: rest_def)
  obtain c t where c: "esexp f = c # t" "c \<noteq> CHR '')''" using esexp_cons by blast
  have nset: "(case f of ESet pa \<Rightarrow> set_or sa pa | _ \<Rightarrow> set_put sa f) = set_put sa f"
    using Cons.prems(1) [of f] by (cases f) auto
  have "rd (esexp f @ rest @ x) 0 = Some c" "esexp f \<noteq> []" by (simp_all add: c(1))
  then have "get_set shift sa (view (esexp f @ rest) x sz) = get_set shift (set_put sa f) (view rest x sz)"
    using c(2) by (subst get_set.simps) (simp add: g nset)
  also have "\<dots> = Some (Inr (ESet (Some ((case sa of None \<Rightarrow> [] | Some es \<Rightarrow> es) @ f # fs))), view r x sz)"
    using Cons.IH [of "set_put sa f"] Cons.prems by (cases sa) (simp_all add: rest_def set_put_def)
  finally show ?case by (simp add: rest_def)
qed

text \<open>A star expression.\<close>

lemma element_get_star:
  assumes "length (netstr ''*'' @ netstr k @ r) < 2 ^ 31 - 1" and "k \<noteq> []"
  shows "element_get shift (view (CHR ''('' # netstr ''*'' @ netstr k @ r) x sz) =
    map_option (\<lambda>(r, op'). (map_sum (\<lambda>r. r) Some r, op'))
     (if k = ''prefix'' then do_prefix (view r x sz)
      else if k = ''suffix'' then do_suffix (view r x sz)
      else if k = ''range'' then do_range shift (view r x sz)
      else if k = ''set'' then get_set shift None (view r x sz)
      else Some (Inl SPOCP_SYNTAXERROR, view r x sz))"
proof -
  have 1: "get_str (view (netstr ''*'' @ netstr k @ r) x sz) = Some (Inr (view ''*'' ((netstr k @ r) @ x) 0), view (netstr k @ r) x sz)"
    using assms by (intro get_str_netstr) auto
  have 2: "get_str (view (netstr k @ r) x sz) = Some (Inr (view k (r @ x) 0), view r x sz)"
    using assms by (intro get_str_netstr) auto
  obtain c t where c: "netstr k = c # t" "c \<noteq> CHR '')''" using netstr_cons by blast
  have st: "step (view (CHR ''('' # netstr ''*'' @ netstr k @ r) x sz) = view (netstr ''*'' @ netstr k @ r) x sz"
    using assms(1) by simp
  have len: "length (netstr ''*'') = 3" by code_simp
  have "netstr k \<noteq> []" "rd (netstr k @ r @ x) 0 = Some c" by (simp_all add: c(1))
  then show ?thesis
    using c(2) by (subst element_get.simps) (simp add: st 1 2 len del: step_view)
qed

lemma element_get_any:
  assumes "length (netstr ''*'' @ CHR '')'' # r) < 2 ^ 31 - 1"
  shows "element_get shift (view (CHR ''('' # netstr ''*'' @ CHR '')'' # r) x sz) = Some (Inr (Some EAny), view r x sz)"
proof -
  have 1: "get_str (view (netstr ''*'' @ CHR '')'' # r) x sz) = Some (Inr (view ''*'' ((CHR '')'' # r) @ x) 0), view (CHR '')'' # r) x sz)"
    using assms by (intro get_str_netstr) auto
  have st: "step (view (CHR ''('' # netstr ''*'' @ CHR '')'' # r) x sz) = view (netstr ''*'' @ CHR '')'' # r) x sz"
    using assms(1) by simp
  have len: "length (netstr ''*'') = 3" by code_simp
  show ?thesis
    using assms by (subst element_get.simps) (simp add: st 1 len)
qed

lemma element_get_list:
  assumes "length (netstr t @ r) < 2 ^ 31 - 1" and "t \<noteq> []" and "t \<noteq> ''*''"
  shows "element_get shift (view (CHR ''('' # netstr t @ r) x sz) =
    map_option (\<lambda>(r, op'). (map_sum (\<lambda>r. r) Some r, op')) (do_list shift [EAtom (mk_atom t)] False (view r x sz))"
proof -
  have 1: "get_str (view (netstr t @ r) x sz) = Some (Inr (view t (r @ x) 0), view r x sz)"
    using assms by (intro get_str_netstr) auto
  have st: "step (view (CHR ''('' # netstr t @ r) x sz) = view (netstr t @ r) x sz"
    using assms(1) by simp
  have star: "\<not> (length t = Suc 0 \<and> rd (t @ y) 0 = Some CHR ''*'')" for y
    using assms(3) by (cases t) auto
  have "length (netstr t) \<noteq> 0" using netstr_cons [of t] by auto
  then show ?thesis
    using star [of "r @ x"] by (subst element_get.simps) (auto simp: st 1 rd_def simp del: step_view)
qed

subsection \<open>Numeric ranges\<close>

lemma is_numeric_decimal:
  assumes "0 \<le> n" and "n < 10 ^ 18"
  shows "is_numeric (view (decimal (nat n)) x sz) = Some (Inr n)"
proof -
  have "\<forall>c\<in>set (decimal (nat n)). DIGIT c" using decimal_DIGIT by blast
  moreover have "i64 n = n" "n \<noteq> LONG_MIN" "n \<noteq> LONG_MAX" using assms by (auto simp: LONG_MIN_def LONG_MAX_def)
  ultimately show ?thesis using assms(1) by (subst is_numeric_view) (simp_all add: Let_def)
qed

lemma get_limit_parts:
  assumes "length (netstr d @ netstr (decimal (nat n)) @ r) < 2 ^ 31" and "d \<noteq> []"
    and "\<And>y. set_delimiter rp (view d y 0) = Some (Some (low, rp1))"
    and "b_type (if low then r_lower rp1 else r_upper rp1) AND 0x07 = SPOC_NUMERIC"
    and "0 \<le> n" and "n < 10 ^ 18"
  shows "get_limit shift rp (view (netstr d @ netstr (decimal (nat n)) @ r) x sz) =
    Some (Inr (if low then rp1\<lparr>r_lower := (r_lower rp1)\<lparr>b_num := n\<rparr>\<rparr> else rp1\<lparr>r_upper := (r_upper rp1)\<lparr>b_num := n\<rparr>\<rparr>,
      view (decimal (nat n)) (r @ x) 0), view r x sz)"
proof -
  have 1: "get_str (view (netstr d @ netstr (decimal (nat n)) @ r) x sz) =
      Some (Inr (view d ((netstr (decimal (nat n)) @ r) @ x) 0), view (netstr (decimal (nat n)) @ r) x sz)"
    using assms(1,2) by (intro get_str_netstr) auto
  have 2: "get_str (view (netstr (decimal (nat n)) @ r) x sz) = Some (Inr (view (decimal (nat n)) (r @ x) 0), view r x sz)"
    using assms(1) by (intro get_str_netstr) auto
  have "set_limit shift b (view (decimal (nat n)) (r @ x) 0) = Some (SPOCP_SUCCESS, b\<lparr>b_num := n\<rparr>)"
    if "b_type b AND 0x07 = SPOC_NUMERIC" for b
    using that is_numeric_decimal [OF assms(5,6)] by (simp add: set_limit_def)
  from this [OF assms(4)] show ?thesis by (simp add: get_limit_def 1 2 assms(3))
qed

lemma get_limit_lower:
  assumes "good_limit {SPOC_NUMERIC, SPOC_NUMERIC OR GT, SPOC_NUMERIC OR GT OR EQ} b" and "b_type b \<noteq> SPOC_NUMERIC"
    and "r_lower rp = new_boundary SPOC_NUMERIC" and "length (limit_text b @ r) < 2 ^ 31"
  shows "\<exists>val. get_limit shift rp (view (limit_text b @ r) x sz) = Some (Inr (rp\<lparr>r_lower := b\<rparr>, val), view r x sz)"
proof -
  define n where "n = b_num b"
  have b: "b = \<lparr>b_type = b_type b, b_num = n, b_v4 = 0, b_val = null_octet\<rparr>" and n: "0 \<le> n" "n < 10 ^ 18"
    using assms(1) by (cases b, simp add: good_limit_def n_def)+
  consider "b_type b = SPOC_NUMERIC OR GT" | "b_type b = SPOC_NUMERIC OR GT OR EQ"
    using assms(1,2) by (auto simp: good_limit_def)
  then obtain d where d: "d \<noteq> []" "limit_text b = netstr d @ netstr (decimal (nat n))"
    "\<And>y. set_delimiter rp (view d y 0) = Some (Some (True, rp\<lparr>r_lower := (r_lower rp)\<lparr>b_type := b_type b\<rparr>\<rparr>))"
    "b_type b AND 0x07 = SPOC_NUMERIC"
  proof cases
    case 1
    then show ?thesis
      by (intro that [of "''gt''"])
        (auto simp: limit_text_def n_def set_delimiter_def assms(3) new_boundary_def type_codes rd_def)
  next
    case 2
    then show ?thesis
      by (intro that [of "''ge''"])
        (auto simp: limit_text_def n_def set_delimiter_def assms(3) new_boundary_def type_codes rd_def)
  qed
  define rp1 where "rp1 = rp\<lparr>r_lower := (r_lower rp)\<lparr>b_type := b_type b\<rparr>\<rparr>"
  have "get_limit shift rp (view (netstr d @ netstr (decimal (nat n)) @ r) x sz) =
    Some (Inr (if True then rp1\<lparr>r_lower := (r_lower rp1)\<lparr>b_num := n\<rparr>\<rparr> else rp1\<lparr>r_upper := (r_upper rp1)\<lparr>b_num := n\<rparr>\<rparr>,
      view (decimal (nat n)) (r @ x) 0), view r x sz)"
    by (rule get_limit_parts) (use d n assms(4) in \<open>auto simp: rp1_def\<close>)
  moreover have "rp1\<lparr>r_lower := (r_lower rp1)\<lparr>b_num := n\<rparr>\<rparr> = rp\<lparr>r_lower := b\<rparr>"
    by (subst b) (simp add: rp1_def assms(3) new_boundary_def)
  ultimately show ?thesis by (simp add: d(2))
qed

lemma get_limit_upper:
  assumes "good_limit {SPOC_NUMERIC, SPOC_NUMERIC OR LT, SPOC_NUMERIC OR LT OR EQ} b" and "b_type b \<noteq> SPOC_NUMERIC"
    and "r_upper rp = new_boundary SPOC_NUMERIC" and "length (limit_text b @ r) < 2 ^ 31"
  shows "\<exists>val. get_limit shift rp (view (limit_text b @ r) x sz) = Some (Inr (rp\<lparr>r_upper := b\<rparr>, val), view r x sz)"
proof -
  define n where "n = b_num b"
  have b: "b = \<lparr>b_type = b_type b, b_num = n, b_v4 = 0, b_val = null_octet\<rparr>" and n: "0 \<le> n" "n < 10 ^ 18"
    using assms(1) by (cases b, simp add: good_limit_def n_def)+
  consider "b_type b = SPOC_NUMERIC OR LT" | "b_type b = SPOC_NUMERIC OR LT OR EQ"
    using assms(1,2) by (auto simp: good_limit_def)
  then obtain d where d: "d \<noteq> []" "limit_text b = netstr d @ netstr (decimal (nat n))"
    "\<And>y. set_delimiter rp (view d y 0) = Some (Some (False, rp\<lparr>r_upper := (r_upper rp)\<lparr>b_type := b_type b\<rparr>\<rparr>))"
    "b_type b AND 0x07 = SPOC_NUMERIC"
  proof cases
    case 1
    then show ?thesis
      by (intro that [of "''lt''"])
        (auto simp: limit_text_def n_def set_delimiter_def assms(3) new_boundary_def type_codes rd_def)
  next
    case 2
    then show ?thesis
      by (intro that [of "''le''"])
        (auto simp: limit_text_def n_def set_delimiter_def assms(3) new_boundary_def type_codes rd_def)
  qed
  define rp1 where "rp1 = rp\<lparr>r_upper := (r_upper rp)\<lparr>b_type := b_type b\<rparr>\<rparr>"
  have "get_limit shift rp (view (netstr d @ netstr (decimal (nat n)) @ r) x sz) =
    Some (Inr (if False then rp1\<lparr>r_lower := (r_lower rp1)\<lparr>b_num := n\<rparr>\<rparr> else rp1\<lparr>r_upper := (r_upper rp1)\<lparr>b_num := n\<rparr>\<rparr>,
      view (decimal (nat n)) (r @ x) 0), view r x sz)"
    by (rule get_limit_parts) (use d n assms(4) in \<open>auto simp: rp1_def\<close>)
  moreover have "rp1\<lparr>r_upper := (r_upper rp1)\<lparr>b_num := n\<rparr>\<rparr> = rp\<lparr>r_upper := b\<rparr>"
    by (subst b) (simp add: rp1_def assms(3) new_boundary_def)
  ultimately show ?thesis by (simp add: d(2))
qed

lemma limit_text_cons: "b_type b \<noteq> SPOC_NUMERIC \<Longrightarrow> \<exists>c t. limit_text b = c # t \<and> c \<noteq> CHR '')''"
proof -
  assume "b_type b \<noteq> SPOC_NUMERIC"
  then have "\<exists>d t. limit_text b = netstr d @ t" by (simp only: limit_text_def if_False) blast
  then obtain d t where "limit_text b = netstr d @ t" by blast
  then show ?thesis using netstr_cons [of d] by auto
qed

lemma do_range_parses:
  assumes "good_range rp"
    and "length (netstr ''numeric'' @ limit_text (r_lower rp) @ limit_text (r_upper rp) @ CHR '')'' # r) < 2 ^ 31"
  shows "do_range shift (view (netstr ''numeric'' @ limit_text (r_lower rp) @ limit_text (r_upper rp) @ CHR '')'' # r) x sz) =
    Some (Inr (ERange rp), view r x sz)"
proof -
  define lo up where "lo = r_lower rp" and "up = r_upper rp"
  have rp: "rp = \<lparr>r_lower = lo, r_upper = up\<rparr>" by (simp add: lo_def up_def)
  have good: "good_limit {SPOC_NUMERIC, SPOC_NUMERIC OR GT, SPOC_NUMERIC OR GT OR EQ} lo"
    "good_limit {SPOC_NUMERIC, SPOC_NUMERIC OR LT, SPOC_NUMERIC OR LT OR EQ} up"
    using assms(1) by (simp_all add: good_range_def lo_def up_def)
  have null: "b = new_boundary SPOC_NUMERIC" if "good_limit ts b" "b_type b = SPOC_NUMERIC" for ts b
    using that by (cases b) (simp add: good_limit_def new_boundary_def)
  have tnull: "limit_text (new_boundary SPOC_NUMERIC) = []" by (simp add: limit_text_def new_boundary_def)
  have rl: "length r < 2 ^ 31" using assms(2) by simp
  define N where "N = new_boundary SPOC_NUMERIC"
  define rest where "rest = limit_text lo @ limit_text up @ CHR '')'' # r"
  have 1: "get_str (view (netstr ''numeric'' @ rest) x sz) = Some (Inr (view ''numeric'' (rest @ x) 0), view rest x sz)"
    using assms(2) by (intro get_str_netstr) (auto simp: rest_def lo_def up_def)
  have 2: "range_type (view ''numeric'' y 0) = Some (Some SPOC_NUMERIC)" for y
  proof -
    have "map tolower ''numeric'' = ''numeric''" by code_simp
    then show ?thesis by (simp add: range_type_def)
  qed
  consider (none) "lo = N" "up = N" | (low) "b_type lo \<noteq> SPOC_NUMERIC" "up = N"
    | (up) "lo = N" "b_type up \<noteq> SPOC_NUMERIC" | (both) "b_type lo \<noteq> SPOC_NUMERIC" "b_type up \<noteq> SPOC_NUMERIC"
    using null good unfolding N_def by blast
  then have "do_range shift (view (netstr ''numeric'' @ rest) x sz) = Some (Inr (ERange rp), view r x sz)"
  proof cases
    case none
    then have rest: "rest = CHR '')'' # r" by (simp add: rest_def N_def tnull)
    have "rd (rest @ x) 0 = Some CHR '')''" "step (view rest x sz) = view r x sz" using rl by (simp_all add: rest)
    then show ?thesis by (simp add: do_range_def 1 2 Let_def rp none N_def [symmetric])
  next
    case low
    obtain c t where c: "limit_text lo = c # t" "c \<noteq> CHR '')''" using limit_text_cons [OF low(1)] by blast
    obtain val where "get_limit shift \<lparr>r_lower = N, r_upper = N\<rparr> (view rest x sz) =
        Some (Inr (\<lparr>r_lower = lo, r_upper = N\<rparr>, val), view (CHR '')'' # r) x sz)"
      using get_limit_lower [OF good(1) low(1), of "\<lparr>r_lower = N, r_upper = N\<rparr>" "CHR '')'' # r" shift x sz] assms(2) low(2)
      by (auto simp: rest_def N_def tnull lo_def)
    moreover have "rd (rest @ x) 0 = Some c" by (simp add: rest_def c(1))
    ultimately show ?thesis using rl c(2) low(2)
      by (simp add: do_range_def 1 2 Let_def N_def [symmetric] rp)
  next
    case up
    obtain c t where c: "limit_text up = c # t" "c \<noteq> CHR '')''" using limit_text_cons [OF up(2)] by blast
    obtain val where "get_limit shift \<lparr>r_lower = N, r_upper = N\<rparr> (view rest x sz) =
        Some (Inr (\<lparr>r_lower = N, r_upper = up\<rparr>, val), view (CHR '')'' # r) x sz)"
      using get_limit_upper [OF good(2) up(2), of "\<lparr>r_lower = N, r_upper = N\<rparr>" "CHR '')'' # r" shift x sz] assms(2) up(1)
      by (auto simp: rest_def N_def tnull up_def)
    moreover have "rd (rest @ x) 0 = Some c" by (simp add: rest_def c(1) up(1) N_def tnull)
    ultimately show ?thesis using rl c(2) up(1)
      by (simp add: do_range_def 1 2 Let_def N_def [symmetric] rp)
  next
    case both
    obtain c t where c: "limit_text lo = c # t" "c \<noteq> CHR '')''" using limit_text_cons [OF both(1)] by blast
    obtain d u where d: "limit_text up = d # u" "d \<noteq> CHR '')''" using limit_text_cons [OF both(2)] by blast
    obtain val where g1: "get_limit shift \<lparr>r_lower = N, r_upper = N\<rparr> (view rest x sz) =
        Some (Inr (\<lparr>r_lower = lo, r_upper = N\<rparr>, val), view (limit_text up @ CHR '')'' # r) x sz)"
      using get_limit_lower [OF good(1) both(1), of "\<lparr>r_lower = N, r_upper = N\<rparr>" "limit_text up @ CHR '')'' # r" shift x sz] assms(2)
      by (auto simp: rest_def N_def lo_def up_def)
    obtain val' where g2: "get_limit shift \<lparr>r_lower = lo, r_upper = N\<rparr> (view (limit_text up @ CHR '')'' # r) x sz) =
        Some (Inr (\<lparr>r_lower = lo, r_upper = up\<rparr>, val'), view (CHR '')'' # r) x sz)"
      using get_limit_upper [OF good(2) both(2), of "\<lparr>r_lower = lo, r_upper = N\<rparr>" "CHR '')'' # r" shift x sz] assms(2)
      by (auto simp: N_def up_def)
    have lt: "b_num lo < b_num up" "b_num up - b_num lo < 2 ^ 31"
      using assms(1) both by (simp_all add: good_range_def lo_def up_def)
    then have "i32 (b_num up - b_num lo) = b_num up - b_num lo" by (intro i32_small) auto
    moreover have "b_type lo AND 0x07 = SPOC_NUMERIC" using good(1) by (auto simp: good_limit_def type_codes)
    ultimately have "is_valid_range \<lparr>r_lower = lo, r_upper = up\<rparr> = Some SPOCP_SUCCESS"
      "is_atom \<lparr>r_lower = lo, r_upper = up\<rparr> = Some False"
      using lt by (auto simp: is_valid_range_def is_atom_def Let_def)
    moreover have "rd (rest @ x) 0 = Some c" "rd ((limit_text up @ CHR '')'' # r) @ x) 0 = Some d"
      by (simp_all add: rest_def c(1) d(1))
    ultimately show ?thesis using rl c(2) d(2) g1 g2
      by (simp add: do_range_def 1 2 Let_def N_def [symmetric] rp)
  qed
  then show ?thesis by (simp add: rest_def lo_def up_def)
qed

subsection \<open>Parsing inverts printing\<close>

lemma good_elem_parses: "good_elem e \<Longrightarrow> parses shift e"
proof (induction e)
  case (EAtom a)
  define s where "s = content (a_val a)"
  have a: "a = mk_atom s" "s \<noteq> []" using EAtom by (simp_all add: good_atom_def s_def)
  obtain c t where c: "netstr s = c # t" "c \<noteq> CHR ''(''" "c \<noteq> CHR '')''" using netstr_cons by blast
  show ?case unfolding parses_def
  proof (intro allI impI)
    fix r x sz
    assume len: "length (esexp (EAtom a) @ r) < 2 ^ 31"
    then have "get_atom (view (netstr s @ r) x sz) = Some (Inr a, view r x sz)"
      using a by (simp add: get_atom_netstr)
    moreover have "rd (netstr s @ r @ x) 0 = Some c" "netstr s \<noteq> []" by (simp_all add: c(1))
    ultimately show "element_get shift (view (esexp (EAtom a) @ r) x sz) = Some (Inr (Some (EAtom a)), view r x sz)"
      using c(2,3) by (subst element_get.simps) (simp add: s_def [symmetric])
  qed
next
  case (EList es)
  then obtain t fs where es: "es = EAtom t # fs" and star: "content (a_val t) \<noteq> ''*''"
    by (auto split: list.splits element.splits)
  define s where "s = content (a_val t)"
  have t: "t = mk_atom s" "s \<noteq> []" using EList.prems by (simp_all add: es good_atom_def s_def)
  have fs: "\<And>f. f \<in> set fs \<Longrightarrow> parses shift f" using EList by (simp add: es)
  show ?case unfolding parses_def
  proof (intro allI impI)
    fix r x sz
    assume len: "length (esexp (EList es) @ r) < 2 ^ 31"
    define rest where "rest = concat (map esexp fs) @ CHR '')'' # r"
    have tx: "esexp (EList es) @ r = CHR ''('' # netstr s @ rest" by (simp add: es s_def rest_def)
    have "do_list shift [EAtom t] False (view rest x sz) = Some (Inr (EList ([EAtom t] @ fs)), view r x sz)"
      unfolding rest_def using len by (intro do_list_parses fs) (auto simp: es)
    moreover have "element_get shift (view (CHR ''('' # netstr s @ rest) x sz) =
        map_option (\<lambda>(r, op'). (map_sum (\<lambda>r. r) Some r, op')) (do_list shift [EAtom (mk_atom s)] False (view rest x sz))"
      using len [unfolded tx] t(2) star by (intro element_get_list) (auto simp: s_def)
    ultimately show "element_get shift (view (esexp (EList es) @ r) x sz) = Some (Inr (Some (EList es)), view r x sz)"
      unfolding tx by (simp add: t(1) es)
  qed
next
  case (ESet so)
  then obtain es where so: "so = Some es" "2 \<le> length es" by (auto split: option.splits)
  have fs: "\<And>f. f \<in> set es \<Longrightarrow> parses shift f \<and> element_type f \<noteq> SPOC_SET" using ESet by (auto simp: so)
  show ?case unfolding parses_def
  proof (intro allI impI)
    fix r x sz
    assume len: "length (esexp (ESet so) @ r) < 2 ^ 31"
    define rest where "rest = concat (map esexp es) @ CHR '')'' # r"
    have tx: "esexp (ESet so) @ r = CHR ''('' # netstr ''*'' @ netstr ''set'' @ rest" by (simp add: so rest_def)
    have "get_set shift None (view rest x sz) =
        Some (Inr (ESet (Some ((case None of None \<Rightarrow> [] | Some es \<Rightarrow> es) @ es))), view r x sz)"
      unfolding rest_def using len so(2) by (intro get_set_parses fs) (auto simp: so(1))
    moreover have "length (netstr ''*'' @ netstr ''set'' @ rest) < 2 ^ 31 - 1" using len unfolding tx by simp
    ultimately show "element_get shift (view (esexp (ESet so) @ r) x sz) = Some (Inr (Some (ESet so)), view r x sz)"
      unfolding tx by (subst element_get_star) (simp_all add: so(1))
  qed
next
  case (EPrefix a)
  define s where "s = content (a_val a)"
  have a: "a = mk_atom s" "s \<noteq> []" using EPrefix by (simp_all add: good_atom_def s_def)
  show ?case unfolding parses_def
  proof (intro allI impI)
    fix r x sz
    assume len: "length (esexp (EPrefix a) @ r) < 2 ^ 31"
    then have "get_atom (view (netstr s @ CHR '')'' # r) x sz) = Some (Inr a, view (CHR '')'' # r) x sz)"
      using a by (simp add: get_atom_netstr)
    then have "do_prefix (view (netstr s @ CHR '')'' # r) x sz) = Some (Inr (EPrefix a), view r x sz)"
      using len by (simp add: do_prefix_def)
    then show "element_get shift (view (esexp (EPrefix a) @ r) x sz) = Some (Inr (Some (EPrefix a)), view r x sz)"
      using len by (simp add: s_def [symmetric]) (subst element_get_star, auto)
  qed
next
  case (ESuffix a)
  define s where "s = content (a_val a)"
  have a: "a = mk_atom s" "s \<noteq> []" using ESuffix by (simp_all add: good_atom_def s_def)
  show ?case unfolding parses_def
  proof (intro allI impI)
    fix r x sz
    assume len: "length (esexp (ESuffix a) @ r) < 2 ^ 31"
    then have "get_atom (view (netstr s @ CHR '')'' # r) x sz) = Some (Inr a, view (CHR '')'' # r) x sz)"
      using a by (simp add: get_atom_netstr)
    then have "do_suffix (view (netstr s @ CHR '')'' # r) x sz) = Some (Inr (ESuffix a), view r x sz)"
      using len by (simp add: do_suffix_def)
    then show "element_get shift (view (esexp (ESuffix a) @ r) x sz) = Some (Inr (Some (ESuffix a)), view r x sz)"
      using len by (simp add: s_def [symmetric]) (subst element_get_star, auto)
  qed
next
  case (ERange rp)
  show ?case unfolding parses_def
  proof (intro allI impI)
    fix r x sz
    assume len: "length (esexp (ERange rp) @ r) < 2 ^ 31"
    have "do_range shift (view (netstr ''numeric'' @ limit_text (r_lower rp) @ limit_text (r_upper rp) @ CHR '')'' # r) x sz) =
        Some (Inr (ERange rp), view r x sz)"
      using ERange len by (intro do_range_parses) auto
    then show "element_get shift (view (esexp (ERange rp) @ r) x sz) = Some (Inr (Some (ERange rp)), view r x sz)"
      using len by simp (subst element_get_star, auto)
  qed
next
  case EAny
  show ?case unfolding parses_def
    using element_get_any by auto
qed

text \<open>C15: the parser reads back the canonical text of an element: for every element with well formed
  atoms, lists that start with an atom other than the star, sets of at least two
  elements that are not sets, prefixes, suffixes, numeric ranges and the any element, \<open>element_get\<close>
  returns the element and stands at the byte behind its text.\<close>

theorem element_get_roundtrip:
  assumes "good_elem e" and "length (esexp e @ r) < 2 ^ 31"
  shows "element_get shift (view (esexp e @ r) x sz) = Some (Inr (Some e), view r x sz)"
  using good_elem_parses [OF assms(1)] assms(2) by (rule parsesD)

theorem element_get_roundtrip_witness:
  "element_get (\<lambda>t d. t) (view ''(1:a(1:*)1:b)'' [] 0) =
    Some (Inr (Some (EList [EAtom (mk_atom ''a''), EAny, EAtom (mk_atom ''b'')])), view [] [] 0)"
proof -
  have "good_elem (EList [EAtom (mk_atom ''a''), EAny, EAtom (mk_atom ''b'')])" by (simp add: good_atom_def)
  moreover have "esexp (EList [EAtom (mk_atom ''a''), EAny, EAtom (mk_atom ''b'')]) = ''(1:a(1:*)1:b)''"
    by (simp, code_simp)
  ultimately show ?thesis
    using element_get_roundtrip [of "EList [EAtom (mk_atom ''a''), EAny, EAtom (mk_atom ''b'')]" "[]"] by simp
qed

lemma ptext_esexp: "printable e \<Longrightarrow> good_elem e \<Longrightarrow> ptext e = esexp e"
proof (induction e)
  case (EList es)
  then have eq: "map ptext es = map esexp es" by (auto intro!: map_cong)
  show ?case by (simp only: ptext.simps esexp.simps eq) simp
next
  case (ESet so)
  then obtain es where so: "so = Some es" by (auto split: option.splits)
  have eq: "map ptext es = map esexp es" using ESet by (auto simp: so intro!: map_cong)
  moreover have "''(1:*3:set'' = CHR ''('' # netstr ''*'' @ netstr ''set''" by code_simp
  ultimately show ?case by (simp only: so ptext.simps esexp.simps option.case eq) simp
qed simp_all

text \<open>C16: what \<open>element_print\<close> writes, \<open>element_get\<close> reads: printing an element of atoms, lists and sets to an
  octet string that owns its memory succeeds and appends the canonical text, and parsing this text
  gives the element back.\<close>

theorem element_print_parse:
  assumes "printable e" and "good_elem e" and "wf_dyn oct" and "0 < oct_size oct" and "content oct = []"
    and "length (esexp e) < 2 ^ 31"
  shows "\<exists>oct'. element_print oct e = Some (True, oct') \<and> content oct' = esexp e \<and>
    (\<exists>rest. element_get shift oct' = Some (Inr (Some e), rest) \<and> content rest = [])"
proof -
  have "oct_len oct = 0" using assms(3,5) length_content [of oct] by (simp add: wf_dyn_def)
  then have "out_ok (length (esexp e) + 0) oct" using assms by (simp add: out_ok_def)
  with element_print_appends(1) [OF assms(1)]
  obtain oct' where o: "element_print oct e = Some (True, oct')" "content oct' = esexp e" "out_ok 0 oct'"
    unfolding ptext_esexp [OF assms(1,2)] by (rule appendsE) (use assms(5) in auto)
  then have "wf_octet oct'" by (simp add: out_ok_def wf_dyn_def)
  then obtain x where x: "oct' = view (esexp e) x (oct_size oct')" using wf_octet_view o(2) by fastforce
  have "element_get shift (view (esexp e @ []) x (oct_size oct')) = Some (Inr (Some e), view [] x (oct_size oct'))"
    using good_elem_parses [OF assms(2)] assms(6) by (intro parsesD) simp_all
  then show ?thesis using o x by auto
qed

theorem element_print_parse_witness:
  "\<exists>oct'. element_print \<lparr>oct_val = [NUL], oct_len = 0, oct_size = 1\<rparr> (EList [EAtom (mk_atom ''a'')]) = Some (True, oct') \<and>
    content oct' = ''(1:a)''"
proof -
  have "esexp (EList [EAtom (mk_atom ''a'')]) = ''(1:a)''" by (simp, code_simp)
  moreover have "wf_octet (a_val (mk_atom ''a''))" by (simp add: mk_atom_def wf_octet_def)
  then have "printable (EList [EAtom (mk_atom ''a'')])" "good_elem (EList [EAtom (mk_atom ''a'')])"
    by (simp_all add: good_atom_def)
  moreover have "wf_dyn \<lparr>oct_val = [NUL], oct_len = 0, oct_size = 1\<rparr>" "content \<lparr>oct_val = [NUL], oct_len = 0, oct_size = 1\<rparr> = []"
    by (simp_all add: wf_dyn_def wf_octet_def content_def)
  ultimately show ?thesis
    using element_print_parse [of "EList [EAtom (mk_atom ''a'')]" "\<lparr>oct_val = [NUL], oct_len = 0, oct_size = 1\<rparr>" "\<lambda>t d. t"]
    by (simp del: element_print.simps esexp.simps) blast
qed

subsection \<open>What the parser lets through, and where it fails\<close>

text \<open>The closing parenthesis of a list that consists of its tag only may be missing: when the
  input ends behind the tag, \<open>element_get\<close> returns the list, as if it had been closed.\<close>

theorem element_get_unclosed_list:
  assumes "t \<noteq> []" and "t \<noteq> ''*''" and "length (netstr t) < 2 ^ 31 - 1"
  shows "element_get shift (view (CHR ''('' # netstr t) x sz) = Some (Inr (Some (EList [EAtom (mk_atom t)])), view [] x sz)"
  using element_get_list [of t "[]" shift x sz] assms by (simp add: do_list.simps)

theorem element_get_unclosed_list_witness:
  "element_get (\<lambda>t d. t) (view (CHR ''('' # netstr ''abc'') [] 0) =
    Some (Inr (Some (EList [EAtom (mk_atom ''abc'')])), view [] [] 0)"
proof -
  have "length (netstr ''abc'') = 5" by code_simp
  then show ?thesis using element_get_unclosed_list [of "''abc''"] by simp
qed

lemma get_str_empty: "get_str (view [] x sz) = None \<or> 2 ^ 64 \<le> length x"
  by (auto simp: get_str_def get_len_def Let_def SIZE_MAX_def adv_def szsub_def)

text \<open>Two inputs on which the parser leaves its data: a lone opening parenthesis, where the failed
  length of the tag is taken for a length of \<open>2 ^ 64 - 1\<close> bytes, and the empty set, whose array is
  never allocated. A set of one element is parsed to a set without array.\<close>

theorem element_get_faults:
  assumes "length x < 2 ^ 64" and "a \<noteq> []" and "length (netstr ''*'' @ netstr ''set'' @ netstr a @ '')'' @ r) < 2 ^ 31 - 1"
  shows "element_get shift (view ''('' x sz) = None \<and>
    element_get shift (view (''('' @ netstr ''*'' @ netstr ''set'' @ '')'') x sz) = None \<and>
    element_get shift (view (''('' @ netstr ''*'' @ netstr ''set'' @ netstr a @ '')'' @ r) x sz) =
      Some (Inr (Some (ESet None)), view r x sz)"
proof (intro conjI)
  show "element_get shift (view ''('' x sz) = None"
    using get_str_empty [of x sz] assms(1) by (subst element_get.simps) simp
  show "element_get shift (view (''('' @ netstr ''*'' @ netstr ''set'' @ '')'') x sz) = None"
  proof -
    have "get_set shift None (view '')'' x sz) = None" by (subst get_set.simps) (simp add: set_end_def)
    then show ?thesis using assms(3) by (simp, subst element_get_star) auto
  qed
  show "element_get shift (view (''('' @ netstr ''*'' @ netstr ''set'' @ netstr a @ '')'' @ r) x sz) =
      Some (Inr (Some (ESet None)), view r x sz)"
  proof -
    have p: "parses shift (EAtom (mk_atom a))" using assms(2) by (intro good_elem_parses) (simp add: good_atom_def)
    have g: "element_get shift (view (netstr a @ CHR '')'' # r) x sz) = Some (Inr (Some (EAtom (mk_atom a))), view (CHR '')'' # r) x sz)"
      using parsesD [OF p, of "CHR '')'' # r" x sz] assms(3) by simp
    obtain c t where c: "netstr a = c # t" "c \<noteq> CHR '')''" using netstr_cons by blast
    have "rd (netstr a @ CHR '')'' # r @ x) 0 = Some c" "netstr a \<noteq> []" by (simp_all add: c(1))
    then have "get_set shift None (view (netstr a @ CHR '')'' # r) x sz) =
        get_set shift (Some [EAtom (mk_atom a)]) (view (CHR '')'' # r) x sz)"
      using c(2) by (subst get_set.simps) (simp add: g set_put_def)
    also have "\<dots> = Some (Inr (ESet None), view r x sz)"
      using assms(3) by (subst get_set.simps) (simp add: set_end_def)
    finally show ?thesis using assms(3) by (simp, subst element_get_star) auto
  qed
qed

theorem element_get_faults_witness:
  "element_get (\<lambda>t d. t) (view ''('' [NUL] 0) = None"
proof -
  have "length (netstr ''*'' @ netstr ''set'' @ netstr ''a'' @ '')'') = 12" by code_simp
  then show ?thesis using element_get_faults [of "[NUL]" "''a''" "[]" "\<lambda>t d. t" 0] by simp
qed

text \<open>The check of a numeric range with two limits is right when the limits are less than \<open>2 ^ 31\<close>
  apart: the range is refused exactly when it is empty over the rationals. Beyond that the
  difference no longer fits the \<^verbatim>\<open>int\<close> it is stored in, and valid ranges are refused.\<close>

theorem is_valid_range_numeric:
  assumes "b_type lo AND 0x07 = SPOC_NUMERIC" and "b_type lo AND 0xF0 \<noteq> 0" and "b_type up AND 0xF0 \<noteq> 0"
  shows "(\<bar>b_num up - b_num lo\<bar> < 2 ^ 31 \<longrightarrow>
      is_valid_range \<lparr>r_lower = lo, r_upper = up\<rparr> = Some
        (if b_num lo < b_num up \<or> b_num lo = b_num up \<and> (b_type lo AND EQ \<noteq> 0 \<or> b_type up AND EQ \<noteq> 0)
         then SPOCP_SUCCESS else SPOCP_SYNTAXERROR)) \<and>
    (b_num up - b_num lo = 2 ^ 31 \<longrightarrow> is_valid_range \<lparr>r_lower = lo, r_upper = up\<rparr> = Some SPOCP_SYNTAXERROR)"
proof (intro conjI impI)
  assume "\<bar>b_num up - b_num lo\<bar> < 2 ^ 31"
  then have "i32 (b_num up - b_num lo) = b_num up - b_num lo" by (intro i32_id) auto
  then show "is_valid_range \<lparr>r_lower = lo, r_upper = up\<rparr> = Some
        (if b_num lo < b_num up \<or> b_num lo = b_num up \<and> (b_type lo AND EQ \<noteq> 0 \<or> b_type up AND EQ \<noteq> 0)
         then SPOCP_SUCCESS else SPOCP_SYNTAXERROR)"
    using assms by (auto simp: is_valid_range_def Let_def)
next
  assume d: "b_num up - b_num lo = 2 ^ 31"
  have "i32 (2 ^ 31) = - (2 ^ 31)" by code_simp
  then have "i32 (b_num up - b_num lo) < 0" unfolding d by simp
  then show "is_valid_range \<lparr>r_lower = lo, r_upper = up\<rparr> = Some SPOCP_SYNTAXERROR"
    using assms by (simp add: is_valid_range_def Let_def)
qed

theorem is_valid_range_numeric_witness:
  "is_valid_range \<lparr>r_lower = (new_boundary (SPOC_NUMERIC OR GT))\<lparr>b_num := 0\<rparr>,
      r_upper = (new_boundary (SPOC_NUMERIC OR LT))\<lparr>b_num := 2 ^ 31\<rparr>\<rparr> = Some SPOCP_SYNTAXERROR"
  using is_valid_range_numeric [of "(new_boundary (SPOC_NUMERIC OR GT))\<lparr>b_num := 0\<rparr>"
      "(new_boundary (SPOC_NUMERIC OR LT))\<lparr>b_num := 2 ^ 31\<rparr>"]
  by (simp add: new_boundary_def type_codes)

end
