(* ===== verification/Slist.thy ===== *)
theory Slist
  imports Ssn Input
begin

text \<open>
  The skip lists for ranges (\<open>lib/slist.c\<close>). A list has one node for every boundary of the ranges
  stored in it, in the order of \<open>boundary_xcmp\<close>, between a head and a tail without boundary. The
  junction that follows a range is entered at the node of its lower and at that of its upper limit.

  The nodes are kept in a list, a pointer to a node is a position in it. \<open>sl_next\<close> has the links of a
  node, one for each of its levels; a node with \<^verbatim>\<open>next == 0\<close> has none. A null pointer or a link that is not
  there is a fault, \<open>None\<close>. The random number of \<open>sl_rand\<close> is an argument.
\<close>

record 'n slnode =
  sl_item :: "boundary option"
  sl_refc :: nat
  sl_next :: "nat list"
  sl_junc :: "'n varr option"

record 'n slist =
  sl_nodes :: "'n slnode list"
  sl_head :: nat
  sl_tail :: nat
  sl_lgn :: nat
  sl_lgnmax :: nat

definition varr_junc_pop :: "'n varr option \<Rightarrow> 'n option \<times> 'n varr option" where
  "varr_junc_pop va = varr_pop va"

definition varr_junc_nth :: "'n varr option \<Rightarrow> int \<Rightarrow> 'n option" where
  "varr_junc_nth va n = varr_nth va n"

definition varr_junc_common :: "'n varr option \<Rightarrow> 'n varr option \<Rightarrow> 'n option" where
  "varr_junc_common a b = varr_first_common a b"

definition varr_junc_rm :: "'n varr \<Rightarrow> 'n \<Rightarrow> 'n option \<times> 'n varr" where
  "varr_junc_rm a jp = varr_rm a jp"

subsection \<open>Boundaries\<close>

text \<open>The difference of two \<^verbatim>\<open>long\<close> values is stored in an \<^verbatim>\<open>int\<close>. Types that are no case of the switch
  leave \<^verbatim>\<open>v\<close> at 0.\<close>

definition xcmp_value :: "boundary \<Rightarrow> boundary \<Rightarrow> int option" where
  "xcmp_value b1 b2 =
     (let t = b_type b2 AND 0x07 in
      if t = SPOC_ALPHA \<or> t = SPOC_DATE then
        (if oct_len (b_val b1) = 0 then Some (if oct_len (b_val b2) = 0 then 0 else - 1)
         else if oct_len (b_val b2) = 0 then Some 1
         else octcmp (Some (b_val b1)) (Some (b_val b2)))
      else if t = SPOC_NUMERIC \<or> t = SPOC_TIME then Some (i32 (b_num b1 - b_num b2))
      else if t = SPOC_IPV4 then Some (ipv4cmp (b_v4 b1) (b_v4 b2))
      else Some 0)"

definition boundary_xcmp :: "boundary option \<Rightarrow> boundary option \<Rightarrow> int option" where
  "boundary_xcmp b1p b2p = (case b2p of
      None \<Rightarrow> Some (- 1)
    | Some b2 \<Rightarrow> (case b1p of
        None \<Rightarrow> None
      | Some b1 \<Rightarrow> map_option (\<lambda>v. if v = 0 \<and> b_type b1 AND b_type b2 = 0 then 1 else v) (xcmp_value b1 b2)))"

definition boundary_dup :: "boundary option \<Rightarrow> boundary option option" where
  "boundary_dup bp = (case bp of None \<Rightarrow> Some None
    | Some b \<Rightarrow>
       (let t = b_type b AND 0x07 in
        if t = SPOC_ALPHA \<or> t = SPOC_DATE then
          (if oct_len (b_val b) = 0 then Some (Some b)
           else map_option (\<lambda>(r, v). Some (b\<lparr>b_val := v\<rparr>)) (octcpy null_octet (b_val b)))
        else Some (Some b)))"

subsection \<open>Nodes and links\<close>

definition sl_new :: "boundary option \<Rightarrow> nat \<Rightarrow> nat \<Rightarrow> 'n slnode" where
  "sl_new item n tail = \<lparr>sl_item = item, sl_refc = 0, sl_next = replicate n tail, sl_junc = None\<rparr>"

definition sl_init :: "nat \<Rightarrow> 'n slist" where
  "sl_init mx = \<lparr>sl_nodes = [sl_new None 0 0, sl_new None (mx + 1) 0], sl_head = 1, sl_tail = 0,
     sl_lgn = 0, sl_lgnmax = mx\<rparr>"

definition sl_sz :: "'n slnode list \<Rightarrow> nat \<Rightarrow> nat" where
  "sl_sz h a = length (sl_next (h ! a))"

definition next_at :: "'n slnode list \<Rightarrow> nat \<Rightarrow> nat \<Rightarrow> nat option" where
  "next_at h a n = (if a < length h \<and> n < sl_sz h a then Some (sl_next (h ! a) ! n) else None)"

definition set_next :: "'n slnode list \<Rightarrow> nat \<Rightarrow> nat \<Rightarrow> nat \<Rightarrow> 'n slnode list" where
  "set_next h a n b = h[a := (h ! a)\<lparr>sl_next := (sl_next (h ! a))[n := b]\<rparr>]"

text \<open>The shifts are by 2, 4, 8 and so on; the rule tree makes lists with \<^verbatim>\<open>lgnmax\<close> 4, so none is by more than the bits of an \<^verbatim>\<open>int\<close>.\<close>

fun sl_rand_loop :: "nat \<Rightarrow> nat \<Rightarrow> nat \<Rightarrow> nat \<Rightarrow> nat \<Rightarrow> nat" where
  "sl_rand_loop randmax r 0 i j = i"
| "sl_rand_loop randmax r (Suc m) i j =
     (if r > drop_bit j randmax then i else sl_rand_loop randmax r m (i + 1) (j + j))"

definition sl_rand :: "nat \<Rightarrow> nat \<Rightarrow> 'n slist \<Rightarrow> nat \<times> 'n slist" where
  "sl_rand randmax r slp =
     (let i = sl_rand_loop randmax r (sl_lgnmax slp - 1) 1 2 in (i, slp\<lparr>sl_lgn := max i (sl_lgn slp)\<rparr>))"

subsection \<open>Searching, inserting and deleting a node\<close>

text \<open>\<open>sl_rec_find\<close> returns the flag and the node.\<close>

partial_function (option) sl_rec_find ::
    "'n slnode list \<Rightarrow> nat \<Rightarrow> boundary \<Rightarrow> nat \<Rightarrow> (bool \<times> nat option) option" where
  [code]: "sl_rec_find h node item n =
     (if sl_sz h node = 0 then Some (False, None)
      else do {
        r \<leftarrow> boundary_xcmp (Some item) (sl_item (h ! node));
        if r = 0 then Some (False, Some node)
        else do {
          nx \<leftarrow> next_at h node n;
          r' \<leftarrow> boundary_xcmp (Some item) (sl_item (h ! nx));
          if r' < 0 then
            (if n = 0 then map_option (\<lambda>x. (True, Some x)) (next_at h node 0)
             else sl_rec_find h node item (n - 1))
          else sl_rec_find h nx item n } })"

definition sl_find :: "'n slist \<Rightarrow> boundary \<Rightarrow> nat option option" where
  "sl_find slp item =
     map_option (\<lambda>(flag, node). if flag then None else node) (sl_rec_find (sl_nodes slp) (sl_head slp) item (sl_lgn slp))"

partial_function (option) sl_rec_insert :: "'n slnode list \<Rightarrow> nat \<Rightarrow> nat \<Rightarrow> nat \<Rightarrow> 'n slnode list option" where
  [code]: "sl_rec_insert h old new n = do {
     nx \<leftarrow> next_at h old n;
     r \<leftarrow> boundary_xcmp (sl_item (h ! new)) (sl_item (h ! nx));
     if r < 0 then
       (if n = 0
        then Some (if n < sl_sz h new then set_next (set_next h new n nx) old n new else h)
        else sl_rec_insert (if n < sl_sz h new then set_next (set_next h new n nx) old n new else h) old new (n - 1))
     else sl_rec_insert h nx new n }"

text \<open>\<open>sl_rec_delete\<close> returns the node it returns at the lowest level.\<close>

definition sl_unref :: "'n slnode list \<Rightarrow> nat \<Rightarrow> nat \<Rightarrow> nat \<Rightarrow> 'n slnode list option" where
  "sl_unref h node nx n =
     (let rc = (sl_refc (h ! nx) + 2 ^ 32 - 1) mod 2 ^ 32; h1 = h[nx := (h ! nx)\<lparr>sl_refc := rc\<rparr>] in
      if rc = 0 then map_option (\<lambda>y. set_next h1 node n y) (next_at h1 nx n) else Some h1)"

partial_function (option) sl_rec_delete ::
    "'n slnode list \<Rightarrow> nat \<Rightarrow> boundary \<Rightarrow> nat \<Rightarrow> ('n slnode list \<times> nat option) option" where
  [code]: "sl_rec_delete h node item n = do {
     nx \<leftarrow> next_at h node n;
     r \<leftarrow> boundary_xcmp (sl_item (h ! nx)) (Some item);
     if r \<ge> 0 then do {
       h' \<leftarrow> (if r = 0 then sl_unref h node nx n else Some h);
       if n = 0 then Some (h', if r = 0 then Some nx else None)
       else sl_rec_delete h' node item (n - 1) }
     else sl_rec_delete h nx item n }"

definition sl_delete :: "'n slist \<Rightarrow> boundary \<Rightarrow> ('n slist \<times> nat option) option" where
  "sl_delete slp item =
     map_option (\<lambda>(h, ret). (slp\<lparr>sl_nodes := h\<rparr>, ret)) (sl_rec_delete (sl_nodes slp) (sl_head slp) item (sl_lgn slp))"

definition sl_ref :: "'n slist \<Rightarrow> nat \<Rightarrow> 'n slist" where
  "sl_ref slp a = slp\<lparr>sl_nodes := (sl_nodes slp)[a := (sl_nodes slp ! a)\<lparr>sl_refc := sl_refc (sl_nodes slp ! a) + 1\<rparr>]\<rparr>"

definition sl_insert :: "nat \<Rightarrow> nat \<Rightarrow> 'n slist \<Rightarrow> boundary \<Rightarrow> ('n slist \<times> nat) option" where
  "sl_insert randmax r slp item = (case sl_find slp item of
      None \<Rightarrow> None
    | Some (Some node) \<Rightarrow> Some (sl_ref slp node, node)
    | Some None \<Rightarrow>
       (case sl_rand randmax r slp of (i, slp1) \<Rightarrow>
          let node = length (sl_nodes slp1) in
          map_option (\<lambda>h. (sl_ref (slp1\<lparr>sl_nodes := h\<rparr>) node, node))
            (sl_rec_insert (sl_nodes slp1 @ [sl_new (Some item) i (sl_tail slp1)]) (sl_head slp1) node (sl_lgn slp1))))"

subsection \<open>Ranges\<close>

text \<open>The loops that collect the junctions of the nodes from \<open>nc\<close> up to \<open>stop\<close>, and those from \<open>nc\<close> up to
  the tail.\<close>

partial_function (option) sl_collect ::
    "'n slnode list \<Rightarrow> nat \<Rightarrow> nat \<Rightarrow> 'n varr option \<Rightarrow> 'n varr option option" where
  [code]: "sl_collect h nc stop acc =
     (if nc = stop then Some acc
      else do {
        acc' \<leftarrow> varr_or acc (sl_junc (h ! nc)) True;
        nx \<leftarrow> next_at h nc 0;
        sl_collect h nx stop acc' })"

partial_function (option) sl_collect_tail ::
    "'n slnode list \<Rightarrow> nat \<Rightarrow> 'n varr option \<Rightarrow> 'n varr option option" where
  [code]: "sl_collect_tail h nc acc = do {
     acc' \<leftarrow> varr_or acc (sl_junc (h ! nc)) True;
     if sl_item (h ! nc) = None then Some acc'
     else do { nx \<leftarrow> next_at h nc 0; sl_collect_tail h nx acc' } }"

definition sl_match :: "'n slist option \<Rightarrow> boundary \<Rightarrow> 'n varr option option" where
  "sl_match slp item = (case slp of
      None \<Rightarrow> Some None
    | Some s \<Rightarrow>
       (let h = sl_nodes s in do {
          (flag, nd) \<leftarrow> sl_rec_find h (sl_head s) item (sl_lgn s);
          node \<leftarrow> nd;
          (if \<not> flag then do {
             stop \<leftarrow> next_at h node 0;
             lp \<leftarrow> sl_collect h (sl_head s) stop None;
             b \<leftarrow> sl_item (h ! node);
             up \<leftarrow> sl_collect_tail h (if b_type b AND EQ \<noteq> 0 then node else stop) None;
             varr_and lp up }
           else if node = sl_head s then do {
             lp \<leftarrow> varr_or None (sl_junc (h ! node)) True;
             nc \<leftarrow> next_at h (sl_head s) 0;
             up \<leftarrow> sl_collect_tail h nc None;
             varr_and lp up }
           else do {
             lp \<leftarrow> sl_collect h (sl_head s) node None;
             up \<leftarrow> sl_collect_tail h node None;
             varr_and lp up }) }))"

text \<open>A limit of the range in the list: the flag and the node.\<close>

definition sl_limit :: "'n slist \<Rightarrow> nat \<Rightarrow> boundary \<Rightarrow> (bool \<times> nat option) option" where
  "sl_limit s absent b =
     (if b_type b AND 0xF0 = 0 then Some (False, Some absent)
      else sl_rec_find (sl_nodes s) (sl_head s) b (sl_lgn s))"

definition sl_range_match :: "'n slist \<Rightarrow> range \<Rightarrow> 'n varr option option" where
  "sl_range_match s rp = (let h = sl_nodes s in do {
     (lflag, l) \<leftarrow> sl_limit s (sl_head s) (r_lower rp);
     (hflag, u) \<leftarrow> sl_limit s (sl_tail s) (r_upper rp);
     low \<leftarrow> l;
     stop \<leftarrow> (if \<not> lflag then next_at h low 0 else Some low);
     lp \<leftarrow> sl_collect h (sl_head s) stop None;
     high \<leftarrow> u;
     up \<leftarrow> sl_collect_tail h high None;
     varr_and lp up })"

definition sl_enter :: "'n slist \<Rightarrow> nat \<Rightarrow> 'n \<Rightarrow> 'n slist option" where
  "sl_enter slp a jp =
     map_option (\<lambda>v. slp\<lparr>sl_nodes := (sl_nodes slp)[a := (sl_nodes slp ! a)\<lparr>sl_junc := Some v\<rparr>]\<rparr>)
       (varr_junc_add (sl_junc (sl_nodes slp ! a)) jp)"

text \<open>\<open>sl_range_add\<close> gets the two random numbers and the address \<open>j\<close> that \<open>junc_new\<close> would return.\<close>

definition sl_range_add :: "nat \<Rightarrow> nat \<Rightarrow> nat \<Rightarrow> 'n slist \<Rightarrow> range \<Rightarrow> 'n \<Rightarrow> ('n slist \<times> 'n) option" where
  "sl_range_add randmax r1 r2 slp rp j = do {
     (s1, low) \<leftarrow> (if b_type (r_lower rp) AND 0xF0 = 0 then Some (sl_ref slp (sl_head slp), sl_head slp)
                    else sl_insert randmax r1 slp (r_lower rp));
     (s2, upp) \<leftarrow> (if b_type (r_upper rp) AND 0xF0 = 0 then Some (sl_ref s1 (sl_tail s1), sl_tail s1)
                    else sl_insert randmax r2 s1 (r_upper rp));
     (case varr_junc_common (sl_junc (sl_nodes s2 ! low)) (sl_junc (sl_nodes s2 ! upp)) of
        Some jp \<Rightarrow> Some (s2, jp)
      | None \<Rightarrow> do { s3 \<leftarrow> sl_enter s2 low j; s4 \<leftarrow> sl_enter s3 upp j; Some (s4, j) }) }"

text \<open>The ranges inside a given range: the nodes from the lower limit to the upper one. \<open>stop = None\<close> is
  the null pointer.\<close>

partial_function (option) sl_collect_end ::
    "'n slnode list \<Rightarrow> nat \<Rightarrow> nat option \<Rightarrow> 'n varr option \<Rightarrow> 'n varr option option" where
  [code]: "sl_collect_end h nc stop acc =
     (if Some nc = stop then Some acc
      else do {
        acc' \<leftarrow> varr_or acc (sl_junc (h ! nc)) True;
        if sl_sz h nc = 0 then Some acc'
        else do { nx \<leftarrow> next_at h nc 0; sl_collect_end h nx stop acc' } })"

definition sl_range_lte_match :: "'n slist \<Rightarrow> range \<Rightarrow> 'n varr option \<Rightarrow> 'n varr option option" where
  "sl_range_lte_match s rp pa = (let h = sl_nodes s in do {
     (lflag, l) \<leftarrow> sl_limit s (sl_head s) (r_lower rp);
     (hflag, u) \<leftarrow> sl_limit s (sl_tail s) (r_upper rp);
     low \<leftarrow> l;
     high \<leftarrow> u;
     res \<leftarrow> sl_collect_end h low (if hflag then Some high else if sl_sz h high = 0 then None else next_at h high 0) None;
     (if res = None then Some pa else varr_or pa res True) })"

text \<open>All junctions of the lists of a branch, one list for each data type.\<close>

fun get_all_range_followers :: "'n slist option list \<Rightarrow> 'n varr option \<Rightarrow> 'n varr option option" where
  "get_all_range_followers [] ja = Some ja"
| "get_all_range_followers (None # ss) ja = get_all_range_followers ss ja"
| "get_all_range_followers (Some s # ss) ja = do {
     a \<leftarrow> sl_collect (sl_nodes s) (sl_head s) (sl_tail s) ja;
     b \<leftarrow> varr_or a (sl_junc (sl_nodes s ! sl_tail s)) True;
     get_all_range_followers ss b }"

text \<open>Removing a range. A node whose array is empty is released; the model keeps it in the list of nodes,
  where no link leads to it.\<close>

definition sl_unref_end :: "'n slist \<Rightarrow> nat \<Rightarrow> 'n slist" where
  "sl_unref_end slp a =
     slp\<lparr>sl_nodes := (sl_nodes slp)[a := (sl_nodes slp ! a)\<lparr>sl_refc := (sl_refc (sl_nodes slp ! a) + 2 ^ 32 - 1) mod 2 ^ 32\<rparr>]\<rparr>"

definition sl_junc_rm :: "'n slist \<Rightarrow> nat \<Rightarrow> 'n option \<Rightarrow> ('n slist \<times> 'n option) option" where
  "sl_junc_rm slp a jp = (case (sl_junc (sl_nodes slp ! a), jp) of
      (Some va, Some j) \<Rightarrow>
        (case varr_junc_rm va j of (x, va') \<Rightarrow>
           Some (slp\<lparr>sl_nodes := (sl_nodes slp)[a := (sl_nodes slp ! a)\<lparr>sl_junc := Some va'\<rparr>]\<rparr>, x))
    | _ \<Rightarrow> None)"

definition sl_range_rm :: "'n slist \<Rightarrow> range \<Rightarrow> ('n slist \<times> 'n option \<times> bool) option" where
  "sl_range_rm slp rp = do {
     (s1, l) \<leftarrow> (if b_type (r_lower rp) AND 0xF0 = 0 then Some (sl_unref_end slp (sl_head slp), Some (sl_head slp))
                  else sl_delete slp (r_lower rp));
     (s2, u) \<leftarrow> (if b_type (r_upper rp) AND 0xF0 = 0 then Some (sl_unref_end s1 (sl_tail s1), Some (sl_tail s1))
                  else sl_delete s1 (r_upper rp));
     low \<leftarrow> l;
     upp \<leftarrow> u;
     (s3, jp) \<leftarrow> (case varr_first_common (sl_junc (sl_nodes s2 ! low)) (sl_junc (sl_nodes s2 ! upp)) of
                     None \<Rightarrow> Some (s2, None)
                   | Some j \<Rightarrow> do { (s', x) \<leftarrow> sl_junc_rm s2 low (Some j); sl_junc_rm s' upp x });
     va \<leftarrow> sl_junc (sl_nodes s3 ! low);
     vb \<leftarrow> sl_junc (sl_nodes s3 ! upp);
     Some (s3, jp, (\<forall>i < sl_lgnmax s3. next_at (sl_nodes s3) (sl_head s3) i = Some (sl_tail s3)) \<and>
                   sl_refc (sl_nodes s3 ! sl_head s3) = 0) }"

subsection \<open>Chains of links\<close>

text \<open>The links of level \<open>n\<close> lead from \<open>a\<close> over the nodes \<open>xs\<close> to \<open>b\<close>.\<close>

fun linked :: "'n slnode list \<Rightarrow> nat \<Rightarrow> nat \<Rightarrow> nat list \<Rightarrow> nat \<Rightarrow> bool" where
  "linked h n a [] b = (next_at h a n = Some b)"
| "linked h n a (x # xs) b = (next_at h a n = Some x \<and> linked h n x xs b)"

lemma linked_append: "linked h n a (ps @ q # qs) b \<longleftrightarrow> linked h n a ps q \<and> linked h n q qs b"
  by (induction ps arbitrary: a) auto

lemma linked_next: "linked h n a (ps @ qs) b \<Longrightarrow> next_at h (last (a # ps)) n = Some (hd (qs @ [b]))"
proof (induction ps arbitrary: a)
  case Nil
  then show ?case by (cases qs) auto
qed auto

lemma linked_cong: "(\<And>x. next_at h x n = next_at h' x n) \<Longrightarrow> linked h n a xs b = linked h' n a xs b"
  by (induction xs arbitrary: a) auto

text \<open>Only links differ.\<close>

definition sl_same :: "'n slnode list \<Rightarrow> 'n slnode list \<Rightarrow> bool" where
  "sl_same h h' \<longleftrightarrow> length h' = length h \<and> (\<forall>x. sl_sz h' x = sl_sz h x \<and> sl_item (h' ! x) = sl_item (h ! x) \<and>
     sl_junc (h' ! x) = sl_junc (h ! x) \<and> sl_refc (h' ! x) = sl_refc (h ! x))"

lemma sl_same_refl [simp]: "sl_same h h"
  by (simp add: sl_same_def)

lemma sl_same_trans: "sl_same h h' \<Longrightarrow> sl_same h' h'' \<Longrightarrow> sl_same h h''"
  by (simp add: sl_same_def)

lemma sl_same_set_next [simp]: "sl_same h (set_next h a n b)"
proof -
  have "set_next h a n b ! x = (if x = a \<and> a < length h then (h ! a)\<lparr>sl_next := (sl_next (h ! a))[n := b]\<rparr> else h ! x)" for x
    by (cases "x = a") (auto simp: set_next_def nth_list_update list_update_beyond)
  then show ?thesis by (simp add: sl_same_def sl_sz_def set_next_def)
qed

lemma next_at_set_next:
  "next_at (set_next h a n b) x m = (if x = a \<and> m = n \<and> next_at h a n \<noteq> None then Some b else next_at h x m)"
proof -
  have "sl_sz (set_next h a n b) x = sl_sz h x" "length (set_next h a n b) = length h"
    using sl_same_set_next [of h a n b] by (simp_all add: sl_same_def)
  then show ?thesis by (auto simp: next_at_def set_next_def nth_list_update sl_sz_def)
qed

lemma linked_set_other: "m \<noteq> n \<Longrightarrow> linked (set_next h x m y) n a xs b = linked h n a xs b"
  by (rule linked_cong) (simp add: next_at_set_next)

lemma linked_set_outside: "x \<notin> set (a # xs) \<Longrightarrow> linked (set_next h x n y) n a xs b = linked h n a xs b"
  by (induction xs arbitrary: a) (auto simp: next_at_set_next)

lemma linked_redirect: "linked h n a ps q \<Longrightarrow> distinct (a # ps) \<Longrightarrow> linked (set_next h (last (a # ps)) n x) n a ps x"
proof (induction ps arbitrary: a)
  case Nil
  then show ?case by (simp add: next_at_set_next)
next
  case (Cons p ps)
  then have "last (p # ps) \<noteq> a" using last_in_set [of "p # ps"] by (metis distinct.simps(2) list.distinct(1))
  then show ?case using Cons by (simp add: next_at_set_next)
qed

lemma linked_insert:
  assumes l: "linked h n a (ps @ qs) b" and d: "distinct (a # ps @ qs)" and new: "new \<notin> set (a # ps @ qs)"
    and room: "n < sl_sz h new" "new < length h"
  shows "linked (set_next (set_next h new n (hd (qs @ [b]))) (last (a # ps)) n new) n a (ps @ new # qs) b"
proof -
  let ?h = "set_next h new n (hd (qs @ [b]))"
  have last: "last (a # ps) \<in> set (a # ps)" by (rule last_in_set) simp
  then have "last (a # ps) \<noteq> new" using new by auto
  moreover have "next_at ?h new n = Some (hd (qs @ [b]))" 
    unfolding next_at_set_next using room by (simp add: next_at_def [of h])
  ultimately have nx: "next_at (set_next ?h (last (a # ps)) n new) new n = Some (hd (qs @ [b]))"
    by (simp add: next_at_set_next del: last.simps)
  have q: "linked (set_next ?h (last (a # ps)) n new) n new qs b"
  proof (cases qs)
    case Nil
    then show ?thesis using nx by simp
  next
    case (Cons c cs)
    then have "linked h n c cs b" using l by (simp add: linked_append)
    moreover have "last (a # ps) \<notin> set (c # cs)" "new \<notin> set (c # cs)" using d new last Cons by auto
    ultimately show ?thesis using nx Cons by (simp add: linked_set_outside del: last.simps)
  qed
  have "linked h n a ps (hd (qs @ [b]))" using l by (cases qs) (simp_all add: linked_append)
  then have "linked ?h n a ps (hd (qs @ [b]))" using new by (subst linked_set_outside) auto
  then have "linked (set_next ?h (last (a # ps)) n new) n a ps new" using d by (intro linked_redirect) auto
  then show ?thesis using q by (simp add: linked_append del: last.simps)
qed

subsection \<open>The invariant\<close>

text \<open>\<open>xs\<close> are the nodes of the list from the lowest boundary to the highest. Level \<open>n\<close> has the nodes with
  more than \<open>n\<close> links. The order of the boundaries is given by \<open>key\<close>, for boundaries that are \<open>ok\<close>.\<close>

definition nkey :: "(boundary \<Rightarrow> 'k) \<Rightarrow> 'n slnode list \<Rightarrow> nat \<Rightarrow> 'k" where
  "nkey key h x = key (the (sl_item (h ! x)))"

definition level :: "'n slnode list \<Rightarrow> nat \<Rightarrow> nat list \<Rightarrow> nat list" where
  "level h n xs = filter (\<lambda>x. n < sl_sz h x) xs"

definition sl_inv :: "(boundary \<Rightarrow> 'k::linorder) \<Rightarrow> (boundary \<Rightarrow> bool) \<Rightarrow> 'n slist \<Rightarrow> nat list \<Rightarrow> bool" where
  "sl_inv key ok s xs \<longleftrightarrow>
     distinct (sl_tail s # sl_head s # xs) \<and> (\<forall>a \<in> set (sl_tail s # sl_head s # xs). a < length (sl_nodes s)) \<and>
     sl_item (sl_nodes s ! sl_head s) = None \<and> sl_item (sl_nodes s ! sl_tail s) = None \<and>
     sl_sz (sl_nodes s) (sl_head s) = sl_lgnmax s + 1 \<and> sl_sz (sl_nodes s) (sl_tail s) = 0 \<and> sl_lgn s \<le> sl_lgnmax s \<and> 0 < sl_lgnmax s \<and>
     (\<forall>x \<in> set xs. 1 \<le> sl_sz (sl_nodes s) x \<and> sl_sz (sl_nodes s) x \<le> sl_lgn s \<and>
        (\<exists>b. sl_item (sl_nodes s ! x) = Some b \<and> ok b)) \<and>
     sorted_wrt (\<lambda>x y. nkey key (sl_nodes s) x < nkey key (sl_nodes s) y) xs \<and>
     (\<forall>n \<le> sl_lgnmax s. linked (sl_nodes s) n (sl_head s) (level (sl_nodes s) n xs) (sl_tail s)) \<and>
     (\<forall>a < length (sl_nodes s). varr_ok0 (sl_junc (sl_nodes s ! a)))"

lemma sl_invD:
  assumes "sl_inv key ok s xs"
  shows "distinct (sl_tail s # sl_head s # xs)"
    and "a \<in> set (sl_tail s # sl_head s # xs) \<Longrightarrow> a < length (sl_nodes s)"
    and "sl_item (sl_nodes s ! sl_head s) = None" and "sl_item (sl_nodes s ! sl_tail s) = None"
    and "sl_sz (sl_nodes s) (sl_head s) = sl_lgnmax s + 1" and "sl_sz (sl_nodes s) (sl_tail s) = 0"
    and "sl_lgn s \<le> sl_lgnmax s"
    and "x \<in> set xs \<Longrightarrow> 1 \<le> sl_sz (sl_nodes s) x" and "x \<in> set xs \<Longrightarrow> sl_sz (sl_nodes s) x \<le> sl_lgn s"
    and "x \<in> set xs \<Longrightarrow> \<exists>b. sl_item (sl_nodes s ! x) = Some b \<and> ok b"
    and "sorted_wrt (\<lambda>x y. nkey key (sl_nodes s) x < nkey key (sl_nodes s) y) xs"
    and "n \<le> sl_lgnmax s \<Longrightarrow> linked (sl_nodes s) n (sl_head s) (level (sl_nodes s) n xs) (sl_tail s)"
    and "a < length (sl_nodes s) \<Longrightarrow> varr_ok0 (sl_junc (sl_nodes s ! a))"
    and "0 < sl_lgnmax s"
  using assms unfolding sl_inv_def by auto

lemma sl_init_inv: "0 < mx \<Longrightarrow> sl_inv key ok (sl_init mx) []"
proof -
  have "linked (sl_nodes (sl_init mx)) n 1 [] 0" if "n \<le> mx" for n
    using that by (simp add: sl_init_def next_at_def sl_sz_def sl_new_def del: replicate_Suc)
  then show "0 < mx \<Longrightarrow> ?thesis"
    by (auto simp: sl_inv_def sl_init_def sl_sz_def sl_new_def level_def varr_ok0_def less_Suc_eq nth_Cons')
qed

text \<open>The first node that is not below \<open>k\<close>, or the tail.\<close>

definition sl_ge :: "(nat \<Rightarrow> 'k::linorder) \<Rightarrow> 'k \<Rightarrow> nat list \<Rightarrow> nat \<Rightarrow> nat" where
  "sl_ge f k xs tail = hd (dropWhile (\<lambda>x. f x < k) xs @ [tail])"

lemma sl_ge_eq:
  assumes "sorted_wrt (\<lambda>x y. f x < f y) xs" and "x \<in> set xs" and "f x = k"
  shows "sl_ge f k xs tail = x"
proof -
  obtain us vs where xs: "xs = us @ x # vs" using assms(2) by (meson split_list)
  have "\<forall>u \<in> set us. f u < k" using assms(1,3) by (auto simp: xs sorted_wrt_append)
  then show ?thesis using assms(3) by (simp add: sl_ge_def xs dropWhile_append2)
qed

lemma sl_ge_in: "sl_ge f k xs tail = tail \<or> sl_ge f k xs tail \<in> set xs"
proof (cases "dropWhile (\<lambda>x. f x < k) xs")
  case Nil
  then have "sl_ge f k xs tail = tail" by (simp only: sl_ge_def append_Nil list.sel)
  then show ?thesis ..
next
  case (Cons a list)
  then have "a \<in> set xs" using set_dropWhileD [of a "\<lambda>x. f x < k" xs] by simp
  then show ?thesis by (simp add: sl_ge_def Cons)
qed

lemma sl_rand_loop_bounds: "i \<le> sl_rand_loop randmax r m i j \<and> sl_rand_loop randmax r m i j \<le> i + m"
  by (induction randmax r m i j rule: sl_rand_loop.induct) auto

lemma next_at_snoc: "x < length h \<Longrightarrow> next_at (h @ [v]) x n = next_at h x n"
  by (simp add: next_at_def sl_sz_def nth_append)

lemma linked_snoc: "\<forall>x \<in> set (a # xs). x < length h \<Longrightarrow> linked (h @ [v]) n a xs b = linked h n a xs b"
  by (induction xs arbitrary: a) (auto simp: next_at_snoc)

text \<open>Counters and junctions do not matter for the invariant.\<close>

lemma sl_inv_upd:
  assumes inv: "sl_inv key ok s xs" and same: "length h = length (sl_nodes s)"
      "\<And>x. sl_item (h ! x) = sl_item (sl_nodes s ! x)" "\<And>x. sl_next (h ! x) = sl_next (sl_nodes s ! x)"
    and ok: "\<And>a. a < length h \<Longrightarrow> varr_ok0 (sl_junc (h ! a))"
  shows "sl_inv key ok (s\<lparr>sl_nodes := h\<rparr>) xs"
proof -
  have sz: "sl_sz h = sl_sz (sl_nodes s)" by (simp add: sl_sz_def fun_eq_iff same)
  have "next_at h x n = next_at (sl_nodes s) x n" for x n by (simp add: next_at_def sz same)
  then have "linked h n a ys b = linked (sl_nodes s) n a ys b" for n a ys b by (rule linked_cong)
  moreover have "level h = level (sl_nodes s)" by (simp add: level_def sz fun_eq_iff)
  moreover have "nkey key h = nkey key (sl_nodes s)" by (simp add: nkey_def same fun_eq_iff)
  ultimately show ?thesis using inv by (simp add: sl_inv_def sz same ok)
qed

lemma sl_ref_nth:
  "sl_item (sl_nodes (sl_ref s a) ! x) = sl_item (sl_nodes s ! x)"
  "sl_next (sl_nodes (sl_ref s a) ! x) = sl_next (sl_nodes s ! x)"
  "sl_junc (sl_nodes (sl_ref s a) ! x) = sl_junc (sl_nodes s ! x)"
  "length (sl_nodes (sl_ref s a)) = length (sl_nodes s)"
  by (cases "x = a \<and> a < length (sl_nodes s)"; auto simp: sl_ref_def nth_list_update list_update_beyond not_less)+

lemma sl_ref_sel [simp]:
  "sl_head (sl_ref s a) = sl_head s" "sl_tail (sl_ref s a) = sl_tail s" "sl_lgn (sl_ref s a) = sl_lgn s"
  "sl_lgnmax (sl_ref s a) = sl_lgnmax s"
  by (simp_all add: sl_ref_def)

lemma sl_ref_inv:
  assumes "sl_inv key ok s xs"
  shows "sl_inv key ok (sl_ref s a) xs"
proof -
  have "sl_inv key ok (s\<lparr>sl_nodes := sl_nodes (sl_ref s a)\<rparr>) xs"
    using assms by (rule sl_inv_upd) (simp_all add: sl_ref_nth sl_invD(13) [OF assms])
  then show ?thesis by (simp add: sl_ref_def)
qed

text \<open>What the operations keep: the fixed fields, and boundaries and junctions of the old nodes.\<close>

definition sl_ext :: "'n slist \<Rightarrow> 'n slist \<Rightarrow> bool" where
  "sl_ext s s' \<longleftrightarrow> sl_head s' = sl_head s \<and> sl_tail s' = sl_tail s \<and> length (sl_nodes s) \<le> length (sl_nodes s') \<and>
     (\<forall>a < length (sl_nodes s). sl_item (sl_nodes s' ! a) = sl_item (sl_nodes s ! a) \<and>
        sl_junc (sl_nodes s' ! a) = sl_junc (sl_nodes s ! a)) \<and>
     (\<forall>a. length (sl_nodes s) \<le> a \<and> a < length (sl_nodes s') \<longrightarrow> sl_junc (sl_nodes s' ! a) = None)"

lemma sl_ext_ref: "sl_ext s (sl_ref s a)"
  by (auto simp: sl_ext_def sl_ref_nth)

lemma sl_ext_trans: "sl_ext s s' \<Longrightarrow> sl_ext s' s'' \<Longrightarrow> sl_ext s s''"
proof -
  assume a: "sl_ext s s'" and b: "sl_ext s' s''"
  have "sl_junc (sl_nodes s'' ! x) = None" if "length (sl_nodes s) \<le> x" "x < length (sl_nodes s'')" for x
    using a b that by (cases "x < length (sl_nodes s')") (simp_all add: sl_ext_def)
  then show ?thesis using a b by (simp add: sl_ext_def)
qed

subsection \<open>The interface: comparing boundaries\<close>

locale bound_order =
  fixes key :: "boundary \<Rightarrow> 'k::linorder" and ok :: "boundary \<Rightarrow> bool"
  assumes cmp: "ok a \<Longrightarrow> ok b \<Longrightarrow> \<exists>v. boundary_xcmp (Some a) (Some b) = Some v \<and> (v < 0 \<longleftrightarrow> key a < key b) \<and> (v = 0 \<longleftrightarrow> key a = key b)"
begin

lemma cmp_node:
  assumes "sl_inv key ok s xs" and "ok item" and "x \<in> set xs"
  obtains v where "boundary_xcmp (Some item) (sl_item (sl_nodes s ! x)) = Some v"
    and "v < 0 \<longleftrightarrow> key item < nkey key (sl_nodes s) x" and "v = 0 \<longleftrightarrow> key item = nkey key (sl_nodes s) x"
proof -
  obtain b where b: "sl_item (sl_nodes s ! x) = Some b" "ok b" using sl_invD(10) [OF assms(1,3)] by blast
  obtain v where "boundary_xcmp (Some item) (Some b) = Some v" "v < 0 \<longleftrightarrow> key item < key b" "v = 0 \<longleftrightarrow> key item = key b"
    using cmp [OF assms(2) b(2)] by blast
  then show ?thesis using that [of v] by (simp add: b nkey_def)
qed

lemma find_from:
  assumes inv: "sl_inv key ok s (ys @ zs)" and item: "ok item"
    and below: "\<forall>y \<in> set ys. nkey key (sl_nodes s) y < key item"
    and n: "n \<le> sl_lgnmax s" "ys \<noteq> [] \<Longrightarrow> n < sl_sz (sl_nodes s) (last ys)"
  shows "sl_rec_find (sl_nodes s) (last (sl_head s # ys)) item n =
    (let w = sl_ge (nkey key (sl_nodes s)) (key item) zs (sl_tail s)
     in Some (w = sl_tail s \<or> nkey key (sl_nodes s) w \<noteq> key item, Some w))"
  using assms
proof (induction "n + length zs" arbitrary: n ys zs rule: less_induct)
  case less
  let ?h = "sl_nodes s" and ?a = "last (sl_head s # ys)" and ?k = "key item" and ?f = "nkey key (sl_nodes s)"
  define nx where "nx = hd (level ?h n zs @ [sl_tail s])"
  note inv = less.prems(1)
  have a: "?a \<in> set (sl_head s # ys)" by (rule last_in_set) simp
  have sz: "sl_sz ?h ?a \<noteq> 0" "n < sl_sz ?h ?a"
    using sl_invD(5) [OF inv] less.prems(4,5) by (auto split: if_splits)
  have "level ?h n (ys @ zs) = level ?h n ys @ level ?h n zs" by (simp add: level_def)
  then have "next_at ?h (last (sl_head s # level ?h n ys)) n = Some nx"
    unfolding nx_def using linked_next sl_invD(12) [OF inv less.prems(4)] by metis
  moreover have "last (sl_head s # level ?h n ys) = ?a"
    using less.prems(5) by (cases ys rule: rev_cases) (auto simp: level_def)
  ultimately have nxt: "next_at ?h ?a n = Some nx" by simp
  have first: "\<exists>v. boundary_xcmp (Some item) (sl_item (?h ! ?a)) = Some v \<and> v \<noteq> 0"
  proof (cases "ys = []")
    case True
    then show ?thesis using sl_invD(3) [OF inv] by (simp add: boundary_xcmp_def)
  next
    case False
    then have "?a \<in> set ys" by simp
    then show ?thesis using cmp_node [OF inv item, of ?a] less.prems(3) by (metis Un_iff order_less_irrefl set_append)
  qed
  then obtain v1 where v1: "boundary_xcmp (Some item) (sl_item (?h ! ?a)) = Some v1" "v1 \<noteq> 0" by blast
  have nxt0: "n = 0 \<Longrightarrow> next_at ?h ?a 0 = Some nx" using nxt by simp
  have step: "sl_rec_find ?h ?a item n = (case boundary_xcmp (Some item) (sl_item (?h ! nx)) of None \<Rightarrow> None
      | Some r \<Rightarrow> if r < 0 then (if n = 0 then Some (True, Some nx) else sl_rec_find ?h ?a item (n - 1))
                  else sl_rec_find ?h nx item n)"
    using nxt0 by (subst sl_rec_find.simps [of ?h ?a item n]) (simp add: v1 sz nxt del: last.simps split: option.split)
  have all0: "level ?h 0 zs = zs" using sl_invD(8) [OF inv] by (auto simp: level_def filter_id_conv Suc_le_eq)
  have descend: "sl_rec_find ?h ?a item (n - 1) = (let w = sl_ge ?f ?k zs (sl_tail s)
     in Some (w = sl_tail s \<or> ?f w \<noteq> ?k, Some w))" if "n \<noteq> 0"
    using that less.prems by (intro less.hyps) auto
  show ?case
  proof (cases "level ?h n zs")
    case Nil
    then have "boundary_xcmp (Some item) (sl_item (?h ! nx)) = Some (- 1)"
      using sl_invD(4) [OF inv] by (simp add: boundary_xcmp_def nx_def)
    then show ?thesis using step descend Nil all0 by (cases "n = 0") (simp_all add: sl_ge_def nx_def)
  next
    case (Cons x rest)
    then obtain us vs where zs: "zs = us @ x # vs" "level ?h n us = []" "n < sl_sz ?h x"
      unfolding level_def filter_eq_Cons_iff by (metis (mono_tags, lifting) filter_False)
    have x: "x \<in> set (ys @ zs)" "nx = x" using zs Cons by (auto simp: nx_def)
    have us: "\<forall>u \<in> set us. ?f u < ?f x" using sl_invD(11) [OF inv] by (auto simp: zs sorted_wrt_append)
    obtain v where v: "boundary_xcmp (Some item) (sl_item (?h ! x)) = Some v" "v < 0 \<longleftrightarrow> ?k < ?f x" "v = 0 \<longleftrightarrow> ?k = ?f x"
      using cmp_node [OF inv item x(1)] by blast
    consider "?k < ?f x" | "?k = ?f x" | "?f x < ?k" by fastforce
    then show ?thesis
    proof cases
      case 1
      have "sl_ge ?f ?k zs (sl_tail s) = x" if "n = 0"
        using that all0 zs 1 by (cases us) (auto simp: sl_ge_def level_def split: if_splits)
      then show ?thesis using step descend x(2) v 1 sl_invD(1) [OF inv] by (cases "n = 0") (auto simp: zs)
    next
      case 2
      have "sl_rec_find ?h x item n = Some (False, Some x)"
        using v 2 zs(3) by (subst sl_rec_find.simps) simp
      moreover have "sl_ge ?f ?k zs (sl_tail s) = x" using us 2 by (simp add: sl_ge_def zs dropWhile_append2)
      ultimately show ?thesis using step x(2) v 2 sl_invD(1) [OF inv] by (auto simp: zs)
    next
      case 3
      have "sl_rec_find ?h (last (sl_head s # ys @ us @ [x])) item n = (let w = sl_ge ?f ?k vs (sl_tail s)
        in Some (w = sl_tail s \<or> ?f w \<noteq> ?k, Some w))"
        using less.prems us 3 zs by (intro less.hyps) fastforce+
      moreover have "\<forall>u \<in> set us. ?f u < ?k" using us 3 by (meson order_less_trans)
      then have "sl_ge ?f ?k zs (sl_tail s) = sl_ge ?f ?k vs (sl_tail s)"
        using 3 by (simp add: sl_ge_def zs dropWhile_append2)
      moreover have "\<not> ?k < ?f x" using 3 by simp
      ultimately show ?thesis using step x(2) v by simp
    qed
  qed
qed

lemma rec_find:
  assumes "sl_inv key ok s xs" and "ok item"
  shows "sl_rec_find (sl_nodes s) (sl_head s) item (sl_lgn s) =
    (let w = sl_ge (nkey key (sl_nodes s)) (key item) xs (sl_tail s)
     in Some (w = sl_tail s \<or> nkey key (sl_nodes s) w \<noteq> key item, Some w))"
  using find_from [of s "[]" xs item "sl_lgn s"] assms sl_invD(7) [OF assms(1)] by simp

text \<open>Inserting the node \<open>new\<close>, whose links are not in use yet, from level \<open>n\<close> on. \<open>ps\<close> are the nodes below
  it and \<open>qs\<close> those above; the search has passed \<open>ys\<close>.\<close>

lemma insert_from:
  assumes new: "new < length h" "sl_item (h ! new) = Some item" "ok item" "1 \<le> sl_sz h new"
    and items: "\<forall>x \<in> set (ys @ us @ qs). \<exists>b. sl_item (h ! x) = Some b \<and> ok b"
    and below: "\<forall>x \<in> set (ys @ us). nkey key h x < key item" and above: "\<forall>x \<in> set qs. key item < nkey key h x"
    and tail: "sl_item (h ! tp) = None" and dist: "distinct (tp # hp # new # ys @ us @ qs)"
    and links: "\<forall>m \<le> n. linked h m hp (level h m (ys @ us @ qs)) tp"
    and n: "ys \<noteq> [] \<longrightarrow> n < sl_sz h (last ys)"
  shows "\<exists>h'. sl_rec_insert h (last (hp # ys)) new n = Some h' \<and> sl_same h h' \<and>
    (\<forall>m \<le> n. linked h' m hp (level h m (ys @ us @ new # qs)) tp) \<and> (\<forall>m > n. \<forall>x. next_at h' x m = next_at h x m)"
  using assms
proof (induction "n + length us" arbitrary: n ys us h rule: less_induct)
  case less
  let ?a = "last (hp # ys)"
  define nx where "nx = hd (level h n (us @ qs) @ [tp])"
  have lev: "level h m (as @ bs) = level h m as @ level h m bs" for m as bs by (simp add: level_def)
  have last: "last (hp # level h n ys) = ?a"
    using less.prems(11) by (cases ys rule: rev_cases) (auto simp: level_def)
  have "linked h n hp (level h n ys @ level h n (us @ qs)) tp" using less.prems(10) by (simp add: lev)
  then have nxt: "next_at h ?a n = Some nx" unfolding nx_def last [symmetric] by (rule linked_next)
  have cmps: "\<exists>v. boundary_xcmp (Some item) (sl_item (h ! x)) = Some v \<and> (v < 0 \<longleftrightarrow> key item < nkey key h x)"
    if "x \<in> set (ys @ us @ qs)" for x
  proof -
    obtain b where b: "sl_item (h ! x) = Some b" "ok b" using less.prems(5) \<open>x \<in> _\<close> by blast
    then show ?thesis using cmp [OF less.prems(3) b(2)] by (auto simp: nkey_def)
  qed
  show ?case
  proof (cases "level h n us")
    case Nil
    define h1 where "h1 = (if n < sl_sz h new then set_next (set_next h new n nx) ?a n new else h)"
    have nxq: "nx = hd (level h n qs @ [tp])" using Nil by (simp add: nx_def lev)
    have "\<exists>v. boundary_xcmp (Some item) (sl_item (h ! nx)) = Some v \<and> v < 0"
    proof (cases "level h n qs")
      case Nil
      then show ?thesis using less.prems(8) by (simp add: nxq boundary_xcmp_def)
    next
      case (Cons q rest)
      then have "q \<in> set (level h n qs)" by simp
      then have "q \<in> set qs" by (simp add: level_def)
      moreover have "nx = q" using Cons by (simp add: nxq)
      ultimately show ?thesis using cmps [of nx] less.prems(7) by auto
    qed
    then obtain v where v: "boundary_xcmp (Some item) (sl_item (h ! nx)) = Some v" "v < 0" by blast
    have step: "sl_rec_insert h ?a new n = (if n = 0 then Some h1 else sl_rec_insert h1 ?a new (n - 1))"
      by (subst sl_rec_insert.simps [of h ?a new n]) (simp only: nxt less.prems(2) v bind.bind_lunit if_True h1_def)
    have same: "sl_same h h1" 
      unfolding h1_def by (cases "n < sl_sz h new") (simp_all add: sl_same_trans [OF sl_same_set_next sl_same_set_next] del: last.simps)
    have other: "next_at h1 x m = next_at h x m" if "m \<noteq> n" for x m
      using that by (simp add: h1_def next_at_set_next)
    have here: "linked h1 n hp (level h n (ys @ us @ new # qs)) tp"
    proof (cases "n < sl_sz h new")
      case True
      have "linked (set_next (set_next h new n (hd (level h n qs @ [tp]))) (last (hp # level h n ys)) n new) n hp
          (level h n ys @ new # level h n qs) tp"
        using less.prems(9,10) True less.prems(1) Nil by (intro linked_insert) (auto simp: lev, auto simp: level_def)
      then show ?thesis using True Nil unfolding last by (simp add: h1_def nxq lev level_def [of h n "new # qs"] level_def [of h n qs])
    next
      case False
      then show ?thesis using less.prems(10) by (simp add: h1_def lev, simp add: level_def)
    qed
    show ?thesis
    proof (cases "n = 0")
      case True
      then show ?thesis using step here same other by (intro exI [of _ h1]) auto
    next
      case False
      have eqs: "sl_item (h1 ! x) = sl_item (h ! x)" "sl_sz h1 x = sl_sz h x" "length h1 = length h"
        "nkey key h1 x = nkey key h x" "level h1 m zs = level h m zs" for x m zs
        using same by (simp_all add: sl_same_def nkey_def level_def)
      have "linked h1 m hp (level h m (ys @ us @ qs)) tp" if "m \<le> n - 1" for m
        using less.prems(10) that False other by (subst linked_cong [of h1 m h]) auto
      then have "\<exists>h'. sl_rec_insert h1 ?a new (n - 1) = Some h' \<and> sl_same h1 h' \<and>
          (\<forall>m \<le> n - 1. linked h' m hp (level h1 m (ys @ us @ new # qs)) tp) \<and> (\<forall>m > n - 1. \<forall>x. next_at h' x m = next_at h1 x m)"
        using less.prems False by (intro less.hyps) (auto simp: eqs)
      then obtain h' where h': "sl_rec_insert h1 ?a new (n - 1) = Some h'" "sl_same h1 h'"
          "\<forall>m \<le> n - 1. linked h' m hp (level h m (ys @ us @ new # qs)) tp"
          "\<forall>m > n - 1. \<forall>x. next_at h' x m = next_at h1 x m"
        by (auto simp: eqs)
      have "linked h' n hp (level h n (ys @ us @ new # qs)) tp"
        using here h'(4) False by (subst linked_cong [of h' n h1]) auto
      moreover have "next_at h' x m = next_at h x m" if "m > n" for x m using that h'(4) other by simp
      ultimately show ?thesis using step h' sl_same_trans [OF same h'(2)] False
        by (intro exI [of _ h']) (metis One_nat_def Suc_pred le_Suc_eq neq0_conv)
    qed
  next
    case (Cons x rest)
    then obtain us1 us2 where us: "us = us1 @ x # us2" "n < sl_sz h x"
      unfolding level_def filter_eq_Cons_iff by blast
    have x: "nx = x" "x \<in> set (ys @ us @ qs)" by (simp add: nx_def lev Cons) (simp add: us)
    have "nkey key h x < key item" using less.prems(6) us by simp
    then have "\<not> key item < nkey key h x" by simp
    then obtain v where "boundary_xcmp (Some item) (sl_item (h ! x)) = Some v" "\<not> v < 0" using cmps [OF x(2)] by blast
    then have "sl_rec_insert h ?a new n = sl_rec_insert h x new n"
      by (subst sl_rec_insert.simps) (simp add: nxt x(1) less.prems(2) del: last.simps)
    moreover have "\<exists>h'. sl_rec_insert h (last (hp # ys @ us1 @ [x])) new n = Some h' \<and> sl_same h h' \<and>
        (\<forall>m \<le> n. linked h' m hp (level h m ((ys @ us1 @ [x]) @ us2 @ new # qs)) tp) \<and> (\<forall>m > n. \<forall>x. next_at h' x m = next_at h x m)"
      using less.prems us by (intro less.hyps) auto
    ultimately show ?thesis by (simp add: us)
  qed
qed

lemma insert_absent:
  assumes inv: "sl_inv key ok s xs" and item: "ok item"
    and absent: "\<forall>x \<in> set xs. nkey key (sl_nodes s) x \<noteq> key item"
    and rand: "sl_rand randmax r s = (i, s1)"
  defines "new \<equiv> length (sl_nodes s)"
  defines "xs' \<equiv> takeWhile (\<lambda>x. nkey key (sl_nodes s) x < key item) xs @ new # dropWhile (\<lambda>x. nkey key (sl_nodes s) x < key item) xs"
  shows "\<exists>h. sl_rec_insert (sl_nodes s1 @ [sl_new (Some item) i (sl_tail s1)]) (sl_head s1) new (sl_lgn s1) = Some h \<and>
    sl_inv key ok (s1\<lparr>sl_nodes := h\<rparr>) xs' \<and> sl_ext s (s1\<lparr>sl_nodes := h\<rparr>) \<and> sl_item (h ! new) = Some item \<and> length h = Suc new"
proof -
  let ?f = "nkey key (sl_nodes s)" and ?k = "key item"
  define ps where "ps = takeWhile (\<lambda>x. ?f x < ?k) xs"
  define qs where "qs = dropWhile (\<lambda>x. ?f x < ?k) xs"
  define h0 where "h0 = sl_nodes s @ [sl_new (Some item) i (sl_tail s)]"
  have xs: "xs = ps @ qs" "xs' = ps @ new # qs" by (simp_all add: ps_def qs_def xs'_def)
  have s1: "s1 = s\<lparr>sl_lgn := max i (sl_lgn s)\<rparr>" and i: "1 \<le> i" "i \<le> sl_lgnmax s"
    using rand sl_rand_loop_bounds [of 1 randmax r "sl_lgnmax s - 1" 2] sl_invD(14) [OF inv] by (auto simp: sl_rand_def Let_def)
  have lt: "x < new" if "x \<in> set (sl_tail s # sl_head s # xs)" for x using sl_invD(2) [OF inv that] by (simp add: new_def)
  have nth: "h0 ! x = sl_nodes s ! x" if "x < new" for x using that by (simp add: h0_def new_def nth_append)
  have hnew: "h0 ! new = sl_new (Some item) i (sl_tail s)" "length h0 = Suc new" by (simp_all add: h0_def new_def)
  have sz: "sl_sz h0 x = (if x = new then i else sl_sz (sl_nodes s) x)" if "x \<le> new" for x
    using that nth [of x] by (auto simp: sl_sz_def hnew sl_new_def)
  have f: "nkey key h0 x = ?f x" "sl_item (h0 ! x) = sl_item (sl_nodes s ! x)" if "x \<in> set xs" for x
    using nth lt that by (simp_all add: nkey_def)
  have szx: "sl_sz h0 x = sl_sz (sl_nodes s) x" if "x \<in> set (sl_tail s # sl_head s # xs)" for x
    using sz [of x] lt [OF that] by simp
  have lev: "level h0 m xs = level (sl_nodes s) m xs" for m
    using szx by (simp add: level_def cong: filter_cong)
  have links: "linked h0 m (sl_head s) (level h0 m xs) (sl_tail s)" if "m \<le> sl_lgnmax s" for m
  proof -
    have "\<forall>x \<in> set (sl_head s # level (sl_nodes s) m xs). x < length (sl_nodes s)" using lt by (auto simp: level_def new_def)
    then show ?thesis using sl_invD(12) [OF inv that] unfolding lev unfolding h0_def by (simp add: linked_snoc)
  qed
  have above: "\<forall>x \<in> set qs. ?k < ?f x"
  proof (cases qs)
    case (Cons q rest)
    then have "\<not> ?f q < ?k" by (metis qs_def dropWhile_eq_Cons_conv)
    then have "?k < ?f q" using absent Cons xs(1) by (metis in_set_conv_decomp not_less_iff_gr_or_eq append_assoc)
    then show ?thesis using sl_invD(11) [OF inv] by (auto simp: xs(1) Cons sorted_wrt_append intro: order_less_trans)
  qed simp
  have below: "\<forall>x \<in> set ps. ?f x < ?k" by (auto simp: ps_def dest: set_takeWhileD)
  have "\<exists>h. sl_rec_insert h0 (last (sl_head s # [])) new (sl_lgn s1) = Some h \<and> sl_same h0 h \<and>
    (\<forall>m \<le> sl_lgn s1. linked h m (sl_head s) (level h0 m ([] @ ps @ new # qs)) (sl_tail s)) \<and> (\<forall>m > sl_lgn s1. \<forall>x. next_at h x m = next_at h0 x m)"
  proof (rule insert_from)
    show "\<forall>x \<in> set ([] @ ps @ qs). \<exists>b. sl_item (h0 ! x) = Some b \<and> ok b"
      using f(2) sl_invD(10) [OF inv] by (simp add: xs(1))
    show "distinct (sl_tail s # sl_head s # new # [] @ ps @ qs)" using sl_invD(1) [OF inv] lt by (auto simp: xs(1))
    show "\<forall>m \<le> sl_lgn s1. linked h0 m (sl_head s) (level h0 m ([] @ ps @ qs)) (sl_tail s)"
      using links i sl_invD(7) [OF inv] by (simp add: xs(1) [symmetric] s1)
  qed (use item hnew sz [of new] i f(1) below above nth lt sl_invD(4) [OF inv] in \<open>auto simp: sl_new_def xs(1)\<close>)
  then obtain h where h: "sl_rec_insert h0 (sl_head s) new (sl_lgn s1) = Some h" "sl_same h0 h"
    "\<And>m. m \<le> sl_lgn s1 \<Longrightarrow> linked h m (sl_head s) (level h0 m xs') (sl_tail s)"
    "\<And>m x. m > sl_lgn s1 \<Longrightarrow> next_at h x m = next_at h0 x m"
    unfolding xs(2) by auto
  have same: "sl_item (h ! x) = sl_item (h0 ! x)" "sl_sz h x = sl_sz h0 x" "length h = Suc new" "level h m zs = level h0 m zs"
      "nkey key h x = nkey key h0 x" "sl_junc (h ! x) = sl_junc (h0 ! x)" for x m zs
    using h(2) hnew by (simp_all add: sl_same_def level_def nkey_def)
  have sorted: "sorted_wrt (\<lambda>x y. nkey key h x < nkey key h y) xs'"
  proof -
    have "nkey key h0 new = ?k" by (simp add: nkey_def hnew sl_new_def)
    moreover have "sorted_wrt (\<lambda>x y. nkey key h0 x < nkey key h0 y) xs"
      using sl_invD(11) [OF inv] by (rule sorted_wrt_mono_rel [rotated]) (simp add: f)
    ultimately show ?thesis using below above f(1) by (auto simp: same xs sorted_wrt_append)
  qed
  have link: "linked h m (sl_head s) (level h m xs') (sl_tail s)" if "m \<le> sl_lgnmax s" for m
  proof (cases "m \<le> sl_lgn s1")
    case False
    then have "level h0 m xs' = level h0 m xs" using sz [of new] by (simp add: level_def xs s1)
    then show ?thesis using links [OF that] h(4) False by (subst linked_cong [of h m h0]) (simp_all add: same)
  qed (use h(3) in \<open>simp add: same\<close>)
  have nodes: "1 \<le> sl_sz h x \<and> sl_sz h x \<le> sl_lgn s1 \<and> (\<exists>b. sl_item (h ! x) = Some b \<and> ok b)" if "x \<in> set xs'" for x
  proof (cases "x = new")
    case True
    then show ?thesis using sz [of new] i item hnew by (simp add: same s1 sl_new_def)
  next
    case False
    then have "x \<in> set xs" using that by (auto simp: xs)
    then show ?thesis using sl_invD(8,9,10) [OF inv] szx f(2) by (fastforce simp: same s1)
  qed
  have "distinct (sl_tail s # sl_head s # xs')" using sl_invD(1) [OF inv] lt by (auto simp: xs)
  moreover have "x < Suc new" if "x \<in> set (sl_tail s # sl_head s # xs')" for x using lt that by (fastforce simp: xs)
  moreover have "varr_ok0 (sl_junc (h ! a))" if "a < Suc new" for a
    using that sl_invD(13) [OF inv] nth hnew by (cases "a = new") (simp_all add: same sl_new_def new_def varr_ok0_def)
  moreover have "sl_item (h ! sl_head s) = None" "sl_item (h ! sl_tail s) = None" "sl_sz h (sl_head s) = sl_lgnmax s + 1"
      "sl_sz h (sl_tail s) = 0" "max i (sl_lgn s) \<le> sl_lgnmax s"
    using sl_invD(3-7) [OF inv] nth lt szx i by (simp_all add: same)
  ultimately have "sl_inv key ok (s1\<lparr>sl_nodes := h\<rparr>) xs'"
    using sorted link nodes sl_invD(14) [OF inv] by (simp add: sl_inv_def s1 same(3))
  moreover have "sl_ext s (s1\<lparr>sl_nodes := h\<rparr>)"
    using h(2) hnew nth by (auto simp: sl_ext_def s1 sl_same_def new_def sl_new_def less_Suc_eq)
  ultimately show ?thesis using h(1,2) hnew by (simp add: s1 h0_def sl_same_def sl_new_def)
qed

text \<open>\<open>sl_insert\<close> finds the node of the boundary or adds one.\<close>

lemma insert_inv:
  assumes inv: "sl_inv key ok s xs" and item: "ok item"
  shows "\<exists>s' node xs'. sl_insert randmax r s item = Some (s', node) \<and> sl_inv key ok s' xs' \<and> sl_ext s s' \<and>
    set xs \<subseteq> set xs' \<and> (\<forall>x \<in> set xs'. x \<in> set xs \<or> length (sl_nodes s) \<le> x) \<and> node \<in> set xs' \<and> nkey key (sl_nodes s') node = key item"
proof (cases "\<exists>x \<in> set xs. nkey key (sl_nodes s) x = key item")
  case True
  define w where "w = sl_ge (nkey key (sl_nodes s)) (key item) xs (sl_tail s)"
  have w: "w \<in> set xs" "nkey key (sl_nodes s) w = key item"
    using True sl_ge_eq [OF sl_invD(11) [OF inv]] by (auto simp: w_def)
  then have "sl_find s item = Some (Some w)"
    using rec_find [OF inv item] sl_invD(1) [OF inv] by (auto simp: sl_find_def w_def [symmetric])
  then have "sl_insert randmax r s item = Some (sl_ref s w, w)" by (simp add: sl_insert_def)
  moreover have "nkey key (sl_nodes (sl_ref s w)) w = key item" using w(2) by (simp add: nkey_def sl_ref_nth)
  ultimately show ?thesis using sl_ref_inv [OF inv] sl_ext_ref w(1) by blast
next
  case False
  let ?f = "nkey key (sl_nodes s)" and ?new = "length (sl_nodes s)"
  obtain i s1 where rand: "sl_rand randmax r s = (i, s1)" by (cases "sl_rand randmax r s")
  have s1: "sl_nodes s1 = sl_nodes s" using rand by (auto simp: sl_rand_def Let_def)
  define xs' where "xs' = takeWhile (\<lambda>x. ?f x < key item) xs @ ?new # dropWhile (\<lambda>x. ?f x < key item) xs"
  have "\<forall>x \<in> set xs. ?f x \<noteq> key item" using False by blast
  from insert_absent [OF inv item this rand] obtain h where
    h: "sl_rec_insert (sl_nodes s1 @ [sl_new (Some item) i (sl_tail s1)]) (sl_head s1) ?new (sl_lgn s1) = Some h"
      "sl_inv key ok (s1\<lparr>sl_nodes := h\<rparr>) xs'" "sl_ext s (s1\<lparr>sl_nodes := h\<rparr>)" "sl_item (h ! ?new) = Some item"
    unfolding xs'_def by blast
  define w where "w = sl_ge ?f (key item) xs (sl_tail s)"
  have "w = sl_tail s \<or> ?f w \<noteq> key item" using False sl_ge_in [of ?f "key item" xs "sl_tail s"] by (auto simp: w_def)
  then have "sl_find s item = Some None" using rec_find [OF inv item] by (auto simp: sl_find_def w_def [symmetric])
  then have ins: "sl_insert randmax r s item = Some (sl_ref (s1\<lparr>sl_nodes := h\<rparr>) ?new, ?new)"
    using h(1) by (simp add: sl_insert_def rand s1 Let_def)
  have "set xs' = insert ?new (set xs)"
    unfolding xs'_def using takeWhile_dropWhile_id [of "\<lambda>x. ?f x < key item" xs] by (metis list.set(2) set_append Un_insert_right)
  moreover have "nkey key (sl_nodes (sl_ref (s1\<lparr>sl_nodes := h\<rparr>) ?new)) ?new = key item"
    using h(4) by (simp add: nkey_def sl_ref_nth)
  ultimately show ?thesis
    using ins sl_ref_inv [OF h(2), of ?new] sl_ext_trans [OF h(3) sl_ext_ref, of ?new]
    by (intro exI [of _ "sl_ref (s1\<lparr>sl_nodes := h\<rparr>) ?new"] exI [of _ ?new] exI [of _ xs']) auto
qed

end

end
