(* ===== verification/Srange.thy ===== *)
theory Srange
  imports Slist "HOL-Library.Char_ord" "HOL-Library.List_Lexorder"
begin

text \<open>
  What the skip lists of \<open>lib/slist.c\<close> promise to the rule tree: adding a range and matching a value
  against the ranges that are stored.
\<close>

subsection \<open>Collecting junctions\<close>

definition juncs :: "'n slnode list \<Rightarrow> nat \<Rightarrow> 'n set" where
  "juncs h x = set (varr_list (sl_junc (h ! x)))"

lemma varr_or_append:
  assumes "varr_ok0 a" and "varr_ok0 b"
  shows "\<exists>r. varr_or a b True = Some r \<and> varr_ok0 r \<and> set (varr_list r) = set (varr_list a) \<union> set (varr_list b)"
proof (cases a; cases b)
  fix x y assume ab: "a = Some x" "b = Some y"
  then have "varr_ok x" using assms by (simp add: varr_ok0_def)
  from va.fold_add_items [OF this, of "v_items y"] show ?thesis
    by (auto simp: ab varr_or_def varr_ok0_def varr_list_def)
qed (use assms in \<open>auto simp: varr_or_def varr_dup_def varr_ok0_def varr_list_def option.map_ident\<close>)

lemma varr_and_set:
  "\<exists>r. varr_and a b = Some r \<and> varr_ok0 r \<and> set (varr_list r) = set (varr_list a) \<inter> set (varr_list b)"
proof (cases a; cases b)
  fix x y assume ab: "a = Some x" "b = Some y"
  obtain r where r: "varr_and a b = Some r" "varr_ok0 r" using varr_and_total by blast
  then have "varr_list r = filter (\<lambda>z. z \<in> set (v_items y)) (v_items x)" using varr_and_inter by (simp add: ab)
  then have "set (varr_list r) = set (varr_list a) \<inter> set (varr_list b)" by (auto simp: ab varr_list_def [of "Some x"] varr_list_def [of "Some y"])
  then show ?thesis using r by blast
qed (auto simp: varr_and_def varr_ok0_def varr_list_def)

lemma collect_chain:
  assumes "linked h 0 a ps w" and "w \<notin> set (a # ps)" and "\<forall>x \<in> set (a # ps). varr_ok0 (sl_junc (h ! x))" and "varr_ok0 acc"
  shows "\<exists>r. sl_collect h a w acc = Some r \<and> varr_ok0 r \<and> set (varr_list r) = set (varr_list acc) \<union> (\<Union>x \<in> set (a # ps). juncs h x)"
  using assms
proof (induction ps arbitrary: a acc)
  case Nil
  obtain r where "varr_or acc (sl_junc (h ! a)) True = Some r" "varr_ok0 r" "set (varr_list r) = set (varr_list acc) \<union> juncs h a"
    using varr_or_append [of acc "sl_junc (h ! a)"] Nil.prems by (auto simp: juncs_def)
  moreover have "sl_collect h w w acc' = Some acc'" for acc' by (subst sl_collect.simps) simp
  ultimately show ?case using Nil.prems by (subst sl_collect.simps) auto
next
  case (Cons p ps)
  obtain r where r: "varr_or acc (sl_junc (h ! a)) True = Some r" "varr_ok0 r" "set (varr_list r) = set (varr_list acc) \<union> juncs h a"
    using varr_or_append [of acc "sl_junc (h ! a)"] Cons.prems by (auto simp: juncs_def)
  moreover have "\<exists>x. sl_collect h p w r = Some x \<and> varr_ok0 x \<and> set (varr_list x) = set (varr_list r) \<union> (\<Union>x \<in> set (p # ps). juncs h x)"
    using Cons.prems r(2) by (intro Cons.IH) auto
  moreover have "sl_collect h a w acc = sl_collect h p w r"
    using Cons.prems r(1) by (subst sl_collect.simps) auto
  ultimately show ?case by auto
qed

lemma collect_tail_end:
  assumes "sl_item (h ! t) = None" and "varr_ok0 (sl_junc (h ! t))" and "varr_ok0 acc"
  shows "\<exists>r. sl_collect_tail h t acc = Some r \<and> varr_ok0 r \<and> set (varr_list r) = set (varr_list acc) \<union> juncs h t"
proof -
  obtain r where "varr_or acc (sl_junc (h ! t)) True = Some r" "varr_ok0 r" "set (varr_list r) = set (varr_list acc) \<union> juncs h t"
    using varr_or_append [OF assms(3,2)] by (auto simp: juncs_def)
  then show ?thesis using assms(1) by (subst sl_collect_tail.simps) auto
qed

lemma collect_tail_chain:
  assumes "linked h 0 a ps t" and "\<forall>x \<in> set (a # ps). sl_item (h ! x) \<noteq> None" and "sl_item (h ! t) = None"
    and "\<forall>x \<in> set (t # a # ps). varr_ok0 (sl_junc (h ! x))" and "varr_ok0 acc"
  shows "\<exists>r. sl_collect_tail h a acc = Some r \<and> varr_ok0 r \<and> set (varr_list r) = set (varr_list acc) \<union> (\<Union>x \<in> set (t # a # ps). juncs h x)"
  using assms
proof (induction ps arbitrary: a acc)
  case Nil
  obtain r where r: "varr_or acc (sl_junc (h ! a)) True = Some r" "varr_ok0 r" "set (varr_list r) = set (varr_list acc) \<union> juncs h a"
    using varr_or_append [of acc "sl_junc (h ! a)"] Nil.prems by (auto simp: juncs_def)
  moreover have "sl_collect_tail h a acc = sl_collect_tail h t r"
    using Nil.prems r(1) by (subst sl_collect_tail.simps) auto
  ultimately show ?case using collect_tail_end [OF Nil.prems(3) _ r(2)] Nil.prems(4) by auto
next
  case (Cons p ps)
  obtain r where r: "varr_or acc (sl_junc (h ! a)) True = Some r" "varr_ok0 r" "set (varr_list r) = set (varr_list acc) \<union> juncs h a"
    using varr_or_append [of acc "sl_junc (h ! a)"] Cons.prems by (auto simp: juncs_def)
  moreover have "\<exists>x. sl_collect_tail h p r = Some x \<and> varr_ok0 x \<and> set (varr_list x) = set (varr_list r) \<union> (\<Union>x \<in> set (t # p # ps). juncs h x)"
    using Cons.prems r(2) by (intro Cons.IH) auto
  moreover have "sl_collect_tail h a acc = sl_collect_tail h p r"
    using Cons.prems r(1) by (subst sl_collect_tail.simps) auto
  ultimately show ?case by auto
qed

lemma split_above:
  assumes "sorted_wrt (\<lambda>x y. f x < f y) xs" and "\<not> (\<exists>x \<in> set xs. f x = (k :: 'k :: linorder))"
  shows "\<forall>x \<in> set (dropWhile (\<lambda>x. f x < k) xs). k < f x"
  using assms
proof (induction xs)
  case (Cons a xs)
  show ?case
  proof (cases "f a < k")
    case False
    then have "k < f a" using Cons.prems(2) by (simp add: order.order_iff_strict not_less) (metis order.strict_iff_order)
    then show ?thesis using Cons.prems(1) False by (auto intro: order_less_trans)
  qed (use Cons in simp)
qed simp

subsection \<open>Matching a value\<close>

text \<open>The junctions entered at or below the value, and those entered above it, with those at the node
  of the value itself when its boundary is inclusive.\<close>

definition below :: "(boundary \<Rightarrow> 'k::linorder) \<Rightarrow> 'n slist \<Rightarrow> nat list \<Rightarrow> 'k \<Rightarrow> 'n set" where
  "below key s xs k = juncs (sl_nodes s) (sl_head s) \<union> (\<Union>x \<in> {x \<in> set xs. nkey key (sl_nodes s) x \<le> k}. juncs (sl_nodes s) x)"

definition closed :: "'n slnode list \<Rightarrow> nat \<Rightarrow> bool" where
  "closed h x \<longleftrightarrow> (\<exists>b. sl_item (h ! x) = Some b \<and> b_type b AND EQ \<noteq> 0)"

definition above :: "(boundary \<Rightarrow> 'k::linorder) \<Rightarrow> 'n slist \<Rightarrow> nat list \<Rightarrow> 'k \<Rightarrow> 'n set" where
  "above key s xs k = juncs (sl_nodes s) (sl_tail s) \<union>
     (\<Union>x \<in> {x \<in> set xs. k < nkey key (sl_nodes s) x \<or> k = nkey key (sl_nodes s) x \<and> closed (sl_nodes s) x}. juncs (sl_nodes s) x)"

context bound_order
begin

lemma level_0: "sl_inv key ok s xs \<Longrightarrow> linked (sl_nodes s) 0 (sl_head s) xs (sl_tail s)"
proof -
  assume inv: "sl_inv key ok s xs"
  have "level (sl_nodes s) 0 xs = xs" using sl_invD(8) [OF inv] by (auto simp: level_def filter_id_conv Suc_le_eq)
  then show ?thesis using sl_invD(12) [OF inv, of 0] by simp
qed

lemma next_level_0:
  assumes "sl_inv key ok s (us @ x # vs)"
  shows "next_at (sl_nodes s) x 0 = Some (hd (vs @ [sl_tail s]))"
  using linked_next [of "sl_nodes s" 0 "sl_head s" "us @ [x]" vs "sl_tail s"] level_0 [OF assms] by simp

lemma inv_juncs_ok: "sl_inv key ok s xs \<Longrightarrow> x \<in> set (sl_tail s # sl_head s # xs) \<Longrightarrow> varr_ok0 (sl_junc (sl_nodes s ! x))"
  using sl_invD(2,13) by blast

lemma head_to:
  assumes inv: "sl_inv key ok s (us @ vs)"
  shows "\<exists>r. sl_collect (sl_nodes s) (sl_head s) (hd (vs @ [sl_tail s])) None = Some r \<and> varr_ok0 r \<and>
    set (varr_list r) = juncs (sl_nodes s) (sl_head s) \<union> (\<Union>x \<in> set us. juncs (sl_nodes s) x)"
proof -
  define w where "w = hd (vs @ [sl_tail s])"
  have "linked (sl_nodes s) 0 (sl_head s) us w"
    using level_0 [OF inv] by (cases vs) (auto simp: linked_append w_def)
  moreover have "w \<notin> set (sl_head s # us)" using sl_invD(1) [OF inv] by (cases vs) (auto simp: w_def)
  moreover have "\<forall>x \<in> set (sl_head s # us). varr_ok0 (sl_junc (sl_nodes s ! x))" using inv_juncs_ok [OF inv] by simp
  ultimately show ?thesis using collect_chain [of "sl_nodes s" "sl_head s" us w None]
    by (simp add: varr_ok0_def varr_list_def [of None] w_def)
qed

lemma tail_from:
  assumes inv: "sl_inv key ok s (us @ vs)"
  shows "\<exists>r. sl_collect_tail (sl_nodes s) (hd (vs @ [sl_tail s])) None = Some r \<and> varr_ok0 r \<and>
    set (varr_list r) = juncs (sl_nodes s) (sl_tail s) \<union> (\<Union>x \<in> set vs. juncs (sl_nodes s) x)"
proof (cases vs)
  case Nil
  then show ?thesis using collect_tail_end [OF sl_invD(4) [OF inv], of None] inv_juncs_ok [OF inv, of "sl_tail s"]
    by (simp add: varr_ok0_def varr_list_def [of None])
next
  case (Cons w ws)
  have "linked (sl_nodes s) 0 w ws (sl_tail s)" using level_0 [OF inv] by (simp add: Cons linked_append)
  moreover have "\<forall>x \<in> set (w # ws). sl_item (sl_nodes s ! x) \<noteq> None" using sl_invD(10) [OF inv] by (force simp: Cons)
  moreover have "\<forall>x \<in> set (sl_tail s # w # ws). varr_ok0 (sl_junc (sl_nodes s ! x))" using inv_juncs_ok [OF inv] by (simp add: Cons)
  ultimately show ?thesis using collect_tail_chain [of "sl_nodes s" w ws "sl_tail s" None] sl_invD(4) [OF inv]
    by (simp add: Cons varr_ok0_def varr_list_def [of None])
qed

lemma match_exact:
  assumes inv: "sl_inv key ok s (ps @ w # qs)" and item: "ok item" and w: "nkey key (sl_nodes s) w = key item"
  shows "\<exists>r. sl_match (Some s) item = Some r \<and> varr_ok0 r \<and>
    set (varr_list r) = (juncs (sl_nodes s) (sl_head s) \<union> (\<Union>x \<in> set (ps @ [w]). juncs (sl_nodes s) x)) \<inter>
      (juncs (sl_nodes s) (sl_tail s) \<union> (\<Union>x \<in> set (if closed (sl_nodes s) w then w # qs else qs). juncs (sl_nodes s) x))"
proof -
  let ?h = "sl_nodes s" and ?us = "if closed (sl_nodes s) w then ps else ps @ [w]" and ?vs = "if closed (sl_nodes s) w then w # qs else qs"
  define stop where "stop = hd (qs @ [sl_tail s])"
  have "sl_ge (nkey key ?h) (key item) (ps @ w # qs) (sl_tail s) = w" using sl_ge_eq [OF sl_invD(11) [OF inv] _ w] by simp
  then have find: "sl_rec_find ?h (sl_head s) item (sl_lgn s) = Some (False, Some w)"
    using rec_find [OF inv item] w sl_invD(1) [OF inv] by simp
  have next_w: "next_at ?h w 0 = Some stop" using next_level_0 [OF inv] by (simp add: stop_def)
  obtain lp where lp: "sl_collect ?h (sl_head s) stop None = Some lp"
      "set (varr_list lp) = juncs ?h (sl_head s) \<union> (\<Union>x \<in> set (ps @ [w]). juncs ?h x)"
    using head_to [of s "ps @ [w]" qs] inv by (auto simp: stop_def)
  obtain b where b: "sl_item (?h ! w) = Some b" using sl_invD(10) [OF inv, of w] by auto
  then have cl: "closed ?h w \<longleftrightarrow> b_type b AND EQ \<noteq> 0" by (simp add: closed_def)
  have "(if b_type b AND EQ \<noteq> 0 then w else stop) = hd (?vs @ [sl_tail s])" using cl by (simp add: stop_def)
  moreover have "sl_inv key ok s (?us @ ?vs)" using inv by simp
  ultimately obtain up where up: "sl_collect_tail ?h (if b_type b AND EQ \<noteq> 0 then w else stop) None = Some up"
      "set (varr_list up) = juncs ?h (sl_tail s) \<union> (\<Union>x \<in> set ?vs. juncs ?h x)"
    using tail_from [of s ?us ?vs] by metis
  obtain r where r: "varr_and lp up = Some r" "varr_ok0 r" "set (varr_list r) = set (varr_list lp) \<inter> set (varr_list up)"
    using varr_and_set [of lp up] by blast
  have "sl_match (Some s) item = varr_and lp up"
    by (simp only: sl_match_def find next_w lp(1) b up(1) Let_def option.case bind.bind_lunit split simp_thms if_True if_False)
  then show ?thesis unfolding lp(2) [symmetric] up(2) [symmetric] using r by simp
qed

lemma match_between:
  assumes inv: "sl_inv key ok s (ps @ qs)" and item: "ok item"
    and ps: "\<forall>x \<in> set ps. nkey key (sl_nodes s) x < key item" and qs: "\<forall>x \<in> set qs. key item < nkey key (sl_nodes s) x"
  shows "\<exists>r. sl_match (Some s) item = Some r \<and> varr_ok0 r \<and>
    set (varr_list r) = (juncs (sl_nodes s) (sl_head s) \<union> (\<Union>x \<in> set ps. juncs (sl_nodes s) x)) \<inter>
      (juncs (sl_nodes s) (sl_tail s) \<union> (\<Union>x \<in> set qs. juncs (sl_nodes s) x))"
proof -
  let ?h = "sl_nodes s"
  define w where "w = hd (qs @ [sl_tail s])"
  have "dropWhile (\<lambda>x. nkey key ?h x < key item) (ps @ qs) = qs" using ps qs by (cases qs) (auto simp: dropWhile_append2)
  then have w: "sl_ge (nkey key ?h) (key item) (ps @ qs) (sl_tail s) = w" by (simp add: sl_ge_def w_def)
  have "w = sl_tail s \<or> nkey key ?h w \<noteq> key item" using qs by (cases qs) (auto simp: w_def)
  then have find: "sl_rec_find ?h (sl_head s) item (sl_lgn s) = Some (True, Some w)"
    using rec_find [OF inv item] w by simp
  have neq: "w \<noteq> sl_head s" using sl_invD(1) [OF inv] by (cases qs) (auto simp: w_def)
  obtain lp where lp: "sl_collect ?h (sl_head s) w None = Some lp"
      "set (varr_list lp) = juncs ?h (sl_head s) \<union> (\<Union>x \<in> set ps. juncs ?h x)"
    using head_to [OF inv] by (auto simp: w_def)
  obtain up where up: "sl_collect_tail ?h w None = Some up"
      "set (varr_list up) = juncs ?h (sl_tail s) \<union> (\<Union>x \<in> set qs. juncs ?h x)"
    using tail_from [OF inv] by (auto simp: w_def)
  obtain r where r: "varr_and lp up = Some r" "varr_ok0 r" "set (varr_list r) = set (varr_list lp) \<inter> set (varr_list up)"
    using varr_and_set [of lp up] by blast
  have "sl_match (Some s) item = varr_and lp up"
    by (simp only: sl_match_def find lp(1) up(1) neq Let_def option.case bind.bind_lunit split simp_thms if_True if_False)
  then show ?thesis unfolding lp(2) [symmetric] up(2) [symmetric] using r by simp
qed

lemma match_sets:
  assumes inv: "sl_inv key ok s xs" and item: "ok item"
  shows "\<exists>r. sl_match (Some s) item = Some r \<and> varr_ok0 r \<and>
    set (varr_list r) = below key s xs (key item) \<inter> above key s xs (key item)"
proof -
  let ?f = "nkey key (sl_nodes s)" and ?k = "key item"
  note sorted = sl_invD(11) [OF inv]
  show ?thesis
  proof (cases "\<exists>w \<in> set xs. ?f w = ?k")
    case True
    then obtain ps w qs where xs: "xs = ps @ w # qs" and w: "?f w = ?k" by (metis split_list)
    have "\<forall>x \<in> set ps. ?f x < ?k" "\<forall>x \<in> set qs. ?k < ?f x" using sorted w by (auto simp: xs sorted_wrt_append)
    then have "{x \<in> set xs. ?f x \<le> ?k} = set (ps @ [w])"
      "{x \<in> set xs. ?k < ?f x \<or> ?k = ?f x \<and> closed (sl_nodes s) x} = set (if closed (sl_nodes s) w then w # qs else qs)"
      using w by (auto simp: xs)
    then show ?thesis using match_exact [OF inv [unfolded xs] item w] by (simp only: below_def above_def)
  next
    case False
    define ps where "ps = takeWhile (\<lambda>x. ?f x < ?k) xs"
    define qs where "qs = dropWhile (\<lambda>x. ?f x < ?k) xs"
    have xs: "xs = ps @ qs" by (simp add: ps_def qs_def)
    have ps: "\<forall>x \<in> set ps. ?f x < ?k" by (auto simp: ps_def dest: set_takeWhileD)
    have qs: "\<forall>x \<in> set qs. ?k < ?f x" using split_above [OF sorted False] by (simp add: qs_def)
    have "{x \<in> set xs. ?f x \<le> ?k} = set ps" "{x \<in> set xs. ?k < ?f x \<or> ?k = ?f x \<and> closed (sl_nodes s) x} = set qs"
      using ps qs False by (auto simp: xs)
    then show ?thesis using match_between [OF inv [unfolded xs] item ps qs] by (simp only: below_def above_def)
  qed
qed

end

subsection \<open>Adding a range\<close>

text \<open>The nodes that an insertion adds are new ones.\<close>

definition grown :: "'n slist \<Rightarrow> nat list \<Rightarrow> 'n slist \<Rightarrow> nat list \<Rightarrow> bool" where
  "grown s xs s' xs' \<longleftrightarrow> sl_ext s s' \<and> set xs \<subseteq> set xs' \<and> (\<forall>x \<in> set xs'. x \<in> set xs \<or> length (sl_nodes s) \<le> x)"

lemma grown_refl: "sl_ext s s' \<Longrightarrow> grown s xs s' xs"
  by (simp add: grown_def)

lemma grown_trans: "grown s xs s' xs' \<Longrightarrow> grown s' xs' s'' xs'' \<Longrightarrow> grown s xs s'' xs''"
  unfolding grown_def using sl_ext_trans [of s s' s''] by (auto simp: sl_ext_def)

lemma sl_ext_juncs:
  "sl_ext s s' \<Longrightarrow> x < length (sl_nodes s') \<Longrightarrow> juncs (sl_nodes s') x = (if x < length (sl_nodes s) then juncs (sl_nodes s) x else {})"
  by (simp add: sl_ext_def juncs_def varr_list_def)

lemma enter_inv:
  assumes inv: "sl_inv key ok s xs" and a: "a < length (sl_nodes s)"
  shows "\<exists>s'. sl_enter s a j = Some s' \<and> sl_inv key ok s' xs \<and> sl_head s' = sl_head s \<and> sl_tail s' = sl_tail s \<and>
    length (sl_nodes s') = length (sl_nodes s) \<and> (\<forall>x. sl_item (sl_nodes s' ! x) = sl_item (sl_nodes s ! x)) \<and>
    (\<forall>x. juncs (sl_nodes s') x = juncs (sl_nodes s) x \<union> (if x = a then {j} else {}))"
proof -
  obtain v where v: "varr_add (sl_junc (sl_nodes s ! a)) j = Some v" "varr_ok v" "v_items v = varr_list (sl_junc (sl_nodes s ! a)) @ [j]"
    using varr_add_law [OF sl_invD(13) [OF inv a]] by blast
  let ?h = "(sl_nodes s)[a := (sl_nodes s ! a)\<lparr>sl_junc := Some v\<rparr>]"
  have nth: "?h ! x = (if x = a then (sl_nodes s ! a)\<lparr>sl_junc := Some v\<rparr> else sl_nodes s ! x)" for x using a by (simp add: nth_list_update)
  have "sl_inv key ok (s\<lparr>sl_nodes := ?h\<rparr>) xs"
    using inv by (rule sl_inv_upd) (simp_all add: nth v(2) sl_invD(13) [OF inv] varr_ok0_def [of "Some v"])
  moreover have "juncs ?h x = juncs (sl_nodes s) x \<union> (if x = a then {j} else {})" for x
    by (simp add: juncs_def nth varr_list_def [of "Some v"] v(3))
  ultimately show ?thesis using v(1) by (simp add: sl_enter_def varr_junc_add_def nth)
qed

context bound_order
begin

text \<open>The node of a limit; \<open>a\<close> is the head or the tail, for a limit that is absent.\<close>

lemma limit_inv:
  assumes inv: "sl_inv key ok s xs" and b: "b_type b AND 0xF0 \<noteq> 0 \<Longrightarrow> ok b"
  shows "\<exists>s' node xs'. (if b_type b AND 0xF0 = 0 then Some (sl_ref s a, a) else sl_insert randmax r s b) = Some (s', node) \<and>
    sl_inv key ok s' xs' \<and> grown s xs s' xs' \<and>
    (if b_type b AND 0xF0 = 0 then node = a else node \<in> set xs' \<and> nkey key (sl_nodes s') node = key b)"
proof (cases "b_type b AND 0xF0 = 0")
  case True
  then show ?thesis using sl_ref_inv [OF inv, of a] grown_refl [OF sl_ext_ref, of s xs a]
    by (intro exI [of _ "sl_ref s a"] exI [of _ a] exI [of _ xs]) simp
next
  case False
  then show ?thesis using insert_inv [OF inv b [OF False], of randmax r] by (auto simp: grown_def)
qed

text \<open>The lists before and after, where the junction \<open>j\<close> has been entered at \<open>low\<close> and \<open>upp\<close>.\<close>

lemma match_after:
  assumes g: "grown s xs s' xs'" and inv: "sl_inv key ok s xs" and inv': "sl_inv key ok s' xs'"
    and t: "sl_head t = sl_head s'" "sl_tail t = sl_tail s'" "\<forall>x. sl_item (sl_nodes t ! x) = sl_item (sl_nodes s' ! x)"
    and j: "\<forall>x. juncs (sl_nodes t) x - {j} = juncs (sl_nodes s') x - {j}" and i: "i \<noteq> j"
  shows "i \<in> below key t xs' k \<longleftrightarrow> i \<in> below key s xs k" and "i \<in> above key t xs' k \<longleftrightarrow> i \<in> above key s xs k"
proof -
  have ext: "sl_ext s s'" "set xs \<subseteq> set xs'" "\<And>x. x \<in> set xs' \<Longrightarrow> x \<in> set xs \<or> length (sl_nodes s) \<le> x"
    using g by (auto simp: grown_def)
  have hd_tl: "sl_head s' = sl_head s" "sl_tail s' = sl_tail s" using ext(1) by (simp_all add: sl_ext_def)
  have J: "i \<in> juncs (sl_nodes t) x \<longleftrightarrow> x < length (sl_nodes s) \<and> i \<in> juncs (sl_nodes s) x"
    if "x \<in> set (sl_tail s' # sl_head s' # xs')" for x
    using sl_ext_juncs [OF ext(1) sl_invD(2) [OF inv' that]] j i by (metis DiffD1 DiffI empty_iff singletonD)
  have ends: "i \<in> juncs (sl_nodes t) (sl_head t) \<longleftrightarrow> i \<in> juncs (sl_nodes s) (sl_head s)"
      "i \<in> juncs (sl_nodes t) (sl_tail t) \<longleftrightarrow> i \<in> juncs (sl_nodes s) (sl_tail s)"
    using J sl_invD(2) [OF inv] by (simp_all add: t hd_tl)
  have old: "sl_item (sl_nodes t ! x) = sl_item (sl_nodes s ! x)" if "x \<in> set xs" for x
    using ext(1) t(3) sl_invD(2) [OF inv, of x] that by (simp add: sl_ext_def)
  have mid: "(\<exists>x \<in> set xs'. P (sl_item (sl_nodes t ! x)) \<and> i \<in> juncs (sl_nodes t) x) \<longleftrightarrow>
      (\<exists>x \<in> set xs. P (sl_item (sl_nodes s ! x)) \<and> i \<in> juncs (sl_nodes s) x)" for P
  proof
    assume "\<exists>x \<in> set xs'. P (sl_item (sl_nodes t ! x)) \<and> i \<in> juncs (sl_nodes t) x"
    then obtain x where x: "x \<in> set xs'" "P (sl_item (sl_nodes t ! x))" "i \<in> juncs (sl_nodes t) x" by blast
    then have "x < length (sl_nodes s)" "i \<in> juncs (sl_nodes s) x" using J [of x] by auto
    then show "\<exists>x \<in> set xs. P (sl_item (sl_nodes s ! x)) \<and> i \<in> juncs (sl_nodes s) x" using ext(3) [OF x(1)] x(2) old by force
  next
    assume "\<exists>x \<in> set xs. P (sl_item (sl_nodes s ! x)) \<and> i \<in> juncs (sl_nodes s) x"
    then obtain x where x: "x \<in> set xs" "P (sl_item (sl_nodes s ! x))" "i \<in> juncs (sl_nodes s) x" by blast
    then have "i \<in> juncs (sl_nodes t) x" using J [of x] ext(2) sl_invD(2) [OF inv, of x] by auto
    then show "\<exists>x \<in> set xs'. P (sl_item (sl_nodes t ! x)) \<and> i \<in> juncs (sl_nodes t) x" using x old ext(2) by force
  qed
  show "i \<in> below key t xs' k \<longleftrightarrow> i \<in> below key s xs k"
    using ends(1) mid [of "\<lambda>b. key (the b) \<le> k"] by (auto simp: below_def nkey_def)
  show "i \<in> above key t xs' k \<longleftrightarrow> i \<in> above key s xs k"
    using ends(2) mid [of "\<lambda>b. k < key (the b) \<or> k = key (the b) \<and> (\<exists>c. b = Some c \<and> b_type c AND EQ \<noteq> 0)"]
    by (simp add: above_def nkey_def closed_def) blast
qed

end

text \<open>Whether \<open>k\<close> is in the range: a lower limit is always taken as inclusive, an upper limit as the node
  of its value says.\<close>

definition inside :: "(boundary \<Rightarrow> 'k::linorder) \<Rightarrow> 'n slist \<Rightarrow> nat list \<Rightarrow> range \<Rightarrow> 'k \<Rightarrow> bool" where
  "inside key s xs rp k \<longleftrightarrow>
     (b_type (r_lower rp) AND 0xF0 = 0 \<or> key (r_lower rp) \<le> k) \<and>
     (b_type (r_upper rp) AND 0xF0 = 0 \<or> k < key (r_upper rp) \<or>
      k = key (r_upper rp) \<and> (\<exists>x \<in> set xs. nkey key (sl_nodes s) x = key (r_upper rp) \<and> closed (sl_nodes s) x))"

text \<open>\<open>x\<close> is the node of the limit \<open>b\<close>, \<open>a\<close> (the head or the tail) if the limit is absent.\<close>

definition limit_node :: "(boundary \<Rightarrow> 'k) \<Rightarrow> 'n slist \<Rightarrow> nat list \<Rightarrow> nat \<Rightarrow> boundary \<Rightarrow> nat \<Rightarrow> bool" where
  "limit_node key s xs a b x \<longleftrightarrow>
     (if b_type b AND 0xF0 = 0 then x = a else x \<in> set xs \<and> nkey key (sl_nodes s) x = key b)"

lemma strict_sorted_inj:
  assumes "sorted_wrt (\<lambda>x y. f x < (f y :: 'k :: order)) xs" and "x \<in> set xs" and "y \<in> set xs" and "f x = f y"
  shows "x = y"
proof -
  have "inj_on f (set xs)" using assms(1)
  proof (induction xs)
    case (Cons a xs)
    then have "f a \<notin> f ` set xs" by force
    then show ?case using Cons by (auto simp: inj_on_insert)
  qed simp
  then show ?thesis using assms(2-4) by (simp add: inj_on_def)
qed

lemma common_juncs:
  "varr_junc_common (sl_junc (h ! a)) (sl_junc (h ! b)) = Some jp \<Longrightarrow> jp \<in> juncs h a \<and> jp \<in> juncs h b"
  by (cases "sl_junc (h ! a)"; cases "sl_junc (h ! b)")
    (auto simp: varr_junc_common_def varr_first_common_def find_Some_iff juncs_def varr_list_def)

lemma limit_node_grown:
  assumes "grown s xs s' xs'" and "sl_inv key ok s xs" and "limit_node key s xs a b x"
  shows "limit_node key s' xs' a b x"
proof -
  have "nkey key (sl_nodes s') x = nkey key (sl_nodes s) x" if "x \<in> set xs"
    using assms(1) sl_invD(2) [OF assms(2), of x] that by (simp add: grown_def sl_ext_def nkey_def)
  then show ?thesis using assms by (auto simp: limit_node_def grown_def)
qed

context bound_order
begin

lemma entered_inside:
  assumes inv: "sl_inv key ok s xs" and low: "limit_node key s xs (sl_head s) (r_lower rp) low"
    and upp: "limit_node key s xs (sl_tail s) (r_upper rp) upp"
    and j: "jp \<in> juncs (sl_nodes s) low" "jp \<in> juncs (sl_nodes s) upp" and k: "inside key s xs rp k"
  shows "jp \<in> below key s xs k \<inter> above key s xs k"
proof
  show "jp \<in> below key s xs k" using low j(1) k by (auto simp: limit_node_def below_def inside_def split: if_splits)
  show "jp \<in> above key s xs k"
  proof (cases "b_type (r_upper rp) AND 0xF0 = 0")
    case True
    then show ?thesis using upp j(2) by (simp add: limit_node_def above_def)
  next
    case False
    have u: "upp \<in> set xs" "nkey key (sl_nodes s) upp = key (r_upper rp)" using upp False by (simp_all add: limit_node_def)
    have "closed (sl_nodes s) upp" if "x \<in> set xs" "nkey key (sl_nodes s) x = key (r_upper rp)" "closed (sl_nodes s) x" for x
      using strict_sorted_inj [OF sl_invD(11) [OF inv] that(1) u(1)] u(2) that(2,3) by simp
    then have "k < nkey key (sl_nodes s) upp \<or> k = nkey key (sl_nodes s) upp \<and> closed (sl_nodes s) upp"
      using k False by (auto simp: inside_def u(2))
    then show ?thesis using u(1) j(2) by (auto simp: above_def)
  qed
qed

lemma entered_only:
  assumes inv: "sl_inv key ok s xs" and low: "limit_node key s xs (sl_head s) (r_lower rp) low"
    and upp: "limit_node key s xs (sl_tail s) (r_upper rp) upp"
    and order: "b_type (r_lower rp) AND 0xF0 \<noteq> 0 \<Longrightarrow> b_type (r_upper rp) AND 0xF0 \<noteq> 0 \<Longrightarrow> key (r_lower rp) \<le> key (r_upper rp)"
    and only: "\<And>x. x \<in> set (sl_tail s # sl_head s # xs) \<Longrightarrow> j \<in> juncs (sl_nodes s) x \<Longrightarrow> x = low \<or> x = upp"
    and j: "j \<in> below key s xs k \<inter> above key s xs k"
  shows "inside key s xs rp k"
proof -
  let ?f = "nkey key (sl_nodes s)"
  note dist = sl_invD(1) [OF inv]
  obtain x1 where x1: "x1 = sl_head s \<or> x1 \<in> set xs \<and> ?f x1 \<le> k" "x1 = low \<or> x1 = upp"
    using j only by (force simp: below_def)
  obtain x2 where x2: "x2 = sl_tail s \<or> x2 \<in> set xs \<and> (k < ?f x2 \<or> k = ?f x2 \<and> closed (sl_nodes s) x2)" "x2 = low \<or> x2 = upp"
    using j only by (force simp: above_def)
  have "key (r_lower rp) \<le> k" if l: "b_type (r_lower rp) AND 0xF0 \<noteq> 0"
  proof -
    have "low \<in> set xs" "?f low = key (r_lower rp)" using low l by (simp_all add: limit_node_def)
    then show ?thesis using x1 upp dist order [OF l] by (auto simp: limit_node_def split: if_splits)
  qed
  moreover have "k < key (r_upper rp) \<or> k = key (r_upper rp) \<and> (\<exists>x \<in> set xs. ?f x = key (r_upper rp) \<and> closed (sl_nodes s) x)"
    if u: "b_type (r_upper rp) AND 0xF0 \<noteq> 0"
  proof -
    have "upp \<in> set xs" "?f upp = key (r_upper rp)" using upp u by (simp_all add: limit_node_def)
    then show ?thesis using x2 low dist order [OF _ u] by (auto simp: limit_node_def order.order_iff_strict split: if_splits)
  qed
  ultimately show ?thesis unfolding inside_def by blast
qed

lemma range_add_match:
  assumes inv: "sl_inv key ok s xs"
    and lim: "b_type (r_lower rp) AND 0xF0 \<noteq> 0 \<Longrightarrow> ok (r_lower rp)" "b_type (r_upper rp) AND 0xF0 \<noteq> 0 \<Longrightarrow> ok (r_upper rp)"
    and order: "b_type (r_lower rp) AND 0xF0 \<noteq> 0 \<Longrightarrow> b_type (r_upper rp) AND 0xF0 \<noteq> 0 \<Longrightarrow> key (r_lower rp) \<le> key (r_upper rp)"
    and fresh: "\<forall>x < length (sl_nodes s). j \<notin> juncs (sl_nodes s) x"
  shows "\<exists>s' jp xs'. sl_range_add randmax r1 r2 s rp j = Some (s', jp) \<and> sl_inv key ok s' xs' \<and>
    (\<forall>i k. i \<noteq> j \<longrightarrow> (i \<in> below key s' xs' k \<inter> above key s' xs' k \<longleftrightarrow> i \<in> below key s xs k \<inter> above key s xs k)) \<and>
    (\<forall>k. inside key s' xs' rp k \<longrightarrow> jp \<in> below key s' xs' k \<inter> above key s' xs' k) \<and>
    (\<forall>k. j \<in> below key s' xs' k \<inter> above key s' xs' k \<longrightarrow> jp = j \<and> inside key s' xs' rp k)"
proof -
  obtain s1 low xs1 where s1: "(if b_type (r_lower rp) AND 0xF0 = 0 then Some (sl_ref s (sl_head s), sl_head s)
      else sl_insert randmax r1 s (r_lower rp)) = Some (s1, low)" "sl_inv key ok s1 xs1" "grown s xs s1 xs1"
      "limit_node key s1 xs1 (sl_head s) (r_lower rp) low"
    using limit_inv [OF inv lim(1), of "sl_head s" randmax r1] unfolding limit_node_def by blast
  obtain s2 upp xs2 where s2: "(if b_type (r_upper rp) AND 0xF0 = 0 then Some (sl_ref s1 (sl_tail s1), sl_tail s1)
      else sl_insert randmax r2 s1 (r_upper rp)) = Some (s2, upp)" "sl_inv key ok s2 xs2" "grown s1 xs1 s2 xs2"
      "limit_node key s2 xs2 (sl_tail s1) (r_upper rp) upp"
    using limit_inv [OF s1(2) lim(2), of "sl_tail s1" randmax r2] unfolding limit_node_def by blast
  have g: "grown s xs s2 xs2" by (rule grown_trans [OF s1(3) s2(3)])
  have ends: "sl_head s1 = sl_head s" "sl_head s2 = sl_head s" "sl_tail s1 = sl_tail s" "sl_tail s2 = sl_tail s"
    using s1(3) g by (simp_all add: grown_def sl_ext_def)
  have low: "limit_node key s2 xs2 (sl_head s2) (r_lower rp) low"
    using limit_node_grown [OF s2(3) s1(2,4)] by (simp add: ends)
  have upp: "limit_node key s2 xs2 (sl_tail s2) (r_upper rp) upp" using s2(4) by (simp add: ends)
  have lt: "low < length (sl_nodes s2)" "upp < length (sl_nodes s2)"
    using low upp sl_invD(2) [OF s2(2)] by (auto simp: limit_node_def split: if_splits)
  have nj: "j \<notin> juncs (sl_nodes s2) x" if "x < length (sl_nodes s2)" for x
    using g fresh sl_ext_juncs [of s s2 x] that by (auto simp: grown_def)
  show ?thesis
  proof (cases "varr_junc_common (sl_junc (sl_nodes s2 ! low)) (sl_junc (sl_nodes s2 ! upp))")
    case (Some jp)
    then have jp: "jp \<in> juncs (sl_nodes s2) low" "jp \<in> juncs (sl_nodes s2) upp" using common_juncs [of "sl_nodes s2" low upp jp] by simp_all
    have "sl_range_add randmax r1 r2 s rp j = Some (s2, jp)"
      unfolding sl_range_add_def using s1(1) s2(1) Some by simp
    moreover have "j \<notin> below key s2 xs2 k \<inter> above key s2 xs2 k" for k
      using nj sl_invD(2) [OF s2(2)] by (auto simp: below_def)
    moreover have "i \<in> below key s2 xs2 k \<inter> above key s2 xs2 k \<longleftrightarrow> i \<in> below key s xs k \<inter> above key s xs k" if "i \<noteq> j" for i k
      using match_after [OF g inv s2(2), of s2 j] that by simp
    ultimately show ?thesis using s2(2) entered_inside [OF s2(2) low upp jp] by blast
  next
    case None
    obtain s3 where s3: "sl_enter s2 low j = Some s3" "sl_inv key ok s3 xs2" "sl_head s3 = sl_head s2" "sl_tail s3 = sl_tail s2"
        "length (sl_nodes s3) = length (sl_nodes s2)" "\<And>x. sl_item (sl_nodes s3 ! x) = sl_item (sl_nodes s2 ! x)"
        "\<And>x. juncs (sl_nodes s3) x = juncs (sl_nodes s2) x \<union> (if x = low then {j} else {})"
      using enter_inv [OF s2(2) lt(1), of j] by blast
    obtain t where t: "sl_enter s3 upp j = Some t" "sl_inv key ok t xs2" "sl_head t = sl_head s3" "sl_tail t = sl_tail s3"
        "length (sl_nodes t) = length (sl_nodes s3)" "\<And>x. sl_item (sl_nodes t ! x) = sl_item (sl_nodes s3 ! x)"
        "\<And>x. juncs (sl_nodes t) x = juncs (sl_nodes s3) x \<union> (if x = upp then {j} else {})"
      using enter_inv [OF s3(2), of upp j] lt(2) s3(5) by auto
    have f: "nkey key (sl_nodes t) = nkey key (sl_nodes s2)" by (simp add: nkey_def fun_eq_iff t(6) s3(6))
    have low': "limit_node key t xs2 (sl_head t) (r_lower rp) low" and upp': "limit_node key t xs2 (sl_tail t) (r_upper rp) upp"
      using low upp by (simp_all add: limit_node_def f t(3,4) s3(3,4))
    have only: "x = low \<or> x = upp" if "x \<in> set (sl_tail t # sl_head t # xs2)" "j \<in> juncs (sl_nodes t) x" for x
      using that nj sl_invD(2) [OF t(2) that(1)] by (auto simp: t(5,7) s3(5,7) split: if_splits)
    have "sl_range_add randmax r1 r2 s rp j = Some (t, j)"
      unfolding sl_range_add_def using s1(1) s2(1) None s3(1) t(1) by simp
    moreover have "i \<in> below key t xs2 k \<inter> above key t xs2 k \<longleftrightarrow> i \<in> below key s xs k \<inter> above key s xs k" if "i \<noteq> j" for i k
      using match_after [OF g inv s2(2), of t j] that by (simp add: t(3,4,6,7) s3(3,4,6,7))
    moreover have "j \<in> below key t xs2 k \<inter> above key t xs2 k" if "inside key t xs2 rp k" for k
      using entered_inside [OF t(2) low' upp' _ _ that] by (simp add: t(7) s3(7))
    moreover have "inside key t xs2 rp k" if "j \<in> below key t xs2 k \<inter> above key t xs2 k" for k
      using entered_only [OF t(2) low' upp' order only that] .
    ultimately show ?thesis using t(2) by blast
  qed
qed

end

subsection \<open>Numbers, times and strings\<close>

text \<open>The limits of a list of one kind: numbers (and times) for which the difference fits an \<^verbatim>\<open>int\<close>, and
  strings. For dates \<open>boundary_xcmp\<close> is no order: the type code of a date is 0, so equal dates
  whose limits are of different kinds compare as larger; and for IPv4 addresses it is the sign of a
  difference that wraps around.\<close>

definition num_ok :: "nat \<Rightarrow> boundary \<Rightarrow> bool" where
  "num_ok t b \<longleftrightarrow> b_type b AND 0x07 = t \<and> t \<in> {SPOC_NUMERIC, SPOC_TIME} \<and> 0 \<le> b_num b \<and> b_num b < 2 ^ 31"

definition alpha_ok :: "boundary \<Rightarrow> bool" where
  "alpha_ok b \<longleftrightarrow> b_type b AND 0x07 = SPOC_ALPHA \<and> wf_octet (b_val b)"

definition alpha_key :: "boundary \<Rightarrow> char list" where
  "alpha_key b = content (b_val b)"

lemma types_meet:
  fixes x y t :: nat
  assumes "x AND 7 = t" and "y AND 7 = t" and "t \<noteq> 0"
  shows "x AND y \<noteq> 0"
proof
  assume "x AND y = 0"
  then have "(x AND 7) AND (y AND 7) = 0" by (metis and.assoc and.commute and.left_commute and_zero_eq)
  then show False using assms by simp
qed

lemma i32_small_diff: "0 \<le> a \<Longrightarrow> a < 2 ^ 31 \<Longrightarrow> 0 \<le> b \<Longrightarrow> b < 2 ^ 31 \<Longrightarrow> i32 (a - b) = a - b"
  unfolding i32_def by (intro signed_take_bit_int_eq_self) simp_all

interpretation num: bound_order b_num "num_ok t" for t
proof
  fix a b assume ab: "num_ok t a" "num_ok t b"
  then have "b_type a AND b_type b \<noteq> 0" by (intro types_meet [of _ t]) (auto simp: num_ok_def type_codes)
  then show "\<exists>v. boundary_xcmp (Some a) (Some b) = Some v \<and> (v < 0 \<longleftrightarrow> b_num a < b_num b) \<and> (v = 0 \<longleftrightarrow> b_num a = b_num b)"
    using ab by (auto simp: boundary_xcmp_def xcmp_value_def num_ok_def i32_small_diff type_codes Let_def)
qed

lemma less_bytes: "(p :: bytes) < q \<longleftrightarrow> (p, q) \<in> lexord byte_order"
  by (simp add: list_less_def byte_order_def less_char_def)

interpretation alpha: bound_order alpha_key alpha_ok
proof
  fix a b assume ab: "alpha_ok a" "alpha_ok b"
  then have meet: "b_type a AND b_type b \<noteq> 0" by (intro types_meet [of _ SPOC_ALPHA]) (auto simp: alpha_ok_def type_codes)
  have t: "b_type b AND 7 = SPOC_ALPHA" and wf: "wf_octet (b_val a)" "wf_octet (b_val b)" using ab by (simp_all add: alpha_ok_def)
  obtain r where r: "octcmp (Some (b_val a)) (Some (b_val b)) = Some r" "r = 0 \<longleftrightarrow> alpha_key a = alpha_key b"
      "r < 0 \<longleftrightarrow> alpha_key a < alpha_key b"
    using octcmp_lex [OF wf] by (auto simp: alpha_key_def less_bytes)
  have empty: "oct_len (b_val c) = 0 \<longleftrightarrow> alpha_key c = []" if "wf_octet (b_val c)" for c
    using that by (metis alpha_key_def length_0_conv length_content)
  have nil: "[] < q \<longleftrightarrow> q \<noteq> []" for q :: bytes by (cases q) (auto simp: less_bytes)
  show "\<exists>v. boundary_xcmp (Some a) (Some b) = Some v \<and> (v < 0 \<longleftrightarrow> alpha_key a < alpha_key b) \<and> (v = 0 \<longleftrightarrow> alpha_key a = alpha_key b)"
    using meet t r empty [OF wf(1)] empty [OF wf(2)] nil [of "alpha_key b"]
    by (auto simp: boundary_xcmp_def xcmp_value_def Let_def)
qed

subsection \<open>Properties\<close>

text \<open>C35: what adding a numeric range does to the matches of every number, for limits and numbers from 0 to
  \<open>2147483647\<close>. The invariant of the skip list is kept, and afterwards a match gives exactly the junctions it gave
  before and, when the range has been given a new junction, that one for the numbers inside. A range whose limits
  have a junction in common already is given this one instead, and no match changes. Inside means above or at the
  lower limit, whatever its type is, and below the upper limit, or at it when the boundary that is kept for its
  value is an inclusive one; a limit that is absent does not count.\<close>

theorem sl_range_add_match:
  assumes "sl_inv b_num (num_ok t) s xs" and "num_ok t item"
    and "b_type (r_lower rp) AND 0xF0 \<noteq> 0 \<Longrightarrow> num_ok t (r_lower rp)"
    and "b_type (r_upper rp) AND 0xF0 \<noteq> 0 \<Longrightarrow> num_ok t (r_upper rp)"
    and "b_type (r_lower rp) AND 0xF0 \<noteq> 0 \<Longrightarrow> b_type (r_upper rp) AND 0xF0 \<noteq> 0 \<Longrightarrow> b_num (r_lower rp) \<le> b_num (r_upper rp)"
    and "\<forall>x < length (sl_nodes s). j \<notin> juncs (sl_nodes s) x"
  shows "\<exists>s' jp xs' r r'. sl_range_add randmax r1 r2 s rp j = Some (s', jp) \<and> sl_inv b_num (num_ok t) s' xs' \<and>
    sl_match (Some s) item = Some r \<and> sl_match (Some s') item = Some r' \<and>
    set (varr_list r') = set (varr_list r) \<union> (if jp = j \<and> inside b_num s' xs' rp (b_num item) then {j} else {}) \<and>
    (inside b_num s' xs' rp (b_num item) \<longrightarrow> jp \<in> set (varr_list r'))"
proof -
  obtain s' jp xs' where s': "sl_range_add randmax r1 r2 s rp j = Some (s', jp)" "sl_inv b_num (num_ok t) s' xs'"
    "\<forall>i k. i \<noteq> j \<longrightarrow> (i \<in> below b_num s' xs' k \<inter> above b_num s' xs' k \<longleftrightarrow> i \<in> below b_num s xs k \<inter> above b_num s xs k)"
    "\<forall>k. inside b_num s' xs' rp k \<longrightarrow> jp \<in> below b_num s' xs' k \<inter> above b_num s' xs' k"
    "\<forall>k. j \<in> below b_num s' xs' k \<inter> above b_num s' xs' k \<longrightarrow> jp = j \<and> inside b_num s' xs' rp k"
    using num.range_add_match [OF assms(1,3-6), of randmax r1 r2] by blast
  obtain r r' where r: "sl_match (Some s) item = Some r" "set (varr_list r) = below b_num s xs (b_num item) \<inter> above b_num s xs (b_num item)"
    "sl_match (Some s') item = Some r'" "set (varr_list r') = below b_num s' xs' (b_num item) \<inter> above b_num s' xs' (b_num item)"
    using num.match_sets [OF assms(1,2)] num.match_sets [OF s'(2) assms(2)] by blast
  moreover have "j \<notin> below b_num s xs (b_num item)" using assms(6) sl_invD(2) [OF assms(1)] by (auto simp: below_def)
  ultimately have "i \<in> set (varr_list r') \<longleftrightarrow> i \<in> set (varr_list r) \<or> i = j \<and> jp = j \<and> inside b_num s' xs' rp (b_num item)" for i
    using s'(3,4,5) by (cases "i = j") (simp_all, blast)
  then have "set (varr_list r') = set (varr_list r) \<union> (if jp = j \<and> inside b_num s' xs' rp (b_num item) then {j} else {})" by auto
  moreover have "inside b_num s' xs' rp (b_num item) \<longrightarrow> jp \<in> set (varr_list r')" using s'(4) r(4) by simp
  ultimately show ?thesis using s'(1,2) r(1,3) by blast
qed

text \<open>The range of the numbers above 5 in an empty list: it is found for the number 5.\<close>

theorem sl_range_add_match_witness:
  "\<exists>s' r'. sl_range_add 2147483647 0 0 (sl_init 4)
       \<lparr>r_lower = \<lparr>b_type = SPOC_NUMERIC OR GT, b_num = 5, b_v4 = 0, b_val = null_octet\<rparr>, r_upper = new_boundary SPOC_NUMERIC\<rparr> (7::nat) = Some (s', 7) \<and>
     sl_match (Some s') \<lparr>b_type = SPOC_NUMERIC OR EQ, b_num = 5, b_v4 = 0, b_val = null_octet\<rparr> = Some r' \<and> 7 \<in> set (varr_list r')"
proof -
  let ?lo = "\<lparr>b_type = SPOC_NUMERIC OR GT, b_num = 5, b_v4 = 0, b_val = null_octet\<rparr>"
  let ?rp = "\<lparr>r_lower = ?lo, r_upper = new_boundary SPOC_NUMERIC\<rparr>"
  let ?it = "\<lparr>b_type = SPOC_NUMERIC OR EQ, b_num = 5, b_v4 = 0, b_val = null_octet\<rparr>"
  have ok: "num_ok SPOC_NUMERIC ?lo" "num_ok SPOC_NUMERIC ?it" by (simp_all add: num_ok_def type_codes)
  have none: "juncs (sl_nodes (sl_init 4)) x = ({} :: nat set)" if "x < length (sl_nodes (sl_init 4 :: nat slist))" for x
    using that by (auto simp: sl_init_def juncs_def sl_new_def varr_list_def less_Suc_eq)
  obtain r0 where r0: "sl_match (Some (sl_init 4 :: nat slist)) ?it = Some r0" "set (varr_list r0) = {}"
  proof -
    have "below b_num (sl_init 4 :: nat slist) [] (b_num ?it) = {}" using none [of 1] by (simp add: below_def sl_init_def)
    then show ?thesis using num.match_sets [OF sl_init_inv [of 4] ok(2), where 'a = nat] that by auto
  qed
  have absent: "b_type (r_upper ?rp) AND 0xF0 = 0" by (simp add: new_boundary_def type_codes)
  have "\<exists>s' jp xs' r r'. sl_range_add 2147483647 0 0 (sl_init 4) ?rp (7::nat) = Some (s', jp) \<and> sl_inv b_num (num_ok SPOC_NUMERIC) s' xs' \<and>
      sl_match (Some (sl_init 4)) ?it = Some r \<and> sl_match (Some s') ?it = Some r' \<and>
      set (varr_list r') = set (varr_list r) \<union> (if jp = 7 \<and> inside b_num s' xs' ?rp (b_num ?it) then {7} else {}) \<and>
      (inside b_num s' xs' ?rp (b_num ?it) \<longrightarrow> jp \<in> set (varr_list r'))"
    by (rule sl_range_add_match [OF sl_init_inv [of 4] ok(2)]) (use none ok(1) absent in simp_all)
  moreover have "inside b_num s' xs' ?rp (b_num ?it)" for s' :: "nat slist" and xs' using absent by (simp add: inside_def)
  ultimately show ?thesis using r0 by (auto split: if_splits)
qed

text \<open>A range of one number shares both limits with every range that begins there: \<open>0..0\<close> added after \<open>0..5\<close> gets the
  junction of \<open>0..5\<close>, and with it the number 3.\<close>

definition shared_list :: "nat slist" where
  "shared_list = \<lparr>sl_nodes =
      [\<lparr>sl_item = None, sl_refc = 0, sl_next = [], sl_junc = None\<rparr>,
       \<lparr>sl_item = None, sl_refc = 0, sl_next = [2, 0, 0, 0, 0], sl_junc = None\<rparr>,
       \<lparr>sl_item = Some \<lparr>b_type = SPOC_NUMERIC OR GT OR EQ, b_num = 0, b_v4 = 0, b_val = null_octet\<rparr>,
          sl_refc = 1, sl_next = [3], sl_junc = Some \<lparr>v_items = [7], v_size = 4\<rparr>\<rparr>,
       \<lparr>sl_item = Some \<lparr>b_type = SPOC_NUMERIC OR LT OR EQ, b_num = 5, b_v4 = 0, b_val = null_octet\<rparr>,
          sl_refc = 1, sl_next = [0], sl_junc = Some \<lparr>v_items = [7], v_size = 4\<rparr>\<rparr>],
      sl_head = 1, sl_tail = 0, sl_lgn = 1, sl_lgnmax = 4\<rparr>"

lemmas sl_eval = sl_range_add_def sl_insert_def sl_find_def sl_init_def sl_new_def sl_rec_find.simps sl_rec_insert.simps
  boundary_xcmp_def xcmp_value_def type_codes sl_sz_def next_at_def set_next_def sl_rand_def Let_def sl_ref_def
  sl_enter_def varr_junc_common_def varr_first_common_def varr_junc_add_def varr_add_def varr_new_def

lemma sl_range_add_first:
  "sl_range_add 7 7 7 (sl_init 4)
      \<lparr>r_lower = \<lparr>b_type = SPOC_NUMERIC OR GT OR EQ, b_num = 0, b_v4 = 0, b_val = null_octet\<rparr>,
       r_upper = \<lparr>b_type = SPOC_NUMERIC OR LT OR EQ, b_num = 5, b_v4 = 0, b_val = null_octet\<rparr>\<rparr> 7 = Some (shared_list, 7)"
proof -
  have "sl_rand_loop 7 7 3 (Suc 0) 2 = Suc 0" by (simp add: numeral_3_eq_3 drop_bit_eq_div)
  moreover have "i32 0 = 0" "i32 5 = 5" "i32 (- 5) = - 5" by (simp_all add: i32_def)
  moreover have "replicate 5 (0::nat) = [0, 0, 0, 0, 0]" by (simp add: eval_nat_numeral)
  ultimately show ?thesis by (simp add: sl_eval shared_list_def)
qed

lemma sl_range_add_shares:
  "map_option snd (sl_range_add 7 7 7 shared_list
      \<lparr>r_lower = \<lparr>b_type = SPOC_NUMERIC OR GT OR EQ, b_num = 0, b_v4 = 0, b_val = null_octet\<rparr>,
       r_upper = \<lparr>b_type = SPOC_NUMERIC OR LT OR EQ, b_num = 0, b_v4 = 0, b_val = null_octet\<rparr>\<rparr> 8) = Some 7"
proof -
  have "i32 0 = 0" "i32 5 = 5" "i32 (- 5) = - 5" by (simp_all add: i32_def)
  then show ?thesis by (simp add: sl_eval shared_list_def)
qed

text \<open>Removing a boundary from a skip list follows a null pointer, whatever the list and the boundary are: the
  search starts at a level where the head is linked to the tail, and the tail has no boundary to compare.\<close>

theorem sl_delete_faults:
  assumes "sl_inv key ok s xs"
  shows "sl_delete s item = None"
proof -
  have "level (sl_nodes s) (sl_lgn s) xs = []" using sl_invD(9) [OF assms] by (auto simp: level_def filter_empty_conv not_less)
  then have "next_at (sl_nodes s) (sl_head s) (sl_lgn s) = Some (sl_tail s)"
    using sl_invD(12) [OF assms sl_invD(7) [OF assms]] by simp
  then show ?thesis using sl_invD(4) [OF assms]
    by (subst sl_delete_def, subst sl_rec_delete.simps) (simp add: boundary_xcmp_def)
qed

theorem sl_delete_faults_witness:
  "sl_delete (sl_init 4 :: nat slist) \<lparr>b_type = SPOC_NUMERIC OR GT, b_num = 5, b_v4 = 0, b_val = null_octet\<rparr> = None"
  using sl_delete_faults [OF sl_init_inv [of 4 b_num "num_ok SPOC_NUMERIC"]] by simp

end
