(* ===== verification/Resset.thy ===== *)
theory Resset
  imports Octarr
begin

text \<open>
  Rule indexes (\<open>lib/index.c\<close>), the arrays of rule instances at the leaves of the rule
  tree, and the result sets of a query (\<open>lib/resset.c\<close>). A rule instance is a pointer; the
  model compares rule instances for equality only, so they are a type variable \<open>'r\<close>.

  A \<^verbatim>\<open>resset_t\<close> chain is the list of its nodes, the null pointer is the empty list.
\<close>

record 'r spocp_index =
  si_arr :: "'r list"
  si_size :: nat

definition index_new :: "nat \<Rightarrow> 'r spocp_index" where
  "index_new sz = \<lparr>si_arr = [], si_size = sz\<rparr>"

definition index_add :: "'r spocp_index option \<Rightarrow> 'r option \<Rightarrow> 'r spocp_index option option" where
  "index_add sid ri = (case ri of None \<Rightarrow> Some sid
     | Some r \<Rightarrow>
        let a = (case sid of None \<Rightarrow> index_new 2 | Some a \<Rightarrow> a);
            b = (if length (si_arr a) = si_size a then a\<lparr>si_size := si_size a * 2\<rparr> else a)
        in if length (si_arr b) < si_size b then Some (Some (b\<lparr>si_arr := si_arr b @ [r]\<rparr>)) else None)"

text \<open>The loop of \<open>index_rm\<close> at position \<^verbatim>\<open>i\<close>. A removal shifts the rest one slot to the left and
  \<^verbatim>\<open>i\<close> moves on. The result has the slots, and the final \<^verbatim>\<open>i\<close> for the test at the end.\<close>

function index_rm_loop :: "'r list \<Rightarrow> 'r \<Rightarrow> nat \<Rightarrow> 'r list \<times> nat" where
  "index_rm_loop arr ri i =
     (if i < length arr then
        (if arr ! i = ri then index_rm_loop (take i arr @ drop (Suc i) arr) ri (Suc i)
         else index_rm_loop arr ri (Suc i))
      else (arr, i))"
  by pat_completeness auto
termination
  by (relation "measure (\<lambda>(arr, ri, i). length arr - i)") auto

declare index_rm_loop.simps [simp del]

definition index_rm :: "'r spocp_index \<Rightarrow> 'r \<Rightarrow> bool \<times> 'r spocp_index" where
  "index_rm sid ri = (case index_rm_loop (si_arr sid) ri 0 of
     (arr, i) \<Rightarrow> (i \<noteq> length arr, sid\<lparr>si_arr := arr\<rparr>))"

definition index_and_items :: "'r list \<Rightarrow> 'r list \<Rightarrow> 'r list" where
  "index_and_items xs ys = concat (map (\<lambda>x. filter (\<lambda>y. x = y) ys) xs)"

definition index_and :: "'r spocp_index option \<Rightarrow> 'r spocp_index option \<Rightarrow> 'r spocp_index option option" where
  "index_and a b = (case (a, b) of
      (Some a, Some b) \<Rightarrow>
        (let res = index_and_items (si_arr a) (si_arr b);
             sz = max (length (si_arr a)) (length (si_arr b))
         in if length res > sz then None
            else if res = [] then Some None
            else Some (Some \<lparr>si_arr = res, si_size = sz\<rparr>))
    | _ \<Rightarrow> Some None)"

fun index_extend_loop :: "'r spocp_index \<Rightarrow> 'r list \<Rightarrow> 'r spocp_index option" where
  "index_extend_loop a [] = Some a"
| "index_extend_loop a (r # rs) =
     (if r \<in> set (si_arr a) then index_extend_loop a rs
      else (case index_add (Some a) (Some r) of
              Some (Some a') \<Rightarrow> index_extend_loop a' rs
            | _ \<Rightarrow> None))"

definition index_extend :: "'r spocp_index \<Rightarrow> 'r spocp_index \<Rightarrow> 'r spocp_index option" where
  "index_extend a b = index_extend_loop a (si_arr b)"

definition index_cp :: "'r spocp_index \<Rightarrow> 'r spocp_index" where
  "index_cp si = \<lparr>si_arr = si_arr si, si_size = si_size si\<rparr>"

subsection \<open>Result sets\<close>

record 'r resnode =
  rs_si :: "'r spocp_index option"
  rs_blob :: "octarr option"

type_synonym 'r resset = "'r resnode list"

definition resset_new :: "'r spocp_index \<Rightarrow> octarr option \<Rightarrow> 'r resnode" where
  "resset_new t blob = \<lparr>rs_si = Some (index_cp t), rs_blob = blob\<rparr>"

definition resset_add :: "'r resset \<Rightarrow> 'r spocp_index \<Rightarrow> octarr option \<Rightarrow> 'r resset" where
  "resset_add rs t blob = rs @ [resset_new t blob]"

definition resset_join :: "'r resset \<Rightarrow> 'r resset \<Rightarrow> 'r resset" where
  "resset_join a b = a @ b"

text \<open>\<open>resset_compact\<close> extends the index of the first node by those of the others; it follows the
  index pointers without testing them.\<close>

fun resset_compact_loop :: "'r spocp_index \<Rightarrow> 'r resset \<Rightarrow> 'r spocp_index option" where
  "resset_compact_loop si [] = Some si"
| "resset_compact_loop si (h # hs) =
     (case rs_si h of None \<Rightarrow> None
      | Some t \<Rightarrow> (case index_extend si t of None \<Rightarrow> None | Some si' \<Rightarrow> resset_compact_loop si' hs))"

definition resset_compact :: "'r resset \<Rightarrow> 'r resset option" where
  "resset_compact r = (case r of [] \<Rightarrow> Some []
     | h # hs \<Rightarrow>
        if hs = [] then Some [h]
        else (case rs_si h of None \<Rightarrow> None
              | Some si \<Rightarrow> map_option (\<lambda>si'. [h\<lparr>rs_si := Some si'\<rparr>]) (resset_compact_loop si hs)))"

definition resset_and :: "'r resset \<Rightarrow> 'r resset \<Rightarrow> 'r resset option" where
  "resset_and a b =
     (if a = [] \<or> b = [] then Some []
      else do {
        ca \<leftarrow> resset_compact a;
        cb \<leftarrow> resset_compact b;
        si \<leftarrow> index_and (rs_si (hd ca)) (rs_si (hd cb));
        Some [(hd ca)\<lparr>rs_si := si\<rparr>] })"

subsection \<open>Query results\<close>

record 'r qresult =
  q_rc :: spocp_result
  q_part :: "'r resset"

definition qresult_add :: "'r qresult list \<Rightarrow> spocp_result \<Rightarrow> 'r resset \<Rightarrow> 'r qresult list" where
  "qresult_add res rc rs = res @ [\<lparr>q_rc = rc, q_part = rs\<rparr>]"

text \<open>\<open>qresult_join\<close> returns the pointer with which it has walked to the end of the first list.\<close>

definition qresult_join :: "'r qresult list \<Rightarrow> 'r qresult list \<Rightarrow> 'r qresult list" where
  "qresult_join a b = (if a = [] then b else last a # b)"

subsection \<open>The array interface\<close>

definition index_ok :: "'r spocp_index \<Rightarrow> bool" where
  "index_ok a \<longleftrightarrow> length (si_arr a) \<le> si_size a \<and> 0 < si_size a"

lemma index_add_Some:
  assumes "index_ok a"
  obtains a' where "index_add (Some a) (Some v) = Some (Some a')" and "index_ok a'"
    and "si_arr a' = si_arr a @ [v]"
proof (cases "length (si_arr a) = si_size a")
  case True
  show ?thesis
    by (rule that [of "a\<lparr>si_arr := si_arr a @ [v], si_size := si_size a * 2\<rparr>"])
      (use True assms in \<open>simp_all add: index_add_def index_ok_def\<close>)
next
  case False
  show ?thesis
    by (rule that [of "a\<lparr>si_arr := si_arr a @ [v]\<rparr>"])
      (use False assms in \<open>simp_all add: index_add_def index_ok_def\<close>)
qed

interpretation si: growable "\<lambda>r v. Option.bind (index_add (Some r) (Some v)) (\<lambda>x. x)" si_arr index_ok
proof
  fix r :: "'r spocp_index" and v
  assume "index_ok r"
  then show "\<exists>r'. Option.bind (index_add (Some r) (Some v)) (\<lambda>x. x) = Some r' \<and> index_ok r' \<and>
      si_arr r' = si_arr r @ [v]"
    by (rule index_add_Some [where v = v]) auto
qed

lemma index_add_first: "index_add None (Some v) = Some (Some \<lparr>si_arr = [v], si_size = 2\<rparr>)"
  by (simp add: index_add_def index_new_def)

subsection \<open>Union and intersection\<close>

lemma index_extend_loop_union:
  "index_ok a \<Longrightarrow> distinct (si_arr a) \<Longrightarrow>
   \<exists>r. index_extend_loop a rs = Some r \<and> index_ok r \<and> distinct (si_arr r) \<and>
     set (si_arr r) = set (si_arr a) \<union> set rs"
proof (induction rs arbitrary: a)
  case (Cons v rs)
  show ?case
  proof (cases "v \<in> set (si_arr a)")
    case True
    then show ?thesis using Cons.IH [OF Cons.prems] by auto
  next
    case False
    obtain a' where a': "index_add (Some a) (Some v) = Some (Some a')" "index_ok a'" "si_arr a' = si_arr a @ [v]"
      using Cons.prems(1) by (rule index_add_Some)
    then show ?thesis using False Cons.IH [of a'] Cons.prems(2) by auto
  qed
qed simp

lemma index_extend_union:
  assumes "index_ok a" and "distinct (si_arr a)"
  shows "\<exists>r. index_extend a b = Some r \<and> index_ok r \<and> distinct (si_arr r) \<and>
    set (si_arr r) = set (si_arr a) \<union> set (si_arr b)"
  using index_extend_loop_union [OF assms] by (simp add: index_extend_def)

lemma index_and_items_distinct:
  assumes "distinct ys"
  shows "index_and_items xs ys = filter (\<lambda>x. x \<in> set ys) xs"
proof -
  have one: "filter (\<lambda>y. x = y) ys = (if x \<in> set ys then [x] else [])" for x
    using assms by (induction ys) auto
  show ?thesis by (induction xs) (simp_all add: index_and_items_def one)
qed

lemma index_and_Some:
  assumes "distinct (si_arr b)"
  shows "index_and (Some a) (Some b) =
    (let f = filter (\<lambda>x. x \<in> set (si_arr b)) (si_arr a)
     in if f = [] then Some None
        else Some (Some \<lparr>si_arr = f, si_size = max (length (si_arr a)) (length (si_arr b))\<rparr>))"
proof -
  define f where "f = filter (\<lambda>x. x \<in> set (si_arr b)) (si_arr a)"
  have "length f \<le> length (si_arr a)" unfolding f_def by (rule length_filter_le)
  then have "\<not> max (length (si_arr a)) (length (si_arr b)) < length f" by simp
  moreover have "index_and_items (si_arr a) (si_arr b) = f"
    unfolding f_def by (rule index_and_items_distinct [OF assms])
  ultimately show ?thesis by (auto simp: index_and_def f_def [symmetric] Let_def)
qed

text \<open>The rules a result set holds.\<close>

definition res_rules :: "'r resset \<Rightarrow> 'r set" where
  "res_rules rs = (\<Union>n \<in> set rs. case rs_si n of None \<Rightarrow> {} | Some si \<Rightarrow> set (si_arr si))"

definition res_ok :: "'r resset \<Rightarrow> bool" where
  "res_ok rs \<longleftrightarrow> (\<forall>n \<in> set rs. \<exists>si. rs_si n = Some si \<and> index_ok si \<and> distinct (si_arr si))"

lemma res_rules_simps [simp]:
  "res_rules [] = {}"
  "res_rules (a @ b) = res_rules a \<union> res_rules b"
  "res_rules (resset_join a b) = res_rules a \<union> res_rules b"
  "res_rules (resset_add rs t blob) = res_rules rs \<union> set (si_arr t)"
  by (auto simp: res_rules_def resset_join_def resset_add_def resset_new_def index_cp_def)

lemma resset_compact_loop_union:
  "index_ok si \<Longrightarrow> distinct (si_arr si) \<Longrightarrow> res_ok hs \<Longrightarrow>
   \<exists>r. resset_compact_loop si hs = Some r \<and> index_ok r \<and> distinct (si_arr r) \<and>
     set (si_arr r) = set (si_arr si) \<union> res_rules hs"
proof (induction hs arbitrary: si)
  case (Cons h hs)
  obtain t where t: "rs_si h = Some t" using Cons.prems(3) by (auto simp: res_ok_def)
  obtain s where s: "index_extend si t = Some s" "index_ok s" "distinct (si_arr s)"
    "set (si_arr s) = set (si_arr si) \<union> set (si_arr t)"
    using index_extend_union [OF Cons.prems(1,2)] by blast
  have "res_ok hs" using Cons.prems(3) by (simp add: res_ok_def)
  from Cons.IH [OF s(2,3) this] s show ?case
    by (auto simp: t res_rules_def)
qed simp

lemma resset_compact_union:
  assumes "res_ok x" and "x \<noteq> []"
  shows "\<exists>n si. resset_compact x = Some [n] \<and> rs_si n = Some si \<and> distinct (si_arr si) \<and>
      set (si_arr si) = res_rules x"
proof -
  obtain h hs where x: "x = h # hs" using assms(2) by (cases x) auto
  have "\<exists>si. rs_si h = Some si \<and> index_ok si \<and> distinct (si_arr si)" and ok: "res_ok hs"
    using assms(1) by (simp_all add: x res_ok_def)
  then obtain si where si: "rs_si h = Some si" "index_ok si" "distinct (si_arr si)" by blast
  from resset_compact_loop_union [OF si(2,3) ok]
  obtain r where r: "resset_compact_loop si hs = Some r" "distinct (si_arr r)"
    "set (si_arr r) = set (si_arr si) \<union> res_rules hs" by blast
  show ?thesis
  proof (cases "hs = []")
    case True
    then show ?thesis using si by (simp add: x resset_compact_def res_rules_def)
  next
    case False
    have "resset_compact x = Some [h\<lparr>rs_si := Some r\<rparr>]" using False si(1) r(1) by (simp add: x resset_compact_def)
    moreover have "set (si_arr r) = res_rules x" using r(3) si(1) by (simp add: x res_rules_def)
    ultimately show ?thesis using r(2) by (intro exI [of _ "h\<lparr>rs_si := Some r\<rparr>"] exI [of _ r]) simp
  qed
qed

text \<open>\<open>resset_and\<close> of two result sets whose indexes are in order first collapses each to one
  node and then keeps the rules that both hold.\<close>

theorem resset_and_inter:
  assumes "res_ok a" and "res_ok b" and "a \<noteq> []" and "b \<noteq> []"
  shows "\<exists>r. resset_and a b = Some r \<and> length r = 1 \<and> res_rules r = res_rules a \<inter> res_rules b"
proof -
  obtain na sa where A: "resset_compact a = Some [na]" "rs_si na = Some sa" "distinct (si_arr sa)"
    "set (si_arr sa) = res_rules a" using resset_compact_union [OF assms(1,3)] by blast
  obtain nb sb where B: "resset_compact b = Some [nb]" "rs_si nb = Some sb" "distinct (si_arr sb)"
    "set (si_arr sb) = res_rules b" using resset_compact_union [OF assms(2,4)] by blast
  show ?thesis
    using assms(3,4) A B
    by (auto simp: resset_and_def res_rules_def [of "[_]"] index_and_Some [OF B(3)] Let_def filter_empty_conv)
qed

theorem resset_and_inter_witness:
  "\<exists>r. resset_and [resset_new \<lparr>si_arr = [1::nat], si_size = 2\<rparr> None, resset_new \<lparr>si_arr = [2], si_size = 2\<rparr> None]
      [resset_new \<lparr>si_arr = [2, 3], si_size = 2\<rparr> None] = Some r \<and> length r = 1 \<and> res_rules r = {2}"
  using resset_and_inter [of "[resset_new \<lparr>si_arr = [1::nat], si_size = 2\<rparr> None, resset_new \<lparr>si_arr = [2], si_size = 2\<rparr> None]"
      "[resset_new \<lparr>si_arr = [2, 3], si_size = 2\<rparr> None]"]
  by (simp add: res_ok_def index_ok_def resset_new_def index_cp_def res_rules_def)

subsection \<open>Removal\<close>

lemma index_rm_loop_absent:
  "ri \<notin> set (drop i arr) \<Longrightarrow> i \<le> length arr \<Longrightarrow> index_rm_loop arr ri i = (arr, length arr)"
proof (induction arr ri i rule: index_rm_loop.induct)
  case (1 arr ri i)
  show ?case
  proof (cases "i < length arr")
    case True
    then have "drop i arr = arr ! i # drop (Suc i) arr" by (simp add: Cons_nth_drop_Suc)
    then have "arr ! i \<noteq> ri" "ri \<notin> set (drop (Suc i) arr)" using "1.prems"(1) by auto
    with True "1.IH"(2) show ?thesis by (subst index_rm_loop.simps) simp
  next
    case False
    with "1.prems"(2) show ?thesis by (subst index_rm_loop.simps) simp
  qed
qed

lemma index_rm_loop_present:
  "ri \<notin> set xs \<Longrightarrow> ri \<notin> set ys \<Longrightarrow> i \<le> length xs \<Longrightarrow>
   index_rm_loop (xs @ ri # ys) ri i = (xs @ ys, if ys = [] then Suc (length xs) else length (xs @ ys))"
proof (induction "length xs - i" arbitrary: i)
  case 0
  then have i: "i = length xs" by simp
  have "index_rm_loop (xs @ ri # ys) ri i = index_rm_loop (xs @ ys) ri (Suc i)"
    by (subst index_rm_loop.simps) (simp add: i)
  also have "\<dots> = (xs @ ys, if ys = [] then Suc (length xs) else length (xs @ ys))"
  proof (cases "ys = []")
    case True
    then show ?thesis by (subst index_rm_loop.simps) (simp add: i)
  next
    case False
    have "ri \<notin> set (drop (Suc i) (xs @ ys))" using "0.prems" i by (auto dest: in_set_dropD)
    moreover have "Suc i \<le> length (xs @ ys)" using False i by (cases ys) auto
    ultimately show ?thesis using False by (simp add: index_rm_loop_absent)
  qed
  finally show ?case .
next
  case (Suc n)
  then have i: "i < length xs" by simp
  have "(xs @ ri # ys) ! i \<noteq> ri" using i Suc.prems(1) by (auto simp: nth_append)
  then have "index_rm_loop (xs @ ri # ys) ri i = index_rm_loop (xs @ ri # ys) ri (Suc i)"
    using i by (subst index_rm_loop.simps) simp
  also have "\<dots> = (xs @ ys, if ys = [] then Suc (length xs) else length (xs @ ys))"
    using Suc.hyps(1) [of "Suc i"] Suc.hyps(2) Suc.prems i by simp
  finally show ?case .
qed

text \<open>\<open>index_rm\<close> on an index without duplicates takes the rule out and keeps the order of the
  others, but the value it returns is TRUE only when the rule was the last one of the index; a rule
  removed from any other position is reported as not found.\<close>

theorem index_rm_removes:
  assumes "distinct (si_arr a)"
  shows "index_rm a r = (si_arr a \<noteq> [] \<and> last (si_arr a) = r, a\<lparr>si_arr := filter (\<lambda>x. x \<noteq> r) (si_arr a)\<rparr>)"
proof (cases "r \<in> set (si_arr a)")
  case True
  then obtain xs ys where s: "si_arr a = xs @ r # ys" by (meson split_list)
  then have d: "r \<notin> set xs" "r \<notin> set ys" using assms by auto
  then have "filter (\<lambda>x. x \<noteq> r) xs = xs" "filter (\<lambda>x. x \<noteq> r) ys = ys" by (auto simp: filter_id_conv)
  moreover have "index_rm_loop (si_arr a) r 0 = (xs @ ys, if ys = [] then Suc (length xs) else length (xs @ ys))"
    unfolding s by (rule index_rm_loop_present) (use d in auto)
  moreover have "last (r # ys) = r \<longleftrightarrow> ys = []" using d(2) by (cases ys rule: rev_cases) auto
  ultimately show ?thesis by (simp add: index_rm_def s)
next
  case False
  then have "index_rm_loop (si_arr a) r 0 = (si_arr a, length (si_arr a))"
    by (simp add: index_rm_loop_absent)
  moreover have "filter (\<lambda>x. x \<noteq> r) (si_arr a) = si_arr a" using False by (auto simp: filter_id_conv)
  moreover have "\<not> (si_arr a \<noteq> [] \<and> last (si_arr a) = r)" using False last_in_set by metis
  ultimately show ?thesis by (simp add: index_rm_def)
qed

theorem index_rm_removes_witness:
  "index_rm \<lparr>si_arr = [1::nat, 2], si_size = 2\<rparr> 1 = (False, \<lparr>si_arr = [2], si_size = 2\<rparr>)"
  using index_rm_removes [of "\<lparr>si_arr = [1::nat, 2], si_size = 2\<rparr>" 1] by simp

end
