(* ===== verification/Hash.thy ===== *)
theory Hash
  imports Hashfunc
begin

text \<open>
  The hash tables for atoms (\<open>lib/hash.c\<close>): open addressing with double hashing, a table of sizes
  (\<open>prime\<close>), and reinsertion of all buckets when the table is resized or a bucket is removed.

  A bucket points to the part of the rule tree that follows the atom; the pointer is of a type
  variable \<open>'n\<close>. The slots of a table are a list of optional buckets. The functions return
  \<open>None\<close> where the code reads outside the table of sizes, ends the process (\<open>FatalError\<close>), or
  does not return.
\<close>

record 'n buck =
  buck_hash :: u32
  buck_val :: octet
  buck_refc :: nat
  buck_next :: "'n option"

record 'n phash =
  ph_pnr :: nat
  ph_density :: nat
  ph_size :: nat
  ph_n :: nat
  ph_limit :: nat
  ph_arr :: "'n buck option list"

definition prime :: "nat list" where
  "prime = [3, 7, 13, 61, 121, 251, 509, 751, 1021, 1499, 2039, 3011, 4093,
     6151, 8191, 12241, 16381, 24709, 32749, 49139, 65521,
     98299, 131071, 196613, 262139, 393209, 524287, 1048573, 2097143,
     4194301, 8388593, 16777213, 33554393, 67108859,
     134217689, 268435399, 536870909, 1073741789, 2147483647]"

definition pnrmax :: nat where
  "pnrmax = length prime - 1"

definition lim :: "nat \<Rightarrow> nat \<Rightarrow> nat" where
  "lim sz density = (sz * density) mod 2 ^ 32 div 100"

definition phash_new :: "nat \<Rightarrow> nat \<Rightarrow> 'n phash" where
  "phash_new pnr density =
     (let p = (if pnr > pnrmax then pnrmax else pnr);
          d = (if density > 100 then 100 else if density < 1 then 1 else density);
          sz = prime ! p
      in \<lparr>ph_pnr = p, ph_density = d, ph_size = sz, ph_n = 0, ph_limit = lim sz d,
          ph_arr = replicate sz None\<rparr>)"

definition buck_new :: "u32 \<Rightarrow> octet \<Rightarrow> 'n buck option" where
  "buck_new key op = do {
     (r, v) \<leftarrow> octcpy \<lparr>oct_val = [], oct_len = 0, oct_size = 0\<rparr> op;
     Some \<lparr>buck_hash = key, buck_val = v, buck_refc = 0, buck_next = None\<rparr> }"

subsection \<open>Probing\<close>

definition hv1 :: "'n phash \<Rightarrow> u32 \<Rightarrow> nat" where
  "hv1 ht key = unat key mod ph_size ht"

definition hv2 :: "'n phash \<Rightarrow> u32 \<Rightarrow> nat" where
  "hv2 ht key = unat key mod (prime ! (ph_pnr ht div 2) - 1) + 1"

text \<open>The loop of an insertion in one table: it ends at an empty slot, at a slot whose bucket satisfies
  \<open>same\<close>, or when it is back at the slot it started from. It is back after at most \<open>ph_size\<close>
  rounds, which \<open>k\<close> counts down.\<close>

datatype place = Slot nat | Wrap

fun probe :: "'n buck option list \<Rightarrow> nat \<Rightarrow> nat \<Rightarrow> nat \<Rightarrow> ('n buck \<Rightarrow> bool option) \<Rightarrow> nat \<Rightarrow> nat \<Rightarrow> place option" where
  "probe arr sz st shv same 0 h = Some Wrap"
| "probe arr sz st shv same (Suc k) h =
     (case arr ! h of
        None \<Rightarrow> Some (Slot h)
      | Some b \<Rightarrow> (case same b of
            None \<Rightarrow> None
          | Some True \<Rightarrow> Some (Slot h)
          | Some False \<Rightarrow>
              let h' = (h + st) mod sz in
              if h' = shv then Some Wrap else probe arr sz st shv same k h'))"

definition same_val :: "octet \<Rightarrow> 'n buck \<Rightarrow> bool option" where
  "same_val v b = map_option (\<lambda>c. c = 0) (octcmp (Some (buck_val b)) (Some v))"

definition ph_probe :: "'n phash \<Rightarrow> u32 \<Rightarrow> ('n buck \<Rightarrow> bool option) \<Rightarrow> place option" where
  "ph_probe ht key same = probe (ph_arr ht) (ph_size ht) (hv2 ht key) (hv1 ht key) same (ph_size ht) (hv1 ht key)"

definition ph_put :: "'n phash \<Rightarrow> nat \<Rightarrow> 'n buck \<Rightarrow> 'n phash" where
  "ph_put ht i b = ht\<lparr>ph_arr := (ph_arr ht)[i := Some b], ph_n := ph_n ht + 1\<rparr>"

definition ph_buckets :: "'n phash \<Rightarrow> 'n buck list" where
  "ph_buckets ht = List.map_filter (\<lambda>x. x) (ph_arr ht)"

subsection \<open>Insertion and resizing\<close>

text \<open>\<open>phash_resize\<close> and \<open>phash_insert_bucket\<close> call each other. Each call of \<open>phash_resize\<close> moves to the
  next entry of the table of sizes, so \<open>f\<close>, the number of further entries, bounds the recursion.\<close>

function (sequential) phash_resize :: "nat \<Rightarrow> 'n phash \<Rightarrow> 'n phash option"
  and reinsert :: "nat \<Rightarrow> 'n phash \<Rightarrow> 'n buck list \<Rightarrow> 'n phash option"
  and phash_insert_bucket :: "nat \<Rightarrow> 'n phash \<Rightarrow> 'n buck \<Rightarrow> 'n phash option" where
  "phash_resize 0 ht = None"
| "phash_resize (Suc f) ht =
     (let pnr = ph_pnr ht + 1 in
      if pnr \<ge> length prime then None
      else if prime ! pnr = ph_size ht then None
      else reinsert f (ht\<lparr>ph_pnr := pnr, ph_size := prime ! pnr, ph_n := 0,
             ph_limit := lim (prime ! pnr) (ph_density ht), ph_arr := replicate (prime ! pnr) None\<rparr>)
             (ph_buckets ht))"
| "reinsert f ht [] = Some ht"
| "reinsert f ht (b # bs) =
     (case phash_insert_bucket f ht b of None \<Rightarrow> None | Some ht' \<Rightarrow> reinsert f ht' bs)"
| "phash_insert_bucket f ht bp =
     (case ph_probe ht (buck_hash bp) (\<lambda>_. Some False) of
        None \<Rightarrow> None
      | Some (Slot i) \<Rightarrow>
          let ht' = ph_put ht i bp in
          if ph_n ht' > ph_limit ht' then phash_resize f ht' else Some ht'
      | Some Wrap \<Rightarrow>
          (case phash_resize f ht of
             None \<Rightarrow> None
           | Some ht' \<Rightarrow> (case f of 0 \<Rightarrow> None | Suc g \<Rightarrow> phash_insert_bucket g ht' bp)))"
  by pat_completeness auto
termination
  by (relation "measures [\<lambda>x. case x of Inl (f, _) \<Rightarrow> 3 * f | Inr (Inl (f, _)) \<Rightarrow> 3 * f + 2 | Inr (Inr (f, _)) \<Rightarrow> 3 * f + 1,
      \<lambda>x. case x of Inr (Inl (_, _, bs)) \<Rightarrow> length bs | _ \<Rightarrow> 0]") auto

declare phash_insert_bucket.simps [simp del]

text \<open>\<open>phash_insert\<close> returns the table and the bucket of the atom value \<open>v\<close>.\<close>

fun phash_insert :: "nat \<Rightarrow> 'n phash \<Rightarrow> octet \<Rightarrow> u32 \<Rightarrow> ('n phash \<times> 'n buck) option" where
  "phash_insert f ht v key =
     (case ph_probe ht key (same_val v) of
        None \<Rightarrow> None
      | Some (Slot i) \<Rightarrow>
          (case ph_arr ht ! i of
             Some b \<Rightarrow> Some (ht, b)
           | None \<Rightarrow>
              (case buck_new key v of
                 None \<Rightarrow> None
               | Some b \<Rightarrow>
                  let ht' = ph_put ht i b in
                  if ph_n ht' > ph_limit ht' then map_option (\<lambda>t. (t, b)) (phash_resize f ht')
                  else Some (ht', b)))
      | Some Wrap \<Rightarrow>
          (case phash_resize f ht of
             None \<Rightarrow> None
           | Some ht' \<Rightarrow> (case f of 0 \<Rightarrow> None | Suc g \<Rightarrow> phash_insert g ht' v key)))"

declare phash_insert.simps [simp del]

subsection \<open>Searching and removing\<close>

text \<open>The loop of \<open>phash_search\<close> (and of \<open>phash_bucket_index\<close>) ends at an empty slot or at the bucket
  it looks for; when there is neither on its path it does not end.\<close>

partial_function (option) search_loop ::
    "'n buck option list \<Rightarrow> nat \<Rightarrow> nat \<Rightarrow> ('n buck \<Rightarrow> bool option) \<Rightarrow> nat \<Rightarrow> nat option option" where
  [code]: "search_loop arr sz st same h =
     (case arr ! h of
        None \<Rightarrow> Some None
      | Some b \<Rightarrow> (case same b of
            None \<Rightarrow> None
          | Some r \<Rightarrow> if r then Some (Some h) else search_loop arr sz st same ((h + st) mod sz)))"

definition same_key :: "octet \<Rightarrow> u32 \<Rightarrow> 'n buck \<Rightarrow> bool option" where
  "same_key v key b = (if buck_hash b = key then same_val v b else Some False)"

definition phash_search :: "'n phash \<Rightarrow> octet \<Rightarrow> u32 \<Rightarrow> 'n buck option option" where
  "phash_search ht v key =
     (if ph_n ht = 0 then Some None
      else map_option (\<lambda>x. Option.bind x (\<lambda>i. ph_arr ht ! i))
        (search_loop (ph_arr ht) (ph_size ht) (hv2 ht key) (same_key v key) (hv1 ht key)))"

text \<open>The code compares bucket pointers; the buckets of a table have different values.\<close>

definition phash_bucket_index :: "'n phash \<Rightarrow> 'n buck \<Rightarrow> nat option option" where
  "phash_bucket_index ht bp =
     (if ph_n ht = 0 then Some None
      else search_loop (ph_arr ht) (ph_size ht) (hv2 ht (buck_hash bp)) (\<lambda>b. Some (b = bp)) (hv1 ht (buck_hash bp)))"

definition bucket_rm :: "nat \<Rightarrow> 'n phash \<Rightarrow> 'n buck \<Rightarrow> 'n phash option" where
  "bucket_rm f ht bp = (case phash_bucket_index ht bp of
      None \<Rightarrow> None
    | Some None \<Rightarrow> Some ht
    | Some (Some rc) \<Rightarrow>
        reinsert f (ht\<lparr>ph_arr := replicate (ph_size ht) None, ph_n := 0\<rparr>)
          (ph_buckets (ht\<lparr>ph_arr := (ph_arr ht)[rc := None]\<rparr>)))"

definition phash_index :: "'n phash \<Rightarrow> nat" where
  "phash_index ht = ph_n ht"

subsection \<open>The path of a key\<close>

definition slot :: "'n phash \<Rightarrow> u32 \<Rightarrow> nat \<Rightarrow> nat" where
  "slot ht key j = (hv1 ht key + j * hv2 ht key) mod ph_size ht"

lemma slot_0 [simp]: "slot ht key 0 = hv1 ht key"
  by (simp add: slot_def hv1_def)

lemma slot_Suc: "(slot ht key j + hv2 ht key) mod ph_size ht = slot ht key (Suc j)"
proof -
  have "(slot ht key j + hv2 ht key) mod ph_size ht = (hv1 ht key + j * hv2 ht key + hv2 ht key) mod ph_size ht"
    unfolding slot_def by (rule mod_add_left_eq)
  then show ?thesis by (simp add: slot_def ac_simps)
qed

lemma slot_less: "0 < ph_size ht \<Longrightarrow> slot ht key j < ph_size ht"
  by (simp add: slot_def)

lemma slot_shift: "slot ht key a = slot ht key b \<Longrightarrow> slot ht key (a + c) = slot ht key (b + c)"
proof -
  have "slot ht key (x + c) = (slot ht key x + c * hv2 ht key) mod ph_size ht" for x
    by (simp add: slot_def mod_add_left_eq add_mult_distrib add.assoc)
  then show "slot ht key a = slot ht key b \<Longrightarrow> slot ht key (a + c) = slot ht key (b + c)" by simp
qed

text \<open>\<open>on_path ht key m\<close>: the slots before the \<open>m\<close>th on the path of the key are full. A bucket is
  reachable when it is in such a slot.\<close>

definition on_path :: "'n phash \<Rightarrow> u32 \<Rightarrow> nat \<Rightarrow> bool" where
  "on_path ht key m \<longleftrightarrow> (\<forall>l<m. ph_arr ht ! slot ht key l \<noteq> None)"

definition reach :: "'n phash \<Rightarrow> u32 \<Rightarrow> nat \<Rightarrow> bool" where
  "reach ht key i \<longleftrightarrow> (\<exists>m. i = slot ht key m \<and> on_path ht key m)"

lemma reach_least:
  assumes "reach ht key i" and "0 < ph_size ht"
  obtains m where "i = slot ht key m" and "on_path ht key m" and "m < ph_size ht"
    and "\<And>l. l < m \<Longrightarrow> slot ht key l \<noteq> i" and "\<And>l. 0 < l \<Longrightarrow> l \<le> m \<Longrightarrow> slot ht key l \<noteq> slot ht key 0"
proof -
  define P where "P m \<longleftrightarrow> i = slot ht key m \<and> on_path ht key m" for m
  obtain m where m: "P m" "\<And>l. P l \<Longrightarrow> m \<le> l"
    using assms(1) unfolding reach_def P_def [symmetric] by (metis LeastI Least_le)
  have sub: "on_path ht key l" if "l \<le> m" for l using m(1) that by (auto simp: P_def on_path_def)
  have inj: "slot ht key a \<noteq> slot ht key b" if "a < b" "b \<le> m" for a b
  proof
    assume "slot ht key a = slot ht key b"
    then have "slot ht key (a + (m - b)) = slot ht key (b + (m - b))" by (rule slot_shift)
    then have "P (a + (m - b))" using m(1) sub [of "a + (m - b)"] that by (simp add: P_def)
    then show False using m(2) that by fastforce
  qed
  have "inj_on (slot ht key) {..m}"
    by (rule inj_onI) (metis atMost_iff inj linorder_neqE_nat)
  moreover have "slot ht key ` {..m} \<subseteq> {..<ph_size ht}" using slot_less [OF assms(2)] by auto
  ultimately have "card {..m} \<le> card {..<ph_size ht}" by (metis card_inj_on_le finite_lessThan)
  then have "m < ph_size ht" by simp
  then show ?thesis using that [of m] m(1) inj by (metis P_def nat_neq_iff le_refl)
qed

subsection \<open>Probing finds its place\<close>

lemma probe_Slot:
  assumes "probe (ph_arr ht) (ph_size ht) (hv2 ht key) (hv1 ht key) same k (slot ht key j) = Some (Slot i)"
  shows "\<exists>m\<ge>j. i = slot ht key m \<and>
    (\<forall>l. j \<le> l \<and> l < m \<longrightarrow> (\<exists>b. ph_arr ht ! slot ht key l = Some b \<and> same b = Some False)) \<and>
    (case ph_arr ht ! i of None \<Rightarrow> True | Some b \<Rightarrow> same b = Some True)"
  using assms
proof (induction k arbitrary: j)
  case (Suc k)
  show ?case
  proof (cases "ph_arr ht ! slot ht key j")
    case None
    then show ?thesis using Suc.prems by (intro exI [of _ j]) auto
  next
    case (Some b)
    show ?thesis
    proof (cases "same b = Some True")
      case True
      then show ?thesis using Suc.prems Some by (intro exI [of _ j]) auto
    next
      case False
      then have sf: "same b = Some False" using Suc.prems Some by (auto split: option.splits bool.splits)
      have "probe (ph_arr ht) (ph_size ht) (hv2 ht key) (hv1 ht key) same k (slot ht key (Suc j)) = Some (Slot i)"
        using Suc.prems Some sf by (auto simp: Let_def slot_Suc split: if_splits)
      from Suc.IH [OF this] obtain m where m: "Suc j \<le> m" "i = slot ht key m"
        "\<forall>l. Suc j \<le> l \<and> l < m \<longrightarrow> (\<exists>b. ph_arr ht ! slot ht key l = Some b \<and> same b = Some False)"
        "case ph_arr ht ! i of None \<Rightarrow> True | Some b \<Rightarrow> same b = Some True" by blast
      have "\<forall>l. j \<le> l \<and> l < m \<longrightarrow> (\<exists>b. ph_arr ht ! slot ht key l = Some b \<and> same b = Some False)"
        using m(3) Some sf by (metis Suc_leI le_eq_less_or_eq)
      then show ?thesis using m by (intro exI [of _ m]) auto
    qed
  qed
qed simp

lemma ph_probe_Slot:
  assumes "ph_probe ht key same = Some (Slot i)"
  shows "reach ht key i \<and> (case ph_arr ht ! i of None \<Rightarrow> True | Some b \<Rightarrow> same b = Some True)"
proof -
  have "probe (ph_arr ht) (ph_size ht) (hv2 ht key) (hv1 ht key) same (ph_size ht) (slot ht key 0) = Some (Slot i)"
    using assms by (simp add: ph_probe_def)
  from probe_Slot [OF this] show ?thesis unfolding reach_def on_path_def by fastforce
qed

lemma probe_finds:
  assumes "\<And>l. j \<le> l \<Longrightarrow> l < m \<Longrightarrow> \<exists>b. ph_arr ht ! slot ht key l = Some b \<and> same b = Some False"
    and "\<And>l. j < l \<Longrightarrow> l \<le> m \<Longrightarrow> slot ht key l \<noteq> hv1 ht key"
    and "case ph_arr ht ! slot ht key m of None \<Rightarrow> True | Some b \<Rightarrow> same b = Some True"
    and "j \<le> m" and "m - j < k"
  shows "probe (ph_arr ht) (ph_size ht) (hv2 ht key) (hv1 ht key) same k (slot ht key j) = Some (Slot (slot ht key m))"
  using assms
proof (induction k arbitrary: j)
  case (Suc k)
  show ?case
  proof (cases "j = m")
    case True
    then show ?thesis using Suc.prems(3) by (auto split: option.splits)
  next
    case False
    then have j: "j < m" using Suc.prems(4) by simp
    obtain b where b: "ph_arr ht ! slot ht key j = Some b" "same b = Some False" using Suc.prems(1) [of j] j by blast
    have "slot ht key (Suc j) \<noteq> hv1 ht key" using Suc.prems(2) j by simp
    moreover have "probe (ph_arr ht) (ph_size ht) (hv2 ht key) (hv1 ht key) same k (slot ht key (Suc j)) = Some (Slot (slot ht key m))"
      using Suc.prems j by (intro Suc.IH) auto
    ultimately show ?thesis using b by (simp add: Let_def slot_Suc)
  qed
qed simp

lemma search_finds:
  assumes "\<And>l. j \<le> l \<Longrightarrow> l < m \<Longrightarrow> \<exists>b. ph_arr ht ! slot ht key l = Some b \<and> same b = Some False"
    and "j \<le> m"
  shows "search_loop (ph_arr ht) (ph_size ht) (hv2 ht key) same (slot ht key j) =
    search_loop (ph_arr ht) (ph_size ht) (hv2 ht key) same (slot ht key m)"
  using assms
proof (induction "m - j" arbitrary: j)
  case (Suc d)
  then have j: "j < m" by simp
  obtain b where b: "ph_arr ht ! slot ht key j = Some b" "same b = Some False" using Suc.prems(1) [of j] j by blast
  have "search_loop (ph_arr ht) (ph_size ht) (hv2 ht key) same (slot ht key j) =
      search_loop (ph_arr ht) (ph_size ht) (hv2 ht key) same (slot ht key (Suc j))"
    by (subst search_loop.simps) (simp add: b slot_Suc)
  also have "\<dots> = search_loop (ph_arr ht) (ph_size ht) (hv2 ht key) same (slot ht key m)"
    using Suc.hyps(2) Suc.prems j by (intro Suc.hyps(1)) auto
  finally show ?case .
qed simp

subsection \<open>The invariant and the map\<close>

definition buck_key :: "'n buck \<Rightarrow> bytes" where
  "buck_key b = content (buck_val b)"

definition buck_ok :: "'n buck \<Rightarrow> bool" where
  "buck_ok b \<longleftrightarrow> wf_octet (buck_val b) \<and> buck_hash b = bj_hash (buck_key b) 0"

definition ph_inv :: "'n phash \<Rightarrow> bool" where
  "ph_inv ht \<longleftrightarrow> 0 < ph_size ht \<and> length (ph_arr ht) = ph_size ht \<and> ph_n ht = length (ph_buckets ht) \<and>
     distinct (map buck_key (ph_buckets ht)) \<and>
     (\<forall>i b. i < ph_size ht \<and> ph_arr ht ! i = Some b \<longrightarrow> buck_ok b \<and> reach ht (buck_hash b) i)"

definition ph_map :: "'n phash \<Rightarrow> bytes \<Rightarrow> 'n buck option" where
  "ph_map ht = map_of (map (\<lambda>b. (buck_key b, b)) (ph_buckets ht))"

lemma map_filter_simps [simp]:
  "List.map_filter (\<lambda>x. x) (xs @ ys) = List.map_filter (\<lambda>x. x) xs @ List.map_filter (\<lambda>x. x) ys"
  "List.map_filter (\<lambda>x. x) (Some b # xs) = b # List.map_filter (\<lambda>x. x) xs"
  "List.map_filter (\<lambda>x. x) (None # xs) = List.map_filter (\<lambda>x. x) xs"
  "List.map_filter (\<lambda>x. x) [] = []"
  by (simp_all add: List.map_filter_def)

lemma map_filter_replicate [simp]: "List.map_filter (\<lambda>x. x) (replicate n None) = []"
  by (induction n) simp_all

lemma map_filter_update:
  assumes "i < length xs"
  shows "\<exists>as bs. List.map_filter (\<lambda>x. x) xs = as @ (case xs ! i of None \<Rightarrow> [] | Some c \<Rightarrow> [c]) @ bs \<and>
    List.map_filter (\<lambda>x. x) (xs[i := y]) = as @ (case y of None \<Rightarrow> [] | Some c \<Rightarrow> [c]) @ bs"
proof -
  define as bs where "as = take i xs" and "bs = drop (Suc i) xs"
  have "xs = as @ xs ! i # bs" "xs[i := y] = as @ y # bs"
    using assms by (simp_all add: as_def bs_def id_take_nth_drop upd_conv_take_nth_drop)
  then have "List.map_filter (\<lambda>x. x) xs = List.map_filter (\<lambda>x. x) (as @ xs ! i # bs)"
    "List.map_filter (\<lambda>x. x) (xs[i := y]) = List.map_filter (\<lambda>x. x) (as @ y # bs)" by simp_all
  then show ?thesis by (cases "xs ! i"; cases y) auto
qed

lemma ph_buckets_mem: "b \<in> set (ph_buckets ht) \<longleftrightarrow> (\<exists>i<length (ph_arr ht). ph_arr ht ! i = Some b)"
proof -
  have "b \<in> set (List.map_filter (\<lambda>x. x) xs) \<longleftrightarrow> Some b \<in> set xs" for xs :: "'a buck option list"
  proof (induction xs)
    case (Cons x xs)
    then show ?case by (cases x) auto
  qed simp
  then show ?thesis by (simp add: ph_buckets_def in_set_conv_nth)
qed

lemma ph_map_Some: "ph_map ht s = Some b \<Longrightarrow> b \<in> set (ph_buckets ht) \<and> buck_key b = s"
  by (auto simp: ph_map_def dest: map_of_SomeD)

lemma slot_unique:
  assumes "ph_inv ht" and "i < ph_size ht" and "ph_arr ht ! i = Some b" and "ph_arr ht ! j = Some b" and "j < ph_size ht"
  shows "i = j"
proof (rule ccontr)
  assume "i \<noteq> j"
  have "b \<in> set (ph_buckets (ht\<lparr>ph_arr := (ph_arr ht)[i := None]\<rparr>))"
    using assms \<open>i \<noteq> j\<close> by (auto simp: ph_buckets_mem ph_inv_def nth_list_update intro!: exI [of _ j])
  moreover obtain as bs where "ph_buckets ht = as @ b # bs" "ph_buckets (ht\<lparr>ph_arr := (ph_arr ht)[i := None]\<rparr>) = as @ bs"
    using map_filter_update [of i "ph_arr ht" None] assms by (auto simp: ph_buckets_def ph_inv_def)
  ultimately show False using assms(1) by (auto simp: ph_inv_def)
qed

lemma ph_map_iff: "ph_inv ht \<Longrightarrow> ph_map ht s = Some b \<longleftrightarrow> b \<in> set (ph_buckets ht) \<and> buck_key b = s"
  by (auto simp: ph_map_def ph_inv_def comp_def intro!: map_of_is_SomeI dest: map_of_SomeD)

lemma ph_map_None: "ph_map ht s = None \<longleftrightarrow> s \<notin> buck_key ` set (ph_buckets ht)"
  by (simp add: ph_map_def map_of_eq_None_iff image_image)

lemma same_slots:
  assumes "ph_size h' = ph_size ht" and "ph_pnr h' = ph_pnr ht"
  shows "slot h' = slot ht"
  using assms by (simp add: slot_def hv1_def hv2_def fun_eq_iff)

lemma reach_mono:
  assumes "reach ht key i" and "ph_size h' = ph_size ht" and "ph_pnr h' = ph_pnr ht"
    and "\<And>j. ph_arr ht ! j \<noteq> None \<Longrightarrow> ph_arr h' ! j \<noteq> None"
  shows "reach h' key i"
proof -
  have "slot h' = slot ht" using assms(2,3) by (rule same_slots)
  then show ?thesis using assms(1,4) by (auto simp: reach_def on_path_def)
qed

lemma ph_put_inv:
  assumes inv: "ph_inv ht" and free: "ph_arr ht ! i = None" and i: "i < ph_size ht"
    and r: "reach ht (buck_hash b) i" and ok: "buck_ok b" and new: "ph_map ht (buck_key b) = None"
  shows "ph_inv (ph_put ht i b) \<and> ph_map (ph_put ht i b) = (ph_map ht)(buck_key b \<mapsto> b)"
proof -
  let ?h = "ph_put ht i b"
  have len: "length (ph_arr ht) = ph_size ht" using inv by (simp add: ph_inv_def)
  obtain as bs where ab: "ph_buckets ht = as @ bs" "ph_buckets ?h = as @ b # bs"
    using map_filter_update [of i "ph_arr ht" "Some b"] i len free by (auto simp: ph_buckets_def ph_put_def)
  have fresh: "buck_key b \<notin> buck_key ` set (as @ bs)" using new ab(1) by (simp add: ph_map_None)
  have mono: "ph_arr ht ! j \<noteq> None \<Longrightarrow> ph_arr ?h ! j \<noteq> None" for j
    using free by (cases "j = i") (auto simp: ph_put_def)
  have reach: "reach ht key j \<Longrightarrow> reach ?h key j" for key j
    by (rule reach_mono) (use mono in \<open>auto simp: ph_put_def\<close>)
  have "ph_inv ?h" unfolding ph_inv_def
  proof (intro conjI allI impI)
    show "0 < ph_size ?h" using i by (simp add: ph_put_def)
    show "length (ph_arr ?h) = ph_size ?h" using len by (simp add: ph_put_def)
    show "ph_n ?h = length (ph_buckets ?h)" using inv ab by (simp add: ph_inv_def ph_put_def)
    show "distinct (map buck_key (ph_buckets ?h))" using inv ab fresh by (auto simp: ph_inv_def)
    fix j c assume "j < ph_size ?h \<and> ph_arr ?h ! j = Some c"
    then have "c = b \<and> j = i \<or> j < ph_size ht \<and> ph_arr ht ! j = Some c"
      using len by (cases "j = i") (auto simp: ph_put_def)
    then show "buck_ok c" "reach ?h (buck_hash c) j"
      using ok r inv reach by (auto simp: ph_inv_def)
  qed
  moreover have "ph_map ?h s = ((ph_map ht)(buck_key b \<mapsto> b)) s" for s
  proof -
    have "map_of (map (\<lambda>b. (buck_key b, b)) as) (buck_key b) = None"
      using fresh by (auto simp: map_of_eq_None_iff image_iff)
    then show ?thesis unfolding ph_map_def ab by (auto simp: map_add_def split: option.splits)
  qed
  ultimately show ?thesis by blast
qed

lemma empty_inv:
  assumes "0 < ph_size ht" and "ph_arr ht = replicate (ph_size ht) None" and "ph_n ht = 0"
  shows "ph_inv ht \<and> ph_map ht = Map.empty"
  using assms by (auto simp: ph_inv_def ph_map_def ph_buckets_def)

lemma prime_pos: "i < length prime \<Longrightarrow> 0 < prime ! i"
proof -
  have "\<forall>p\<in>set prime. 0 < p" by (simp add: prime_def)
  then show "i < length prime \<Longrightarrow> 0 < prime ! i" by simp
qed

subsection \<open>Resizing keeps the map\<close>

text \<open>The table a list of buckets makes.\<close>

definition bmap :: "'n buck list \<Rightarrow> bytes \<Rightarrow> 'n buck option" where
  "bmap bs = map_of (map (\<lambda>b. (buck_key b, b)) bs)"

lemma hash_mutual:
  fixes ht :: "'n phash"
  shows "ph_inv ht \<Longrightarrow> phash_resize f ht = Some h' \<Longrightarrow> ph_inv h' \<and> ph_map h' = ph_map ht"
  and "ph_inv ht \<Longrightarrow> reinsert f ht bs = Some h' \<Longrightarrow> \<forall>b\<in>set bs. buck_ok b \<Longrightarrow> distinct (map buck_key bs) \<Longrightarrow>
    \<forall>b\<in>set bs. ph_map ht (buck_key b) = None \<Longrightarrow> ph_inv h' \<and> ph_map h' = ph_map ht ++ bmap bs"
  and "ph_inv ht \<Longrightarrow> phash_insert_bucket f ht bp = Some h' \<Longrightarrow> buck_ok bp \<Longrightarrow> ph_map ht (buck_key bp) = None \<Longrightarrow>
    ph_inv h' \<and> ph_map h' = (ph_map ht)(buck_key bp \<mapsto> bp)"
proof (induction f ht and f ht bs and f ht bp arbitrary: h' and h' and h'
    rule: phash_resize_reinsert_phash_insert_bucket.induct)
  case (2 f ht)
  define e where "e = ht\<lparr>ph_pnr := ph_pnr ht + 1, ph_size := prime ! (ph_pnr ht + 1), ph_n := 0,
    ph_limit := lim (prime ! (ph_pnr ht + 1)) (ph_density ht), ph_arr := replicate (prime ! (ph_pnr ht + 1)) None\<rparr>"
  have p: "ph_pnr ht + 1 < length prime" "prime ! (ph_pnr ht + 1) \<noteq> ph_size ht" "reinsert f e (ph_buckets ht) = Some h'"
    using "2.prems"(2) by (auto simp: Let_def e_def split: if_splits)
  have e: "ph_inv e" "ph_map e = Map.empty"
    using empty_inv [of e] prime_pos [OF p(1)] by (simp_all add: e_def)
  have bs: "\<forall>b\<in>set (ph_buckets ht). buck_ok b" "distinct (map buck_key (ph_buckets ht))"
    using "2.prems"(1) by (auto simp: ph_inv_def ph_buckets_mem)
  have "ph_inv h' \<and> ph_map h' = ph_map e ++ bmap (ph_buckets ht)"
    using "2.IH" [of "ph_pnr ht + 1" h'] p e bs by (simp add: e_def)
  then show ?case using e(2) by (simp add: bmap_def ph_map_def [of ht])
next
  case (4 f ht b bs)
  obtain h1 where h1: "phash_insert_bucket f ht b = Some h1" "reinsert f h1 bs = Some h'"
    using "4.prems"(2) by (auto split: option.splits)
  have i1: "ph_inv h1" "ph_map h1 = (ph_map ht)(buck_key b \<mapsto> b)"
    using "4.IH"(1) [OF "4.prems"(1) h1(1)] "4.prems"(3,5) by auto
  have "\<forall>c\<in>set bs. ph_map h1 (buck_key c) = None" using "4.prems"(4,5) by (auto simp: i1(2) image_iff)
  then have "ph_inv h' \<and> ph_map h' = ph_map h1 ++ bmap bs"
    using "4.IH"(2) [OF h1(1) i1(1) h1(2)] "4.prems"(3,4) by auto
  moreover have "bmap bs (buck_key b) = None" using "4.prems"(4) by (auto simp: bmap_def map_of_eq_None_iff)
  ultimately show ?case by (auto simp: i1(2) bmap_def fun_eq_iff map_add_def split: option.splits)
next
  case (5 f ht bp)
  show ?case
  proof (cases "ph_probe ht (buck_hash bp) (\<lambda>_. Some False)")
    case None
    then show ?thesis using "5.prems"(2) by (simp add: phash_insert_bucket.simps)
  next
    case (Some pl)
    show ?thesis
    proof (cases pl)
      case (Slot i)
      have pos: "0 < ph_size ht" using "5.prems"(1) by (simp add: ph_inv_def)
      have p: "reach ht (buck_hash bp) i" "ph_arr ht ! i = None"
        using ph_probe_Slot [OF Some [unfolded Slot]] by (auto split: option.splits)
      then have "i < ph_size ht" using slot_less [OF pos] by (auto simp: reach_def)
      then have put: "ph_inv (ph_put ht i bp) \<and> ph_map (ph_put ht i bp) = (ph_map ht)(buck_key bp \<mapsto> bp)"
        using ph_put_inv [OF "5.prems"(1) p(2) _ p(1)] "5.prems"(3,4) by blast
      show ?thesis
      proof (cases "ph_n (ph_put ht i bp) > ph_limit (ph_put ht i bp)")
        case True
        then have "phash_resize f (ph_put ht i bp) = Some h'"
          using "5.prems"(2) by (simp add: phash_insert_bucket.simps Some Slot Let_def)
        then show ?thesis using "5.IH"(1) [OF Some Slot refl True] put by auto
      next
        case False
        then show ?thesis using "5.prems"(2) put by (simp add: phash_insert_bucket.simps Some Slot Let_def)
      qed
    next
      case Wrap
      obtain h1 g where h1: "phash_resize f ht = Some h1" "f = Suc g" "phash_insert_bucket g h1 bp = Some h'"
        using "5.prems"(2) by (auto simp: phash_insert_bucket.simps [of f] Some Wrap split: option.splits nat.splits)
      have i1: "ph_inv h1" "ph_map h1 = ph_map ht"
        using "5.IH"(2) [OF Some Wrap "5.prems"(1) h1(1)] by auto
      then show ?thesis using "5.IH"(3) [OF Some Wrap h1(1,2) i1(1) h1(3)] "5.prems"(3,4) by simp
    qed
  qed
qed (simp_all add: bmap_def)

subsection \<open>Searching and inserting\<close>

lemma same_val_iff:
  assumes "wf_octet v" and "buck_ok b"
  shows "same_val v b = Some (buck_key b = content v)"
  using octcmp_lex [of "buck_val b" v] assms by (auto simp: same_val_def buck_ok_def buck_key_def)

lemma path_bucket:
  assumes "ph_inv ht" and "on_path ht key m" and "l < m"
  obtains b where "ph_arr ht ! slot ht key l = Some b" and "buck_ok b" and "b \<in> set (ph_buckets ht)"
proof -
  have pos: "0 < ph_size ht" "length (ph_arr ht) = ph_size ht" using assms(1) by (simp_all add: ph_inv_def)
  then have "slot ht key l < ph_size ht" by (simp add: slot_less)
  moreover obtain b where "ph_arr ht ! slot ht key l = Some b" using assms(2,3) by (auto simp: on_path_def)
  ultimately show ?thesis using that [of b] assms(1) pos by (auto simp: ph_inv_def ph_buckets_mem)
qed

text \<open>The least path to the bucket of a value in the table: all buckets before it are others.\<close>

lemma bucket_path:
  assumes inv: "ph_inv ht" and v: "ph_map ht s = Some b"
  obtains m where "ph_arr ht ! slot ht (bj_hash s 0) m = Some b" and "on_path ht (bj_hash s 0) m" and "m < ph_size ht"
    and "\<And>l. l < m \<Longrightarrow> \<exists>c. ph_arr ht ! slot ht (bj_hash s 0) l = Some c \<and> buck_ok c \<and> buck_key c \<noteq> s"
    and "\<And>l. 0 < l \<Longrightarrow> l \<le> m \<Longrightarrow> slot ht (bj_hash s 0) l \<noteq> hv1 ht (bj_hash s 0)"
proof -
  define key where "key = bj_hash s 0"
  have pos: "0 < ph_size ht" "length (ph_arr ht) = ph_size ht" using inv by (simp_all add: ph_inv_def)
  have b: "b \<in> set (ph_buckets ht)" "buck_key b = s" using ph_map_Some [OF v] by auto
  then obtain i where i: "i < ph_size ht" "ph_arr ht ! i = Some b" using pos(2) by (auto simp: ph_buckets_mem)
  have ok: "buck_ok b" "reach ht (buck_hash b) i" using inv i by (auto simp: ph_inv_def)
  then have "reach ht key i" using b(2) by (simp add: buck_ok_def key_def)
  obtain m where m: "i = slot ht key m" "on_path ht key m" "m < ph_size ht"
    "\<And>l. l < m \<Longrightarrow> slot ht key l \<noteq> i" "\<And>l. 0 < l \<Longrightarrow> l \<le> m \<Longrightarrow> slot ht key l \<noteq> slot ht key 0"
    using reach_least [OF \<open>reach ht key i\<close> pos(1)] by blast
  have "\<exists>c. ph_arr ht ! slot ht key l = Some c \<and> buck_ok c \<and> buck_key c \<noteq> s" if l: "l < m" for l
  proof -
    obtain c where c: "ph_arr ht ! slot ht key l = Some c" "buck_ok c" "c \<in> set (ph_buckets ht)"
      using path_bucket [OF inv m(2) l] by blast
    have "buck_key c \<noteq> s"
    proof
      assume "buck_key c = s"
      then have "c = b" using ph_map_iff [OF inv, of s c] c(3) v by simp
      then have "i = slot ht key l"
        using slot_unique [OF inv i, of "slot ht key l"] c(1) slot_less [OF pos(1)] by simp
      then show False using m(4) [OF l] by simp
    qed
    then show ?thesis using c by blast
  qed
  then show ?thesis using that [of m] m i(2) by (simp add: key_def)
qed

lemma same_key_iff:
  assumes "wf_octet v" and "buck_ok b"
  shows "same_key v (bj_hash (content v) 0) b = Some (buck_key b = content v)"
  using same_val_iff [OF assms] assms(2) by (auto simp: same_key_def buck_ok_def)

lemma phash_search_hit:
  assumes inv: "ph_inv ht" and v: "wf_octet v" and b: "ph_map ht (content v) = Some b"
  shows "phash_search ht v (bj_hash (content v) 0) = Some (Some b)"
proof -
  define key where "key = bj_hash (content v) 0"
  obtain m where m: "ph_arr ht ! slot ht key m = Some b"
    "\<And>l. l < m \<Longrightarrow> \<exists>c. ph_arr ht ! slot ht key l = Some c \<and> buck_ok c \<and> buck_key c \<noteq> content v"
    using bucket_path [OF inv b] unfolding key_def by metis
  have mem: "b \<in> set (ph_buckets ht)" "buck_key b = content v" using ph_map_Some [OF b] by auto
  then have ok: "buck_ok b" using inv by (auto simp: ph_inv_def ph_buckets_mem)
  have "ph_n ht \<noteq> 0" using mem inv by (auto simp: ph_inv_def)
  moreover have "search_loop (ph_arr ht) (ph_size ht) (hv2 ht key) (same_key v key) (slot ht key 0) =
      search_loop (ph_arr ht) (ph_size ht) (hv2 ht key) (same_key v key) (slot ht key m)"
    using m(2) same_key_iff [OF v, folded key_def] by (intro search_finds) fastforce+
  moreover have "\<dots> = Some (Some (slot ht key m))"
    by (subst search_loop.simps) (simp add: m(1) same_key_iff [OF v ok, folded key_def] mem(2))
  ultimately show ?thesis by (simp add: phash_search_def key_def [symmetric] m(1))
qed

lemma phash_search_miss:
  assumes inv: "ph_inv ht" and v: "wf_octet v" and b: "ph_map ht (content v) = None"
    and free: "ph_arr ht ! slot ht (bj_hash (content v) 0) j = None"
  shows "phash_search ht v (bj_hash (content v) 0) = Some None"
proof -
  define key where "key = bj_hash (content v) 0"
  define m where "m = (LEAST l. ph_arr ht ! slot ht key l = None)"
  have m: "ph_arr ht ! slot ht key m = None" unfolding m_def
    by (rule LeastI [of "\<lambda>l. ph_arr ht ! slot ht key l = None" j]) (use free in \<open>simp add: key_def\<close>)
  have least: "ph_arr ht ! slot ht key l \<noteq> None" if "l < m" for l
    using that not_less_Least [of l "\<lambda>l. ph_arr ht ! slot ht key l = None"] by (simp add: m_def)
  have path: "on_path ht key m" using least by (auto simp: on_path_def)
  have "\<exists>c. ph_arr ht ! slot ht key l = Some c \<and> same_key v key c = Some False" if "l < m" for l
  proof -
    obtain c where c: "ph_arr ht ! slot ht key l = Some c" "buck_ok c" "c \<in> set (ph_buckets ht)"
      using path_bucket [OF inv path \<open>l < m\<close>] by blast
    then have "buck_key c \<noteq> content v" using b by (auto simp: ph_map_None image_iff)
    then show ?thesis using c same_key_iff [OF v c(2)] by (simp add: key_def)
  qed
  then have "search_loop (ph_arr ht) (ph_size ht) (hv2 ht key) (same_key v key) (slot ht key 0) =
      search_loop (ph_arr ht) (ph_size ht) (hv2 ht key) (same_key v key) (slot ht key m)"
    by (intro search_finds) auto
  also have "\<dots> = Some None" by (subst search_loop.simps) (simp add: m)
  finally show ?thesis by (simp add: phash_search_def key_def)
qed

lemma buck_new_ok:
  assumes "wf_octet v"
  obtains b where "buck_new (bj_hash (content v) 0) v = Some b" and "buck_ok b" and "buck_key b = content v"
    and "buck_next b = None"
proof -
  obtain o2 where "octcpy \<lparr>oct_val = [], oct_len = 0, oct_size = 0\<rparr> v = Some (SPOCP_SUCCESS, o2)"
    "content o2 = content v" "wf_dyn o2"
    using octcpy_content [of "\<lparr>oct_val = [], oct_len = 0, oct_size = 0\<rparr>" v] assms by auto
  then show ?thesis
    using that [of "\<lparr>buck_hash = bj_hash (content v) 0, buck_val = o2, buck_refc = 0, buck_next = None\<rparr>"]
    by (simp add: buck_new_def buck_ok_def buck_key_def wf_dyn_def)
qed

text \<open>\<open>phash_insert\<close> keeps the invariant and adds the value, unless it is there already.\<close>

lemma phash_insert_map:
  fixes ht :: "'n phash"
  assumes "ph_inv ht" and "wf_octet v" and "phash_insert f ht v (bj_hash (content v) 0) = Some (h', b)"
  shows "ph_inv h' \<and> buck_key b = content v \<and>
    (case ph_map ht (content v) of
       Some c \<Rightarrow> b = c \<and> h' = ht
     | None \<Rightarrow> ph_map h' = (ph_map ht)(content v \<mapsto> b) \<and> buck_next b = None)"
  using assms(1,3)
proof (induction f arbitrary: ht h' rule: less_induct)
  case (less f)
  define key where "key = bj_hash (content v) 0"
  have pos: "0 < ph_size ht" using less.prems(1) by (simp add: ph_inv_def)
  obtain pl where pl: "ph_probe ht key (same_val v) = Some pl"
    using less.prems(2) by (auto simp: phash_insert.simps [of f] key_def split: option.splits)
  show ?case
  proof (cases "ph_map ht (content v)")
    case (Some c)
    obtain m where m: "ph_arr ht ! slot ht key m = Some c" "m < ph_size ht"
      "\<And>l. l < m \<Longrightarrow> \<exists>c. ph_arr ht ! slot ht key l = Some c \<and> buck_ok c \<and> buck_key c \<noteq> content v"
      "\<And>l. 0 < l \<Longrightarrow> l \<le> m \<Longrightarrow> slot ht key l \<noteq> hv1 ht key"
      using bucket_path [OF less.prems(1) Some] unfolding key_def by metis
    have c: "buck_key c = content v" "buck_ok c"
      using ph_map_Some [OF Some] less.prems(1) by (auto simp: ph_inv_def ph_buckets_mem)
    have "\<exists>b. ph_arr ht ! slot ht key l = Some b \<and> same_val v b = Some False" if "l < m" for l
      using m(3) [OF that] same_val_iff [OF assms(2)] by fastforce
    then have "probe (ph_arr ht) (ph_size ht) (hv2 ht key) (hv1 ht key) (same_val v) (ph_size ht) (slot ht key 0) =
        Some (Slot (slot ht key m))"
      using m(1,2,4) c same_val_iff [OF assms(2) c(2)] by (intro probe_finds) auto
    then show ?thesis using less.prems m(1) c Some
      by (simp add: phash_insert.simps [of f] ph_probe_def key_def)
  next
    case None
    show ?thesis
    proof (cases pl)
      case (Slot i)
      have p: "reach ht key i" "case ph_arr ht ! i of None \<Rightarrow> True | Some b \<Rightarrow> same_val v b = Some True"
        using ph_probe_Slot [OF pl [unfolded Slot]] by auto
      have i: "i < ph_size ht" using p(1) slot_less [OF pos] by (auto simp: reach_def)
      have free: "ph_arr ht ! i = None"
      proof (rule ccontr)
        assume "ph_arr ht ! i \<noteq> None"
        then obtain c where c: "ph_arr ht ! i = Some c" by blast
        then have "buck_ok c" "c \<in> set (ph_buckets ht)" using less.prems(1) i by (auto simp: ph_inv_def ph_buckets_mem)
        then show False using p(2) c None same_val_iff [OF assms(2), of c] by (auto simp: ph_map_None image_iff)
      qed
      obtain b' :: "'n buck" where b': "buck_new key v = Some b'" "buck_ok b'" "buck_key b' = content v" "buck_next b' = None"
        using buck_new_ok [OF assms(2)] unfolding key_def by metis
      have hk: "buck_hash b' = key" using b'(2,3) by (simp add: buck_ok_def key_def)
      have put: "ph_inv (ph_put ht i b')" "ph_map (ph_put ht i b') = (ph_map ht)(content v \<mapsto> b')"
        using ph_put_inv [OF less.prems(1) free i, of b'] p(1) b' None hk by auto
      have *: "(if ph_n (ph_put ht i b') > ph_limit (ph_put ht i b')
          then map_option (\<lambda>t. (t, b')) (phash_resize f (ph_put ht i b')) else Some (ph_put ht i b', b')) = Some (h', b)"
        using less.prems(2) pl free b'(1) by (simp add: phash_insert.simps [of f] key_def Slot Let_def)
      then have "b = b'" "h' = ph_put ht i b' \<or> phash_resize f (ph_put ht i b') = Some h'" by (auto split: if_splits)
      then have "ph_inv h'" "ph_map h' = (ph_map ht)(content v \<mapsto> b)"
        using put hash_mutual(1) [OF put(1), of f h'] by auto
      then show ?thesis using None b'(3,4) \<open>b = b'\<close> by simp
    next
      case Wrap
      obtain h1 g where h1: "phash_resize f ht = Some h1" "f = Suc g" "phash_insert g h1 v key = Some (h', b)"
        using less.prems(2) pl by (auto simp: phash_insert.simps [of f] key_def Wrap split: option.splits nat.splits)
      have i1: "ph_inv h1" "ph_map h1 = ph_map ht" using hash_mutual(1) [OF less.prems(1) h1(1)] by auto
      from less.IH [OF _ i1(1) h1(3) [unfolded key_def]] h1(2) show ?thesis by (simp add: i1(2) None)
    qed
  qed
qed

subsection \<open>The interface of the atom table\<close>

text \<open>
  What the rule tree relies on: a table that maps byte strings to buckets. \<open>put\<close> finds or creates the
  bucket of an atom and \<open>get\<close> looks it up; both take the atom's value and its hash. The outer
  option of their results is the failure to return a result.
\<close>

locale atom_table =
  fixes ok :: "'t \<Rightarrow> bool"
    and tab :: "'t \<Rightarrow> bytes \<Rightarrow> 'b option"
    and put :: "'t \<Rightarrow> octet \<Rightarrow> u32 \<Rightarrow> ('t \<times> 'b) option"
    and get :: "'t \<Rightarrow> octet \<Rightarrow> u32 \<Rightarrow> 'b option option"
  assumes put_ok: "ok t \<Longrightarrow> wf_octet v \<Longrightarrow> put t v (bj_hash (content v) 0) = Some (t', b) \<Longrightarrow> ok t'"
    and put_tab: "ok t \<Longrightarrow> wf_octet v \<Longrightarrow> put t v (bj_hash (content v) 0) = Some (t', b) \<Longrightarrow>
      tab t' = (tab t)(content v \<mapsto> b)"
    and put_old: "ok t \<Longrightarrow> wf_octet v \<Longrightarrow> put t v (bj_hash (content v) 0) = Some (t', b) \<Longrightarrow>
      tab t (content v) = Some c \<Longrightarrow> b = c"
    and get_hit: "ok t \<Longrightarrow> wf_octet v \<Longrightarrow> tab t (content v) = Some b \<Longrightarrow>
      get t v (bj_hash (content v) 0) = Some (Some b)"
begin

lemma get_put:
  assumes "ok t" and "wf_octet v" and "put t v (bj_hash (content v) 0) = Some (t', b)"
  shows "get t' v (bj_hash (content v) 0) = Some (Some b)"
  using get_hit [OF put_ok [OF assms] assms(2)] put_tab [OF assms] by simp

lemma get_put_other:
  assumes "ok t" and "wf_octet v" and "put t v (bj_hash (content v) 0) = Some (t', b)"
    and "wf_octet w" and "content w \<noteq> content v" and "tab t (content w) = Some c"
  shows "get t' w (bj_hash (content w) 0) = Some (Some c)"
  using get_hit [OF put_ok [OF assms(1-3)] assms(4)] put_tab [OF assms(1-3)] assms(5,6) by simp

lemma put_twice:
  assumes "ok t" and "wf_octet v" and "put t v (bj_hash (content v) 0) = Some (t', b)"
    and "put t' v (bj_hash (content v) 0) = Some (t'', c)"
  shows "c = b \<and> tab t'' = tab t'"
proof -
  have "c = b"
    using put_old [OF put_ok [OF assms(1-3)] assms(2,4), of b] put_tab [OF assms(1-3)] by simp
  then show ?thesis
    using put_tab [OF put_ok [OF assms(1-3)] assms(2,4)] put_tab [OF assms(1-3)] by simp
qed

text \<open>A sequence of insertions.\<close>

fun puts :: "'t \<Rightarrow> octet list \<Rightarrow> 't option" where
  "puts t [] = Some t"
| "puts t (v # vs) = (case put t v (bj_hash (content v) 0) of None \<Rightarrow> None | Some (t', _) \<Rightarrow> puts t' vs)"

lemma puts_dom:
  assumes "ok t" and "\<forall>v\<in>set vs. wf_octet v" and "puts t vs = Some t'"
  shows "ok t' \<and> dom (tab t') = dom (tab t) \<union> content ` set vs"
  using assms
proof (induction vs arbitrary: t)
  case (Cons v vs)
  obtain t1 b where 1: "put t v (bj_hash (content v) 0) = Some (t1, b)" "puts t1 vs = Some t'"
    using Cons.prems(3) by (auto split: option.splits)
  have v: "wf_octet v" using Cons.prems(2) by simp
  show ?case
    using Cons.IH [OF put_ok [OF Cons.prems(1) v 1(1)] _ 1(2)] Cons.prems(2) put_tab [OF Cons.prems(1) v 1(1)] by auto
qed simp

lemma puts_keep:
  assumes "ok t" and "\<forall>v\<in>set vs. wf_octet v" and "puts t vs = Some t'" and "tab t k = Some c"
  shows "tab t' k = Some c"
  using assms
proof (induction vs arbitrary: t)
  case (Cons v vs)
  obtain t1 b where 1: "put t v (bj_hash (content v) 0) = Some (t1, b)" "puts t1 vs = Some t'"
    using Cons.prems(3) by (auto split: option.splits)
  have v: "wf_octet v" using Cons.prems(2) by simp
  have "tab t1 k = Some c"
    using put_tab [OF Cons.prems(1) v 1(1)] put_old [OF Cons.prems(1) v 1(1)] Cons.prems(4) by auto
  then show ?case using Cons.IH [OF put_ok [OF Cons.prems(1) v 1(1)] _ 1(2)] Cons.prems(2) by simp
qed simp

end

interpretation ph: atom_table ph_inv ph_map "phash_insert f" phash_search for f
proof
  fix t v t' and b :: "'n buck"
  assume a: "ph_inv t" "wf_octet v" "phash_insert f t v (bj_hash (content v) 0) = Some (t', b)"
  note I = phash_insert_map [OF a]
  show "ph_inv t'" using I by simp
  show "ph_map t' = (ph_map t)(content v \<mapsto> b)" using I by (auto split: option.splits)
  fix c assume "ph_map t (content v) = Some c"
  then show "b = c" using I by simp
next
  fix t v and b :: "'n buck"
  assume "ph_inv t" "wf_octet v" "ph_map t (content v) = Some b"
  then show "phash_search t v (bj_hash (content v) 0) = Some (Some b)" by (rule phash_search_hit)
qed

lemma phash_new_inv: "ph_inv (phash_new pnr d :: 'n phash) \<and> ph_map (phash_new pnr d :: 'n phash) = Map.empty"
proof (rule empty_inv)
  have "min pnr pnrmax < length prime" by (simp add: pnrmax_def prime_def)
  then have "0 < prime ! min pnr pnrmax" by (rule prime_pos)
  then show "0 < ph_size (phash_new pnr d :: 'n phash)" by (auto simp: phash_new_def Let_def min_def split: if_splits)
qed (simp_all add: phash_new_def Let_def)

text \<open>C34: the atom table is a map. Start from a new table and insert any sequence of atoms, through
  any number of resizings: when the insertions return, the invariant holds, the table has a bucket for exactly
  the inserted values, and a search for one of them returns the bucket that its insertion returned.\<close>

theorem phash_insert_search:
  assumes "ph.puts f (phash_new pnr d :: 'n phash) us = Some h1" and "phash_insert f h1 v (bj_hash (content v) 0) = Some (h2, b)"
    and "ph.puts f h2 ws = Some ht" and "\<forall>w\<in>set (us @ v # ws). wf_octet w"
  shows "ph_inv ht \<and> dom (ph_map ht) = content ` set (us @ v # ws) \<and> buck_key b = content v \<and>
    phash_search ht v (bj_hash (content v) 0) = Some (Some b)"
proof -
  have w: "\<forall>w\<in>set us. wf_octet w" "wf_octet v" "\<forall>w\<in>set ws. wf_octet w" using assms(4) by auto
  have N: "ph_inv (phash_new pnr d :: 'n phash)" "ph_map (phash_new pnr d :: 'n phash) = Map.empty"
    using phash_new_inv by auto
  have h1: "ph_inv h1" "dom (ph_map h1) = content ` set us" using ph.puts_dom [OF N(1) w(1) assms(1)] N(2) by simp_all
  have h2: "ph_inv h2" "ph_map h2 = (ph_map h1)(content v \<mapsto> b)" "buck_key b = content v"
    using ph.put_ok [OF h1(1) w(2) assms(2)] ph.put_tab [OF h1(1) w(2) assms(2)] phash_insert_map [OF h1(1) w(2) assms(2)] by auto
  have ht: "ph_inv ht" "dom (ph_map ht) = content ` set (us @ v # ws)"
    using ph.puts_dom [OF h2(1) w(3) assms(3)] h1(2) h2(2) by auto
  have "ph_map ht (content v) = Some b" using ph.puts_keep [OF h2(1) w(3) assms(3)] h2(2) by simp
  then show ?thesis using phash_search_hit [OF ht(1) w(2)] ht h2(3) by simp
qed

text \<open>The first insertion into a free slot of a table that is not yet full.\<close>

lemma phash_insert_free:
  fixes ht :: "'n phash"
  assumes "0 < ph_size ht" and "ph_arr ht ! hv1 ht key = None" and "wf_octet v" and "key = bj_hash (content v) 0"
    and "ph_n ht < ph_limit ht"
  shows "\<exists>h' b. phash_insert f ht v key = Some (h', b)"
proof -
  obtain b :: "'n buck" where b: "buck_new key v = Some b" using buck_new_ok [OF assms(3)] assms(4) by metis
  have "ph_probe ht key (same_val v) = Some (Slot (hv1 ht key))"
    using assms(1,2) by (cases "ph_size ht") (simp_all add: ph_probe_def)
  then show ?thesis using assms(2,5) b by (simp add: phash_insert.simps Let_def ph_put_def)
qed

lemma new_insert:
  assumes "wf_octet v"
  shows "\<exists>h' b. phash_insert f (phash_new 3 50 :: 'n phash) v (bj_hash (content v) 0) = Some (h', b)"
proof (rule phash_insert_free)
  have p: "prime ! 3 = 61" by (simp add: prime_def)
  then have "ph_size (phash_new 3 50 :: 'n phash) = 61" "ph_arr (phash_new 3 50 :: 'n phash) = replicate 61 None"
    "ph_n (phash_new 3 50 :: 'n phash) = 0" "ph_limit (phash_new 3 50 :: 'n phash) = 30"
    by (simp_all add: phash_new_def Let_def pnrmax_def prime_def lim_def)
  then show "0 < ph_size (phash_new 3 50 :: 'n phash)" "ph_n (phash_new 3 50 :: 'n phash) < ph_limit (phash_new 3 50 :: 'n phash)"
    "ph_arr (phash_new 3 50 :: 'n phash) ! hv1 (phash_new 3 50 :: 'n phash) (bj_hash (content v) 0) = None"
    by (simp_all add: hv1_def)
qed (use assms in auto)

theorem phash_insert_search_witness:
  "\<exists>ht b. phash_insert 5 (phash_new 3 50 :: nat phash) (mk_octet ''a'') (bj_hash ''a'' 0) = Some (ht, b) \<and>
    phash_search ht (mk_octet ''a'') (bj_hash ''a'' 0) = Some (Some b)"
proof -
  have wf: "wf_octet (mk_octet ''a'')" by (simp add: wf_mk_octet)
  obtain ht b where "phash_insert 5 (phash_new 3 50 :: nat phash) (mk_octet ''a'') (bj_hash (content (mk_octet ''a'')) 0) = Some (ht, b)"
    using new_insert [OF wf] by blast
  then show ?thesis using phash_insert_search [of 5 3 50 "[]" "phash_new 3 50 :: nat phash" "mk_octet ''a''" ht b "[]" ht] wf by auto
qed

text \<open>Inserting an atom again finds the bucket that is there, and an insertion changes no other
  entry of the table.\<close>

theorem phash_insert_frame:
  assumes "ph_inv ht" and "wf_octet v" and "phash_insert f ht v (bj_hash (content v) 0) = Some (h', b)"
  shows "ph_inv h' \<and> ph_map h' = (ph_map ht)(content v \<mapsto> b) \<and>
    (\<forall>c. ph_map ht (content v) = Some c \<longrightarrow> b = c \<and> h' = ht)"
  using phash_insert_map [OF assms] by (auto split: option.splits)

theorem phash_insert_frame_witness:
  "\<exists>h' b. phash_insert 5 (phash_new 3 50 :: nat phash) (mk_octet ''a'') (bj_hash ''a'' 0) = Some (h', b) \<and>
    ph_map h' = (ph_map (phash_new 3 50))(''a'' \<mapsto> b)"
proof -
  have wf: "wf_octet (mk_octet ''a'')" by (simp add: wf_mk_octet)
  obtain h' b where i: "phash_insert 5 (phash_new 3 50 :: nat phash) (mk_octet ''a'') (bj_hash (content (mk_octet ''a'')) 0) = Some (h', b)"
    using new_insert [OF wf] by blast
  have "ph_inv (phash_new 3 50 :: nat phash)" using phash_new_inv by auto
  from phash_insert_frame [OF this wf i] i show ?thesis by auto
qed

subsection \<open>When a search returns\<close>

text \<open>When the step of the key is coprime to the size, the path of the key visits every slot, so it
  meets an empty one when the table is not full.\<close>

lemma coprime_path:
  assumes "coprime (hv2 ht key) (ph_size ht)" and "i < ph_size ht"
  shows "\<exists>j. slot ht key j = i"
proof -
  have inj: "inj_on (slot ht key) {..<ph_size ht}"
  proof (rule linorder_inj_onI)
    fix a b assume ab: "a < b" "a \<in> {..<ph_size ht}" "b \<in> {..<ph_size ht}"
    show "slot ht key a \<noteq> slot ht key b"
    proof
      assume "slot ht key a = slot ht key b"
      then have "ph_size ht dvd (hv1 ht key + b * hv2 ht key) - (hv1 ht key + a * hv2 ht key)"
        using ab(1) by (metis slot_def mod_eq_dvd_iff_nat add_le_cancel_left mult_le_mono1 less_imp_le)
      then have "ph_size ht dvd (b - a) * hv2 ht key" by (simp add: diff_mult_distrib)
      then have "ph_size ht dvd b - a" using assms(1) by (metis coprime_commute coprime_dvd_mult_left_iff)
      then show False using ab by (auto dest: dvd_imp_le)
    qed
  qed auto
  have "0 < ph_size ht" using assms(2) by simp
  then have "slot ht key ` {..<ph_size ht} \<subseteq> {..<ph_size ht}" by (intro image_subsetI) (simp add: slot_def)
  then have "slot ht key ` {..<ph_size ht} = {..<ph_size ht}"
    by (rule endo_inj_surj [OF finite_lessThan _ inj])
  then have "i \<in> slot ht key ` {..<ph_size ht}" using assms(2) by simp
  then obtain j where "i = slot ht key j" by (rule imageE)
  then show ?thesis by (intro exI [of _ j]) simp
qed

lemma search_loop_full:
  assumes "\<And>j. \<exists>b. ph_arr ht ! slot ht key j = Some b \<and> same b = Some False"
  shows "search_loop (ph_arr ht) (ph_size ht) (hv2 ht key) same (slot ht key j) = None"
proof -
  define P where "P arr sz st sm h r \<longleftrightarrow> (arr = ph_arr ht \<and> sz = ph_size ht \<and> st = hv2 ht key \<and> sm = same \<longrightarrow>
    (\<forall>j. h \<noteq> slot ht key j))" for arr sz st sm h and r :: "nat option"
  have "P arr sz st sm h r" if "search_loop arr sz st sm h = Some r" for arr sz st sm h r
  proof (rule search_loop.raw_induct [OF _ that, of P])
    fix f arr sz st sm h r
    assume IH: "\<And>arr sz st sm h r. f arr sz st sm h = Some r \<Longrightarrow> P arr sz st sm h r"
      and step: "(case arr ! h of None \<Rightarrow> Some None
        | Some b \<Rightarrow> (case sm b of None \<Rightarrow> None | Some r \<Rightarrow> if r then Some (Some h) else f arr sz st sm ((h + st) mod sz))) = Some r"
    show "P arr sz st sm h r" unfolding P_def
    proof (intro impI allI notI)
      fix j assume eq: "arr = ph_arr ht \<and> sz = ph_size ht \<and> st = hv2 ht key \<and> sm = same" and h: "h = slot ht key j"
      obtain b where b: "ph_arr ht ! slot ht key j = Some b" "same b = Some False" using assms by blast
      have "f arr sz st sm (slot ht key (Suc j)) = Some r"
        using step eq by (simp add: h b slot_Suc)
      then show False using IH eq unfolding P_def by blast
    qed
  qed
  then show ?thesis unfolding P_def by (metis not_None_eq)
qed

lemma phash_search_absent:
  assumes inv: "ph_inv ht" and v: "wf_octet v" and none: "ph_map ht (content v) = None"
  shows "phash_search ht v (bj_hash (content v) 0) =
    (if ph_n ht = 0 \<or> (\<exists>j. ph_arr ht ! slot ht (bj_hash (content v) 0) j = None) then Some None else None)"
proof (cases "\<exists>j. ph_arr ht ! slot ht (bj_hash (content v) 0) j = None")
  case True
  then show ?thesis using phash_search_miss [OF assms] by auto
next
  case False
  define key where "key = bj_hash (content v) 0"
  have "\<exists>b. ph_arr ht ! slot ht key j = Some b \<and> same_key v key b = Some False" for j
  proof -
    have "on_path ht key (Suc j)" using False by (auto simp: on_path_def key_def)
    then obtain b where "ph_arr ht ! slot ht key j = Some b" "buck_ok b" "b \<in> set (ph_buckets ht)"
      using path_bucket [OF inv _ lessI] by blast
    then show ?thesis using same_key_iff [OF v, of b] none by (auto simp: key_def ph_map_None image_iff)
  qed
  then have "search_loop (ph_arr ht) (ph_size ht) (hv2 ht key) (same_key v key) (slot ht key 0) = None"
    by (rule search_loop_full)
  then show ?thesis using False by (simp add: phash_search_def key_def)
qed

text \<open>C39: a search returns unless the value is not in the table and all slots on the path of its hash
  are full, and it cannot fail to return when the table has an empty slot and the step of the hash is
  coprime to the size. The size 121, which is no prime, has steps that are not.\<close>

theorem phash_search_returns:
  assumes "ph_inv ht" and "wf_octet v"
  shows "(phash_search ht v (bj_hash (content v) 0) = None \<longleftrightarrow>
      ph_map ht (content v) = None \<and> ph_n ht \<noteq> 0 \<and> (\<forall>j. ph_arr ht ! slot ht (bj_hash (content v) 0) j \<noteq> None)) \<and>
    (ph_n ht < ph_size ht \<and> coprime (hv2 ht (bj_hash (content v) 0)) (ph_size ht) \<longrightarrow>
      phash_search ht v (bj_hash (content v) 0) = Some (ph_map ht (content v)))"
proof -
  define key where "key = bj_hash (content v) 0"
  have free: "\<exists>j. ph_arr ht ! slot ht key j = None" if n: "ph_n ht < ph_size ht" and c: "coprime (hv2 ht key) (ph_size ht)"
  proof -
    have "None \<in> set (ph_arr ht)"
    proof (rule ccontr)
      assume "None \<notin> set (ph_arr ht)"
      moreover have "None \<notin> set xs \<Longrightarrow> length (List.map_filter (\<lambda>x. x) xs) = length xs" for xs :: "'a buck option list"
      proof (induction xs)
        case (Cons x xs)
        then show ?case by (cases x) auto
      qed simp
      ultimately show False using assms(1) n by (simp add: ph_inv_def ph_buckets_def)
    qed
    then obtain i where i: "i < ph_size ht" "ph_arr ht ! i = None"
      using assms(1) by (auto simp: in_set_conv_nth ph_inv_def)
    then show ?thesis using coprime_path [OF c i(1)] by auto
  qed
  show ?thesis
  proof (cases "ph_map ht (content v)")
    case (Some b)
    then show ?thesis using phash_search_hit [OF assms Some] by simp
  next
    case None
    then show ?thesis using phash_search_absent [OF assms None] free unfolding key_def by auto
  qed
qed

theorem phash_search_returns_witness:
  "phash_search (phash_new 0 50 :: nat phash) (mk_octet ''a'') (bj_hash ''a'' 0) = Some None"
proof -
  let ?h = "phash_new 0 50 :: nat phash"
  have h: "ph_size ?h = 3" "ph_n ?h = 0" "ph_pnr ?h = 0" by (simp_all add: phash_new_def Let_def pnrmax_def prime_def)
  have "hv2 ?h k = 1 \<or> hv2 ?h k = 2" for k using h by (auto simp: hv2_def prime_def)
  then have "coprime (hv2 ?h k) 3" for k by (metis coprime_1_left coprime_Suc_right_nat coprime_commute numeral_2_eq_2 numeral_3_eq_3)
  moreover have "ph_inv ?h" "ph_map ?h = Map.empty" using phash_new_inv [where 'n = nat] by blast+
  ultimately show ?thesis
    using phash_search_returns [of ?h "mk_octet ''a''"] h by (simp add: wf_mk_octet)
qed

text \<open>The steps at the size 121 (\<open>prime[4]\<close>), one of which is a divisor of it.\<close>

lemma step_121:
  assumes "ph_pnr ht = 4" and "unat key mod 12 = 10"
  shows "prime ! 4 = 121" and "hv2 ht key = 11" and "\<not> coprime (hv2 ht key) (prime ! 4)"
  using assms by (simp_all add: hv2_def prime_def coprime_iff_gcd_eq_1)

end
