(* ===== verification/Tree.thy ===== *)
theory Tree
  imports Srange Resset Hash
begin

text \<open>
  The rule tree (\<open>lib/db0.c\<close>): junctions, which have one branch for each type of element that can
  follow, and \<open>element_add\<close>, which stores the elements of a rule along a path of the tree.

  Junctions are shared (the two limits of a range lead to the same one), so they are kept in a store
  and a pointer to a junction is a position in it; \<open>junc_new\<close> adds one at the end. A branch is
  changed in place, in the junction it belongs to. The store also has the numbers that \<open>rand\<close> will
  return and the memory in front of an allocated string, which the insertion of a suffix reads.

  The pointers \<^verbatim>\<open>next\<close> and \<^verbatim>\<open>memberof\<close> of an element are those of a cursor: the element, the
  elements behind it in its list, and the cursor of the element it is a member of.

  The outer option of a result is a fault. Rule instances are of a type \<open>'r\<close>.
\<close>

definition NTYPES :: nat where "NTYPES = 9"
definition DATATYPES :: nat where "DATATYPES = 6"
definition RAND_MAX :: nat where "RAND_MAX = 2147483647"

subsection \<open>Elements with their context\<close>

datatype cursor = Cur (c_el: element) (c_rest: "element list") (c_memberof: "cursor option")

definition c_next :: "cursor \<Rightarrow> cursor option" where
  "c_next c = (case c_rest c of [] \<Rightarrow> None | e # es \<Rightarrow> Some (Cur e es (c_memberof c)))"

definition c_head :: "cursor \<Rightarrow> cursor option" where
  "c_head c = (case c_el c of EList (e # es) \<Rightarrow> Some (Cur e es (Some c)) | _ \<Rightarrow> None)"

definition c_top :: "element \<Rightarrow> cursor" where
  "c_top e = Cur e [] None"

text \<open>The members of a set have no \<^verbatim>\<open>next\<close>.\<close>

definition c_member :: "cursor \<Rightarrow> element \<Rightarrow> cursor" where
  "c_member c e = Cur e [] (Some c)"

definition is_list :: "cursor \<Rightarrow> bool" where
  "is_list c \<longleftrightarrow> element_type (c_el c) = SPOC_LIST"

definition is_set :: "cursor \<Rightarrow> bool" where
  "is_set c \<longleftrightarrow> element_type (c_el c) = SPOC_SET"

subsection \<open>Junctions and branches\<close>

record 'r dset =
  ds_uid :: 'r
  ds_va :: "nat varr option"

datatype 'r bval =
    VSet "'r dset list"
  | VAtom "nat phash option"
  | VJunc "nat option"
  | VSsn "nat ssn"
  | VRange "nat slist option list"
  | VId "'r spocp_index option"

record 'r branch =
  br_type :: nat
  br_count :: int
  br_parent :: nat
  br_val :: "'r bval"

type_synonym 'r junc = "'r branch option list"

record 'r store =
  st_juncs :: "'r junc list"
  st_rand :: "nat \<Rightarrow> nat"
  st_nrand :: nat
  st_before :: bytes

definition junc_new :: "'r store \<Rightarrow> nat \<times> 'r store" where
  "junc_new st = (length (st_juncs st), st\<lparr>st_juncs := st_juncs st @ [replicate NTYPES None]\<rparr>)"

definition ARRFIND :: "'r store \<Rightarrow> nat \<Rightarrow> nat \<Rightarrow> 'r branch option" where
  "ARRFIND st jp t = (if jp < length (st_juncs st) \<and> t < NTYPES then st_juncs st ! jp ! t else None)"

definition set_item :: "'r store \<Rightarrow> nat \<Rightarrow> nat \<Rightarrow> 'r branch option \<Rightarrow> 'r store" where
  "set_item st jp t b = st\<lparr>st_juncs := (st_juncs st)[jp := (st_juncs st ! jp)[t := b]]\<rparr>"

definition branch_add :: "'r store \<Rightarrow> nat \<Rightarrow> 'r branch \<Rightarrow> 'r store" where
  "branch_add st jp bp = set_item st jp (br_type bp) (Some (bp\<lparr>br_parent := jp\<rparr>))"

text \<open>The zeroed union of a new branch.\<close>

definition zero_val :: "nat \<Rightarrow> 'r bval" where
  "zero_val t =
     (if t = SPOC_SET then VSet [] else if t = SPOC_ATOM then VAtom None
      else if t = SPOC_PREFIX \<or> t = SPOC_SUFFIX then VSsn SNull
      else if t = SPOC_RANGE then VRange (replicate DATATYPES None)
      else if t = SPOC_ENDOFRULE then VId None else VJunc None)"

definition new_branch :: "nat \<Rightarrow> 'r branch" where
  "new_branch t = \<lparr>br_type = t, br_count = 1, br_parent = 0, br_val = zero_val t\<rparr>"

definition set_val :: "'r store \<Rightarrow> nat \<Rightarrow> 'r branch \<Rightarrow> 'r bval \<Rightarrow> 'r store" where
  "set_val st jp bp v = set_item st jp (br_type bp) (Some (bp\<lparr>br_val := v\<rparr>))"

text \<open>The junction that an insertion has returned: a new one when it is the one offered.\<close>

definition alloc :: "'r store \<Rightarrow> nat \<Rightarrow> 'r store" where
  "alloc st jp = (if jp = length (st_juncs st) then snd (junc_new st) else st)"

subsection \<open>Adding an element to its branch\<close>

text \<open>A change of a bucket in place.\<close>

definition buck_set :: "'n phash \<Rightarrow> 'n buck \<Rightarrow> 'n buck \<Rightarrow> 'n phash" where
  "buck_set ht b b' = ht\<lparr>ph_arr := map (\<lambda>x. if x = Some b then Some b' else x) (ph_arr ht)\<rparr>"

definition atom_add :: "'r store \<Rightarrow> nat \<Rightarrow> 'r branch \<Rightarrow> atom \<Rightarrow> ('r store \<times> nat) option" where
  "atom_add st jp bp ap = (case br_val bp of
      VAtom at \<Rightarrow>
        (case phash_insert (length prime) (case at of None \<Rightarrow> phash_new 3 50 | Some ht \<Rightarrow> ht) (a_val ap) (a_hash ap) of
           None \<Rightarrow> None
         | Some (ht, bucket) \<Rightarrow>
            let nx = (case buck_next bucket of None \<Rightarrow> length (st_juncs st) | Some n \<Rightarrow> n);
                ht' = buck_set ht bucket (bucket\<lparr>buck_refc := buck_refc bucket + 1, buck_next := Some nx\<rparr>)
            in Some (alloc (set_val st jp bp (VAtom (Some ht'))) nx, nx))
    | _ \<Rightarrow> None)"

definition any_add :: "'r store \<Rightarrow> nat \<Rightarrow> 'r branch \<Rightarrow> ('r store \<times> nat) option" where
  "any_add st jp bp = (case br_val bp of
      VJunc None \<Rightarrow> (let n = length (st_juncs st) in Some (alloc (set_val st jp bp (VJunc (Some n))) n, n))
    | VJunc (Some n) \<Rightarrow> Some (st, n)
    | _ \<Rightarrow> None)"

definition ssn_add :: "nat \<Rightarrow> 'r store \<Rightarrow> nat \<Rightarrow> 'r branch \<Rightarrow> atom \<Rightarrow> ('r store \<times> nat) option" where
  "ssn_add direction st jp bp ap = (case br_val bp of
      VSsn t \<Rightarrow>
        (case ssn_insert t (st_before st) (oct_val (a_val ap)) direction (length (st_juncs st)) of
           None \<Rightarrow> None
         | Some (t', n) \<Rightarrow> Some (alloc (set_val st jp bp (VSsn t')) n, n))
    | _ \<Rightarrow> None)"

definition prefix_add :: "'r store \<Rightarrow> nat \<Rightarrow> 'r branch \<Rightarrow> atom \<Rightarrow> ('r store \<times> nat) option" where
  "prefix_add st jp bp ap = ssn_add FORWARD st jp bp ap"

definition suffix_add :: "'r store \<Rightarrow> nat \<Rightarrow> 'r branch \<Rightarrow> atom \<Rightarrow> ('r store \<times> nat) option" where
  "suffix_add st jp bp ap = ssn_add BACKWARD st jp bp ap"

text \<open>An index past the array of lists is a fault.\<close>

definition range_add :: "'r store \<Rightarrow> nat \<Rightarrow> 'r branch \<Rightarrow> range \<Rightarrow> ('r store \<times> nat) option" where
  "range_add st jp bp rp = (case br_val bp of
      VRange ss \<Rightarrow>
        (let i = b_type (r_lower rp) AND 0x07 in
         if i < length ss then
           (case sl_range_add RAND_MAX (st_rand st (st_nrand st)) (st_rand st (st_nrand st + 1))
                   (case ss ! i of None \<Rightarrow> sl_init 4 | Some s \<Rightarrow> s) rp (length (st_juncs st)) of
              None \<Rightarrow> None
            | Some (s', n) \<Rightarrow>
               Some (alloc (set_val (st\<lparr>st_nrand := st_nrand st + 2\<rparr>) jp bp (VRange (ss[i := Some s']))) n, n))
         else None)
    | _ \<Rightarrow> None)"

subsection \<open>Ends of lists and rules\<close>

definition list_end :: "'r store \<Rightarrow> nat \<Rightarrow> ('r store \<times> nat) option" where
  "list_end st arr = (case ARRFIND st arr SPOC_ENDOFLIST of
      None \<Rightarrow>
        (case junc_new st of (n, st') \<Rightarrow>
           Some (branch_add st' arr ((new_branch SPOC_ENDOFLIST)\<lparr>br_val := VJunc (Some n)\<rparr>), n))
    | Some db \<Rightarrow>
        (case br_val db of
           VJunc (Some n) \<Rightarrow> Some (set_item st arr SPOC_ENDOFLIST (Some (db\<lparr>br_count := br_count db + 1\<rparr>)), n)
         | _ \<Rightarrow> None))"

definition rule_end :: "'r store \<Rightarrow> nat \<Rightarrow> 'r \<Rightarrow> ('r store \<times> nat) option" where
  "rule_end st ap ri = (case ARRFIND st ap SPOC_ENDOFRULE of
      None \<Rightarrow> map_option (\<lambda>sid. (branch_add st ap ((new_branch SPOC_ENDOFRULE)\<lparr>br_val := VId sid\<rparr>), ap))
                (index_add None (Some ri))
    | Some bp \<Rightarrow>
        (case br_val bp of
           VId sid \<Rightarrow> map_option (\<lambda>sid'. (set_item st ap SPOC_ENDOFRULE
                       (Some (bp\<lparr>br_count := br_count bp + 1, br_val := VId sid'\<rparr>)), ap)) (index_add sid (Some ri))
         | _ \<Rightarrow> None))"

text \<open>\<open>list_close\<close> returns the store, the junction, the element it has reached and whether the rule ended.\<close>

fun list_close :: "'r store \<Rightarrow> nat \<Rightarrow> cursor \<Rightarrow> 'r \<Rightarrow> ('r store \<times> nat \<times> cursor \<times> bool) option" where
  "list_close st ap (Cur e es None) ri = None"
| "list_close st ap (Cur e es (Some parent)) ri =
     (case (if is_list parent then list_end st ap else Some (st, ap)) of
        None \<Rightarrow> None
      | Some (st1, ap1) \<Rightarrow>
         if (is_list parent \<or> is_set parent) \<and> c_next parent = None \<and> c_memberof parent \<noteq> None
         then list_close st1 ap1 parent ri
         else if c_memberof parent = None
         then map_option (\<lambda>(st2, ap2). (st2, ap2, parent, True)) (rule_end st1 ap1 ri)
         else Some (st1, ap1, parent, False))"

subsection \<open>Storing a rule\<close>

fun weight :: "element \<Rightarrow> nat" where
  "weight (EList es) = Suc (sum_list (map weight es))"
| "weight (ESet (Some es)) = Suc (sum_list (map weight es))"
| "weight e = 1"

fun after :: "cursor \<Rightarrow> nat" where
  "after (Cur e es None) = sum_list (map weight es)"
| "after (Cur e es (Some c)) = sum_list (map weight es) + after c"

lemma weight_pos: "0 < weight e"
  by (cases e rule: weight.cases) auto

lemma after_next: "c_next c = Some n \<Longrightarrow> weight (c_el n) + after n = after c"
  by (cases c; cases "c_memberof c") (auto simp: c_next_def split: list.splits)

lemma after_head: "c_head c = Some h \<Longrightarrow> weight (c_el h) + after h < weight (c_el c) + after c"
  by (cases c) (auto simp: c_head_def split: element.splits list.splits)

lemma after_member: "after (c_member c e) = after c"
  by (simp add: c_member_def)

lemma after_list_close: "list_close st ap c ri = Some (st', ap', p, eor) \<Longrightarrow> after p \<le> after c"
proof (induction st ap c ri rule: list_close.induct)
  case (2 st ap e es parent ri)
  then show ?case by (auto split: option.splits if_splits prod.splits) force+
qed simp

text \<open>The members of a set are stored side by side at the junction of the set; the results are kept in the
  last \<^verbatim>\<open>dset\<close> of the branch.\<close>

definition dset_new :: "'r store \<Rightarrow> nat \<Rightarrow> 'r branch \<Rightarrow> 'r \<Rightarrow> 'r store option" where
  "dset_new st jp bp ri = (case br_val bp of
      VSet ds \<Rightarrow> Some (set_val st jp bp (VSet (ds @ [\<lparr>ds_uid = ri, ds_va = None\<rparr>])))
    | _ \<Rightarrow> None)"

definition dset_va :: "'r store \<Rightarrow> nat \<Rightarrow> nat varr option \<Rightarrow> 'r store" where
  "dset_va st jp va = (case ARRFIND st jp SPOC_SET of
      Some bp \<Rightarrow> (case br_val bp of
          VSet ds \<Rightarrow> if ds = [] then st else set_val st jp bp (VSet (butlast ds @ [(last ds)\<lparr>ds_va := va\<rparr>]))
        | _ \<Rightarrow> st)
    | None \<Rightarrow> st)"

text \<open>The branch of the element, new or counted up; and what is done when nothing could be stored.\<close>

definition enter_branch :: "'r store \<Rightarrow> nat \<Rightarrow> nat \<Rightarrow> 'r store" where
  "enter_branch st jp t = (case ARRFIND st jp t of
      None \<Rightarrow> branch_add st jp (new_branch t)
    | Some bp \<Rightarrow> set_item st jp t (Some (bp\<lparr>br_count := br_count bp + 1\<rparr>)))"

definition leave_branch :: "'r store \<Rightarrow> nat \<Rightarrow> nat \<Rightarrow> nat option \<Rightarrow> 'r store" where
  "leave_branch st jp t ap = (case (ap, ARRFIND st jp t) of
      (None, Some bp) \<Rightarrow>
        set_item st jp t (if br_count bp - 1 = 0 then None else Some (bp\<lparr>br_count := br_count bp - 1\<rparr>))
    | _ \<Rightarrow> st)"

text \<open>The part of \<open>element_add\<close> that depends on the type, for elements without members.\<close>

definition leaf_add :: "'r store \<Rightarrow> nat \<Rightarrow> 'r branch \<Rightarrow> element \<Rightarrow> ('r store \<times> nat) option" where
  "leaf_add st jp bp e = (case e of
      EAtom a \<Rightarrow> atom_add st jp bp a
    | EPrefix a \<Rightarrow> prefix_add st jp bp a
    | ESuffix a \<Rightarrow> suffix_add st jp bp a
    | ERange r \<Rightarrow> range_add st jp bp r
    | EAny \<Rightarrow> any_add st jp bp
    | _ \<Rightarrow> None)"

definition list_junc :: "'r store \<Rightarrow> nat \<Rightarrow> 'r branch \<Rightarrow> ('r store \<times> nat) option" where
  "list_junc st jp bp = any_add st jp bp"

function (sequential) element_add :: "'r store \<Rightarrow> nat \<Rightarrow> cursor \<Rightarrow> 'r \<Rightarrow> ('r store \<times> nat option) option"
  and set_add :: "'r store \<Rightarrow> nat \<Rightarrow> cursor \<Rightarrow> element list \<Rightarrow> 'r \<Rightarrow> nat varr option \<Rightarrow> nat option \<Rightarrow>
    ('r store \<times> nat varr option \<times> nat option) option"
  and add_next :: "'r store \<Rightarrow> nat \<Rightarrow> cursor \<Rightarrow> 'r \<Rightarrow> ('r store \<times> nat option) option" where
  "element_add st jp c ri =
     (let t = element_type (c_el c); st1 = enter_branch st jp t in
      case ARRFIND st1 jp t of
        None \<Rightarrow> None
      | Some bp \<Rightarrow>
         map_option (\<lambda>(st2, ap). (leave_branch st2 jp t ap, ap))
           (case c_el c of
              ESet s \<Rightarrow>
                (case dset_new st1 jp bp ri of
                   None \<Rightarrow> None
                 | Some st2 \<Rightarrow>
                    (case s of
                       None \<Rightarrow> Some (st2, None)
                     | Some es \<Rightarrow>
                        (case set_add st2 jp c es ri None None of
                           None \<Rightarrow> None
                         | Some (st3, va, ap) \<Rightarrow> Some (dset_va st3 jp va, ap))))
            | EList es \<Rightarrow>
                (case list_junc st1 jp bp of
                   None \<Rightarrow> None
                 | Some (st2, lj) \<Rightarrow>
                    (case c_head c of
                       None \<Rightarrow> None
                     | Some h \<Rightarrow>
                        (case element_add st2 lj h ri of
                           None \<Rightarrow> None
                         | Some (st3, None) \<Rightarrow> Some (st3, None)
                         | Some (st3, Some ap) \<Rightarrow> add_next st3 ap c ri)))
            | e \<Rightarrow>
                (case leaf_add st1 jp bp e of
                   None \<Rightarrow> None
                 | Some (st2, ap) \<Rightarrow> add_next st2 ap c ri)))"
| "set_add st jp c [] ri va ap = Some (st, va, ap)"
| "set_add st jp c (e # es) ri va ap =
     (case element_add st jp (c_member c e) ri of
        None \<Rightarrow> None
      | Some (st1, None) \<Rightarrow> Some (st1, va, None)
      | Some (st1, Some n) \<Rightarrow>
         (case varr_add va n of None \<Rightarrow> None | Some va' \<Rightarrow> set_add st1 jp c es ri (Some va') (Some n)))"
| "add_next st jp c ri =
     (case c_next c of
        Some n \<Rightarrow> element_add st jp n ri
      | None \<Rightarrow>
         if c_memberof c = None \<or> is_list c then Some (st, Some jp)
         else
           (case list_close st jp c ri of
              None \<Rightarrow> None
            | Some (st1, jp1, p, eor) \<Rightarrow>
               (case (if eor then None else c_next p) of
                  None \<Rightarrow> Some (st1, Some jp1)
                | Some n \<Rightarrow> element_add st1 jp1 n ri)))"
  by pat_completeness auto
termination
  by (relation "measure (\<lambda>x. case x of
      Inl (st, jp, c, ri) \<Rightarrow> 2 * (weight (c_el c) + after c)
    | Inr (Inl (st, jp, c, es, ri, va, ap)) \<Rightarrow> 2 * (sum_list (map weight es) + after c) + 1
    | Inr (Inr (st, jp, c, ri)) \<Rightarrow> 2 * after c + 1)")
    (auto simp: c_member_def weight_pos split: if_splits dest!: after_head after_next after_list_close)

declare element_add.simps [simp del] add_next.simps [simp del]

subsection \<open>The database\<close>

text \<open>A rule instance (\<^verbatim>\<open>ruleinst_t\<close>): its identifier, its text, its blob and the parsed rule. Boundary
  conditions are those of a theory of their own; here a condition is a value of type \<open>'c\<close>.\<close>

record 'c ruleinst =
  ri_uid :: bytes
  ri_rule :: octet
  ri_blob :: "octet option"
  ri_bcexp :: "octet option"
  ri_ep :: "element option"
  ri_bcond :: "'c option"

end
