(* ===== verification/Match.thy ===== *)
theory Match
  imports Tree
begin

text \<open>
  Matching a query against the rule tree (\<open>lib/match.c\<close>), with the list of checked rules
  (\<open>lib/check.c\<close>), the check of the rules at a leaf (\<open>bcond_check\<close> of \<open>lib/bcond.c\<close>) and
  \<open>allowed\<close> (\<open>lib/aci.c\<close>).

  The functions of \<open>match.c\<close> call each other only through \<open>element_match_r\<close>, which is an argument \<open>M\<close> of
  the definitions before it; \<open>element_match_r\<close> itself has a bound on the depth of its calls, and \<open>None\<close> is
  a fault or the bound being too small. Pointers that may be null are options. \<open>beval\<close> stands for
  \<open>bcexp_eval\<close>, the evaluation of the boundary condition of a rule for a query: its result code and
  the dynamic blob.
\<close>

record 'c checked =
  ck_ri :: "'c ruleinst"
  ck_rc :: spocp_result
  ck_blob :: "octet option"

record 'c comparam =
  cp_head :: element
  cp_blob :: "octarr option"
  cp_rc :: spocp_result
  cp_all :: bool
  cp_nobe :: bool
  cp_cr :: "'c checked list"

type_synonym 'c tree = "'c ruleinst store"
type_synonym 'c answer = "('c ruleinst resset \<times> 'c comparam) option"
type_synonym 'c matcher = "nat option \<Rightarrow> cursor option \<Rightarrow> 'c comparam \<Rightarrow> 'c answer"
type_synonym 'c evaluator = "element \<Rightarrow> 'c ruleinst \<Rightarrow> (spocp_result \<times> octet option) option"

subsection \<open>Checked rules\<close>

definition checked_rule :: "'c ruleinst \<Rightarrow> 'c checked list \<Rightarrow> 'c checked option" where
  "checked_rule ri cr = List.find (\<lambda>c. ck_ri c = ri) cr"

definition checked_res :: "'c ruleinst \<Rightarrow> 'c checked list \<Rightarrow> spocp_result option" where
  "checked_res ri cr = map_option ck_rc (checked_rule ri cr)"

definition add_checked :: "'c ruleinst \<Rightarrow> spocp_result \<Rightarrow> octet option \<Rightarrow> 'c checked list \<Rightarrow> 'c checked list" where
  "add_checked ri rc blob cr = cr @ [\<lparr>ck_ri = ri, ck_rc = rc, ck_blob = blob\<rparr>]"

text \<open>Adding a blob to the array of the query.\<close>

definition blob_add :: "'c comparam \<Rightarrow> octet option \<Rightarrow> 'c comparam option" where
  "blob_add q b = (case b of None \<Rightarrow> Some q
     | Some o1 \<Rightarrow> map_option (\<lambda>a. q\<lparr>cp_blob := Some a\<rparr>) (octarr_add (cp_blob q) o1))"

definition blob_dup :: "octet option \<Rightarrow> octet option option" where
  "blob_dup b = octdup b"

text \<open>The loop of \<open>bcond_check\<close>; \<open>r\<close> is the result so far and \<open>blob\<close> the last blob. A dynamic blob is added
  both where it is found and where the rule is accepted.\<close>

fun bcond_loop :: "'c evaluator \<Rightarrow> 'c ruleinst list \<Rightarrow> spocp_result \<Rightarrow> octet option \<Rightarrow> 'c comparam \<Rightarrow>
    (spocp_result \<times> 'c comparam) option" where
  "bcond_loop beval [] r blob q = Some (r, q)"
| "bcond_loop beval (ri # rs) r blob q =
     (case (case checked_rule ri (cp_cr q) of
              None \<Rightarrow> Some (r, q)
            | Some c \<Rightarrow> Option.bind (blob_dup (ck_blob c)) (\<lambda>b. map_option (\<lambda>cp. (ck_rc c, cp)) (blob_add q b))) of
        None \<Rightarrow> None
      | Some (r0, q0) \<Rightarrow>
         if checked_rule ri (cp_cr q) \<noteq> None \<and> r0 = SPOCP_SUCCESS then Some (r0, q0)
         else
           (case (case ri_bcond ri of
                    None \<Rightarrow> map_option (\<lambda>b. (SPOCP_SUCCESS, if ri_blob ri = None then blob else b, q0)) (blob_dup (ri_blob ri))
                  | Some _ \<Rightarrow> Option.bind (beval (cp_head q0) ri) (\<lambda>(r1, dyn).
                      map_option (\<lambda>cp. (r1, if dyn = None then blob else dyn, cp)) (blob_add q0 dyn))) of
              None \<Rightarrow> None
            | Some (r1, blob1, q1) \<Rightarrow>
               if r1 = SPOCP_SUCCESS then
                 Option.bind (blob_dup blob1) (\<lambda>b. map_option (\<lambda>cp. (r1, cp))
                   (blob_add (q1\<lparr>cp_cr := add_checked ri r1 b (cp_cr q1)\<rparr>) blob1))
               else bcond_loop beval rs r1 blob1 q1))"

text \<open>A null index is followed.\<close>

definition bcond_check :: "'c evaluator \<Rightarrow> 'c ruleinst spocp_index option \<Rightarrow> 'c comparam \<Rightarrow> (spocp_result \<times> 'c comparam) option" where
  "bcond_check beval si q = (case si of None \<Rightarrow> None
     | Some i \<Rightarrow> bcond_loop beval (si_arr i) SPOCP_DENIED None q)"

subsection \<open>Branches that an element is compared with\<close>

definition atom2atom_match :: "atom \<Rightarrow> nat phash option \<Rightarrow> nat option option" where
  "atom2atom_match ap pp = Option.bind pp (\<lambda>ht.
     map_option (\<lambda>b. Option.bind b buck_next) (phash_search ht (a_val ap) (a_hash ap)))"

definition atom2prefix_match :: "atom \<Rightarrow> nat ssn \<Rightarrow> nat varr option option" where
  "atom2prefix_match ap pp = ssn_match pp (oct_val (a_val ap)) FORWARD"

definition atom2suffix_match :: "atom \<Rightarrow> nat ssn \<Rightarrow> nat varr option option" where
  "atom2suffix_match ap pp = ssn_match pp (oct_val (a_val ap)) BACKWARD"

definition prefix2prefix_match :: "atom \<Rightarrow> nat ssn \<Rightarrow> nat varr option option" where
  "prefix2prefix_match prefa pp = atom2prefix_match prefa pp"

definition suffix2suffix_match :: "atom \<Rightarrow> nat ssn \<Rightarrow> nat varr option option" where
  "suffix2suffix_match prefa pp = atom2suffix_match prefa pp"

definition range2range_match :: "range \<Rightarrow> nat slist \<Rightarrow> nat varr option option" where
  "range2range_match ra slp = sl_range_match slp ra"

text \<open>\<open>atom2range_match\<close> returns the junctions, and the error code when the atom is not of the type of the
  list. \<open>num\<close> is the uninitialised number that \<open>hms2int\<close> adds to. The last byte of a date is dropped.\<close>

definition value_boundary :: "nat \<Rightarrow> int \<Rightarrow> boundary" where
  "value_boundary vtype num = \<lparr>b_type = vtype OR EQ, b_num = num, b_v4 = 0, b_val = null_octet\<rparr>"

definition atom2range_value :: "int \<Rightarrow> atom \<Rightarrow> nat \<Rightarrow> boundary option option" where
  "atom2range_value num ap vtype =
     (let v = value_boundary vtype num in
      if vtype = SPOC_DATE then
        map_option (\<lambda>r. if r = SPOCP_SUCCESS
            then Some (v\<lparr>b_val := \<lparr>oct_val = oct_val (a_val ap), oct_len = oct_len (a_val ap) - 1, oct_size = 0\<rparr>\<rparr>) else None)
          (is_date (a_val ap))
      else if vtype = SPOC_TIME then
        Option.bind (is_time (Some (a_val ap))) (\<lambda>r. if r = SPOCP_SUCCESS
          then map_option (\<lambda>n. Some (v\<lparr>b_num := n\<rparr>)) (hms2int (a_val ap) num) else Some None)
      else if vtype = SPOC_NUMERIC then
        map_option (\<lambda>x. case x of Inl _ \<Rightarrow> None | Inr n \<Rightarrow> Some (v\<lparr>b_num := n\<rparr>)) (is_numeric (a_val ap))
      else if vtype = SPOC_IPV4 then
        map_option (\<lambda>x. case x of Inl _ \<Rightarrow> None | Inr a \<Rightarrow> Some (v\<lparr>b_v4 := a\<rparr>)) (is_ipv4 (a_val ap))
      else if vtype = SPOC_ALPHA then Some (Some (v\<lparr>b_val := (a_val ap)\<lparr>oct_size := 0\<rparr>\<rparr>))
      else Some (Some v))"

definition atom2range_match :: "int \<Rightarrow> atom \<Rightarrow> nat slist \<Rightarrow> nat \<Rightarrow> (nat varr option \<times> spocp_result option) option" where
  "atom2range_match num ap slp vtype = (case atom2range_value num ap vtype of
      None \<Rightarrow> None
    | Some None \<Rightarrow> Some (None, Some SPOCP_SYNTAXERROR)
    | Some (Some b) \<Rightarrow> map_option (\<lambda>r. (r, None)) (sl_match (Some slp) b))"

subsection \<open>Results\<close>

definition rss_add :: "'c ruleinst resset \<Rightarrow> 'c ruleinst spocp_index \<Rightarrow> 'c comparam \<Rightarrow> 'c ruleinst resset \<times> 'c comparam" where
  "rss_add rs si q = (resset_add rs si (cp_blob q), q\<lparr>cp_blob := None\<rparr>)"

text \<open>The rules at the end-of-rule branch of a junction: added without a check in the members of a set (\<open>nobe\<close>),
  otherwise when one of them holds.\<close>

definition rules_at :: "'c tree \<Rightarrow> nat \<Rightarrow> 'c ruleinst spocp_index option option" where
  "rules_at st jp = Option.bind (ARRFIND st jp SPOC_ENDOFRULE) (\<lambda>bp. case br_val bp of VId si \<Rightarrow> Some si | _ \<Rightarrow> None)"

definition accept :: "'c evaluator \<Rightarrow> bool \<Rightarrow> 'c ruleinst spocp_index option \<Rightarrow> 'c ruleinst resset \<Rightarrow> 'c comparam \<Rightarrow>
    ('c ruleinst resset \<times> bool \<times> 'c comparam) option" where
  "accept beval nobe si rs q =
     (if nobe then Option.bind si (\<lambda>i. case rss_add rs i q of (rs', q') \<Rightarrow> Some (rs', False, q'))
      else (case bcond_check beval si q of
              None \<Rightarrow> None
            | Some (r, q') \<Rightarrow>
               if r = SPOCP_SUCCESS
               then Option.bind si (\<lambda>i. case rss_add rs i q' of (rs', q'') \<Rightarrow> Some (rs', True, q''))
               else Some (rs, False, q')))"

definition eol :: "'c tree \<Rightarrow> nat \<Rightarrow> nat option option" where
  "eol st jp = map_option (\<lambda>bp. case br_val bp of VJunc n \<Rightarrow> n | _ \<Rightarrow> None) (ARRFIND st jp SPOC_ENDOFLIST)"

subsection \<open>The end of the lists of a rule\<close>

text \<open>The loop that leaves the lists of the query as long as lists of the rule end.\<close>

fun climb :: "'c tree \<Rightarrow> nat \<Rightarrow> cursor \<Rightarrow> (nat \<times> cursor) option" where
  "climb st vl (Cur e es None) = Some (vl, Cur e es None)"
| "climb st vl (Cur e es (Some p)) = (case eol st vl of
      None \<Rightarrow> Some (vl, Cur e es (Some p))
    | Some None \<Rightarrow> None
    | Some (Some vl') \<Rightarrow> climb st vl' p)"

text \<open>The loop for a query without further elements: down to the end of a rule. A junction comes after the
  one that leads to it in the store of a rule; the bound is the number of junctions.\<close>

fun descend :: "'c tree \<Rightarrow> nat \<Rightarrow> nat \<Rightarrow> nat option option" where
  "descend st 0 vl = None"
| "descend st (Suc n) vl =
     (if ARRFIND st vl SPOC_ENDOFRULE \<noteq> None then Some (Some vl)
      else (case eol st vl of None \<Rightarrow> Some None | Some None \<Rightarrow> None | Some (Some vl') \<Rightarrow> descend st n vl'))"

definition end_of_lists :: "'c evaluator \<Rightarrow> 'c matcher \<Rightarrow> 'c tree \<Rightarrow> nat option \<Rightarrow> cursor option \<Rightarrow>
    'c ruleinst resset \<Rightarrow> 'c comparam \<Rightarrow> 'c answer" where
  "end_of_lists beval M st l ep res q = (case ep of
      Some c \<Rightarrow>
        if c_next c = None \<and> c_memberof c = None then
          (case Option.bind l (rules_at st) of
             None \<Rightarrow> Some (res, q)
           | Some si \<Rightarrow> map_option (\<lambda>(rs, _, q'). (rs, q')) (accept beval False si res q))
        else Option.bind (c_memberof c) (\<lambda>nep. Option.bind l (\<lambda>vl. Option.bind (climb st vl nep) (\<lambda>(vl', nep').
          case c_next nep' of
            Some n \<Rightarrow> map_option (\<lambda>(rs, q'). (resset_join res rs, q')) (M (Some vl') (Some n) q)
          | None \<Rightarrow>
             (case rules_at st vl' of
                None \<Rightarrow> Some (res, q)
              | Some si \<Rightarrow> map_option (\<lambda>(rs, _, q'). (rs, q')) (accept beval (cp_nobe q) si res q)))))
    | None \<Rightarrow>
        Option.bind l (\<lambda>vl. Option.bind (descend st (length (st_juncs st)) vl) (\<lambda>x. case x of
            None \<Rightarrow> Some (res, q)
          | Some vl' \<Rightarrow>
             (case rules_at st vl' of
                None \<Rightarrow> None
              | Some si \<Rightarrow> map_option (\<lambda>(rs, _, q'). (rs, q')) (accept beval (cp_nobe q) si res q)))))"

definition ending :: "'c evaluator \<Rightarrow> 'c matcher \<Rightarrow> 'c tree \<Rightarrow> nat option \<Rightarrow> cursor option \<Rightarrow> 'c comparam \<Rightarrow> 'c answer" where
  "ending beval M st ju ep q = (case ju of
      None \<Rightarrow> Some ([], q)
    | Some jp \<Rightarrow>
       (case (case rules_at st jp of
                None \<Rightarrow> Some ([], False, q)
              | Some si \<Rightarrow> accept beval (cp_nobe q) si [] q) of
          None \<Rightarrow> None
        | Some (res, ok, q1) \<Rightarrow>
           if ok \<and> \<not> cp_all q1 then Some (res, q1)
           else (case eol st jp of
                   None \<Rightarrow> Some (res, q1)
                 | Some l \<Rightarrow> end_of_lists beval M st l ep res q1)))"

subsection \<open>Going on behind a match\<close>

text \<open>The loop of \<open>next\<close> at the last element of a list.\<close>

fun next_up :: "'c tree \<Rightarrow> nat \<Rightarrow> cursor \<Rightarrow> (nat \<times> cursor) option" where
  "next_up st ju (Cur e es None) = Some (ju, Cur e es None)"
| "next_up st ju (Cur e es (Some p)) = (case eol st ju of
      None \<Rightarrow> Some (ju, Cur e es (Some p))
    | Some None \<Rightarrow> None
    | Some (Some ju') \<Rightarrow>
       if c_next p = None \<and> eol st ju' \<noteq> None then next_up st ju' p else Some (ju', p))"

definition next_match :: "'c evaluator \<Rightarrow> 'c matcher \<Rightarrow> 'c tree \<Rightarrow> nat \<Rightarrow> cursor option \<Rightarrow> 'c comparam \<Rightarrow> 'c answer" where
  "next_match beval M st ju ep q = (case ending beval M st (Some ju) ep q of
      None \<Rightarrow> None
    | Some (rs, q1) \<Rightarrow>
       if rs \<noteq> [] \<and> \<not> cp_all q1 then Some (rs, q1)
       else Option.bind ep (\<lambda>c.
         Option.bind (if c_next c = None then next_up st ju c else Some (ju, c)) (\<lambda>(ju', c').
           case c_next c' of
             None \<Rightarrow> Some (rs, q1)
           | Some n \<Rightarrow> map_option (\<lambda>(rs', q'). (resset_join rs rs', q')) (M (Some ju') (Some n) q1))))"

fun do_arr :: "'c evaluator \<Rightarrow> 'c matcher \<Rightarrow> 'c tree \<Rightarrow> nat list \<Rightarrow> cursor option \<Rightarrow> 'c ruleinst resset \<Rightarrow> 'c comparam \<Rightarrow> 'c answer" where
  "do_arr beval M st [] ep rs q = Some (rs, q)"
| "do_arr beval M st (jp # js) ep rs q = (case next_match beval M st jp ep q of
      None \<Rightarrow> None
    | Some (r, q1) \<Rightarrow>
       (case (if r = [] \<or> cp_all q1 then map_option (\<lambda>(r', q'). (resset_join r r', q')) (M (Some jp) ep q1) else Some (r, q1)) of
          None \<Rightarrow> None
        | Some (r2, q2) \<Rightarrow>
           if r2 = [] then do_arr beval M st js ep rs q2
           else if \<not> cp_all q2 then Some (r2, q2)
           else do_arr beval M st js ep (resset_join rs r2) q2))"

text \<open>\<open>varr_junc_pop\<close> takes the junctions from the end. A null array is no match.\<close>

definition try_arr :: "'c evaluator \<Rightarrow> 'c matcher \<Rightarrow> 'c tree \<Rightarrow> nat varr option \<Rightarrow> cursor option \<Rightarrow> 'c ruleinst resset \<Rightarrow> 'c comparam \<Rightarrow> 'c answer" where
  "try_arr beval M st avp ep rs q = (case avp of
      None \<Rightarrow> Some (rs, q)
    | Some a \<Rightarrow> map_option (\<lambda>(r, q'). (resset_join rs r, q')) (do_arr beval M st (rev (v_items a)) ep [] q))"

subsection \<open>Matching an element\<close>

text \<open>The lists of the ranges, from data type \<open>i\<close> on; \<open>num\<close> is what the uninitialised number of a time has.\<close>

fun range_lists :: "'c evaluator \<Rightarrow> int \<Rightarrow> 'c matcher \<Rightarrow> 'c tree \<Rightarrow> atom \<Rightarrow> cursor \<Rightarrow> nat slist option list \<Rightarrow> nat \<Rightarrow>
    'c ruleinst resset \<Rightarrow> 'c comparam \<Rightarrow> 'c answer" where
  "range_lists beval num M st a c [] i rs q = Some (rs, q)"
| "range_lists beval num M st a c (None # ss) i rs q = range_lists beval num M st a c ss (Suc i) rs q"
| "range_lists beval num M st a c (Some s # ss) i rs q = (case atom2range_match num a s i of
      None \<Rightarrow> None
    | Some (avp, rc) \<Rightarrow>
       (case try_arr beval M st avp (Some c) rs (case rc of None \<Rightarrow> q | Some r \<Rightarrow> q\<lparr>cp_rc := r\<rparr>) of
          None \<Rightarrow> None
        | Some (rs', q') \<Rightarrow>
           if avp \<noteq> None \<and> rs' \<noteq> [] \<and> \<not> cp_all q' then Some (rs', q')
           else range_lists beval num M st a c ss (Suc i) rs' q'))"

text \<open>One kind of branch of \<open>atom_match\<close>; when it gives a result the rest is skipped unless all results
  are wanted.\<close>

definition then_try :: "'c answer \<Rightarrow> ('c ruleinst resset \<Rightarrow> 'c comparam \<Rightarrow> 'c answer) \<Rightarrow> 'c answer" where
  "then_try x k = (case x of None \<Rightarrow> None | Some (rs, q) \<Rightarrow> if rs \<noteq> [] \<and> \<not> cp_all q then Some (rs, q) else k rs q)"

definition branch_val :: "'c tree \<Rightarrow> nat \<Rightarrow> nat \<Rightarrow> 'c ruleinst bval option" where
  "branch_val st db t = map_option br_val (ARRFIND st db t)"

definition atom_branch :: "'c evaluator \<Rightarrow> 'c matcher \<Rightarrow> 'c tree \<Rightarrow> nat \<Rightarrow> atom \<Rightarrow> cursor \<Rightarrow> 'c comparam \<Rightarrow> 'c answer" where
  "atom_branch beval M st db a c q = (case branch_val st db SPOC_ATOM of
      None \<Rightarrow> Some ([], q)
    | Some (VAtom ht) \<Rightarrow>
       (case atom2atom_match a ht of
          None \<Rightarrow> None
        | Some None \<Rightarrow> Some ([], q)
        | Some (Some ju) \<Rightarrow> next_match beval M st ju (Some c) q)
    | Some _ \<Rightarrow> None)"

definition ssn_branch :: "'c evaluator \<Rightarrow> 'c matcher \<Rightarrow> 'c tree \<Rightarrow> nat \<Rightarrow> nat \<Rightarrow> (nat ssn \<Rightarrow> nat varr option option) \<Rightarrow>
    cursor option \<Rightarrow> 'c ruleinst resset \<Rightarrow> 'c comparam \<Rightarrow> 'c answer" where
  "ssn_branch beval M st db t mt ep rs q = (case branch_val st db t of
      None \<Rightarrow> Some (rs, q)
    | Some (VSsn x) \<Rightarrow> (case mt x of None \<Rightarrow> None | Some avp \<Rightarrow> try_arr beval M st avp ep rs q)
    | Some _ \<Rightarrow> None)"

definition range_branch :: "'c evaluator \<Rightarrow> int \<Rightarrow> 'c matcher \<Rightarrow> 'c tree \<Rightarrow> nat \<Rightarrow> atom \<Rightarrow> cursor \<Rightarrow>
    'c ruleinst resset \<Rightarrow> 'c comparam \<Rightarrow> 'c answer" where
  "range_branch beval num M st db a c rs q = (case branch_val st db SPOC_RANGE of
      None \<Rightarrow> Some (rs, q)
    | Some (VRange ss) \<Rightarrow> range_lists beval num M st a c ss 0 rs q
    | Some _ \<Rightarrow> None)"

definition atom_match :: "'c evaluator \<Rightarrow> int \<Rightarrow> 'c matcher \<Rightarrow> 'c tree \<Rightarrow> nat \<Rightarrow> atom \<Rightarrow> cursor \<Rightarrow> 'c comparam \<Rightarrow> 'c answer" where
  "atom_match beval num M st db a c q =
     then_try (atom_branch beval M st db a c q) (\<lambda>rs q.
     then_try (ssn_branch beval M st db SPOC_PREFIX (atom2prefix_match a) (Some c) rs q) (\<lambda>rs q.
     then_try (ssn_branch beval M st db SPOC_SUFFIX (atom2suffix_match a) (Some c) rs q) (\<lambda>rs q.
     range_branch beval num M st db a c rs q)))"

text \<open>The members of a set in a query: the rules that all of them match.\<close>

fun set_match :: "'c matcher \<Rightarrow> nat \<Rightarrow> cursor \<Rightarrow> element list \<Rightarrow> 'c ruleinst resset \<Rightarrow> 'c comparam \<Rightarrow> 'c answer" where
  "set_match M db c [] setrs q = Some (setrs, q)"
| "set_match M db c (e # es) setrs q = (case M (Some db) (Some (c_member c e)) q of
      None \<Rightarrow> None
    | Some (rs, q') \<Rightarrow>
       (case (if setrs = [] then resset_compact rs else resset_and setrs rs) of
          None \<Rightarrow> None
        | Some setrs' \<Rightarrow> if setrs' = [] then Some ([], q') else set_match M db c es setrs' q'))"

definition set_branch :: "'c evaluator \<Rightarrow> 'c matcher \<Rightarrow> nat \<Rightarrow> cursor \<Rightarrow> element list option \<Rightarrow> 'c ruleinst resset \<Rightarrow> 'c comparam \<Rightarrow> 'c answer" where
  "set_branch beval M db c s res q =
     (case set_match M db c (case s of None \<Rightarrow> [] | Some es \<Rightarrow> es) [] (q\<lparr>cp_all := True, cp_nobe := True\<rparr>) of
        None \<Rightarrow> None
      | Some (setrs, q1) \<Rightarrow>
         let q2 = q1\<lparr>cp_all := cp_all q, cp_nobe := False\<rparr> in
         (case setrs of [] \<Rightarrow> Some (res, q2)
          | n # _ \<Rightarrow>
             (case bcond_check beval (rs_si n) q2 of
                None \<Rightarrow> None
              | Some (r, q3) \<Rightarrow>
                 if r = SPOCP_SUCCESS then Option.bind (rs_si n) (\<lambda>i. Some (rss_add res i q3)) else Some (res, q3))))"

definition element_match :: "'c evaluator \<Rightarrow> int \<Rightarrow> 'c matcher \<Rightarrow> 'c tree \<Rightarrow> nat \<Rightarrow> cursor \<Rightarrow> 'c ruleinst resset \<Rightarrow> 'c comparam \<Rightarrow> 'c answer" where
  "element_match beval num M st db c res q = (case c_el c of
      EAtom a \<Rightarrow> map_option (\<lambda>(rs, q'). (resset_join res rs, q')) (atom_match beval num M st db a c q)
    | ESet s \<Rightarrow> set_branch beval M db c s res q
    | EPrefix a \<Rightarrow> ssn_branch beval M st db SPOC_PREFIX (prefix2prefix_match a) (c_next c) res q
    | ESuffix a \<Rightarrow> ssn_branch beval M st db SPOC_SUFFIX (suffix2suffix_match a) (c_next c) res q
    | ERange r \<Rightarrow>
       (case branch_val st db SPOC_RANGE of
          None \<Rightarrow> Some (res, q)
        | Some (VRange ss) \<Rightarrow>
           (let i = b_type (r_lower r) AND 0x07 in
            if i < length ss then
              (case ss ! i of
                 None \<Rightarrow> Some (res, q)
               | Some s \<Rightarrow> (case range2range_match r s of
                    None \<Rightarrow> None
                  | Some avp \<Rightarrow> try_arr beval M st avp (c_next c) res q))
            else None)
        | Some _ \<Rightarrow> None)
    | EList es \<Rightarrow>
       (case branch_val st db SPOC_LIST of
          None \<Rightarrow> Some (res, q)
        | Some (VJunc l) \<Rightarrow> map_option (\<lambda>(rs, q'). (resset_join res rs, q')) (M l (c_head c) q)
        | Some _ \<Rightarrow> None)
    | EAny \<Rightarrow> Some (res, q))"

text \<open>When there is a branch for any element, its result is final unless all results are wanted.\<close>

fun element_match_r :: "'c evaluator \<Rightarrow> int \<Rightarrow> 'c tree \<Rightarrow> nat \<Rightarrow> 'c matcher" where
  "element_match_r beval num st 0 jp ep q = None"
| "element_match_r beval num st (Suc n) jp ep q = (case (jp, ep) of
      (Some db, Some c) \<Rightarrow>
        (case branch_val st db SPOC_ANY of
           Some (VJunc nx) \<Rightarrow>
             (case element_match_r beval num st n nx (c_next c) q of
                None \<Rightarrow> None
              | Some (rs, q1) \<Rightarrow>
                 if \<not> cp_all q1 then Some (rs, q1)
                 else element_match beval num (element_match_r beval num st n) st db c rs q1)
         | Some _ \<Rightarrow> None
         | None \<Rightarrow> element_match beval num (element_match_r beval num st n) st db c [] q)
    | _ \<Rightarrow> Some ([], q))"

definition allowed :: "'c evaluator \<Rightarrow> int \<Rightarrow> nat \<Rightarrow> 'c tree \<Rightarrow> nat option \<Rightarrow> 'c comparam \<Rightarrow>
    (spocp_result \<times> 'c ruleinst resset \<times> 'c comparam) option" where
  "allowed beval num n st ap q =
     map_option (\<lambda>(rs, q'). if rs = [] then (cp_rc q', [], q') else (SPOCP_SUCCESS, rs, q'\<lparr>cp_rc := SPOCP_SUCCESS\<rparr>))
       (element_match_r beval num st n ap (Some (c_top (cp_head q))) (q\<lparr>cp_rc := SPOCP_DENIED\<rparr>))"

end
