(* ===== verification/Rvapi.thy ===== *)
theory Rvapi
  imports Input Octarr
begin

text \<open>
  What the boundary conditions and the plugins do with a parsed query (\<open>lib/rvapi.c\<close>): copying elements,
  picking parts of a query by a path (\<open>element_eval\<close>), and putting the text of what was picked into a
  string (\<open>element_atom_sub\<close>).

  What is picked from an element is an element or an array of such results, since the code makes
  elements of a type of its own, \<^verbatim>\<open>SPOC_ARRAY\<close>, to return several. A null pointer is an inner \<open>None\<close>. An
  outer \<open>None\<close> is a fault or a loop that does not end. The pointer \<^verbatim>\<open>memberof\<close> of the head of a list leads to
  the list, so \<open>list_search\<close> gets the members of the list it may have to copy.
\<close>

datatype picked = One element | Array "picked list"

definition SPOC_ARRAY :: nat where "SPOC_ARRAY = 9"
definition SPOC_NULL :: nat where "SPOC_NULL = 10"

definition TCHAR :: "char \<Rightarrow> bool" where
  "TCHAR c \<longleftrightarrow> c \<in> set ''-./_:*+=''"

definition TOKENCHAR :: "char \<Rightarrow> bool" where
  "TOKENCHAR c \<longleftrightarrow> TCHAR c \<or> ASCII_LOWER c \<or> ASCII_UPPER c \<or> DIGIT c"

subsection \<open>Copies\<close>

definition atom_dup :: "atom \<Rightarrow> atom option" where
  "atom_dup ap = atom_new (a_val ap)"

text \<open>\<^verbatim>\<open>strndup\<close>: at most \<open>n\<close> bytes, up to the NUL, and a NUL of its own.\<close>

fun strndup :: "bytes \<Rightarrow> nat \<Rightarrow> bytes option" where
  "strndup s 0 = Some [NUL]"
| "strndup [] (Suc n) = None"
| "strndup (c # s) (Suc n) = (if c = NUL then Some [NUL] else map_option ((#) c) (strndup s n))"

text \<open>The copy is made in memory that nothing has been written to; a text of length 0 is not copied.\<close>

definition boundary_cpy :: "boundary \<Rightarrow> boundary option" where
  "boundary_cpy src =
     (let new = \<lparr>b_type = b_type src, b_num = 0, b_v4 = 0, b_val = null_octet\<rparr>; t = b_type src AND 7 in
      if t = SPOC_ALPHA \<or> t = SPOC_DATE then
        (if oct_len (b_val src) \<noteq> 0
         then map_option (\<lambda>s. new\<lparr>b_val := \<lparr>oct_val = s, oct_len = oct_len (b_val src), oct_size = 0\<rparr>\<rparr>)
                (strndup (oct_val (b_val src)) (oct_len (b_val src)))
         else Some new)
      else if t = SPOC_NUMERIC \<or> t = SPOC_TIME then Some (new\<lparr>b_num := b_num src\<rparr>)
      else if t = SPOC_IPV4 then Some (new\<lparr>b_v4 := b_v4 src\<rparr>)
      else Some new)"

definition range_dup :: "range \<Rightarrow> range option" where
  "range_dup rp = do { l \<leftarrow> boundary_cpy (r_lower rp); u \<leftarrow> boundary_cpy (r_upper rp); Some \<lparr>r_lower = l, r_upper = u\<rparr> }"

text \<open>\<open>list_dup\<close> follows the head of the list without a test. A null array of a set is copied as null.\<close>

fun element_dup :: "element \<Rightarrow> element option"
  and elements_dup :: "element list \<Rightarrow> element list option" where
  "element_dup (EAtom a) = map_option EAtom (atom_dup a)"
| "element_dup (EPrefix a) = map_option EPrefix (atom_dup a)"
| "element_dup (ESuffix a) = map_option ESuffix (atom_dup a)"
| "element_dup (EList es) = (if es = [] then None else map_option EList (elements_dup es))"
| "element_dup (ESet s) = (case s of None \<Rightarrow> Some (ESet None) | Some es \<Rightarrow> map_option (\<lambda>ds. ESet (Some ds)) (elements_dup es))"
| "element_dup (ERange r) = map_option ERange (range_dup r)"
| "element_dup EAny = Some EAny"
| "elements_dup [] = Some []"
| "elements_dup (e # es) = do { d \<leftarrow> element_dup e; ds \<leftarrow> elements_dup es; Some (d # ds) }"

fun picked_dup :: "picked \<Rightarrow> picked option"
  and pickeds_dup :: "picked list \<Rightarrow> picked list option" where
  "picked_dup (One e) = map_option One (element_dup e)"
| "picked_dup (Array ps) = map_option Array (pickeds_dup ps)"
| "pickeds_dup [] = Some []"
| "pickeds_dup (p # ps) = do { d \<leftarrow> picked_dup p; ds \<leftarrow> pickeds_dup ps; Some (d # ds) }"

definition element_new_atom :: "octet \<Rightarrow> element option" where
  "element_new_atom oct = map_option EAtom (atom_new oct)"

definition element_new_list :: "element option \<Rightarrow> element" where
  "element_new_list head = EList (case head of None \<Rightarrow> [] | Some e \<Rightarrow> [e])"

definition element_new_set :: "element list option \<Rightarrow> element" where
  "element_new_set varr = ESet (Some (case varr of None \<Rightarrow> [] | Some es \<Rightarrow> es))"

text \<open>The last node of the list is looked for without a test for an empty list.\<close>

definition element_list_add :: "element option \<Rightarrow> element option \<Rightarrow> element option option" where
  "element_list_add le e = (case e of
      None \<Rightarrow> Some le
    | Some e \<Rightarrow> (case le of
        None \<Rightarrow> map_option (\<lambda>d. Some (element_new_list (Some d))) (element_dup e)
      | Some (EList es) \<Rightarrow> if es = [] then None else map_option (\<lambda>d. Some (EList (es @ [d]))) (element_dup e)
      | Some _ \<Rightarrow> Some None))"

definition element_array_add :: "picked option \<Rightarrow> picked option \<Rightarrow> picked option" where
  "element_array_add le e = (case e of
      None \<Rightarrow> le
    | Some e \<Rightarrow> (case le of
        None \<Rightarrow> Some (Array [e])
      | Some (Array ps) \<Rightarrow> Some (Array (ps @ [e]))
      | Some (One _) \<Rightarrow> None))"

definition element_set_add :: "element option \<Rightarrow> element option \<Rightarrow> element option" where
  "element_set_add le e = (case e of
      None \<Rightarrow> le
    | Some e \<Rightarrow> (case le of
        None \<Rightarrow> Some (element_new_set (Some [e]))
      | Some (ESet s) \<Rightarrow> Some (ESet (Some ((case s of None \<Rightarrow> [] | Some es \<Rightarrow> es) @ [e])))
      | Some _ \<Rightarrow> None))"

subsection \<open>Access\<close>

text \<open>The case for an atom runs on into the one for a list, which follows the first field of the atom as a
  pointer. A null array is followed, too.\<close>

definition element_size :: "picked option \<Rightarrow> int option" where
  "element_size e = (case e of
      None \<Rightarrow> Some (- 1)
    | Some (Array ps) \<Rightarrow> Some (int (length ps))
    | Some (One (EAtom a)) \<Rightarrow> None
    | Some (One (EList es)) \<Rightarrow> Some (int (length es))
    | Some (One (ESet s)) \<Rightarrow> map_option (\<lambda>es. int (length es)) s
    | Some (One _) \<Rightarrow> Some 0)"

definition picked_type :: "picked option \<Rightarrow> int" where
  "picked_type e = (case e of None \<Rightarrow> - 1 | Some (One x) \<Rightarrow> int (element_type x) | Some (Array _) \<Rightarrow> int SPOC_ARRAY)"

definition element_first :: "picked option \<Rightarrow> picked option" where
  "element_first e = (case e of
      Some (One (EList (x # _))) \<Rightarrow> Some (One x)
    | Some (One (ESet (Some (x # _)))) \<Rightarrow> Some (One x)
    | Some (Array (p # _)) \<Rightarrow> Some p
    | _ \<Rightarrow> None)"

definition element_last :: "picked option \<Rightarrow> picked option option" where
  "element_last e = (case e of
      Some (One (EList es)) \<Rightarrow> if es = [] then None else Some (Some (One (last es)))
    | Some (One (ESet (Some es))) \<Rightarrow> Some (if es = [] then None else Some (One (last es)))
    | Some (Array ps) \<Rightarrow> Some (if ps = [] then None else Some (last ps))
    | _ \<Rightarrow> Some None)"

definition nth_in :: "'a list \<Rightarrow> int \<Rightarrow> 'a option" where
  "nth_in xs n = (if n < 0 \<or> int (length xs) \<le> n then None else Some (xs ! nat n))"

definition element_nth :: "picked option \<Rightarrow> int \<Rightarrow> picked option option" where
  "element_nth e n = (case e of
      None \<Rightarrow> Some None
    | Some (One (EList es)) \<Rightarrow> if es = [] \<and> 0 < n then None else Some (map_option One (nth_in es n))
    | Some (One (ESet s)) \<Rightarrow> Some (case s of None \<Rightarrow> None | Some es \<Rightarrow> map_option One (nth_in es n))
    | Some (Array ps) \<Rightarrow> Some (nth_in ps n)
    | Some (One (EAtom a)) \<Rightarrow> Some (if n = 0 then Some (One (EAtom a)) else None)
    | Some (One _) \<Rightarrow> Some None)"

text \<open>Elements of the other types compare as equal.\<close>

fun element_cmp :: "element \<Rightarrow> element \<Rightarrow> int option"
  and elements_cmp :: "element list \<Rightarrow> element list \<Rightarrow> int option" where
  "element_cmp e0 e1 =
     (if element_type e0 \<noteq> element_type e1 then Some (int (element_type e0) - int (element_type e1))
      else (case e0 of
         EAtom a \<Rightarrow> (case e1 of EAtom b \<Rightarrow> octcmp (Some (a_val a)) (Some (a_val b)) | _ \<Rightarrow> None)
       | EList es \<Rightarrow> (case e1 of
            EList fs \<Rightarrow> if length es \<noteq> length fs then Some (int (length es) - int (length fs)) else elements_cmp es fs
          | _ \<Rightarrow> None)
       | ESet _ \<Rightarrow> Some (- 1)
       | _ \<Rightarrow> Some 0))"
| "elements_cmp (e # es) (f # fs) = (case element_cmp e f of None \<Rightarrow> None | Some r \<Rightarrow> if r \<noteq> 0 then Some r else elements_cmp es fs)"
| "elements_cmp _ _ = Some 0"

declare element_cmp.simps [simp del]

subsection \<open>Joining atoms\<close>

fun atom_texts :: "element list \<Rightarrow> octet list" where
  "atom_texts [] = []"
| "atom_texts (EAtom a # es) = a_val a # atom_texts es"
| "atom_texts (e # es) = atom_texts es"

fun join_texts :: "bytes \<Rightarrow> octet list \<Rightarrow> bytes option" where
  "join_texts sep [] = Some []"
| "join_texts sep (t # ts) = do {
     s \<leftarrow> rdn (oct_val t) (oct_len t);
     r \<leftarrow> join_texts sep ts;
     Some (s @ (if ts = [] then [] else sep) @ r) }"

text \<open>\<^verbatim>\<open>size\<close> is one more than what is written. Memory of a negative size cannot be had. The members of an
  array that are elements are joined.\<close>

definition picked_members :: "picked \<Rightarrow> element list option" where
  "picked_members e = (case e of
      One (EList es) \<Rightarrow> Some es
    | One (ESet s) \<Rightarrow> Some (case s of None \<Rightarrow> [] | Some es \<Rightarrow> es)
    | Array ps \<Rightarrow> Some (List.map_filter (\<lambda>p. case p of One x \<Rightarrow> Some x | Array _ \<Rightarrow> None) ps)
    | _ \<Rightarrow> None)"

definition atoms_join :: "picked option \<Rightarrow> bytes \<Rightarrow> octet option option" where
  "atoms_join e sep = (case e of
      None \<Rightarrow> Some None
    | Some p \<Rightarrow> (case picked_members p of
        None \<Rightarrow> Some None
      | Some es \<Rightarrow>
          (let ts = atom_texts es; slen = int (length sep);
               size = 1 + (\<Sum>t\<leftarrow>ts. int (oct_len t)) + (if slen \<noteq> 0 then (int (length ts) - 1) * slen else 0)
           in if size < 0 then None
              else map_option (\<lambda>s. Some \<lparr>oct_val = realloc s (nat size), oct_len = nat size, oct_size = nat size\<rparr>) (join_texts sep ts))))"

subsection \<open>Reversing a list\<close>

text \<open>Here the nodes of the list are addresses, and \<open>nx\<close> has their \<^verbatim>\<open>next\<close> pointers.\<close>

partial_function (option) reverse_loop ::
    "('a \<Rightarrow> 'a option) \<Rightarrow> 'a \<Rightarrow> 'a option \<Rightarrow> ('a \<times> ('a \<Rightarrow> 'a option)) option" where
  [code]: "reverse_loop nx head a = (case a of
      None \<Rightarrow> Some (head, nx)
    | Some x \<Rightarrow> reverse_loop (nx(x := Some head)) x (nx x))"

definition element_reverse :: "('a \<Rightarrow> 'a option) \<Rightarrow> 'a option \<Rightarrow> ('a \<times> ('a \<Rightarrow> 'a option)) option" where
  "element_reverse nx head = (case head of None \<Rightarrow> None | Some h \<Rightarrow> reverse_loop nx h (nx h))"

subsection \<open>Searching\<close>

text \<open>The atom in the union of an element.\<close>

definition union_atom :: "element \<Rightarrow> atom option" where
  "union_atom e = (case e of EAtom a \<Rightarrow> Some a | EPrefix a \<Rightarrow> Some a | ESuffix a \<Rightarrow> Some a | _ \<Rightarrow> None)"

text \<open>The loop of \<open>set_search\<close> does not go on to the next member.\<close>

definition set_search :: "element list option \<Rightarrow> octet \<Rightarrow> element varr option \<Rightarrow> element varr option option" where
  "set_search va tag r =
     (if va = None \<or> oct_len tag = 0 then Some None else if va = Some [] then Some r else None)"

fun list_search :: "element list \<Rightarrow> octet \<Rightarrow> element varr option \<Rightarrow> element varr option option"
  and members_search :: "element list \<Rightarrow> octet \<Rightarrow> element varr option \<Rightarrow> element varr option option" where
  "list_search [] tag r = Some None"
| "list_search (h # es) tag r = do {
     a \<leftarrow> union_atom h;
     c \<leftarrow> octcmp (Some tag) (Some (a_val a));
     r1 \<leftarrow> (if c = 0 then do { d \<leftarrow> element_dup (EList (h # es)); map_option Some (varr_add r d) } else Some r);
     members_search es tag r1 }"
| "members_search [] tag r = Some r"
| "members_search (e # es) tag r = do {
     r1 \<leftarrow> (case e of EList fs \<Rightarrow> list_search fs tag r | ESet s \<Rightarrow> set_search s tag r | _ \<Rightarrow> Some r);
     members_search es tag r1 }"

definition element_find_list :: "element \<Rightarrow> octet \<Rightarrow> element list option option" where
  "element_find_list e tag = do {
     r \<leftarrow> (case e of ESet s \<Rightarrow> set_search s tag None | EList es \<Rightarrow> list_search es tag None | _ \<Rightarrow> Some None);
     Some (map_option v_items r) }"

text \<open>All rounds of the loop over a set look at the member whose number is the depth.\<close>

fun element_traverse :: "element \<Rightarrow> octet list option \<Rightarrow> nat \<Rightarrow> element option option"
  and members_traverse :: "element list \<Rightarrow> octet list option \<Rightarrow> nat \<Rightarrow> element option option" where
  "element_traverse (ESet s) oa i = (case s of
      None \<Rightarrow> Some None
    | Some es \<Rightarrow> if es = [] then Some None else if length es \<le> i then None
        else nth (map (\<lambda>e. case e of EList fs \<Rightarrow> element_traverse e oa i | _ \<Rightarrow> Some None) es) i)"
| "element_traverse (EList es) oa i = (case es of
      [] \<Rightarrow> None
    | h # _ \<Rightarrow> do {
        a \<leftarrow> union_atom h;
        ts \<leftarrow> oa;
        t \<leftarrow> (if i < length ts then Some (ts ! i) else None);
        c \<leftarrow> octcmp (Some (a_val a)) (Some t);
        if c \<noteq> 0 then Some None
        else if i + 1 = length ts then Some (Some (EList es))
        else members_traverse es oa (i + 1) })"
| "element_traverse e oa i = Some None"
| "members_traverse [] oa i = Some None"
| "members_traverse (e # es) oa i = (case e of
      EList _ \<Rightarrow> do { r \<leftarrow> element_traverse e oa i; if r \<noteq> None then Some r else members_traverse es oa i }
    | _ \<Rightarrow> members_traverse es oa i)"

definition element_intervall :: "picked \<Rightarrow> int \<Rightarrow> int \<Rightarrow> element option option" where
  "element_intervall e start end = (case e of
      One (EList es) \<Rightarrow>
        if start < - 1 \<or> end < - 1 then Some None
        else (let n = int (length es);
                  s = (if start = - 1 then n - 1 else start); f = (if end = - 1 then n - 1 else end) in
          if f < s then Some None
          else if n \<le> f \<or> n \<le> s then Some None
          else if s < 0 then Some None
          else if f = s then map_option Some (element_dup (es ! nat s))
          else map_option (\<lambda>ds. Some (EList ds)) (elements_dup (take (nat f + 1 - nat s) (drop (nat s) es))))
    | _ \<Rightarrow> Some None)"

subsection \<open>Paths\<close>

text \<open>The loops over the digits of a number go on counting but not reading: every digit behind the second
  counts as the second one.\<close>

fun digits_loop :: "char \<Rightarrow> nat \<Rightarrow> int \<Rightarrow> int" where
  "digits_loop c 0 v = v"
| "digits_loop c (Suc k) v = digits_loop c k (i32 (i32 (v * 10) + digitval c))"

text \<open>A number at \<open>sp\<close>, with \<open>i\<close> characters read of \<open>n\<close>: its value, and where reading goes on.\<close>

definition read_number :: "bytes \<Rightarrow> nat \<Rightarrow> nat \<Rightarrow> (int \<times> bytes \<times> nat) option" where
  "read_number sp i n = do {
     c \<leftarrow> rd sp 0;
     if i + 1 < n then do {
       d \<leftarrow> rd sp 1;
       if DIGIT d then Some (digits_loop d (n - (i + 1)) (digitval c), drop 1 sp, n)
       else Some (digitval c, drop 1 sp, i + 1) }
     else Some (digitval c, drop 1 sp, i + 1) }"

definition is_last :: "bytes \<Rightarrow> bool option" where
  "is_last sp = octstr_here sp (''last'' @ [NUL])"

text \<open>The result is the limits and the number of characters up to the bracket.\<close>

definition parse_intervall :: "octet \<Rightarrow> (int \<times> int \<times> nat) option option" where
  "parse_intervall o1 = do {
     p \<leftarrow> octchr o1 CHR '']'';
     if p < 0 then Some None
     else do {
       let n = nat p;
       c \<leftarrow> rd (oct_val o1) 0;
       (start, end, sp, i) \<leftarrow>
         (if DIGIT c then do {
            (v, sp, i) \<leftarrow> read_number (oct_val o1) 0 n;
            Some (v, if i = n then v else 0, sp, i) }
          else do {
            l \<leftarrow> is_last (oct_val o1);
            Some (if l \<and> 4 = n then (- 1, - 1, oct_val o1, 4) else (0, 0, oct_val o1, if l then 4 else 0)) });
       if i < n then do {
         m \<leftarrow> rd sp 0;
         if m \<noteq> CHR ''-'' then Some None
         else if i + 1 = n then Some (Some (start, - 1, n))
         else do {
           e \<leftarrow> rd sp 1;
           if DIGIT e then do {
             (v, _, j) \<leftarrow> read_number (drop 1 sp) (i + 1) n;
             Some (if j = n then Some (start, v, n) else None) }
           else do {
             l \<leftarrow> is_last (drop 1 sp);
             Some (if l \<and> i + 5 = n then Some (start, - 1, n) else None) } } }
       else Some (if i = n then Some (start, end, n) else None) } }"

text \<open>The pieces of a path so far and the start of the next one.\<close>

fun path_loop :: "bytes \<Rightarrow> octet \<Rightarrow> nat \<Rightarrow> (octarr \<times> nat) option \<Rightarrow> ((octarr \<times> nat) option \<times> nat) option" where
  "path_loop [] o1 i st = None"
| "path_loop (c # sp) o1 i st =
     (if (TOKENCHAR c \<or> c = CHR ''/'') \<and> i < oct_len o1 then
        (if c = CHR ''/'' then do {
           let (oa, k) = (case st of None \<Rightarrow> (octarr_new 2, 0) | Some x \<Rightarrow> x);
           oct \<leftarrow> oct_new (i - k) (Some (drop k (oct_val o1)));
           oa' \<leftarrow> octarr_add (Some oa) oct;
           path_loop sp o1 (i + 1) (Some (oa', i + 1)) }
         else path_loop sp o1 (i + 1) st)
      else Some (st, i))"

definition parse_path :: "octet \<Rightarrow> (octarr option \<times> octet) option" where
  "parse_path o1 = do {
     (st, i) \<leftarrow> path_loop (oct_val o1) o1 0 None;
     oa \<leftarrow> (case st of
         None \<Rightarrow> Some None
       | Some (oa, k) \<Rightarrow> do {
           c \<leftarrow> rd (oct_val o1) k;
           if c = CHR ''*'' \<and> szsub (oct_len o1) i = 1 then Some (Some oa)
           else do {
             oct \<leftarrow> oct_new (i - k) (Some (drop k (oct_val o1)));
             map_option Some (octarr_add (Some oa) oct) } });
     Some (oa, o1\<lparr>oct_val := drop i (oct_val o1), oct_len := szsub (oct_len o1) i\<rparr>) }"

text \<open>The characters of a tag are not counted against the length of the specification.\<close>

fun tag_len :: "bytes \<Rightarrow> nat option" where
  "tag_len [] = None"
| "tag_len (c # sp) = (if c \<noteq> CHR ''}'' \<and> TOKENCHAR c then map_option Suc (tag_len sp) else Some 0)"

text \<open>\<^verbatim>\<open>//tag\<close> at the start: the lists with that tag, one of them without an array. \<open>Some None\<close> in the first place
  says that there is no such search here.\<close>

definition search_part :: "octet \<Rightarrow> element \<Rightarrow> (picked option option \<times> octet) option" where
  "search_part cpy e =
     (if oct_len cpy = 0 then Some (Some None, cpy)
      else do {
        c \<leftarrow> rd (oct_val cpy) 0;
        d \<leftarrow> (if c = CHR ''/'' then rd (oct_val cpy) 1 else Some NUL);
        if c = CHR ''/'' \<and> d = CHR ''/'' then do {
          let sp = drop 2 (oct_val cpy);
          n \<leftarrow> tag_len sp;
          let cpy1 = cpy\<lparr>oct_val := drop n sp, oct_len := szsub (szsub (oct_len cpy) 2) n\<rparr>;
          se \<leftarrow> element_find_list e \<lparr>oct_val = sp, oct_len = n, oct_size = 0\<rparr>;
          Some (case se of None \<Rightarrow> None | Some [x] \<Rightarrow> Some (Some (One x)) | Some xs \<Rightarrow> Some (Some (Array (map One xs))), cpy1) }
        else Some (Some None, cpy) })"

text \<open>An interval or a star behind what has been found: \<open>Inl\<close> when the brackets make no sense.\<close>

definition interval_part :: "octet \<Rightarrow> picked \<Rightarrow> (unit + element option \<times> octet) option" where
  "interval_part cpy ep = do {
     c \<leftarrow> rd (oct_val cpy) 0;
     if c = CHR ''['' then do {
       iv \<leftarrow> parse_intervall (step cpy);
       case iv of
         None \<Rightarrow> Some (Inl ())
       | Some (b, e, n) \<Rightarrow> do {
           ie \<leftarrow> element_intervall ep b e;
           Some (Inr (ie, cpy\<lparr>oct_val := drop (n + 2) (oct_val cpy), oct_len := szsub (szsub (oct_len cpy) 1) (n + 1)\<rparr>)) } }
     else do {
       d \<leftarrow> (if c = CHR ''/'' then rd (oct_val cpy) 1 else Some NUL);
       if c = CHR ''*'' \<or> c = CHR ''/'' \<and> d = CHR ''*'' then do {
         ie \<leftarrow> element_intervall ep 1 (- 1);
         Some (Inr (ie, if c = CHR ''/'' then step (step cpy) else step cpy)) }
       else Some (Inr (None, cpy)) } }"

text \<open>A path at the start: \<open>None\<close> in the first place when it leads nowhere, \<open>Some None\<close> when there is none.\<close>

definition path_part :: "octet \<Rightarrow> element \<Rightarrow> (element option option \<times> octet) option" where
  "path_part cpy e = do {
     d \<leftarrow> rd (oct_val cpy) 1;
     if d \<noteq> CHR ''/'' then do {
       (oa, cpy1) \<leftarrow> parse_path (step cpy);
       pe \<leftarrow> element_traverse e (map_option oa_arr oa) 0;
       Some (map_option Some pe, cpy1) }
     else Some (Some None, cpy) }"

text \<open>What is picked from the element \<open>ep\<close>, the result of the search or the path.\<close>

definition pick_part :: "octet \<Rightarrow> element \<Rightarrow> element option \<Rightarrow> picked option \<Rightarrow> (unit + picked option \<times> octet) option" where
  "pick_part cpy e pe se =
     (if oct_len cpy \<noteq> 0 then
        map_option (map_sum id (apfst (map_option One)))
          (interval_part cpy (case se of Some x \<Rightarrow> x | None \<Rightarrow> One (case pe of None \<Rightarrow> e | Some x \<Rightarrow> x)))
      else (case se of
          Some x \<Rightarrow> Some (Inr (Some x, cpy))
        | None \<Rightarrow> (case pe of
            None \<Rightarrow> Some (Inr (None, cpy))
          | Some x \<Rightarrow> map_option (\<lambda>y. Inr (Some (One y), cpy)) (element_dup x))))"

text \<open>One of the alternatives: \<open>Inl\<close> ends the evaluation, \<open>Inr\<close> has what was picked.\<close>

definition eval_part :: "octet \<Rightarrow> element \<Rightarrow> (unit + picked option \<times> octet) option" where
  "eval_part cpy e = do {
     c \<leftarrow> rd (oct_val cpy) 0;
     if c \<noteq> CHR ''/'' then Some (Inl ())
     else do {
       (pe, cpy1) \<leftarrow> path_part cpy e;
       case pe of
         None \<Rightarrow> Some (Inr (None, cpy1))
       | Some pe \<Rightarrow> do {
           (se, cpy2) \<leftarrow> search_part cpy1 (case pe of None \<Rightarrow> e | Some x \<Rightarrow> x);
           case se of
             None \<Rightarrow> Some (Inr (None, cpy2))
           | Some se \<Rightarrow> pick_part cpy2 e pe se } } }"

fun bar_loop :: "bytes \<Rightarrow> nat \<Rightarrow> nat \<Rightarrow> (nat \<times> bytes \<times> nat) option" where
  "bar_loop sp 0 p = Some (p, sp, 0)"
| "bar_loop [] (Suc l) p = None"
| "bar_loop (c # sp) (Suc l) p =
     (if c = CHR '' '' \<or> c = CHR ''|'' then bar_loop sp l (if c = CHR ''|'' then p + 1 else p)
      else Some (p, c # sp, Suc l))"

text \<open>What has been picked goes to \<^verbatim>\<open>sep\<close>, and to the array \<^verbatim>\<open>re\<close> when there is more than one.\<close>

definition collect_part :: "picked option \<Rightarrow> nat \<times> picked option \<times> picked option \<Rightarrow> nat \<times> picked option \<times> picked option" where
  "collect_part x st = (case x of
      None \<Rightarrow> st
    | Some y \<Rightarrow> (case st of (n, sep, re) \<Rightarrow>
        if n = 0 then (1, Some y, re)
        else if n = 1 then (2, None, element_array_add (element_array_add re sep) (Some y))
        else (n + 1, sep, element_array_add re (Some y))))"

lemma parse_path_shorter: "parse_path o1 = Some (oa, o2) \<Longrightarrow> length (oct_val o2) \<le> length (oct_val o1)"
  by (auto simp: parse_path_def bind_eq_Some_conv)

lemma search_part_shorter: "search_part cpy e = Some (se, cpy') \<Longrightarrow> length (oct_val cpy') \<le> length (oct_val cpy)"
  by (auto simp: search_part_def bind_eq_Some_conv Let_def split: if_splits)

lemma interval_part_shorter: "interval_part cpy ep = Some (Inr (ie, cpy')) \<Longrightarrow> length (oct_val cpy') \<le> length (oct_val cpy)"
  by (auto simp: interval_part_def bind_eq_Some_conv step_def split: if_splits option.splits)

lemma map_sum_InrE: "map_sum f g z = Inr y \<Longrightarrow> (\<And>w. z = Inr w \<Longrightarrow> y = g w \<Longrightarrow> P) \<Longrightarrow> P"
  by (cases z) auto

lemma path_part_shorter: "path_part cpy e = Some (pe, cpy') \<Longrightarrow> length (oct_val cpy') \<le> length (oct_val cpy)"
  by (auto simp: path_part_def bind_eq_Some_conv step_def split: if_splits dest!: parse_path_shorter)

lemma pick_part_shorter: "pick_part cpy e pe se = Some (Inr (x, cpy')) \<Longrightarrow> length (oct_val cpy') \<le> length (oct_val cpy)"
  by (auto simp: pick_part_def split: if_splits option.splits elim!: map_sum_InrE dest!: interval_part_shorter)

lemma eval_part_shorter:
  assumes "eval_part cpy e = Some (Inr (x, cpy'))"
  shows "length (oct_val cpy') \<le> length (oct_val cpy)"
proof -
  obtain pe cpy1 where 1: "path_part cpy e = Some (pe, cpy1)"
    using assms by (auto simp: eval_part_def bind_eq_Some_conv split: if_splits)
  show ?thesis
  proof (cases pe)
    case None
    then show ?thesis using assms 1 path_part_shorter [OF 1] by (auto simp: eval_part_def bind_eq_Some_conv split: if_splits)
  next
    case (Some p)
    then obtain se cpy2 where 2: "search_part cpy1 (case p of None \<Rightarrow> e | Some x \<Rightarrow> x) = Some (se, cpy2)"
      using assms 1 by (auto simp: eval_part_def bind_eq_Some_conv split: if_splits)
    then show ?thesis
      using assms 1 Some path_part_shorter [OF 1] search_part_shorter [OF 2]
      by (cases se) (auto simp: eval_part_def bind_eq_Some_conv split: if_splits dest!: pick_part_shorter)
  qed
qed

lemma bar_loop_shorter: "bar_loop sp l p = Some (q, sp', l') \<Longrightarrow> p \<le> q \<and> length sp' + (q - p) \<le> length sp"
  by (induction sp l p rule: bar_loop.induct) (auto split: if_splits)

function eval_loop :: "octet \<Rightarrow> element \<Rightarrow> nat \<times> picked option \<times> picked option \<Rightarrow> picked option option" where
  "eval_loop cpy e st = (case eval_part cpy e of
      None \<Rightarrow> None
    | Some (Inl _) \<Rightarrow> Some None
    | Some (Inr (x, cpy1)) \<Rightarrow> (case bar_loop (oct_val cpy1) (oct_len cpy1) 0 of
        None \<Rightarrow> None
      | Some (p, sp, l) \<Rightarrow>
          if p \<noteq> 0 \<and> l \<noteq> 0 then eval_loop (cpy1\<lparr>oct_val := sp, oct_len := l\<rparr>) e (collect_part x st)
          else (case collect_part x st of (n, sep, re) \<Rightarrow> Some (if sep \<noteq> None then sep else re))))"
  by pat_completeness auto
termination
  by (relation "measure (\<lambda>(cpy, e, st). length (oct_val cpy))") (auto dest!: eval_part_shorter bar_loop_shorter)

declare eval_loop.simps [simp del]

definition element_eval :: "octet \<Rightarrow> element \<Rightarrow> picked option option" where
  "element_eval spec e = eval_loop (spec\<lparr>oct_size := 0\<rparr>) e (0, None, None)"

subsection \<open>Putting texts into a string\<close>

text \<open>When a member of a list has no text, the text of those before it has been released and is returned all
  the same.\<close>

fun element2oct :: "element \<Rightarrow> octet option option"
  and list2oct :: "octet \<Rightarrow> element list \<Rightarrow> octet option option" where
  "element2oct (EAtom a) = octdup (Some (a_val a))"
| "element2oct (EList es) = (case es of
      [] \<Rightarrow> Some None
    | e # fs \<Rightarrow> do { t \<leftarrow> element2oct e; case t of None \<Rightarrow> Some None | Some oct \<Rightarrow> list2oct oct fs })"
| "element2oct e = Some None"
| "list2oct oct [] = Some (Some oct)"
| "list2oct oct (e # es) = do {
     t \<leftarrow> element2oct e;
     tmp \<leftarrow> t;
     (_, o1) \<leftarrow> octcat oct '' '' 1;
     (_, o2) \<leftarrow> octcat o1 (oct_val tmp) (oct_len tmp);
     list2oct o2 es }"

text \<open>The list of what a condition has picked; \<open>None\<close> in it is an element of the type \<^verbatim>\<open>SPOC_NULL\<close>, and the empty
  list stands for the null pointer.\<close>

type_synonym xlist = "picked option list"

definition sub_text :: "xlist \<Rightarrow> octet \<Rightarrow> octet option option" where
  "sub_text xp spec = do {
     i \<leftarrow> octtoi spec;
     if i < 0 then Some None
     else (case nth_in xp i of Some (Some (One e)) \<Rightarrow> element2oct e | _ \<Rightarrow> Some None) }"

function sub_loop :: "octet \<Rightarrow> xlist \<Rightarrow> octet \<Rightarrow> octet \<Rightarrow> nat \<Rightarrow> octet option option" where
  "sub_loop val xp oct res subs =
     (if oct_len oct = 0 then Some (Some res)
      else do {
        n \<leftarrow> octstr oct (''${'' @ [NUL]);
        if n < 0 then
          (if subs = 0 then Some (Some val)
           else do {
             (r, res') \<leftarrow> octcat res (oct_val oct) (oct_len oct);
             Some (if r = SPOCP_SUCCESS then Some res' else None) })
        else do {
          (r, res1) \<leftarrow> (if n \<noteq> 0 then octcat res (oct_val oct) (nat n) else Some (SPOCP_SUCCESS, res));
          if r \<noteq> SPOCP_SUCCESS then Some None
          else do {
            let o1 = oct\<lparr>oct_val := drop (nat n + 2) (oct_val oct), oct_len := oct_len oct - (nat n + 2)\<rparr>;
            m \<leftarrow> oct_find_balancing o1 CHR ''{'' CHR ''}'';
            if m < 0 then Some None
            else do {
              t \<leftarrow> sub_text xp (o1\<lparr>oct_len := nat m\<rparr>);
              case t of
                None \<Rightarrow> Some None
              | Some tmp \<Rightarrow> do {
                  (_, res2) \<leftarrow> octcat res1 (oct_val tmp) (oct_len tmp);
                  sub_loop val xp (o1\<lparr>oct_val := drop (nat m + 1) (oct_val o1), oct_len := oct_len o1 - (nat m + 1)\<rparr>)
                    res2 (subs + 1) } } } } })"
  by pat_completeness auto
termination
  by (relation "measure (\<lambda>(val, xp, oct, res, subs). oct_len oct)") (auto simp: Let_def)

declare sub_loop.simps [simp del]

definition element_atom_sub :: "octet \<Rightarrow> xlist \<Rightarrow> octet option option" where
  "element_atom_sub val xp = do {
     p \<leftarrow> octstr val (''${'' @ [NUL]);
     if p < 0 then Some (Some val)
     else if xp = [] then Some None
     else do {
       res \<leftarrow> oct_new (oct_len val * 2) None;
       sub_loop val xp (val\<lparr>oct_size := 0\<rparr>) res 0 } }"

subsection \<open>Copies are equal\<close>

lemma atom_dup_good: "good_atom a \<Longrightarrow> atom_dup a = Some a"
proof -
  assume "good_atom a"
  then obtain s where a: "a = mk_atom s" by (auto simp: good_atom_def)
  then have "a_val a = view s [NUL] (length s)" by (simp add: mk_atom_def view_def)
  then show ?thesis using a by (simp add: atom_dup_def)
qed

lemma boundary_cpy_good:
  assumes "good_limit ts b" "ts \<subseteq> {SPOC_NUMERIC, SPOC_NUMERIC OR GT, SPOC_NUMERIC OR GT OR EQ, SPOC_NUMERIC OR LT, SPOC_NUMERIC OR LT OR EQ}"
  shows "boundary_cpy b = Some b"
proof -
  have "b_type b AND 7 = SPOC_NUMERIC" using assms by (auto simp: good_limit_def type_codes)
  then show ?thesis using assms(1) by (simp add: boundary_cpy_def good_limit_def type_codes Let_def)
qed

lemma range_dup_good: "good_range r \<Longrightarrow> range_dup r = Some r"
  unfolding good_range_def range_dup_def by (auto simp: boundary_cpy_good)

lemma element_dup_good: "good_elem e \<Longrightarrow> element_dup e = Some e"
  and elements_dup_good: "\<forall>e \<in> set es. good_elem e \<Longrightarrow> elements_dup es = Some es"
  by (induction e and es rule: element_dup_elements_dup.induct) (auto simp: atom_dup_good range_dup_good split: option.splits)

subsection \<open>What a search finds\<close>

text \<open>A query as the parser makes it, and short enough for the lengths to be exact.\<close>

definition query_ok :: "element \<Rightarrow> bool" where
  "query_ok e \<longleftrightarrow> good_elem e \<and> length (esexp e) < 2 ^ 31"

lemma query_ok_member: "query_ok (EList es) \<Longrightarrow> e \<in> set es \<Longrightarrow> query_ok e"
proof -
  assume "query_ok (EList es)" "e \<in> set es"
  moreover from this(2) have "length (esexp e) \<le> length (concat (map esexp es))" by (induction es) auto
  ultimately show ?thesis by (simp add: query_ok_def)
qed

lemma query_ok_head:
  assumes "query_ok (EList es)"
  obtains t fs where "es = EAtom (mk_atom t) # fs" and "length t < 2 ^ 31" and "t \<noteq> []"
proof -
  obtain a fs where es: "es = EAtom a # fs" using assms by (cases es) (auto simp: query_ok_def split: list.splits element.splits)
  then have "good_atom a" "query_ok (EAtom a)" using assms query_ok_member [OF assms, of "EAtom a"] by (auto simp: query_ok_def)
  then have "a = mk_atom (content (a_val a))" "length (content (a_val a)) < 2 ^ 31" "content (a_val a) \<noteq> []"
    by (auto simp: good_atom_def query_ok_def netstr_def)
  then show ?thesis using es that by metis
qed

lemma octcmp_mk_atom:
  assumes "wf_octet o1" "length t < 2 ^ 31"
  shows "\<exists>r. octcmp (Some o1) (Some (a_val (mk_atom t))) = Some r \<and> (r = 0 \<longleftrightarrow> content o1 = t)"
    and "\<exists>r. octcmp (Some (a_val (mk_atom t))) (Some o1) = Some r \<and> (r = 0 \<longleftrightarrow> t = content o1)"
proof -
  have "wf_octet (a_val (mk_atom t))" using assms(2) by (simp add: wf_octet_def mk_atom_def)
  then show "\<exists>r. octcmp (Some o1) (Some (a_val (mk_atom t))) = Some r \<and> (r = 0 \<longleftrightarrow> content o1 = t)"
    and "\<exists>r. octcmp (Some (a_val (mk_atom t))) (Some o1) = Some r \<and> (r = 0 \<longleftrightarrow> t = content o1)"
    using octcmp_lex assms(1) by fastforce+
qed

definition list_tag :: "element list \<Rightarrow> bytes" where
  "list_tag es = (case es of EAtom a # _ \<Rightarrow> content (a_val a) | _ \<Rightarrow> [])"

text \<open>The lists with a tag, in the order of the text, and the elements with a set in them.\<close>

fun tagged :: "bytes \<Rightarrow> element \<Rightarrow> element list" where
  "tagged t (EList es) = (if list_tag es = t then [EList es] else []) @ concat (map (tagged t) es)"
| "tagged t e = []"

fun has_set :: "element \<Rightarrow> bool" where
  "has_set (EList es) = list_ex has_set es"
| "has_set (ESet s) = True"
| "has_set e = False"

text \<open>An array of found lists is null as long as there are none.\<close>

definition found_ok :: "element varr option \<Rightarrow> bool" where
  "found_ok r \<longleftrightarrow> varr_ok0 r \<and> (varr_list r = [] \<longrightarrow> r = None)"

lemma found_okE:
  assumes "found_ok r"
  obtains a where "varr_add r x = Some a" and "found_ok (Some a)" and "varr_list (Some a) = varr_list r @ [x]"
proof -
  have "varr_ok0 r" using assms by (simp add: found_ok_def)
  from va0.addE [OF this, of x] obtain a where "varr_add r x = Some a" "varr_ok0 (Some a)" "varr_list (Some a) = varr_list r @ [x]" by auto
  then show ?thesis using that by (simp add: found_ok_def)
qed

lemma list_search_tagged:
  "\<lbrakk>query_ok (EList es); wf_octet tag; oct_len tag \<noteq> 0; found_ok r\<rbrakk> \<Longrightarrow>
     if has_set (EList es) then list_search es tag r = None
     else \<exists>r'. list_search es tag r = Some r' \<and> found_ok r' \<and> varr_list r' = varr_list r @ tagged (content tag) (EList es)"
  and members_search_tagged:
  "\<lbrakk>\<forall>e \<in> set es. query_ok e; wf_octet tag; oct_len tag \<noteq> 0; found_ok r\<rbrakk> \<Longrightarrow>
     if list_ex has_set es then members_search es tag r = None
     else \<exists>r'. members_search es tag r = Some r' \<and> found_ok r' \<and> varr_list r' = varr_list r @ concat (map (tagged (content tag)) es)"
proof (induction es tag r and es tag r rule: list_search_members_search.induct)
  case (1 tag r)
  then show ?case by (simp add: query_ok_def)
next
  case (2 h es tag r)
  obtain t where t: "h = EAtom (mk_atom t)" "length t < 2 ^ 31" using query_ok_head [OF 2(2)] by blast
  obtain c where c: "octcmp (Some tag) (Some (a_val (mk_atom t))) = Some c" "c = 0 \<longleftrightarrow> content tag = t"
    using octcmp_mk_atom(1) [OF 2(3) t(2)] by blast
  have d: "element_dup (EList (h # es)) = Some (EList (h # es))" using 2(2) by (intro element_dup_good) (simp add: query_ok_def)
  have mem: "\<forall>e \<in> set es. query_ok e" using query_ok_member [OF 2(2)] by simp
  obtain a where a: "varr_add r (EList (h # es)) = Some a" "found_ok (Some a)" "varr_list (Some a) = varr_list r @ [EList (h # es)]"
    using found_okE [OF 2(5)] by blast
  obtain r1 where r1: "(if c = 0 then do { d \<leftarrow> element_dup (EList (h # es)); map_option Some (varr_add r d) } else Some r) = Some r1"
    "found_ok r1" "varr_list r1 = varr_list r @ (if content tag = t then [EList (h # es)] else [])"
  proof (cases "c = 0")
    case True
    show ?thesis by (rule that [of "Some a"]) (use True a c(2) d in simp_all)
  next
    case False
    show ?thesis by (rule that [of r]) (use False c(2) 2(5) in simp_all)
  qed
  have lt: "list_tag (h # es) = t" by (simp add: list_tag_def t(1))
  have ls: "list_search (h # es) tag r = members_search es tag r1"
  proof -
    have "union_atom h = Some (mk_atom t)" by (simp add: t(1) union_atom_def)
    then show ?thesis by (simp only: list_search.simps c(1) r1(1) Option.bind.simps)
  qed
  show ?case
    using 2(1) [of "mk_atom t" c r1] mem 2(3,4) r1 c(1) lt unfolding ls by (auto simp: t(1) union_atom_def)
next
  case (3 tag r)
  then show ?case by simp
next
  case (4 e es tag r)
  show ?case
  proof (cases e)
    case (EList fs)
    show ?thesis
    proof (cases "has_set e")
      case True
      then show ?thesis using 4(1) [OF EList] 4(3-6) EList by simp
    next
      case False
      then obtain r1 where "list_search fs tag r = Some r1" "found_ok r1" "varr_list r1 = varr_list r @ tagged (content tag) e"
        using 4(1) [OF EList] 4(3-6) EList by auto
      then show ?thesis using 4(2) [of r1] 4(3-6) EList False by (auto split: if_splits)
    qed
  next
    case (ESet s)
    then obtain x xs where "s = Some (x # xs)" using 4(3) by (auto simp: query_ok_def split: option.splits) (metis list.size(3) neq_Nil_conv not_numeral_le_zero)
    then show ?thesis using 4(5) ESet by (simp add: set_search_def)
  qed (use 4(2) [of r] 4(3-6) in \<open>auto split: if_splits\<close>)
qed

lemma element_find_list_tagged:
  assumes "query_ok (EList es)" "wf_octet tag" "oct_len tag \<noteq> 0"
  shows "element_find_list (EList es) tag =
    (if has_set (EList es) then None
     else Some (if tagged (content tag) (EList es) = [] then None else Some (tagged (content tag) (EList es))))"
proof (cases "has_set (EList es)")
  case True
  then show ?thesis using list_search_tagged [OF assms, of None] by (simp add: element_find_list_def found_ok_def varr_ok0_def)
next
  case False
  have n: "found_ok None" "varr_list (None :: element varr option) = []" by (simp_all add: found_ok_def varr_ok0_def varr_list_def)
  have "\<exists>r. list_search es tag None = Some r \<and> found_ok r \<and> varr_list r = tagged (content tag) (EList es)"
    using list_search_tagged [OF assms n(1)] False n(2) by (simp del: tagged.simps has_set.simps)
  then obtain r where r: "list_search es tag None = Some r" "found_ok r" "varr_list r = tagged (content tag) (EList es)" by blast
  then show ?thesis using False by (cases r) (auto simp: element_find_list_def found_ok_def varr_list_def simp del: tagged.simps has_set.simps)
qed

subsection \<open>Evaluating a specification\<close>

text \<open>A name in a specification: token characters without the slash. What stands behind one is a character
  of another kind.\<close>

definition tag_ok :: "bytes \<Rightarrow> bool" where
  "tag_ok t \<longleftrightarrow> t \<noteq> [] \<and> (\<forall>c \<in> set t. TOKENCHAR c \<and> c \<noteq> CHR ''/'')"

definition ends_name :: "bytes \<Rightarrow> bool" where
  "ends_name r \<longleftrightarrow> r \<noteq> [] \<and> \<not> TOKENCHAR (hd r)"

definition several :: "element list \<Rightarrow> picked option" where
  "several es = (case es of [] \<Rightarrow> None | [x] \<Rightarrow> Some (One x) | _ \<Rightarrow> Some (Array (map One es)))"

lemma TOKENCHAR_not [simp]: "\<not> TOKENCHAR CHR ''}''" "\<not> TOKENCHAR CHR ''[''" "\<not> TOKENCHAR CHR '']''" "\<not> TOKENCHAR CHR '' ''" "\<not> TOKENCHAR CHR ''|''"
  by code_simp+

lemma TOKENCHAR_slash [simp]: "TOKENCHAR CHR ''/''" "TOKENCHAR CHR ''*''"
  by code_simp+

lemma tag_len_name: "tag_ok t \<Longrightarrow> ends_name r \<Longrightarrow> tag_len (t @ r) = Some (length t)"
proof -
  have "\<forall>c \<in> set t. TOKENCHAR c \<and> c \<noteq> CHR ''}'' \<Longrightarrow> ends_name r \<Longrightarrow> tag_len (t @ r) = Some (length t)"
    by (induction t) (auto simp: ends_name_def neq_Nil_conv)
  moreover assume "tag_ok t" "ends_name r"
  ultimately show ?thesis using TOKENCHAR_not(1) by (metis tag_ok_def)
qed

lemma search_part_view:
  assumes "query_ok (EList es)" "tag_ok t" "ends_name (r @ x)" "length (''//'' @ t @ r) < 2 ^ 31"
  shows "search_part (view (''//'' @ t @ r) x sz) (EList es) =
    (if has_set (EList es) then None else Some (map_option Some (several (tagged t (EList es))), view r x sz))"
proof -
  have n: "tag_len (t @ r @ x) = Some (length t)" using tag_len_name [OF assms(2,3)] by simp
  have l: "szsub (szsub (length (''//'' @ t @ r)) 2) (length t) = length r" using assms(4) by simp
  have w: "wf_octet (view t (r @ x) 0)" "oct_len (view t (r @ x) 0) \<noteq> 0" using assms(2,4) by (auto simp: wf_octet_def tag_ok_def)
  have t: "\<lparr>oct_val = t @ r @ x, oct_len = length t, oct_size = 0\<rparr> = view t (r @ x) 0" by (simp add: view_def)
  have v: "view (''//'' @ t @ r) x sz\<lparr>oct_val := r @ x, oct_len := length r\<rparr> = view r x sz" by (simp add: view_def)
  show ?thesis
    using n l v element_find_list_tagged [OF assms(1) w]
    by (auto simp: search_part_def Let_def t several_def split: list.splits simp del: tagged.simps has_set.simps)
qed

lemma path_part_search [simp]: "path_part (view (''//'' @ r) x sz) e = Some (Some None, view (''//'' @ r) x sz)"
  by (simp add: path_part_def)

lemma eval_part_search:
  assumes "query_ok (EList es)" "tag_ok t" "ends_name (r @ x)" "length (''//'' @ t @ r) < 2 ^ 31"
  shows "eval_part (view (''//'' @ t @ r) x sz) (EList es) =
    (if has_set (EList es) then None
     else (case several (tagged t (EList es)) of
         None \<Rightarrow> Some (Inr (None, view r x sz))
       | Some se \<Rightarrow> pick_part (view r x sz) (EList es) None (Some se)))"
  using search_part_view [OF assms] path_part_search [of "t @ r" x sz]
  by (auto simp: eval_part_def split: option.splits simp del: path_part_search tagged.simps has_set.simps)

lemma element_eval_view: "element_eval (view s x sz) e = eval_loop (view s x 0) e (0, None, None)"
  by (simp add: element_eval_def view_def)

lemma eval_search_view:
  assumes "query_ok (EList es)" and "tag_ok t" and "ends_name x" and "length t + 2 < 2 ^ 31"
  shows "element_eval (view (''//'' @ t) x sz) (EList es) =
    (if has_set (EList es) then None else Some (several (tagged t (EList es))))"
proof -
  have "eval_part (view (''//'' @ t) x 0) (EList es) =
      (if has_set (EList es) then None else Some (Inr (several (tagged t (EList es)), view [] x 0)))"
    using eval_part_search [of es t "[]" x 0] assms by (auto simp: pick_part_def split: option.splits simp del: tagged.simps has_set.simps)
  then show ?thesis unfolding element_eval_view
    by (subst eval_loop.simps) (auto simp: collect_part_def split: option.splits simp del: tagged.simps has_set.simps)
qed

text \<open>C13: A specification \<open>//name\<close> picks exactly the lists of the query that begin with the name: nothing when there is
  none, the list when there is one, and an array of them in their order otherwise. On a query with a
  set in it the search does not end.\<close>

theorem element_eval_search:
  assumes "query_ok (EList es)" and "tag_ok t" and "ends_name x" and "length t + 2 < 2 ^ 31"
  shows "element_eval (view (''//'' @ t) x sz) (EList es) =
    (if has_set (EList es) then None else Some (several (tagged t (EList es))))"
  using assms by (rule eval_search_view)

text \<open>Of two alternatives \<open>//a | //b\<close> the first one is never taken: the result is that of \<open>//b\<close> alone, whatever
  the first one finds.\<close>

theorem element_eval_alternatives:
  assumes "query_ok (EList es)" and "tag_ok a" and "tag_ok b" and "ends_name x" and "length a + length b + 7 < 2 ^ 31"
  shows "element_eval (view (''//'' @ a @ '' | //'' @ b) x sz) (EList es) = element_eval (view (''//'' @ b) x sz') (EList es)"
proof -
  define r where "r = CHR '' '' # ''| //'' @ b"
  have e: "ends_name (r @ x)" "length (''//'' @ a @ r) < 2 ^ 31" using assms(5) by (simp_all add: ends_name_def r_def)
  have "pick_part (view r x 0) (EList es) None (Some se) = Some (Inr (None, view r x 0))" for se
    by (simp add: pick_part_def interval_part_def r_def)
  then have p: "eval_part (view (''//'' @ a @ r) x 0) (EList es) = (if has_set (EList es) then None else Some (Inr (None, view r x 0)))"
    using eval_part_search [OF assms(1,2) e, of 0] by (auto split: option.splits simp del: tagged.simps has_set.simps)
  have "bar_loop (r @ x) (length r) 0 = Some (1, (''//'' @ b) @ x, length (''//'' @ b))" by (simp add: r_def)
  moreover have "view r x 0\<lparr>oct_val := (''//'' @ b) @ x, oct_len := length (''//'' @ b)\<rparr> = view (''//'' @ b) x 0" by (simp add: view_def)
  ultimately have "eval_loop (view (''//'' @ a @ r) x 0) (EList es) (0, None, None) =
      (if has_set (EList es) then None else eval_loop (view (''//'' @ b) x 0) (EList es) (0, None, None))"
    by (subst eval_loop.simps) (simp add: p [unfolded append_Cons append_Nil] collect_part_def del: has_set.simps, simp add: view_def)
  moreover have "eval_loop (view (''//'' @ b) x 0) (EList es) (0, None, None) = None" if "has_set (EList es)"
    using eval_search_view [OF assms(1,3,4), of 0] assms(5) that by (simp add: element_eval_view)
  ultimately show ?thesis unfolding element_eval_view by (simp add: r_def)
qed

subsection \<open>Paths through a query\<close>

text \<open>The list that a path of names leads to: the first one in the order of the text.\<close>

fun path_find :: "bytes list \<Rightarrow> element \<Rightarrow> element option" where
  "path_find (t # ts) (EList es) =
     (if list_tag es = t
      then (if ts = [] then Some (EList es)
            else (case List.map_filter (path_find ts) es of [] \<Rightarrow> None | l # _ \<Rightarrow> Some l))
      else None)"
| "path_find ts e = None"

definition piece :: "bytes \<Rightarrow> octet" where
  "piece t = \<lparr>oct_val = t, oct_len = length t, oct_size = length t\<rparr>"

lemma content_piece [simp]: "content (piece t) = t" "length t < 2 ^ 31 \<Longrightarrow> wf_octet (piece t)"
  by (simp_all add: piece_def content_def wf_octet_def)

lemma path_find_nonlist: "(\<And>es. e \<noteq> EList es) \<Longrightarrow> path_find ts e = None"
  by (cases e; cases ts) auto

lemma element_traverse_find:
  "\<lbrakk>query_ok e; \<And>s. e \<noteq> ESet s; \<forall>t \<in> set ts. length t < 2 ^ 31; i < length ts\<rbrakk> \<Longrightarrow>
     element_traverse e (Some (map piece ts)) i = Some (path_find (drop i ts) e)"
  and members_traverse_find:
  "\<lbrakk>\<forall>e \<in> set es. query_ok e; \<forall>t \<in> set ts. length t < 2 ^ 31; i < length ts\<rbrakk> \<Longrightarrow>
     members_traverse es (Some (map piece ts)) i =
       Some (case List.map_filter (path_find (drop i ts)) es of [] \<Rightarrow> None | l # _ \<Rightarrow> Some l)"
proof (induction e "Some (map piece ts)" i and es "Some (map piece ts)" i rule: element_traverse_members_traverse.induct)
  case (2 es i)
  obtain t fs where t: "es = EAtom (mk_atom t) # fs" "length t < 2 ^ 31" using query_ok_head [OF 2(2)] by blast
  have m: "\<forall>e \<in> set es. query_ok e" using query_ok_member [OF 2(2)] by blast
  have "wf_octet (piece (ts ! i))" using 2(4,5) by simp
  then obtain c where c: "octcmp (Some (a_val (mk_atom t))) (Some (piece (ts ! i))) = Some c" "c = 0 \<longleftrightarrow> t = ts ! i"
    using octcmp_mk_atom(2) [OF _ t(2)] by fastforce
  have d: "drop i ts = ts ! i # drop (i + 1) ts" using 2(5) Cons_nth_drop_Suc by fastforce
  have tag: "list_tag es = t" by (simp add: t(1) list_tag_def)
  have e: "element_traverse (EList es) (Some (map piece ts)) i =
      (if t \<noteq> ts ! i then Some None else if i + 1 = length ts then Some (Some (EList es)) else members_traverse es (Some (map piece ts)) (i + 1))"
    using c 2(5) by (simp add: t(1) union_atom_def)
  show ?case
  proof (cases "t = ts ! i \<and> i + 1 \<noteq> length ts")
    case True
    have "members_traverse es (Some (map piece ts)) (i + 1) =
        Some (case List.map_filter (path_find (drop (i + 1) ts)) es of [] \<Rightarrow> None | l # _ \<Rightarrow> Some l)"
      using 2(1) [OF t(1), of "mk_atom t" "map piece ts" "piece (ts ! i)" c] True c m 2(4,5) by (simp add: union_atom_def)
    then show ?thesis using True 2(5) by (simp add: e d tag del: element_traverse.simps)
  next
    case False
    then show ?thesis using 2(5) by (auto simp: e d tag simp del: element_traverse.simps)
  qed
next
  case (5 e es i)
  show ?case
  proof (cases e)
    case (EList fs)
    note prems = "5.prems"
    have trav: "element_traverse e (Some (map piece ts)) i = Some (path_find (drop i ts) e)"
      using 5(2) [OF EList] prems EList by simp
    have memb: "path_find (drop i ts) e = None \<Longrightarrow>
        members_traverse es (Some (map piece ts)) i = Some (case List.map_filter (path_find (drop i ts)) es of [] \<Rightarrow> None | l # _ \<Rightarrow> Some l)"
      using 5(3) [OF EList] trav prems by simp
    show ?thesis using trav memb EList by (auto simp: List.map_filter_simps simp del: element_traverse.simps split: option.splits)
  qed (use 5 in \<open>auto simp: List.map_filter_simps path_find_nonlist\<close>)
qed (auto simp: List.map_filter_simps path_find_nonlist)

text \<open>A path in a specification, and reading it.\<close>

definition slashed :: "bytes list \<Rightarrow> bytes" where
  "slashed ts = concat (map (\<lambda>t. CHR ''/'' # t) ts)"

lemma slashed_simps [simp]: "slashed [] = []" "slashed (t # ts) = CHR ''/'' # t @ slashed ts"
  by (simp_all add: slashed_def)

lemma path_loop_name:
  "\<lbrakk>\<forall>c \<in> set t. TOKENCHAR c \<and> c \<noteq> CHR ''/''; i + length t \<le> oct_len o1\<rbrakk> \<Longrightarrow>
    path_loop (t @ sp) o1 i st = path_loop sp o1 (i + length t) st"
  by (induction t arbitrary: i) auto

lemma oct_new_piece: "t \<noteq> [] \<Longrightarrow> oct_new (length t) (Some (t @ r)) = Some (piece t)"
  by (simp add: oct_new_def piece_def)

text \<open>Reading the rest \<open>ts\<close> of a path behind the current piece \<open>cur\<close>, with the pieces \<open>acc\<close> read before it.\<close>

lemma path_loop_slashed:
  assumes "tag_ok cur" "\<forall>t \<in> set ts. tag_ok t" "ts \<noteq> []"
    and "oct_val o1 = pre @ cur @ slashed ts @ rest" "length pre + length cur + length (slashed ts) \<le> oct_len o1"
    and "rest \<noteq> []" "length pre + length cur + length (slashed ts) = oct_len o1 \<or> \<not> TOKENCHAR (hd rest)"
    and "(case st of None \<Rightarrow> pre = [] \<and> acc = [] | Some (oa, k) \<Rightarrow> k = length pre \<and> octarr_ok oa \<and> oa_arr oa = acc)"
  shows "\<exists>oa. path_loop (slashed ts @ rest) o1 (length pre + length cur) st =
      Some (Some (oa, length pre + length cur + length (slashed ts) - length (last ts)), length pre + length cur + length (slashed ts)) \<and>
    octarr_ok oa \<and> oa_arr oa = acc @ map piece (cur # butlast ts)"
  using assms
proof (induction ts arbitrary: cur pre st acc)
  case (Cons t ts)
  define k0 where "k0 = (case st of None \<Rightarrow> 0 | Some (_, k) \<Rightarrow> k)"
  define oa0 where "oa0 = (case st of None \<Rightarrow> octarr_new 2 | Some (oa, _) \<Rightarrow> oa)"
  have st: "k0 = length pre" "octarr_ok oa0" "oa_arr oa0 = acc"
    using Cons.prems(8) by (auto simp: k0_def oa0_def octarr_new_def octarr_ok_def split: option.splits)
  have st': "(case st of None \<Rightarrow> (octarr_new 2, 0) | Some x \<Rightarrow> x) = (oa0, length pre)"
    using st(1) by (auto simp: k0_def oa0_def split: option.splits)
  obtain oa1 where oa1: "octarr_add (Some oa0) (piece cur) = Some oa1" "octarr_ok oa1" "oa_arr oa1 = acc @ [piece cur]"
    using octarr_add_Some [OF st(2), of "piece cur"] st(3) by auto
  let ?pre = "pre @ cur @ ''/''"
  have "oct_new (length cur) (Some (drop (length pre) (oct_val o1))) = Some (piece cur)"
    using Cons.prems(1,4) by (simp add: oct_new_piece tag_ok_def)
  moreover have "length pre + length cur < oct_len o1" using Cons.prems(5) by simp
  moreover have tok: "\<forall>c \<in> set t. TOKENCHAR c \<and> c \<noteq> CHR ''/''" "length ?pre + length t \<le> oct_len o1"
    using Cons.prems(2,5) by (auto simp: tag_ok_def)
  ultimately have step: "path_loop (slashed (t # ts) @ rest) o1 (length pre + length cur) st =
      path_loop (slashed ts @ rest) o1 (length ?pre + length t) (Some (oa1, length ?pre))"
    using oa1(1) st' path_loop_name [OF tok, of "slashed ts @ rest"] by simp
  show ?case
  proof (cases "ts = []")
    case True
    obtain c r' where r: "rest = c # r'" using Cons.prems(6) by (cases rest) auto
    have "path_loop rest o1 (length ?pre + length t) (Some (oa1, length ?pre)) = Some (Some (oa1, length ?pre), length ?pre + length t)"
      using Cons.prems(5,7) True r by auto
    then show ?thesis using step True oa1(2,3) by simp
  next
    case False
    have "\<exists>oa. path_loop (slashed ts @ rest) o1 (length ?pre + length t) (Some (oa1, length ?pre)) =
        Some (Some (oa, length ?pre + length t + length (slashed ts) - length (last ts)), length ?pre + length t + length (slashed ts)) \<and>
      octarr_ok oa \<and> oa_arr oa = (acc @ [piece cur]) @ map piece (t # butlast ts)"
      by (rule Cons.IH) (use Cons.prems False oa1 in \<open>auto simp: add_ac\<close>)
    then show ?thesis using step False by (auto simp: add_ac)
  qed
qed simp

lemma parse_path_slashed:
  assumes "tag_ok t" "\<forall>u \<in> set us. tag_ok u" "us \<noteq> []" "x \<noteq> []" "r = [] \<or> \<not> TOKENCHAR (hd r) \<and> length r \<noteq> 1"
    and "length (t @ slashed us @ r) < 2 ^ 31"
  shows "\<exists>oa. parse_path (view (t @ slashed us @ r) x sz) = Some (Some oa, view r x sz) \<and> oa_arr oa = map piece (t # us)"
proof -
  let ?o = "view (t @ slashed us @ r) x sz" and ?n = "length t + length (slashed us)"
  have tok: "\<forall>c \<in> set t. TOKENCHAR c \<and> c \<noteq> CHR ''/''" using assms(1) by (simp add: tag_ok_def)
  have "hd (r @ x) = hd r" if "r \<noteq> []" using that by simp
  then have "\<exists>oa. path_loop (slashed us @ r @ x) ?o (length ([] :: bytes) + length t) None =
      Some (Some (oa, length ([] :: bytes) + length t + length (slashed us) - length (last us)), length ([] :: bytes) + length t + length (slashed us)) \<and>
    octarr_ok oa \<and> oa_arr oa = [] @ map piece (t # butlast us)"
    by (intro path_loop_slashed) (use assms in \<open>simp_all, auto\<close>)
  then obtain oa where oa: "path_loop (slashed us @ r @ x) ?o (length t) None = Some (Some (oa, ?n - length (last us)), ?n)"
    "octarr_ok oa" "oa_arr oa = map piece (t # butlast us)" by auto
  have loop: "path_loop (oct_val ?o) ?o 0 None = Some (Some (oa, ?n - length (last us)), ?n)"
    using path_loop_name [OF tok, of 0 ?o "slashed us @ r @ x" None] oa(1) by simp
  have us: "slashed us = slashed (butlast us) @ CHR ''/'' # last us"
    using assms(3) by (metis append_butlast_last_id append_Nil2 slashed_def concat_append map_append list.simps(8) list.simps(9) concat.simps(1) concat.simps(2))
  have last: "drop (?n - length (last us)) (oct_val ?o) = last us @ r @ x" by (simp add: us)
  have lok: "last us \<noteq> []" using assms(2,3) by (simp add: tag_ok_def)
  obtain c where c: "rd (oct_val ?o) (?n - length (last us)) = Some c"
    using lok by (auto simp: us rd_def)
  obtain oa' where oa': "octarr_add (Some oa) (piece (last us)) = Some oa'" "oa_arr oa' = map piece (t # us)"
    using octarr_add_Some [OF oa(2), of "piece (last us)"] oa(3) assms(3) by (metis append_butlast_last_id append_Cons list.simps(9) map_append list.simps(8))
  define k where "k = ?n - length (last us)"
  define o1 where "o1 = ?o"
  have o1: "path_loop (oct_val o1) o1 0 None = Some (Some (oa, k), ?n)" "rd (oct_val o1) k = Some c"
    "drop k (oct_val o1) = last us @ r @ x" "szsub (oct_len o1) ?n = length r"
    "o1\<lparr>oct_val := drop ?n (oct_val o1), oct_len := length r\<rparr> = view r x sz"
    using loop c last assms(6) by (simp_all only: o1_def k_def) (simp_all add: view_def)
  have "?n - k = length (last us)" by (simp add: us k_def)
  then have "parse_path o1 = Some (Some oa', view r x sz)"
    using o1 oct_new_piece [OF lok, of "r @ x"] oa'(1) assms(5) by (auto simp: parse_path_def)
  then show ?thesis using oa'(2) by (simp add: o1_def)
qed

lemma eval_part_path:
  assumes "query_ok (EList es)" "tag_ok t" "\<forall>u \<in> set us. tag_ok u" "us \<noteq> []" "x \<noteq> []"
    and "r = [] \<or> r = CHR ''['' # r' \<and> r' \<noteq> []" "length (t @ slashed us @ r) + 1 < 2 ^ 31"
  shows "eval_part (view (CHR ''/'' # t @ slashed us @ r) x 0) (EList es) =
    (case path_find (t # us) (EList es) of
       None \<Rightarrow> Some (Inr (None, view r x 0))
     | Some l \<Rightarrow> pick_part (view r x 0) (EList es) (Some l) None)"
proof -
  have st: "step (view (CHR ''/'' # t @ slashed us @ r) x 0) = view (t @ slashed us @ r) x 0"
    using assms(7) by (intro step_view) simp
  obtain oa where oa: "parse_path (view (t @ slashed us @ r) x 0) = Some (Some oa, view r x 0)" "oa_arr oa = map piece (t # us)"
    using parse_path_slashed [OF assms(2-5), of r 0] assms(6,7) by fastforce
  have "length u \<le> length (slashed us)" if "u \<in> set us" for u using that by (induction us) auto
  then have "\<forall>u \<in> set (t # us). length u < 2 ^ 31" using assms(7) by force
  then have tr: "element_traverse (EList es) (Some (map piece (t # us))) 0 = Some (path_find (t # us) (EList es))"
    using element_traverse_find [of "EList es" "t # us" 0] assms(1) by simp
  obtain c t' where t: "t = c # t'" "c \<noteq> CHR ''/''" using assms(2) by (cases t) (auto simp: tag_ok_def)
  have pp: "path_part (view (CHR ''/'' # t @ slashed us @ r) x 0) (EList es) = Some (map_option Some (path_find (t # us) (EList es)), view r x 0)"
    using st oa tr t by (simp add: path_part_def del: element_traverse.simps path_find.simps)
  have "search_part (view r x 0) l = Some (Some None, view r x 0)" for l using assms(6) by (auto simp: search_part_def)
  then show ?thesis using pp by (simp add: eval_part_def del: path_find.simps split: option.splits)
qed

text \<open>An index of one digit in brackets.\<close>

definition digit_index :: "nat \<Rightarrow> bytes" where
  "digit_index d = CHR ''['' # digit_char d # '']''"

lemma set_map_filter_iff: "y \<in> set (List.map_filter f xs) \<longleftrightarrow> (\<exists>x \<in> set xs. f x = Some y)"
  by (induction xs) (auto simp: List.map_filter_simps split: option.splits)

lemma path_find_list: "path_find ts e = Some l \<Longrightarrow> query_ok e \<Longrightarrow> \<exists>es. l = EList es \<and> query_ok l"
proof (induction ts e arbitrary: l rule: path_find.induct)
  case (1 t ts es)
  show ?case
  proof (cases "ts = []")
    case True
    then show ?thesis using 1 by (auto split: if_splits)
  next
    case False
    then obtain ls where "list_tag es = t" "List.map_filter (path_find ts) es = l # ls"
      using 1(2) by (auto split: if_splits list.splits)
    then obtain e where "e \<in> set es" "path_find ts e = Some l"
      using set_map_filter_iff [of l "path_find ts" es] by auto
    then show ?thesis using 1(1) False \<open>list_tag es = t\<close> query_ok_member [OF 1(3)] by blast
  qed
qed auto

lemma pick_part_copy: "query_ok l \<Longrightarrow> pick_part (view [] x 0) e (Some l) None = Some (Inr (Some (One l), view [] x 0))"
  by (simp add: pick_part_def query_ok_def element_dup_good)

lemma parse_intervall_digit: "d < 10 \<Longrightarrow> parse_intervall (view (digit_char d # '']'') x 0) = Some (Some (int d, int d, 1))"
proof -
  assume d: "d < 10"
  then have "DIGIT (digit_char d)" "digitval (digit_char d) = int d" by simp_all
  moreover have "\<not> DIGIT CHR '']''" by code_simp
  ultimately have "digit_char d \<noteq> CHR '']''" "DIGIT (digit_char d)" "digitval (digit_char d) = int d" by auto
  then show ?thesis by (simp add: parse_intervall_def octchr_def read_number_def)
qed

lemma pick_part_index:
  assumes "query_ok (EList fs)" "d < 10" "x \<noteq> []"
  shows "pick_part (view (digit_index d) x 0) e (Some (EList fs)) None =
    Some (Inr (if d < length fs then Some (One (fs ! d)) else None, view [] x 0))"
proof -
  have s: "step (view (digit_index d) x 0) = view (digit_char d # '']'') x 0" by (simp add: digit_index_def)
  have g: "query_ok (fs ! d)" if "d < length fs" using query_ok_member [OF assms(1)] that by simp
  have v: "view (digit_index d) x 0\<lparr>oct_val := x, oct_len := 0\<rparr> = view [] x 0" by (simp add: view_def)
  have "interval_part (view (digit_index d) x 0) (One (EList fs)) = Some (Inr (if d < length fs then Some (fs ! d) else None, view [] x 0))"
    using s v parse_intervall_digit [OF assms(2), of x] g
    by (auto simp: interval_part_def digit_index_def element_intervall_def Let_def query_ok_def element_dup_good)
  then show ?thesis by (simp add: pick_part_def digit_index_def)
qed

lemma eval_loop_once:
  assumes "eval_part (view s x 0) e = Some (Inr (p, view [] x 0))"
  shows "element_eval (view s x sz) e = Some p"
  unfolding element_eval_view by (subst eval_loop.simps) (simp add: assms collect_part_def split: option.splits)

lemma eval_path_view:
  assumes "query_ok (EList es)" "tag_ok t" "\<forall>u \<in> set us. tag_ok u" "us \<noteq> []" "x \<noteq> []" "length (t @ slashed us) + 4 < 2 ^ 31"
  shows "element_eval (view (CHR ''/'' # t @ slashed us) x sz) (EList es) = Some (map_option One (path_find (t # us) (EList es)))"
    and "d < 10 \<Longrightarrow> element_eval (view (CHR ''/'' # t @ slashed us @ digit_index d) x sz) (EList es) =
      Some (case path_find (t # us) (EList es) of
          Some (EList fs) \<Rightarrow> if d < length fs then Some (One (fs ! d)) else None
        | _ \<Rightarrow> None)"
proof -
  show "element_eval (view (CHR ''/'' # t @ slashed us) x sz) (EList es) = Some (map_option One (path_find (t # us) (EList es)))"
    using eval_part_path [OF assms(1-5), of "[]"] assms(6) path_find_list [OF _ assms(1), of "t # us"]
    by (intro eval_loop_once) (auto simp: pick_part_copy simp del: path_find.simps split: option.splits)
next
  assume d: "d < 10"
  define p where "p = (case path_find (t # us) (EList es) of Some (EList fs) \<Rightarrow> if d < length fs then Some (One (fs ! d)) else None | _ \<Rightarrow> None)"
  have "eval_part (view (CHR ''/'' # t @ slashed us @ digit_index d) x 0) (EList es) =
      (case path_find (t # us) (EList es) of
         None \<Rightarrow> Some (Inr (None, view (digit_index d) x 0))
       | Some l \<Rightarrow> pick_part (view (digit_index d) x 0) (EList es) (Some l) None)"
    using assms(6) by (intro eval_part_path [OF assms(1-5), of _ "digit_char d # '']''"]) (simp_all add: digit_index_def)
  then consider "path_find (t # us) (EList es) = None" "eval_part (view (CHR ''/'' # t @ slashed us @ digit_index d) x 0) (EList es) = Some (Inr (None, view (digit_index d) x 0))"
    | "eval_part (view (CHR ''/'' # t @ slashed us @ digit_index d) x 0) (EList es) = Some (Inr (p, view [] x 0))"
    using pick_part_index [OF _ d assms(5)] path_find_list [OF _ assms(1), of "t # us"]
    by (cases "path_find (t # us) (EList es)") (fastforce simp: p_def simp del: path_find.simps)+
  then show "element_eval (view (CHR ''/'' # t @ slashed us @ digit_index d) x sz) (EList es) =
      Some (case path_find (t # us) (EList es) of Some (EList fs) \<Rightarrow> if d < length fs then Some (One (fs ! d)) else None | _ \<Rightarrow> None)"
    unfolding p_def [symmetric]
  proof cases
    case 1
    then show "element_eval (view (CHR ''/'' # t @ slashed us @ digit_index d) x sz) (EList es) = Some p"
      unfolding element_eval_view by (subst eval_loop.simps) (simp add: p_def collect_part_def digit_index_def)
  qed (rule eval_loop_once)
qed

text \<open>C12: A path of two or more names, alone or with an index of one digit behind it, picks what the documentation
  says: the first list that the names lead to, or its member with that number; nothing when there is no
  such list or member. The evaluation always returns.\<close>

theorem element_eval_path:
  assumes "query_ok (EList es)" and "tag_ok t" and "\<forall>u \<in> set us. tag_ok u" and "us \<noteq> []" and "x \<noteq> []"
    and "length (t @ slashed us) + 4 < 2 ^ 31" and "d < 10"
  shows "element_eval (view (CHR ''/'' # t @ slashed us) x sz) (EList es) = Some (map_option One (path_find (t # us) (EList es))) \<and>
    element_eval (view (CHR ''/'' # t @ slashed us @ digit_index d) x sz) (EList es) =
      Some (case path_find (t # us) (EList es) of
          Some (EList fs) \<Rightarrow> if d < length fs then Some (One (fs ! d)) else None
        | _ \<Rightarrow> None)"
  using eval_path_view(1) [OF assms(1-6)] eval_path_view(2) [OF assms(1-7)] by blast

text \<open>The documented form for all members of a list but its tag picks nothing: the star is taken for a name.\<close>

lemma path_find_tag: "path_find ts e = Some (EList fs) \<Longrightarrow> list_tag fs = last ts"
proof (induction ts e arbitrary: fs rule: path_find.induct)
  case (1 t ts es)
  show ?case
  proof (cases "ts = []")
    case False
    then obtain ls where "list_tag es = t" "List.map_filter (path_find ts) es = EList fs # ls"
      using 1(2) by (auto split: if_splits list.splits)
    then show ?thesis using 1(1) False set_map_filter_iff [of "EList fs" "path_find ts" es] by auto
  qed (use 1 in \<open>auto split: if_splits\<close>)
qed auto

lemma element_eval_star:
  assumes "query_ok (EList es)" "tag_ok t" "\<forall>u \<in> set us. tag_ok u" "x \<noteq> []" "length (t @ slashed us) + 6 < 2 ^ 31"
  shows "element_eval (view (CHR ''/'' # t @ slashed us @ ''/*'') x sz) (EList es) = Some None"
proof -
  have "path_find (t # us @ [''*'']) (EList es) = None"
  proof (rule ccontr)
    assume "\<not> ?thesis"
    then obtain l where l: "path_find (t # us @ [''*'']) (EList es) = Some l" by (auto simp del: path_find.simps)
    then obtain fs where "l = EList fs" "query_ok (EList fs)" using path_find_list assms(1) by blast
    moreover from this have "list_tag fs \<noteq> ''*''" by (auto simp: query_ok_def list_tag_def split: list.splits element.splits)
    ultimately show False using path_find_tag l by fastforce
  qed
  moreover have "tag_ok ''*''" by (simp add: tag_ok_def)
  moreover have "slashed (us @ [''*'']) = slashed us @ ''/*''" by (simp add: slashed_def)
  ultimately show ?thesis using eval_path_view(1) [OF assms(1,2), of "us @ [''*'']" x sz] assms(3-5) by auto
qed

text \<open>A path of a single name is a null pointer to \<open>element_traverse\<close>, which follows it on every query that is a list.\<close>

theorem element_eval_single:
  assumes "query_ok (EList es)" and "tag_ok t" and "x \<noteq> []" and "length t + 1 < 2 ^ 31"
  shows "element_eval (view (CHR ''/'' # t) x sz) (EList es) = None"
proof -
  have tok: "\<forall>c \<in> set t. TOKENCHAR c \<and> c \<noteq> CHR ''/''" using assms(2) by (simp add: tag_ok_def)
  obtain y ys where x: "x = y # ys" using assms(3) by (cases x) auto
  have "path_loop (t @ x) (view t x 0) 0 None = Some (None, length t)"
    using path_loop_name [OF tok, of 0 "view t x 0" x None] by (simp add: x)
  then have "parse_path (view t x 0) = Some (None, view t x 0\<lparr>oct_val := x, oct_len := szsub (length t) (length t)\<rparr>)"
    by (simp add: parse_path_def)
  moreover have "element_traverse (EList es) None 0 = None" using query_ok_head [OF assms(1)] by (auto simp: union_atom_def split: list.splits)
  moreover obtain c t' where "t = c # t'" "c \<noteq> CHR ''/''" using tok assms(2) by (cases t) (auto simp: tag_ok_def)
  moreover have "step (view (CHR ''/'' # t) x 0) = view t x 0" using assms(4) by (intro step_view) simp
  ultimately have "eval_part (view (CHR ''/'' # t) x 0) (EList es) = None"
    by (simp add: eval_part_def path_part_def del: element_traverse.simps)
  then show ?thesis unfolding element_eval_view by (subst eval_loop.simps) simp
qed

text \<open>A query to try the specifications on.\<close>

definition mail_query :: element where
  "mail_query = EList [EAtom (mk_atom ''postfix''), EList [EAtom (mk_atom ''sender''), EAtom (mk_atom ''joe'')],
     EList [EAtom (mk_atom ''rcpt''), EAtom (mk_atom ''ann'')]]"

lemma mail_query_ok: "query_ok mail_query" "\<not> has_set mail_query"
proof -
  have "length (netstr ''postfix'') = 9" "length (netstr ''sender'') = 8" "length (netstr ''joe'') = 5"
    "length (netstr ''rcpt'') = 6" "length (netstr ''ann'') = 5" by code_simp+
  then show "query_ok mail_query" "\<not> has_set mail_query" by (simp_all add: query_ok_def mail_query_def good_atom_def)
qed

lemma mail_names: "tag_ok ''postfix''" "tag_ok ''sender''" "tag_ok ''rcpt''" "ends_name ''}''"
  by (simp_all add: tag_ok_def ends_name_def) code_simp+

theorem element_eval_path_witness:
  "element_eval (view ''/postfix/sender[1]'' ''}'' 0) mail_query = Some (Some (One (EAtom (mk_atom ''joe''))))"
proof -
  have "''[1]'' = digit_index 1" by code_simp
  then show ?thesis
    using element_eval_path [of "case mail_query of EList es \<Rightarrow> es" "''postfix''" "[''sender'']" "''}''" 1 0] mail_query_ok(1) mail_names
    by (simp add: mail_query_def list_tag_def List.map_filter_simps)
qed

theorem element_eval_search_witness:
  "element_eval (view ''//rcpt'' ''}'' 0) mail_query = Some (Some (One (EList [EAtom (mk_atom ''rcpt''), EAtom (mk_atom ''ann'')])))"
  using element_eval_search [of "case mail_query of EList es \<Rightarrow> es" "''rcpt''" "''}''" 0] mail_query_ok mail_names
  by (simp add: mail_query_def list_tag_def several_def)

theorem element_eval_alternatives_witness:
  "element_eval (view ''//sender | //rcpt'' ''}'' 0) mail_query = element_eval (view ''//rcpt'' ''}'' 0) mail_query"
  using element_eval_alternatives [of "case mail_query of EList es \<Rightarrow> es" "''sender''" "''rcpt''" "''}''" 0 0] mail_query_ok mail_names
  by (simp add: mail_query_def)

theorem element_eval_single_witness: "element_eval (view ''/postfix'' ''}'' 0) mail_query = None"
  using element_eval_single [of "case mail_query of EList es \<Rightarrow> es" "''postfix''" "''}''" 0] mail_query_ok mail_names
  by (simp add: mail_query_def)

subsection \<open>What a substitution gives\<close>

text \<open>A text with references is a list of pieces, each a text and the number of the reference behind it, and
  a text behind the last one.\<close>

definition ref_text :: "nat \<Rightarrow> bytes" where
  "ref_text i = ''${'' @ decimal i @ ''}''"

definition template :: "(bytes \<times> nat) list \<Rightarrow> bytes \<Rightarrow> bytes" where
  "template ps fin = concat (map (\<lambda>(l, i). l @ ref_text i) ps) @ fin"

definition filled :: "bytes list \<Rightarrow> (bytes \<times> nat) list \<Rightarrow> bytes \<Rightarrow> bytes" where
  "filled vs ps fin = concat (map (\<lambda>(l, i). l @ vs ! i) ps) @ fin"

definition atom_xlist :: "bytes list \<Rightarrow> xlist" where
  "atom_xlist vs = map (\<lambda>v. Some (One (EAtom (mk_atom v)))) vs"

definition template_ok :: "nat \<Rightarrow> (bytes \<times> nat) list \<Rightarrow> bytes \<Rightarrow> bool" where
  "template_ok n ps fin \<longleftrightarrow> (\<forall>(l, i) \<in> set ps. CHR ''$'' \<notin> set l \<and> i < n) \<and> CHR ''$'' \<notin> set fin \<and> n < 10 ^ 9"

lemma octstr_loop_ref:
  "\<lbrakk>CHR ''$'' \<notin> set l; length l < k\<rbrakk> \<Longrightarrow> octstr_loop (l @ CHR ''$'' # CHR ''{'' # r) (''${'' @ [NUL]) n k = Some (int (n + length l))"
proof (induction l arbitrary: n k)
  case Nil
  then show ?case by (cases k) auto
next
  case (Cons c l)
  then show ?case by (cases k) auto
qed

lemma octstr_loop_none: "\<lbrakk>CHR ''$'' \<notin> set l; k \<le> length l\<rbrakk> \<Longrightarrow> octstr_loop (l @ r) (''${'' @ [NUL]) n k = Some (- 1)"
proof (induction l arbitrary: n k)
  case (Cons c l)
  then show ?case by (cases k) auto
qed simp

lemma octstr_ref: "CHR ''$'' \<notin> set l \<Longrightarrow> octstr (view (l @ CHR ''$'' # CHR ''{'' # r) x sz) (''${'' @ [NUL]) = Some (int (length l))"
  using octstr_loop_ref [of l "Suc (length l + length r)" "r @ x" 0] by (simp add: octstr_def strlen_def)

lemma octstr_no_ref: "CHR ''$'' \<notin> set l \<Longrightarrow> octstr (view l x sz) (''${'' @ [NUL]) = Some (- 1)"
  using octstr_loop_none [of l "length l - 2 + 1" x 0] by (auto simp: octstr_def strlen_def numeral_2_eq_2 simp del: octstr_loop.simps)

lemma find_balancing_name:
  "\<lbrakk>CHR ''{'' \<notin> set d; CHR ''}'' \<notin> set d\<rbrakk> \<Longrightarrow>
    find_balancing_loop (d @ CHR ''}'' # r) (length d + 1 + n) CHR ''{'' CHR ''}'' len 0 = Some (int (len - (n + 1)))"
  by (induction d) auto

lemma decimal_no_brace: "CHR ''{'' \<notin> set (decimal i)" "CHR ''}'' \<notin> set (decimal i)" "CHR ''$'' \<notin> set (decimal i)"
proof -
  have "\<not> DIGIT CHR ''{''" "\<not> DIGIT CHR ''}''" "\<not> DIGIT CHR ''$''" by code_simp+
  then show "CHR ''{'' \<notin> set (decimal i)" "CHR ''}'' \<notin> set (decimal i)" "CHR ''$'' \<notin> set (decimal i)" using decimal_DIGIT by blast+
qed

lemma decimal_short: "m < 10 ^ Suc k \<Longrightarrow> length (decimal m) \<le> Suc k"
proof (induction k arbitrary: m)
  case (Suc k)
  show ?case
  proof (cases "m < 10")
    case False
    have "m div 10 < 10 ^ Suc k" using Suc.prems by (simp add: less_mult_imp_div_less mult.commute)
    then show ?thesis using Suc.IH False by (simp add: length_decimal_step)
  qed simp
qed simp

lemma sub_text_atom:
  assumes "i < length vs" "length vs < 10 ^ 9"
  shows "\<exists>tmp. sub_text (atom_xlist vs) (view (decimal i) x sz) = Some (Some tmp) \<and>
    rdn (oct_val tmp) (oct_len tmp) = Some (vs ! i) \<and> oct_len tmp = length (vs ! i)"
proof -
  have l: "length (decimal i) \<le> 9" using decimal_short [of i 8] assms by simp
  have "octtoi (view (decimal i) x sz) = Some (int i)"
    using octtoi_nine_digits [of "view (decimal i) x sz"] l decimal_DIGIT by (auto simp: wf_octet_def)
  moreover have "nth_in (atom_xlist vs) (int i) = Some (Some (One (EAtom (mk_atom (vs ! i)))))"
    using assms(1) by (simp add: nth_in_def atom_xlist_def)
  ultimately show ?thesis by (auto simp: sub_text_def octdup_def mk_atom_def)
qed

lemma octcat_whole:
  assumes "wf_dyn o1" "0 < oct_size o1" "rdn s l = Some t" "oct_len o1 + l < 2 ^ 31"
  obtains o2 where "octcat o1 s l = Some (SPOCP_SUCCESS, o2)" "content o2 = content o1 @ t" "wf_dyn o2" "0 < oct_size o2" "oct_len o2 = oct_len o1 + l"
proof -
  have l: "l \<le> length s" "t = take l s" using assms(3) by (auto simp: rdn_def split: if_splits)
  obtain o2 where o2: "octcat o1 s l = Some (SPOCP_SUCCESS, o2)" "content o2 = content o1 @ t" "wf_dyn o2" "0 < oct_size o2"
    using octcat_content [OF assms(1,2) l(1) assms(4)] l(2) by blast
  have "length (content o2) = length (content o1) + l" using l o2(2) by simp
  then have "oct_len o2 = oct_len o1 + l" using o2(3) assms(1) by (simp add: wf_dyn_def)
  then show ?thesis using that o2 by blast
qed

lemma sub_loop_step:
  assumes "oct_len oct \<noteq> 0" "octstr oct (''${'' @ [NUL]) = Some (int n)"
    and "(if int n \<noteq> 0 then octcat res (oct_val oct) n else Some (SPOCP_SUCCESS, res)) = Some (SPOCP_SUCCESS, res1)"
    and "oct\<lparr>oct_val := drop (n + 2) (oct_val oct), oct_len := oct_len oct - (n + 2)\<rparr> = o1"
    and "oct_find_balancing o1 CHR ''{'' CHR ''}'' = Some (int m)" "sub_text xp (o1\<lparr>oct_len := m\<rparr>) = Some (Some tmp)"
    and "octcat res1 (oct_val tmp) (oct_len tmp) = Some (r, res2)"
    and "o1\<lparr>oct_val := drop (m + 1) (oct_val o1), oct_len := oct_len o1 - (m + 1)\<rparr> = o2"
  shows "sub_loop val xp oct res subs = sub_loop val xp o2 res2 (subs + 1)"
  using assms(1,2,3,5,6,7) unfolding assms(4,8) [symmetric] by (subst sub_loop.simps) (auto simp: Let_def split: if_splits)

lemma sub_loop_filled:
  assumes "template_ok (length vs) ps fin" "wf_dyn res" "0 < oct_size res" "oct_len res + length (filled vs ps fin) < 2 ^ 31" "ps = [] \<longrightarrow> 0 < subs"
  shows "\<exists>r. sub_loop val (atom_xlist vs) (view (template ps fin) x 0) res subs = Some (Some r) \<and> wf_octet r \<and> content r = content res @ filled vs ps fin"
  using assms
proof (induction ps arbitrary: res subs)
  case Nil
  have s: "octstr (view fin x 0) (''${'' @ [NUL]) = Some (- 1)" using Nil.prems(1) by (intro octstr_no_ref) (simp add: template_ok_def)
  obtain o2 where "octcat res (fin @ x) (length fin) = Some (SPOCP_SUCCESS, o2)" "content o2 = content res @ fin" "wf_octet o2"
    using octcat_whole [OF Nil.prems(2,3), of "fin @ x" "length fin" fin] Nil.prems(4) by (auto simp: filled_def wf_dyn_def)
  moreover have "wf_octet res" using Nil.prems(2) by (simp add: wf_dyn_def)
  ultimately show ?case using s Nil.prems(5) by (subst sub_loop.simps) (auto simp: template_def filled_def)
next
  case (Cons p ps)
  obtain l i where p: "p = (l, i)" by (cases p)
  define t where "t = template ps fin"
  define w where "w = template (p # ps) fin"
  have l: "CHR ''$'' \<notin> set l" "i < length vs" "length vs < 10 ^ 9" "template_ok (length vs) ps fin" using Cons.prems(1) by (auto simp: template_ok_def p)
  have tx: "w = l @ CHR ''$'' # CHR ''{'' # decimal i @ CHR ''}'' # t" by (simp add: w_def template_def t_def p ref_text_def)
  have fl: "filled vs (p # ps) fin = l @ vs ! i @ filled vs ps fin" by (simp add: filled_def p)
  have s: "octstr (view (w) x 0) (''${'' @ [NUL]) = Some (int (length l))" unfolding tx by (rule octstr_ref) (rule l)
  have ne: "w \<noteq> []" by (simp add: tx)
  obtain r1 where r1: "(if int (length l) \<noteq> 0 then octcat res (w @ x) (length l) else Some (SPOCP_SUCCESS, res)) = Some (SPOCP_SUCCESS, r1)"
    "content r1 = content res @ l" "wf_dyn r1" "0 < oct_size r1" "oct_len r1 = oct_len res + length l"
  proof (cases "l = []")
    case False
    obtain o2 where "octcat res (w @ x) (length l) = Some (SPOCP_SUCCESS, o2)" "content o2 = content res @ l" "wf_dyn o2" "0 < oct_size o2" "oct_len o2 = oct_len res + length l"
      using octcat_whole [OF Cons.prems(2,3), of "w @ x" "length l" l] Cons.prems(4) by (auto simp: fl tx)
    then show ?thesis using False that [of o2] by simp
  qed (use Cons.prems(2,3) that [of res] in simp)
  define o1 where "o1 = view (decimal i @ CHR ''}'' # t) x 0"
  have o1: "view (w) x 0\<lparr>oct_val := drop (length l + 2) (w @ x), oct_len := length (w) - (length l + 2)\<rparr> = o1"
    by (simp add: o1_def tx view_def)
  have b: "oct_find_balancing o1 CHR ''{'' CHR ''}'' = Some (int (length (decimal i)))"
    using find_balancing_name [OF decimal_no_brace(1,2), of i "t @ x" "length t" "oct_len o1"] by (simp add: oct_find_balancing_def o1_def)
  have d: "o1\<lparr>oct_len := length (decimal i)\<rparr> = view (decimal i) (CHR ''}'' # t @ x) 0" by (simp add: o1_def view_def)
  obtain tmp where tmp: "sub_text (atom_xlist vs) (view (decimal i) (CHR ''}'' # t @ x) 0) = Some (Some tmp)"
    "rdn (oct_val tmp) (oct_len tmp) = Some (vs ! i)" "oct_len tmp = length (vs ! i)"
    using sub_text_atom [OF l(2,3)] by blast
  obtain r2 where r2: "octcat r1 (oct_val tmp) (oct_len tmp) = Some (SPOCP_SUCCESS, r2)" "content r2 = content r1 @ vs ! i" "wf_dyn r2" "0 < oct_size r2"
    "oct_len r2 = oct_len r1 + length (vs ! i)"
    using octcat_whole [OF r1(3,4) tmp(2)] r1(5) tmp(3) Cons.prems(4) by (auto simp: fl)
  have o2: "o1\<lparr>oct_val := drop (length (decimal i) + 1) (oct_val o1), oct_len := oct_len o1 - (length (decimal i) + 1)\<rparr> = view t x 0"
    by (simp add: o1_def view_def)
  have "sub_loop val (atom_xlist vs) (view (w) x 0) res subs = sub_loop val (atom_xlist vs) (view t x 0) r2 (subs + 1)"
    by (rule sub_loop_step [where n = "length l" and m = "length (decimal i)"]) (use s r1(1) o1 b d tmp(1) r2(1) o2 ne in \<open>simp_all split: if_splits\<close>)
  moreover have "\<exists>r. sub_loop val (atom_xlist vs) (view t x 0) r2 (subs + 1) = Some (Some r) \<and> wf_octet r \<and> content r = content r2 @ filled vs ps fin"
    unfolding t_def using Cons.IH [OF l(4) r2(3,4), of "subs + 1"] Cons.prems(4) r2(5) r1(5) by (simp add: fl)
  ultimately show ?case unfolding w_def [symmetric] using r2(2) r1(2) by (simp add: fl)
qed

lemma view_size: "view s x sz\<lparr>oct_size := n\<rparr> = view s x n"
  by (simp add: view_def)

lemma element_atom_sub_filled:
  assumes "template_ok (length vs) ps fin" and "vs \<noteq> []" and "length (template ps fin) < 2 ^ 30" and "length (filled vs ps fin) < 2 ^ 31"
  shows "\<exists>r. element_atom_sub (view (template ps fin) x sz) (atom_xlist vs) = Some (Some r) \<and> wf_octet r \<and> content r = filled vs ps fin"
proof (cases ps)
  case Nil
  then show ?thesis using assms(1,3) octstr_no_ref [of fin x sz] by (simp add: element_atom_sub_def template_def filled_def template_ok_def wf_octet_def)
next
  case (Cons p qs)
  obtain l i where p: "p = (l, i)" by (cases p)
  define s where "s = template ps fin"
  have "CHR ''$'' \<notin> set l" using assms(1) by (auto simp: template_ok_def Cons p)
  then have o: "octstr (view s x sz) (''${'' @ [NUL]) = Some (int (length l))"
    using octstr_ref [of l _ x sz] by (simp add: s_def template_def Cons p ref_text_def)
  have n: "s \<noteq> []" by (simp add: s_def template_def Cons p ref_text_def)
  have "wf_dyn \<lparr>oct_val = replicate (length s * 2) NUL, oct_len = 0, oct_size = length s * 2\<rparr>" using assms(3) by (simp add: wf_dyn_def wf_octet_def)
  then have "\<exists>r. sub_loop (view s x sz) (atom_xlist vs) (view s x 0) \<lparr>oct_val = replicate (length s * 2) NUL, oct_len = 0, oct_size = length s * 2\<rparr> 0 = Some (Some r) \<and>
      wf_octet r \<and> content r = content \<lparr>oct_val = replicate (length s * 2) NUL, oct_len = 0, oct_size = length s * 2\<rparr> @ filled vs ps fin"
    unfolding s_def using sub_loop_filled [OF assms(1)] assms(4) n Cons by (simp add: s_def)
  then show ?thesis unfolding s_def [symmetric]
    using o assms(2) by (auto simp: element_atom_sub_def oct_new_def atom_xlist_def content_def view_size)
qed

text \<open>C14: \<open>element_atom_sub\<close> replaces every reference \<open>${i}\<close> in a text by the text of the atom with that number and leaves
  the rest as it is, whatever the order and number of the references.\<close>

theorem element_atom_sub_fills:
  assumes "template_ok (length vs) ps fin" and "vs \<noteq> []" and "length (template ps fin) < 2 ^ 30" and "length (filled vs ps fin) < 2 ^ 31"
  shows "\<exists>r. element_atom_sub (view (template ps fin) x sz) (atom_xlist vs) = Some (Some r) \<and> content r = filled vs ps fin"
  using element_atom_sub_filled [OF assms] by blast

theorem element_atom_sub_fills_witness:
  "\<exists>r. element_atom_sub (view ''a${1}b${0}'' [NUL] 0) (atom_xlist [''x'', ''yz'']) = Some (Some r) \<and> content r = ''ayzbx''"
proof -
  have "decimal 0 = ''0''" "decimal 1 = ''1''" by code_simp+
  then have "template [(''a'', 1), (''b'', 0)] [] = ''a${1}b${0}''" by (simp add: template_def ref_text_def)
  moreover have "filled [''x'', ''yz''] [(''a'', 1), (''b'', 0)] [] = ''ayzbx''" by (simp add: filled_def)
  ultimately show ?thesis using element_atom_sub_fills [of "[''x'', ''yz'']" "[(''a'', 1), (''b'', 0)]" "[]" "[NUL]" 0] by (simp add: template_ok_def)
qed

subsection \<open>What is left of a list after \<open>element_reverse\<close>\<close>

fun listed :: "('a \<Rightarrow> 'a option) \<Rightarrow> 'a option \<Rightarrow> 'a list \<Rightarrow> bool" where
  "listed nx p [] \<longleftrightarrow> p = None"
| "listed nx p (x # xs) \<longleftrightarrow> p = Some x \<and> listed nx (nx x) xs"

lemma chain_upd: "x \<notin> set xs \<Longrightarrow> listed (nx(x := v)) p xs = listed nx p xs"
  by (induction xs arbitrary: p) auto

lemma reverse_loop_chain:
  "\<lbrakk>listed nx p xs; distinct xs; h \<notin> set xs\<rbrakk> \<Longrightarrow>
    \<exists>l nx'. reverse_loop nx h p = Some (l, nx') \<and> (\<forall>z. z \<notin> set xs \<longrightarrow> nx' z = nx z) \<and> (xs \<noteq> [] \<longrightarrow> nx' (hd xs) = Some h)"
proof (induction xs arbitrary: nx h p)
  case Nil
  then show ?case by (simp add: reverse_loop.simps)
next
  case (Cons x xs)
  have "listed (nx(x := Some h)) (nx x) xs" using Cons.prems by (simp add: chain_upd)
  moreover have "distinct xs" "x \<notin> set xs" using Cons.prems by auto
  ultimately obtain l nx' where "reverse_loop (nx(x := Some h)) x (nx x) = Some (l, nx')" "\<forall>z. z \<notin> set xs \<longrightarrow> nx' z = (nx(x := Some h)) z"
    using Cons.IH by blast
  then show ?case using Cons.prems by (subst reverse_loop.simps) auto
qed

text \<open>The first element keeps its pointer to the second, which now points back: the list has become a circle.\<close>

lemma element_reverse_circle:
  assumes "listed nx (Some x) (x # y # zs)" "distinct (x # y # zs)"
  shows "\<exists>l nx'. element_reverse nx (Some x) = Some (l, nx') \<and> nx' x = Some y \<and> nx' y = Some x"
proof -
  have "listed nx (Some y) (y # zs)" "nx x = Some y" using assms(1) by auto
  then show ?thesis using reverse_loop_chain [of nx "Some y" "y # zs" x] assms(2) by (fastforce simp: element_reverse_def)
qed

end
