(* ===== verification/Bcond.thy ===== *)
theory Bcond
  imports Match Rvapi
begin

text \<open>
  Boundary conditions (\<open>lib/bcond.c\<close>): reading a condition, storing it under a name, and evaluating it
  for a query and a rule.

  A definition is a struct that references point to, so definitions are kept in a store and a pointer to
  one is its position; the chain that \<^verbatim>\<open>*rbc\<close> is the head of is the list of these positions. What a
  plugin tests (\<open>ptest\<close>) and the SHA1 sum are arguments of the definitions. Calls of the persistent store are
  recorded in the order they are made. The outer option of a result is a fault or a call that does not
  return; the bound \<open>n\<close> of \<open>bcexp_eval\<close> is the depth of references.
\<close>

subsection \<open>Data\<close>

datatype stree = SAtom octet | SList "stree list"

record 'p bcspec =
  bs_name :: "bytes option"
  bs_plugin :: 'p
  bs_spec :: "octet option"

text \<open>A reference has an identity of its own, because the definition it points to keeps a pointer to it.\<close>

datatype 'p bcexp =
    BAnd "'p bcexp list"
  | BOr "'p bcexp list"
  | BNot "'p bcexp"
  | BRef nat nat
  | BSpec "'p bcspec"

text \<open>\<open>bcexp_deref\<close> stores what \<open>varr_rm\<close> returns, the removed expression, as the array of users.\<close>

datatype users = UArr "nat varr option" | UExp nat

record ('p, 'r) bcdef =
  bd_name :: "bytes option"
  bd_exp :: "'p bcexp option"
  bd_users :: users
  bd_rules :: "'r varr option"
  bd_freed :: bool

datatype dback_op = DSave bytes octet | DDelete bytes | DReplace bytes octet

record ('p, 'r) bcstore =
  bc_defs :: "('p, 'r) bcdef list"
  bc_chain :: "nat list"
  bc_exps :: nat
  bc_dback :: bool
  bc_ops :: "dback_op list"

subsection \<open>Reading a condition\<close>

definition is_word :: "octet \<Rightarrow> bytes \<Rightarrow> bool option" where
  "is_word v w = map_option (\<lambda>r. r = 0) (oct2strcmp (Some v) (Some w))"

text \<open>The first member of a list has to be one of four words.\<close>

definition keyword :: "stree \<Rightarrow> bool option" where
  "keyword t = (case t of
      SList _ \<Rightarrow> Some False
    | SAtom v \<Rightarrow> do {
        a \<leftarrow> is_word v ''ref'';
        b \<leftarrow> is_word v ''and'';
        c \<leftarrow> is_word v ''or'';
        d \<leftarrow> is_word v ''not'';
        Some (a \<or> b \<or> c \<or> d) })"

text \<open>\<open>parse_list\<close> is the loop over the members of a list. It goes on with what a member has left, which is
  always shorter (\<open>parse_shorter\<close> below).\<close>

function (sequential) parse_bcexp :: "octet \<Rightarrow> (stree option \<times> octet) option"
  and parse_list :: "octet \<Rightarrow> stree list \<Rightarrow> (stree option \<times> octet) option" where
  "parse_bcexp sexp = (case rd (oct_val sexp) 0 of
      None \<Rightarrow> None
    | Some c \<Rightarrow>
       if c = CHR ''('' then parse_list (step sexp) []
       else (case get_str sexp of
               None \<Rightarrow> None
             | Some (Inl r, sexp') \<Rightarrow> Some (None, sexp')
             | Some (Inr v, sexp') \<Rightarrow> Some (Some (SAtom v), sexp')))"
| "parse_list sexp part = (case rd (oct_val sexp) 0 of
      None \<Rightarrow> None
    | Some c \<Rightarrow>
       if c = CHR '')'' then Some (Some (SList part), step sexp)
       else if oct_len sexp = 0 then Some (None, sexp)
       else (case parse_bcexp sexp of
               None \<Rightarrow> None
             | Some (None, sexp') \<Rightarrow> Some (None, sexp')
             | Some (Some t, sexp') \<Rightarrow>
                (case (if part = [] then keyword t else Some True) of
                   None \<Rightarrow> None
                 | Some False \<Rightarrow> Some (None, sexp')
                 | Some True \<Rightarrow>
                    if length (oct_val sexp') < length (oct_val sexp) then parse_list sexp' (part @ [t]) else None)))"
  by pat_completeness auto
termination
  by (relation "measure (\<lambda>x. case x of Inl sexp \<Rightarrow> 2 * length (oct_val sexp) | Inr (sexp, part) \<Rightarrow> 2 * length (oct_val sexp) + 1)")
    (auto simp: step_def rd_eq_Some_iff neq_Nil_conv)

declare parse_bcexp.simps [simp del] parse_list.simps [simp del]

lemma parse_list_le:
  "parse_list sexp part = Some (Some t, sexp') \<Longrightarrow>
    (\<And>o1 u o2. length (oct_val o1) \<le> length (oct_val sexp) \<Longrightarrow> parse_bcexp o1 = Some (Some u, o2) \<Longrightarrow> length (oct_val o2) < length (oct_val o1)) \<Longrightarrow>
    length (oct_val sexp') \<le> length (oct_val sexp)"
proof (induction "length (oct_val sexp)" arbitrary: sexp part rule: less_induct)
  case less
  show ?case
  proof (cases "rd (oct_val sexp) 0 = Some CHR '')''")
    case True
    then show ?thesis using less.prems(1) step_le [of sexp] by (auto simp: parse_list.simps [of sexp])
  next
    case False
    then obtain u o1 where 1: "parse_bcexp sexp = Some (Some u, o1)" "parse_list o1 (part @ [u]) = Some (Some t, sexp')"
      using less.prems(1) by (auto simp: parse_list.simps [of sexp] split: option.splits if_splits bool.splits)
    have l: "length (oct_val o1) < length (oct_val sexp)" using less.prems(2) [OF _ 1(1)] by simp
    have "length (oct_val sexp') \<le> length (oct_val o1)" using less.hyps [OF l 1(2)] less.prems(2) l by force
    then show ?thesis using l by simp
  qed
qed

lemma parse_shorter: "parse_bcexp sexp = Some (Some t, sexp') \<Longrightarrow> length (oct_val sexp') < length (oct_val sexp)"
proof (induction "length (oct_val sexp)" arbitrary: sexp sexp' t rule: less_induct)
  case less
  show ?case
  proof (cases "rd (oct_val sexp) 0 = Some CHR ''(''")
    case True
    then have st: "length (oct_val (step sexp)) < length (oct_val sexp)" by (auto simp: step_def rd_eq_Some_iff)
    have "parse_list (step sexp) [] = Some (Some t, sexp')" using less.prems True by (simp add: parse_bcexp.simps [of sexp])
    from parse_list_le [OF this] less.hyps st show ?thesis by fastforce
  next
    case False
    then show ?thesis using less.prems
      by (auto simp: parse_bcexp.simps [of sexp] dest: get_str_val_shorter split: option.splits sum.splits if_splits)
  qed
qed

subsection \<open>Specifications and definitions\<close>

fun plugin_match :: "(bytes \<times> 'p) list \<Rightarrow> octet \<Rightarrow> 'p option option" where
  "plugin_match [] oct = Some None"
| "plugin_match ((nm, p) # pls) oct = (case is_word oct nm of
      None \<Rightarrow> None | Some True \<Rightarrow> Some (Some p) | Some False \<Rightarrow> plugin_match pls oct)"

definition bcspec_new :: "(bytes \<times> 'p) list \<Rightarrow> octet \<Rightarrow> 'p bcspec option option" where
  "bcspec_new plt spec = do {
     n \<leftarrow> octchr spec CHR '':'';
     if n < 0 then Some None
     else do {
       let m = nat n;
       let nm = spec\<lparr>oct_len := m\<rparr>;
       p \<leftarrow> plugin_match plt nm;
       (case p of
          None \<Rightarrow> Some None
        | Some pl \<Rightarrow> do {
            s \<leftarrow> oct2strdup (Some nm) NUL;
            o1 \<leftarrow> octdup (Some \<lparr>oct_val = drop (m + 1) (oct_val spec), oct_len = oct_len spec - m - 1, oct_size = 0\<rparr>);
            Some (Some \<lparr>bs_name = s, bs_plugin = pl, bs_spec = o1\<rparr>) }) } }"

definition bcspec_is :: "octet \<Rightarrow> bool option" where
  "bcspec_is spec = map_option (\<lambda>n. n \<ge> 0 \<and> list_all DIRCHAR (take (nat n) (oct_val spec))) (octchr spec CHR '':'')"

text \<open>The names of the definitions of the chain are read; that of a freed one is gone.\<close>

fun bcdef_find :: "('p, 'r) bcstore \<Rightarrow> nat list \<Rightarrow> octet \<Rightarrow> nat option option" where
  "bcdef_find s [] pat = Some None"
| "bcdef_find s (d # ds) pat =
     (if d < length (bc_defs s) \<and> \<not> bd_freed (bc_defs s ! d) then
        (case oct2strcmp (Some pat) (bd_name (bc_defs s ! d)) of
           None \<Rightarrow> None
         | Some r \<Rightarrow> if r = 0 then Some (Some d) else bcdef_find s ds pat)
      else None)"

definition bcdef_new :: "('p, 'r) bcdef" where
  "bcdef_new = \<lparr>bd_name = None, bd_exp = None, bd_users = UArr None, bd_rules = None, bd_freed = False\<rparr>"

definition set_def :: "('p, 'r) bcstore \<Rightarrow> nat \<Rightarrow> ('p, 'r) bcdef \<Rightarrow> ('p, 'r) bcstore" where
  "set_def s d x = s\<lparr>bc_defs := (bc_defs s)[d := x]\<rparr>"

text \<open>A new reference to a definition, which is told of it.\<close>

definition new_ref :: "('p, 'r) bcstore \<Rightarrow> nat \<Rightarrow> ('p bcexp \<times> ('p, 'r) bcstore) option" where
  "new_ref s d = (case bd_users (bc_defs s ! d) of
      UExp _ \<Rightarrow> None
    | UArr va \<Rightarrow> map_option (\<lambda>va'. (BRef (bc_exps s) d,
        (set_def s d ((bc_defs s ! d)\<lparr>bd_users := UArr (Some va')\<rparr>))\<lparr>bc_exps := bc_exps s + 1\<rparr>)) (varr_add va (bc_exps s)))"

definition stree_val :: "stree \<Rightarrow> octet" where
  "stree_val t = (case t of SAtom v \<Rightarrow> v | SList _ \<Rightarrow> null_octet)"

text \<open>\<open>transv_stree\<close> gets a node with the nodes behind it, and looks at these to tell a specification from
  an operator. The empty list is the null pointer. \<open>transv_args\<close> is the loop over the arguments.\<close>

function (sequential) transv_stree :: "(bytes \<times> 'p) list \<Rightarrow> stree list \<Rightarrow> ('p, 'r) bcstore \<Rightarrow>
    ('p bcexp option \<times> ('p, 'r) bcstore) option"
  and transv_args :: "(bytes \<times> 'p) list \<Rightarrow> stree list \<Rightarrow> ('p, 'r) bcstore \<Rightarrow>
    ('p bcexp list option \<times> ('p, 'r) bcstore) option" where
  "transv_stree plt [] s = None"
| "transv_stree plt (SList ts # rest) s = transv_stree plt ts s"
| "transv_stree plt [SAtom v] s =
     (if plt = [] then Some (None, s)
      else map_option (\<lambda>x. (map_option BSpec x, s)) (bcspec_new plt v))"
| "transv_stree plt (SAtom v # t # rest) s = (case is_word v ''ref'' of
      None \<Rightarrow> None
    | Some True \<Rightarrow>
       (case bcdef_find s (bc_chain s) (stree_val t) of
          None \<Rightarrow> None
        | Some None \<Rightarrow> Some (None, s)
        | Some (Some d) \<Rightarrow> map_option (\<lambda>(e, s'). (Some e, s')) (new_ref s d))
    | Some False \<Rightarrow> (case is_word v ''and'' of
      None \<Rightarrow> None
    | Some True \<Rightarrow> map_option (\<lambda>(es, s'). (map_option BAnd es, s')) (transv_args plt (t # rest) s)
    | Some False \<Rightarrow> (case is_word v ''or'' of
      None \<Rightarrow> None
    | Some True \<Rightarrow> map_option (\<lambda>(es, s'). (map_option BOr es, s')) (transv_args plt (t # rest) s)
    | Some False \<Rightarrow> (case is_word v ''not'' of
      None \<Rightarrow> None
    | Some True \<Rightarrow>
       if rest \<noteq> [] then Some (None, s)
       else map_option (\<lambda>(e, s'). (map_option BNot e, s')) (transv_stree plt (t # rest) s)
    | Some False \<Rightarrow> Some (None, s)))))"
| "transv_args plt [] s = Some (Some [], s)"
| "transv_args plt (t # ts) s = (case transv_stree plt (t # ts) s of
      None \<Rightarrow> None
    | Some (None, s') \<Rightarrow> Some (None, s')
    | Some (Some e, s') \<Rightarrow> map_option (\<lambda>(es, s''). (map_option ((#) e) es, s'')) (transv_args plt ts s'))"
  by pat_completeness auto
termination
  by (relation "measure (\<lambda>x. case x of Inl (plt, ts, s) \<Rightarrow> 2 * size_list size ts | Inr (plt, ts, s) \<Rightarrow> 2 * size_list size ts + 1)")
    auto

subsection \<open>Evaluation\<close>

text \<open>The paths in braces at the start of a specification; a path without a result gives an element of the type \<^verbatim>\<open>SPOC_NULL\<close>.\<close>

function bcond_args :: "octet \<Rightarrow> element \<Rightarrow> xlist \<Rightarrow> (octet \<times> xlist) option" where
  "bcond_args spec qp xp =
     (if oct_len spec = 0 then Some (spec, xp)
      else (case rd (oct_val spec) 0 of
        None \<Rightarrow> None
      | Some c \<Rightarrow>
         if c \<noteq> CHR ''{'' then Some (spec, xp)
         else
           (let s1 = spec\<lparr>oct_val := drop 1 (oct_val spec), oct_len := oct_len spec - 1\<rparr> in
            case octchr s1 CHR ''}'' of
              None \<Rightarrow> None
            | Some sl \<Rightarrow>
               if sl < 0 then Some (s1, xp)
               else (case element_eval (s1\<lparr>oct_len := nat sl\<rparr>) qp of
                   None \<Rightarrow> None
                 | Some t \<Rightarrow>
                    (case (case t of None \<Rightarrow> Some None | Some p \<Rightarrow> map_option Some (picked_dup p)) of
                       None \<Rightarrow> None
                     | Some tmp \<Rightarrow> bcond_args
                         (s1\<lparr>oct_val := drop (nat sl + 1) (oct_val s1), oct_len := oct_len s1 - (nat sl + 1)\<rparr>) qp (xp @ [tmp]))))))"
  by pat_completeness auto
termination
  by (relation "measure (\<lambda>(spec, qp, xp). oct_len spec)") auto

declare bcond_args.simps [simp del]

type_synonym 'p tester = "'p \<Rightarrow> element \<Rightarrow> element option \<Rightarrow> xlist \<Rightarrow> octet \<Rightarrow> (spocp_result \<times> octet) option"

definition bcond_eval :: "'p tester \<Rightarrow> element \<Rightarrow> element option \<Rightarrow> 'p bcspec \<Rightarrow>
    (spocp_result \<times> octet) option" where
  "bcond_eval ptest qp rp bcond = do {
     o1 \<leftarrow> bs_spec bcond;
     (spec, xp) \<leftarrow> bcond_args (o1\<lparr>oct_size := 0\<rparr>) qp [];
     c \<leftarrow> rd (oct_val spec) 0;
     if c \<noteq> CHR '':'' then Some (SPOCP_SYNTAXERROR, null_octet)
     else ptest (bs_plugin bcond) qp rp xp (step spec) }"

definition def_exp :: "('p, 'r) bcstore \<Rightarrow> nat \<Rightarrow> 'p bcexp option" where
  "def_exp s d = (if d < length (bc_defs s) then bd_exp (bc_defs s ! d) else None)"

text \<open>The end of \<open>bcexp_eval\<close>: the blobs go to the caller.\<close>

definition give :: "spocp_result \<Rightarrow> octarr option \<Rightarrow> octarr option \<Rightarrow> (spocp_result \<times> octarr option) option" where
  "give r lo oa = (if r = SPOCP_SUCCESS \<and> lo \<noteq> None then map_option (\<lambda>a. (r, a)) (octarr_join oa lo) else Some (r, oa))"

text \<open>In the loop for \<open>and\<close>, \<^verbatim>\<open>lo\<close> becomes the array \<^verbatim>\<open>po\<close> itself when the first blobs come; after the next
  success that array is joined to itself. From then on \<open>lo\<close> and \<open>po\<close> are the same array.\<close>

function (sequential) bcexp_eval :: "'p tester \<Rightarrow> ('p, 'r) bcstore \<Rightarrow> nat \<Rightarrow> element \<Rightarrow>
    element option \<Rightarrow> 'p bcexp \<Rightarrow> octarr option \<Rightarrow> (spocp_result \<times> octarr option) option"
  and and_loop :: "'p tester \<Rightarrow> ('p, 'r) bcstore \<Rightarrow> nat \<Rightarrow> element \<Rightarrow>
    element option \<Rightarrow> 'p bcexp list \<Rightarrow> octarr option \<Rightarrow> octarr option \<Rightarrow> (spocp_result \<times> octarr option) option"
  and or_loop :: "'p tester \<Rightarrow> ('p, 'r) bcstore \<Rightarrow> nat \<Rightarrow> element \<Rightarrow>
    element option \<Rightarrow> 'p bcexp list \<Rightarrow> spocp_result \<Rightarrow> octarr option \<Rightarrow> (spocp_result \<times> octarr option) option" where
  "bcexp_eval ptest s n qp rp (BSpec sp) oa = (case bcond_eval ptest qp rp sp of
      None \<Rightarrow> None
    | Some (r, oct) \<Rightarrow>
       if r = SPOCP_SUCCESS \<and> oct_len oct \<noteq> 0 then
         Option.bind (octdup (Some oct)) (\<lambda>d. Option.bind d (\<lambda>o1. Option.bind (octarr_add None o1) (\<lambda>a. give r (Some a) oa)))
       else give r None oa)"
| "bcexp_eval ptest s n qp rp (BNot e) oa = (case bcexp_eval ptest s n qp rp e None of
      None \<Rightarrow> None
    | Some (r, lo) \<Rightarrow>
       if r = SPOCP_SUCCESS then give SPOCP_DENIED lo oa
       else if r = SPOCP_DENIED then give SPOCP_SUCCESS lo oa
       else give r lo oa)"
| "bcexp_eval ptest s n qp rp (BAnd es) oa = (case and_loop ptest s n qp rp es None None of
      None \<Rightarrow> None | Some (r, lo) \<Rightarrow> give r lo oa)"
| "bcexp_eval ptest s n qp rp (BOr es) oa = (case or_loop ptest s n qp rp es SPOCP_DENIED None of
      None \<Rightarrow> None | Some (r, lo) \<Rightarrow> give r lo oa)"
| "bcexp_eval ptest s 0 qp rp (BRef i d) oa = None"
| "bcexp_eval ptest s (Suc n) qp rp (BRef i d) oa = (case def_exp s d of
      None \<Rightarrow> None
    | Some e \<Rightarrow>
       (case bcexp_eval ptest s n qp rp e None of None \<Rightarrow> None | Some (r, lo) \<Rightarrow> give r lo oa))"
| "and_loop ptest s n qp rp [] lo po = Some (SPOCP_SUCCESS, lo)"
| "and_loop ptest s n qp rp (e # es) lo po = (case bcexp_eval ptest s n qp rp e po of
      None \<Rightarrow> None
    | Some (r, po') \<Rightarrow>
       if r \<noteq> SPOCP_SUCCESS then Some (r, lo)
       else (case (lo, po') of
               (_, None) \<Rightarrow> and_loop ptest s n qp rp es lo po'
             | (None, Some a) \<Rightarrow> and_loop ptest s n qp rp es (Some a) po'
             | (Some _, Some a) \<Rightarrow> (case octarr_join_self a of
                   None \<Rightarrow> None
                 | Some a' \<Rightarrow> and_loop ptest s n qp rp es (Some a') (Some a'))))"
| "or_loop ptest s n qp rp [] r lo = Some (r, lo)"
| "or_loop ptest s n qp rp (e # es) r lo = (case bcexp_eval ptest s n qp rp e lo of
      None \<Rightarrow> None
    | Some (r', lo') \<Rightarrow> if r' = SPOCP_SUCCESS then Some (r', lo') else or_loop ptest s n qp rp es r' lo')"
  by pat_completeness auto
termination
  by (relation "measures [\<lambda>x. case x of Inl (_, _, n, _) \<Rightarrow> n | Inr (Inl (_, _, n, _)) \<Rightarrow> n | Inr (Inr (_, _, n, _)) \<Rightarrow> n,
      \<lambda>x. case x of Inl (_, _, _, _, _, e, _) \<Rightarrow> size e | Inr (Inl (_, _, _, _, _, es, _)) \<Rightarrow> size_list size es
        | Inr (Inr (_, _, _, _, _, es, _)) \<Rightarrow> size_list size es]") auto

subsection \<open>References to a condition\<close>

text \<open>\<open>is_bcref\<close> returns the name when the condition is exactly a reference.\<close>

definition is_bcref :: "octet \<Rightarrow> (spocp_result + octet) option" where
  "is_bcref o1 = do {
     c \<leftarrow> rd (oct_val o1) 0;
     if c \<noteq> CHR ''('' then Some (Inl SPOCP_SYNTAXERROR)
     else do {
       (r, lc) \<leftarrow> get_str (step (o1\<lparr>oct_size := 0\<rparr>));
       (case r of
          Inl e \<Rightarrow> Some (Inl e)
        | Inr op \<Rightarrow> do {
            w \<leftarrow> is_word op ''ref'';
            if \<not> w then Some (Inl SPOCP_SYNTAXERROR)
            else do {
              (r2, lc2) \<leftarrow> get_str lc;
              (case r2 of
                 Inl e \<Rightarrow> Some (Inl e)
               | Inr op2 \<Rightarrow> do {
                   c2 \<leftarrow> rd (oct_val lc2) 0;
                   Some (if c2 = CHR '')'' \<and> oct_len lc2 = 1 then Inr (op2\<lparr>oct_size := 0\<rparr>) else Inl SPOCP_SYNTAXERROR) }) } }) } }"

text \<open>\<open>bcexp_delink\<close> takes every reference of an expression out of the definition it points to.\<close>

definition bcexp_deref :: "('p, 'r) bcstore \<Rightarrow> nat \<Rightarrow> nat \<Rightarrow> ('p, 'r) bcstore option" where
  "bcexp_deref s i d = (case bd_users (bc_defs s ! d) of
      UArr (Some va) \<Rightarrow>
        Some (set_def s d ((bc_defs s ! d)\<lparr>bd_users := (case fst (varr_rm va i) of None \<Rightarrow> UArr None | Some e \<Rightarrow> UExp e)\<rparr>))
    | _ \<Rightarrow> None)"

fun bcexp_delink :: "'p bcexp \<Rightarrow> ('p, 'r) bcstore \<Rightarrow> ('p, 'r) bcstore option"
  and delink_all :: "'p bcexp list \<Rightarrow> ('p, 'r) bcstore \<Rightarrow> ('p, 'r) bcstore option" where
  "bcexp_delink (BSpec sp) s = Some s"
| "bcexp_delink (BAnd es) s = delink_all es s"
| "bcexp_delink (BOr es) s = delink_all es s"
| "bcexp_delink (BNot e) s = bcexp_delink e s"
| "bcexp_delink (BRef i d) s = bcexp_deref s i d"
| "delink_all [] s = Some s"
| "delink_all (e # es) s = Option.bind (bcexp_delink e s) (delink_all es)"

definition bcdef_delink :: "('p, 'r) bcstore \<Rightarrow> nat \<Rightarrow> ('p, 'r) bcstore option" where
  "bcdef_delink s d = Option.bind (def_exp s d) (\<lambda>e. bcexp_delink e s)"

text \<open>\<open>bcdef_rm\<close> returns the new head of the chain.\<close>

definition bcdef_rm :: "nat list \<Rightarrow> nat \<Rightarrow> nat list" where
  "bcdef_rm ch d = (if ch \<noteq> [] \<and> d = List.hd ch then List.tl ch else remove1 d ch)"

text \<open>\<open>bcdef_del\<close> does not store what \<open>bcdef_rm\<close> returns: the chain is changed only by the removal of a
  definition behind its head.\<close>

definition chain_after_rm :: "nat list \<Rightarrow> nat \<Rightarrow> nat list" where
  "chain_after_rm ch d = (if ch \<noteq> [] \<and> d = List.hd ch then ch else bcdef_rm ch d)"

text \<open>The users of a definition are expressions, but \<open>all_rule_users\<close> follows them as definitions.\<close>

definition all_rule_users :: "('p, 'r) bcstore \<Rightarrow> nat \<Rightarrow> 'r varr option \<Rightarrow> 'r varr option option" where
  "all_rule_users s d rules = (case bd_users (bc_defs s ! d) of
      UExp _ \<Rightarrow> None
    | UArr va \<Rightarrow>
       if varr_first va \<noteq> None then None
       else if bd_rules (bc_defs s ! d) = None then Some rules
       else varr_or rules (bd_rules (bc_defs s ! d)) True)"

definition bcond_users :: "('p, 'r) bcstore \<Rightarrow> octet \<Rightarrow> 'r varr option option" where
  "bcond_users s nm = do {
     x \<leftarrow> bcdef_find s (bc_chain s) nm;
     d \<leftarrow> x;
     all_rule_users s d None }"

subsection \<open>Names\<close>

definition hex2 :: "char \<Rightarrow> bytes" where
  "hex2 c = (let n = (of_char c :: nat); h = (\<lambda>k. if k < 10 then char_of (48 + k) else char_of (87 + k)) in
     [h (n div 16), h (n mod 16)])"

definition make_name :: "(bytes \<Rightarrow> bytes) \<Rightarrow> octet \<Rightarrow> bytes option" where
  "make_name sha1 input = map_option (\<lambda>s. CHR ''_'' # concat (map hex2 (take 20 (sha1 s))) @ ''_'') (rdn (oct_val input) (oct_len input))"

text \<open>\<open>bcname_make\<close> appends to memory that \<^verbatim>\<open>Malloc\<close> has not initialised: \<open>mem\<close> is what is there.\<close>

definition bcname_make :: "bytes \<Rightarrow> octet \<Rightarrow> bytes option" where
  "bcname_make mem nm = do {
     let len = oct_len nm + 7;
     let m = take len mem;
     k \<leftarrow> strlen m;
     m1 \<leftarrow> wr m k (''BCOND:%s'' @ [NUL]);
     v \<leftarrow> rdn (oct_val nm) (oct_len nm);
     let w = takeWhile (\<lambda>c. c \<noteq> NUL) v;
     m2 \<leftarrow> wr m1 6 (w @ replicate (oct_len nm - length w) NUL);
     m3 \<leftarrow> wr m2 (6 + oct_len nm) [NUL];
     l \<leftarrow> strlen m3;
     Some (take l m3) }"

subsection \<open>The operations\<close>

text \<open>Reading the data of a definition. The octet string of the caller is moved past what was read.\<close>

definition read_cond :: "octet \<Rightarrow> (stree option \<times> octet) option" where
  "read_cond data = do {
     c \<leftarrow> rd (oct_val data) 0;
     if c = CHR ''('' then parse_bcexp data
     else map_option (\<lambda>(r, v). (Some (SAtom v), data)) (octcpy null_octet data) }"

definition bcdef_name :: "(bytes \<Rightarrow> bytes) \<Rightarrow> 'p bcexp \<Rightarrow> octet option \<Rightarrow> octet \<Rightarrow> bytes option option" where
  "bcdef_name sha1 bce nm data = (case bce of
      BRef _ _ \<Rightarrow> Some None
    | _ \<Rightarrow>
       (case nm of
          None \<Rightarrow> map_option Some (make_name sha1 data)
        | Some o1 \<Rightarrow>
           if oct_len o1 = 0 then map_option Some (make_name sha1 data)
           else map_option (map_option (\<lambda>s. takeWhile (\<lambda>c. c \<noteq> NUL) s)) (oct2strdup (Some o1) NUL)))"

definition dback_note :: "('p, 'r) bcstore \<Rightarrow> bytes \<Rightarrow> bytes option \<Rightarrow> (bytes \<Rightarrow> dback_op) \<Rightarrow> ('p, 'r) bcstore option" where
  "dback_note s mem nm f =
     (if \<not> bc_dback s then Some s
      else do {
        n \<leftarrow> nm;
        b \<leftarrow> bcname_make mem (oct_assign n);
        Some (s\<lparr>bc_ops := bc_ops s @ [f b]\<rparr>) })"

definition bcdef_add :: "(bytes \<Rightarrow> bytes) \<Rightarrow> bytes \<Rightarrow> (bytes \<times> 'p) list \<Rightarrow> ('p, 'r) bcstore \<Rightarrow> octet option \<Rightarrow> octet \<Rightarrow>
    (nat option \<times> octet \<times> ('p, 'r) bcstore) option" where
  "bcdef_add sha1 mem p s nm data = do {
     (st, data1) \<leftarrow> read_cond data;
     (case st of
        None \<Rightarrow> Some (None, data1, s)
      | Some t \<Rightarrow> do {
          (e, s1) \<leftarrow> transv_stree p [t] s;
          (case e of
             None \<Rightarrow> Some (None, data1, s1)
           | Some bce \<Rightarrow> do {
               name \<leftarrow> bcdef_name sha1 bce nm data1;
               s2 \<leftarrow> dback_note s1 mem name (\<lambda>b. DSave b data1);
               let d = length (bc_defs s2);
               Some (Some d, data1,
                 s2\<lparr>bc_defs := bc_defs s2 @ [bcdef_new\<lparr>bd_name := name, bd_exp := Some bce\<rparr>],
                   bc_chain := bc_chain s2 @ (if name = None then [] else [d])\<rparr>) }) }) }"

definition varr_used :: "users \<Rightarrow> bool option" where
  "varr_used u = (case u of UExp _ \<Rightarrow> None | UArr va \<Rightarrow> Some (varr_len va > 0))"

definition bcdef_del :: "bytes \<Rightarrow> ('p, 'r) bcstore \<Rightarrow> octet \<Rightarrow> (spocp_result \<times> ('p, 'r) bcstore) option" where
  "bcdef_del mem s nm = do {
     x \<leftarrow> bcdef_find s (bc_chain s) nm;
     d \<leftarrow> x;
     u \<leftarrow> varr_used (bd_users (bc_defs s ! d));
     if u \<or> varr_len (bd_rules (bc_defs s ! d)) > 0 then Some (SPOCP_UNWILLING, s)
     else do {
       v \<leftarrow> rdn (oct_val nm) (oct_len nm);
       s1 \<leftarrow> dback_note s mem (Some v) DDelete;
       s2 \<leftarrow> bcdef_delink s1 d;
       Some (SPOCP_SUCCESS, (set_def s2 d ((bc_defs s2 ! d)\<lparr>bd_freed := True\<rparr>))\<lparr>bc_chain := chain_after_rm (bc_chain s2) d\<rparr>) } }"

definition bcdef_replace :: "bytes \<Rightarrow> (bytes \<times> 'p) list \<Rightarrow> ('p, 'r) bcstore \<Rightarrow> octet \<Rightarrow> octet \<Rightarrow>
    (spocp_result \<times> ('p, 'r) bcstore) option" where
  "bcdef_replace mem p s nm data = do {
     (st, data1) \<leftarrow> read_cond data;
     (case st of
        None \<Rightarrow> Some (SPOCP_OPERATIONSERROR, s)
      | Some t \<Rightarrow> do {
          x \<leftarrow> bcdef_find s (bc_chain s) nm;
          (case x of
             None \<Rightarrow> Some (SPOCP_SUCCESS, s)
           | Some d \<Rightarrow> do {
               (bce, s1) \<leftarrow> transv_stree p [t] s;
               v \<leftarrow> rdn (oct_val nm) (oct_len nm);
               s2 \<leftarrow> dback_note s1 mem (Some v) (\<lambda>b. DReplace b data1);
               Some (SPOCP_SUCCESS, set_def s2 d ((bc_defs s2 ! d)\<lparr>bd_exp := bce\<rparr>)) }) }) }"

text \<open>\<open>bcdef_get\<close> leaves the result code of the caller alone when it succeeds.\<close>

definition bcdef_get :: "(bytes \<Rightarrow> bytes) \<Rightarrow> bytes \<Rightarrow> (bytes \<times> 'p) list \<Rightarrow> ('p, 'r) bcstore \<Rightarrow> octet \<Rightarrow> spocp_result \<Rightarrow>
    (nat option \<times> spocp_result \<times> ('p, 'r) bcstore) option" where
  "bcdef_get sha1 mem p s o1 rc = do {
     w \<leftarrow> is_word o1 ''NULL'';
     if w then Some (None, rc, s)
     else do {
       r \<leftarrow> is_bcref o1;
       (case r of
          Inr br \<Rightarrow> do {
            x \<leftarrow> bcdef_find s (bc_chain s) br;
            Some (x, if x = None then SPOCP_UNAVAILABLE else rc, s) }
        | Inl _ \<Rightarrow> do {
            (x, _, s') \<leftarrow> bcdef_add sha1 mem p s None o1;
            Some (x, if x = None then SPOCP_SYNTAXERROR else rc, s') }) } }"

text \<open>The evaluation that \<open>bcond_check\<close> calls for a rule: the first blob is the one it uses.\<close>

definition rule_eval :: "'p tester \<Rightarrow> ('p, 'r) bcstore \<Rightarrow> nat \<Rightarrow> nat evaluator" where
  "rule_eval ptest s n qp ri = do {
     d \<leftarrow> ri_bcond ri;
     e \<leftarrow> def_exp s d;
     (r, loa) \<leftarrow> bcexp_eval ptest s n qp (ri_ep ri) e None;
     (case loa of
        None \<Rightarrow> Some (r, None)
      | Some a \<Rightarrow> (case oa_arr a of [] \<Rightarrow> None | o1 # _ \<Rightarrow> Some (r, Some o1))) }"

subsection \<open>What a condition means\<close>

text \<open>The truth of a condition, given that of the specifications and of the definitions.\<close>

fun holds :: "('p bcspec \<Rightarrow> bool) \<Rightarrow> (nat \<Rightarrow> bool) \<Rightarrow> 'p bcexp \<Rightarrow> bool" where
  "holds v tv (BSpec sp) \<longleftrightarrow> v sp"
| "holds v tv (BNot e) \<longleftrightarrow> \<not> holds v tv e"
| "holds v tv (BAnd es) \<longleftrightarrow> (\<forall>e\<in>set es. holds v tv e)"
| "holds v tv (BOr es) \<longleftrightarrow> (\<exists>e\<in>set es. holds v tv e)"
| "holds v tv (BRef i d) \<longleftrightarrow> tv d"

text \<open>The specifications of an expression are good and its references are nested at most \<open>n\<close> deep.\<close>

function (sequential) nested :: "('p bcspec \<Rightarrow> bool) \<Rightarrow> ('p, 'r) bcstore \<Rightarrow> nat \<Rightarrow> 'p bcexp \<Rightarrow> bool" where
  "nested good s n (BSpec sp) \<longleftrightarrow> good sp"
| "nested good s n (BNot e) \<longleftrightarrow> nested good s n e"
| "nested good s n (BAnd es) \<longleftrightarrow> (\<forall>e\<in>set es. nested good s n e)"
| "nested good s n (BOr es) \<longleftrightarrow> (\<forall>e\<in>set es. nested good s n e)"
| "nested good s 0 (BRef i d) \<longleftrightarrow> False"
| "nested good s (Suc n) (BRef i d) \<longleftrightarrow> (case def_exp s d of None \<Rightarrow> False | Some e \<Rightarrow> nested good s n e)"
  by pat_completeness auto
termination
  by (relation "measures [\<lambda>(good, s, n, e). n, \<lambda>(good, s, n, e). size e]") (auto simp: size_list_estimation' less_Suc_eq_le)

text \<open>A plugin that only says yes or no and returns no blob.\<close>

definition two_valued :: "'p tester \<Rightarrow> element \<Rightarrow> element option \<Rightarrow> 'p bcspec \<Rightarrow> bool" where
  "two_valued ptest qp rp sp \<longleftrightarrow> (case bcond_eval ptest qp rp sp of
      None \<Rightarrow> False | Some (r, oct) \<Rightarrow> oct_len oct = 0 \<and> (r = SPOCP_SUCCESS \<or> r = SPOCP_DENIED))"

definition succeeds :: "'p tester \<Rightarrow> element \<Rightarrow> element option \<Rightarrow> 'p bcspec \<Rightarrow> bool" where
  "succeeds ptest qp rp sp \<longleftrightarrow> (case bcond_eval ptest qp rp sp of
      None \<Rightarrow> False | Some (r, oct) \<Rightarrow> r = SPOCP_SUCCESS)"

definition consistent :: "('p, 'r) bcstore \<Rightarrow> ('p bcspec \<Rightarrow> bool) \<Rightarrow> (nat \<Rightarrow> bool) \<Rightarrow> bool" where
  "consistent s v tv \<longleftrightarrow> (\<forall>d e. def_exp s d = Some e \<longrightarrow> tv d = holds v tv e)"

lemma give_None [simp]: "give r None oa = Some (r, oa)"
  by (simp add: give_def)

abbreviation verdict :: "bool \<Rightarrow> spocp_result" where
  "verdict b \<equiv> (if b then SPOCP_SUCCESS else SPOCP_DENIED)"

lemma and_loop_truth:
  assumes "\<forall>e\<in>set es. \<forall>oa. bcexp_eval ptest s n qp rp e oa = Some (verdict (h e), oa)"
  shows "and_loop ptest s n qp rp es None None = Some (verdict (\<forall>e\<in>set es. h e), None)"
  using assms by (induction es) auto

lemma or_loop_truth:
  assumes "\<forall>e\<in>set es. \<forall>oa. bcexp_eval ptest s n qp rp e oa = Some (verdict (h e), oa)"
  shows "or_loop ptest s n qp rp es SPOCP_DENIED None = Some (verdict (\<exists>e\<in>set es. h e), None)"
  using assms by (induction es) auto

lemma eval_truth:
  assumes "consistent s (succeeds ptest qp rp) tv"
  shows "nested (two_valued ptest qp rp) s n e \<Longrightarrow>
    bcexp_eval ptest s n qp rp e oa = Some (verdict (holds (succeeds ptest qp rp) tv e), oa)"
proof (induction n arbitrary: e oa)
  case (0 e)
  then show ?case
  proof (induction e arbitrary: oa)
    case (BAnd es)
    then show ?case using and_loop_truth [of es ptest s 0 qp rp "holds (succeeds ptest qp rp) tv"] by simp
  next
    case (BOr es)
    then show ?case using or_loop_truth [of es ptest s 0 qp rp "holds (succeeds ptest qp rp) tv"] by simp
  qed (auto simp: two_valued_def succeeds_def split: option.splits)
next
  case (Suc n e)
  note outer = Suc.IH
  show ?case using Suc.prems
  proof (induction e arbitrary: oa)
    case (BAnd es)
    then show ?case using and_loop_truth [of es ptest s "Suc n" qp rp "holds (succeeds ptest qp rp) tv"] by simp
  next
    case (BOr es)
    then show ?case using or_loop_truth [of es ptest s "Suc n" qp rp "holds (succeeds ptest qp rp) tv"] by simp
  next
    case (BRef i d)
    then obtain e where e: "def_exp s d = Some e" "nested (two_valued ptest qp rp) s n e"
      by (auto split: option.splits)
    then show ?case using outer [OF e(2), of None] assms by (simp add: consistent_def)
  qed (auto simp: two_valued_def succeeds_def split: option.splits)
qed

text \<open>C28: a boundary condition is evaluated as the boolean expression it stands for. When the plugins only
  answer yes or no, and references are nested at most \<open>n\<close> deep, \<open>bcexp_eval\<close> returns, it answers
  \<open>SPOCP_SUCCESS\<close> when the expression is true and \<open>SPOCP_DENIED\<close> when it is false, and it leaves the
  blobs of the caller alone.\<close>

theorem bcexp_eval_boolean:
  assumes "nested (two_valued ptest qp rp) s n e" and "consistent s (succeeds ptest qp rp) tv"
  shows "bcexp_eval ptest s n qp rp e oa = Some (verdict (holds (succeeds ptest qp rp) tv e), oa)"
  using eval_truth [OF assms(2,1)] .

text \<open>An example: a condition \<open>day:\<close> and a definition that negates it.\<close>

definition demo_spec :: "bool bcspec" where
  "demo_spec = \<lparr>bs_name = Some ''day'', bs_plugin = True, bs_spec = Some (mk_octet '':mon'')\<rparr>"

definition demo_store :: "(bool, nat) bcstore" where
  "demo_store = \<lparr>bc_defs = [bcdef_new\<lparr>bd_name := Some ''off'', bd_exp := Some (BNot (BSpec demo_spec))\<rparr>],
     bc_chain = [0], bc_exps = 0, bc_dback = False, bc_ops = []\<rparr>"

definition demo_test :: "bool tester" where
  "demo_test p qp rp xp arg = Some (verdict p, null_octet)"

lemma demo_eval: "bcond_eval demo_test EAny None demo_spec = Some (SPOCP_SUCCESS, null_octet)"
  by (simp add: bcond_eval_def demo_spec_def bcond_args.simps mk_octet_def rd_def demo_test_def)

theorem bcexp_eval_boolean_witness:
  "bcexp_eval demo_test demo_store 1 EAny None
    (BOr [BRef 0 0, BAnd [BSpec demo_spec, BNot (BRef 1 0)]]) None = Some (SPOCP_SUCCESS, None)"
proof -
  let ?t = "two_valued demo_test EAny None" and ?v = "succeeds demo_test EAny None"
  have v: "?t demo_spec" "?v demo_spec" by (simp_all add: two_valued_def succeeds_def demo_eval null_octet_def)
  have "nested ?t demo_store 1 (BOr [BRef 0 0, BAnd [BSpec demo_spec, BNot (BRef 1 0)]])"
    using v by (simp add: demo_store_def bcdef_new_def def_exp_def)
  moreover have "consistent demo_store ?v (\<lambda>d. False)"
    using v by (simp add: consistent_def def_exp_def demo_store_def bcdef_new_def)
  ultimately have "bcexp_eval demo_test demo_store 1 EAny None
      (BOr [BRef 0 0, BAnd [BSpec demo_spec, BNot (BRef 1 0)]]) None =
      Some (verdict (holds ?v (\<lambda>d. False) (BOr [BRef 0 0, BAnd [BSpec demo_spec, BNot (BRef 1 0)]])), None)"
    by (rule bcexp_eval_boolean)
  then show ?thesis using v by (simp only: holds.simps) simp
qed






subsection \<open>Reading back\<close>

fun shape :: "stree \<Rightarrow> sexp" where
  "shape (SAtom v) = Atom (content v)"
| "shape (SList ts) = List (map shape ts)"

text \<open>The atoms of a tree point into the text.\<close>

fun clean :: "stree \<Rightarrow> bool" where
  "clean (SAtom v) \<longleftrightarrow> (\<exists>a y. v = view a y 0)"
| "clean (SList ts) \<longleftrightarrow> (\<forall>t\<in>set ts. clean t)"

lemma shape_clean_Atom: "shape t' = Atom a \<Longrightarrow> clean t' \<Longrightarrow> \<exists>y. t' = SAtom (view a y 0)"
  by (cases t') auto

fun cond_text :: "sexp \<Rightarrow> bool" where
  "cond_text (Atom a) \<longleftrightarrow> a \<noteq> []"
| "cond_text (List ts) \<longleftrightarrow>
     (case ts of [] \<Rightarrow> True | t # _ \<Rightarrow> t \<in> {Atom ''ref'', Atom ''and'', Atom ''or'', Atom ''not''}) \<and> (\<forall>t\<in>set ts. cond_text t)"

lemma is_word_view: "length a < 2 ^ 31 \<Longrightarrow> w \<noteq> [] \<Longrightarrow> is_word (view a x 0) w = Some (a = w)"
  using oct2strcmp_reversed [of "view a x 0" w] by (auto simp: is_word_def wf_octet_def)

lemma keyword_atom: "length a < 2 ^ 31 \<Longrightarrow> keyword (SAtom (view a x 0)) = Some (a \<in> {''ref'', ''and'', ''or'', ''not''})"
  by (auto simp: keyword_def is_word_view)

definition reads :: "sexp \<Rightarrow> bool" where
  "reads t \<longleftrightarrow> (\<forall>r x sz. length (canon t @ r) < 2 ^ 31 \<and> cond_text t \<longrightarrow>
     (\<exists>t'. parse_bcexp (view (canon t @ r) x sz) = Some (Some t', view r x sz) \<and> shape t' = t \<and> clean t'))"

lemma reads_Atom: "reads (Atom a)"
  unfolding reads_def
proof (intro allI impI)
  fix r x sz assume a: "length (canon (Atom a) @ r) < 2 ^ 31 \<and> cond_text (Atom a)"
  obtain c t where c: "netstr a = c # t" "c \<noteq> CHR ''(''" using netstr_cons by blast
  have "get_str (view (netstr a @ r) x sz) = Some (Inr (view a (r @ x) 0), view r x sz)"
    using a by (intro get_str_netstr) auto
  then show "\<exists>t'. parse_bcexp (view (canon (Atom a) @ r) x sz) = Some (Some t', view r x sz) \<and> shape t' = Atom a \<and> clean t'"
    using c by (intro exI [of _ "SAtom (view a (r @ x) 0)"]) (auto simp: parse_bcexp.simps)
qed

lemma parse_list_reads:
  assumes "\<forall>t\<in>set ts. reads t \<and> cond_text t" and "length (concat (map canon ts) @ CHR '')'' # r) < 2 ^ 31"
    and "part = [] \<Longrightarrow> cond_text (List ts)"
  shows "\<exists>ts'. parse_list (view (concat (map canon ts) @ CHR '')'' # r) x sz) part = Some (Some (SList (part @ ts')), view r x sz) \<and>
    map shape ts' = ts \<and> (\<forall>t\<in>set ts'. clean t)"
  using assms
proof (induction ts arbitrary: part)
  case Nil
  then show ?case by (simp add: parse_list.simps)
next
  case (Cons t ts)
  define rest where "rest = concat (map canon ts) @ CHR '')'' # r"
  have len: "length (canon t @ rest) < 2 ^ 31" using Cons.prems(2) by (simp add: rest_def)
  obtain t' where t': "parse_bcexp (view (canon t @ rest) x sz) = Some (Some t', view rest x sz)" "shape t' = t"
    "clean t'"
  proof -
    have "reads t" "cond_text t" using Cons.prems(1) by auto
    then show ?thesis using that len unfolding reads_def by blast
  qed
  obtain c u where c: "canon t = c # u" "c \<noteq> CHR '')''"
    using netstr_cons by (cases t) (auto, metis)
  have key: "(if part = [] then keyword t' else Some True) = Some True"
  proof (cases "part = []")
    case True
    then obtain a where a: "t = Atom a" "a \<in> {''ref'', ''and'', ''or'', ''not''}" using Cons.prems(3) by auto
    then have "length a < 2 ^ 31" by auto
    then show ?thesis using shape_clean_Atom [of t' a] t'(2,3) a keyword_atom by auto
  qed simp
  have "parse_list (view (canon t @ rest) x sz) part = parse_list (view rest x sz) (part @ [t'])"
    using t'(1) key c by (subst parse_list.simps) auto
  then show ?case using Cons.IH [of "part @ [t']"] Cons.prems(1,2) t'(2,3)
    by (auto simp: rest_def)
qed

lemma reads_all: "reads t"
proof (induction t)
  case (List ts)
  show ?case unfolding reads_def
  proof (intro allI impI)
    fix r x sz assume a: "length (canon (List ts) @ r) < 2 ^ 31 \<and> cond_text (List ts)"
    obtain ts' where "parse_list (view (concat (map canon ts) @ CHR '')'' # r) x sz) [] =
        Some (Some (SList ([] @ ts')), view r x sz)" "map shape ts' = ts" "\<forall>t\<in>set ts'. clean t"
      using parse_list_reads [of ts r "[]" x sz] List a by auto
    then show "\<exists>t'. parse_bcexp (view (canon (List ts) @ r) x sz) = Some (Some t', view r x sz) \<and> shape t' = List ts \<and> clean t'"
      using a by (intro exI [of _ "SList ts'"]) (simp add: parse_bcexp.simps)
  qed
qed (rule reads_Atom)

text \<open>C29: \<open>parse_bcexp\<close> reads the canonical text of a condition back. Every list has to start with one of
  the words \<open>ref\<close>, \<open>and\<close>, \<open>or\<close> and \<open>not\<close>; the input is moved behind the text.\<close>

theorem parse_bcexp_roundtrip:
  assumes "cond_text t" and "length (canon t @ r) < 2 ^ 31"
  shows "\<exists>t'. parse_bcexp (view (canon t @ r) x sz) = Some (Some t', view r x sz) \<and> shape t' = t"
  using reads_all [of t] assms unfolding reads_def by blast

theorem parse_bcexp_roundtrip_witness:
  "\<exists>t'. parse_bcexp (view (canon (List [Atom ''not'', List [Atom ''ref'', Atom ''day'']]) @ []) [] 0) =
      Some (Some t', view [] [] 0) \<and> shape t' = List [Atom ''not'', List [Atom ''ref'', Atom ''day'']]"
proof (rule parse_bcexp_roundtrip)
  show "length (canon (List [Atom ''not'', List [Atom ''ref'', Atom ''day'']]) @ []) < 2 ^ 31"
    by (simp add: netstr_def decimal.simps)
qed simp

lemma read_cond_list:
  assumes "cond_text (List ts)" and "length (canon (List ts)) < 2 ^ 31"
  shows "\<exists>t'. read_cond (view (canon (List ts)) x sz) = Some (Some t', view [] x sz) \<and> shape t' = List ts \<and> clean t'"
proof -
  obtain t' where "parse_bcexp (view (canon (List ts) @ []) x sz) = Some (Some t', view [] x sz)" "shape t' = List ts" "clean t'"
    using reads_all [of "List ts"] assms unfolding reads_def by (metis append_Nil2)
  then show ?thesis by (simp add: read_cond_def)
qed

text \<open>Translating a condition changes the users of definitions only.\<close>

definition frame :: "('p, 'r) bcstore \<Rightarrow> ('p, 'r) bcstore \<Rightarrow> bool" where
  "frame s s' \<longleftrightarrow> length (bc_defs s') = length (bc_defs s) \<and> bc_chain s' = bc_chain s \<and> bc_dback s' = bc_dback s \<and> bc_ops s' = bc_ops s"

lemma frame_refl [simp]: "frame s s"
  by (simp add: frame_def)

lemma frame_trans: "frame s s1 \<Longrightarrow> frame s1 s2 \<Longrightarrow> frame s s2"
  by (simp add: frame_def)

lemma new_ref_frame: "new_ref s d = Some (e, s') \<Longrightarrow> frame s s'"
  by (auto simp: new_ref_def set_def_def frame_def split: users.splits)

lemma transv_stree_frame:
  "transv_stree plt ts s = Some (e, s') \<Longrightarrow> frame s s'"
  "transv_args plt ts s = Some (es, s') \<Longrightarrow> frame s s'"
proof (induction plt ts s and plt ts s arbitrary: e s' and es s' rule: transv_stree_transv_args.induct)
  case (4 plt v t rest s)
  note IH = "4.IH" and prem = "4.prems"
  show ?case
  proof (cases "is_word v ''ref'' = Some True")
    case True
    then show ?thesis using prem by (auto split: option.splits dest: new_ref_frame)
  next
    case False
    then have r: "is_word v ''ref'' = Some False" using prem by (auto split: option.splits bool.splits)
    show ?thesis
    proof (cases "is_word v ''and'' = Some True")
      case True
      then show ?thesis using prem r IH(1) [OF r] by auto
    next
      case False
      then have a: "is_word v ''and'' = Some False" using prem r by (auto split: option.splits bool.splits)
      show ?thesis
      proof (cases "is_word v ''or'' = Some True")
        case True
        then show ?thesis using prem r a IH(2) [OF r _ a] by auto
      next
        case False
        then have o: "is_word v ''or'' = Some False" using prem r a by (auto split: option.splits bool.splits)
        then show ?thesis using prem r a IH(3) [OF r _ a _ o] by (auto split: option.splits bool.splits if_splits)
      qed
    qed
  qed
next
  case (6 plt t ts s)
  obtain x s1 where 1: "transv_stree plt (t # ts) s = Some (x, s1)" using "6.prems" by (auto split: option.splits)
  then have f: "frame s s1" by (rule "6.IH"(1))
  show ?case
  proof (cases x)
    case None
    then show ?thesis using "6.prems" 1 f by simp
  next
    case (Some e)
    then obtain es' where "transv_args plt ts s1 = Some (es', s')" using "6.prems" 1 by auto
    then show ?thesis using frame_trans [OF f "6.IH"(2) [OF 1 _ Some]] by simp
  qed
qed (auto split: if_splits)

text \<open>The names of conditions that are stored without one. Whatever list the condition is, its name is
  made from the SHA1 sum of the empty string, because \<open>parse_bcexp\<close> has moved the octet string to the
  end of the text; the persistent store, when there is one, is given empty data.\<close>

theorem bcdef_add_anonymous:
  assumes "cond_text (List ts)" and "length (canon (List ts)) < 2 ^ 31"
    and "bcdef_add sha1 mem p s None (view (canon (List ts)) x sz) = Some (Some d, data, s')"
    and "\<forall>i k. bd_exp (bc_defs s' ! d) \<noteq> Some (BRef i k)"
  shows "bd_name (bc_defs s' ! d) = Some (CHR ''_'' # concat (map hex2 (take 20 (sha1 []))) @ ''_'') \<and>
    bc_chain s' = bc_chain s @ [d] \<and> (bc_dback s \<longrightarrow> (\<exists>b. bc_ops s' = bc_ops s @ [DSave b (view [] x sz)]))"
proof -
  obtain t' where t': "read_cond (view (canon (List ts)) x sz) = Some (Some t', view [] x sz)"
    using read_cond_list [OF assms(1,2)] by blast
  obtain bce s1 name s2 where 1: "transv_stree p [t'] s = Some (Some bce, s1)" "bcdef_name sha1 bce None (view [] x sz) = Some name"
    "dback_note s1 mem name (\<lambda>b. DSave b (view [] x sz)) = Some s2"
    and 2: "d = length (bc_defs s2)" "s' = s2\<lparr>bc_defs := bc_defs s2 @ [bcdef_new\<lparr>bd_name := name, bd_exp := Some bce\<rparr>],
      bc_chain := bc_chain s2 @ (if name = None then [] else [d])\<rparr>"
    using assms(3) t' by (auto simp: bcdef_add_def bind_eq_Some_conv Let_def split: option.splits)
  have f: "frame s s1" using transv_stree_frame(1) [OF 1(1)] .
  have "bd_exp (bc_defs s' ! d) = Some bce" using 2 by (simp add: nth_append)
  then have "name = Some (CHR ''_'' # concat (map hex2 (take 20 (sha1 []))) @ ''_'')"
    using 1(2) assms(4) by (cases bce) (auto simp: bcdef_name_def make_name_def rdn_def)
  moreover have "bc_chain s2 = bc_chain s1" "bc_dback s1 \<longrightarrow> (\<exists>b. bc_ops s2 = bc_ops s1 @ [DSave b (view [] x sz)])"
    using 1(3) by (auto simp: dback_note_def bind_eq_Some_conv split: if_splits)
  ultimately show ?thesis using 2 f by (auto simp: nth_append frame_def)
qed

text \<open>A store with one definition, and the condition that negates it.\<close>

lemma demo_add:
  "\<exists>s'. bcdef_add (\<lambda>m. [NUL]) [] [] demo_store None (view (canon (List [Atom ''not'', List [Atom ''ref'', Atom ''off'']])) [] 0) =
    Some (Some 1, view [] [] 0, s') \<and> bd_exp (bc_defs s' ! 1) = Some (BNot (BRef 0 0))"
proof -
  obtain t' where t': "read_cond (view (canon (List [Atom ''not'', List [Atom ''ref'', Atom ''off'']])) [] 0) = Some (Some t', view [] [] 0)"
    "shape t' = List [Atom ''not'', List [Atom ''ref'', Atom ''off'']]" "clean t'"
    using read_cond_list [of "[Atom ''not'', List [Atom ''ref'', Atom ''off'']]" "[]" 0]
    by (auto simp: netstr_def decimal.simps)
  then obtain ts where "t' = SList ts" by (cases t') auto
  then obtain t1 t2 where "t' = SList [t1, t2]" "shape t1 = Atom ''not''" "shape t2 = List [Atom ''ref'', Atom ''off'']" "clean t1" "clean t2"
    using t'(2,3) by (auto simp: map_eq_Cons_conv)
  moreover then obtain ts2 where "t2 = SList ts2" by (cases t2) auto
  ultimately obtain t3 t4 where t: "t' = SList [t1, SList [t3, t4]]" "shape t1 = Atom ''not''" "shape t3 = Atom ''ref''" "shape t4 = Atom ''off''"
    "clean t1" "clean t3" "clean t4"
    by (auto simp: map_eq_Cons_conv)
  then obtain a b c where v: "t1 = SAtom (view ''not'' a 0)" "t3 = SAtom (view ''ref'' b 0)" "t4 = SAtom (view ''off'' c 0)"
    using shape_clean_Atom by metis
  have w: "oct2strcmp (Some (view ''off'' c 0)) (Some ''off'') = Some 0"
    using is_word_view [of "''off''" "''off''" c] by (auto simp: is_word_def)
  have "transv_stree [] [t'] demo_store = Some (Some (BNot (BRef 0 0)), demo_store\<lparr>bc_defs :=
      [bcdef_new\<lparr>bd_name := Some ''off'', bd_exp := Some (BNot (BSpec demo_spec)), bd_users := UArr (varr_add None 0)\<rparr>], bc_exps := 1\<rparr>)"
    by (simp add: t(1) v is_word_view stree_val_def w demo_store_def bcdef_new_def new_ref_def set_def_def varr_add_def varr_new_def)
  then show ?thesis using t'(1)
    by (simp add: bcdef_add_def bcdef_name_def make_name_def rdn_def dback_note_def demo_store_def nth_append)
qed

theorem bcdef_add_anonymous_witness:
  "\<exists>s'. bcdef_add (\<lambda>m. [NUL]) [] [] demo_store None (view (canon (List [Atom ''not'', List [Atom ''ref'', Atom ''off'']])) [] 0) =
      Some (Some 1, view [] [] 0, s') \<and> bd_name (bc_defs s' ! 1) = Some (CHR ''_'' # hex2 NUL @ ''_'')"
proof -
  obtain s' where s': "bcdef_add (\<lambda>m. [NUL]) [] [] demo_store None (view (canon (List [Atom ''not'', List [Atom ''ref'', Atom ''off'']])) [] 0) =
    Some (Some 1, view [] [] 0, s')" "bd_exp (bc_defs s' ! 1) = Some (BNot (BRef 0 0))"
    using demo_add by blast
  then show ?thesis using bcdef_add_anonymous [OF _ _ s'(1)] by (auto simp: netstr_def decimal.simps)
qed

end
