(* ===== verification/Authz.thy ===== *)
theory Authz
  imports Match
begin

text \<open>
  The decision for rules and queries that are lists of atoms: what \<open>element_add\<close> has stored is what
  \<open>allowed\<close> finds. The tree of such rules is described by the location of its junctions: the one in
  front of a list, the one behind each prefix of a rule and the one behind the end of a rule.
\<close>

subsection \<open>Branches as a map\<close>

definition shaped :: "'r store \<Rightarrow> bool" where
  "shaped st \<longleftrightarrow> (\<forall>x\<in>set (st_juncs st). length x = NTYPES)"

lemma types_less [simp]:
  "SPOC_ATOM < NTYPES" "SPOC_LIST < NTYPES" "SPOC_ENDOFLIST < NTYPES" "SPOC_ENDOFRULE < NTYPES"
  "SPOC_SET < NTYPES" "SPOC_PREFIX < NTYPES" "SPOC_SUFFIX < NTYPES" "SPOC_RANGE < NTYPES" "SPOC_ANY < NTYPES"
  by (simp_all add: NTYPES_def SPOC_ATOM_def SPOC_LIST_def SPOC_ENDOFLIST_def SPOC_ENDOFRULE_def SPOC_SET_def
      SPOC_PREFIX_def SPOC_SUFFIX_def SPOC_RANGE_def SPOC_ANY_def)

lemmas type_defs = SPOC_ATOM_def SPOC_LIST_def SPOC_ENDOFLIST_def SPOC_ENDOFRULE_def SPOC_SET_def
  SPOC_PREFIX_def SPOC_SUFFIX_def SPOC_RANGE_def SPOC_ANY_def

lemma ARRFIND_set_item:
  assumes "shaped st" and "jp < length (st_juncs st)" and "t < NTYPES"
  shows "ARRFIND (set_item st jp t b) = (ARRFIND st)(jp := (ARRFIND st jp)(t := b))"
proof (intro ext)
  fix j u
  have "length (st_juncs st ! jp) = NTYPES" using assms by (simp add: shaped_def)
  then show "ARRFIND (set_item st jp t b) j u = ((ARRFIND st)(jp := (ARRFIND st jp)(t := b))) j u"
    using assms by (auto simp: ARRFIND_def set_item_def nth_list_update)
qed

lemma ARRFIND_junc_new [simp]: "ARRFIND (snd (junc_new st)) = ARRFIND st"
  by (intro ext) (auto simp: ARRFIND_def junc_new_def nth_append less_Suc_eq)

lemma ARRFIND_alloc [simp]: "ARRFIND (alloc st n) = ARRFIND st"
  by (simp add: alloc_def)

lemma length_set_item [simp]: "length (st_juncs (set_item st jp t b)) = length (st_juncs st)"
  by (simp add: set_item_def)

lemma length_set_val [simp]: "length (st_juncs (set_val st jp bp v)) = length (st_juncs st)"
  by (simp add: set_val_def)

lemma length_branch_add [simp]: "length (st_juncs (branch_add st jp bp)) = length (st_juncs st)"
  by (simp add: branch_add_def)

lemma length_enter_branch [simp]: "length (st_juncs (enter_branch st jp t)) = length (st_juncs st)"
  by (simp add: enter_branch_def split: option.splits)

lemma length_alloc:
  "length (st_juncs (alloc st n)) = (if n = length (st_juncs st) then Suc n else length (st_juncs st))"
  by (simp add: alloc_def junc_new_def)

lemma shaped_set_item: "shaped st \<Longrightarrow> jp < length (st_juncs st) \<Longrightarrow> shaped (set_item st jp t b)"
  by (auto simp: shaped_def set_item_def set_conv_nth nth_list_update)

lemma shaped_set_val: "shaped st \<Longrightarrow> jp < length (st_juncs st) \<Longrightarrow> shaped (set_val st jp bp v)"
  by (simp add: set_val_def shaped_set_item)

lemma shaped_branch_add: "shaped st \<Longrightarrow> jp < length (st_juncs st) \<Longrightarrow> shaped (branch_add st jp bp)"
  by (simp add: branch_add_def shaped_set_item)

lemma shaped_enter_branch: "shaped st \<Longrightarrow> jp < length (st_juncs st) \<Longrightarrow> shaped (enter_branch st jp t)"
  by (simp add: enter_branch_def shaped_set_item shaped_branch_add split: option.splits)

lemma shaped_junc_new: "shaped st \<Longrightarrow> shaped (snd (junc_new st))"
  by (auto simp: shaped_def junc_new_def)

lemma shaped_alloc: "shaped st \<Longrightarrow> shaped (alloc st n)"
  by (simp add: alloc_def shaped_junc_new)

lemmas shaped_intros = shaped_set_item shaped_set_val shaped_branch_add shaped_enter_branch shaped_junc_new shaped_alloc

lemma enter_branch_get:
  assumes "shaped st" and "jp < length (st_juncs st)" and "t < NTYPES"
    and typed: "\<And>b. ARRFIND st jp t = Some b \<Longrightarrow> br_type b = t"
  obtains bp where "ARRFIND (enter_branch st jp t) = (ARRFIND st)(jp := (ARRFIND st jp)(t \<mapsto> bp))"
    and "br_val bp = (case ARRFIND st jp t of None \<Rightarrow> zero_val t | Some b \<Rightarrow> br_val b)" and "br_type bp = t"
proof (cases "ARRFIND st jp t")
  case None
  then show ?thesis using that [of "(new_branch t)\<lparr>br_parent := jp\<rparr>"] assms
    by (simp add: enter_branch_def branch_add_def ARRFIND_set_item new_branch_def)
next
  case (Some b)
  then show ?thesis using that [of "b\<lparr>br_count := br_count b + 1\<rparr>"] assms
    by (simp add: enter_branch_def ARRFIND_set_item)
qed

subsection \<open>Changing a bucket\<close>

lemma buck_set_map:
  assumes inv: "ph_inv ht" and b: "ph_map ht k = Some b"
    and b': "buck_val b' = buck_val b" "buck_hash b' = buck_hash b"
  shows "ph_inv (buck_set ht b b') \<and> ph_map (buck_set ht b b') = (ph_map ht)(k \<mapsto> b')"
proof -
  define g where "g x = (if x = b then b' else x)" for x
  have key: "buck_key b = k" "b \<in> set (ph_buckets ht)" using ph_map_Some [OF b] by auto
  have kg: "buck_key (g x) = buck_key x" for x using b' by (simp add: g_def buck_key_def)
  have mf: "List.map_filter (\<lambda>x. x) (map (\<lambda>x. if x = Some b then Some b' else x) xs) =
      map g (List.map_filter (\<lambda>x. x) xs)" for xs
  proof (induction xs)
    case (Cons x xs)
    then show ?case by (cases x) (auto simp: g_def)
  qed simp
  have bu: "ph_buckets (buck_set ht b b') = map g (ph_buckets ht)"
    by (simp add: ph_buckets_def buck_set_def mf)
  have len: "length (ph_arr ht) = ph_size ht" using inv by (simp add: ph_inv_def)
  have keys: "map buck_key (ph_buckets (buck_set ht b b')) = map buck_key (ph_buckets ht)"
    by (simp add: bu kg comp_def)
  have nth: "ph_arr (buck_set ht b b') ! i = map_option g (ph_arr ht ! i)" if "i < ph_size ht" for i
    using that len by (cases "ph_arr ht ! i") (auto simp: buck_set_def g_def)
  have sz: "ph_size (buck_set ht b b') = ph_size ht" "ph_pnr (buck_set ht b b') = ph_pnr ht"
    "ph_n (buck_set ht b b') = ph_n ht" "length (ph_arr (buck_set ht b b')) = ph_size ht"
    using len by (simp_all add: buck_set_def)
  have pos: "0 < ph_size ht" using inv by (simp add: ph_inv_def)
  have reach: "reach (buck_set ht b b') key i" if "reach ht key i" for key i
    using that nth slot_less [OF pos] same_slots [OF sz(1,2)] by (auto simp: reach_def on_path_def)
  have inv': "ph_inv (buck_set ht b b')" unfolding ph_inv_def
  proof (intro conjI allI impI)
    show "ph_n (buck_set ht b b') = length (ph_buckets (buck_set ht b b'))" using inv by (simp add: sz bu ph_inv_def)
    show "distinct (map buck_key (ph_buckets (buck_set ht b b')))" using inv keys by (simp add: ph_inv_def)
    fix i c assume "i < ph_size (buck_set ht b b') \<and> ph_arr (buck_set ht b b') ! i = Some c"
    then obtain d where d: "i < ph_size ht" "ph_arr ht ! i = Some d" "c = g d" by (auto simp: sz nth)
    then have "buck_ok d" "reach ht (buck_hash d) i" using inv by (auto simp: ph_inv_def)
    moreover have "buck_hash c = buck_hash d" "buck_val c = buck_val d" using d(3) b' by (auto simp: g_def)
    ultimately show "buck_ok c" "reach (buck_set ht b b') (buck_hash c) i"
      using reach by (auto simp: buck_ok_def buck_key_def)
  qed (use pos sz in auto)
  have "ph_map (buck_set ht b b') s = ((ph_map ht)(k \<mapsto> b')) s" for s
  proof (cases "ph_map ht s")
    case None
    then have "s \<notin> buck_key ` set (ph_buckets ht)" by (simp add: ph_map_None)
    moreover have "buck_key ` set (ph_buckets (buck_set ht b b')) = buck_key ` set (ph_buckets ht)"
      using keys by (metis set_map)
    ultimately have "ph_map (buck_set ht b b') s = None" by (simp add: ph_map_None)
    moreover have "s \<noteq> k" using None b by auto
    ultimately show ?thesis using None by simp
  next
    case (Some c)
    then have c: "c \<in> set (ph_buckets ht)" "buck_key c = s" using ph_map_Some by auto
    then have "ph_map (buck_set ht b b') s = Some (g c)" using inv' by (auto simp: ph_map_iff bu kg)
    moreover have "c = b \<longleftrightarrow> s = k" using Some b c(2) key(1) by (metis option.inject)
    ultimately show ?thesis using Some by (simp add: g_def)
  qed
  then show ?thesis using inv' by blast
qed

subsection \<open>The tree of a list of rules\<close>

definition atom_ok :: "atom \<Rightarrow> bool" where
  "atom_ok a \<longleftrightarrow> wf_octet (a_val a) \<and> a_hash a = bj_hash (content (a_val a)) 0"

definition akey :: "atom \<Rightarrow> bytes" where
  "akey a = content (a_val a)"

datatype label = Root | At "bytes list" | End "bytes list"

text \<open>The atoms that can follow at a junction.\<close>

definition follows :: "'r branch option \<Rightarrow> (bytes \<Rightarrow> nat option) \<Rightarrow> bool" where
  "follows b m \<longleftrightarrow> (case b of
      None \<Rightarrow> m = Map.empty
    | Some bp \<Rightarrow> br_type bp = SPOC_ATOM \<and> (\<exists>ht. br_val bp = VAtom (Some ht) \<and> ph_inv ht \<and>
        (\<forall>k. map_option buck_next (ph_map ht k) = map_option Some (m k))))"

definition leads :: "nat \<Rightarrow> 'r branch option \<Rightarrow> nat option \<Rightarrow> bool" where
  "leads t b n \<longleftrightarrow> (case b of
      None \<Rightarrow> n = None
    | Some bp \<Rightarrow> br_type bp = t \<and> br_val bp = VJunc n \<and> n \<noteq> None)"

definition rules_for :: "(bytes list \<times> 'r) list \<Rightarrow> bytes list \<Rightarrow> 'r list" where
  "rules_for R p = map snd (filter (\<lambda>x. fst x = p) R)"

definition ends :: "'r branch option \<Rightarrow> 'r list \<Rightarrow> bool" where
  "ends b rs \<longleftrightarrow> (case b of
      None \<Rightarrow> rs = []
    | Some bp \<Rightarrow> br_type bp = SPOC_ENDOFRULE \<and>
       (\<exists>i. br_val bp = VId (Some i) \<and> si_arr i = rs \<and> length rs \<le> si_size i \<and> 0 < si_size i))"

text \<open>The branches of the junction with a label; \<open>loc\<close> is where the junctions are.\<close>

fun node_ok :: "(label \<Rightarrow> nat option) \<Rightarrow> (bytes list \<times> 'r) list \<Rightarrow> label \<Rightarrow> (nat \<Rightarrow> 'r branch option) \<Rightarrow> bool" where
  "node_ok loc R Root f \<longleftrightarrow> leads SPOC_LIST (f SPOC_LIST) (loc (At [])) \<and> (\<forall>t. t \<noteq> SPOC_LIST \<longrightarrow> f t = None)"
| "node_ok loc R (At p) f \<longleftrightarrow> follows (f SPOC_ATOM) (\<lambda>k. loc (At (p @ [k]))) \<and>
     leads SPOC_ENDOFLIST (f SPOC_ENDOFLIST) (loc (End p)) \<and>
     (\<forall>t. t \<noteq> SPOC_ATOM \<and> t \<noteq> SPOC_ENDOFLIST \<longrightarrow> f t = None)"
| "node_ok loc R (End p) f \<longleftrightarrow> ends (f SPOC_ENDOFRULE) (rules_for R p) \<and> (\<forall>t. t \<noteq> SPOC_ENDOFRULE \<longrightarrow> f t = None)"

definition flat :: "'r store \<Rightarrow> (label \<Rightarrow> nat option) \<Rightarrow> (bytes list \<times> 'r) list \<Rightarrow> bool" where
  "flat st loc R \<longleftrightarrow> shaped st \<and> loc Root = Some 0 \<and>
     (\<forall>l j. loc l = Some j \<longrightarrow> j < length (st_juncs st) \<and> node_ok loc R l (ARRFIND st j)) \<and>
     (\<forall>l l' j. loc l = Some j \<and> loc l' = Some j \<longrightarrow> l = l') \<and>
     (\<forall>p k. loc (At (p @ [k])) \<noteq> None \<longrightarrow> loc (At p) \<noteq> None) \<and>
     (\<forall>p. loc (End p) \<noteq> None \<longrightarrow> loc (At p) \<noteq> None) \<and>
     (\<forall>r\<in>set R. loc (End (fst r)) \<noteq> None)"

lemma flat_shaped: "flat st loc R \<Longrightarrow> shaped st"
  by (simp add: flat_def)

lemma flat_bound: "flat st loc R \<Longrightarrow> loc l = Some j \<Longrightarrow> j < length (st_juncs st)"
  by (simp add: flat_def)

lemma flat_node: "flat st loc R \<Longrightarrow> loc l = Some j \<Longrightarrow> node_ok loc R l (ARRFIND st j)"
  by (simp add: flat_def)

lemma flat_inj: "flat st loc R \<Longrightarrow> loc l = Some j \<Longrightarrow> loc l' = Some j \<Longrightarrow> l = l'"
  unfolding flat_def by blast

lemma flat_end: "flat st loc R \<Longrightarrow> r \<in> set R \<Longrightarrow> loc (End (fst r)) \<noteq> None"
  by (simp add: flat_def)

lemma flat_end_at: "flat st loc R \<Longrightarrow> loc (End p) \<noteq> None \<Longrightarrow> loc (At p) \<noteq> None"
  by (simp add: flat_def)

lemma flat_at_at: "flat st loc R \<Longrightarrow> loc (At (p @ [k])) \<noteq> None \<Longrightarrow> loc (At p) \<noteq> None"
  unfolding flat_def by blast

text \<open>A change of one junction, and the location of a new one.\<close>

lemma flat_update:
  assumes "flat st loc R" and "shaped st'" and "length (st_juncs st) \<le> length (st_juncs st')"
    and "loc l0 = Some j0" and "ARRFIND st' = (ARRFIND st)(j0 := f)" and "node_ok loc R l0 f"
  shows "flat st' loc R"
  unfolding flat_def
proof (intro conjI allI impI)
  fix l j assume l: "loc l = Some j"
  show "j < length (st_juncs st')" using flat_bound [OF assms(1) l] assms(3) by simp
  show "node_ok loc R l (ARRFIND st' j)"
    using flat_node [OF assms(1) l] flat_inj [OF assms(1,4), of l] l assms(5,6) by (cases "j = j0") auto
qed (use assms(1,2) flat_inj [OF assms(1)] flat_at_at [OF assms(1)] in \<open>auto simp: flat_def\<close>)

lemma node_ok_fresh:
  assumes "node_ok loc R l f" and "l' \<noteq> Root"
    and "\<And>p k. l' = At (p @ [k]) \<Longrightarrow> l \<noteq> At p" and "\<And>p. l' = End p \<Longrightarrow> l \<noteq> At p" and "l' = At [] \<Longrightarrow> l \<noteq> Root"
  shows "node_ok (loc(l' := x)) R l f"
proof (cases l)
  case Root
  then show ?thesis using assms by auto
next
  case (At p)
  then have "(\<lambda>k. (loc(l' := x)) (At (p @ [k]))) = (\<lambda>k. loc (At (p @ [k])))" "(loc(l' := x)) (End p) = loc (End p)"
    using assms(3,4) by (auto simp: fun_eq_iff)
  then show ?thesis using assms(1) At by simp
next
  case (End p)
  then show ?thesis using assms(1) by simp
qed

definition parent :: "label \<Rightarrow> label \<Rightarrow> bool" where
  "parent l l' \<longleftrightarrow> l = Root \<and> l' = At [] \<or> (\<exists>p. l = At p \<and> (l' = End p \<or> (\<exists>k. l' = At (p @ [k]))))"

lemma node_ok_empty:
  assumes "flat st loc R" and "loc l = None"
  shows "node_ok loc R l (\<lambda>t. None)"
proof (cases l)
  case (At p)
  then have "loc (At (p @ [k])) = None" "loc (End p) = None" for k
    using assms(2) flat_at_at [OF assms(1), of p k] flat_end_at [OF assms(1), of p] by blast+
  then show ?thesis using At by (simp add: follows_def leads_def fun_eq_iff)
next
  case (End p)
  have "fst r \<noteq> p" if "r \<in> set R" for r using flat_end [OF assms(1) that] assms(2) End by metis
  then show ?thesis using End by (simp add: ends_def rules_for_def filter_empty_conv)
qed (use assms in \<open>auto simp: flat_def\<close>)

lemma flat_new:
  assumes flat: "flat st loc R" and "shaped st'" and len: "length (st_juncs st') = Suc (length (st_juncs st))"
    and l0: "loc l0 = Some j0" and st': "ARRFIND st' = (ARRFIND st)(j0 := f)"
    and l1: "loc l1 = None" and par: "parent l0 l1"
    and f: "node_ok (loc(l1 \<mapsto> length (st_juncs st))) R l0 f"
  shows "flat st' (loc(l1 \<mapsto> length (st_juncs st))) R"
proof -
  define n where "n = length (st_juncs st)"
  have only: "l = l0" if "parent l l1" for l using that par by (auto simp: parent_def)
  have keep: "node_ok (loc(l1 \<mapsto> n)) R l g" if "node_ok loc R l g" "l \<noteq> l0" for l g
    by (rule node_ok_fresh [OF that(1)]) (use only that(2) l1 flat in \<open>auto simp: parent_def flat_def\<close>)
  have fresh: "ARRFIND st' n = (\<lambda>t. None)" using flat_bound [OF flat l0] st' by (auto simp: n_def ARRFIND_def)
  have "l1 \<noteq> l0" using l0 l1 by auto
  show ?thesis unfolding flat_def n_def [symmetric]
  proof (intro conjI allI impI)
    show "(loc(l1 \<mapsto> n)) Root = Some 0" using flat l1 by (auto simp: flat_def)
  next
    fix l j assume l: "(loc(l1 \<mapsto> n)) l = Some j"
    show "j < length (st_juncs st')" using l flat_bound [OF flat, of l] len by (cases "l = l1") (auto simp: n_def)
    show "node_ok (loc(l1 \<mapsto> n)) R l (ARRFIND st' j)"
    proof (cases "l = l1")
      case True
      then show ?thesis using l fresh keep [OF node_ok_empty [OF flat l1]] \<open>l1 \<noteq> l0\<close> by auto
    next
      case False
      then have lj: "loc l = Some j" using l by simp
      show ?thesis
      proof (cases "l = l0")
        case True
        then show ?thesis using lj l0 f st' by (simp add: n_def)
      next
        case False
        then have "j \<noteq> j0" using flat_inj [OF flat lj] l0 by auto
        then show ?thesis using keep [OF flat_node [OF flat lj] False] st' by simp
      qed
    qed
  next
    fix l l' j assume "(loc(l1 \<mapsto> n)) l = Some j \<and> (loc(l1 \<mapsto> n)) l' = Some j"
    then show "l = l'" using flat_inj [OF flat, of l j l'] flat_bound [OF flat] by (auto simp: n_def split: if_splits)
  next
    fix p k assume "(loc(l1 \<mapsto> n)) (At (p @ [k])) \<noteq> None"
    then show "(loc(l1 \<mapsto> n)) (At p) \<noteq> None"
      using flat_at_at [OF flat, of p k] par l0 by (auto simp: parent_def split: if_splits)
  next
    fix p assume "(loc(l1 \<mapsto> n)) (End p) \<noteq> None"
    then show "(loc(l1 \<mapsto> n)) (At p) \<noteq> None"
      using flat_end_at [OF flat, of p] par l0 by (auto simp: parent_def split: if_splits)
  qed (use assms(2) flat_end [OF flat] in auto)
qed

lemma rules_for_snoc: "rules_for (R @ [(p, ri)]) q = rules_for R q @ (if q = p then [ri] else [])"
  by (simp add: rules_for_def)

lemma flat_rule:
  assumes flat: "flat st loc R" and "shaped st'" and len: "length (st_juncs st') = length (st_juncs st)"
    and e: "loc (End p) = Some e" and st': "ARRFIND st' = (ARRFIND st)(e := f)"
    and f: "node_ok loc (R @ [(p, ri)]) (End p) f"
  shows "flat st' loc (R @ [(p, ri)])"
proof -
  have keep: "node_ok loc (R @ [(p, ri)]) l g" if "node_ok loc R l g" "l \<noteq> End p" for l g
    using that by (cases l) (auto simp: rules_for_snoc)
  show ?thesis unfolding flat_def
  proof (intro conjI allI impI)
    fix l j assume l: "loc l = Some j"
    show "j < length (st_juncs st')" using flat_bound [OF flat l] len by simp
    show "node_ok loc (R @ [(p, ri)]) l (ARRFIND st' j)"
    proof (cases "l = End p")
      case True
      then show ?thesis using l e f st' by simp
    next
      case False
      then have "j \<noteq> e" using flat_inj [OF flat l] e by auto
      then show ?thesis using keep [OF flat_node [OF flat l] False] st' by simp
    qed
  qed (use assms(1,2) e flat_inj [OF flat] flat_at_at [OF flat] in \<open>auto simp: flat_def\<close>)
qed

subsection \<open>Storing a list of atoms\<close>

lemma atom_add_flat:
  assumes flat: "flat st loc R" and j: "loc (At p) = Some j" and a: "atom_ok a"
    and add: "atom_add (enter_branch st j SPOC_ATOM) j bp a = Some (st', n)"
    and bp: "ARRFIND (enter_branch st j SPOC_ATOM) j SPOC_ATOM = Some bp"
  shows "\<exists>loc'. flat st' loc' R \<and> loc' (At (p @ [akey a])) = Some n \<and> loc \<subseteq>\<^sub>m loc'"
proof -
  let ?st1 = "enter_branch st j SPOC_ATOM"
  have jl: "j < length (st_juncs st)" using flat_bound [OF flat j] .
  note node = flat_node [OF flat j, simplified]
  have typed: "br_type b = SPOC_ATOM" if "ARRFIND st j SPOC_ATOM = Some b" for b
    using node that by (simp add: follows_def)
  obtain b1 where b1: "ARRFIND ?st1 = (ARRFIND st)(j := (ARRFIND st j)(SPOC_ATOM \<mapsto> b1))"
    "br_val b1 = (case ARRFIND st j SPOC_ATOM of None \<Rightarrow> zero_val SPOC_ATOM | Some b \<Rightarrow> br_val b)" "br_type b1 = SPOC_ATOM"
    using enter_branch_get [OF flat_shaped [OF flat] jl _ typed] by (metis types_less(1))
  have [simp]: "bp = b1" using bp b1(1) by simp
  define ht where "ht = (case br_val b1 of VAtom (Some ht) \<Rightarrow> ht | _ \<Rightarrow> phash_new 3 50)"
  have v: "\<exists>at. br_val b1 = VAtom at \<and> (case at of None \<Rightarrow> phash_new 3 50 | Some ht \<Rightarrow> ht) = ht"
    and ht: "ph_inv ht" "\<And>k. map_option buck_next (ph_map ht k) = map_option Some (loc (At (p @ [k])))"
    using node b1(2) phash_new_inv [of 3 50, where 'n = nat]
    by (auto simp: follows_def ht_def zero_val_def type_defs fun_eq_iff split: option.splits)
  have wf: "wf_octet (a_val a)" and hash: "a_hash a = bj_hash (content (a_val a)) 0" using a by (auto simp: atom_ok_def)
  obtain h1 b where ins: "phash_insert (length prime) ht (a_val a) (bj_hash (content (a_val a)) 0) = Some (h1, b)"
    and n: "n = (case buck_next b of None \<Rightarrow> length (st_juncs st) | Some n \<Rightarrow> n)"
    and st': "st' = alloc (set_val ?st1 j b1 (VAtom (Some (buck_set h1 b (b\<lparr>buck_refc := buck_refc b + 1, buck_next := Some n\<rparr>))))) n"
    using add v hash by (auto simp: atom_add_def Let_def split: option.splits)
  have I: "ph_inv h1" "ph_map h1 = (ph_map ht)(akey a \<mapsto> b)" using ph.put_ok [OF ht(1) wf ins] ph.put_tab [OF ht(1) wf ins]
    by (simp_all add: akey_def)
  define b' where "b' = b\<lparr>buck_refc := buck_refc b + 1, buck_next := Some n\<rparr>"
  have S: "ph_inv (buck_set h1 b b')" "ph_map (buck_set h1 b b') = (ph_map ht)(akey a \<mapsto> b')"
    using buck_set_map [OF I(1), of "akey a" b b'] I(2) by (auto simp: b'_def)
  define f where "f = (ARRFIND st j)(SPOC_ATOM \<mapsto> b1\<lparr>br_val := VAtom (Some (buck_set h1 b b'))\<rparr>)"
  have sh: "shaped ?st1" using flat_shaped [OF flat] jl by (rule shaped_enter_branch)
  have F: "ARRFIND st' = (ARRFIND st)(j := f)"
    using sh jl b1 by (simp add: st' set_val_def ARRFIND_set_item f_def b'_def)
  have sh': "shaped st'" using sh jl by (simp add: st' shaped_intros)
  have foll: "follows (f SPOC_ATOM) ((\<lambda>k. loc (At (p @ [k])))(akey a \<mapsto> n))"
    using b1(3) S ht(2) by (auto simp: f_def follows_def b'_def)
  have rest: "f t = ARRFIND st j t" if "t \<noteq> SPOC_ATOM" for t using that by (simp add: f_def)
  show ?thesis
  proof (cases "loc (At (p @ [akey a]))")
    case None
    then have "ph_map ht (akey a) = None" using ht(2) [of "akey a"] by simp
    then have "buck_next b = None" using phash_insert_map [OF ht(1) wf ins] by (simp add: akey_def)
    then have n: "n = length (st_juncs st)" using n by simp
    have "node_ok (loc(At (p @ [akey a]) \<mapsto> n)) R (At p) f"
      using foll node rest by (simp add: type_defs fun_upd_def)
    then have "flat st' (loc(At (p @ [akey a]) \<mapsto> n)) R" unfolding n
      by (intro flat_new [OF flat sh' _ j F None]) (auto simp: parent_def st' n length_alloc)
    then show ?thesis using None by (intro exI [of _ "loc(At (p @ [akey a]) \<mapsto> n)"]) (auto simp: map_le_def)
  next
    case (Some m)
    then obtain c where c: "ph_map ht (akey a) = Some c" "buck_next c = Some m"
      using ht(2) [of "akey a"] by (auto simp: map_option_case split: option.splits)
    then have "b = c" using phash_insert_map [OF ht(1) wf ins] by (simp add: akey_def)
    then have nm: "n = m" using n c(2) by simp
    then have "node_ok loc R (At p) f"
      using foll node rest Some by (simp add: type_defs fun_upd_idem)
    moreover have "length (st_juncs st) \<le> length (st_juncs st')" by (simp add: st' length_alloc)
    ultimately have "flat st' loc R" using flat_update [OF flat sh' _ j F] by blast
    then show ?thesis using Some nm by auto
  qed
qed

lemma list_end_flat:
  fixes st :: "'r store"
  assumes flat: "flat st loc R" and j: "loc (At p) = Some j" and le: "list_end st j = Some (st', e)"
  shows "\<exists>loc'. flat st' loc' R \<and> loc' (End p) = Some e \<and> loc \<subseteq>\<^sub>m loc'"
proof -
  note node = flat_node [OF flat j, simplified]
  have jl: "j < length (st_juncs st)" using flat_bound [OF flat j] .
  have sh: "shaped st" using flat_shaped [OF flat] .
  show ?thesis
  proof (cases "ARRFIND st j SPOC_ENDOFLIST")
    case None
    define n where "n = length (st_juncs st)"
    define b :: "'r branch" where "b = (new_branch SPOC_ENDOFLIST)\<lparr>br_val := VJunc (Some n), br_parent := j\<rparr>"
    have st': "e = n" "st' = set_item (snd (junc_new st)) j SPOC_ENDOFLIST (Some b)"
      using le None by (auto simp: list_end_def junc_new_def branch_add_def b_def n_def new_branch_def)
    have len: "length (st_juncs (snd (junc_new st))) = Suc n" by (simp add: junc_new_def n_def)
    have F: "ARRFIND st' = (ARRFIND st)(j := (ARRFIND st j)(SPOC_ENDOFLIST \<mapsto> b))"
      using jl len shaped_junc_new [OF sh] by (simp add: st' ARRFIND_set_item n_def)
    have fr: "loc (End p) = None" using node None by (simp add: leads_def)
    have "node_ok (loc(End p \<mapsto> n)) R (At p) ((ARRFIND st j)(SPOC_ENDOFLIST \<mapsto> b))"
      using node by (simp add: type_defs leads_def b_def new_branch_def)
    moreover have "shaped st'" using jl len shaped_junc_new [OF sh] by (simp add: st' shaped_set_item n_def)
    ultimately have "flat st' (loc(End p \<mapsto> n)) R" unfolding n_def
      by (intro flat_new [OF flat _ _ j F fr]) (auto simp: parent_def st' len n_def)
    then show ?thesis using fr st'(1) by (intro exI [of _ "loc(End p \<mapsto> n)"]) (auto simp: map_le_def)
  next
    case (Some db)
    have db: "br_type db = SPOC_ENDOFLIST" "br_val db = VJunc (loc (End p))" "loc (End p) \<noteq> None"
      using node Some by (simp_all add: leads_def)
    then have e: "loc (End p) = Some e" "st' = set_item st j SPOC_ENDOFLIST (Some (db\<lparr>br_count := br_count db + 1\<rparr>))"
      using le Some by (auto simp: list_end_def)
    have F: "ARRFIND st' = (ARRFIND st)(j := (ARRFIND st j)(SPOC_ENDOFLIST \<mapsto> db\<lparr>br_count := br_count db + 1\<rparr>))"
      using sh jl by (simp add: e(2) ARRFIND_set_item)
    have "flat st' loc R"
      by (rule flat_update [OF flat _ _ j F]) (use node db sh jl in \<open>auto simp: e(2) shaped_set_item leads_def type_defs\<close>)
    then show ?thesis using e(1) by auto
  qed
qed

lemma index_add_grows:
  assumes "length (si_arr i) \<le> si_size i" and "0 < si_size i"
  obtains i' where "index_add (Some i) (Some ri) = Some (Some i')" and "si_arr i' = si_arr i @ [ri]"
    and "length (si_arr i') \<le> si_size i'" and "0 < si_size i'"
  using assms by (cases "length (si_arr i) = si_size i") (simp_all add: index_add_def)

lemma rule_end_flat:
  fixes st :: "'r store"
  assumes flat: "flat st loc R" and e: "loc (End p) = Some e" and re: "rule_end st e ri = Some (st', n)"
  shows "flat st' loc (R @ [(p, ri)]) \<and> n = e"
proof -
  note node = flat_node [OF flat e, simplified]
  have el: "e < length (st_juncs st)" using flat_bound [OF flat e] .
  have sh: "shaped st" using flat_shaped [OF flat] .
  show ?thesis
  proof (cases "ARRFIND st e SPOC_ENDOFRULE")
    case None
    define b :: "'r branch" where "b = (new_branch SPOC_ENDOFRULE)\<lparr>br_val := VId (Some \<lparr>si_arr = [ri], si_size = 2\<rparr>), br_parent := e\<rparr>"
    have st': "n = e" "st' = set_item st e SPOC_ENDOFRULE (Some b)"
      using re None by (auto simp: rule_end_def index_add_def index_new_def Let_def branch_add_def b_def new_branch_def)
    have F: "ARRFIND st' = (ARRFIND st)(e := (ARRFIND st e)(SPOC_ENDOFRULE \<mapsto> b))"
      using sh el by (simp add: st' ARRFIND_set_item)
    have "rules_for R p = []" using node None by (simp add: ends_def)
    then have "node_ok loc (R @ [(p, ri)]) (End p) ((ARRFIND st e)(SPOC_ENDOFRULE \<mapsto> b))"
      using node by (simp add: ends_def rules_for_snoc b_def new_branch_def)
    then show ?thesis using flat_rule [OF flat _ _ e F] sh el st' by (simp add: shaped_set_item)
  next
    case (Some bp)
    obtain i where i: "br_type bp = SPOC_ENDOFRULE" "br_val bp = VId (Some i)" "si_arr i = rules_for R p"
      "length (si_arr i) \<le> si_size i" "0 < si_size i"
      using node Some by (auto simp: ends_def)
    obtain i' where i': "index_add (Some i) (Some ri) = Some (Some i')" "si_arr i' = si_arr i @ [ri]"
      "length (si_arr i') \<le> si_size i'" "0 < si_size i'"
      using index_add_grows [OF i(4,5)] by metis
    have st': "n = e" "st' = set_item st e SPOC_ENDOFRULE (Some (bp\<lparr>br_count := br_count bp + 1, br_val := VId (Some i')\<rparr>))"
      using re Some i(2) i'(1) by (auto simp: rule_end_def)
    have F: "ARRFIND st' = (ARRFIND st)(e := (ARRFIND st e)(SPOC_ENDOFRULE \<mapsto>
        bp\<lparr>br_count := br_count bp + 1, br_val := VId (Some i')\<rparr>))"
      using sh el by (simp add: st' ARRFIND_set_item)
    have "node_ok loc (R @ [(p, ri)]) (End p) ((ARRFIND st e)(SPOC_ENDOFRULE \<mapsto>
        bp\<lparr>br_count := br_count bp + 1, br_val := VId (Some i')\<rparr>))"
      using node i i' by (simp add: ends_def rules_for_snoc)
    then show ?thesis using flat_rule [OF flat _ _ e F] sh el st' by (simp add: shaped_set_item)
  qed
qed

text \<open>The elements of a list of atoms, from some position on.\<close>

definition acursor :: "atom \<Rightarrow> atom list \<Rightarrow> element list \<Rightarrow> cursor" where
  "acursor a as es = Cur (EAtom a) (map EAtom as) (Some (c_top (EList es)))"

lemma c_next_acursor:
  "c_next (acursor a [] es) = None" "c_next (acursor a (b # bs) es) = Some (acursor b bs es)"
  by (simp_all add: acursor_def c_next_def)

lemma acursor_simps [simp]:
  "c_el (acursor a as es) = EAtom a" "c_memberof (acursor a as es) = Some (c_top (EList es))" "is_list (acursor a as es) = False"
  "c_next (c_top e) = None" "c_memberof (c_top e) = None" "is_list (c_top (EList es))"
  by (simp_all add: acursor_def is_list_def c_top_def c_next_def type_defs)

lemma is_list_EAtom [simp]: "\<not> is_list (Cur (EAtom a) es m)"
  by (simp add: is_list_def type_defs)

lemma leave_branch_Some [simp]: "leave_branch st jp t (Some n) = st"
  by (simp add: leave_branch_def)

lemma element_add_atom:
  assumes "element_add st j (acursor a as es) ri = Some (st', r)"
  obtains bp st1 n st2 where "ARRFIND (enter_branch st j SPOC_ATOM) j SPOC_ATOM = Some bp"
    and "atom_add (enter_branch st j SPOC_ATOM) j bp a = Some (st1, n)"
    and "add_next st1 n (acursor a as es) ri = Some (st2, r)" and "st' = leave_branch st2 j SPOC_ATOM r"
  using assms by (subst (asm) element_add.simps) (auto simp: Let_def leaf_add_def split: option.splits)

lemma add_next_end:
  assumes flat: "flat st loc R" and j: "loc (At p) = Some j" and an: "add_next st j (acursor a [] es) ri = Some (st', r)"
  shows "\<exists>loc'. flat st' loc' (R @ [(p, ri)]) \<and> loc \<subseteq>\<^sub>m loc' \<and> r \<noteq> None"
proof -
  obtain st1 e st2 n where 1: "list_end st j = Some (st1, e)" "rule_end st1 e ri = Some (st2, n)" and 2: "st' = st2" "r = Some n"
    using an by (subst (asm) add_next.simps)
      (auto simp: c_next_acursor acursor_def [of a "[]"] c_next_def split: option.splits)
  obtain loc' where "flat st1 loc' R" "loc' (End p) = Some e" "loc \<subseteq>\<^sub>m loc'" using list_end_flat [OF flat j 1(1)] by blast
  then show ?thesis using rule_end_flat [OF _ _ 1(2)] 2 by blast
qed

lemma element_add_atoms:
  assumes "flat st loc R" and "loc (At p) = Some j" and "\<forall>b\<in>set (a # as). atom_ok b"
    and "element_add st j (acursor a as es) ri = Some (st', r)"
  shows "\<exists>loc'. flat st' loc' (R @ [(p @ map akey (a # as), ri)]) \<and> loc \<subseteq>\<^sub>m loc' \<and> r \<noteq> None"
  using assms
proof (induction as arbitrary: st loc p j a st' r)
  case (Nil st loc p j a)
  obtain bp st1 n st2 where 1: "ARRFIND (enter_branch st j SPOC_ATOM) j SPOC_ATOM = Some bp"
    "atom_add (enter_branch st j SPOC_ATOM) j bp a = Some (st1, n)"
    "add_next st1 n (acursor a [] es) ri = Some (st2, r)" "st' = leave_branch st2 j SPOC_ATOM r"
    using element_add_atom [OF Nil.prems(4)] by metis
  obtain loc1 where 2: "flat st1 loc1 R" "loc1 (At (p @ [akey a])) = Some n" "loc \<subseteq>\<^sub>m loc1"
    using atom_add_flat [OF Nil.prems(1,2) _ 1(2,1)] Nil.prems(3) by auto
  obtain loc2 where 3: "flat st2 loc2 (R @ [(p @ [akey a], ri)])" "loc1 \<subseteq>\<^sub>m loc2" "r \<noteq> None"
    using add_next_end [OF 2(1,2) 1(3)] by blast
  then show ?case using 1(4) map_le_trans [OF 2(3) 3(2)] by auto
next
  case (Cons b bs st loc p j a)
  obtain bp st1 n st2 where 1: "ARRFIND (enter_branch st j SPOC_ATOM) j SPOC_ATOM = Some bp"
    "atom_add (enter_branch st j SPOC_ATOM) j bp a = Some (st1, n)"
    "add_next st1 n (acursor a (b # bs) es) ri = Some (st2, r)" "st' = leave_branch st2 j SPOC_ATOM r"
    using element_add_atom [OF Cons.prems(4)] by metis
  have an: "element_add st1 n (acursor b bs es) ri = Some (st2, r)"
    using 1(3) by (simp add: add_next.simps [of _ _ "acursor a (b # bs) es"] c_next_acursor)
  obtain loc1 where 2: "flat st1 loc1 R" "loc1 (At (p @ [akey a])) = Some n" "loc \<subseteq>\<^sub>m loc1"
    using atom_add_flat [OF Cons.prems(1,2) _ 1(2,1)] Cons.prems(3) by auto
  obtain loc2 where 3: "flat st2 loc2 (R @ [((p @ [akey a]) @ map akey (b # bs), ri)])" "loc1 \<subseteq>\<^sub>m loc2" "r \<noteq> None"
    using Cons.IH [OF 2(1,2) _ an] Cons.prems(3) by auto
  then show ?case using 1(4) map_le_trans [OF 2(3) 3(2)] by auto
qed

text \<open>A whole rule, and the empty tree.\<close>

lemma list_junc_flat:
  assumes flat: "flat st loc R"
  obtains bp st2 lj loc1 where "ARRFIND (enter_branch st 0 SPOC_LIST) 0 SPOC_LIST = Some bp"
    and "list_junc (enter_branch st 0 SPOC_LIST) 0 bp = Some (st2, lj)" and "flat st2 loc1 R" and "loc1 (At []) = Some lj"
    and "loc (At []) = None \<Longrightarrow> ARRFIND st2 lj = (\<lambda>t. None)"
proof -
  let ?t = "SPOC_LIST"
  let ?st1 = "enter_branch st 0 ?t"
  have j: "loc Root = Some 0" using flat by (simp add: flat_def)
  note node = flat_node [OF flat j, simplified]
  have jl: "0 < length (st_juncs st)" using flat_bound [OF flat j] .
  have sh: "shaped ?st1" using flat_shaped [OF flat] jl by (rule shaped_enter_branch)
  have typed: "br_type b = ?t" if "ARRFIND st 0 ?t = Some b" for b using node that by (simp add: leads_def)
  obtain bp where bp: "ARRFIND ?st1 = (ARRFIND st)(0 := (ARRFIND st 0)(?t \<mapsto> bp))"
    "br_val bp = (case ARRFIND st 0 ?t of None \<Rightarrow> zero_val ?t | Some b \<Rightarrow> br_val b)" "br_type bp = ?t"
    using enter_branch_get [OF flat_shaped [OF flat] jl _ typed] by (metis types_less(2))
  have get: "ARRFIND ?st1 0 ?t = Some bp" using bp(1) by simp
  show ?thesis
  proof (cases "loc (At [])")
    case None
    define n where "n = length (st_juncs st)"
    define st2 where "st2 = alloc (set_val ?st1 0 bp (VJunc (Some n))) n"
    have v: "br_val bp = VJunc None" using bp(2) node None by (auto simp: leads_def zero_val_def type_defs split: option.splits)
    then have lj: "list_junc ?st1 0 bp = Some (st2, n)" by (simp add: list_junc_def any_add_def Let_def n_def st2_def)
    have F: "ARRFIND st2 = (ARRFIND st)(0 := (ARRFIND st 0)(?t \<mapsto> bp\<lparr>br_val := VJunc (Some n)\<rparr>))"
      using sh jl bp by (simp add: st2_def set_val_def ARRFIND_set_item)
    have "flat st2 (loc(At [] \<mapsto> n)) R" unfolding n_def
      by (rule flat_new [OF flat _ _ j F None])
        (use node bp(3) sh jl in \<open>auto simp: n_def parent_def leads_def st2_def length_alloc shaped_intros\<close>)
    moreover have "ARRFIND st2 n = (\<lambda>t. None)" using F jl by (auto simp: n_def ARRFIND_def)
    ultimately show ?thesis using that [OF get lj] by auto
  next
    case (Some n)
    have v: "br_val bp = VJunc (Some n)" using bp(2) node Some by (auto simp: leads_def split: option.splits)
    then have lj: "list_junc ?st1 0 bp = Some (?st1, n)" by (simp add: list_junc_def any_add_def)
    have "flat ?st1 loc R"
      by (rule flat_update [OF flat _ _ j bp(1)]) (use node bp v sh Some in \<open>auto simp: leads_def\<close>)
    then show ?thesis using that [OF get lj] Some by auto
  qed
qed

lemma element_add_list:
  assumes "ARRFIND (enter_branch st 0 SPOC_LIST) 0 SPOC_LIST = Some bp"
    and "list_junc (enter_branch st 0 SPOC_LIST) 0 bp = Some (st2, lj)"
  shows "element_add st 0 (c_top (EList (map EAtom (a # as)))) ri =
    (case element_add st2 lj (acursor a as (map EAtom (a # as))) ri of
       None \<Rightarrow> None
     | Some (st3, x) \<Rightarrow> Some (leave_branch st3 0 SPOC_LIST x, x))"
  using assms
  by (simp add: element_add.simps [of st 0] c_top_def c_head_def acursor_def)
    (auto simp: add_next.simps c_next_def split: option.splits)

lemma element_add_flat:
  assumes flat: "flat st loc R" and ok: "as \<noteq> []" "\<forall>b\<in>set as. atom_ok b"
    and add: "element_add st 0 (c_top (EList (map EAtom as))) ri = Some (st', r)"
  shows "\<exists>loc'. flat st' loc' (R @ [(map akey as, ri)]) \<and> r \<noteq> None"
proof -
  obtain bp st2 lj loc1 where 1: "ARRFIND (enter_branch st 0 SPOC_LIST) 0 SPOC_LIST = Some bp"
    "list_junc (enter_branch st 0 SPOC_LIST) 0 bp = Some (st2, lj)" and 2: "flat st2 loc1 R" "loc1 (At []) = Some lj"
    using list_junc_flat [OF flat] by metis
  obtain a as' where as: "as = a # as'" using ok(1) by (cases as) auto
  obtain st3 where 3: "element_add st2 lj (acursor a as' (map EAtom as)) ri = Some (st3, r)" "st' = leave_branch st3 0 SPOC_LIST r"
    using add element_add_list [OF 1, of a as' ri] by (auto simp: as split: option.splits)
  then show ?thesis using element_add_atoms [OF 2 _ 3(1)] ok(2) as by auto
qed

definition empty_tree :: "(nat \<Rightarrow> nat) \<Rightarrow> bytes \<Rightarrow> 'r store" where
  "empty_tree rnd before = \<lparr>st_juncs = [replicate NTYPES None], st_rand = rnd, st_nrand = 0, st_before = before\<rparr>"

lemma empty_flat: "flat (empty_tree rnd before :: 'r store) [Root \<mapsto> 0] []"
proof -
  have "ARRFIND (empty_tree rnd before :: 'r store) 0 = (\<lambda>t. None)"
    by (auto simp: ARRFIND_def empty_tree_def)
  then show ?thesis by (auto simp: flat_def shaped_def empty_tree_def leads_def)
qed

subsection \<open>The conditions of the rules at a leaf\<close>

definition blob_ok :: "octet option \<Rightarrow> bool" where
  "blob_ok b \<longleftrightarrow> (case b of None \<Rightarrow> True | Some o1 \<Rightarrow> wf_octet o1)"

definition cond_ok :: "'c evaluator \<Rightarrow> element \<Rightarrow> 'c ruleinst \<Rightarrow> bool" where
  "cond_ok beval h ri \<longleftrightarrow> ri_bcond ri = None \<or> (\<exists>d. beval h ri = Some (SPOCP_SUCCESS, d))"

definition tame :: "'c evaluator \<Rightarrow> element \<Rightarrow> 'c ruleinst \<Rightarrow> bool" where
  "tame beval h ri \<longleftrightarrow> blob_ok (ri_blob ri) \<and> (ri_bcond ri \<noteq> None \<longrightarrow> (\<exists>r d. beval h ri = Some (r, d) \<and> blob_ok d))"

definition idle :: "'c comparam \<Rightarrow> bool" where
  "idle q \<longleftrightarrow> \<not> cp_all q \<and> \<not> cp_nobe q \<and> cp_cr q = [] \<and> (case cp_blob q of None \<Rightarrow> True | Some a \<Rightarrow> octarr_ok a)"

definition same_query :: "'c comparam \<Rightarrow> 'c comparam \<Rightarrow> bool" where
  "same_query q q' \<longleftrightarrow> cp_head q' = cp_head q \<and> cp_rc q' = cp_rc q"

lemma same_query_refl [simp]: "same_query q q"
  by (simp add: same_query_def)

lemma same_query_trans: "same_query q q1 \<Longrightarrow> same_query q1 q2 \<Longrightarrow> same_query q q2"
  by (simp add: same_query_def)

lemma blob_dup_ok:
  assumes "blob_ok b"
  obtains b' where "blob_dup b = Some b'" and "blob_ok b'"
proof (cases b)
  case (Some o1)
  show ?thesis
  proof (cases "oct_len o1 = 0")
    case True
    then show ?thesis using that Some by (simp add: blob_dup_def octdup_def blob_ok_def wf_octet_def)
  next
    case False
    then obtain o2 where "octdup (Some o1) = Some (Some o2)" "wf_dyn o2"
      using octdup_content [of o1] assms Some by (auto simp: blob_ok_def)
    then show ?thesis using that Some by (simp add: blob_dup_def blob_ok_def wf_dyn_def)
  qed
qed (use that in \<open>simp add: blob_dup_def octdup_def blob_ok_def\<close>)

lemma blob_add_ok:
  assumes "case cp_blob q of None \<Rightarrow> True | Some a \<Rightarrow> octarr_ok a"
  obtains a where "blob_add q b = Some (q\<lparr>cp_blob := a\<rparr>)" and "case a of None \<Rightarrow> True | Some a \<Rightarrow> octarr_ok a"
proof (cases b)
  case (Some o1)
  obtain a' where "octarr_add (cp_blob q) o1 = Some a'" "octarr_ok a'"
  proof (cases "cp_blob q")
    case None
    then show ?thesis using that octarr_add_Some [of "octarr_new 4" o1] by (auto simp: octarr_add_def)
  next
    case (Some a)
    then show ?thesis using that octarr_add_Some [of a o1] assms by auto
  qed
  then show ?thesis using that [of "Some a'"] Some by (simp add: blob_add_def)
qed (use that [of "cp_blob q"] assms in \<open>simp add: blob_add_def\<close>)

lemma bcond_loop_spec:
  assumes "idle q" and "\<forall>ri\<in>set rs. tame beval (cp_head q) ri" and "r \<noteq> SPOCP_SUCCESS" and "blob_ok blob"
  shows "\<exists>r' q'. bcond_loop beval rs r blob q = Some (r', q') \<and> \<not> cp_all q' \<and>
    (if \<exists>ri\<in>set rs. cond_ok beval (cp_head q) ri then r' = SPOCP_SUCCESS
     else r' \<noteq> SPOCP_SUCCESS \<and> idle q' \<and> same_query q q')"
  using assms
proof (induction rs arbitrary: r blob q)
  case (Cons ri rs)
  have none: "checked_rule ri (cp_cr q) = None" using Cons.prems(1) by (simp add: idle_def checked_rule_def)
  have q: "case cp_blob q of None \<Rightarrow> True | Some a \<Rightarrow> octarr_ok a" using Cons.prems(1) by (simp add: idle_def)
  have t: "tame beval (cp_head q) ri" using Cons.prems(2) by simp
  define r1 where "r1 = (case ri_bcond ri of None \<Rightarrow> SPOCP_SUCCESS | Some _ \<Rightarrow> fst (the (beval (cp_head q) ri)))"
  have r1: "r1 = SPOCP_SUCCESS \<longleftrightarrow> cond_ok beval (cp_head q) ri"
    using t by (auto simp: r1_def cond_ok_def tame_def split: option.splits)
  have "\<exists>blob1 a. (case ri_bcond ri of
      None \<Rightarrow> map_option (\<lambda>b. (SPOCP_SUCCESS, if ri_blob ri = None then blob else b, q)) (blob_dup (ri_blob ri))
    | Some _ \<Rightarrow> Option.bind (beval (cp_head q) ri) (\<lambda>(r1, dyn).
        map_option (\<lambda>cp. (r1, if dyn = None then blob else dyn, cp)) (blob_add q dyn))) =
      Some (r1, blob1, q\<lparr>cp_blob := a\<rparr>) \<and> blob_ok blob1 \<and> (case a of None \<Rightarrow> True | Some a \<Rightarrow> octarr_ok a)"
  proof (cases "ri_bcond ri")
    case None
    obtain b' where "blob_dup (ri_blob ri) = Some b'" "blob_ok b'" using blob_dup_ok t by (metis tame_def)
    then show ?thesis using None q Cons.prems(4) by (intro exI [of _ "if ri_blob ri = None then blob else b'"] exI [of _ "cp_blob q"]) (auto simp: r1_def)
  next
    case (Some c)
    then obtain d where d: "beval (cp_head q) ri = Some (r1, d)" "blob_ok d" using t by (auto simp: tame_def r1_def)
    obtain a where "blob_add q d = Some (q\<lparr>cp_blob := a\<rparr>)" "case a of None \<Rightarrow> True | Some a \<Rightarrow> octarr_ok a"
      using blob_add_ok [OF q] by blast
    then show ?thesis using Some d Cons.prems(4) by (intro exI [of _ "if d = None then blob else d"] exI [of _ a]) auto
  qed
  then obtain blob1 a where 1: "(case ri_bcond ri of
      None \<Rightarrow> map_option (\<lambda>b. (SPOCP_SUCCESS, if ri_blob ri = None then blob else b, q)) (blob_dup (ri_blob ri))
    | Some _ \<Rightarrow> Option.bind (beval (cp_head q) ri) (\<lambda>(r1, dyn).
        map_option (\<lambda>cp. (r1, if dyn = None then blob else dyn, cp)) (blob_add q dyn))) =
      Some (r1, blob1, q\<lparr>cp_blob := a\<rparr>)" and ok: "blob_ok blob1" "case a of None \<Rightarrow> True | Some a \<Rightarrow> octarr_ok a"
    by blast
  show ?case
  proof (cases "cond_ok beval (cp_head q) ri")
    case True
    obtain b where b: "blob_dup blob1 = Some b" using blob_dup_ok [OF ok(1)] by blast
    let ?q1 = "q\<lparr>cp_blob := a, cp_cr := add_checked ri r1 b (cp_cr q)\<rparr>"
    obtain a' where "blob_add ?q1 blob1 = Some (?q1\<lparr>cp_blob := a'\<rparr>)" using blob_add_ok [of ?q1 blob1] ok(2) by auto
    then show ?thesis using True r1 b 1 none Cons.prems(1) by (simp add: idle_def)
  next
    case False
    let ?q1 = "q\<lparr>cp_blob := a\<rparr>"
    have "idle ?q1" using Cons.prems(1) ok(2) by (simp add: idle_def)
    then obtain r' q' where "bcond_loop beval rs r1 blob1 ?q1 = Some (r', q')" "\<not> cp_all q'"
      "if \<exists>ri\<in>set rs. cond_ok beval (cp_head q) ri then r' = SPOCP_SUCCESS
       else r' \<noteq> SPOCP_SUCCESS \<and> idle q' \<and> same_query ?q1 q'"
      using Cons.IH [of ?q1 r1 blob1] False r1 Cons.prems(2) ok(1) by auto
    then show ?thesis using False r1 1 none
      by (intro exI [of _ r'] exI [of _ q']) (auto simp: same_query_def split: if_splits)
  qed
qed (auto simp: idle_def)

lemma accept_spec:
  assumes "idle q" and "\<forall>ri\<in>set (si_arr i). tame beval (cp_head q) ri"
  shows "\<exists>rs k q'. accept beval False (Some i) res q = Some (rs, k, q') \<and> \<not> cp_all q' \<and>
    (if \<exists>ri\<in>set (si_arr i). cond_ok beval (cp_head q) ri then k \<and> rs \<noteq> []
     else \<not> k \<and> rs = res \<and> idle q' \<and> same_query q q')"
proof -
  obtain r' q' where "bcond_loop beval (si_arr i) SPOCP_DENIED None q = Some (r', q')" "\<not> cp_all q'"
    "if \<exists>ri\<in>set (si_arr i). cond_ok beval (cp_head q) ri then r' = SPOCP_SUCCESS
     else r' \<noteq> SPOCP_SUCCESS \<and> idle q' \<and> same_query q q'"
    using bcond_loop_spec [OF assms, of SPOCP_DENIED None] by (auto simp: blob_ok_def)
  then show ?thesis
    by (auto simp: accept_def bcond_check_def rss_add_def resset_add_def split: if_splits)
qed

subsection \<open>Matching a list of atoms\<close>

definition hit :: "'c evaluator \<Rightarrow> element \<Rightarrow> (bytes list \<times> 'c ruleinst) list \<Rightarrow> bytes list \<Rightarrow> bool" where
  "hit beval h R p \<longleftrightarrow> (\<exists>ri\<in>set (rules_for R p). cond_ok beval h ri)"

fun decide :: "'c evaluator \<Rightarrow> element \<Rightarrow> (bytes list \<times> 'c ruleinst) list \<Rightarrow> bytes list \<Rightarrow> bytes list \<Rightarrow> bool" where
  "decide beval h R p [] \<longleftrightarrow> False"
| "decide beval h R p (k # ks) \<longleftrightarrow> hit beval h R (p @ [k]) \<or> decide beval h R (p @ [k]) ks"

definition outcome :: "bool \<Rightarrow> 'c comparam \<Rightarrow> 'c answer \<Rightarrow> bool" where
  "outcome d q ans \<longleftrightarrow>
     (if d then \<exists>rs q'. ans = Some (rs, q') \<and> rs \<noteq> [] \<and> \<not> cp_all q'
      else \<exists>q'. ans = Some ([], q') \<and> idle q' \<and> same_query q q')"

lemma rules_at_end:
  assumes flat: "flat st loc R" and e: "loc (End p) = Some e"
  shows "(\<exists>i. rules_at st e = Some (Some i) \<and> si_arr i = rules_for R p) \<or> rules_at st e = None \<and> rules_for R p = []"
  using flat_node [OF flat e] by (auto simp: rules_at_def ends_def split: option.splits)

lemma eol_at:
  assumes flat: "flat st loc R" and n: "loc (At p) = Some n"
  shows "eol st n = (case loc (End p) of None \<Rightarrow> None | Some e \<Rightarrow> Some (Some e))" and "rules_at st n = None"
  using flat_node [OF flat n] by (auto simp: eol_def rules_at_def leads_def type_defs split: option.splits)

lemma eol_end:
  assumes flat: "flat st loc R" and e: "loc (End p) = Some e"
  shows "eol st e = None"
  using flat_node [OF flat e] by (simp add: eol_def type_defs)

lemma no_end_no_rules:
  assumes flat: "flat st loc R" and "loc (End p) = None"
  shows "rules_for R p = []"
  using node_ok_empty [OF assms] by (simp add: ends_def)

lemma ending_flat:
  assumes flat: "flat st loc R" and n: "loc (At p) = Some n" and q: "idle q"
    and t: "\<forall>r\<in>set R. tame beval (cp_head q) (snd r)"
  shows "outcome (hit beval (cp_head q) R p) q (ending beval M st (Some n) (Some (acursor a as es)) q)"
proof (cases "loc (End p)")
  case None
  then have "rules_for R p = []" using no_end_no_rules [OF flat] by blast
  then show ?thesis using None eol_at [OF flat n] q by (simp add: ending_def outcome_def hit_def)
next
  case (Some e)
  have tt: "\<forall>ri\<in>set (rules_for R p). tame beval (cp_head q) ri" using t by (auto simp: rules_for_def)
  have nobe: "cp_nobe q = False" using q by (simp add: idle_def)
  have end_eq: "ending beval M st (Some n) (Some (acursor a as es)) q =
      (case rules_at st e of None \<Rightarrow> Some ([], q)
       | Some si \<Rightarrow> map_option (\<lambda>(rs, _, q'). (rs, q')) (accept beval False si [] q))"
    using Some eol_at [OF flat n] q
    by (simp add: ending_def end_of_lists_def nobe idle_def acursor_def [of a] c_top_def c_next_def split: option.splits)
  show ?thesis
  proof (cases "rules_at st e")
    case None
    then show ?thesis using q rules_at_end [OF flat Some] by (simp add: end_eq outcome_def hit_def)
  next
    case ra: (Some si)
    then obtain i where "rules_at st e = Some (Some i)" "si_arr i = rules_for R p"
      using rules_at_end [OF flat Some] by auto
    then show ?thesis using accept_spec [OF q, of i beval "[]"] tt
      by (auto simp: end_eq outcome_def hit_def split: if_splits)
  qed
qed

lemma next_match_flat:
  assumes flat: "flat st loc R" and n: "loc (At p) = Some n" and q: "idle q"
    and t: "\<forall>r\<in>set R. tame beval (cp_head q) (snd r)"
  shows "if hit beval (cp_head q) R p \<or> as = []
    then outcome (hit beval (cp_head q) R p) q (next_match beval M st n (Some (acursor a as es)) q)
    else \<exists>q1. idle q1 \<and> same_query q q1 \<and> next_match beval M st n (Some (acursor a as es)) q =
      M (Some n) (Some (acursor (hd as) (tl as) es)) q1"
proof (cases "hit beval (cp_head q) R p")
  case True
  then obtain rs q' where "ending beval M st (Some n) (Some (acursor a as es)) q = Some (rs, q')" "rs \<noteq> []" "\<not> cp_all q'"
    using ending_flat [OF flat n q t, of M a as es] by (auto simp: outcome_def)
  then show ?thesis using True by (simp add: next_match_def outcome_def)
next
  case False
  then obtain q1 where q1: "ending beval M st (Some n) (Some (acursor a as es)) q = Some ([], q1)" "idle q1" "same_query q q1"
    using ending_flat [OF flat n q t, of M a as es] by (auto simp: outcome_def)
  show ?thesis
  proof (cases as)
    case Nil
    have "\<exists>j c. next_up st n (acursor a [] es) = Some (j, c) \<and> c_next c = None"
      using eol_at(1) [OF flat n] eol_end [OF flat]
      by (cases "loc (End p)") (auto simp: acursor_def c_next_def c_top_def)
    then show ?thesis using Nil False q1 by (auto simp: next_match_def outcome_def c_next_acursor)
  next
    case (Cons b bs)
    have "map_option (\<lambda>(rs', q'). (resset_join [] rs', q')) x = x" for x :: "'a answer"
      by (cases x) (auto simp: resset_join_def)
    then show ?thesis using Cons False q1 by (auto simp: next_match_def c_next_acursor)
  qed
qed

text \<open>The search for an atom in a table of the tree may not return.\<close>

definition searches_end :: "'r store \<Rightarrow> atom \<Rightarrow> bool" where
  "searches_end st a \<longleftrightarrow> (\<forall>j bp ht. ARRFIND st j SPOC_ATOM = Some bp \<and> br_val bp = VAtom (Some ht) \<longrightarrow>
     phash_search ht (a_val a) (a_hash a) \<noteq> None)"

lemma hit_at: "flat st loc R \<Longrightarrow> hit beval h R p \<Longrightarrow> loc (At p) \<noteq> None"
  using no_end_no_rules flat_end_at by (fastforce simp: hit_def)

lemma decide_at: "flat st loc R \<Longrightarrow> decide beval h R p ks \<Longrightarrow> loc (At p) \<noteq> None"
proof (induction ks arbitrary: p)
  case (Cons k ks)
  then have "loc (At (p @ [k])) \<noteq> None" using hit_at [OF Cons.prems(1)] by auto
  then show ?case using flat_at_at [OF Cons.prems(1)] by blast
qed simp

lemma atom_lookup:
  assumes flat: "flat st loc R" and j: "loc (At p) = Some j" and a: "atom_ok a"
  shows "branch_val st j SPOC_ATOM = None \<and> loc (At (p @ [akey a])) = None \<or>
    (\<exists>ht. branch_val st j SPOC_ATOM = Some (VAtom (Some ht)) \<and>
       (case loc (At (p @ [akey a])) of
          Some n \<Rightarrow> atom2atom_match a (Some ht) = Some (Some n)
        | None \<Rightarrow> atom2atom_match a (Some ht) = Some None \<or>
            atom2atom_match a (Some ht) = None \<and> \<not> searches_end st a))"
proof (cases "ARRFIND st j SPOC_ATOM")
  case None
  then show ?thesis using flat_node [OF flat j] by (auto simp: branch_val_def follows_def dest: fun_cong)
next
  case (Some bp)
  then obtain ht where ht: "br_val bp = VAtom (Some ht)" "ph_inv ht"
    "\<And>k. map_option buck_next (ph_map ht k) = map_option Some (loc (At (p @ [k])))"
    using flat_node [OF flat j] by (auto simp: follows_def)
  have wf: "wf_octet (a_val a)" "a_hash a = bj_hash (content (a_val a)) 0" using a by (auto simp: atom_ok_def)
  have "case loc (At (p @ [akey a])) of
          Some n \<Rightarrow> atom2atom_match a (Some ht) = Some (Some n)
        | None \<Rightarrow> atom2atom_match a (Some ht) = Some None \<or> atom2atom_match a (Some ht) = None \<and> \<not> searches_end st a"
  proof (cases "loc (At (p @ [akey a]))")
    case (Some n)
    then obtain b where "ph_map ht (akey a) = Some b" "buck_next b = Some n"
      using ht(3) [of "akey a"] by (cases "ph_map ht (akey a)") auto
    then show ?thesis using phash_search_hit [OF ht(2) wf(1)] wf(2) Some by (simp add: atom2atom_match_def akey_def)
  next
    case None
    then have m: "ph_map ht (content (a_val a)) = None" using ht(3) [of "akey a"] by (simp add: akey_def)
    show ?thesis
    proof (cases "phash_search ht (a_val a) (a_hash a)")
      case None
      then have "\<not> searches_end st a" using \<open>ARRFIND st j SPOC_ATOM = Some bp\<close> ht(1) by (auto simp: searches_end_def)
      then show ?thesis using None \<open>loc (At (p @ [akey a])) = None\<close> by (simp add: atom2atom_match_def)
    next
      case (Some x)
      have "x = None" using Some phash_search_absent [OF ht(2) wf(1) m] wf(2) by (auto split: if_splits)
      then show ?thesis using Some None by (simp add: atom2atom_match_def)
    qed
  qed
  then show ?thesis using Some ht(1) by (simp add: branch_val_def)
qed

lemma then_try_Some [simp]: "then_try x (\<lambda>rs q. Some (rs, q)) = x"
  by (auto simp: then_try_def split: option.splits)

lemma element_match_r_atom:
  assumes flat: "flat st loc R" and j: "loc (At p) = Some j"
  shows "element_match_r beval num st (Suc m) (Some j) (Some (acursor a as es)) q =
    atom_branch beval (element_match_r beval num st m) st j a (acursor a as es) q"
proof -
  have "map_option (\<lambda>(rs, q'). (resset_join [] rs, q')) x = x" for x :: "'a answer"
    by (cases x) (auto simp: resset_join_def)
  moreover have "branch_val st j SPOC_ANY = None" "branch_val st j SPOC_PREFIX = None" "branch_val st j SPOC_SUFFIX = None"
    "branch_val st j SPOC_RANGE = None"
    using flat_node [OF flat j] by (simp_all add: branch_val_def type_defs)
  ultimately show ?thesis
    by (simp add: element_match_def atom_match_def ssn_branch_def range_branch_def element_match_r.simps)
qed

declare element_match_r.simps [simp del]

definition answers :: "'c tree \<Rightarrow> atom list \<Rightarrow> bool \<Rightarrow> 'c comparam \<Rightarrow> 'c answer \<Rightarrow> bool" where
  "answers st as d q ans \<longleftrightarrow> outcome d q ans \<or> ans = None \<and> \<not> d \<and> (\<exists>b\<in>set as. \<not> searches_end st b)"

lemma answers_weaken: "answers st as d q1 ans \<Longrightarrow> same_query q q1 \<Longrightarrow> answers st (a # as) d q ans"
  using same_query_trans by (fastforce simp: answers_def outcome_def split: if_splits)

lemma element_match_flat:
  assumes "flat st loc R" and "loc (At p) = Some j" and "idle q" and "\<forall>r\<in>set R. tame beval (cp_head q) (snd r)"
    and "\<forall>b\<in>set (a # as). atom_ok b" and "length as < n"
  shows "answers st (a # as) (decide beval (cp_head q) R p (map akey (a # as))) q
    (element_match_r beval num st n (Some j) (Some (acursor a as es)) q)"
  using assms
proof (induction n arbitrary: p j q a as)
  case (Suc m)
  note flat = Suc.prems(1)
  note eq = element_match_r_atom [OF flat Suc.prems(2)]
  have a: "atom_ok a" using Suc.prems(5) by simp
  show ?case
  proof (cases "loc (At (p @ [akey a]))")
    case None
    then have "\<not> hit beval (cp_head q) R (p @ [akey a])" "\<not> decide beval (cp_head q) R (p @ [akey a]) ks" for ks
      using hit_at [OF flat] decide_at [OF flat] by blast+
    then show ?thesis using atom_lookup [OF flat Suc.prems(2) a] None Suc.prems(3)
      by (auto simp: eq atom_branch_def answers_def outcome_def)
  next
    case (Some k)
    then have ab: "atom_branch beval M st j a c q = next_match beval M st k (Some c) q" for M c
      using atom_lookup [OF flat Suc.prems(2) a] by (auto simp: atom_branch_def)
    note nm = next_match_flat [OF flat Some Suc.prems(3,4), of as "element_match_r beval num st m" a es]
    show ?thesis
    proof (cases "hit beval (cp_head q) R (p @ [akey a]) \<or> as = []")
      case True
      then show ?thesis using nm by (auto simp: eq ab answers_def)
    next
      case False
      then obtain b bs where as: "as = b # bs" by (cases as) auto
      obtain q1 where q1: "idle q1" "same_query q q1"
        "next_match beval (element_match_r beval num st m) st k (Some (acursor a as es)) q =
          element_match_r beval num st m (Some k) (Some (acursor b bs es)) q1"
        using nm False as by auto
      have h: "cp_head q1 = cp_head q" using q1(2) by (simp add: same_query_def)
      have "answers st (b # bs) (decide beval (cp_head q) R (p @ [akey a]) (map akey (b # bs))) q1
          (element_match_r beval num st m (Some k) (Some (acursor b bs es)) q1)"
        using Suc.IH [OF flat Some q1(1), of b bs] Suc.prems(4-6) as h by simp
      then have "answers st (a # as) (decide beval (cp_head q) R (p @ [akey a]) (map akey as)) q
          (element_match_r beval num st m (Some k) (Some (acursor b bs es)) q1)"
        using q1(2) unfolding as by (rule answers_weaken)
      then show ?thesis using False by (simp add: eq ab q1(3))
    qed
  qed
qed simp

text \<open>The specification of the decision: some rule is a prefix of the query and its condition holds.\<close>

definition permitted :: "'c evaluator \<Rightarrow> element \<Rightarrow> (atom list \<times> 'c ruleinst) list \<Rightarrow> atom list \<Rightarrow> bool" where
  "permitted beval h rules as \<longleftrightarrow>
     (\<exists>r\<in>set rules. cond_ok beval h (snd r) \<and> prefix (map akey (fst r)) (map akey as))"

lemma decide_prefix:
  "decide beval h R p ks \<longleftrightarrow> (\<exists>r\<in>set R. cond_ok beval h (snd r) \<and> (\<exists>x. x \<noteq> [] \<and> prefix x ks \<and> fst r = p @ x))"
proof (induction ks arbitrary: p)
  case (Cons k ks)
  have "hit beval h R (p @ [k]) \<longleftrightarrow> (\<exists>r\<in>set R. cond_ok beval h (snd r) \<and> fst r = p @ [k])"
    by (force simp: hit_def rules_for_def)
  moreover have "(\<exists>x. x \<noteq> [] \<and> prefix x (k # ks) \<and> r = p @ x) \<longleftrightarrow>
      r = p @ [k] \<or> (\<exists>x. x \<noteq> [] \<and> prefix x ks \<and> r = (p @ [k]) @ x)" for r
    by (auto simp: prefix_Cons)
  ultimately show ?case unfolding decide.simps(2) Cons.IH [of "p @ [k]"] by (simp only: bex_disj_distrib conj_disj_distribL)
qed auto

lemma allowed_flat:
  assumes flat: "flat st loc R" and q: "idle q" "cp_head q = EList (map EAtom as)"
    and t: "\<forall>r\<in>set R. tame beval (cp_head q) (snd r)"
    and as: "as \<noteq> []" "\<forall>b\<in>set as. atom_ok b" and n: "length as < n"
  defines "d \<equiv> decide beval (cp_head q) R [] (map akey as)"
  shows "(d \<longrightarrow> (\<exists>rs q'. allowed beval num n st (Some 0) q = Some (SPOCP_SUCCESS, rs, q') \<and> rs \<noteq> [])) \<and>
    (\<not> d \<longrightarrow> (\<exists>q'. allowed beval num n st (Some 0) q = Some (SPOCP_DENIED, [], q')) \<or>
       allowed beval num n st (Some 0) q = None \<and> (\<exists>b\<in>set as. \<not> searches_end st b))"
proof -
  define q0 where "q0 = q\<lparr>cp_rc := SPOCP_DENIED\<rparr>"
  have q0: "idle q0" "cp_head q0 = cp_head q" "cp_rc q0 = SPOCP_DENIED" using q by (simp_all add: q0_def idle_def)
  obtain a as' where a: "as = a # as'" using as(1) by (cases as) auto
  obtain m where m: "n = Suc m" "length as' < m" using n a by (cases n) auto
  define ans where "ans = element_match_r beval num st n (Some 0) (Some (c_top (cp_head q))) q0"
  have root: "loc Root = Some 0" using flat by (simp add: flat_def)
  note node = flat_node [OF flat root, simplified]
  have id: "map_option (\<lambda>(rs, q'). (resset_join [] rs, q')) x = x" for x :: "'a answer"
    by (cases x) (auto simp: resset_join_def)
  have any: "branch_val st 0 SPOC_ANY = None" using node by (simp add: branch_val_def type_defs)
  have "answers st as d q0 ans"
  proof (cases "loc (At [])")
    case None
    then have "\<not> d" using decide_at [OF flat, of beval "cp_head q" "[]" "map akey as"] by (auto simp: d_def)
    moreover have "branch_val st 0 SPOC_LIST = None"
      using node None by (auto simp: leads_def branch_val_def split: option.splits)
    ultimately show ?thesis using q0(1) q(2) any
      by (auto simp: ans_def m(1) element_match_r.simps element_match_def c_top_def answers_def outcome_def)
  next
    case (Some l)
    have "branch_val st 0 SPOC_LIST = Some (VJunc (Some l))"
      using node Some by (auto simp: leads_def branch_val_def split: option.splits)
    then have "ans = element_match_r beval num st m (Some l) (Some (acursor a as' (map EAtom as))) q0"
      using q(2) any by (simp add: ans_def m(1) element_match_r.simps element_match_def c_top_def c_head_def id a acursor_def)
    then show ?thesis using element_match_flat [OF flat Some q0(1) _ _ m(2), of beval a num "map EAtom as"] t as(2) q0(2)
      by (simp add: a d_def)
  qed
  then show ?thesis using q0(3)
    by (auto simp: allowed_def answers_def outcome_def same_query_def ans_def q0_def [symmetric] split: if_splits)
qed

subsection \<open>A base of rules\<close>

text \<open>What storing promises: each rule that was added is kept under its key. The clients only know the
  rules that were added one after another.\<close>

locale rule_base =
  fixes inv :: "'s \<Rightarrow> ('k \<times> 'r) list \<Rightarrow> bool" and add :: "'s \<Rightarrow> 'x \<Rightarrow> 'r \<Rightarrow> 's option"
    and key :: "'x \<Rightarrow> 'k" and good :: "'x \<Rightarrow> bool"
  assumes add_inv: "inv s R \<Longrightarrow> good x \<Longrightarrow> add s x r = Some s' \<Longrightarrow> inv s' (R @ [(key x, r)])"
begin

fun adds :: "'s \<Rightarrow> ('x \<times> 'r) list \<Rightarrow> 's option" where
  "adds s [] = Some s"
| "adds s ((x, r) # rs) = (case add s x r of None \<Rightarrow> None | Some s' \<Rightarrow> adds s' rs)"

lemma adds_inv:
  assumes "inv s R" and "\<forall>x\<in>fst ` set rs. good x" and "adds s rs = Some s'"
  shows "inv s' (R @ map (map_prod key id) rs)"
  using assms
proof (induction rs arbitrary: s R)
  case (Cons p rs)
  obtain x r where p: "p = (x, r)" by fastforce
  obtain s1 where s1: "add s x r = Some s1" "adds s1 rs = Some s'"
    using Cons.prems(3) p by (auto split: option.splits)
  show ?case using Cons.IH [OF add_inv [OF Cons.prems(1) _ s1(1)] _ s1(2)] Cons.prems(2) p by simp
qed simp

end

definition list_of :: "atom list \<Rightarrow> element" where
  "list_of as = EList (map EAtom as)"

definition store_atoms :: "'r store \<Rightarrow> atom list \<Rightarrow> 'r \<Rightarrow> 'r store option" where
  "store_atoms st as ri = (case element_add st 0 (c_top (list_of as)) ri of
      Some (st', Some _) \<Rightarrow> Some st' | _ \<Rightarrow> None)"

definition atoms_ok :: "atom list \<Rightarrow> bool" where
  "atoms_ok as \<longleftrightarrow> as \<noteq> [] \<and> (\<forall>a\<in>set as. atom_ok a)"

interpretation db: rule_base "\<lambda>st R. \<exists>loc. flat st loc R" store_atoms "map akey" atoms_ok
proof
  fix st :: "'a store" and R as ri st'
  assume "\<exists>loc. flat st loc R" and "atoms_ok as" and "store_atoms st as ri = Some st'"
  then show "\<exists>loc. flat st' loc (R @ [(map akey as, ri)])"
    using element_add_flat by (fastforce simp: store_atoms_def atoms_ok_def list_of_def split: option.splits)
qed

text \<open>C1: the decision of the server. Store any sequence of rules that are lists of atoms in an empty
  tree, and ask for a query that is a list of atoms: \<open>allowed\<close> answers \<open>SPOCP_SUCCESS\<close> exactly when the
  atoms of some stored rule are a prefix of those of the query and the boundary condition of that rule
  holds. Otherwise it answers \<open>SPOCP_DENIED\<close>, unless the search for an atom in one of the hash tables
  does not return.\<close>

theorem allowed_prefix:
  assumes "db.adds (empty_tree rnd before) rules = Some st" and "\<forall>as\<in>fst ` set rules. atoms_ok as"
    and "\<forall>ri\<in>snd ` set rules. tame beval (list_of query) ri"
    and "atoms_ok query" and "idle q" and "cp_head q = list_of query" and "length query < n"
  shows "if permitted beval (list_of query) rules query
    then \<exists>rs q'. allowed beval num n st (Some 0) q = Some (SPOCP_SUCCESS, rs, q') \<and> rs \<noteq> []
    else (\<exists>q'. allowed beval num n st (Some 0) q = Some (SPOCP_DENIED, [], q')) \<or>
      allowed beval num n st (Some 0) q = None \<and> (\<exists>a\<in>set query. \<not> searches_end st a)"
proof -
  let ?R = "map (map_prod (map akey) id) rules"
  obtain loc where flat: "flat st loc ?R"
    using db.adds_inv [of "empty_tree rnd before" "[]" rules st] empty_flat [of rnd before] assms(1,2) by auto
  have "\<forall>r\<in>set ?R. tame beval (cp_head q) (snd r)" using assms(3,6) by auto
  note A = allowed_flat [OF flat assms(5) _ this _ _ assms(7), of num, unfolded assms(6) list_of_def [symmetric], OF refl]
  have ne: "fst r \<noteq> []" if "r \<in> set rules" for r using assms(2) that by (auto simp: atoms_ok_def)
  have "decide beval (list_of query) ?R [] (map akey query) \<longleftrightarrow> permitted beval (list_of query) rules query"
    unfolding decide_prefix permitted_def using ne by (simp add: bex_simps)
  then show ?thesis using A assms(4) by (auto simp: atoms_ok_def)
qed

text \<open>Storing returns when the insertion into the hash table does.\<close>

lemma add_next_returns:
  assumes flat: "flat st loc R" and j: "loc (At p) = Some j"
  shows "\<exists>st' n. add_next st j (acursor a [] es) ri = Some (st', Some n)"
proof -
  obtain st1 e where 1: "list_end st j = Some (st1, e)"
    using flat_node [OF flat j] by (auto simp: list_end_def leads_def junc_new_def split: option.splits)
  obtain loc' where 2: "flat st1 loc' R" "loc' (End p) = Some e" using list_end_flat [OF flat j 1] by blast
  have "rule_end st1 e ri \<noteq> None"
  proof (cases "ARRFIND st1 e SPOC_ENDOFRULE")
    case None
    then show ?thesis by (simp add: rule_end_def index_add_def index_new_def)
  next
    case (Some bp)
    then obtain i where i: "br_val bp = VId (Some i)" "length (si_arr i) \<le> si_size i" "0 < si_size i"
      using flat_node [OF 2] by (auto simp: ends_def)
    obtain i' where "index_add (Some i) (Some ri) = Some (Some i')" using index_add_grows [OF i(2,3)] by metis
    then show ?thesis using Some i(1) by (simp add: rule_end_def)
  qed
  then obtain st2 n where "rule_end st1 e ri = Some (st2, n)" by auto
  then show ?thesis using 1
    by (simp add: add_next.simps [of _ _ "acursor a [] es"] c_next_acursor) (simp add: acursor_def c_next_def)
qed

lemma store_first:
  assumes a: "atom_ok a"
  shows "\<exists>st. store_atoms (empty_tree rnd before :: 'r store) [a] ri = Some st"
proof -
  define st where "st = (empty_tree rnd before :: 'r store)"
  have flat: "flat st [Root \<mapsto> 0] []" unfolding st_def by (rule empty_flat)
  obtain bp st2 lj loc1 where 1: "ARRFIND (enter_branch st 0 SPOC_LIST) 0 SPOC_LIST = Some bp"
    "list_junc (enter_branch st 0 SPOC_LIST) 0 bp = Some (st2, lj)" and 2: "flat st2 loc1 []" "loc1 (At []) = Some lj"
    and no: "ARRFIND st2 lj = (\<lambda>t. None)"
    using list_junc_flat [OF flat] by (metis fun_upd_apply label.distinct(1) option.distinct(1))
  have ll: "lj < length (st_juncs st2)" using flat_bound [OF 2] .
  obtain b where "ARRFIND (enter_branch st2 lj SPOC_ATOM) = (ARRFIND st2)(lj := (ARRFIND st2 lj)(SPOC_ATOM \<mapsto> b))"
    "br_val b = (case ARRFIND st2 lj SPOC_ATOM of None \<Rightarrow> zero_val SPOC_ATOM | Some b \<Rightarrow> br_val b)"
    using enter_branch_get [OF flat_shaped [OF 2(1)] ll types_less(1)] no by (metis option.distinct(1))
  then have b: "ARRFIND (enter_branch st2 lj SPOC_ATOM) lj SPOC_ATOM = Some b" "br_val b = VAtom None"
    using no by (simp_all add: zero_val_def type_defs)
  obtain ht and bu :: "nat buck" where "phash_insert (length prime) (phash_new 3 50) (a_val a) (a_hash a) = Some (ht, bu)"
    using new_insert [of "a_val a" "length prime"] a by (auto simp: atom_ok_def)
  then obtain st3 n where 3: "atom_add (enter_branch st2 lj SPOC_ATOM) lj b a = Some (st3, n)"
    using b(2) by (auto simp: atom_add_def Let_def)
  obtain loc3 where 4: "flat st3 loc3 []" "loc3 (At ([] @ [akey a])) = Some n"
    using atom_add_flat [OF 2 a 3 b(1)] by blast
  obtain st4 m where 5: "add_next st3 n (acursor a [] (map EAtom [a])) ri = Some (st4, Some m)"
    using add_next_returns [OF 4] by blast
  have "element_add st2 lj (acursor a [] (map EAtom [a])) ri = Some (st4, Some m)"
    using b(1) 3 5 by (simp add: element_add.simps [of st2] leaf_add_def)
  then have "element_add st 0 (c_top (EList (map EAtom [a]))) ri = Some (st4, Some m)"
    using element_add_list [OF 1, of a "[]" ri] by simp
  then show ?thesis by (simp add: store_atoms_def list_of_def st_def)
qed

definition atom_of :: "bytes \<Rightarrow> atom" where
  "atom_of s = \<lparr>a_hash = bj_hash s 0, a_val = mk_octet s\<rparr>"

lemma atom_of_ok: "length s < 2 ^ 31 \<Longrightarrow> atom_ok (atom_of s)"
  by (simp add: atom_ok_def atom_of_def wf_mk_octet)

definition read_rule :: "unit ruleinst" where
  "read_rule = \<lparr>ri_uid = ''1'', ri_rule = mk_octet ''(4:read)'', ri_blob = None, ri_bcexp = None, ri_ep = None, ri_bcond = None\<rparr>"

definition ask :: "element \<Rightarrow> unit comparam" where
  "ask h = \<lparr>cp_head = h, cp_blob = None, cp_rc = SPOCP_DENIED, cp_all = False, cp_nobe = False, cp_cr = []\<rparr>"

theorem allowed_prefix_witness:
  "\<exists>st rs q'. db.adds (empty_tree (\<lambda>i. 0) [NUL]) [([atom_of ''read''], read_rule)] = Some st \<and>
    allowed (\<lambda>h ri. None) 0 5 st (Some 0) (ask (list_of [atom_of ''read'', atom_of ''file''])) =
      Some (SPOCP_SUCCESS, rs, q')"
proof -
  have ok: "atom_ok (atom_of ''read'')" "atom_ok (atom_of ''file'')" by (simp_all add: atom_of_ok)
  obtain st where st: "store_atoms (empty_tree (\<lambda>i. 0) [NUL]) [atom_of ''read''] read_rule = Some st"
    using store_first [OF ok(1), of "\<lambda>i. 0" "[NUL]" read_rule] by auto
  then have adds: "db.adds (empty_tree (\<lambda>i. 0) [NUL]) [([atom_of ''read''], read_rule)] = Some st" by simp
  have "permitted (\<lambda>h ri. None) (list_of [atom_of ''read'', atom_of ''file'']) [([atom_of ''read''], read_rule)]
      [atom_of ''read'', atom_of ''file'']"
    by (simp add: permitted_def cond_ok_def read_rule_def)
  then show ?thesis
    using allowed_prefix [OF adds, of "\<lambda>h ri. None" "[atom_of ''read'', atom_of ''file'']" "ask (list_of [atom_of ''read'', atom_of ''file''])" 5 0] ok adds
    by (auto simp: atoms_ok_def tame_def blob_ok_def read_rule_def idle_def ask_def)
qed

end
