(* ===== verification/Sha1.thy ===== *)
theory Sha1
  imports Octet
begin

unbundle bit_operations_syntax

text \<open>
  The SHA-1 implementation of \<open>lib/sha1.c\<close>, which names the rules of the database. The
  source calls its words \<^verbatim>\<open>uint32\<close> but defines them as \<^verbatim>\<open>unsigned long\<close>, 64 bits wide, so
  the model computes on \<open>64 word\<close>: bits above the 32nd are never cleared in between, except
  in the two places that mask. The five state words rotate through the variables A to E, so
  that one application of the macro \<^verbatim>\<open>P\<close> followed by the renaming of its arguments is one
  function on the five-tuple, and after 80 of them every word is back in its place.

  \<open>sha1_ref\<close> is SHA-1 as FIPS 180 defines it, on 32-bit words. The main lemma is that the
  implementation, fed in any number of pieces, computes it.
\<close>

type_synonym w64 = "64 word"
type_synonym 'a five = "'a \<times> 'a \<times> 'a \<times> 'a \<times> 'a"

record sha1_context =
  sh_total0 :: w64
  sh_total1 :: w64
  sh_state :: "w64 five"
  sh_buffer :: bytes

definition GET_UINT32 :: "bytes \<Rightarrow> nat \<Rightarrow> w64" where
  "GET_UINT32 b i = of_char (b ! (i + 3)) OR push_bit 8 (of_char (b ! (i + 2)))
     OR push_bit 16 (of_char (b ! (i + 1))) OR push_bit 24 (of_char (b ! i))"

definition PUT_UINT32 :: "w64 \<Rightarrow> bytes" where
  "PUT_UINT32 n = [char_of (unat (drop_bit 24 n AND 0xFF)), char_of (unat (drop_bit 16 n AND 0xFF)),
     char_of (unat (drop_bit 8 n AND 0xFF)), char_of (unat (n AND 0xFF))]"

definition sha1_init :: "w64 five" where
  "sha1_init = (0x67452301, 0xEFCDAB89, 0x98BADCFE, 0x10325476, 0xC3D2E1F0)"

text \<open>\<open>sha1_starts\<close> leaves the buffer as it is.\<close>

definition sha1_starts :: "bytes \<Rightarrow> sha1_context" where
  "sha1_starts buf = \<lparr>sh_total0 = 0, sh_total1 = 0, sh_state = sha1_init, sh_buffer = buf\<rparr>"

subsection \<open>One block\<close>

definition S64 :: "w64 \<Rightarrow> nat \<Rightarrow> w64" where
  "S64 x n = push_bit n x OR drop_bit (32 - n) (x AND 0xFFFFFFFF)"

definition F64 :: "nat \<Rightarrow> w64 \<Rightarrow> w64 \<Rightarrow> w64 \<Rightarrow> w64" where
  "F64 t x y z =
     (if t < 20 then z XOR (x AND (y XOR z))
      else if t < 40 then x XOR y XOR z
      else if t < 60 then (x AND y) OR (z AND (x OR y))
      else x XOR y XOR z)"

definition K64 :: "nat \<Rightarrow> w64" where
  "K64 t = (if t < 20 then 0x5A827999 else if t < 40 then 0x6ED9EBA1
            else if t < 60 then 0x8F1BBCDC else 0xCA62C1D6)"

definition P64 :: "nat \<Rightarrow> w64 \<Rightarrow> w64 five \<Rightarrow> w64 five" where
  "P64 t x s = (case s of (a, b, c, d, e) \<Rightarrow>
     (e + (S64 a 5 + F64 t b c d + K64 t + x), a, S64 b 30, c, d))"

text \<open>The ring of 16 message words: from the 16th round on, \<open>R(t)\<close> replaces one of them.\<close>

definition R64 :: "w64 list \<Rightarrow> nat \<Rightarrow> w64 list" where
  "R64 W t = W[t mod 16 := S64 (W ! ((t - 3) mod 16) XOR W ! ((t - 8) mod 16)
     XOR W ! ((t - 14) mod 16) XOR W ! (t mod 16)) 1]"

definition round64 :: "w64 list \<times> w64 five \<Rightarrow> nat \<Rightarrow> w64 list \<times> w64 five" where
  "round64 Ws t = (let W = (if t < 16 then fst Ws else R64 (fst Ws) t)
                   in (W, P64 t (W ! (t mod 16)) (snd Ws)))"

definition add5 :: "'a::plus five \<Rightarrow> 'a five \<Rightarrow> 'a five" where
  "add5 s r = (case s of (a, b, c, d, e) \<Rightarrow> case r of (a', b', c', d', e') \<Rightarrow>
     (a + a', b + b', c + c', d + d', e + e'))"

definition sha1_process :: "w64 five \<Rightarrow> bytes \<Rightarrow> w64 five" where
  "sha1_process st data =
     (let W = map (\<lambda>i. GET_UINT32 data (4 * i)) [0..<16]
      in add5 st (snd (foldl round64 (W, st) [0..<80])))"

subsection \<open>Streaming\<close>

function sha1_blocks :: "w64 five \<Rightarrow> bytes \<Rightarrow> w64 five \<times> bytes" where
  "sha1_blocks st data =
     (if 64 \<le> length data then sha1_blocks (sha1_process st (take 64 data)) (drop 64 data)
      else (st, data))"
  by pat_completeness auto
termination
  by (relation "measure (\<lambda>(st, data). length data)") auto

declare sha1_blocks.simps [simp del]

text \<open>\<open>sha1_update\<close> reads \<open>len\<close> bytes from \<open>input\<close>.\<close>

definition sha1_update :: "sha1_context \<Rightarrow> bytes \<Rightarrow> nat \<Rightarrow> sha1_context option" where
  "sha1_update ctx input len =
     (if len = 0 then Some ctx
      else do {
        data \<leftarrow> rdn input len;
        let left = unat (drop_bit 3 (sh_total0 ctx) AND 0x3F);
        let fill = 64 - left;
        let l3 = push_bit 3 (of_nat len);
        let t0 = (sh_total0 ctx + l3) AND 0xFFFFFFFF;
        let t1 = sh_total1 ctx + drop_bit 29 (of_nat len) + (if t0 < l3 then 1 else 0);
        let (st, buf, data', left') =
          (if left \<noteq> 0 \<and> fill \<le> len
           then (let buf = take left (sh_buffer ctx) @ take fill data
                 in (sha1_process (sh_state ctx) buf, buf, drop fill data, 0))
           else (sh_state ctx, sh_buffer ctx, data, left));
        let (st', rest) = sha1_blocks st data';
        buf' \<leftarrow> wr buf left' rest;
        Some \<lparr>sh_total0 = t0, sh_total1 = t1, sh_state = st', sh_buffer = buf'\<rparr> })"

definition sha1_padding :: bytes where
  "sha1_padding = CHR 0x80 # replicate 63 NUL"

definition sha1_finish :: "sha1_context \<Rightarrow> bytes option" where
  "sha1_finish ctx = do {
     let msglen = PUT_UINT32 (sh_total1 ctx) @ PUT_UINT32 (sh_total0 ctx);
     let last = unat (drop_bit 3 (sh_total0 ctx) AND 0x3F);
     let padn = (if last < 56 then 56 - last else 120 - last);
     ctx1 \<leftarrow> sha1_update ctx sha1_padding padn;
     ctx2 \<leftarrow> sha1_update ctx1 msglen 8;
     case sh_state ctx2 of (a, b, c, d, e) \<Rightarrow>
       Some (PUT_UINT32 a @ PUT_UINT32 b @ PUT_UINT32 c @ PUT_UINT32 d @ PUT_UINT32 e) }"

subsection \<open>SHA-1 on 32-bit words\<close>

type_synonym w32 = "32 word"

definition rotl32 :: "nat \<Rightarrow> w32 \<Rightarrow> w32" where
  "rotl32 n x = push_bit n x OR drop_bit (32 - n) x"

definition f_ref :: "nat \<Rightarrow> w32 \<Rightarrow> w32 \<Rightarrow> w32 \<Rightarrow> w32" where
  "f_ref t x y z =
     (if t < 20 then (x AND y) XOR (NOT x AND z)
      else if t < 40 then x XOR y XOR z
      else if t < 60 then (x AND y) XOR (x AND z) XOR (y AND z)
      else x XOR y XOR z)"

definition k_ref :: "nat \<Rightarrow> w32" where
  "k_ref t = (if t < 20 then 0x5A827999 else if t < 40 then 0x6ED9EBA1
              else if t < 60 then 0x8F1BBCDC else 0xCA62C1D6)"

text \<open>The message schedule of 80 words.\<close>

fun w_ref :: "bytes \<Rightarrow> nat \<Rightarrow> w32" where
  "w_ref block t =
     (if t < 16 then push_bit 24 (of_char (block ! (4 * t))) OR push_bit 16 (of_char (block ! (4 * t + 1)))
        OR push_bit 8 (of_char (block ! (4 * t + 2))) OR of_char (block ! (4 * t + 3))
      else rotl32 1 (w_ref block (t - 3) XOR w_ref block (t - 8) XOR w_ref block (t - 14)
        XOR w_ref block (t - 16)))"

declare w_ref.simps [simp del]

definition round_ref :: "bytes \<Rightarrow> w32 five \<Rightarrow> nat \<Rightarrow> w32 five" where
  "round_ref block s t = (case s of (a, b, c, d, e) \<Rightarrow>
     (rotl32 5 a + f_ref t b c d + e + k_ref t + w_ref block t, a, rotl32 30 b, c, d))"

definition compress_ref :: "w32 five \<Rightarrow> bytes \<Rightarrow> w32 five" where
  "compress_ref st block = add5 st (foldl (round_ref block) st [0..<80])"

function blocks_ref :: "w32 five \<Rightarrow> bytes \<Rightarrow> w32 five" where
  "blocks_ref st m = (if 64 \<le> length m then blocks_ref (compress_ref st (take 64 m)) (drop 64 m) else st)"
  by pat_completeness auto
termination
  by (relation "measure (\<lambda>(st, m). length m)") auto

declare blocks_ref.simps [simp del]

definition be_bytes :: "nat \<Rightarrow> nat \<Rightarrow> bytes" where
  "be_bytes k n = map (\<lambda>i. char_of (n div 256 ^ (k - Suc i) mod 256)) [0..<k]"

text \<open>Padding: a one bit, zeros up to 56 bytes modulo 64, and the length in bits.\<close>

definition pad_ref :: "bytes \<Rightarrow> bytes" where
  "pad_ref m = m @ CHR 0x80 # replicate ((119 - length m mod 64) mod 64) NUL @ be_bytes 8 (8 * length m)"

definition sha1_ref :: "bytes \<Rightarrow> bytes" where
  "sha1_ref m = (case blocks_ref (0x67452301, 0xEFCDAB89, 0x98BADCFE, 0x10325476, 0xC3D2E1F0) (pad_ref m)
     of (a, b, c, d, e) \<Rightarrow> concat (map (be_bytes 4 \<circ> unat) [a, b, c, d, e]))"

subsection \<open>The low halves of the words\<close>

definition lo :: "w64 \<Rightarrow> w32" where
  "lo x = ucast x"

definition lo5 :: "w64 five \<Rightarrow> w32 five" where
  "lo5 s = (case s of (a, b, c, d, e) \<Rightarrow> (lo a, lo b, lo c, lo d, lo e))"

lemma bit_lo: "bit (lo x) i \<longleftrightarrow> i < 32 \<and> bit x i"
  by (auto simp: lo_def bit_ucast_iff dest: bit_imp_le_length)

lemma lo_word_of_int: "lo x = word_of_int (uint x)"
  by (simp add: lo_def)

lemma lo_add [simp]: "lo (x + y) = lo x + lo y"
proof -
  have "uint (x + y) mod 2 ^ 32 = (uint x + uint y) mod 2 ^ 32"
    by (simp add: uint_word_ariths mod_mod_cancel)
  then have "(word_of_int (uint (x + y)) :: w32) = word_of_int (uint x + uint y)"
    unfolding word_of_int_eq_iff take_bit_eq_mod by simp
  then show ?thesis by (simp only: lo_word_of_int of_int_add)
qed

lemma lo_bitwise [simp]:
  "lo (x AND y) = lo x AND lo y" "lo (x OR y) = lo x OR lo y" "lo (x XOR y) = lo x XOR lo y"
  by (rule bit_eqI, auto simp: bit_lo bit_and_iff bit_or_iff bit_xor_iff)+

lemma mask32: "x AND 0xFFFFFFFF = take_bit 32 (x :: w64)"
proof -
  have "(0xFFFFFFFF :: w64) = mask 32" by (simp add: mask_eq_exp_minus_1)
  then show ?thesis by (simp only: take_bit_eq_mask)
qed

lemma lo_S64 [simp]: "n \<le> 32 \<Longrightarrow> lo (S64 x n) = rotl32 n (lo x)"
  unfolding S64_def mask32
  by (rule bit_eqI) (auto simp: bit_lo rotl32_def bit_or_iff bit_push_bit_iff bit_drop_bit_eq bit_take_bit_iff)

lemma lo_F64 [simp]: "lo (F64 t x y z) = f_ref t (lo x) (lo y) (lo z)"
  by (rule bit_eqI) (auto simp: F64_def f_ref_def bit_lo bit_or_iff bit_and_iff bit_xor_iff bit_not_iff)

lemma lo_K64 [simp]: "lo (K64 t) = k_ref t"
  by (auto simp: K64_def k_ref_def lo_def)

subsection \<open>One block agrees\<close>

lemma lo_of_nat [simp]: "lo (of_nat n) = of_nat n"
proof (induction n)
  case (Suc n)
  have "lo (of_nat (Suc n)) = lo 1 + lo (of_nat n)" by (simp only: of_nat_Suc lo_add)
  moreover have "lo 1 = 1" by (simp add: lo_def)
  ultimately show ?case using Suc by simp
qed (simp add: lo_def)

lemma lo_of_char [simp]: "lo (of_char c) = of_char c"
  using lo_of_nat [of "of_char c"] by (simp only: of_nat_of_char)

lemma lo_push_bit [simp]: "lo (push_bit n x) = push_bit n (lo x)"
  by (rule bit_eqI) (auto simp: bit_lo bit_push_bit_iff)

lemma lo_GET_UINT32: "lo (GET_UINT32 b i) =
  push_bit 24 (of_char (b ! i)) OR push_bit 16 (of_char (b ! (i + 1)))
    OR push_bit 8 (of_char (b ! (i + 2))) OR of_char (b ! (i + 3))"
  unfolding GET_UINT32_def by (simp add: or.commute or.left_commute)

lemma lo_P64: "lo5 (P64 t x s) = (case lo5 s of (a, b, c, d, e) \<Rightarrow>
    (rotl32 5 a + f_ref t b c d + e + k_ref t + lo x, a, rotl32 30 b, c, d))"
  by (cases s) (simp add: P64_def lo5_def)

text \<open>The ring holds the last 16 words of the schedule.\<close>

definition ring_ok :: "bytes \<Rightarrow> nat \<Rightarrow> w64 list \<Rightarrow> bool" where
  "ring_ok block t W \<longleftrightarrow> length W = 16 \<and>
     (\<forall>j<t. t \<le> j + 16 \<longrightarrow> lo (W ! (j mod 16)) = w_ref block j)"

lemma mod16_inj:
  assumes "i < j" "j < i + 16"
  shows "i mod 16 \<noteq> j mod (16::nat)"
proof
  assume "i mod 16 = j mod 16"
  then have "16 dvd j - i" using assms(1) by (simp add: mod_eq_dvd_iff_nat [of i j 16, symmetric])
  then show False using assms by (auto dest: dvd_imp_le)
qed

lemma ring_step:
  assumes ok: "ring_ok block t W" and t: "16 \<le> t"
  shows "ring_ok block (Suc t) (R64 W t)"
proof -
  have l: "length W = 16" using ok by (simp add: ring_ok_def)
  have w: "lo (W ! ((t - k) mod 16)) = w_ref block (t - k)" if "0 < k" "k \<le> 16" for k
    using ok that t by (auto simp: ring_ok_def)
  have "(t - 16) mod 16 = t mod 16" using t by (simp add: le_mod_geq)
  then have w16: "lo (W ! (t mod 16)) = w_ref block (t - 16)" using w [of 16] by simp
  have "w_ref block t = rotl32 1 (w_ref block (t - 3) XOR w_ref block (t - 8) XOR w_ref block (t - 14)
      XOR w_ref block (t - 16))" using t by (subst w_ref.simps) simp
  moreover have "R64 W t ! (t mod 16) = S64 (W ! ((t - 3) mod 16) XOR W ! ((t - 8) mod 16)
     XOR W ! ((t - 14) mod 16) XOR W ! (t mod 16)) 1" using l by (simp add: R64_def)
  ultimately have new: "lo (R64 W t ! (t mod 16)) = w_ref block t"
    using w [of 3] w [of 8] w [of 14] w16 by simp
  have "lo (R64 W t ! (j mod 16)) = w_ref block j" if j: "j < Suc t" "Suc t \<le> j + 16" for j
  proof (cases "j = t")
    case True
    then show ?thesis using new by simp
  next
    case False
    then have "j mod 16 \<noteq> t mod 16" using j mod16_inj [of j t] by simp
    then show ?thesis using ok j False by (simp add: R64_def ring_ok_def)
  qed
  then show ?thesis using l by (simp add: ring_ok_def R64_def)
qed

lemma ring_init: "t \<le> 16 \<Longrightarrow> ring_ok block t (map (\<lambda>i. GET_UINT32 block (4 * i)) [0..<16])"
  by (auto simp: ring_ok_def lo_GET_UINT32 w_ref.simps)

lemma rounds_agree:
  assumes "n \<le> 80"
  shows "\<exists>W st. foldl round64 (map (\<lambda>i. GET_UINT32 block (4 * i)) [0..<16], s) [0..<n] = (W, st) \<and>
    ring_ok block n W \<and> (n \<le> 16 \<longrightarrow> W = map (\<lambda>i. GET_UINT32 block (4 * i)) [0..<16]) \<and>
    lo5 st = foldl (round_ref block) (lo5 s) [0..<n]"
  using assms
proof (induction n)
  case 0
  then show ?case using ring_init [of 0 block] by simp
next
  case (Suc n)
  then obtain W st where IH: "foldl round64 (map (\<lambda>i. GET_UINT32 block (4 * i)) [0..<16], s) [0..<n] = (W, st)"
    "ring_ok block n W" "n \<le> 16 \<longrightarrow> W = map (\<lambda>i. GET_UINT32 block (4 * i)) [0..<16]"
    "lo5 st = foldl (round_ref block) (lo5 s) [0..<n]" by auto
  define W' where "W' = (if n < 16 then W else R64 W n)"
  have W': "ring_ok block (Suc n) W'"
    using IH(2,3) ring_step [of block n W] ring_init [of "Suc n" block] by (auto simp: W'_def)
  then have x: "lo (W' ! (n mod 16)) = w_ref block n" by (simp add: ring_ok_def)
  have "round64 (W, st) n = (W', P64 n (W' ! (n mod 16)) st)" by (simp add: round64_def W'_def Let_def)
  moreover have "lo5 (P64 n (W' ! (n mod 16)) st) = round_ref block (lo5 st) n"
    by (simp add: lo_P64 x round_ref_def split: prod.splits)
  ultimately show ?case using IH W' by (auto simp: W'_def)
qed

lemma lo5_add5: "lo5 (add5 s r) = add5 (lo5 s) (lo5 r)"
  by (cases s, cases r) (simp add: lo5_def add5_def)

lemma sha1_process_ref: "lo5 (sha1_process st block) = compress_ref (lo5 st) block"
proof -
  obtain W s where "foldl round64 (map (\<lambda>i. GET_UINT32 block (4 * i)) [0..<16], st) [0..<80] = (W, s)"
    "lo5 s = foldl (round_ref block) (lo5 st) [0..<80]" using rounds_agree [of 80 block st] by blast
  then show ?thesis by (simp only: sha1_process_def Let_def snd_conv lo5_add5 compress_ref_def)
qed

subsection \<open>Streams of blocks\<close>

lemma sha1_blocks_ref:
  "lo5 (fst (sha1_blocks st m)) = blocks_ref (lo5 st) m \<and>
   snd (sha1_blocks st m) = drop (64 * (length m div 64)) m"
proof (induction st m rule: sha1_blocks.induct)
  case (1 st m)
  show ?case
  proof (cases "64 \<le> length m")
    case True
    then have d: "length m div 64 = Suc ((length m - 64) div 64)" by (simp add: le_div_geq)
    show ?thesis using 1 True
      by (subst sha1_blocks.simps, subst sha1_blocks.simps, subst blocks_ref.simps)
        (simp add: sha1_process_ref d add.commute)
  next
    case False
    then show ?thesis by (subst sha1_blocks.simps, subst sha1_blocks.simps, subst blocks_ref.simps) simp
  qed
qed

lemma blocks_ref_append:
  "length a mod 64 = 0 \<Longrightarrow> blocks_ref st (a @ b) = blocks_ref (blocks_ref st a) b"
proof (induction st a rule: blocks_ref.induct)
  case (1 st a)
  show ?case
  proof (cases "64 \<le> length a")
    case True
    then have "(length a - 64) mod 64 = 0" using "1.prems" by (simp add: le_mod_geq)
    moreover have "blocks_ref st (a @ b) = blocks_ref (compress_ref st (take 64 a)) (drop 64 a @ b)"
      using True by (subst blocks_ref.simps) simp
    moreover have "blocks_ref st a = blocks_ref (compress_ref st (take 64 a)) (drop 64 a)"
      using True by (subst blocks_ref.simps) simp
    ultimately show ?thesis using True "1.IH" by simp
  next
    case False
    then have "a = []" using "1.prems" by simp
    moreover have "blocks_ref st [] = st" by (subst blocks_ref.simps) simp
    ultimately show ?thesis by simp
  qed
qed

lemma blocks_ref_short: "length m < 64 \<Longrightarrow> blocks_ref st m = st"
  by (subst blocks_ref.simps) simp

lemma blocks_ref_one: "length b = 64 \<Longrightarrow> blocks_ref st b = compress_ref st b"
  using blocks_ref_short [of "[]"] by (subst blocks_ref.simps) simp

text \<open>The loop over the blocks consumes whole blocks and leaves less than one.\<close>

lemma sha1_blocks_split:
  obtains a b where "m = a @ b" "length a mod 64 = 0" "length b < 64"
    "snd (sha1_blocks st m) = b" "lo5 (fst (sha1_blocks st m)) = blocks_ref (lo5 st) a"
proof -
  define k where "k = 64 * (length m div 64)"
  have k: "k \<le> length m" "length m - k = length m mod 64" "k mod 64 = 0"
    using minus_mult_div_eq_mod [of "length m" 64] by (auto simp: k_def)
  have l: "length (take k m) mod 64 = 0" "length (drop k m) < 64" using k by auto
  have "blocks_ref (lo5 st) m = blocks_ref (lo5 st) (take k m @ drop k m)" by simp
  also have "\<dots> = blocks_ref (lo5 st) (take k m)"
    unfolding blocks_ref_append [OF l(1)] by (rule blocks_ref_short [OF l(2)])
  finally show thesis using that [of "take k m" "drop k m"] l sha1_blocks_ref [of st m]
    by (simp add: k_def)
qed

subsection \<open>The bit count\<close>

lemma unat_AND_63: "unat (drop_bit 3 x AND 0x3F) = unat (x :: w64) div 8 mod 64"
proof -
  have "(0x3F :: w64) = mask 6" by (simp add: mask_eq_exp_minus_1)
  then have "drop_bit 3 x AND 0x3F = take_bit 6 (drop_bit 3 x)" by (simp only: take_bit_eq_mask)
  then have "unat (drop_bit 3 x AND 0x3F) = take_bit 6 (drop_bit 3 (unat x))"
    by (simp only: unsigned_take_bit_eq unsigned_drop_bit_eq) (simp add: take_bit_drop_bit)
  then show ?thesis by (simp add: take_bit_eq_mod drop_bit_eq_div)
qed

lemma unat_bits:
  assumes "n < 2 ^ 29"
  shows "unat (push_bit 3 (of_nat n) :: w64) = 8 * n" "drop_bit 29 (of_nat n) = (0 :: w64)"
proof -
  have "push_bit 3 (of_nat n) = (of_nat (8 * n) :: w64)" by (simp add: push_bit_eq_mult)
  moreover have "unat (of_nat (8 * n) :: w64) = 8 * n" using assms
    unfolding unat_of_nat by (intro mod_less) simp
  ultimately show "unat (push_bit 3 (of_nat n) :: w64) = 8 * n" by (simp only:)
  have "unat (drop_bit 29 (of_nat n) :: w64) = 0"
  proof -
    have "unat (of_nat n :: w64) = n" using assms unfolding unat_of_nat by (intro mod_less) simp
    moreover have "take_bit 64 n = n" using assms by (intro take_bit_nat_eq_self) simp
    ultimately show ?thesis unfolding unsigned_drop_bit_eq using assms by (simp add: drop_bit_eq_div)
  qed
  then show "drop_bit 29 (of_nat n) = (0 :: w64)" using unat_eq_zero by blast
qed

lemma total_step:
  fixes t0 t1 :: w64
  assumes n: "n < 2 ^ 29" and L: "L + n < 2 ^ 61"
    and t: "unat t0 = 8 * L mod 2 ^ 32" "unat t1 = 8 * L div 2 ^ 32"
  defines "l3 \<equiv> push_bit 3 (of_nat n) :: w64"
  defines "t0' \<equiv> (t0 + l3) AND 0xFFFFFFFF"
  shows "unat t0' = 8 * (L + n) mod 2 ^ 32"
    "unat (t1 + drop_bit 29 (of_nat n) + (if t0' < l3 then 1 else 0)) = 8 * (L + n) div 2 ^ 32"
proof -
  have l3: "unat l3 = 8 * n" using unat_bits [OF n] by (simp add: l3_def)
  have lt: "unat t0 < 2 ^ 32" using t(1) by simp
  have "unat (t0 + l3) = unat t0 + 8 * n" using l3 lt n by (simp add: unat_word_ariths)
  then have u: "unat t0' = (unat t0 + 8 * n) mod 2 ^ 32"
    unfolding t0'_def mask32 unsigned_take_bit_eq by (simp add: take_bit_eq_mod)
  then show "unat t0' = 8 * (L + n) mod 2 ^ 32" using t(1) by (simp add: mod_simps algebra_simps)
  define c where "c = (if t0' < l3 then 1 else 0 :: nat)"
  have cc: "c = (unat t0 + 8 * n) div 2 ^ 32"
  proof (cases "unat t0 + 8 * n < 2 ^ 32")
    case True
    then show ?thesis using u l3 by (simp add: c_def word_less_nat_alt)
  next
    case False
    then have "(unat t0 + 8 * n) mod 2 ^ 32 = unat t0 + 8 * n - 2 ^ 32" "(unat t0 + 8 * n) div 2 ^ 32 = 1"
      using lt n by (auto simp: le_mod_geq le_div_geq)
    then show ?thesis using u l3 lt by (simp add: c_def word_less_nat_alt)
  qed
  have "8 * (L + n) = 2 ^ 32 * (8 * L div 2 ^ 32) + (8 * L mod 2 ^ 32 + 8 * n)"
  proof -
    have gen: "8 * (L + n) = A + (B + 8 * n)" if "8 * L = A + B" for A B using that by simp
    show ?thesis by (rule gen) (simp only: mult_div_mod_eq)
  qed
  then have s: "8 * (L + n) div 2 ^ 32 = unat t1 + c" using cc t by (simp only: div_mult_self4) simp
  have "unat t1 + c < 2 ^ 64" using s L by (auto simp: less_mult_imp_div_less)
  then have "unat (t1 + of_nat c) = unat t1 + c"
    by (simp add: unat_word_ariths c_def split: if_splits)
  then show "unat (t1 + drop_bit 29 (of_nat n) + (if t0' < l3 then 1 else 0)) = 8 * (L + n) div 2 ^ 32"
    using s unat_bits(2) [OF n] by (simp add: c_def split: if_splits)
qed

subsection \<open>Updating\<close>

abbreviation init_ref :: "w32 five" where
  "init_ref \<equiv> (0x67452301, 0xEFCDAB89, 0x98BADCFE, 0x10325476, 0xC3D2E1F0)"

text \<open>A context stands for the bytes it has been given: whole blocks that are in the state,
  and the rest of the last block in the buffer.\<close>

definition sha_rep :: "sha1_context \<Rightarrow> bytes \<Rightarrow> bool" where
  "sha_rep ctx m \<longleftrightarrow>
     unat (sh_total0 ctx) = 8 * length m mod 2 ^ 32 \<and> unat (sh_total1 ctx) = 8 * length m div 2 ^ 32 \<and>
     length (sh_buffer ctx) = 64 \<and>
     (\<exists>a b. m = a @ b \<and> length a mod 64 = 0 \<and> length b < 64 \<and> take (length b) (sh_buffer ctx) = b \<and>
        lo5 (sh_state ctx) = blocks_ref init_ref a)"

lemma sha_rep_starts: "length buf = 64 \<Longrightarrow> sha_rep (sha1_starts buf) []"
  using blocks_ref_short [of "[]" init_ref]
  by (simp add: sha_rep_def sha1_starts_def sha1_init_def lo5_def) (simp add: lo_def)

lemma sha_left:
  assumes "sha_rep ctx m"
  shows "unat (drop_bit 3 (sh_total0 ctx) AND 0x3F) = length m mod 64"
proof -
  have "8 * length m mod 2 ^ 32 = 8 * (length m mod 2 ^ 29)"
    using mult_mod_right [of 8 "length m" "2 ^ 29"] by simp
  then have "8 * length m mod 2 ^ 32 div 8 = length m mod 2 ^ 29" by simp
  then have "unat (drop_bit 3 (sh_total0 ctx) AND 0x3F) = length m mod 2 ^ 29 mod 64"
    using assms by (simp only: unat_AND_63 sha_rep_def)
  also have "\<dots> = length m mod 64" by (rule mod_mod_cancel) simp
  finally show ?thesis .
qed

text \<open>What the buffers of \<open>sha1_update\<close> hold after the new bytes, in the two cases of the
  code: the new bytes complete the block in the buffer, or the buffer is empty or not
  filled.\<close>

lemma update_fill:
  assumes st: "lo5 st = blocks_ref init_ref a" and a: "length a mod 64 = 0"
    and b: "b @ x = buf" "length buf = 64"
  shows "\<exists>a' b' buf'. (a @ b) @ (x @ d) = a' @ b' \<and> length a' mod 64 = 0 \<and> length b' < 64 \<and>
    wr buf 0 (snd (sha1_blocks (sha1_process st buf) d)) = Some buf' \<and> length buf' = 64 \<and>
    take (length b') buf' = b' \<and>
    lo5 (fst (sha1_blocks (sha1_process st buf) d)) = blocks_ref init_ref a'"
proof -
  obtain d1 d2 where d: "d = d1 @ d2" "length d1 mod 64 = 0" "length d2 < 64"
    "snd (sha1_blocks (sha1_process st buf) d) = d2"
    "lo5 (fst (sha1_blocks (sha1_process st buf) d)) = blocks_ref (lo5 (sha1_process st buf)) d1"
    by (rule sha1_blocks_split)
  have "blocks_ref init_ref (a @ buf @ d1) = blocks_ref (compress_ref (lo5 st) buf) d1"
    using a b(2) st by (simp add: blocks_ref_append blocks_ref_one)
  then have "lo5 (fst (sha1_blocks (sha1_process st buf) d)) = blocks_ref init_ref (a @ buf @ d1)"
    by (simp only: d(5) sha1_process_ref)
  moreover have "length (a @ buf @ d1) mod 64 = 0" using a b(2) d(2) by (simp add: mod_add_eq [symmetric])
  moreover obtain buf' where "wr buf 0 d2 = Some buf'" "length buf' = 64" "take (length d2) buf' = d2"
    using b(2) d(3) by (auto simp: wr_def)
  moreover have "(a @ b) @ (x @ d) = (a @ buf @ d1) @ d2" using b(1) d(1) by auto
  ultimately show ?thesis using d(3,4) by metis
qed

lemma update_plain:
  assumes st: "lo5 st = blocks_ref init_ref a" and a: "length a mod 64 = 0"
    and b: "take (length b) buf = b" "length buf = 64" and c: "b = [] \<or> length (b @ d) < 64"
  shows "\<exists>a' b' buf'. (a @ b) @ d = a' @ b' \<and> length a' mod 64 = 0 \<and> length b' < 64 \<and>
    wr buf (length b) (snd (sha1_blocks st d)) = Some buf' \<and> length buf' = 64 \<and>
    take (length b') buf' = b' \<and> lo5 (fst (sha1_blocks st d)) = blocks_ref init_ref a'"
proof -
  obtain d1 d2 where d: "d = d1 @ d2" "length d1 mod 64 = 0" "length d2 < 64"
    "snd (sha1_blocks st d) = d2" "lo5 (fst (sha1_blocks st d)) = blocks_ref (lo5 st) d1"
    by (rule sha1_blocks_split)
  have e: "b = [] \<or> d1 = []" using c d(1,2) by (cases d1) (auto, presburger)
  have l: "length (b @ d2) < 64" using c d(1,3) by auto
  then obtain buf' where "wr buf (length b) d2 = Some buf'" "length buf' = 64"
    "take (length (b @ d2)) buf' = b @ d2"
    using b by (auto simp: wr_def)
  moreover have "lo5 (fst (sha1_blocks st d)) = blocks_ref init_ref (a @ d1)"
    using a st by (simp add: d(5) blocks_ref_append)
  moreover have "length (a @ d1) mod 64 = 0" using a d(2) by (simp add: mod_add_eq [symmetric])
  moreover have "(a @ b) @ d = (a @ d1) @ (b @ d2)" using e d(1) by auto
  ultimately show ?thesis using d(4) l by metis
qed

lemma sha1_update_rep:
  assumes rep: "sha_rep ctx m" and n: "n \<le> length input" "n < 2 ^ 29" and L: "length m + n < 2 ^ 61"
  shows "\<exists>ctx'. sha1_update ctx input n = Some ctx' \<and> sha_rep ctx' (m @ take n input)"
proof (cases "n = 0")
  case True
  then show ?thesis using rep by (simp add: sha1_update_def)
next
  case False
  define data where "data = take n input"
  define left where "left = length m mod 64"
  have rd: "rdn input n = Some data" "length data = n" using n(1) by (auto simp: data_def)
  obtain a b where ab: "m = a @ b" "length a mod 64 = 0" "length b < 64"
    "take (length b) (sh_buffer ctx) = b" "lo5 (sh_state ctx) = blocks_ref init_ref a"
    and len: "length (sh_buffer ctx) = 64"
    and t: "unat (sh_total0 ctx) = 8 * length m mod 2 ^ 32" "unat (sh_total1 ctx) = 8 * length m div 2 ^ 32"
    using rep by (auto simp: sha_rep_def)
  have "(length a + length b) mod 64 = length b"
    using ab(2,3) mod_add_eq [of "length a" 64 "length b"] by simp
  then have lb: "length b = left" by (simp add: left_def ab(1))
  define t0' where "t0' = (sh_total0 ctx + push_bit 3 (of_nat n)) AND 0xFFFFFFFF"
  define t1' where "t1' = sh_total1 ctx + drop_bit 29 (of_nat n)
    + (if t0' < push_bit 3 (of_nat n) then 1 else 0)"
  have tt: "unat t0' = 8 * length (m @ data) mod 2 ^ 32" "unat t1' = 8 * length (m @ data) div 2 ^ 32"
    using total_step [OF n(2) L t] rd(2) by (simp_all only: t0'_def t1'_def length_append)
  have repI: "sha_rep \<lparr>sh_total0 = t0', sh_total1 = t1', sh_state = st', sh_buffer = buf'\<rparr> (m @ data)"
    if "m @ data = a' @ b'" "length a' mod 64 = 0" "length b' < 64" "length buf' = 64"
      "take (length b') buf' = b'" "lo5 st' = blocks_ref init_ref a'" for a' b' st' buf'
    unfolding sha_rep_def sha1_context.select_convs
    by (intro conjI exI [of _ a'] exI [of _ b']) (fact tt that)+
  have left: "unat (drop_bit 3 (sh_total0 ctx) AND 0x3F) = left"
    using sha_left [OF rep] by (simp add: left_def)
  show ?thesis
  proof (cases "left \<noteq> 0 \<and> 64 - left \<le> n")
    case True
    define x where "x = take (64 - left) data"
    define buf where "buf = take left (sh_buffer ctx) @ x"
    have b: "b @ x = buf" "length buf = 64" "data = x @ drop (64 - left) data"
      using ab(3,4) lb True rd(2) len by (auto simp: buf_def x_def)
    obtain a' b' buf' where u: "(a @ b) @ (x @ drop (64 - left) data) = a' @ b'" "length a' mod 64 = 0"
      "length b' < 64" "length buf' = 64" "take (length b') buf' = b'"
      "wr buf 0 (snd (sha1_blocks (sha1_process (sh_state ctx) buf) (drop (64 - left) data))) = Some buf'"
      "lo5 (fst (sha1_blocks (sha1_process (sh_state ctx) buf) (drop (64 - left) data))) = blocks_ref init_ref a'"
      using update_fill [OF ab(5,2) b(1,2), of "drop (64 - left) data"]
      by (elim exE conjE) (rule that, assumption+)
    have "m @ data = a' @ b'" using u(1) b(3) ab(1) by simp
    from repI [OF this u(2,3,4,5,7)] show ?thesis unfolding data_def [symmetric]
      using False rd(1) True u(6)
      by (simp add: sha1_update_def left Let_def split_def t0'_def [symmetric] t1'_def [symmetric]
          x_def [symmetric] buf_def [symmetric])
  next
    case nf: False
    have c: "b = [] \<or> length (b @ data) < 64" using nf lb rd(2) ab(3) by auto
    obtain a' b' buf' where u: "(a @ b) @ data = a' @ b'" "length a' mod 64 = 0"
      "length b' < 64" "length buf' = 64" "take (length b') buf' = b'"
      "wr (sh_buffer ctx) left (snd (sha1_blocks (sh_state ctx) data)) = Some buf'"
      "lo5 (fst (sha1_blocks (sh_state ctx) data)) = blocks_ref init_ref a'"
      using update_plain [OF ab(5,2,4) len c, unfolded lb] by (elim exE conjE) (rule that, assumption+)
    have e: "m @ data = a' @ b'" using u(1) ab(1) by simp
    have nf': "(0 < left \<and> 64 - left \<le> n) = False" using nf by simp
    from repI [OF e u(2,3,4,5,7)] show ?thesis unfolding data_def [symmetric]
      using False rd(1) u(6)
      by (simp add: sha1_update_def left Let_def split_def t0'_def [symmetric] t1'_def [symmetric] nf'
          del: de_Morgan_conj)
  qed
qed

subsection \<open>Finishing\<close>

lemma PUT_UINT32_be: "PUT_UINT32 x = be_bytes 4 (unat (lo x))"
proof -
  have m: "(0xFF :: w64) = mask 8" by (simp add: mask_eq_exp_minus_1)
  have b: "unat (drop_bit k x AND 0xFF) = unat (lo x) div 2 ^ k mod 256" if "k \<le> 24" for k
  proof -
    have "unat (drop_bit k x AND 0xFF) = take_bit 8 (drop_bit k (unat x))"
      unfolding m take_bit_eq_mask [symmetric] unsigned_take_bit_eq unsigned_drop_bit_eq
      using that by (intro bit_eqI) (auto simp: bit_take_bit_iff bit_drop_bit_eq)
    moreover have "unat (lo x) = take_bit 32 (unat x)"
      unfolding lo_def by (simp add: unsigned_ucast_eq)
    moreover have "take_bit 8 (drop_bit k (unat x)) = take_bit 8 (drop_bit k (take_bit 32 (unat x)))"
      using that by (intro bit_eqI) (auto simp: bit_take_bit_iff bit_drop_bit_eq)
    ultimately show ?thesis by (simp add: take_bit_eq_mod drop_bit_eq_div)
  qed
  have "[0..<4] = [0, 1, 2, 3::nat]" by (simp add: upt_conv_Cons)
  then show ?thesis using b [of 0] b [of 8] b [of 16] b [of 24]
    by (simp only: PUT_UINT32_def be_bytes_def) simp
qed

lemma be_bytes_8: "be_bytes 8 n = be_bytes 4 (n div 2 ^ 32) @ be_bytes 4 (n mod 2 ^ 32)"
proof -
  have u: "[0..<8] = [0, 1, 2, 3, 4, 5, 6, 7::nat]" "[0..<4] = [0, 1, 2, 3::nat]"
    by (simp_all add: upt_conv_Cons)
  have hi: "n div 2 ^ 32 div 2 ^ k = n div 2 ^ (32 + k)" for k
    by (simp add: div_mult2_eq power_add)
  have lw: "n mod 2 ^ 32 div 2 ^ k mod 256 = n div 2 ^ k mod 256" if "k \<le> 24" for k
    using that by (simp only: drop_bit_eq_div [symmetric] take_bit_eq_mod [symmetric, where ?'a = nat]
        take_bit_eq_mod [where n = 8 and ?'a = nat, simplified, symmetric])
      (auto intro!: bit_eqI simp: bit_take_bit_iff bit_drop_bit_eq)
  show ?thesis unfolding be_bytes_def u
    using hi [of 0] hi [of 8] hi [of 16] hi [of 24] lw [of 0] lw [of 8] lw [of 16] lw [of 24] by simp
qed

lemma pad_length: "length m mod 64 = r \<Longrightarrow> padn = (if r < 56 then 56 - r else 120 - r) \<Longrightarrow>
  0 < padn \<and> padn \<le> 64 \<and> (length m + padn) mod 64 = 56 \<and> padn - 1 = (119 - r) mod 64"
proof -
  assume r: "length m mod 64 = r" and p: "padn = (if r < 56 then 56 - r else 120 - r)"
  have r64: "r < 64" using r by auto
  have "(length m + padn) mod 64 = (r + padn) mod 64" using r mod_add_left_eq [of "length m" 64 padn] by simp
  moreover have "r + padn = 56 \<or> r + padn = 120" using p r64 by auto
  ultimately have "(length m + padn) mod 64 = 56" by auto
  moreover have "padn - 1 = (119 - r) mod 64"
  proof (cases "r < 56")
    case True
    then have "119 - r = 64 + (55 - r)" by simp
    then have "(119 - r) mod 64 = 55 - r" by (simp only: mod_add_self1) simp
    then show ?thesis using p True by simp
  next
    case False
    then show ?thesis using p r64 by simp
  qed
  ultimately show ?thesis using p r64 by auto
qed

lemma sha1_finish_ref:
  assumes rep: "sha_rep ctx m" and L: "length m < 2 ^ 60"
  shows "sha1_finish ctx = Some (sha1_ref m)"
proof -
  define r where "r = length m mod 64"
  define padn where "padn = (if r < 56 then 56 - r else 120 - r)"
  have pn: "0 < padn" "padn \<le> 64" "(length m + padn) mod 64 = 56" "padn - 1 = (119 - r) mod 64"
    using pad_length [of m r padn] by (auto simp: r_def padn_def)
  have last: "unat (drop_bit 3 (sh_total0 ctx) AND 0x3F) = r" using sha_left [OF rep] by (simp add: r_def)
  obtain ctx1 where c1: "sha1_update ctx sha1_padding padn = Some ctx1"
    "sha_rep ctx1 (m @ take padn sha1_padding)"
    using sha1_update_rep [OF rep, of padn sha1_padding] pn(2) L by (auto simp: sha1_padding_def)
  have tk: "take padn sha1_padding = CHR 0x80 # replicate ((119 - r) mod 64) NUL"
    using pn by (cases padn) (auto simp: sha1_padding_def min_def)
  define msglen where "msglen = PUT_UINT32 (sh_total1 ctx) @ PUT_UINT32 (sh_total0 ctx)"
  have t: "unat (sh_total0 ctx) = 8 * length m mod 2 ^ 32" "unat (sh_total1 ctx) = 8 * length m div 2 ^ 32"
    using rep by (auto simp: sha_rep_def)
  have "8 * length m div 2 ^ 32 < 2 ^ 32" using L by (simp add: less_mult_imp_div_less)
  then have "unat (lo (sh_total1 ctx)) = 8 * length m div 2 ^ 32" "unat (lo (sh_total0 ctx)) = 8 * length m mod 2 ^ 32"
    unfolding lo_def using t by (simp_all add: unsigned_ucast_eq take_bit_eq_mod)
  then have ml: "msglen = be_bytes 8 (8 * length m)"
    by (simp only: msglen_def PUT_UINT32_be be_bytes_8)
  have "length msglen = 8" by (simp add: ml be_bytes_def)
  then obtain ctx2 where c2: "sha1_update ctx1 msglen 8 = Some ctx2"
    "sha_rep ctx2 ((m @ take padn sha1_padding) @ msglen)"
    using sha1_update_rep [OF c1(2), of 8 msglen] L pn(2) by (auto simp: sha1_padding_def)
  have full: "(m @ take padn sha1_padding) @ msglen = pad_ref m"
    by (simp add: tk ml pad_ref_def r_def)
  have "length (pad_ref m) mod 64 = (length m + padn + 8) mod 64"
    unfolding full [symmetric] using pn(2) \<open>length msglen = 8\<close> by (simp add: sha1_padding_def add.assoc)
  also have "\<dots> = (56 + 8) mod 64" using pn(3) mod_add_left_eq [of "length m + padn" 64 8] by simp
  finally have l0: "length (pad_ref m) mod 64 = 0" by simp
  obtain a b where ab: "pad_ref m = a @ b" "length a mod 64 = 0" "length b < 64"
    "lo5 (sh_state ctx2) = blocks_ref init_ref a" using c2(2) unfolding full by (auto simp: sha_rep_def)
  have "length b mod 64 = 0" using l0 ab(1,2) mod_add_left_eq [of "length a" 64 "length b"] by simp
  then have "b = []" using ab(3) by simp
  then have st: "lo5 (sh_state ctx2) = blocks_ref init_ref (pad_ref m)" using ab by simp
  obtain x1 x2 x3 x4 x5 where x: "sh_state ctx2 = (x1, x2, x3, x4, x5)" by (metis prod_cases5)
  have "sha1_finish ctx = Some (PUT_UINT32 x1 @ PUT_UINT32 x2 @ PUT_UINT32 x3 @ PUT_UINT32 x4 @ PUT_UINT32 x5)"
    using c1(1) c2(1) x by (simp add: sha1_finish_def last Let_def padn_def [symmetric] msglen_def [symmetric])
  then show ?thesis by (simp add: sha1_ref_def st [symmetric] x lo5_def PUT_UINT32_be)
qed

text \<open>The pieces a digest is computed from.\<close>

fun sha1_updates :: "sha1_context \<Rightarrow> bytes list \<Rightarrow> sha1_context option" where
  "sha1_updates ctx [] = Some ctx"
| "sha1_updates ctx (p # ps) = do { ctx' \<leftarrow> sha1_update ctx p (length p); sha1_updates ctx' ps }"

lemma sha1_updates_rep:
  "sha_rep ctx m \<Longrightarrow> (\<And>p. p \<in> set ps \<Longrightarrow> length p < 2 ^ 29) \<Longrightarrow> length (m @ concat ps) < 2 ^ 60 \<Longrightarrow>
   \<exists>ctx'. sha1_updates ctx ps = Some ctx' \<and> sha_rep ctx' (m @ concat ps)"
proof (induction ps arbitrary: ctx m)
  case (Cons p ps)
  obtain ctx1 where "sha1_update ctx p (length p) = Some ctx1" "sha_rep ctx1 (m @ p)"
    using sha1_update_rep [of ctx m "length p" p] Cons.prems by auto
  then show ?case using Cons.IH [of ctx1 "m @ p"] Cons.prems by auto
qed simp

text \<open>C24: The SHA-1 code, which computes in 64-bit words and takes the message in pieces of
  any size, returns the SHA-1 digest that FIPS 180 defines (on 32-bit words) of the
  concatenation of the pieces, for messages below 512 megabytes per piece.\<close>

theorem sha1_correct:
  assumes "length buf = 64" "\<forall>p\<in>set ps. length p < 2 ^ 29" "length (concat ps) < 2 ^ 60"
  shows "Option.bind (sha1_updates (sha1_starts buf) ps) sha1_finish = Some (sha1_ref (concat ps))"
proof -
  obtain ctx where "sha1_updates (sha1_starts buf) ps = Some ctx" "sha_rep ctx (concat ps)"
    using sha1_updates_rep [OF sha_rep_starts [OF assms(1)], of ps] assms(2,3) by auto
  then show ?thesis using sha1_finish_ref assms(3) by simp
qed

theorem sha1_correct_witness:
  "Option.bind (sha1_updates (sha1_starts (replicate 64 NUL)) [''ab'', [], ''c'']) sha1_finish
   = Some (sha1_ref ''abc'')"
  using sha1_correct [of "replicate 64 NUL" "[''ab'', [], ''c'']"] by simp

end
