(* ===== verification/Dback.thy ===== *)
theory Dback
  imports Sexp
begin

text \<open>
  The entries of the persistent store, \<open>lib/dback.c\<close>: a rule, its blob and the name of its
  boundary condition packed into one octet string and taken apart again. The store itself is a
  plugin: its operations are parameters of the functions below, on a state of type \<open>'d\<close>.
\<close>

subsection \<open>Packing and unpacking\<close>

text \<open>The memory has four bytes more than the fields need. When \<open>sexp_printv\<close> gives up, its
  result is ignored and the datum is empty.\<close>

definition datum_make :: "octet \<Rightarrow> octet option \<Rightarrow> bytes option \<Rightarrow> octet option" where
  "datum_make rule blob bcname = do {
     let len = oct_len rule + 1 + DIGITS (oct_len rule)
       + (case blob of None \<Rightarrow> 0 | Some b \<Rightarrow> oct_len b + 1 + DIGITS (oct_len b))
       + (case bcname of None \<Rightarrow> 0 | Some s \<Rightarrow> length s + 1 + DIGITS (length s)) + 4;
     r \<leftarrow> sexp_printv len (Some ''olola'')
            [ArgO (Some rule), ArgS (Some '':''), ArgO blob, ArgS (Some '':''), ArgS bcname];
     case r of
       None \<Rightarrow> Some \<lparr>oct_val = replicate len NUL, oct_len = 0, oct_size = len\<rparr>
     | Some (out, left) \<Rightarrow>
         Some \<lparr>oct_val = out @ replicate left NUL, oct_len = len - left, oct_size = len\<rparr> }"

definition skip_byte :: "octet \<Rightarrow> octet" where
  "skip_byte o1 = o1\<lparr>oct_val := tl (oct_val o1), oct_len := szsub (oct_len o1) 1\<rparr>"

text \<open>The result: the rule, the blob (of length 0 when there is none) and the pointer to the
  name, which is the memory from there on.\<close>

definition datum_parse :: "octet \<Rightarrow> octet \<Rightarrow>
    (spocp_result + octet \<times> octet \<times> bytes option) option" where
  "datum_parse arg blob0 = do {
     (r, arg1) \<leftarrow> get_str arg;
     case r of
       Inl e \<Rightarrow> Some (Inl e)
     | Inr rule \<Rightarrow> do {
         c \<leftarrow> rd (oct_val arg1) 0;
         if c \<noteq> CHR '':'' then Some (Inl SPOCP_SYNTAXERROR)
         else do {
           let arg2 = skip_byte arg1;
           d \<leftarrow> rd (oct_val arg2) 0;
           (rb, arg3) \<leftarrow> (if d = CHR '':'' then Some (Inr (blob0\<lparr>oct_len := 0\<rparr>), arg2) else get_str arg2);
           case rb of
             Inl e \<Rightarrow> Some (Inl e)
           | Inr blob \<Rightarrow> do {
               e \<leftarrow> rd (oct_val arg3) 0;
               if e \<noteq> CHR '':'' then Some (Inl SPOCP_SYNTAXERROR)
               else (let arg4 = skip_byte arg3 in
                 if oct_len arg4 = 0 then Some (Inr (rule, blob, None))
                 else do {
                   (rn, arg5) \<leftarrow> get_str arg4;
                   case rn of
                     Inl e \<Rightarrow> Some (Inl e)
                   | Inr oct \<Rightarrow> Some (Inr (rule, blob, Some (oct_val oct))) }) } } } }"

subsection \<open>The operations of the store\<close>

definition dback_save :: "('d \<Rightarrow> bytes \<Rightarrow> octet \<Rightarrow> spocp_result \<times> 'd) \<Rightarrow> 'd option \<Rightarrow> bytes \<Rightarrow>
    octet \<Rightarrow> octet option \<Rightarrow> bytes option \<Rightarrow> (spocp_result \<times> 'd option) option" where
  "dback_save put dbc k o0 o1 s = (case dbc of
      None \<Rightarrow> Some (SPOCP_SUCCESS, None)
    | Some d \<Rightarrow> do {
        datum \<leftarrow> datum_make o0 o1 s;
        let (r, d') = put d k datum;
        Some (r, Some d') })"

definition dback_read :: "('d \<Rightarrow> bytes \<Rightarrow> octet option) \<Rightarrow> 'd option \<Rightarrow> bytes \<Rightarrow> octet \<Rightarrow>
    (spocp_result + octet \<times> octet \<times> bytes option) option" where
  "dback_read get dbc key blob0 = (case dbc of
      None \<Rightarrow> Some (Inl SPOCP_UNAVAILABLE)
    | Some d \<Rightarrow> (case get d key of
        None \<Rightarrow> Some (Inl SPOCP_UNAVAILABLE)
      | Some datum \<Rightarrow> datum_parse datum blob0))"

definition dback_delete :: "('d \<Rightarrow> bytes \<Rightarrow> spocp_result \<times> 'd) \<Rightarrow> 'd option \<Rightarrow> bytes \<Rightarrow> spocp_result \<times> 'd option" where
  "dback_delete del dbc key = (case dbc of
      None \<Rightarrow> (SPOCP_SUCCESS, None)
    | Some d \<Rightarrow> (case del d key of (r, d') \<Rightarrow> (r, Some d')))"

subsection \<open>Round trip\<close>

definition datum_text :: "octet \<Rightarrow> octet \<Rightarrow> bytes \<Rightarrow> bytes" where
  "datum_text rule blob nm = netstr (content rule) @ '':'' @ oct_text blob @ '':'' @
     (if nm = [] then [] else netstr nm)"

lemma DIGITS_pos: "0 < DIGITS n"
  by (simp add: DIGITS_def)

lemma length_netstr_DIGITS: "length s < 1000000 \<Longrightarrow> length (netstr s) = length s + 1 + DIGITS (length s)"
  by (simp add: netstr_def DIGITS_decimal)

lemma datum_make_text:
  assumes rule: "wf_octet rule" "0 < oct_len rule" "oct_len rule < 1000000"
    and blob: "wf_octet blob" "oct_len blob < 1000000" and nm: "length nm < 1000000"
  shows "\<exists>x sz. datum_make rule (Some blob) (Some nm) = Some (view (datum_text rule blob nm) x sz)"
proof -
  define len where "len = oct_len rule + 1 + DIGITS (oct_len rule) + (oct_len blob + 1 + DIGITS (oct_len blob))
    + (length nm + 1 + DIGITS (length nm)) + 4"
  define args where "args = [ArgO (Some rule), ArgS (Some '':''), ArgO (Some blob), ArgS (Some '':''), ArgS (Some nm)]"
  define t where "t = datum_text rule blob nm"
  have p: "printed ''olola'' args = Some t"
    using rule by (simp add: args_def t_def datum_text_def arg_text_def oct_text_def)
  have ok: "\<forall>a\<in>set args. parg_ok a" using rule blob by (auto simp: args_def)
  have "length t < len"
    using rule blob nm length_netstr_DIGITS [of nm] length_netstr_DIGITS [of "content rule"]
      length_netstr_DIGITS [of "content blob"]
    by (auto simp: t_def datum_text_def len_def oct_text_def)
  then have "\<exists>left. sexp_printv len (Some ''olola'') args = Some (Some (t, left)) \<and> length t + left = len"
    using printv_loop_prints [OF p ok, of len, unfolded prints_def, rule_format, of "[]" len]
    by (auto simp: sexp_printv_def)
  then obtain left where l: "sexp_printv len (Some ''olola'') args = Some (Some (t, left))" "len = length t + left"
    by auto
  have "datum_make rule (Some blob) (Some nm) =
      Some \<lparr>oct_val = t @ replicate left NUL, oct_len = len - left, oct_size = len\<rparr>"
    unfolding datum_make_def option.case Let_def len_def [symmetric] args_def [symmetric] by (simp add: l(1))
  then show ?thesis using l(2) by (auto simp: view_def t_def)
qed

lemma netstr_no_colon: "\<exists>c t. netstr s = c # t \<and> c \<noteq> CHR '':''"
proof -
  obtain c t where d: "decimal (length s) = c # t" by (metis decimal_nonempty neq_Nil_conv)
  then have "DIGIT c" using decimal_DIGIT [of c "length s"] by simp
  then have "c \<noteq> CHR '':''" by auto
  then show ?thesis using d by (auto simp: netstr_def)
qed

lemma skip_byte_view: "length s < 2 ^ 31 \<Longrightarrow> skip_byte (view (c # s) x sz) = view s x sz"
  by (simp add: skip_byte_def view_def)

text \<open>C25: Packing a rule into an entry of the persistent store and unpacking it gives the rule,
  the blob and the name of its boundary condition back. The name comes as a pointer into the
  entry, without a terminating NUL of its own: it is followed by what lies behind the entry in
  memory.\<close>

theorem datum_roundtrip:
  assumes rule: "wf_octet rule" "0 < oct_len rule" "oct_len rule < 1000000"
    and blob: "wf_octet blob" "oct_len blob < 1000000" and nm: "length nm < 1000000"
  shows "\<exists>datum x rule' blob' name. datum_make rule (Some blob) (Some nm) = Some datum \<and>
    datum_parse datum blob0 = Some (Inr (rule', blob', name)) \<and>
    content rule' = content rule \<and> content blob' = content blob \<and>
    name = (if nm = [] then None else Some (nm @ x)) \<and> (\<exists>s. oct_val datum = s @ x)"
proof -
  obtain x sz where d: "datum_make rule (Some blob) (Some nm) = Some (view (datum_text rule blob nm) x sz)"
    using datum_make_text [OF assms] by blast
  define nt where "nt = (if nm = [] then [] else netstr nm)"
  define bt where "bt = oct_text blob"
  have ne: "content rule \<noteq> []" "length (content rule) = oct_len rule" using rule by (auto simp: content_def wf_octet_def)
  have lr: "length (netstr (content rule)) < 1000010" "length bt < 1000010" "length nt < 1000010"
    using rule blob nm ne(2) length_netstr_DIGITS [of nm] length_netstr_DIGITS [of "content rule"]
      length_netstr_DIGITS [of "content blob"]
    by (auto simp: nt_def bt_def oct_text_def DIGITS_def)
  have dt: "datum_text rule blob nm = netstr (content rule) @ CHR '':'' # bt @ CHR '':'' # nt"
    by (simp add: datum_text_def bt_def nt_def)
  have g1: "get_str (view (datum_text rule blob nm) x sz) =
      Some (Inr (view (content rule) ((CHR '':'' # bt @ CHR '':'' # nt) @ x) 0), view (CHR '':'' # bt @ CHR '':'' # nt) x sz)"
    unfolding dt using lr ne(1) by (intro get_str_netstr) auto
  have s1: "skip_byte (view (CHR '':'' # bt @ CHR '':'' # nt) x sz) = view (bt @ CHR '':'' # nt) x sz"
    using lr by (intro skip_byte_view) simp
  have s2: "skip_byte (view (CHR '':'' # nt) x sz) = view nt x sz" using lr by (intro skip_byte_view) simp
  have tail: "(if oct_len (view nt x sz) = 0 then Some (Inr (r, b, None))
      else do { (rn, arg5) \<leftarrow> get_str (view nt x sz);
         case rn of Inl e \<Rightarrow> Some (Inl e) | Inr oct \<Rightarrow> Some (Inr (r, b, Some (oct_val oct))) })
    = Some (Inr (r, b, if nm = [] then None else Some (nm @ x)))" for r b :: octet
  proof (cases "nm = []")
    case False
    then have "get_str (view (netstr nm @ []) x sz) = Some (Inr (view nm ([] @ x) 0), view [] x sz)"
      using lr by (intro get_str_netstr) (auto simp: nt_def)
    then show ?thesis using False by (simp add: nt_def netstr_def)
  qed (simp add: nt_def)
  have fin: ?thesis if "datum_parse (view (datum_text rule blob nm) x sz) blob0 =
      Some (Inr (r', b', if nm = [] then None else Some (nm @ x)))" "content r' = content rule"
    "content b' = content blob" for r' b'
    using d that view_simps(1) [of "datum_text rule blob nm" x sz] by blast
  show ?thesis
  proof (cases "oct_len blob = 0")
    case True
    then have b: "bt = []" "content blob = []" by (auto simp: bt_def oct_text_def content_def)
    have "datum_parse (view (datum_text rule blob nm) x sz) blob0 =
        Some (Inr (view (content rule) ((CHR '':'' # bt @ CHR '':'' # nt) @ x) 0, blob0\<lparr>oct_len := 0\<rparr>,
          if nm = [] then None else Some (nm @ x)))"
      using g1 s1 s2 tail b by (simp add: datum_parse_def Let_def)
    then show ?thesis by (rule fin) (simp_all add: b(2) content_def [of "_\<lparr>oct_len := _\<rparr>"])
  next
    case False
    then obtain c u where c: "bt = c # u" "c \<noteq> CHR '':''" "bt = netstr (content blob)"
      using netstr_no_colon [of "content blob"] by (auto simp: bt_def oct_text_def)
    have "get_str (view (bt @ CHR '':'' # nt) x sz) =
        Some (Inr (view (content blob) ((CHR '':'' # nt) @ x) 0), view (CHR '':'' # nt) x sz)"
      unfolding c(3) using lr False blob c(3) by (intro get_str_netstr) (auto simp: content_def wf_octet_def)
    then have "datum_parse (view (datum_text rule blob nm) x sz) blob0 =
        Some (Inr (view (content rule) ((CHR '':'' # bt @ CHR '':'' # nt) @ x) 0, view (content blob) ((CHR '':'' # nt) @ x) 0,
          if nm = [] then None else Some (nm @ x)))"
      using g1 s1 s2 tail c(1,2) by (simp add: datum_parse_def Let_def)
    then show ?thesis by (rule fin) simp_all
  qed
qed

theorem datum_roundtrip_witness:
  "\<exists>datum x rule' blob' name. datum_make (mk_octet ''(4:read)'') (Some (mk_octet ''data'')) (Some ''cond'') = Some datum \<and>
    datum_parse datum (mk_octet []) = Some (Inr (rule', blob', name)) \<and>
    content rule' = ''(4:read)'' \<and> content blob' = ''data'' \<and> name = Some (''cond'' @ x)"
  using datum_roundtrip [of "mk_octet ''(4:read)''" "mk_octet ''data''" "''cond''" "mk_octet []"]
  by (auto simp: mk_octet_view)

end
