(* ===== verification/Db.thy ===== *)
theory Db
  imports Bcond Authz Sha1 Dback
begin

text \<open>
  The rule database: rule instances and their identifiers, the index of rules by identifier
  (\<open>lib/bsdrb.c\<close> behind \<open>lib/rdb.c\<close>), the second half of \<open>lib/db0.c\<close> and the functions of
  \<open>lib/dbapi.c\<close> that add, find, list and describe rules.

  The index is a red-black tree from the macros of \<open>include/tree.h\<close>. The balancing is not
  modelled: the tree is the list of its entries in the order of the identifiers. A null index is
  \<open>None\<close>. A rule instance is one object that the index, the rule tree and the boundary condition
  point to, and some of its fields are filled in after it has been stored; since nothing looks at
  it in between, the model stores the instance with all its fields.

  The operations of the persistent store are logged in the store of the boundary conditions, as
  in the theory \<open>Bcond\<close>.
\<close>

type_synonym rule = "nat ruleinst"

definition SHA1HASHLEN :: nat where
  "SHA1HASHLEN = 40"

subsection \<open>The index of rules\<close>

fun strcmp :: "bytes \<Rightarrow> bytes \<Rightarrow> int" where
  "strcmp [] [] = 0"
| "strcmp [] (d # q) = - int (of_char d)"
| "strcmp (c # p) [] = int (of_char c)"
| "strcmp (c # p) (d # q) = (if c = d then strcmp p q else int (of_char c) - int (of_char d))"

fun bsdrb_find :: "'c ruleinst list \<Rightarrow> bytes \<Rightarrow> 'c ruleinst option" where
  "bsdrb_find [] k = None"
| "bsdrb_find (r # rs) k = (if strcmp (ri_uid r) k = 0 then Some r else bsdrb_find rs k)"

fun bsdrb_insert :: "'c ruleinst list \<Rightarrow> 'c ruleinst \<Rightarrow> int \<times> 'c ruleinst list" where
  "bsdrb_insert [] ri = (1, [ri])"
| "bsdrb_insert (r # rs) ri =
     (if strcmp (ri_uid r) (ri_uid ri) = 0 then (0, r # rs)
      else if strcmp (ri_uid ri) (ri_uid r) < 0 then (1, ri # r # rs)
      else case bsdrb_insert rs ri of (n, rs') \<Rightarrow> (n, r # rs'))"

fun bsdrb_remove :: "'c ruleinst list \<Rightarrow> bytes \<Rightarrow> int \<times> 'c ruleinst list" where
  "bsdrb_remove [] k = (0, [])"
| "bsdrb_remove (r # rs) k =
     (if strcmp (ri_uid r) k = 0 then (1, rs)
      else case bsdrb_remove rs k of (n, rs') \<Rightarrow> (n, r # rs'))"

definition bsdrb_empty :: "'c ruleinst list \<Rightarrow> int" where
  "bsdrb_empty rs = (if rs = [] then 0 else 1)"

fun varr_add_all :: "'a varr option \<Rightarrow> 'a list \<Rightarrow> 'a varr option option" where
  "varr_add_all va [] = Some va"
| "varr_add_all va (x # xs) = do { va' \<leftarrow> varr_add va x; varr_add_all (Some va') xs }"

definition bsdrb_all :: "'c ruleinst list \<Rightarrow> 'c ruleinst varr option option" where
  "bsdrb_all rs = varr_add_all None rs"

definition rdb_rules :: "'c ruleinst list option \<Rightarrow> int" where
  "rdb_rules r = (case r of None \<Rightarrow> 0 | Some rs \<Rightarrow> bsdrb_empty rs)"

definition ruleinst_find_by_uid :: "'c ruleinst list option \<Rightarrow> bytes \<Rightarrow> 'c ruleinst option" where
  "ruleinst_find_by_uid rules uid = (case rules of None \<Rightarrow> None | Some rs \<Rightarrow> bsdrb_find rs uid)"

subsection \<open>Rule instances\<close>

text \<open>The 20 bytes of the digest. The context on the stack is not initialised; its buffer is
  zero here, which makes no difference (\<open>sha1_correct\<close>).\<close>

definition ruleinst_uid :: "octet \<Rightarrow> octet option \<Rightarrow> bytes option \<Rightarrow> bytes option" where
  "ruleinst_uid rule blob bcname = do {
     c1 \<leftarrow> sha1_update (sha1_starts (replicate 64 NUL)) (oct_val rule) (oct_len rule);
     c2 \<leftarrow> (case bcname of None \<Rightarrow> Some c1 | Some s \<Rightarrow> sha1_update c1 s (length s));
     c3 \<leftarrow> (case blob of None \<Rightarrow> Some c2 | Some b \<Rightarrow> sha1_update c2 (oct_val b) (oct_len b));
     sha1_finish c3 }"

definition ruleinst_new :: "octet option \<Rightarrow> octet option \<Rightarrow> bytes option \<Rightarrow> 'c ruleinst option option" where
  "ruleinst_new rule blob bcname = (case rule of
      None \<Rightarrow> Some None
    | Some ru \<Rightarrow>
        if oct_len ru = 0 then Some None
        else do {
          r0 \<leftarrow> octdup (Some ru);
          r \<leftarrow> r0;
          b \<leftarrow> (case blob of None \<Rightarrow> Some None
                | Some bl \<Rightarrow> if oct_len bl = 0 then Some None else octdup (Some bl));
          sum \<leftarrow> ruleinst_uid ru blob bcname;
          Some (Some \<lparr>ri_uid = concat (map hex2 sum), ri_rule = r, ri_blob = b, ri_bcexp = None,
                      ri_ep = None, ri_bcond = None\<rparr>) })"

text \<open>\<open>ruleinst_dup\<close> drops the instance it has made and fills in a new one, without the blob
  and the boundary condition.\<close>

definition ruleinst_dup :: "'c ruleinst option \<Rightarrow> (bytes option) \<Rightarrow> 'c ruleinst option option" where
  "ruleinst_dup ri0 bcname = (case ri0 of
      None \<Rightarrow> Some None
    | Some ri \<Rightarrow> do {
        _ \<leftarrow> (ruleinst_new (Some (ri_rule ri)) (ri_blob ri) bcname :: 'c ruleinst option option);
        r0 \<leftarrow> octdup (Some (ri_rule ri));
        r \<leftarrow> r0;
        Some (Some \<lparr>ri_uid = ri_uid ri, ri_rule = r, ri_blob = None, ri_bcexp = None,
                    ri_ep = None, ri_bcond = None\<rparr>) })"

subsection \<open>The database\<close>

record dbase =
  db_jp :: "rule Tree.store"
  db_ri :: "rule list option"

definition db_new :: "(nat \<Rightarrow> nat) \<Rightarrow> bytes \<Rightarrow> dbase" where
  "db_new rnd before = \<lparr>db_jp = empty_tree rnd before, db_ri = None\<rparr>"

definition nrules :: "dbase \<Rightarrow> int" where
  "nrules db = rdb_rules (db_ri db)"

definition rules :: "dbase option \<Rightarrow> bool" where
  "rules db = (case db of None \<Rightarrow> False | Some d \<Rightarrow> nrules d \<noteq> 0)"

definition free_rule :: "dbase \<Rightarrow> bytes \<Rightarrow> (int \<times> dbase) option" where
  "free_rule db uid = do {
     rs \<leftarrow> db_ri db;
     let (n, rs') = bsdrb_remove rs uid;
     Some (n, db\<lparr>db_ri := Some rs'\<rparr>) }"

text \<open>\<open>fin\<close> fills in the fields that the callers set later.\<close>

definition save_rule :: "dbase \<Rightarrow> ('p, rule) bcstore \<Rightarrow> octet \<Rightarrow> octet \<Rightarrow> bytes option \<Rightarrow> (rule \<Rightarrow> rule) \<Rightarrow>
    (rule option \<times> dbase \<times> ('p, rule) bcstore) option" where
  "save_rule db s ru blob bcname fin = do {
     rt0 \<leftarrow> ruleinst_new (Some ru) (Some blob) bcname;
     rt \<leftarrow> rt0;
     if ruleinst_find_by_uid (db_ri db) (ri_uid rt) \<noteq> None then Some (None, db, s)
     else do {
       s1 \<leftarrow> (if bc_dback s then do {
                datum \<leftarrow> datum_make ru (Some blob) bcname;
                Some (s\<lparr>bc_ops := bc_ops s @ [DSave (ri_uid rt) datum]\<rparr>) }
              else Some s);
       let rs = (case db_ri db of None \<Rightarrow> [] | Some rs \<Rightarrow> rs);
       Some (Some (fin rt), db\<lparr>db_ri := Some (snd (bsdrb_insert rs (fin rt)))\<rparr>, s1) } }"

definition store_right :: "dbase \<Rightarrow> element \<Rightarrow> rule \<Rightarrow> (spocp_result \<times> dbase) option" where
  "store_right db ep rt = do {
     (st, ap) \<leftarrow> element_add (db_jp db) 0 (c_top ep) rt;
     Some (if ap = None then SPOCP_OPERATIONSERROR else SPOCP_SUCCESS, db\<lparr>db_jp := st\<rparr>) }"

text \<open>The rule of a boundary condition: the definition gets the rule as a user.\<close>

definition bcd_name :: "('p, rule) bcstore \<Rightarrow> nat option \<Rightarrow> bytes option" where
  "bcd_name s bcd = (case bcd of None \<Rightarrow> None | Some d \<Rightarrow> bd_name (bc_defs s ! d))"

definition bcd_use :: "('p, rule) bcstore \<Rightarrow> nat option \<Rightarrow> rule \<Rightarrow> ('p, rule) bcstore option" where
  "bcd_use s bcd rt = (case bcd of
      None \<Rightarrow> Some s
    | Some d \<Rightarrow> do {
        va \<leftarrow> varr_add (bd_rules (bc_defs s ! d)) rt;
        Some (set_def s d ((bc_defs s ! d)\<lparr>bd_rules := Some va\<rparr>)) })"

text \<open>The null element that \<open>element_get\<close> gives for a closing parenthesis is dereferenced by
  \<open>store_right\<close>, once the rule has been saved.\<close>

definition add_right :: "(bytes \<Rightarrow> int \<Rightarrow> bytes) \<Rightarrow> dbase \<Rightarrow> ('p, rule) bcstore \<Rightarrow> octet list \<Rightarrow> nat option \<Rightarrow>
    octet option \<Rightarrow> (spocp_result \<times> rule option \<times> dbase \<times> ('p, rule) bcstore) option" where
  "add_right shift db s oa bcd bcexp = (case oa of
      [] \<Rightarrow> None
    | o0 # args \<Rightarrow> do {
        let blob = (case args of [] \<Rightarrow> \<lparr>oct_val = [], oct_len = 0, oct_size = 0\<rparr> | b # _ \<Rightarrow> b\<lparr>oct_size := 0\<rparr>);
        (r, rest) \<leftarrow> element_get shift (o0\<lparr>oct_size := 0\<rparr>);
        case r of
          Inl rc \<Rightarrow> Some (rc, None, db, s)
        | Inr ep0 \<Rightarrow> do {
            let ru = o0\<lparr>oct_size := 0, oct_len := szsub (oct_len o0) (oct_len rest)\<rparr>;
            (rt0, db1, s1) \<leftarrow> save_rule db s ru blob (bcd_name s bcd)
               (\<lambda>rt. rt\<lparr>ri_ep := ep0, ri_bcond := bcd, ri_bcexp := bcexp\<rparr>);
            case rt0 of
              None \<Rightarrow> Some (SPOCP_EXISTS, None, db1, s1)
            | Some rt \<Rightarrow> do {
                ep \<leftarrow> ep0;
                (rc, db2) \<leftarrow> store_right db1 ep rt;
                db3 \<leftarrow> (if rc \<noteq> SPOCP_SUCCESS then map_option snd (free_rule db2 (ri_uid rt)) else Some db2);
                s2 \<leftarrow> bcd_use s1 bcd rt;
                Some (rc, Some rt, db3, s2) } } })"

subsection \<open>The functions of the API\<close>

fun hex_prefix :: "bytes \<Rightarrow> nat \<Rightarrow> nat option" where
  "hex_prefix [] k = None"
| "hex_prefix (c # s) k = (if HEX c \<and> k < SHA1HASHLEN then hex_prefix s (Suc k) else Some k)"

definition check_uid :: "octet \<Rightarrow> spocp_result option" where
  "check_uid uid =
     (if oct_len uid \<noteq> SHA1HASHLEN then Some SPOCP_SYNTAXERROR
      else do {
        n \<leftarrow> hex_prefix (oct_val uid) 0;
        Some (if n \<noteq> SHA1HASHLEN then SPOCP_SYNTAXERROR else SPOCP_SUCCESS) })"

definition get_rule :: "dbase \<Rightarrow> octet option \<Rightarrow> rule option option" where
  "get_rule db oct = (case oct of
      None \<Rightarrow> Some None
    | Some o1 \<Rightarrow> do {
        (n, uid) \<leftarrow> oct2strcpy o1 41 NUL;
        if n < 0 then Some None
        else Some (ruleinst_find_by_uid (db_ri db) (takeWhile (\<lambda>c. c \<noteq> NUL) uid)) })"

definition rollback_info :: "dbase \<Rightarrow> octet \<Rightarrow> octarr option option" where
  "rollback_info db op = do {
     rc \<leftarrow> check_uid op;
     if rc \<noteq> SPOCP_SUCCESS then Some None
     else do {
       ri0 \<leftarrow> get_rule db (Some op);
       case ri0 of
         None \<Rightarrow> Some None
       | Some ri \<Rightarrow> do {
           a0 \<leftarrow> octcln (Some (ri_rule ri));
           res1 \<leftarrow> octarr_add None a0;
           res2 \<leftarrow> (case ri_bcexp ri of
                None \<Rightarrow> Some res1
              | Some b \<Rightarrow> do { b' \<leftarrow> octcln (Some b); octarr_add (Some res1) b' });
           res3 \<leftarrow> (case ri_blob ri of
                None \<Rightarrow> Some res2
              | Some bl \<Rightarrow> do {
                  res2' \<leftarrow> (if ri_bcexp ri = None then do {
                       n0 \<leftarrow> octdup (Some (oct_assign ''NULL''));
                       n \<leftarrow> n0;
                       octarr_add (Some res2) n }
                     else Some res2);
                  bl' \<leftarrow> octcln (Some bl);
                  octarr_add (Some res2') bl' });
           Some (Some res3) } } }"

text \<open>\<open>dbapi_rule_add\<close> takes the boundary condition out of the array of its caller, also when it
  then fails.\<close>

definition dbapi_rule_add :: "(bytes \<Rightarrow> bytes) \<Rightarrow> bytes \<Rightarrow> (bytes \<times> 'p) list \<Rightarrow> (bytes \<Rightarrow> int \<Rightarrow> bytes) \<Rightarrow> dbase \<Rightarrow>
    dbase option \<Rightarrow> ('p, rule) bcstore \<Rightarrow> octarr option \<Rightarrow>
    (spocp_result \<times> rule option \<times> dbase option \<times> ('p, rule) bcstore \<times> octarr option) option" where
  "dbapi_rule_add sha1 mem p shift new dpp s oa0 = (case oa0 of
      None \<Rightarrow> Some (SPOCP_MISSING_ARG, None, dpp, s, oa0)
    | Some oa \<Rightarrow>
        if oa_arr oa = [] then Some (SPOCP_MISSING_ARG, None, dpp, s, oa0)
        else do {
          let db = (case dpp of None \<Rightarrow> new | Some d \<Rightarrow> d);
          (bcexp, oa1) \<leftarrow> (if 1 < length (oa_arr oa) then octarr_rm (Some oa) 1 else Some (None, Some oa));
          (err, bcd, s1) \<leftarrow> (case bcexp of
               None \<Rightarrow> Some (None, None, s)
             | Some be \<Rightarrow> do {
                 c \<leftarrow> oct2strcmp (Some be) (Some ''NULL'');
                 if c = 0 then Some (None, None, s)
                 else do {
                   (x, r, s') \<leftarrow> bcdef_get sha1 mem p s be SPOCP_SUCCESS;
                   Some (if x = None \<and> r \<noteq> SPOCP_SUCCESS then Some r else None, x, s') } });
          case err of
            Some r \<Rightarrow> Some (r, None, dpp, s1, oa1)
          | None \<Rightarrow> do {
              oa2 \<leftarrow> oa1;
              be' \<leftarrow> (case bcd of None \<Rightarrow> Some None | Some _ \<Rightarrow> octdup bcexp);
              (rc, ri, db', s2) \<leftarrow> add_right shift db s1 (oa_arr oa2) bcd be';
              Some (if rc = SPOCP_SUCCESS then (rc, ri, Some db', s2, oa1)
                    else (rc, None, (case dpp of None \<Rightarrow> None | Some _ \<Rightarrow> Some db'), s2, oa1)) } })"

subsection \<open>Listing the rules\<close>

text \<open>The appends of \<open>ruleinst_print\<close>, whose results are not looked at.\<close>

fun octcats :: "octet \<Rightarrow> bytes list \<Rightarrow> octet option" where
  "octcats oct [] = Some oct"
| "octcats oct (s # ss) = do { (_, oct') \<leftarrow> octcat oct s (length s); octcats oct' ss }"

definition len_prefix :: "nat \<Rightarrow> bytes" where
  "len_prefix n = decimal n @ '':''"

text \<open>The path goes through a buffer of 1024 bytes.\<close>

definition ruleinst_print :: "'c ruleinst \<Rightarrow> bytes option \<Rightarrow> octet option" where
  "ruleinst_print r rs = do {
     let (flen, lr) = (case rs of
         None \<Rightarrow> (''1:/'', 1)
       | Some p \<Rightarrow> if p = [] then (''1:/'', 1) else (take 1023 (len_prefix (length p) @ p), length p));
     let has_bc = (case ri_bcexp r of None \<Rightarrow> False | Some b \<Rightarrow> oct_len b \<noteq> 0);
     let has_blob = (case ri_blob r of None \<Rightarrow> False | Some b \<Rightarrow> oct_len b \<noteq> 0);
     let l = oct_len (ri_rule r) + DIGITS (oct_len (ri_rule r)) + lr + DIGITS lr + 5 + 40 + 1
       + (if has_bc then oct_len (the (ri_bcexp r)) + 1 + DIGITS (oct_len (the (ri_bcexp r))) else 0)
       + (if has_blob then oct_len (the (ri_blob r)) + 1 + DIGITS (oct_len (the (ri_blob r)))
            + (if has_bc then 0 else 6) else 0);
     oct \<leftarrow> oct_new l None;
     uid \<leftarrow> rdn (ri_uid r @ [NUL]) 40;
     rule \<leftarrow> rdn (oct_val (ri_rule r)) (oct_len (ri_rule r));
     bc \<leftarrow> (if has_bc then do {
              let b = the (ri_bcexp r);
              v \<leftarrow> rdn (oct_val b) (oct_len b);
              Some [len_prefix (oct_len b), v] }
            else Some (if has_blob then [''4:NULL''] else []));
     bl \<leftarrow> (if has_blob then do {
              let b = the (ri_blob r);
              v \<leftarrow> rdn (oct_val b) (oct_len b);
              Some [len_prefix (oct_len b), v] }
            else Some []);
     octcats oct ([flen, ''40:'', uid, len_prefix (oct_len (ri_rule r)), rule] @ bc @ bl) }"

fun print_each :: "'c ruleinst list \<Rightarrow> bytes option \<Rightarrow> octarr option \<Rightarrow> octarr option option" where
  "print_each [] rs oa = Some oa"
| "print_each (r # pa) rs oa = do {
     oct \<leftarrow> ruleinst_print r rs;
     oa' \<leftarrow> octarr_add oa oct;
     print_each pa rs (Some oa') }"

definition get_all_rules :: "dbase \<Rightarrow> octarr option \<Rightarrow> bytes option \<Rightarrow> (spocp_result \<times> octarr option) option" where
  "get_all_rules db oa rs = do {
     let n = nrules db;
     if n = 0 then Some (SPOCP_SUCCESS, oa)
     else do {
       let oa1 = (case oa of None \<Rightarrow> None
          | Some a \<Rightarrow> if int (oa_size a) - int (length (oa_arr a)) < n then octarr_mr oa (nat n) else oa);
       idx \<leftarrow> db_ri db;
       pa \<leftarrow> bsdrb_all idx;
       oa2 \<leftarrow> print_each (case pa of None \<Rightarrow> [] | Some a \<Rightarrow> v_items a) rs oa1;
       Some (SPOCP_SUCCESS, oa2) } }"

definition get_blob :: "'c ruleinst option \<Rightarrow> octet option" where
  "get_blob ri = (case ri of None \<Rightarrow> None | Some r \<Rightarrow> ri_blob r)"

subsection \<open>The index is a map\<close>

text \<open>What the database relies on: an instance that is inserted is found under its identifier,
  one that is removed is not, and nothing else changes. The identifiers are C strings.\<close>

locale rule_index =
  fixes inv :: "'t \<Rightarrow> bool" and key :: "bytes \<Rightarrow> bool" and find :: "'t \<Rightarrow> bytes \<Rightarrow> 'r option"
    and ins :: "'t \<Rightarrow> 'r \<Rightarrow> 't" and rem :: "'t \<Rightarrow> bytes \<Rightarrow> 't" and uid :: "'r \<Rightarrow> bytes"
  assumes find_uid: "inv t \<Longrightarrow> key k \<Longrightarrow> find t k = Some r \<Longrightarrow> uid r = k"
    and find_ins: "inv t \<Longrightarrow> key k \<Longrightarrow> key (uid r) \<Longrightarrow> find (ins t r) k =
      (if k = uid r \<and> find t k = None then Some r else find t k)"
    and find_rem: "inv t \<Longrightarrow> key k \<Longrightarrow> key k' \<Longrightarrow> find (rem t k') k = (if k = k' then None else find t k)"
    and inv_ins: "inv t \<Longrightarrow> key (uid r) \<Longrightarrow> inv (ins t r)"
    and inv_rem: "inv t \<Longrightarrow> key k \<Longrightarrow> inv (rem t k)"
begin

lemma ins_rem: "inv t \<Longrightarrow> key (uid r) \<Longrightarrow> key k \<Longrightarrow> find t (uid r) = None \<Longrightarrow>
    find (rem (ins t r) (uid r)) k = find t k"
  by (simp add: find_rem find_ins inv_ins)

lemma ins_found: "inv t \<Longrightarrow> key (uid r) \<Longrightarrow> find t (uid r) = None \<Longrightarrow> find (ins t r) (uid r) = Some r"
  by (simp add: find_ins)

lemma ins_keeps: "inv t \<Longrightarrow> key k \<Longrightarrow> key (uid r) \<Longrightarrow> find t k = Some r' \<Longrightarrow> find (ins t r) k = Some r'"
  by (simp add: find_ins)

end

lemma of_char_pos: "d \<noteq> NUL \<Longrightarrow> 0 < (of_char d :: nat)"
proof -
  assume "d \<noteq> NUL"
  moreover have "(of_char NUL :: nat) = 0"
    by simp
  ultimately show ?thesis
    by (metis bot_nat_0.not_eq_extremum of_char_eq_iff)
qed

lemma of_char_int_eq: "int (of_char c) - int (of_char d) = 0 \<longleftrightarrow> c = d"
proof -
  have "int (of_char c) - int (of_char d) = 0 \<longleftrightarrow> (of_char c :: nat) = of_char d"
    by linarith
  then show ?thesis
    by (simp only: of_char_eq_iff)
qed

lemma strcmp_eq_0: "NUL \<notin> set a \<Longrightarrow> NUL \<notin> set b \<Longrightarrow> strcmp a b = 0 \<longleftrightarrow> a = b"
proof (induction a b rule: strcmp.induct)
  case (2 d q) then show ?case using of_char_pos [of d] by auto
next
  case (3 c p) then show ?case using of_char_pos [of c] by auto
next
  case (4 c p d q) then show ?case using of_char_int_eq [of c d] by auto
qed simp

lemma strcmp_self [simp]: "strcmp a a = 0"
  by (induction a) auto

lemma strcmp_trans: "NUL \<notin> set a \<Longrightarrow> NUL \<notin> set b \<Longrightarrow> NUL \<notin> set c \<Longrightarrow>
    strcmp a b < 0 \<Longrightarrow> strcmp b c < 0 \<Longrightarrow> strcmp a c < 0"
proof (induction a b arbitrary: c rule: strcmp.induct)
  case (2 d q) then show ?case by (cases c) (auto intro!: of_char_pos)
next
  case (4 x p d q)
  show ?case
  proof (cases c)
    case Nil then show ?thesis using 4 of_char_pos [of d] by simp
  next
    case (Cons z r)
    then show ?thesis using 4 by (auto split: if_splits)
  qed
qed auto

lemma strcmp_antisym: "NUL \<notin> set a \<Longrightarrow> NUL \<notin> set b \<Longrightarrow> a \<noteq> b \<Longrightarrow> \<not> strcmp a b < 0 \<Longrightarrow> strcmp b a < 0"
proof (induction a b rule: strcmp.induct)
  case (2 d q) then show ?case using of_char_pos [of d] by auto
next
  case (3 c p) then show ?case using of_char_pos [of c] by auto
next
  case (4 c p d q) then show ?case using of_char_less_iff [of c d] by (auto split: if_splits)
qed simp

text \<open>The entries have different identifiers that are C strings, in the order of \<open>strcmp\<close>.\<close>

definition rb_ok :: "'c ruleinst list \<Rightarrow> bool" where
  "rb_ok rs \<longleftrightarrow> sorted_wrt (\<lambda>a b. strcmp (ri_uid a) (ri_uid b) < 0) rs \<and> (\<forall>r \<in> set rs. NUL \<notin> set (ri_uid r))"

lemma rb_ok_simps [simp]: "rb_ok []"
  "rb_ok (r # rs) \<longleftrightarrow> (\<forall>x \<in> set rs. strcmp (ri_uid r) (ri_uid x) < 0) \<and> NUL \<notin> set (ri_uid r) \<and> rb_ok rs"
  by (auto simp: rb_ok_def)

lemma bsdrb_find_None: "(\<And>r. r \<in> set rs \<Longrightarrow> strcmp (ri_uid r) k \<noteq> 0) \<Longrightarrow> bsdrb_find rs k = None"
  by (induction rs) auto

lemma bsdrb_find_Some: "bsdrb_find rs k = Some r \<Longrightarrow> r \<in> set rs \<and> strcmp (ri_uid r) k = 0"
  by (induction rs) (auto split: if_splits)

lemma set_bsdrb_insert: "set (snd (bsdrb_insert rs ri)) \<subseteq> insert ri (set rs)"
  by (induction rs) (auto split: prod.splits)

lemma set_bsdrb_remove: "set (snd (bsdrb_remove rs k)) \<subseteq> set rs"
  by (induction rs) (auto split: prod.splits)

lemma rb_above: "rb_ok rs \<Longrightarrow> NUL \<notin> set k \<Longrightarrow> NUL \<notin> set j \<Longrightarrow> strcmp k j < 0 \<Longrightarrow>
    (\<forall>x \<in> set rs. strcmp j (ri_uid x) < 0) \<Longrightarrow> bsdrb_find rs k = None"
  by (rule bsdrb_find_None) (metis rb_ok_def strcmp_eq_0 strcmp_self strcmp_trans order_less_irrefl)

lemma rb_insert_ok: "rb_ok rs \<Longrightarrow> NUL \<notin> set (ri_uid ri) \<Longrightarrow> rb_ok (snd (bsdrb_insert rs ri))"
proof (induction rs)
  case (Cons r rs)
  have le: "strcmp (ri_uid r) (ri_uid ri) < 0"
    if "strcmp (ri_uid r) (ri_uid ri) \<noteq> 0" "\<not> strcmp (ri_uid ri) (ri_uid r) < 0"
    using that Cons.prems strcmp_antisym [of "ri_uid ri" "ri_uid r"] by (metis rb_ok_simps(2) strcmp_self)
  show ?case
    using Cons le set_bsdrb_insert [of rs ri]
    by (auto split: prod.splits simp: rb_ok_def intro: strcmp_trans)
qed simp

lemma rb_remove_ok: "rb_ok rs \<Longrightarrow> rb_ok (snd (bsdrb_remove rs k))"
proof (induction rs)
  case (Cons r rs)
  then show ?case
    using set_bsdrb_remove [of rs k] by (auto split: prod.splits)
qed simp

lemma rb_find_insert:
  "rb_ok rs \<Longrightarrow> NUL \<notin> set (ri_uid ri) \<Longrightarrow> NUL \<notin> set k \<Longrightarrow>
   bsdrb_find (snd (bsdrb_insert rs ri)) k =
     (if k = ri_uid ri \<and> bsdrb_find rs k = None then Some ri else bsdrb_find rs k)"
proof (induction rs)
  case (Cons r rs)
  have "bsdrb_find rs (ri_uid ri) = None" if "strcmp (ri_uid ri) (ri_uid r) < 0"
    using that Cons.prems by (intro rb_above [of rs "ri_uid ri" "ri_uid r"]) auto
  then show ?case
    using Cons by (auto split: prod.splits simp: strcmp_eq_0)
qed (simp add: strcmp_eq_0)

lemma rb_find_remove:
  "rb_ok rs \<Longrightarrow> NUL \<notin> set k' \<Longrightarrow> NUL \<notin> set k \<Longrightarrow>
   bsdrb_find (snd (bsdrb_remove rs k')) k = (if k = k' then None else bsdrb_find rs k)"
proof (induction rs)
  case (Cons r rs)
  have "bsdrb_find rs (ri_uid r) = None"
    using Cons.prems by (intro bsdrb_find_None) (metis order_less_irrefl rb_ok_def rb_ok_simps(2) strcmp_eq_0 strcmp_self)
  then show ?case
    using Cons by (auto split: prod.splits simp: strcmp_eq_0)
qed simp

interpretation rb: rule_index rb_ok "\<lambda>k. NUL \<notin> set k" bsdrb_find "\<lambda>t r. snd (bsdrb_insert t r)"
    "\<lambda>t k. snd (bsdrb_remove t k)" ri_uid
proof unfold_locales
  fix t :: "'a ruleinst list" and k r assume "rb_ok t" "NUL \<notin> set k" "bsdrb_find t k = Some r"
  then show "ri_uid r = k"
    using bsdrb_find_Some [of t k r] strcmp_eq_0 by (auto simp: rb_ok_def)
qed (simp_all add: rb_find_insert rb_find_remove rb_insert_ok rb_remove_ok)

subsection \<open>Identifiers\<close>

lemma length_sha1_ref [simp]: "length (sha1_ref m) = 20"
  by (simp add: sha1_ref_def be_bytes_def split: prod.splits)

lemma HEX_hexdigits: "x < 16 \<Longrightarrow> HEX (if x < 10 then char_of (48 + x) else char_of (87 + x :: nat))"
proof -
  assume "x < 16"
  then have "x = 0 \<or> x = 1 \<or> x = 2 \<or> x = 3 \<or> x = 4 \<or> x = 5 \<or> x = 6 \<or> x = 7 \<or> x = 8 \<or> x = 9 \<or>
      x = 10 \<or> x = 11 \<or> x = 12 \<or> x = 13 \<or> x = 14 \<or> x = 15" by presburger
  then show ?thesis by (elim disjE) (hypsubst, code_simp)+
qed

lemma HEX_hex2: "d \<in> set (hex2 c) \<Longrightarrow> HEX d"
proof -
  have "of_char c div 16 < (16 :: nat)" using nat_of_char_less_256 [of c] by linarith
  then show "d \<in> set (hex2 c) \<Longrightarrow> HEX d"
    using HEX_hexdigits [of "of_char c div 16"] HEX_hexdigits [of "of_char c mod 16"]
    by (auto simp: hex2_def Let_def)
qed

lemma length_hex2 [simp]: "length (hex2 c) = 2"
  by (simp add: hex2_def Let_def)

lemma length_hex [simp]: "length (concat (map hex2 s)) = 2 * length s"
  by (induction s) auto

lemma HEX_hex: "d \<in> set (concat (map hex2 s)) \<Longrightarrow> HEX d"
  using HEX_hex2 by auto

lemma NUL_hex [simp]: "NUL \<notin> set (concat (map hex2 s))"
proof -
  have "\<not> HEX NUL" by code_simp
  then show ?thesis using HEX_hex [of NUL s] by auto
qed

text \<open>The bytes that identify a rule.\<close>

definition uid_text :: "octet \<Rightarrow> octet \<Rightarrow> bytes option \<Rightarrow> bytes" where
  "uid_text ru blob bcname = content ru @ (case bcname of None \<Rightarrow> [] | Some s \<Rightarrow> s) @ content blob"

definition uid_of :: "octet \<Rightarrow> octet \<Rightarrow> bytes option \<Rightarrow> bytes" where
  "uid_of ru blob bcname = concat (map hex2 (sha1_ref (uid_text ru blob bcname)))"

definition small_octet :: "octet \<Rightarrow> bool" where
  "small_octet o1 \<longleftrightarrow> wf_octet o1 \<and> oct_len o1 < 2 ^ 29"

lemma ruleinst_uid_ref:
  assumes "small_octet ru" "small_octet blob" "\<And>s. bcname = Some s \<Longrightarrow> length s < 2 ^ 29"
  shows "ruleinst_uid ru (Some blob) bcname = Some (sha1_ref (uid_text ru blob bcname))"
proof -
  have ru: "wf_octet ru" "oct_len ru < 2 ^ 29" and blob: "wf_octet blob" "oct_len blob < 2 ^ 29"
    using assms by (auto simp: small_octet_def)
  define nm where "nm = (case bcname of None \<Rightarrow> [] | Some s \<Rightarrow> s)"
  have nm: "length nm < 2 ^ 29" using assms(3) by (auto simp: nm_def split: option.split)
  obtain c1 where c1: "sha1_update (sha1_starts (replicate 64 NUL)) (oct_val ru) (oct_len ru) = Some c1" "sha_rep c1 (content ru)"
    using sha1_update_rep [OF sha_rep_starts, of "replicate 64 NUL" "oct_len ru" "oct_val ru"] ru
    by (auto simp: wf_octet_def content_def)
  have L: "length (content ru) = oct_len ru" "length (content blob) = oct_len blob"
    using ru blob by (simp_all add: wf_octet_def content_def)
  obtain c2 where c2: "(case bcname of None \<Rightarrow> Some c1 | Some s \<Rightarrow> sha1_update c1 s (length s)) = Some c2"
      "sha_rep c2 (content ru @ nm)"
    using sha1_update_rep [OF c1(2), of "length nm" nm] nm ru c1(2) L
    by (cases bcname) (auto simp: nm_def)
  obtain c3 where c3: "sha1_update c2 (oct_val blob) (oct_len blob) = Some c3" "sha_rep c3 ((content ru @ nm) @ content blob)"
    using sha1_update_rep [OF c2(2), of "oct_len blob" "oct_val blob"] blob nm ru L
    by (auto simp: wf_octet_def content_def)
  have "sha1_finish c3 = Some (sha1_ref ((content ru @ nm) @ content blob))"
    using sha1_finish_ref [OF c3(2)] L ru blob nm by simp
  then show ?thesis
    using c1(1) c2(1) c3(1) by (simp add: ruleinst_uid_def uid_text_def nm_def)
qed

lemma ruleinst_new_ok:
  assumes "small_octet ru" "0 < oct_len ru" "small_octet blob" "\<And>s. bcname = Some s \<Longrightarrow> length s < 2 ^ 29"
  shows "\<exists>r b. ruleinst_new (Some ru) (Some blob) bcname =
      Some (Some \<lparr>ri_uid = uid_of ru blob bcname, ri_rule = r, ri_blob = b, ri_bcexp = None,
                  ri_ep = None, ri_bcond = None\<rparr>) \<and>
    content r = content ru \<and> (case b of None \<Rightarrow> oct_len blob = 0 | Some b' \<Rightarrow> content b' = content blob)"
proof -
  obtain r where r: "octdup (Some ru) = Some (Some r)" "content r = content ru"
    using octdup_content [of ru] assms by (auto simp: small_octet_def)
  obtain b where b: "(if oct_len blob = 0 then Some None else octdup (Some blob)) = Some b"
      "case b of None \<Rightarrow> oct_len blob = 0 | Some b' \<Rightarrow> content b' = content blob"
    using octdup_content [of blob] assms by (cases "oct_len blob = 0") (auto simp: small_octet_def)
  show ?thesis
    using ruleinst_uid_ref [of ru blob bcname] assms r b by (simp add: ruleinst_new_def uid_of_def)
qed

subsection \<open>Adding a rule\<close>

lemma length_PUT_UINT32 [simp]: "length (PUT_UINT32 x) = 4"
  by (simp add: PUT_UINT32_def)

lemma length_sha1_finish: "sha1_finish ctx = Some d \<Longrightarrow> length d = 20"
  by (auto simp: sha1_finish_def Let_def bind_eq_Some_conv case_prod_unfold)

lemma ruleinst_new_uid:
  assumes "ruleinst_new rule blob bcname = Some (Some rt)"
  shows "NUL \<notin> set (ri_uid rt) \<and> length (ri_uid rt) = 40 \<and> (\<forall>c \<in> set (ri_uid rt). HEX c)"
proof -
  obtain ru sum where "ruleinst_uid ru blob bcname = Some sum" "ri_uid rt = concat (map hex2 sum)"
    using assms by (auto simp: ruleinst_new_def bind_eq_Some_conv split: option.splits if_splits)
  moreover from this have "length sum = 20"
    by (auto simp: ruleinst_uid_def bind_eq_Some_conv dest: length_sha1_finish)
  ultimately show ?thesis using HEX_hex NUL_hex by auto
qed

definition idx :: "dbase \<Rightarrow> rule list" where
  "idx db = (case db_ri db of None \<Rightarrow> [] | Some rs \<Rightarrow> rs)"

definition db_ok :: "dbase \<Rightarrow> bool" where
  "db_ok db \<longleftrightarrow> rb_ok (idx db)"

lemma find_idx: "ruleinst_find_by_uid (db_ri db) k = bsdrb_find (idx db) k"
  by (simp add: ruleinst_find_by_uid_def idx_def split: option.split)

lemma save_rule_cases:
  assumes "save_rule db s ru blob bcname fin = Some (rt, db', s')"
  obtains (old) r where "rt = None" "db' = db" "s' = s" "ruleinst_new (Some ru) (Some blob) bcname = Some (Some (r :: rule))"
      "bsdrb_find (idx db) (ri_uid r) \<noteq> None"
  | (new) r where "rt = Some (fin r)" "ruleinst_new (Some ru) (Some blob) bcname = Some (Some r)"
      "bsdrb_find (idx db) (ri_uid r) = None"
      "db' = db\<lparr>db_ri := Some (snd (bsdrb_insert (idx db) (fin r)))\<rparr>"
proof -
  obtain r :: rule where r: "ruleinst_new (Some ru) (Some blob) bcname = Some (Some r)"
    using assms by (auto simp: save_rule_def bind_eq_Some_conv)
  show thesis
  proof (cases "bsdrb_find (idx db) (ri_uid r)")
    case None
    then show thesis
      using assms r by (intro new [of r]) (auto simp: save_rule_def find_idx idx_def [symmetric] bind_eq_Some_conv split: if_splits)
  next
    case (Some x)
    then show thesis
      using assms r by (intro old [of r]) (auto simp: save_rule_def find_idx bind_eq_Some_conv)
  qed
qed

lemma idx_update [simp]: "idx (db\<lparr>db_ri := Some rs\<rparr>) = rs" "idx (db\<lparr>db_jp := j\<rparr>) = idx db"
  by (simp_all add: idx_def)

lemma get_rule_find:
  "length k = 40 \<Longrightarrow> NUL \<notin> set k \<Longrightarrow> get_rule db (Some (view k x sz)) = Some (bsdrb_find (idx db) k)"
  proof -
  assume k: "length k = 40" "NUL \<notin> set k"
  then have "takeWhile (\<lambda>c. c \<noteq> NUL) (k @ [NUL]) = k" by (subst takeWhile_append2) auto
  then show ?thesis using k by (simp add: get_rule_def oct2strcpy_def view_def rdn_def find_idx)
qed

lemma store_right_idx: "store_right db ep rt = Some (rc, db') \<Longrightarrow> idx db' = idx db"
  by (auto simp: store_right_def bind_eq_Some_conv)

lemma add_right_success:
  assumes "add_right shift db s oa bcd bcexp = Some (SPOCP_SUCCESS, Some ri, db', s')"
  obtains r ru blob where "ruleinst_new (Some ru) (Some blob) (bcd_name s bcd) = Some (Some (r :: rule))"
    "ri_uid ri = ri_uid r" "bsdrb_find (idx db) (ri_uid r) = None" "idx db' = snd (bsdrb_insert (idx db) ri)"
proof -
  obtain o0 args where oa: "oa = o0 # args" using assms by (cases oa) (auto simp: add_right_def)
  obtain r0 rest where g: "element_get shift (o0\<lparr>oct_size := 0\<rparr>) = Some (r0, rest)"
    using assms by (auto simp: oa add_right_def Let_def bind_eq_Some_conv)
  obtain ep0 where ep0: "r0 = Inr ep0" using assms g by (cases r0) (auto simp: oa add_right_def Let_def)
  obtain ru blob rt0 db1 s1 where 1:
      "save_rule db s ru blob (bcd_name s bcd) (\<lambda>rt. rt\<lparr>ri_ep := ep0, ri_bcond := bcd, ri_bcexp := bcexp\<rparr>) = Some (rt0, db1, s1)"
      "(case rt0 of None \<Rightarrow> Some (SPOCP_EXISTS, None, db1, s1)
            | Some rt \<Rightarrow> do {
                ep \<leftarrow> ep0;
                (rc, db2) \<leftarrow> store_right db1 ep rt;
                db3 \<leftarrow> (if rc \<noteq> SPOCP_SUCCESS then map_option snd (free_rule db2 (ri_uid rt)) else Some db2);
                s2 \<leftarrow> bcd_use s1 bcd rt;
                Some (rc, Some rt, db3, s2) }) = Some (SPOCP_SUCCESS, Some ri, db', s')"
    using assms g ep0 by (auto simp: oa add_right_def Let_def bind_eq_Some_conv)
  then have 2: "rt0 = Some ri" "idx db' = idx db1"
    by (auto simp: bind_eq_Some_conv dest!: store_right_idx split: option.split_asm)
  from 1(1) show thesis
  proof (cases rule: save_rule_cases)
    case (new r)
    then show thesis using 2 by (intro that [of ru blob r]) auto
  qed (simp add: 2)
qed

lemma hex_prefix_all: "\<forall>c \<in> set s. HEX c \<Longrightarrow> k + length s \<le> SHA1HASHLEN \<Longrightarrow> hex_prefix (s @ NUL # x) k = Some (k + length s)"
proof (induction s arbitrary: k)
  case Nil
  have "\<not> HEX NUL" by code_simp
  then show ?case by simp
qed simp

lemma check_uid_hex: "length k = 40 \<Longrightarrow> \<forall>c \<in> set k. HEX c \<Longrightarrow> check_uid (view k (NUL # x) sz) = Some SPOCP_SUCCESS"
  by (simp add: check_uid_def view_def hex_prefix_all SHA1HASHLEN_def)

text \<open>C22: A rule that \<open>add_right\<close> has added is found under its identifier, a text of 40
  hexadecimal digits that \<open>check_uid\<close> accepts; every other identifier finds what it found before;
  and the order of the index, which its search relies on, is kept.\<close>

theorem add_right_found:
  assumes "db_ok db" and "add_right shift db s oa bcd bcexp = Some (SPOCP_SUCCESS, Some ri, db', s')"
  shows "db_ok db' \<and> check_uid (view (ri_uid ri) (NUL # x) sz) = Some SPOCP_SUCCESS \<and>
    get_rule db' (Some (view (ri_uid ri) (NUL # x) sz)) = Some (Some ri) \<and>
    get_rule db (Some (view (ri_uid ri) (NUL # x) sz)) = Some None \<and>
    (\<forall>k. length k = 40 \<and> NUL \<notin> set k \<and> k \<noteq> ri_uid ri \<longrightarrow>
      get_rule db' (Some (view k x sz)) = get_rule db (Some (view k x sz)))"
proof -
  obtain r ru blob where r: "ruleinst_new (Some ru) (Some blob) (bcd_name s bcd) = Some (Some (r :: rule))"
    "ri_uid ri = ri_uid r" "bsdrb_find (idx db) (ri_uid r) = None" "idx db' = snd (bsdrb_insert (idx db) ri)"
    using assms(2) by (rule add_right_success)
  have u: "NUL \<notin> set (ri_uid ri)" "length (ri_uid ri) = 40" "\<forall>c \<in> set (ri_uid ri). HEX c"
    using ruleinst_new_uid [OF r(1)] r(2) by auto
  show ?thesis
    using assms(1) u r rb.inv_ins [of "idx db" ri] rb.ins_found [of "idx db" ri]
    by (auto simp: db_ok_def get_rule_find rb.find_ins check_uid_hex)
qed

lemma add_right_first:
  assumes t: "t \<noteq> []" "t \<noteq> ''*''" "length t < 1000" and s: "\<not> bc_dback s"
  shows "\<exists>ri db' s'. add_right shift (db_new rnd before) (s :: ('p, rule) bcstore)
      [view (esexp (list_of [mk_atom t])) [] 0] None None = Some (SPOCP_SUCCESS, Some ri, db', s')"
proof -
  define e where "e = list_of [mk_atom t]"
  define o0 where "o0 = view (esexp e) [] 0"
  have len: "length (esexp e) < 2000" "0 < length (esexp e)"
    using t(3) length_netstr_DIGITS [of t] by (auto simp: e_def list_of_def DIGITS_def)
  have "good_elem e" using t by (auto simp: e_def list_of_def good_atom_def)
  then have g: "element_get shift o0 = Some (Inr (Some e), view [] [] 0)"
    using good_elem_parses [of e shift] parsesD [of shift e "[]" "[]" 0] len by (simp add: o0_def)
  have o0: "o0\<lparr>oct_size := 0\<rparr> = o0" "o0\<lparr>oct_size := 0, oct_len := oct_len o0\<rparr> = o0" "szsub (oct_len o0) 0 = oct_len o0" "o0\<lparr>oct_len := oct_len o0\<rparr> = o0"
     "small_octet o0" "0 < oct_len o0"
    using len by (simp_all add: o0_def view_def small_octet_def wf_octet_def)
  define bl where "bl = \<lparr>oct_val = [], oct_len = 0, oct_size = 0\<rparr>"
  obtain r b where n: "ruleinst_new (Some o0) (Some bl) None =
      Some (Some \<lparr>ri_uid = uid_of o0 bl None, ri_rule = r, ri_blob = b, ri_bcexp = None, ri_ep = None, ri_bcond = None\<rparr> :: rule option)"
    using ruleinst_new_ok [of o0 bl None] o0 by (auto simp: bl_def small_octet_def wf_octet_def)
  define rt :: rule where "rt = \<lparr>ri_uid = uid_of o0 bl None, ri_rule = r, ri_blob = b, ri_bcexp = None, ri_ep = Some e, ri_bcond = None\<rparr>"
  have rt': "rt\<lparr>ri_bcond := None, ri_bcexp := None\<rparr> = rt" by (simp add: rt_def)
  have ok: "atom_ok (mk_atom t)" using t by (simp add: atom_ok_def mk_atom_def wf_octet_def content_def)
  then obtain st where "store_atoms (empty_tree rnd before) [mk_atom t] rt = Some st"
    using store_first [of "mk_atom t" rnd before rt] by blast
  then obtain p where p: "element_add (empty_tree rnd before) 0 (c_top e) rt = Some (st, Some p)"
    by (auto simp: store_atoms_def e_def split: option.splits)
  show ?thesis
    unfolding e_def [symmetric] o0_def [symmetric] 
    using s by (simp add: add_right_def g o0 bl_def [symmetric] save_rule_def n bcd_name_def ruleinst_find_by_uid_def db_new_def
      rt_def [symmetric] rt' store_right_def p bcd_use_def)
qed

definition no_conds :: "(unit, rule) bcstore" where
  "no_conds = \<lparr>bc_defs = [], bc_chain = [], bc_exps = 0, bc_dback = False, bc_ops = []\<rparr>"

theorem add_right_found_witness:
  "\<exists>ri db' s'. add_right (\<lambda>t d. t) (db_new (\<lambda>i. 0) [NUL]) no_conds [view (esexp (list_of [mk_atom ''read''])) [] 0] None None
      = Some (SPOCP_SUCCESS, Some ri, db', s') \<and>
    get_rule db' (Some (view (ri_uid ri) [NUL] 0)) = Some (Some ri)"
proof -
  obtain ri db' s' where a: "add_right (\<lambda>t d. t) (db_new (\<lambda>i. 0) [NUL]) no_conds
      [view (esexp (list_of [mk_atom ''read''])) [] 0] None None = Some (SPOCP_SUCCESS, Some ri, db', s')"
    using add_right_first [of "''read''" no_conds] by (fastforce simp: no_conds_def)
  moreover have "db_ok (db_new (\<lambda>i. 0) [NUL])" by (simp add: db_ok_def idx_def db_new_def)
  ultimately show ?thesis using add_right_found by blast
qed

text \<open>The identifier of a rule is the SHA-1 digest of the text of the rule, the name of its
  boundary condition and its blob, with nothing to separate them. So a rule is refused as already
  stored whenever name and blob run together give the same bytes: once \<open>save_rule\<close> has stored a
  rule with the condition \<open>n1\<close> and the blob \<open>b1\<close>, it refuses the same rule with \<open>n2\<close> and \<open>b2\<close>
  when \<open>n1\<close> followed by \<open>b1\<close> is \<open>n2\<close> followed by \<open>b2\<close>.\<close>

theorem save_rule_ambiguous:
  assumes "db_ok db" and "small_octet ru" "0 < oct_len ru"
    and "small_octet b1" "length n1 < 2 ^ 29" "small_octet b2" "length n2 < 2 ^ 29"
    and cat: "n1 @ content b1 = n2 @ content b2"
    and keep: "\<forall>r. ri_uid (fin r) = ri_uid r"
    and saved: "save_rule db s ru b1 (Some n1) fin = Some (Some rt, db1, s1)"
  shows "save_rule db1 s1 ru b2 (Some n2) fin' = Some (None, db1, s1)"
proof -
  have u: "uid_of ru b1 (Some n1) = uid_of ru b2 (Some n2)" by (simp add: uid_of_def uid_text_def cat)
  obtain x1 y1 where 1: "ruleinst_new (Some ru) (Some b1) (Some n1) =
      Some (Some \<lparr>ri_uid = uid_of ru b1 (Some n1), ri_rule = x1, ri_blob = y1, ri_bcexp = None, ri_ep = None, ri_bcond = None\<rparr> :: rule option)"
    using ruleinst_new_ok [of ru b1 "Some n1"] assms by auto
  obtain x2 y2 where 2: "ruleinst_new (Some ru) (Some b2) (Some n2) =
      Some (Some \<lparr>ri_uid = uid_of ru b2 (Some n2), ri_rule = x2, ri_blob = y2, ri_bcexp = None, ri_ep = None, ri_bcond = None\<rparr> :: rule option)"
    using ruleinst_new_ok [of ru b2 "Some n2"] assms by auto
  have nul: "NUL \<notin> set (uid_of ru b1 (Some n1))" by (simp only: uid_of_def NUL_hex not_False_eq_True)
  from saved have "bsdrb_find (idx db1) (uid_of ru b1 (Some n1)) \<noteq> None"
  proof (cases rule: save_rule_cases)
    case (new r)
    then show ?thesis
      using 1 keep nul rb.ins_found [of "idx db" rt] assms(1) by (auto simp: db_ok_def)
  qed simp
  then show ?thesis by (simp add: save_rule_def 2 find_idx u)
qed

theorem save_rule_ambiguous_witness:
  "\<exists>rt db1. save_rule (db_new (\<lambda>i. 0) [NUL]) no_conds (mk_octet ''(4:read)'') (mk_octet ''yz'') (Some ''x'') (\<lambda>r. r) =
      Some (Some rt, db1, no_conds) \<and>
    save_rule db1 no_conds (mk_octet ''(4:read)'') (mk_octet ''z'') (Some ''xy'') (\<lambda>r. r) = Some (None, db1, no_conds)"
proof -
  have ok: "small_octet (mk_octet ''(4:read)'')" "small_octet (mk_octet ''yz'')" "small_octet (mk_octet ''z'')"
    "content (mk_octet ''yz'') = ''yz''" "content (mk_octet ''z'') = ''z''" "0 < oct_len (mk_octet ''(4:read)'')"
    by (simp_all add: small_octet_def mk_octet_def wf_octet_def content_def)
  obtain r b where n: "ruleinst_new (Some (mk_octet ''(4:read)'')) (Some (mk_octet ''yz'')) (Some ''x'') =
      Some (Some \<lparr>ri_uid = uid_of (mk_octet ''(4:read)'') (mk_octet ''yz'') (Some ''x''), ri_rule = r, ri_blob = b,
        ri_bcexp = None, ri_ep = None, ri_bcond = None\<rparr> :: rule option)"
    using ruleinst_new_ok [of "mk_octet ''(4:read)''" "mk_octet ''yz''" "Some ''x''"] ok by auto
  have e: "db_ri (db_new (\<lambda>i. 0) [NUL]) = None" "\<not> bc_dback no_conds" by (simp_all add: db_new_def no_conds_def)
  have "\<exists>rt db1. save_rule (db_new (\<lambda>i. 0) [NUL]) no_conds (mk_octet ''(4:read)'') (mk_octet ''yz'') (Some ''x'') (\<lambda>r. r) =
      Some (Some rt, db1, no_conds)"
    by (simp add: save_rule_def ruleinst_find_by_uid_def n e Let_def)
  then obtain rt db1 where "save_rule (db_new (\<lambda>i. 0) [NUL]) no_conds (mk_octet ''(4:read)'') (mk_octet ''yz'') (Some ''x'') (\<lambda>r. r) =
      Some (Some rt, db1, no_conds)" by blast
  moreover have "db_ok (db_new (\<lambda>i. 0) [NUL])" by (simp add: db_ok_def idx_def db_new_def)
  ultimately show ?thesis
    using save_rule_ambiguous [of "db_new (\<lambda>i. 0) [NUL]" "mk_octet ''(4:read)''" "mk_octet ''yz''" "''x''" "mk_octet ''z''" "''xy''"] ok
    by fastforce
qed

subsection \<open>The description of a rule\<close>

lemma octcats_content:
  "wf_dyn o1 \<Longrightarrow> 0 < oct_size o1 \<Longrightarrow> oct_len o1 + length (concat ss) < 2 ^ 31 \<Longrightarrow>
   \<exists>o2. octcats o1 ss = Some o2 \<and> content o2 = content o1 @ concat ss \<and> wf_dyn o2"
proof (induction ss arbitrary: o1)
  case (Cons s ss)
  obtain o2 where o2: "octcat o1 s (length s) = Some (SPOCP_SUCCESS, o2)" "content o2 = content o1 @ s" "wf_dyn o2" "0 < oct_size o2"
    using octcat_content [of o1 "length s" s] Cons.prems by auto
  then have "oct_len o2 = oct_len o1 + length s"
    using Cons.prems(1) by (metis content_def length_append length_take min.absorb2 wf_dyn_def wf_octet_def)
  then show ?case using Cons.IH [of o2] Cons.prems o2 by auto
qed simp

lemma rdn_content: "wf_octet o1 \<Longrightarrow> rdn (oct_val o1) (oct_len o1) = Some (content o1)"
  by (simp add: rdn_def wf_octet_def content_def)

lemma netstr_prefix: "wf_octet o1 \<Longrightarrow> len_prefix (oct_len o1) @ content o1 = netstr (content o1)"
  by (simp add: len_prefix_def netstr_def wf_octet_def content_def)

lemma netstr_nonempty: "netstr s \<noteq> []"
  by (simp add: netstr_def)

text \<open>What a listing shows of a rule: the path of its ruleset, its identifier, its text, and the
  boundary condition and the blob where there are any; \<open>NULL\<close> stands for the condition of a rule
  with a blob and none. Every field is preceded by its length.\<close>

definition field :: "octet option \<Rightarrow> bytes" where
  "field oc = (case oc of None \<Rightarrow> [] | Some o1 \<Rightarrow> if oct_len o1 = 0 then [] else netstr (content o1))"

lemma decimal_1: "decimal (Suc 0) = ''1''"
  by code_simp

lemma decimal_40: "decimal 40 = ''40''"
  by code_simp

lemma pos_exI: "0 < n \<Longrightarrow> \<exists>l :: nat. 0 < l \<and> f n = f l"
  by auto

lemma ruleinst_print_text:
  assumes "length (ri_uid r) = 40" and "length path < 1000" and "wf_octet (ri_rule r)"
    and "\<And>b. ri_bcexp r = Some b \<Longrightarrow> wf_octet b" and "\<And>b. ri_blob r = Some b \<Longrightarrow> wf_octet b"
    and t: "t = netstr (if path = [] then ''/'' else path) @ netstr (ri_uid r) @ netstr (content (ri_rule r)) @
      (if field (ri_bcexp r) = [] \<and> field (ri_blob r) \<noteq> [] then netstr ''NULL'' else field (ri_bcexp r)) @ field (ri_blob r)"
    and "length t < 2 ^ 31"
  shows "\<exists>oct. ruleinst_print r (Some path) = Some oct \<and> content oct = t"
proof -
  define fl where "fl = (if path = [] then (''1:/'', 1 :: nat) else (take 1023 (len_prefix (length path) @ path), length path))"
  have fl: "fst fl = netstr (if path = [] then ''/'' else path)"
  proof -
    have "length (len_prefix (length path)) < 10"
      using length_netstr_DIGITS [of path] assms(2) by (simp add: len_prefix_def netstr_def DIGITS_def)
    then show ?thesis using assms(2) by (auto simp: fl_def len_prefix_def netstr_def decimal_1)
  qed
  have uid: "rdn (ri_uid r @ [NUL]) 40 = Some (ri_uid r)" "''40:'' @ ri_uid r = netstr (ri_uid r)"
    using assms(1) by (simp_all add: rdn_def netstr_def decimal_40)
  have nl: "''4:NULL'' = netstr ''NULL''" by code_simp
  define bc where "bc = (if field (ri_bcexp r) = [] then (if field (ri_blob r) = [] then [] else [''4:NULL''])
      else [len_prefix (oct_len (the (ri_bcexp r))), content (the (ri_bcexp r))])"
  define bl where "bl = (if field (ri_blob r) = [] then []
      else [len_prefix (oct_len (the (ri_blob r))), content (the (ri_blob r))])"
  define parts where "parts = [fst fl, ''40:'', ri_uid r, len_prefix (oct_len (ri_rule r)), content (ri_rule r)] @ bc @ bl"
  have "concat parts = t"
    using netstr_prefix [OF assms(3)] uid nl fl assms(4,5) netstr_prefix
    by (auto simp: parts_def bc_def bl_def t field_def split: option.splits)
  have "\<exists>l > 0. ruleinst_print r (Some path) = octcats \<lparr>oct_val = replicate l NUL, oct_len = 0, oct_size = l\<rparr> parts"
    using assms(3,4,5) uid(1)
    by (cases "ri_bcexp r"; cases "ri_blob r")
      (auto simp: ruleinst_print_def oct_new_def Let_def fl_def rdn_content parts_def bc_def bl_def field_def netstr_nonempty
       simp del: octcats.simps split: if_split intro!: pos_exI)
  then obtain l where l: "0 < l" "ruleinst_print r (Some path) = octcats \<lparr>oct_val = replicate l NUL, oct_len = 0, oct_size = l\<rparr> parts"
    by blast
  show ?thesis
    using octcats_content [of "\<lparr>oct_val = replicate l NUL, oct_len = 0, oct_size = l\<rparr>" parts] l assms(7) \<open>concat parts = t\<close>
    by (auto simp: wf_dyn_def wf_octet_def content_def)
qed

end
