(* ===== verification/Ss.thy ===== *)
theory Ss
  imports Ruleset Db
begin

text \<open>
  Queries, counting and deleting over the tree of rulesets, \<open>server/ss.c\<close>. What a ruleset holds is
  its rule database, \<open>None\<close> for the null pointer, and its boundary conditions.

  The position of the ruleset that a request names is not looked at: the functions get the ruleset
  itself. Following a null pointer is \<open>None\<close>.
\<close>

type_synonym 'b rsdata = "dbase option \<times> 'b"

definition BASE :: int where "BASE = 1"

definition ONELEVEL :: int where "ONELEVEL = 2"

definition SUBTREE :: int where "SUBTREE = 4"

definition ALL_RULES :: int where "ALL_RULES = 16"

abbreviation rs_db :: "'b rsdata ruleset \<Rightarrow> dbase option" where
  "rs_db r \<equiv> fst (rs_data r)"

lemma size_list_rev [simp]: "size_list f (rev xs) = size_list f xs"
  by (induction xs) auto

lemma size_kids: "size_list size (kids r) < size (r :: 'd ruleset)"
  by (cases r) (auto simp: kids_def split: option.split)

lemma size_kids_twice: "Suc (2 * size_list size (kids r)) < 2 * size (r :: 'd ruleset)"
  using size_kids [of r] by linarith

subsection \<open>Queries\<close>

text \<open>The query in one ruleset. Without a database its rule tree is read through a null pointer. A
  null element, the result of parsing a closing parenthesis, matches nothing.\<close>

definition allow_leaf :: "nat evaluator \<Rightarrow> int \<Rightarrow> nat \<Rightarrow> bool \<Rightarrow> 'b rsdata ruleset \<Rightarrow> element option \<Rightarrow>
    (spocp_result \<times> rule resset) option" where
  "allow_leaf beval num fuel all rs ep = do {
     db \<leftarrow> rs_db rs;
     case ep of
       None \<Rightarrow> Some (SPOCP_DENIED, [])
     | Some e \<Rightarrow> do {
         (rc, res, _) \<leftarrow> allowed beval num fuel (db_jp db) (Some 0)
           \<lparr>cp_head = e, cp_blob = None, cp_rc = SPOCP_SUCCESS, cp_all = all, cp_nobe = False, cp_cr = []\<rparr>;
         Some (rc, res) } }"

text \<open>For a whole subtree the rulesets of a level are tried from left to right. On one level, the list
  of checked rules is a null pointer that is followed at the end. There is no case for a single
  ruleset.\<close>

function rec_allow :: "nat evaluator \<Rightarrow> int \<Rightarrow> nat \<Rightarrow> 'b rsdata ruleset \<Rightarrow> element option \<Rightarrow> int \<Rightarrow>
    (spocp_result \<times> rule resset) option"
  and allow_kids :: "nat evaluator \<Rightarrow> int \<Rightarrow> nat \<Rightarrow> 'b rsdata ruleset list \<Rightarrow> element option \<Rightarrow> int \<Rightarrow>
    spocp_result \<Rightarrow> rule resset \<Rightarrow> (spocp_result \<times> rule resset) option" where
  "rec_allow beval num fuel rs ep scope =
     (if scope mod 16 = SUBTREE then
        (if rs_down rs \<noteq> None then allow_kids beval num fuel (kids rs) ep scope SPOCP_DENIED []
         else allow_leaf beval num fuel (scope div 16 \<noteq> 0) rs ep)
      else if scope mod 16 = ONELEVEL then
        (if rs_down rs \<noteq> None then None else Some (SPOCP_DENIED, []))
      else Some (SPOCP_DENIED, []))"
| "allow_kids beval num fuel [] ep scope acc rset = Some (acc, rset)"
| "allow_kids beval num fuel (k # ks) ep scope acc rset =
     (case rec_allow beval num fuel k ep scope of
        None \<Rightarrow> None
      | Some (res, xrs) \<Rightarrow>
          if scope div 16 = 0 \<and> res = SPOCP_SUCCESS then Some (SPOCP_SUCCESS, resset_join rset xrs)
          else allow_kids beval num fuel ks ep scope (if res = SPOCP_SUCCESS then res else acc) (resset_join rset xrs))"
  by pat_completeness auto
termination
  by (relation "measure (case_sum (\<lambda>(_, _, _, r, _). 2 * size r) (\<lambda>(_, _, _, ks, _). 2 * size_list size ks + 1))")
    (auto intro: size_kids_twice)

declare rec_allow.simps [simp del]

definition skip_sexp :: "(bytes \<Rightarrow> int \<Rightarrow> bytes) \<Rightarrow> octet \<Rightarrow> ((spocp_result + element option) \<times> octet) option" where
  "skip_sexp shift sexp = element_get shift sexp"

definition ss_allow :: "(bytes \<Rightarrow> int \<Rightarrow> bytes) \<Rightarrow> nat evaluator \<Rightarrow> int \<Rightarrow> nat \<Rightarrow> 'b rsdata ruleset option \<Rightarrow>
    octet option \<Rightarrow> int \<Rightarrow> (spocp_result \<times> rule resset) option" where
  "ss_allow shift beval num fuel rs0 sexp scope = (case (rs0, sexp) of
      (Some rs, Some q) \<Rightarrow>
        if oct_len q = 0 then Some (SPOCP_DENIED, [])
        else if \<not> rules (rs_db rs) \<and> rs_down rs = None then Some (SPOCP_DENIED, [])
        else do {
          (r, _) \<leftarrow> element_get shift (q\<lparr>oct_size := 0\<rparr>);
          case r of
            Inl rc \<Rightarrow> Some (rc, [])
          | Inr ep \<Rightarrow> rec_allow beval num fuel rs ep scope }
    | _ \<Rightarrow> Some (SPOCP_DENIED, []))"

subsection \<open>Counting rules\<close>

function rec_rules :: "'b rsdata ruleset \<Rightarrow> int \<Rightarrow> int option"
  and kids_rules :: "'b rsdata ruleset list \<Rightarrow> int \<Rightarrow> int option" where
  "rec_rules rs scope =
     (if scope = SUBTREE then do {
        n \<leftarrow> kids_rules (kids rs) scope;
        db \<leftarrow> rs_db rs;
        Some (n + nrules db) }
      else if scope = BASE then map_option nrules (rs_db rs)
      else if scope = ONELEVEL then kids_rules (kids rs) scope
      else Some 0)"
| "kids_rules [] scope = Some 0"
| "kids_rules (k # ks) scope = do {
     n \<leftarrow> (if scope = SUBTREE then rec_rules k scope else map_option nrules (rs_db k));
     m \<leftarrow> kids_rules ks scope;
     Some (n + m) }"
  by pat_completeness auto
termination
  by (relation "measure (case_sum (\<lambda>(r, _). 2 * size r) (\<lambda>(ks, _). 2 * size_list size ks + 1))")
    (auto intro: size_kids_twice)

declare rec_rules.simps [simp del]

subsection \<open>What a query looks at\<close>

text \<open>The rulesets at the end of the branches below a ruleset.\<close>

inductive leaf_of :: "'d ruleset \<Rightarrow> 'd ruleset \<Rightarrow> bool" where
  leaf: "rs_down r = None \<Longrightarrow> leaf_of r r"
| below: "rs_down r \<noteq> None \<Longrightarrow> k \<in> set (kids r) \<Longrightarrow> leaf_of l k \<Longrightarrow> leaf_of l r"

inductive_cases leaf_ofE: "leaf_of l r"

lemma leaf_of_leaf [simp]: "rs_down r = None \<Longrightarrow> leaf_of l r \<longleftrightarrow> l = r"
  by (auto elim: leaf_ofE intro: leaf_of.leaf)

lemma leaf_of_inner: "rs_down r \<noteq> None \<Longrightarrow> leaf_of l r \<longleftrightarrow> (\<exists>k \<in> set (kids r). leaf_of l k)"
  by (auto elim: leaf_ofE intro: leaf_of.below)

definition grants :: "nat evaluator \<Rightarrow> int \<Rightarrow> nat \<Rightarrow> bool \<Rightarrow> element option \<Rightarrow> 'b rsdata ruleset \<Rightarrow> bool" where
  "grants beval num fuel all ep l \<longleftrightarrow> (\<exists>res. allow_leaf beval num fuel all l ep = Some (SPOCP_SUCCESS, res))"

lemma rec_allow_leaves_aux:
  fixes rs :: "'b rsdata ruleset" and ks :: "'b rsdata ruleset list"
  shows "scope mod 16 = SUBTREE \<Longrightarrow> (\<And>l. leaf_of l rs \<Longrightarrow> allow_leaf beval num fuel (scope div 16 \<noteq> 0) l ep \<noteq> None) \<Longrightarrow>
    \<exists>r res. rec_allow beval num fuel rs ep scope = Some (r, res) \<and>
      (r = SPOCP_SUCCESS \<longleftrightarrow> (\<exists>l. leaf_of l rs \<and> grants beval num fuel (scope div 16 \<noteq> 0) ep l)) \<and>
      (rs_down rs \<noteq> None \<longrightarrow> r = SPOCP_SUCCESS \<or> r = SPOCP_DENIED)"
  and "scope mod 16 = SUBTREE \<Longrightarrow> acc = SPOCP_SUCCESS \<or> acc = SPOCP_DENIED \<Longrightarrow>
    (\<And>k l. k \<in> set ks \<Longrightarrow> leaf_of l k \<Longrightarrow> allow_leaf beval num fuel (scope div 16 \<noteq> 0) l ep \<noteq> None) \<Longrightarrow>
    \<exists>r res. allow_kids beval num fuel ks ep scope acc rset = Some (r, res) \<and>
      (r = SPOCP_SUCCESS \<longleftrightarrow> acc = SPOCP_SUCCESS \<or> (\<exists>k \<in> set ks. \<exists>l. leaf_of l k \<and> grants beval num fuel (scope div 16 \<noteq> 0) ep l)) \<and>
      (r = SPOCP_SUCCESS \<or> r = SPOCP_DENIED)"
proof (induction beval num fuel rs ep scope and beval num fuel ks ep scope acc rset rule: rec_allow_allow_kids.induct)
  case (1 beval num fuel rs ep scope)
  show ?case
  proof (cases "rs_down rs")
    case None
    obtain r res where "allow_leaf beval num fuel (scope div 16 \<noteq> 0) rs ep = Some (r, res)"
      using 1(3) [of rs] None by auto
    then show ?thesis using 1(2) None by (simp add: rec_allow.simps grants_def)
  next
    case (Some lv)
    then show ?thesis
      using 1(1) [OF 1(2)] 1(2,3) leaf_of_inner [of rs] by (simp add: rec_allow.simps [of beval num fuel rs]) metis
  qed
next
  case (3 beval num fuel k ks ep scope acc rset)
  obtain r res where k: "rec_allow beval num fuel k ep scope = Some (r, res)"
      "r = SPOCP_SUCCESS \<longleftrightarrow> (\<exists>l. leaf_of l k \<and> grants beval num fuel (scope div 16 \<noteq> 0) ep l)"
  proof -
    have "\<exists>r res. rec_allow beval num fuel k ep scope = Some (r, res) \<and>
        (r = SPOCP_SUCCESS \<longleftrightarrow> (\<exists>l. leaf_of l k \<and> grants beval num fuel (scope div 16 \<noteq> 0) ep l)) \<and>
        (rs_down k \<noteq> None \<longrightarrow> r = SPOCP_SUCCESS \<or> r = SPOCP_DENIED)"
      using 3(3,5) by (intro 3(1)) auto
    then show thesis by (elim exE conjE) (rule that)
  qed
  show ?case
  proof (cases "scope div 16 = 0 \<and> r = SPOCP_SUCCESS")
    case True
    then show ?thesis using k by auto
  next
    case False
    define acc' where "acc' = (if r = SPOCP_SUCCESS then r else acc)"
    have "\<exists>r' res'. allow_kids beval num fuel ks ep scope acc' (resset_join rset res) = Some (r', res') \<and>
        (r' = SPOCP_SUCCESS \<longleftrightarrow> acc' = SPOCP_SUCCESS \<or> (\<exists>k \<in> set ks. \<exists>l. leaf_of l k \<and> grants beval num fuel (scope div 16 \<noteq> 0) ep l)) \<and>
        (r' = SPOCP_SUCCESS \<or> r' = SPOCP_DENIED)"
      unfolding acc'_def using 3(3-5) by (intro 3(2) [OF k(1) refl False]) auto
    then show ?thesis using False k by (auto simp: acc'_def split: if_splits)
  qed
qed simp

lemma rec_allow_own_data:
  "rs_down rs \<noteq> None \<Longrightarrow> rec_allow beval num fuel (Ruleset nm d (rs_down rs)) ep scope = rec_allow beval num fuel rs ep scope"
  by (simp add: rec_allow.simps kids_def)

text \<open>C17: Which rules decide a query. When the ruleset that is asked has rulesets below it, \<open>ss_allow\<close>
  grants the query exactly when a ruleset at the end of a branch grants it. The rules of the ruleset
  itself and of those on the way are not looked at: whatever they are, the answer is the same.\<close>

theorem ss_allow_leaves:
  assumes "scope = SUBTREE \<or> scope = SUBTREE + ALL_RULES" and "rs_down rs \<noteq> None" and "0 < oct_len q"
    and "element_get shift (q\<lparr>oct_size := 0\<rparr>) = Some (Inr ep, rest)"
    and "\<forall>l. leaf_of l rs \<longrightarrow> allow_leaf beval num fuel (scope \<noteq> SUBTREE) l ep \<noteq> None"
  shows "\<exists>r res. ss_allow shift beval num fuel (Some rs) (Some q) scope = Some (r, res) \<and>
      (r = SPOCP_SUCCESS \<longleftrightarrow> (\<exists>l. leaf_of l rs \<and> grants beval num fuel (scope \<noteq> SUBTREE) ep l)) \<and>
      (r = SPOCP_SUCCESS \<or> r = SPOCP_DENIED) \<and>
      (\<forall>d. ss_allow shift beval num fuel (Some (Ruleset (rs_name rs) d (rs_down rs))) (Some q) scope = Some (r, res))"
proof -
  have sc: "scope mod 16 = SUBTREE" "scope div 16 \<noteq> 0 \<longleftrightarrow> scope \<noteq> SUBTREE"
    using assms(1) by (auto simp: SUBTREE_def ALL_RULES_def)
  obtain r res where 1: "rec_allow beval num fuel rs ep scope = Some (r, res)"
      "r = SPOCP_SUCCESS \<longleftrightarrow> (\<exists>l. leaf_of l rs \<and> grants beval num fuel (scope \<noteq> SUBTREE) ep l)" "r = SPOCP_SUCCESS \<or> r = SPOCP_DENIED"
    using rec_allow_leaves_aux(1) [OF sc(1), of rs beval num fuel ep] assms(2,5) sc(2) by auto
  then show ?thesis
    using assms(2-4) rec_allow_own_data [OF assms(2)] by (auto simp: ss_allow_def)
qed

definition two_rulesets :: "unit rsdata ruleset" where
  "two_rulesets = Ruleset [] (Some (db_new (\<lambda>i. 0) [NUL]), ())
     (Some ([], Ruleset ''a'' (Some (db_new (\<lambda>i. 0) [NUL]), ()) None, []))"

definition ask_read :: octet where
  "ask_read = view (esexp (list_of [mk_atom ''read''])) [NUL] 0"

lemma ask_read_parses:
  "element_get shift (ask_read\<lparr>oct_size := 0\<rparr>) = Some (Inr (Some (list_of [mk_atom ''read''])), view [] [NUL] 0)"
proof -
  have "good_elem (list_of [mk_atom ''read''])" by (simp add: list_of_def good_atom_def)
  moreover have "esexp (list_of [mk_atom ''read'']) = ''(4:read)''"
    by (simp add: list_of_def netstr_def decimal.simps [of 4] digit_char_def) code_simp
  ultimately show ?thesis
    using good_elem_parses [of "list_of [mk_atom ''read'']" shift] parsesD [of shift "list_of [mk_atom ''read'']" "[]" "[NUL]" 0]
    by (simp add: ask_read_def view_def)
qed

lemma two_rulesets_leaf: "leaf_of l two_rulesets \<longleftrightarrow> l = Ruleset ''a'' (Some (db_new (\<lambda>i. 0) [NUL]), ()) None"
  by (subst leaf_of_inner) (auto simp: two_rulesets_def kids_def)

lemma empty_leaf_denies: "allow_leaf (\<lambda>h ri. None) 0 (Suc 0) False (Ruleset ''a'' (Some (db_new (\<lambda>i. 0) [NUL]), ()) None)
    (Some (list_of [mk_atom ''read''])) = Some (SPOCP_DENIED, [])"
proof -
  have "branch_val (empty_tree (\<lambda>i. 0) [NUL] :: nat tree) 0 t = None" for t
    by (simp add: branch_val_def ARRFIND_def empty_tree_def)
  then show ?thesis by (simp add: allow_leaf_def allowed_def db_new_def element_match_def list_of_def c_top_def)
qed

theorem ss_allow_leaves_witness:
  "\<exists>res. ss_allow (\<lambda>t d. t) (\<lambda>h ri. None) 0 (Suc 0) (Some two_rulesets) (Some ask_read) SUBTREE = Some (SPOCP_DENIED, res)"
proof -
  have "\<not> grants (\<lambda>h ri. None) 0 (Suc 0) False (Some (list_of [mk_atom ''read''])) (Ruleset ''a'' (Some (db_new (\<lambda>i. 0) [NUL]), ()) None)"
    by (simp add: grants_def empty_leaf_denies)
  moreover have "rs_down two_rulesets \<noteq> None" "0 < oct_len ask_read" by (simp_all add: two_rulesets_def ask_read_def list_of_def)
  ultimately show ?thesis
    using ss_allow_leaves [of SUBTREE two_rulesets ask_read "\<lambda>t d. t" "Some (list_of [mk_atom ''read''])" "view [] [NUL] 0" "\<lambda>h ri. None" 0 "Suc 0"]
      ask_read_parses empty_leaf_denies by (auto simp: two_rulesets_leaf)
qed

text \<open>C26: A ruleset that has been created and holds no database is a fault waiting for the next query:
  after \<open>ruleset_create\<close> has made the first ruleset below the root, \<open>ss_allow\<close> at the root follows its
  null database pointer for every query that parses.\<close>

theorem ss_allow_new_ruleset_faults:
  assumes "rs_down (fo_root f) = None" and "name_ok n" "length (path_text [n]) < 2 ^ 31"
    and "0 < oct_len q" and "element_get shift (q\<lparr>oct_size := 0\<rparr>) = Some (Inr ep, rest)"
  shows "\<exists>f'. ruleset_create (None, b) (Some (path_arg [n] x sz)) f = Some (f', Some (view [] (NUL # x) sz)) \<and>
    ss_allow shift beval num fuel (Some (fo_root f')) (Some q) SUBTREE = None"
proof (rule ruleset_create_path [OF assms(2) _ assms(3), of "(None, b)" x sz f])
  fix ns assume a: "map content ns = [n]"
    "ruleset_create (None, b) (Some (path_arg [n] x sz)) f =
       map_option (\<lambda>r'. (f\<lparr>fo_root := r'\<rparr>, Some (view [] (NUL # x) sz))) (create_path (None, b) ns (fo_root f))"
  then obtain o1 where "ns = [o1]" by auto
  then have "\<exists>nm. create_path (None, b) ns (fo_root f) =
      Some (Ruleset (rs_name (fo_root f)) (rs_data (fo_root f)) (Some ([], Ruleset nm (None, b) None, [])))"
    using assms(1) by (auto simp: ruleset_new_def)
  then show ?thesis
    using a(2) assms(4,5) by (auto simp: ss_allow_def rec_allow.simps kids_def allow_leaf_def SUBTREE_def)
qed simp

theorem ss_allow_new_ruleset_faults_witness:
  "\<exists>f'. ruleset_create (None, ()) (Some (path_arg [''a''] [] 0)) \<lparr>fo_server = None, fo_root = Ruleset [] (Some (db_new (\<lambda>i. 0) [NUL]), ()) None\<rparr>
      = Some (f', Some (view [] [NUL] 0)) \<and>
    ss_allow (\<lambda>t d. t) (\<lambda>h ri. None) 0 3 (Some (fo_root f')) (Some ask_read) SUBTREE = None"
proof -
  have "name_ok ''a''" by code_simp
  moreover have "length (path_text [''a'']) < 2 ^ 31" by (simp add: path_text_def)
  moreover have "0 < oct_len ask_read" by (simp add: ask_read_def list_of_def)
  ultimately show ?thesis
    using ask_read_parses by (intro ss_allow_new_ruleset_faults) auto
qed

end
