(* ===== verification/Saci.thy ===== *)
theory Saci
  imports Ss Conn
begin

text \<open>
  The access control of the server itself: queries made from a format (\<open>lib/sexptool.c\<close>) and asked of
  the server's own rules (\<open>server/saci.c\<close>). The model is that of a server built without TLS and SASL.

  The functions that fill in the variables of a format get the connection and the request. A C string
  that a buffer holds is what precedes its first NUL; reading one that fills its buffer is a fault.
\<close>

subsection \<open>Requests\<close>

record work_info =
  wi_oparg :: "octarr option"
  wi_oppath :: "octet option"
  wi_oper :: octet
  wi_buf :: iobuf

definition cstr :: "nat \<Rightarrow> bytes \<Rightarrow> bytes option" where
  "cstr cap out = (let s = takeWhile (\<lambda>c. c \<noteq> NUL) out in if length s < cap then Some s else None)"

subsection \<open>Formats\<close>

text \<open>The variables of a format, with the function that gives the value and the way it is printed:
  as it is (\<open>l\<close>) or with its length in front (\<open>a\<close>). The inverted host name is in the table of the code
  and in no format.\<close>

datatype svar = Get_ip | Get_host | Get_subject | Get_action | Get_arguments | Get_path | Get_transpsec

datatype part = Lit bytes | Var svar char

definition transf :: "(bytes \<times> svar \<times> char) list" where
  "transf = [(''ip'', Get_ip, CHR ''a''), (''host'', Get_host, CHR ''a''), (''subject'', Get_subject, CHR ''l''),
     (''operation'', Get_action, CHR ''l''), (''arguments'', Get_arguments, CHR ''l''), (''path'', Get_path, CHR ''l''),
     (''transportsec'', Get_transpsec, CHR ''l'')]"

fun strstr :: "bytes \<Rightarrow> bytes \<Rightarrow> nat \<Rightarrow> nat option" where
  "strstr [] w i = (if w = [] then Some i else None)"
| "strstr (c # s) w i = (if take (length w) (c # s) = w then Some i else strstr s w (Suc i))"

lemma strstr_bound: "strstr s w i = Some k \<Longrightarrow> i \<le> k \<and> k \<le> i + length s"
  by (induction s w i rule: strstr.induct) (auto split: if_splits)

text \<open>The null pointer for a variable that is not in the table is \<open>None\<close>.\<close>

function parse_format :: "bytes \<Rightarrow> (bytes \<times> svar \<times> char) list \<Rightarrow> part list option" where
  "parse_format sp tab =
     (case strstr sp ''%{'' 0 of
        None \<Rightarrow> Some (if sp = [] then [] else [Lit sp])
      | Some k \<Rightarrow>
          let vp = drop (k + 2) sp in
          (case find_balancing vp CHR ''{'' CHR ''}'' 0 0 of
             None \<Rightarrow> Some [Lit sp]
           | Some t \<Rightarrow>
               (case map_of tab (take t vp) of
                  None \<Rightarrow> None
                | Some (af, ty) \<Rightarrow>
                    map_option (\<lambda>ps. (if k = 0 then [] else [Lit (take k sp)]) @ Var af ty # ps)
                      (parse_format (drop (Suc t) vp) tab))))"
  by pat_completeness auto
termination
proof (relation "measure (\<lambda>(sp, _). length sp)")
  fix sp :: bytes and tab :: "(bytes \<times> svar \<times> char) list" and k t :: nat and vp
  assume "strstr sp ''%{'' 0 = Some k" "vp = drop (k + 2) sp"
  moreover from this have "sp \<noteq> []" by (cases sp) auto
  ultimately show "((drop (Suc t) vp, tab), sp, tab) \<in> measure (\<lambda>(sp, _). length sp)" by (cases sp) auto
qed simp

declare parse_format.simps [simp del]

definition srvquery :: bytes where
  "srvquery = ''(6:server(2:ip%{ip})(4:host%{host})%{transportsec})''"

definition operquery :: bytes where
  "operquery = ''(9:operation%{operation}(6:server(2:ip%{ip})(4:host%{host})%{transportsec}))''"

definition rulequery :: bytes where
  "rulequery = ''(8:spocpaci(8:argument%{arguments})(9:operation%{operation})(7:subject%{subject}))''"

definition saci_init :: "part list option \<times> part list option \<times> part list option" where
  "saci_init = (parse_format srvquery transf, parse_format operquery transf, parse_format rulequery transf)"

subsection \<open>The values of the variables\<close>

text \<open>The result: \<open>None\<close> is a fault, \<open>Some None\<close> the null pointer.\<close>

definition get_subject :: "('r, 'o, 's) conn \<Rightarrow> (bytes option \<times> ('r, 'o, 's) conn) option" where
  "get_subject c = (case c_sexp_subject c of
      Some s \<Rightarrow> Some (Some s, c)
    | None \<Rightarrow> do {
        r \<leftarrow> sexp_printv 512 (Some ''o'') [ArgO (c_subject c)];
        case r of
          None \<Rightarrow> Some (None, c)
        | Some (out, _) \<Rightarrow> do { s \<leftarrow> cstr 512 out; Some (Some s, c\<lparr>c_sexp_subject := Some s\<rparr>) } })"

definition get_path :: "work_info \<Rightarrow> bytes option option" where
  "get_path wi = (case wi_oppath wi of
      None \<Rightarrow> Some None
    | Some p \<Rightarrow> do {
        let size = oct_len p + 9;
        r \<leftarrow> sexp_printv size (Some ''o'') [ArgO (Some p)];
        case r of None \<Rightarrow> Some None | Some (out, _) \<Rightarrow> map_option Some (cstr size out) })"

definition get_action :: "work_info \<Rightarrow> bytes option option" where
  "get_action wi = do {
     let size = oct_len (wi_oper wi) + 9;
     r \<leftarrow> sexp_printv size (Some ''o'') [ArgO (Some (wi_oper wi))];
     case r of None \<Rightarrow> Some None | Some (out, _) \<Rightarrow> map_option Some (cstr size out) }"

text \<open>The format has room for 31 arguments, and the buffer for four digits and a colon per argument,
  of which \<open>sexp_printa\<close> keeps two bytes back.\<close>

definition get_arguments :: "work_info \<Rightarrow> bytes option option" where
  "get_arguments wi = (case wi_oparg wi of
      None \<Rightarrow> Some None
    | Some oa \<Rightarrow> do {
        let size = sum_list (map (\<lambda>o1. oct_len o1 + 5) (oa_arr oa));
        if 32 \<le> length (oa_arr oa) then None
        else do {
          r \<leftarrow> sexp_printa size (Some (map (\<lambda>o1. CHR ''o'') (oa_arr oa))) (map (\<lambda>o1. ArgO (Some o1)) (oa_arr oa));
          case r of None \<Rightarrow> Some None | Some (out, _) \<Rightarrow> map_option Some (cstr size out) } })"

fun svar_value :: "svar \<Rightarrow> work_info \<Rightarrow> ('r, 'o, 's) conn \<Rightarrow> (bytes option \<times> ('r, 'o, 's) conn) option" where
  "svar_value Get_ip wi c = Some (c_hostaddr c, c)"
| "svar_value Get_host wi c = Some (c_hostname c, c)"
| "svar_value Get_subject wi c = get_subject c"
| "svar_value Get_action wi c = map_option (\<lambda>s. (s, c)) (get_action wi)"
| "svar_value Get_arguments wi c = map_option (\<lambda>s. (s, c)) (get_arguments wi)"
| "svar_value Get_path wi c = map_option (\<lambda>s. (s, c)) (get_path wi)"
| "svar_value Get_transpsec wi c = Some (Some [], c)"

fun constr_args :: "part list \<Rightarrow> work_info \<Rightarrow> ('r, 'o, 's) conn \<Rightarrow> (bytes \<times> parg list \<times> ('r, 'o, 's) conn) option" where
  "constr_args [] wi c = Some ([], [], c)"
| "constr_args (Lit s # ps) wi c = do {
     (fmt, args, c') \<leftarrow> constr_args ps wi c;
     Some (CHR ''l'' # fmt, ArgS (Some s) # args, c') }"
| "constr_args (Var af ty # ps) wi c = do {
     (v, c1) \<leftarrow> svar_value af wi c;
     (fmt, args, c') \<leftarrow> constr_args ps wi c1;
     Some (ty # fmt, ArgS v # args, c') }"

definition sexp_constr :: "part list option \<Rightarrow> work_info \<Rightarrow> ('r, 'o, 's) conn \<Rightarrow> (bytes option \<times> ('r, 'o, 's) conn) option" where
  "sexp_constr ap wi c = (case ap of
      None \<Rightarrow> Some (None, c)
    | Some ps \<Rightarrow>
        if 32 \<le> length ps then None
        else do {
          (fmt, args, c') \<leftarrow> constr_args ps wi c;
          r \<leftarrow> sexp_printa 2048 (Some fmt) args;
          case r of
            None \<Rightarrow> Some (None, c')
          | Some (out, _) \<Rightarrow> do { s \<leftarrow> cstr 2048 out; Some (Some s, c') } })"

subsection \<open>Access\<close>

text \<open>The ruleset at a position.\<close>

definition rs_at :: "'d forest \<Rightarrow> bool \<times> side list \<Rightarrow> 'd ruleset option" where
  "rs_at f p = (if fst p then Option.bind (fo_server f) (\<lambda>r. at_path r (snd p)) else at_path (fo_root f) (snd p))"

text \<open>\<open>spocp_access\<close> returns the path as \<open>ruleset_find\<close> has left it. A query that could not be made is
  a null pointer that \<open>oct_assign\<close> follows.\<close>

definition spocp_access :: "(bytes \<Rightarrow> int \<Rightarrow> bytes) \<Rightarrow> nat evaluator \<Rightarrow> int \<Rightarrow> nat \<Rightarrow> bool \<Rightarrow> 'b rsdata forest option \<Rightarrow>
    part list option \<Rightarrow> octet option \<Rightarrow> work_info \<Rightarrow> ('r, 'o, 's) conn \<Rightarrow>
    (spocp_result \<times> octet option \<times> ('r, 'o, 's) conn) option" where
  "spocp_access shift beval num fuel uds f0 arg path wi c =
     (if uds then Some (SPOCP_SUCCESS, path, c)
      else case f0 of
        None \<Rightarrow> Some (SPOCP_DENIED, path, c)
      | Some f \<Rightarrow>
          if \<not> rules (rs_db (fo_root f)) then Some (SPOCP_DENIED, path, c)
          else do {
            (p, path') \<leftarrow> ruleset_find path f;
            case p of
              None \<Rightarrow> Some (SPOCP_DENIED, path', c)
            | Some pos \<Rightarrow> do {
                rs \<leftarrow> rs_at f pos;
                case rs_db rs of
                  None \<Rightarrow> Some (SPOCP_DENIED, path', c)
                | Some db \<Rightarrow>
                    if db_ri db = None then Some (SPOCP_DENIED, path', c)
                    else do {
                      (sexp, c') \<leftarrow> sexp_constr arg wi c;
                      s \<leftarrow> sexp;
                      (r, oct) \<leftarrow> element_get shift (oct_assign s);
                      case r of
                        Inl rc \<Rightarrow> Some (rc, path', c')
                      | Inr ep \<Rightarrow>
                          if oct_len oct \<noteq> 0 then Some (SPOCP_DENIED, path', c')
                          else do {
                            (rc, _) \<leftarrow> allow_leaf beval num fuel False rs ep;
                            Some (rc, path', c') } } } })"

definition MAXNAMLEN :: nat where "MAXNAMLEN = 255"

definition operation_access :: "(bytes \<Rightarrow> int \<Rightarrow> bytes) \<Rightarrow> nat evaluator \<Rightarrow> int \<Rightarrow> nat \<Rightarrow> bool \<Rightarrow> bytes \<Rightarrow> 'b rsdata forest option \<Rightarrow>
    work_info \<Rightarrow> ('r, 'o, 's) conn \<Rightarrow> (spocp_result \<times> ('r, 'o, 's) conn) option" where
  "operation_access shift beval num fuel uds localcontext f wi c = do {
     let path = take (MAXNAMLEN - 1) (localcontext @ ''/operation'');
     (r, _, c') \<leftarrow> spocp_access shift beval num fuel uds f (fst (snd saci_init)) (Some (oct_assign path)) wi c;
     Some (r, c') }"

definition server_access :: "(bytes \<Rightarrow> int \<Rightarrow> bytes) \<Rightarrow> nat evaluator \<Rightarrow> int \<Rightarrow> nat \<Rightarrow> bool \<Rightarrow> bytes \<Rightarrow> 'b rsdata forest option \<Rightarrow>
    work_info \<Rightarrow> ('r, 'o, 's) conn \<Rightarrow> (spocp_result \<times> ('r, 'o, 's) conn) option" where
  "server_access shift beval num fuel uds localcontext f wi c = do {
     let path = take (MAXNAMLEN - 1) (localcontext @ ''/server'');
     (r, _, c') \<leftarrow> spocp_access shift beval num fuel uds f (fst saci_init) (Some (oct_assign path)) wi c;
     Some (r, c') }"

definition rule_access :: "(bytes \<Rightarrow> int \<Rightarrow> bytes) \<Rightarrow> nat evaluator \<Rightarrow> int \<Rightarrow> nat \<Rightarrow> bool \<Rightarrow> 'b rsdata forest option \<Rightarrow>
    work_info \<Rightarrow> ('r, 'o, 's) conn \<Rightarrow> (spocp_result \<times> work_info \<times> ('r, 'o, 's) conn) option" where
  "rule_access shift beval num fuel uds f wi c = do {
     (r, path', c') \<leftarrow> spocp_access shift beval num fuel uds f (snd (snd saci_init)) (wi_oppath wi) wi c;
     Some (r, wi\<lparr>wi_oppath := path'\<rparr>, c') }"

subsection \<open>The text of the queries\<close>

lemma rule_parts: "snd (snd saci_init) = Some [Lit ''(8:spocpaci(8:argument'', Var Get_arguments CHR ''l'',
    Lit '')(9:operation'', Var Get_action CHR ''l'', Lit '')(7:subject'', Var Get_subject CHR ''l'', Lit ''))'']"
  by code_simp

lemma oper_parts: "fst (snd saci_init) = Some [Lit ''(9:operation'', Var Get_action CHR ''l'', Lit ''(6:server(2:ip'',
    Var Get_ip CHR ''a'', Lit '')(4:host'', Var Get_host CHR ''a'', Lit '')'', Var Get_transpsec CHR ''l'', Lit ''))'']"
  by code_simp

text \<open>On formats of plain strings the two printers agree.\<close>

fun plain_arg :: "parg \<Rightarrow> bool" where
  "plain_arg (ArgO (Some x)) \<longleftrightarrow> True"
| "plain_arg (ArgS x) \<longleftrightarrow> True"
| "plain_arg _ \<longleftrightarrow> False"

lemma printa_step_plain: "\<forall>a \<in> set args. plain_arg a \<Longrightarrow> printa_step cap f args st = printv_step cap f args st"
  by (cases args rule: list.exhaust; cases "hd args") (auto simp: printa_step_def split: option.splits)

lemma printv_step_rest: "printv_step cap f args st = Some (Some (rest, st')) \<Longrightarrow> set rest \<subseteq> set args"
  by (auto simp: printv_step_def nbind_def split: if_splits option.splits list.splits)

lemma printa_loop_plain: "\<forall>a \<in> set args. plain_arg a \<Longrightarrow> printa_loop cap fmt args st = printv_loop cap fmt args st"
proof (induction fmt arbitrary: args st)
  case (Cons f fmt)
  have "nbind (printv_step cap f args st) (\<lambda>(rest, st'). printa_loop cap fmt rest st') =
      nbind (printv_step cap f args st) (\<lambda>(rest, st'). printv_loop cap fmt rest st')"
    using Cons printv_step_rest [of cap f args st] by (auto simp: nbind_def split: option.split) blast
  then show ?case using Cons.prems by (simp add: printa_step_plain)
qed simp

lemma prints_exact:
  assumes "prints cap act t" "b \<le> cap" "length t < b"
  shows "\<exists>left. act ([], b) = Some (Some (t, left))"
  using assms(1) [unfolded prints_def, rule_format, of "[]" b] assms(2,3) by auto

lemma sexp_printa_eq:
  assumes "2 \<le> sz" "sz < 2 ^ 32" "fmt \<noteq> []"
  shows "sexp_printa sz (Some fmt) args = printa_loop sz fmt args ([], sz - 2)"
proof -
  have "sz + 2 ^ 32 - 2 = (sz - 2) + 2 ^ 32" using assms(1) by simp
  then have "(sz + 2 ^ 32 - 2) mod 2 ^ 32 = (sz - 2) mod 2 ^ 32" by (simp only: mod_add_self2)
  also have "\<dots> = sz - 2" using assms(2) by simp
  finally show ?thesis using assms(3) by (simp only: sexp_printa_def option.case if_False)
qed

lemma sexp_printa_fits:
  assumes "\<forall>a \<in> set args. plain_arg a \<and> parg_ok a" "printed fmt args = Some t" "fmt \<noteq> []" "length t + 2 < sz" "sz < 2 ^ 32"
  shows "\<exists>left. sexp_printa sz (Some fmt) args = Some (Some (t, left))"
proof -
  have "prints sz (printv_loop sz fmt args) t" using assms(1,2) by (intro printv_loop_prints) auto
  then have "\<exists>left. printv_loop sz fmt args ([], sz - 2) = Some (Some (t, left))"
    using assms(4) by (intro prints_exact) auto
  then show ?thesis
    using printa_loop_plain [of args sz fmt "([], sz - 2)"] assms by (simp add: sexp_printa_eq)
qed

lemma cstr_plain: "NUL \<notin> set t \<Longrightarrow> length t < cap \<Longrightarrow> cstr cap t = Some t"
proof -
  assume t: "NUL \<notin> set t" "length t < cap"
  then have "takeWhile (\<lambda>c. c \<noteq> NUL) t = t" by (auto simp: takeWhile_eq_all_conv)
  then show ?thesis using t(2) by (simp only: cstr_def Let_def if_True)
qed

lemma printed_o: "wf_octet o1 \<Longrightarrow> 0 < oct_len o1 \<Longrightarrow> printed ''o'' [ArgO (Some o1)] = Some (netstr (content o1))"
  by (simp add: arg_text_def oct_text_def)

lemma NUL_netstr: "NUL \<notin> set s \<Longrightarrow> NUL \<notin> set (netstr s)"
  using decimal_DIGIT [of NUL "length s"] by (auto simp: netstr_def)

lemma get_action_text:
  assumes "wf_octet (wi_oper wi)" "0 < oct_len (wi_oper wi)" "oct_len (wi_oper wi) < 1000000" "NUL \<notin> set (content (wi_oper wi))"
  shows "get_action wi = Some (Some (netstr (content (wi_oper wi))))"
proof -
  define t where "t = netstr (content (wi_oper wi))"
  define size where "size = oct_len (wi_oper wi) + 9"
  have L: "length t < size"
    using length_netstr_DIGITS [of "content (wi_oper wi)"] assms(1,3) by (auto simp: t_def size_def DIGITS_def wf_octet_def content_def)
  have "prints size (printv_loop size ''o'' [ArgO (Some (wi_oper wi))]) t"
    using assms(1,2) by (intro printv_loop_prints) (auto simp: t_def arg_text_def oct_text_def)
  then have "\<exists>left. sexp_printv size (Some ''o'') [ArgO (Some (wi_oper wi))] = Some (Some (t, left))"
    using prints_exact [OF _ order_refl L] by (simp only: sexp_printv_def option.case)
  then show ?thesis
    using cstr_plain [of t size] L NUL_netstr [OF assms(4)] by (auto simp: get_action_def size_def [symmetric] t_def Let_def)
qed

text \<open>The arguments of a request, as far as they are printed: not empty, below a thousand bytes and without NUL.\<close>

definition arg_ok :: "octet \<Rightarrow> bool" where
  "arg_ok o1 \<longleftrightarrow> wf_octet o1 \<and> 0 < oct_len o1 \<and> oct_len o1 < 1000 \<and> NUL \<notin> set (content o1)"

definition args_text :: "octet list \<Rightarrow> bytes" where
  "args_text os = concat (map (\<lambda>o1. netstr (content o1)) os)"

definition args_room :: "octet list \<Rightarrow> nat" where
  "args_room os = sum_list (map (\<lambda>o1. oct_len o1 + 5) os)"

abbreviation print_args :: "nat \<Rightarrow> octet list \<Rightarrow> pstate \<Rightarrow> pstate option option" where
  "print_args cap os \<equiv> printa_loop cap (map (\<lambda>o1. CHR ''o'') os) (map (\<lambda>o1. ArgO (Some o1)) os)"

lemma length_netstr_ok:
  assumes "arg_ok o1"
  shows "length (netstr (content o1)) = oct_len o1 + 1 + (if oct_len o1 < 10 then 1 else if oct_len o1 < 100 then 2 else 3)"
  using assms length_netstr_DIGITS [of "content o1"] by (auto simp: arg_ok_def DIGITS_def wf_octet_def content_def)

lemma length_args_text: "\<forall>o1 \<in> set os. arg_ok o1 \<Longrightarrow> length (args_text os) + length os \<le> args_room os"
  by (induction os) (auto simp: args_text_def args_room_def length_netstr_ok)

lemma NUL_args_text: "\<forall>o1 \<in> set os. arg_ok o1 \<Longrightarrow> NUL \<notin> set (args_text os)"
  by (induction os) (auto simp: args_text_def arg_ok_def dest: NUL_netstr)

lemma put_oct_fits:
  assumes "arg_ok o1" "length (netstr (content o1)) \<le> b" "length out + b \<le> cap"
  shows "put_oct cap '':'' o1 (out, b) = Some (Some (out @ netstr (content o1), b - length (netstr (content o1))))"
proof -
  have "rdn (oct_val o1) (oct_len o1) = Some (content o1)" "length (content o1) = oct_len o1" "0 < oct_len o1"
    using assms(1) by (auto simp: arg_ok_def wf_octet_def content_def rdn_def)
  then show ?thesis using assms(2,3) by (auto simp: put_oct_def nbind_def put_fmt_def put_mem_def netstr_def)
qed

lemma print_args_Cons:
  assumes "arg_ok o1" "length (netstr (content o1)) \<le> b" "length out + b \<le> cap"
  shows "print_args cap (o1 # os) (out, b) = print_args cap os (out @ netstr (content o1), b - length (netstr (content o1)))"
proof -
  have "b \<noteq> 0" using assms(2) by (auto simp: netstr_def)
  then show ?thesis using put_oct_fits [OF assms] by (simp add: printa_step_def printv_step_def printv_arg_def opt_arg_def nbind_def)
qed

text \<open>Once an argument has been printed, one byte is left over for every later one.\<close>

lemma print_args_fits:
  "\<forall>o1 \<in> set os. arg_ok o1 \<Longrightarrow> args_room os \<le> b + 1 \<Longrightarrow> length out + b \<le> cap \<Longrightarrow>
    \<exists>left. print_args cap os (out, b) = Some (Some (out @ args_text os, left))"
proof (induction os arbitrary: out b)
  case Nil
  then show ?case by (simp add: args_text_def)
next
  case (Cons o1 os)
  define n where "n = length (netstr (content o1))"
  have ok: "arg_ok o1" using Cons.prems(1) by simp
  have "n \<le> oct_len o1 + 4" using length_netstr_ok [OF ok] by (simp add: n_def split: if_splits)
  then have n: "n \<le> b" "args_room os \<le> b - n + 1" using Cons.prems(2) by (auto simp: args_room_def)
  then have "length (out @ netstr (content o1)) + (b - n) \<le> cap" using Cons.prems(3) by (simp add: n_def)
  moreover have "\<forall>o1 \<in> set os. arg_ok o1" using Cons.prems(1) by simp
  ultimately obtain left where "print_args cap os (out @ netstr (content o1), b - n) = Some (Some ((out @ netstr (content o1)) @ args_text os, left))"
    using Cons.IH n(2) by blast
  then show ?case using print_args_Cons [OF ok n(1) [unfolded n_def] Cons.prems(3)] by (simp add: n_def args_text_def)
qed

lemma print_args_alone:
  assumes "arg_ok o1" "100 \<le> oct_len o1"
  shows "print_args (oct_len o1 + 5) [o1] ([], oct_len o1 + 3) = Some None"
proof -
  have "length (decimal (oct_len o1)) = 3"
    using assms DIGITS_decimal [of "oct_len o1"] by (auto simp: arg_ok_def DIGITS_def)
  then show ?thesis
    using assms by (auto simp: arg_ok_def printa_step_def printv_step_def printv_arg_def opt_arg_def put_oct_def nbind_def put_fmt_def put_mem_def)
qed

text \<open>What the buffer for the arguments has room for: everything, except when there is a single argument of a
  hundred bytes or more.\<close>

lemma sexp_printa_args:
  assumes "\<forall>o1 \<in> set os. arg_ok o1" "os \<noteq> []" "args_room os < 2 ^ 32"
  shows "\<exists>left. sexp_printa (args_room os) (Some (map (\<lambda>o1. CHR ''o'') os)) (map (\<lambda>o1. ArgO (Some o1)) os) =
    Some (if length os = 1 \<and> 100 \<le> oct_len (hd os) then None else Some (args_text os, left))"
proof -
  obtain o1 rest where os: "os = o1 # rest" using assms(2) by (cases os) auto
  have ok: "arg_ok o1" "\<forall>o1 \<in> set rest. arg_ok o1" using assms(1) os by auto
  define n where "n = length (netstr (content o1))"
  define b where "b = args_room os - 2"
  have b: "args_room os = b + 2" "b = oct_len o1 + 3 + args_room rest" by (auto simp: b_def os args_room_def)
  have pr: "sexp_printa (args_room os) (Some (map (\<lambda>o1. CHR ''o'') os)) (map (\<lambda>o1. ArgO (Some o1)) os) = print_args (args_room os) os ([], b)"
  proof -
    have "2 \<le> args_room os" "map (\<lambda>o1. CHR ''o'') os \<noteq> []" using b(1) os by simp_all
    then show ?thesis unfolding b_def using assms(3) by (intro sexp_printa_eq)
  qed
  show ?thesis
  proof (cases "rest = [] \<and> 100 \<le> oct_len o1")
    case True
    then have "args_room os = oct_len o1 + 5" "b = oct_len o1 + 3" by (simp_all add: os args_room_def b_def)
    then show ?thesis using print_args_alone [OF ok(1)] True pr os by (simp del: printa_loop.simps)
  next
    case False
    have "n \<le> b \<and> args_room rest \<le> b - n + 1"
      using False length_netstr_ok [OF ok(1)] b(2) by (cases rest) (auto simp: n_def args_room_def)
    then have n: "n \<le> b" "args_room rest \<le> b - n + 1" by auto
    then have "length (netstr (content o1)) + (b - n) \<le> args_room os" using b(1) by (simp add: n_def)
    then obtain left where "print_args (args_room os) rest (netstr (content o1), b - n) = Some (Some (args_text os, left))"
      using print_args_fits [OF ok(2) n(2), of "netstr (content o1)"] by (auto simp: os args_text_def)
    moreover have "print_args (args_room os) os ([], b) = print_args (args_room os) rest (netstr (content o1), b - n)"
      using print_args_Cons [OF ok(1) n(1) [unfolded n_def], of "[]" "args_room os" rest] b(1)
      unfolding os n_def append_Nil list.size by simp
    ultimately have "print_args (args_room os) os ([], b) = Some (Some (args_text os, left))" by (simp only:)
    moreover have "\<not> (length os = 1 \<and> 100 \<le> oct_len (hd os))" using False os by simp
    ultimately show ?thesis using pr by (simp only: if_False) blast
  qed
qed

lemma get_arguments_text:
  assumes "wi_oparg wi = Some oa" "oa_arr oa \<noteq> []" "length (oa_arr oa) < 32" "\<forall>o1 \<in> set (oa_arr oa). arg_ok o1"
  shows "get_arguments wi = Some (if length (oa_arr oa) = 1 \<and> 100 \<le> oct_len (hd (oa_arr oa)) then None else Some (args_text (oa_arr oa)))"
proof -
  have "args_room os \<le> 1005 * length os" if "\<forall>o1 \<in> set os. arg_ok o1" for os
    using that by (induction os) (auto simp: args_room_def arg_ok_def)
  then have "args_room (oa_arr oa) < 2 ^ 32" using assms(3,4) by fastforce
  moreover have "length (args_text (oa_arr oa)) < args_room (oa_arr oa)"
    using length_args_text [OF assms(4)] assms(2) by (cases "oa_arr oa") auto
  ultimately show ?thesis
    using sexp_printa_args [OF assms(4,2)] cstr_plain [OF NUL_args_text [OF assms(4)]] assms(1,3)
    by (auto simp: get_arguments_def args_room_def [symmetric] Let_def split: if_splits)
qed


definition rule_text :: "bytes \<Rightarrow> bytes \<Rightarrow> bytes \<Rightarrow> bytes" where
  "rule_text a p s = ''(8:spocpaci(8:argument'' @ a @ '')(9:operation'' @ p @ '')(7:subject'' @ s @ ''))''"

lemma rule_constr:
  assumes "get_arguments wi = Some a" "get_action wi = Some p" "get_subject c = Some (s, c')"
    and t: "t = rule_text (case a of None \<Rightarrow> [] | Some x \<Rightarrow> x) (case p of None \<Rightarrow> [] | Some x \<Rightarrow> x) (case s of None \<Rightarrow> [] | Some x \<Rightarrow> x)"
    and "NUL \<notin> set t" "length t < 2046"
  shows "sexp_constr (snd (snd saci_init)) wi c = Some (Some t, c')"
proof -
  define args where "args = [ArgS (Some ''(8:spocpaci(8:argument''), ArgS a, ArgS (Some '')(9:operation''), ArgS p,
    ArgS (Some '')(7:subject''), ArgS s, ArgS (Some ''))'')]"
  have "printed ''lllllll'' args = Some t"
    by (simp add: args_def t rule_text_def arg_text_def split: option.split)
  then have "\<exists>left. sexp_printa 2048 (Some ''lllllll'') args = Some (Some (t, left))"
    using assms(6) by (intro sexp_printa_fits) (auto simp: args_def)
  moreover have "cstr 2048 t = Some t" using assms(5,6) by (intro cstr_plain) auto
  ultimately show ?thesis
    by (auto simp: sexp_constr_def rule_parts assms(1-3) args_def)
qed



definition tiny_io :: iobuf where
  "tiny_io = \<lparr>io_buf = [NUL, NUL], io_r = 0, io_w = 0, io_p = 0, io_end = 2, io_bsize = 2, io_left = 1\<rparr>"

definition add_request :: work_info where
  "add_request = \<lparr>wi_oparg = Some \<lparr>oa_arr = [view (replicate 120 CHR ''x'') [] 0], oa_size = 8\<rparr>, wi_oppath = None,
     wi_oper = view ''ADD'' [] 0, wi_buf = tiny_io\<rparr>"

definition fresh_conn :: "(nat, nat, nat) conn" where
  "fresh_conn = \<lparr>c_fd = 1, c_status = CNST_ACTIVE, c_sslstatus = INACTIVE, c_con_type = 0, c_phase = 0,
       c_ops_pending = 0, c_stop = False, c_operations = 0, c_layer = 0, c_hostname = None,
       c_hostaddr = None, c_subject = None, c_sexp_subject = None, c_rs = None, c_transaction = False, c_ops = [],
       c_in = tiny_io, c_out = tiny_io, c_head = []\<rparr>"


lemma get_subject_none:
  assumes "c_subject c = None" "c_sexp_subject c = None"
  shows "get_subject c = Some (Some [], c\<lparr>c_sexp_subject := Some []\<rparr>)"
proof -
  have "\<exists>left. sexp_printv 512 (Some ''o'') [ArgO None] = Some (Some ([], left))"
    using prints_exact [OF printv_loop_prints [of "''o''" "[ArgO None]" "[]" 512]] by (simp add: sexp_printv_def arg_text_def)
  moreover have "cstr 512 [] = Some []" by (simp add: cstr_def)
  ultimately show ?thesis using assms by (auto simp: get_subject_def)
qed

text \<open>A connection that has been asked about before it named its subject stays without one: whatever
  SUBJECT sets afterwards, every later query on the rules is the query of the connection with no subject.\<close>

theorem late_subject_ignored:
  assumes "c_subject c = None" "c_sexp_subject c = None" "sexp_constr (snd (snd saci_init)) wi c = Some (q, c1)"
  shows "sexp_constr (snd (snd saci_init)) wi' (c1\<lparr>c_subject := sub\<rparr>) =
    map_option (\<lambda>(q', c'). (q', c1\<lparr>c_subject := sub\<rparr>)) (sexp_constr (snd (snd saci_init)) wi' c)"
proof -
  have "get_subject c = Some (Some [], c\<lparr>c_sexp_subject := Some []\<rparr>)" using assms(1,2) by (rule get_subject_none)
  moreover have "get_subject (c\<lparr>c_sexp_subject := Some [], c_subject := sub\<rparr>) = Some (Some [], c\<lparr>c_sexp_subject := Some [], c_subject := sub\<rparr>)"
    by (simp add: get_subject_def)
  ultimately show ?thesis
    using assms(3) by (auto simp: sexp_constr_def rule_parts split: option.splits bind_splits)
qed

theorem late_subject_ignored_witness:
  "\<exists>c1. sexp_constr (snd (snd saci_init)) add_request fresh_conn = Some (Some ''(8:spocpaci(8:argument)(9:operation3:ADD)(7:subject))'', c1) \<and>
     sexp_constr (snd (snd saci_init)) add_request (c1\<lparr>c_subject := Some (view ''joe'' [] 0)\<rparr>) =
       Some (Some ''(8:spocpaci(8:argument)(9:operation3:ADD)(7:subject))'', c1\<lparr>c_subject := Some (view ''joe'' [] 0)\<rparr>)"
proof -
  have "sexp_constr (snd (snd saci_init)) add_request fresh_conn =
      Some (Some ''(8:spocpaci(8:argument)(9:operation3:ADD)(7:subject))'', fresh_conn\<lparr>c_sexp_subject := Some []\<rparr>)"
  proof (rule rule_constr)
    show "get_arguments add_request = Some None"
      using get_arguments_text [of add_request "\<lparr>oa_arr = [view (replicate 120 CHR ''x'') [] 0], oa_size = 8\<rparr>"] by (simp add: add_request_def arg_ok_def)
    have "decimal (Suc (Suc (Suc 0))) = ''3''" by code_simp
    then show "get_action add_request = Some (Some ''3:ADD'')"
      using get_action_text [of add_request] by (simp add: add_request_def netstr_def)
    show "get_subject fresh_conn = Some (Some [], fresh_conn\<lparr>c_sexp_subject := Some []\<rparr>)"
      by (rule get_subject_none) (simp_all add: fresh_conn_def)
  qed (simp_all add: rule_text_def)
  then show ?thesis
    using late_subject_ignored [of fresh_conn add_request _ _ add_request "Some (view ''joe'' [] 0)"] by (auto simp: fresh_conn_def)
qed

end
