(* ===== verification/Proto.thy ===== *)
theory Proto
  imports Saci
begin

text \<open>
  The protocol of the server: how a request is taken from the input buffer and how a response is
  written (\<open>server/srv.c\<close>), and the list of the operations of a transaction (\<open>server/opstack.c\<close>). A request is
  a length-prefixed string that holds the name of the operation and its arguments, length-prefixed
  themselves; a response has the same form.
\<close>

subsection \<open>Responses\<close>

text \<open>The handlers add one code of their own to the results, which is in no table.\<close>

datatype opresult = Rc spocp_result | UNKNOWN_RULESET

definition rescode :: "(spocp_result \<times> bytes \<times> bytes option) list" where
  "rescode = [
     (SPOCP_WORKING, ''100'', Some ''Working, please wait''),
     (SPOCP_SUCCESS, ''200'', Some ''Ok''),
     (SPOCP_MULTI, ''201'', None),
     (SPOCP_DENIED, ''202'', Some ''Denied''),
     (SPOCP_CLOSE, ''203'', Some ''Bye''),
     (SPOCP_SSL_START, ''205'', Some ''Ready to start TLS''),
     (SPOCP_AUTHDATA, ''301'', None),
     (SPOCP_AUTHINPROGRESS, ''300'', Some ''Authentication in progress''),
     (SPOCP_BUSY, ''400'', Some ''Busy''),
     (SPOCP_TIMEOUT, ''401'', Some ''Timeout''),
     (SPOCP_TIMELIMITEXCEEDED, ''402'', Some ''Timelimit exceeded''),
     (SPOCP_REDIRECT, ''403'', None),
     (SPOCP_SYNTAXERROR, ''500'', Some ''Syntax error''),
     (SPOCP_MISSING_ARG, ''501'', Some ''Missing Argument''),
     (SPOCP_MISSING_CHAR, ''502'', Some ''Input error''),
     (SPOCP_UNKNOWNCOMMAND, ''504'', Some ''Unknown command''),
     (SPOCP_PARAM_ERROR, ''505'', Some ''Argument error''),
     (SPOCP_SSL_ERR, ''506'', Some ''SSL Accept error''),
     (SPOCP_UNKNOWN_TYPE, ''507'', Some ''Uknown range type''),
     (SPOCP_SIZELIMITEXCEEDED, ''511'', Some ''Sizelimit exceeded''),
     (SPOCP_OPERATIONSERROR, ''512'', Some ''Operation error''),
     (SPOCP_UNAVAILABLE, ''513'', Some ''Service not available''),
     (SPOCP_NOT_SUPPORTED, ''515'', Some ''Command not supported''),
     (SPOCP_STATE_VIOLATION, ''516'', Some ''SSL Already active''),
     (SPOCP_OTHER, ''517'', Some ''Other error''),
     (SPOCP_CERT_ERR, ''518'', Some ''Authentication error''),
     (SPOCP_UNWILLING, ''519'', Some ''Unwilling to perform''),
     (SPOCP_EXISTS, ''520'', Some ''Already exists''),
     (SPOCP_AUTHERR, ''521'', Some ''Authentication error'')]"

text \<open>\<open>lvadd\<close> ignores what \<open>octcat\<close> returns and returns 1, the value of SPOCP_SUCCESS.\<close>

definition lvadd :: "octet \<Rightarrow> bytes \<Rightarrow> nat \<Rightarrow> (spocp_result \<times> octet) option" where
  "lvadd oct str len = do {
     let lf = decimal len @ '':'';
     (_, o1) \<leftarrow> octcat oct lf (length lf);
     (_, o2) \<leftarrow> octcat o1 str len;
     Some (SPOCP_SUCCESS, o2) }"

definition find_rescode :: "opresult \<Rightarrow> (bytes \<times> bytes option) option" where
  "find_rescode rc = (case rc of UNKNOWN_RULESET \<Rightarrow> None | Rc r \<Rightarrow> map_of rescode r)"

definition SPOCP_MAXLINE :: nat where "SPOCP_MAXLINE = 2048"

text \<open>The message is given as \<open>vsnprintf\<close> writes it.\<close>

definition add_response_va :: "octet \<Rightarrow> opresult \<Rightarrow> bytes option \<Rightarrow> (spocp_result \<times> octet) option" where
  "add_response_va out rc msg = do {
     (code, def) \<leftarrow> (case find_rescode rc of None \<Rightarrow> find_rescode (Rc SPOCP_OTHER) | Some e \<Rightarrow> Some e);
     (_, o1) \<leftarrow> lvadd out code (length code);
     case msg of
       Some m \<Rightarrow>
         if SPOCP_MAXLINE \<le> length m then Some (SPOCP_LOCAL_ERROR, o1)
         else do { (_, o2) \<leftarrow> lvadd o1 m (length m); Some (SPOCP_SUCCESS, o2) }
     | None \<Rightarrow>
         (case def of
            None \<Rightarrow> Some (SPOCP_SUCCESS, o1)
          | Some d \<Rightarrow> do { (_, o2) \<leftarrow> lvadd o1 d (length d); Some (SPOCP_SUCCESS, o2) }) }"

definition add_response :: "iobuf \<Rightarrow> opresult \<Rightarrow> bytes option \<Rightarrow> (spocp_result \<times> iobuf) option" where
  "add_response out rc msg = do {
     oct \<leftarrow> oct_new 512 None;
     (res, o1) \<leftarrow> add_response_va oct rc msg;
     (_, out') \<leftarrow> iobuf_add_octet (Some out) (Some o1);
     io \<leftarrow> out';
     Some (res, io) }"

definition add_response_blob :: "iobuf \<Rightarrow> opresult \<Rightarrow> octet option \<Rightarrow> (spocp_result \<times> iobuf) option" where
  "add_response_blob out rc data = do {
     oct \<leftarrow> oct_new 512 None;
     (sr, o1) \<leftarrow> add_response_va oct rc None;
     if sr \<noteq> SPOCP_SUCCESS then Some (sr, out)
     else do {
       (sr', o2) \<leftarrow> (case data of None \<Rightarrow> Some (sr, o1) | Some d \<Rightarrow> lvadd o1 (oct_val d) (oct_len d));
       if sr' \<noteq> SPOCP_SUCCESS then Some (sr', out)
       else do {
         (_, out') \<leftarrow> iobuf_add_octet (Some out) (Some o2);
         io \<leftarrow> out';
         Some (sr', io) } } }"

definition postop :: "work_info \<Rightarrow> ('r, 'o, 's) conn \<Rightarrow> opresult \<Rightarrow> bytes option \<Rightarrow>
    (opresult \<times> work_info \<times> ('r, 'o, 's) conn) option" where
  "postop wi c rc msg = do {
     (_, b) \<leftarrow> add_response (wi_buf wi) rc (if msg = Some [] then None else msg);
     i \<leftarrow> iobuf_shift (c_in c);
     Some (rc, wi\<lparr>wi_buf := b\<rparr>, c\<lparr>c_in := i\<rparr>) }"

definition return_busy :: "work_info \<Rightarrow> ('r, 'o, 's) conn \<Rightarrow> (opresult \<times> work_info \<times> ('r, 'o, 's) conn) option" where
  "return_busy wi c = postop wi c (Rc SPOCP_BUSY) None"

subsection \<open>Requests\<close>

function get_oparg :: "octet \<Rightarrow> octarr option \<Rightarrow> (spocp_result \<times> octarr option) option" where
  "get_oparg arg oarr =
     (if oct_len arg = 0 then Some (SPOCP_SUCCESS, oarr)
      else (case get_str arg of
        None \<Rightarrow> None
      | Some (Inl r, _) \<Rightarrow> Some (r, oarr)
      | Some (Inr op, arg') \<Rightarrow>
          (case octdup (Some op) of
             Some (Some d) \<Rightarrow> (case octarr_add oarr d of None \<Rightarrow> None | Some oa \<Rightarrow> get_oparg arg' (Some oa))
           | _ \<Rightarrow> None)))"
  by pat_completeness auto
termination
  by (relation "measure (\<lambda>(arg, _). oct_len arg)") (auto intro: get_str_shorter)

declare get_oparg.simps [simp del]

datatype proto_op = Starttls | Rollback | Subject | Summary | Bsearch | Logout | Delete | Commit | Tlsneg |
  Query | Login | Begin | Listing | Auth | Capa | Show | Find | Noop | Add

text \<open>The table of the operations, by the length of the name and in the order of the comparisons.\<close>

definition operations :: "(bytes \<times> proto_op) list" where
  "operations = [
     (''starttls'', Starttls), (''rollback'', Rollback),
     (''subject'', Subject), (''summary'', Summary), (''bsearch'', Bsearch),
     (''logout'', Logout), (''delete'', Delete), (''commit'', Commit), (''tlsneg'', Tlsneg),
     (''query'', Query), (''login'', Login), (''begin'', Begin),
     (''list'', Listing), (''auth'', Auth), (''capa'', Capa), (''show'', Show), (''find'', Find), (''noop'', Noop),
     (''add'', Add)]"

definition find_oper :: "bytes \<Rightarrow> proto_op option" where
  "find_oper name = map_of operations (map tolower name)"

definition PS_AUTH :: nat where "PS_AUTH = 8"

text \<open>White space behind the request is skipped up to the write position.\<close>

definition skip_white :: "bytes \<Rightarrow> nat \<Rightarrow> nat \<Rightarrow> nat" where
  "skip_white buf w r = r + length (takeWhile WHITESPACE (drop r (take w buf)))"

text \<open>\<open>get_operation\<close> with the routine it found. The position behind the whole request is told from the
  bytes that are left there.\<close>

definition get_operation :: "work_info \<Rightarrow> ('r, 'o, 's) conn \<Rightarrow>
    (spocp_result \<times> proto_op option \<times> work_info \<times> ('r, 'o, 's) conn) option" where
  "get_operation wi c = do {
     let io = c_in c;
     (x, _) \<leftarrow> get_str \<lparr>oct_val = drop (io_r io) (io_buf io), oct_len = io_w io - io_r io, oct_size = 0\<rparr>;
     case x of
       Inl r \<Rightarrow> Some (r, None, wi, c)
     | Inr wo \<Rightarrow> do {
         (y, oa) \<leftarrow> get_str (wo\<lparr>oct_size := 0\<rparr>);
         case y of
           Inl r \<Rightarrow> Some (r, None, wi, c)
         | Inr op \<Rightarrow> do {
             let wi1 = wi\<lparr>wi_oper := op\<lparr>oct_size := 0\<rparr>\<rparr>;
             name \<leftarrow> rdn (oct_val op) (oct_len op);
             let oper = find_oper name;
             let c1 = (if 3 \<le> oct_len op \<and> oct_len op \<le> 8
                       then c\<lparr>c_in := io\<lparr>io_r := skip_white (io_buf io) (io_w io)
                                (length (io_buf io) - length (oct_val wo) + oct_len wo)\<rparr>\<rparr>
                       else c);
             (r, oarg) \<leftarrow> get_oparg oa (wi_oparg wi1);
             Some (if r \<noteq> SPOCP_SUCCESS then (r, None, wi1\<lparr>wi_oparg := None\<rparr>, c1)
                   else if oper = None then (SPOCP_UNKNOWNCOMMAND, None, wi1\<lparr>wi_oparg := oarg\<rparr>, c1)
                   else if c_phase c div PS_AUTH mod 2 = 1 \<and> oper \<noteq> Some Auth
                     then (SPOCP_STATE_VIOLATION, None, wi1\<lparr>wi_oparg := oarg\<rparr>, c1)
                   else (SPOCP_SUCCESS, oper, wi1\<lparr>wi_oparg := oarg\<rparr>, c1)) } } }"

subsection \<open>The operations of a transaction\<close>

datatype opcode = SPOCP_ADD | SPOCP_DEL

record 'p opstack =
  os_oper :: opcode
  os_rs :: 'p
  os_oparg :: "octarr option"
  os_rollback :: "octarr option"
  os_rule :: "rule option"

definition opstack_new :: "opcode \<Rightarrow> 'p \<Rightarrow> octarr option \<Rightarrow> 'p opstack option" where
  "opstack_new op rs arg = do {
     oa \<leftarrow> octarr_dup arg;
     Some \<lparr>os_oper = op, os_rs = rs, os_oparg = oa, os_rollback = None, os_rule = None\<rparr> }"

text \<open>The pointer that \<open>opstack_push\<close> returns has been moved along the list.\<close>

fun opstack_push :: "'x list \<Rightarrow> 'x list \<Rightarrow> 'x list" where
  "opstack_push [] b = b"
| "opstack_push [x] b = x # b"
| "opstack_push (x # y # a) b = opstack_push (y # a) b"


subsection \<open>Reading a request\<close>

definition request :: "bytes \<Rightarrow> bytes list \<Rightarrow> bytes" where
  "request op args = netstr (netstr op @ concat (map netstr args))"

text \<open>The arguments as an array of the request has them: the null pointer for none.\<close>

definition arg_texts :: "octarr option \<Rightarrow> bytes list" where
  "arg_texts oa = (case oa of None \<Rightarrow> [] | Some a \<Rightarrow> map content (oa_arr a))"

definition args_ok :: "octarr option \<Rightarrow> bool" where
  "args_ok oa \<longleftrightarrow> (\<forall>a. oa = Some a \<longrightarrow> octarr_ok a \<and> (\<forall>d \<in> set (oa_arr a). wf_dyn d))"

lemma octarr_add_texts:
  assumes "args_ok oa" "wf_dyn d"
  shows "\<exists>a. octarr_add oa d = Some a \<and> args_ok (Some a) \<and> arg_texts (Some a) = arg_texts oa @ [content d]"
proof (cases oa)
  case None
  then show ?thesis using assms(2) by (auto simp: octarr_add_def octarr_new_def args_ok_def arg_texts_def octarr_ok_def)
next
  case (Some a)
  then have a: "octarr_ok a" "\<forall>d \<in> set (oa_arr a). wf_dyn d" using assms(1) by (auto simp: args_ok_def)
  from a(1) obtain b where "octarr_add (Some a) d = Some b" "octarr_ok b" "oa_arr b = oa_arr a @ [d]" by (rule octarr_add_Some)
  then show ?thesis using Some a(2) assms(2) by (auto simp: args_ok_def arg_texts_def)
qed

lemma length_netstr_le: "length a \<le> length (netstr a)"
  by (simp add: netstr_def)

lemma get_oparg_texts:
  assumes "args_ok oa" "\<forall>a \<in> set args. a \<noteq> []" "length (concat (map netstr args)) < 2 ^ 31"
  shows "\<exists>oa'. get_oparg (view (concat (map netstr args)) x sz) oa = Some (SPOCP_SUCCESS, oa') \<and>
    args_ok oa' \<and> arg_texts oa' = arg_texts oa @ args"
  using assms
proof (induction args arbitrary: oa)
  case Nil
  then show ?case by (simp add: get_oparg.simps)
next
  case (Cons a args)
  have g: "get_str (view (concat (map netstr (a # args))) x sz) =
      Some (Inr (view a (concat (map netstr args) @ x) 0), view (concat (map netstr args)) x sz)"
    using Cons.prems get_str_netstr [of a "concat (map netstr args)"] by simp
  have "wf_octet (view a (concat (map netstr args) @ x) 0)"
    using Cons.prems(3) length_netstr_le [of a] by (simp add: wf_octet_def)
  then obtain d where d: "octdup (Some (view a (concat (map netstr args) @ x) 0)) = Some (Some d)" "content d = a" "wf_dyn d"
    using octdup_content [of "view a (concat (map netstr args) @ x) 0"] Cons.prems(2) by auto
  obtain b where b: "octarr_add oa d = Some b" "args_ok (Some b)" "arg_texts (Some b) = arg_texts oa @ [a]"
    using octarr_add_texts [OF Cons.prems(1) d(3)] d(2) by auto
  have "length (concat (map netstr (a # args))) \<noteq> 0" by (simp add: netstr_def)
  then have "get_oparg (view (concat (map netstr (a # args))) x sz) oa = get_oparg (view (concat (map netstr args)) x sz) (Some b)"
    by (subst get_oparg.simps) (simp only: view_simps if_False g d(1) b(1) option.case sum.case prod.case)
  then show ?case using Cons.IH [OF b(2)] Cons.prems b(3) by simp
qed

lemma skip_white_drop: "drop (skip_white buf w r) (take w buf) = dropWhile WHITESPACE (drop r (take w buf))"
  by (simp add: skip_white_def dropWhile_eq_drop add.commute)

lemma find_oper_length: "find_oper op = Some p \<Longrightarrow> 3 \<le> length op \<and> length op \<le> 8"
proof -
  assume "find_oper op = Some p"
  then have "(map tolower op, p) \<in> set operations" by (simp add: find_oper_def map_of_SomeD)
  then have "3 \<le> length (map tolower op) \<and> length (map tolower op) \<le> 8" by (auto simp: operations_def)
  then show ?thesis by simp
qed

text \<open>C18: A request in the form of the protocol at the start of the input gives its operation, in any
  mixture of cases, and exactly its arguments; the request and the white space behind it are taken from
  the input and nothing else.\<close>

theorem get_operation_reads:
  assumes "wf_io (c_in c)" "io_content (c_in c) = request op args @ rest"
    and "find_oper op = Some p" "\<forall>a \<in> set args. a \<noteq> []" "wi_oparg wi = None" "c_phase c < PS_AUTH"
  shows "\<exists>wi' c'. get_operation wi c = Some (SPOCP_SUCCESS, Some p, wi', c') \<and> content (wi_oper wi') = op \<and>
    arg_texts (wi_oparg wi') = args \<and> io_content (c_in c') = dropWhile WHITESPACE rest"
proof -
  define io where "io = c_in c"
  define body where "body = netstr op @ concat (map netstr args)"
  define x where "x = drop (io_w io) (io_buf io)"
  have wf: "io_r io \<le> io_w io" "io_w io < length (io_buf io)" "length (io_buf io) < 2 ^ 31"
    using wf_io_bounds [OF assms(1)] assms(1) by (auto simp: io_def wf_io_def)
  have con: "io_content io = netstr body @ rest" using assms(2) by (simp add: io_def request_def body_def)
  have "drop (io_r io) (io_buf io) = drop (io_r io) (take (io_w io) (io_buf io) @ x)" by (simp add: x_def)
  also have "\<dots> = netstr body @ rest @ x" using con wf by (simp only: drop_append) (simp add: io_content_def)
  finally have dr: "drop (io_r io) (io_buf io) = netstr body @ rest @ x" .
  have lc: "io_w io - io_r io = length (netstr body @ rest)"
    using arg_cong [OF con, of length] assms(1) by (simp add: io_def)
  have v: "\<lparr>oct_val = drop (io_r io) (io_buf io), oct_len = io_w io - io_r io, oct_size = 0\<rparr> = view (netstr body @ rest) x 0"
    by (simp add: view_def dr lc)
  have ne: "body \<noteq> []" "op \<noteq> []" using find_oper_length [OF assms(3)] by (auto simp: body_def netstr_def)
  have small: "length (netstr body @ rest) < 2 ^ 31" using lc wf by simp
  have sb: "length body < 2 ^ 31" using small length_netstr_le [of body] by simp
  have g1: "get_str (view (netstr body @ rest) x 0) = Some (Inr (view body (rest @ x) 0), view rest x 0)"
    using ne(1) small by (rule get_str_netstr)
  have g2: "get_str (view body (rest @ x) 0) =
      Some (Inr (view op (concat (map netstr args) @ rest @ x) 0), view (concat (map netstr args)) (rest @ x) 0)"
    using get_str_netstr [of op "concat (map netstr args)" "rest @ x" 0] ne(2) sb by (simp add: body_def)
  have sz: "(view body (rest @ x) 0)\<lparr>oct_size := 0\<rparr> = view body (rest @ x) 0"
    "(view op y 0)\<lparr>oct_size := 0\<rparr> = view op y 0" for y by (simp_all add: view_def)
  obtain oa where oa: "get_oparg (view (concat (map netstr args)) (rest @ x) 0) None = Some (SPOCP_SUCCESS, oa)" "arg_texts oa = args"
    using get_oparg_texts [of None args "rest @ x" 0] assms(4) sb by (auto simp: args_ok_def arg_texts_def body_def)
  define r where "r = length (io_buf io) - length (body @ rest @ x) + length body"
  have r: "drop r (take (io_w io) (io_buf io)) = rest"
  proof -
    have "length (io_buf io) = io_r io + length (netstr body @ rest @ x)" using arg_cong [OF dr, of length] wf by simp
    then have "r = io_r io + length (netstr body)" by (simp add: r_def netstr_def)
    then have "drop r (take (io_w io) (io_buf io)) = drop (length (netstr body)) (io_content io)"
      by (simp add: io_content_def add.commute)
    then show ?thesis by (simp add: con)
  qed
  define c' where "c' = c\<lparr>c_in := io\<lparr>io_r := skip_white (io_buf io) (io_w io) r\<rparr>\<rparr>"
  have "get_operation wi c = Some (SPOCP_SUCCESS, Some p, wi\<lparr>wi_oper := view op (concat (map netstr args) @ rest @ x) 0, wi_oparg := oa\<rparr>, c')"
    using find_oper_length [OF assms(3)] assms(3,5,6)
    by (simp add: get_operation_def Let_def io_def [symmetric] v g1 g2 sz oa(1) r_def c'_def)
  then show ?thesis using oa(2) r by (simp add: c'_def io_content_def skip_white_drop)
qed

definition in_io :: iobuf where
  "in_io = \<lparr>io_buf = ''12:5:Query3:abc X'' @ [NUL], io_r = 0, io_w = 17, io_p = 0, io_end = 18, io_bsize = 18, io_left = 0\<rparr>"

definition idle_request :: work_info where
  "idle_request = \<lparr>wi_oparg = None, wi_oppath = None, wi_oper = view [] [] 0, wi_buf = tiny_io\<rparr>"

lemma in_io_wf: "wf_io in_io" "io_content in_io = request ''Query'' [''abc''] @ '' X''"
proof -
  have "request ''Query'' [''abc''] = ''12:5:Query3:abc''" by code_simp
  then show "io_content in_io = request ''Query'' [''abc''] @ '' X''" by (simp add: in_io_def io_content_def)
qed (simp add: in_io_def wf_io_def io_sizes)

theorem get_operation_reads_witness:
  "\<exists>wi' c'. get_operation idle_request (fresh_conn\<lparr>c_in := in_io\<rparr>) = Some (SPOCP_SUCCESS, Some Query, wi', c') \<and>
     arg_texts (wi_oparg wi') = [''abc''] \<and> io_content (c_in c') = ''X''"
proof -
  have "find_oper ''Query'' = Some Query" by code_simp
  moreover have "dropWhile WHITESPACE '' X'' = ''X''" by code_simp
  ultimately show ?thesis
    using get_operation_reads [of "fresh_conn\<lparr>c_in := in_io\<rparr>" "''Query''" "[''abc'']" "'' X''" Query idle_request] in_io_wf
    by (auto simp: idle_request_def fresh_conn_def PS_AUTH_def)
qed

subsection \<open>Writing a response\<close>

lemma lvadd_content:
  assumes "wf_dyn o1" "0 < oct_size o1" "len \<le> length str" "oct_len o1 + length (netstr (take len str)) < 2 ^ 31"
  shows "\<exists>o2. lvadd o1 str len = Some (SPOCP_SUCCESS, o2) \<and> content o2 = content o1 @ netstr (take len str) \<and> wf_dyn o2 \<and> 0 < oct_size o2"
proof -
  define lf where "lf = decimal len @ '':''"
  have n: "netstr (take len str) = lf @ take len str" using assms(3) by (simp add: netstr_def lf_def)
  obtain o2 where o2: "octcat o1 lf (length lf) = Some (SPOCP_SUCCESS, o2)" "content o2 = content o1 @ lf" "wf_dyn o2" "0 < oct_size o2"
    using octcat_content [OF assms(1,2), of "length lf" lf] assms(4) n by auto
  have "oct_len o2 = oct_len o1 + length lf"
    using arg_cong [OF o2(2), of length] o2(3) assms(1) by (simp add: wf_dyn_def)
  then obtain o3 where "octcat o2 str len = Some (SPOCP_SUCCESS, o3)" "content o3 = content o2 @ take len str" "wf_dyn o3" "0 < oct_size o3"
    using octcat_content [OF o2(3,4) assms(3)] assms(3,4) n by auto
  then show ?thesis using o2 n by (auto simp: lvadd_def Let_def lf_def)
qed

definition res_entry :: "opresult \<Rightarrow> bytes \<times> bytes option" where
  "res_entry rc = (case find_rescode rc of None \<Rightarrow> (''517'', Some ''Other error'') | Some e \<Rightarrow> e)"

definition response_text :: "opresult \<Rightarrow> bytes" where
  "response_text rc = netstr (fst (res_entry rc)) @ (case snd (res_entry rc) of None \<Rightarrow> [] | Some d \<Rightarrow> netstr d)"

lemma res_entry_bounds: "length (fst (res_entry rc)) = 3" "snd (res_entry rc) = Some d \<Longrightarrow> length d < 30"
proof -
  have "\<forall>(r, e) \<in> set rescode. length (fst e) = 3 \<and> (\<forall>d. snd e = Some d \<longrightarrow> length d < 30)" by (simp add: rescode_def)
  then have *: "find_rescode rc = Some e \<Longrightarrow> length (fst e) = 3 \<and> (\<forall>d. snd e = Some d \<longrightarrow> length d < 30)" for e
    by (cases rc) (auto simp: find_rescode_def dest!: map_of_SomeD)
  show "length (fst (res_entry rc)) = 3" "snd (res_entry rc) = Some d \<Longrightarrow> length d < 30"
    using * by (auto simp: res_entry_def split: option.splits)
qed

lemma length_netstr_small: "length a < 1000000 \<Longrightarrow> length (netstr a) \<le> length a + 7"
  using length_netstr_DIGITS [of a] by (simp add: DIGITS_def)

lemma response_text_bounds: "response_text rc \<noteq> []" "length (response_text rc) < 60"
proof -
  show "response_text rc \<noteq> []" by (simp add: response_text_def netstr_def)
  have "length (netstr (fst (res_entry rc))) \<le> 10"
    using length_netstr_small [of "fst (res_entry rc)"] res_entry_bounds(1) by simp
  moreover have "length (netstr d) < 38" if "snd (res_entry rc) = Some d" for d
    using length_netstr_small [of d] res_entry_bounds(2) [OF that] by simp
  ultimately show "length (response_text rc) < 60" by (force simp: response_text_def split: option.split)
qed

lemma wf_dyn_length: "wf_dyn o1 \<Longrightarrow> length (content o1) = oct_len o1"
  by (simp add: wf_dyn_def)

lemma add_response_va_content:
  "\<exists>oct o1. oct_new 512 None = Some oct \<and> add_response_va oct rc None = Some (SPOCP_SUCCESS, o1) \<and>
     content o1 = response_text rc \<and> wf_dyn o1 \<and> 0 < oct_size o1"
proof -
  define oct where "oct = \<lparr>oct_val = replicate 512 NUL, oct_len = 0, oct_size = 512\<rparr>"
  have oct: "oct_new 512 None = Some oct" "wf_dyn oct" "0 < oct_size oct" "content oct = []" "oct_len oct = 0"
    by (simp_all add: oct_new_def oct_def wf_dyn_def wf_octet_def content_def)
  define code where "code = fst (res_entry rc)"
  have e: "(case find_rescode rc of None \<Rightarrow> find_rescode (Rc SPOCP_OTHER) | Some e \<Rightarrow> Some e) = Some (code, snd (res_entry rc))"
    by (cases "find_rescode rc") (simp_all add: code_def res_entry_def, simp add: find_rescode_def rescode_def)
  have "length (netstr code) < 2 ^ 31"
    using length_netstr_small [of code] res_entry_bounds(1) [of rc] by (simp add: code_def)
  then obtain o1 where o1: "lvadd oct code (length code) = Some (SPOCP_SUCCESS, o1)" "content o1 = netstr code" "wf_dyn o1" "0 < oct_size o1"
    using lvadd_content [OF oct(2,3), of "length code" code] oct(4,5) by auto
  show ?thesis
  proof (cases "snd (res_entry rc)")
    case None
    then show ?thesis using oct(1) o1 e by (auto simp: add_response_va_def response_text_def code_def)
  next
    case (Some d)
    have "oct_len o1 + length (netstr d) < 2 ^ 31"
      using response_text_bounds(2) [of rc] Some wf_dyn_length [OF o1(3)] o1(2) by (simp add: response_text_def code_def)
    then obtain o2 where "lvadd o1 d (length d) = Some (SPOCP_SUCCESS, o2)" "content o2 = netstr code @ netstr d" "wf_dyn o2" "0 < oct_size o2"
      using lvadd_content [OF o1(3,4), of "length d" d] o1(2) by auto
    then show ?thesis using oct(1) o1 e Some by (auto simp: add_response_va_def response_text_def code_def)
  qed
qed

lemma iobuf_add_octet_fits:
  assumes "wf_io io" "wf_dyn o1" "content o1 \<noteq> []" "length (content o1) < 1000000" "io_fits io (length (netstr (content o1)))"
  shows "\<exists>io'. iobuf_add_octet (Some io) (Some o1) = Some (SPOCP_SUCCESS, Some io') \<and> wf_io io' \<and>
    io_content io' = io_content io @ netstr (content o1) \<and> io_w io' = io_w io + length (netstr (content o1)) \<and> io_bsize io \<le> io_bsize io'"
proof -
  have "wf_octet o1" "0 < oct_len o1" "oct_len o1 < 1000000"
    using assms(2-4) wf_dyn_length [OF assms(2)] by (auto simp: wf_dyn_def simp flip: length_greater_0_conv)
  from iobuf_add_octet_put [OF assms(1) this] show ?thesis using assms(5) by (auto simp: io_put_def)
qed

lemma add_response_content:
  assumes "wf_io io" "io_fits io (length (netstr (response_text rc)))"
  shows "\<exists>io'. add_response io rc None = Some (SPOCP_SUCCESS, io') \<and> wf_io io' \<and> io_content io' = io_content io @ netstr (response_text rc) \<and>
    io_w io' = io_w io + length (netstr (response_text rc)) \<and> io_bsize io \<le> io_bsize io'"
proof -
  obtain oct o1 where o1: "oct_new 512 None = Some oct" "add_response_va oct rc None = Some (SPOCP_SUCCESS, o1)"
    "content o1 = response_text rc" "wf_dyn o1" using add_response_va_content by blast
  then show ?thesis
    using iobuf_add_octet_fits [OF assms(1) o1(4)] response_text_bounds [of rc] assms(2) by (auto simp: add_response_def)
qed

lemma add_response_blob_content:
  assumes "wf_io io" "wf_octet d" "oct_len d < 500000"
    and "t = netstr (response_text rc @ netstr (content d))" "io_fits io (length t)"
  shows "\<exists>io'. add_response_blob io rc (Some d) = Some (SPOCP_SUCCESS, io') \<and> wf_io io' \<and> io_content io' = io_content io @ t \<and>
    io_w io' = io_w io + length t \<and> io_bsize io \<le> io_bsize io'"
proof -
  obtain oct o1 where o1: "oct_new 512 None = Some oct" "add_response_va oct rc None = Some (SPOCP_SUCCESS, o1)"
    "content o1 = response_text rc" "wf_dyn o1" "0 < oct_size o1" using add_response_va_content by blast
  have d: "take (oct_len d) (oct_val d) = content d" "length (content d) = oct_len d" "oct_len d \<le> length (oct_val d)"
    using assms(2) by (auto simp: wf_octet_def content_def)
  have l: "length (netstr (content d)) < 500010" using length_netstr_small [of "content d"] assms(3) d(2) by simp
  obtain o2 where "lvadd o1 (oct_val d) (oct_len d) = Some (SPOCP_SUCCESS, o2)" "content o2 = content o1 @ netstr (content d)" "wf_dyn o2"
    using lvadd_content [OF o1(4,5) d(3)] l d(1) wf_dyn_length [OF o1(4)] o1(3) response_text_bounds(2) [of rc] by auto
  then show ?thesis
    using iobuf_add_octet_fits [OF assms(1), of o2] o1 l response_text_bounds [of rc] assms(4,5) by (auto simp: add_response_blob_def)
qed

text \<open>A handler that ends with a result puts exactly one response behind what the work buffer holds,
  the code and the text of the table as length-prefixed strings inside one, and drops white space from
  the rest of the input. A result that is not in the table is answered as 517, Other error.\<close>

theorem postop_responds:
  assumes "wf_io (wi_buf wi)" "wf_io (c_in c)" "io_fits (wi_buf wi) 80"
  shows "\<exists>b i. postop wi c rc None = Some (rc, wi\<lparr>wi_buf := b\<rparr>, c\<lparr>c_in := i\<rparr>) \<and>
    io_content b = io_content (wi_buf wi) @
      (case find_rescode rc of
         None \<Rightarrow> ''19:3:51711:Other error''
       | Some (code, None) \<Rightarrow> netstr (netstr code)
       | Some (code, Some def) \<Rightarrow> netstr (netstr code @ netstr def)) \<and>
    io_content i = dropWhile WHITESPACE (io_content (c_in c))"
proof -
  have "length (netstr (response_text rc)) \<le> 80"
    using response_text_bounds(2) [of rc] length_netstr_small [of "response_text rc"] by simp
  then have "io_fits (wi_buf wi) (length (netstr (response_text rc)))" using assms(3) by (simp add: io_fits_def)
  then obtain b where b: "add_response (wi_buf wi) rc None = Some (SPOCP_SUCCESS, b)"
      "io_content b = io_content (wi_buf wi) @ netstr (response_text rc)"
    using add_response_content [OF assms(1)] by blast
  obtain i where "iobuf_shift (c_in c) = Some i" "io_content i = dropWhile WHITESPACE (io_content (c_in c))"
    using iobuf_shift_ok [OF assms(2)] by blast
  moreover have "netstr (netstr ''517'' @ netstr ''Other error'') = ''19:3:51711:Other error''" by code_simp
  ultimately show ?thesis using b
    by (intro exI [of _ b] exI [of _ i]) (auto simp: postop_def response_text_def res_entry_def split: option.split)
qed

theorem postop_responds_witness:
  "\<exists>b i. postop idle_request (fresh_conn\<lparr>c_in := in_io\<rparr>) (Rc SPOCP_DENIED) None = Some (Rc SPOCP_DENIED, idle_request\<lparr>wi_buf := b\<rparr>, fresh_conn\<lparr>c_in := i\<rparr>) \<and>
     io_content b = ''13:3:2026:Denied''"
proof -
  have f: "find_rescode (Rc SPOCP_DENIED) = Some (''202'', Some ''Denied'')" by code_simp
  have t: "netstr (netstr ''202'' @ netstr ''Denied'') = ''13:3:2026:Denied''" by code_simp
  have w: "wf_io (wi_buf idle_request)" "wf_io (c_in (fresh_conn\<lparr>c_in := in_io\<rparr>))" "io_fits (wi_buf idle_request) 80" "io_content (wi_buf idle_request) = []"
    using in_io_wf(1) by (simp_all add: idle_request_def tiny_io_def wf_io_def io_fits_def io_sizes io_content_def)
  show ?thesis using postop_responds [OF w(1-3), of "Rc SPOCP_DENIED"] f t w(4) by (auto simp: fresh_conn_def)
qed

subsection \<open>Transactions\<close>

text \<open>C20: Of the operations that a transaction has collected one after the other, at most the last two
  are left: the pointer that \<open>opstack_push\<close> returns skips the others.\<close>

theorem transaction_keeps_two: "foldl (\<lambda>ops o1. opstack_push ops [o1]) [] os = drop (length os - 2) os"
proof (induction os rule: rev_induct)
  case (snoc x os)
  have "opstack_push a [x] = drop (length a - 1) a @ [x]" for a :: "'a list"
    by (induction a "[x]" rule: opstack_push.induct) auto
  moreover have "length os - 1 = Suc (length os - 2)" if "\<not> length os < 2" using that by simp
  ultimately show ?case using snoc by (cases "length os < 2") (auto simp: numeral_2_eq_2)
qed simp

end
