(* ===== verification/Rm.thy ===== *)
theory Rm
  imports Db
begin

text \<open>
  Removing a rule: from the rule tree (\<open>lib/rm.c\<close>, with the releases of \<open>lib/free.c\<close>) and from the database
  (\<open>dbapi_rule_rm\<close> of \<open>lib/dbapi.c\<close>).

  The junctions that have been released are kept in a list; to read one of them, or to release it once
  more, is a fault. The memory of branches, buckets and nodes is not followed, but for the two places
  where a function reads a node that it has just released: the list of ranges and the trie of prefixes.
  A branch that is released is left where it is until its junction forgets it, as in the code.
\<close>

subsection \<open>Releasing junctions\<close>

type_synonym freed = "nat list"

text \<open>\<open>sl_free_slist\<close> reads the links of a node behind \<open>sl_free_node\<close>, which releases them.\<close>

definition sl_free_slist :: "nat slist option \<Rightarrow> nat list option" where
  "sl_free_slist s0 = (case s0 of
      None \<Rightarrow> Some []
    | Some s \<Rightarrow>
        if sl_next (sl_nodes s ! sl_head s) = [] then
          Some (case sl_junc (sl_nodes s ! sl_head s) of None \<Rightarrow> [] | Some va \<Rightarrow> v_items va)
        else None)"

fun sl_free_all :: "nat slist option list \<Rightarrow> nat list option" where
  "sl_free_all [] = Some []"
| "sl_free_all (s # ss) = do { js \<leftarrow> sl_free_slist s; ks \<leftarrow> sl_free_all ss; Some (js @ ks) }"

text \<open>The junctions that \<open>branch_free\<close> releases, by the type of the branch.\<close>

definition branch_juncs :: "'r branch \<Rightarrow> nat list option" where
  "branch_juncs bp =
     (if br_type bp = SPOC_ATOM then
        (case br_val bp of
           VAtom None \<Rightarrow> Some []
         | VAtom (Some ht) \<Rightarrow> Some (List.map_filter (\<lambda>b. Option.bind b buck_next) (ph_arr ht))
         | _ \<Rightarrow> None)
      else if br_type bp = SPOC_LIST then
        (case br_val bp of VJunc None \<Rightarrow> Some [] | VJunc (Some j) \<Rightarrow> Some [j] | _ \<Rightarrow> None)
      else if br_type bp = SPOC_PREFIX then (case br_val bp of VSsn t \<Rightarrow> Some (ssn_free t) | _ \<Rightarrow> None)
      else if br_type bp = SPOC_RANGE then (case br_val bp of VRange ss \<Rightarrow> sl_free_all ss | _ \<Rightarrow> None)
      else Some [])"

text \<open>The junctions of a tree have no more levels than there are junctions.\<close>

fun junc_free :: "nat \<Rightarrow> 'r store \<Rightarrow> freed \<Rightarrow> nat \<Rightarrow> freed option"
  and items_free :: "nat \<Rightarrow> 'r store \<Rightarrow> freed \<Rightarrow> 'r branch option list \<Rightarrow> freed option"
  and juncs_free :: "nat \<Rightarrow> 'r store \<Rightarrow> freed \<Rightarrow> nat list \<Rightarrow> freed option" where
  "junc_free 0 st fr jp = None"
| "junc_free (Suc n) st fr jp =
     (if jp \<in> set fr \<or> length (st_juncs st) \<le> jp then None
      else map_option ((#) jp) (items_free n st fr (st_juncs st ! jp)))"
| "items_free n st fr [] = Some fr"
| "items_free n st fr (b # bs) =
     (case (case b of None \<Rightarrow> Some [] | Some bp \<Rightarrow> branch_juncs bp) of
        None \<Rightarrow> None
      | Some js \<Rightarrow> (case juncs_free n st fr js of None \<Rightarrow> None | Some fr' \<Rightarrow> items_free n st fr' bs))"
| "juncs_free n st fr [] = Some fr"
| "juncs_free n st fr (j # js) =
     (case junc_free n st fr j of None \<Rightarrow> None | Some fr' \<Rightarrow> juncs_free n st fr' js)"

definition free_levels :: "'r store \<Rightarrow> nat" where
  "free_levels st = Suc (length (st_juncs st))"

definition branch_free :: "'r store \<Rightarrow> freed \<Rightarrow> 'r branch \<Rightarrow> freed option" where
  "branch_free st fr bp = do { js \<leftarrow> branch_juncs bp; juncs_free (free_levels st) st fr js }"

subsection \<open>Removing an element\<close>

definition junction_index :: "'r store \<Rightarrow> nat \<Rightarrow> nat" where
  "junction_index st jp = length (filter (\<lambda>b. b \<noteq> None) (st_juncs st ! jp))"

text \<open>A junction that can be read.\<close>

definition live :: "'r store \<Rightarrow> freed \<Rightarrow> nat \<Rightarrow> bool" where
  "live st fr jp \<longleftrightarrow> jp < length (st_juncs st) \<and> jp \<notin> set fr"

definition rm_endofrule :: "'r store \<Rightarrow> freed \<Rightarrow> nat \<Rightarrow> 'r \<Rightarrow> (int \<times> 'r store \<times> freed) option" where
  "rm_endofrule st fr jp rt =
     (if live st fr jp then
        (case ARRFIND st jp SPOC_ENDOFRULE of
           None \<Rightarrow> None
         | Some bp \<Rightarrow> (case br_val bp of
             VId (Some sid) \<Rightarrow>
               (let sid' = snd (index_rm sid rt);
                    st' = set_item st jp SPOC_ENDOFRULE (Some (bp\<lparr>br_count := br_count bp - 1, br_val := VId (Some sid')\<rparr>))
                in Some (if si_arr sid' = [] then 0 else 1, st', fr))
           | _ \<Rightarrow> None))
      else None)"

text \<open>What follows the removal below a junction: one without branches is released, and \<open>True\<close> says so.\<close>

definition drop_empty :: "'r store \<Rightarrow> freed \<Rightarrow> nat \<Rightarrow> (bool \<times> freed) option" where
  "drop_empty st fr jp =
     (if live st fr jp then
        (if junction_index st jp = 0 then map_option (Pair True) (junc_free (free_levels st) st fr jp)
         else Some (False, fr))
      else None)"

fun depth :: "cursor \<Rightarrow> nat" where
  "depth (Cur e es None) = 0"
| "depth (Cur e es (Some p)) = Suc (depth p)"

lemma depth_memberof: "c_memberof c = Some p \<Longrightarrow> depth c = Suc (depth p) \<and> after p \<le> after c"
  by (cases c) auto

text \<open>The branch of the atom when it is counted down: the table without the bucket or with the counted
  bucket, and what \<open>atom_rm\<close> has to do next.\<close>

datatype atom_step = Gone | Released "nat option" | Below "nat option" "nat buck" "nat phash"

definition atom_take :: "'r branch \<Rightarrow> atom \<Rightarrow> (atom_step \<times> 'r bval) option" where
  "atom_take bp ap = (case br_val bp of
      VAtom None \<Rightarrow> Some (Gone, VAtom None)
    | VAtom (Some ht) \<Rightarrow> do {
        b \<leftarrow> phash_search ht (a_val ap) (a_hash ap);
        case b of
          None \<Rightarrow> Some (Gone, VAtom (Some ht))
        | Some bucket \<Rightarrow> do {
            let bucket' = bucket\<lparr>buck_refc := (buck_refc bucket + 2 ^ 32 - 1) mod 2 ^ 32\<rparr>;
            let ht' = buck_set ht bucket bucket';
            if buck_refc bucket' = 0 then do {
              ht2 \<leftarrow> bucket_rm (length prime) ht' bucket';
              Some (if phash_index ht2 = 0 then (Gone, VAtom None)
                    else (Released (buck_next bucket'), VAtom (Some ht2))) }
            else Some (Below (buck_next bucket') bucket' ht', VAtom (Some ht')) } }
    | _ \<Rightarrow> None)"

text \<open>The results are those of the code: 0 for a branch that is gone, \<open>- 1\<close> for a junction that is gone,
  \<open>- 2\<close> for an element that is not there. The switch of \<open>element_rm\<close> does nothing for a range and a set and
  has no case for the other types; the branch counts as gone then. In a null junction there is no branch: \<open>element_rm\<close>
  returns \<open>- 2\<close> for it, and the removal of an end of a list or of a rule follows the null pointer.\<close>

function (sequential) element_rm :: "'r store \<Rightarrow> freed \<Rightarrow> nat \<Rightarrow> cursor \<Rightarrow> 'r \<Rightarrow> (int \<times> 'r store \<times> freed) option"
  and atom_rm :: "'r store \<Rightarrow> freed \<Rightarrow> nat \<Rightarrow> 'r branch \<Rightarrow> cursor \<Rightarrow> atom \<Rightarrow> 'r \<Rightarrow> (int \<times> 'r store \<times> freed) option"
  and ssn_rm :: "'r store \<Rightarrow> freed \<Rightarrow> nat \<Rightarrow> 'r branch \<Rightarrow> cursor \<Rightarrow> atom \<Rightarrow> nat \<Rightarrow> 'r \<Rightarrow> (int \<times> 'r store \<times> freed) option"
  and list_rm :: "'r store \<Rightarrow> freed \<Rightarrow> 'r branch \<Rightarrow> cursor \<Rightarrow> 'r \<Rightarrow> (int \<times> 'r store \<times> freed) option"
  and rm_next :: "'r store \<Rightarrow> freed \<Rightarrow> nat \<Rightarrow> cursor \<Rightarrow> 'r \<Rightarrow> (int \<times> 'r store \<times> freed) option"
  and rm_endoflist :: "'r store \<Rightarrow> freed \<Rightarrow> nat \<Rightarrow> cursor \<Rightarrow> 'r \<Rightarrow> (int \<times> 'r store \<times> freed) option" where
  "element_rm st fr jp c rt =
     (let t = element_type (c_el c) in
      if \<not> live st fr jp then None
      else case ARRFIND st jp t of
        None \<Rightarrow> Some (- 2, st, fr)
      | Some bp0 \<Rightarrow>
          (let bp = bp0\<lparr>br_count := br_count bp0 - 1\<rparr>; st1 = set_item st jp t (Some bp) in
           if br_count bp = 0 then
             (case branch_free st1 fr bp of None \<Rightarrow> None | Some fr' \<Rightarrow> Some (1, set_item st1 jp t None, fr'))
           else
             case (case c_el c of
                     EAtom a \<Rightarrow> atom_rm st1 fr jp bp c a rt
                   | EPrefix a \<Rightarrow> ssn_rm st1 fr jp bp c a FORWARD rt
                   | ESuffix a \<Rightarrow> ssn_rm st1 fr jp bp c a BACKWARD rt
                   | EList es \<Rightarrow> list_rm st1 fr bp c rt
                   | _ \<Rightarrow> Some (0, st1, fr)) of
               None \<Rightarrow> None
             | Some (r, st2, fr2) \<Rightarrow>
                 if r = 0 then
                   (let st3 = set_item st2 jp t None in
                    case drop_empty st3 fr2 jp of None \<Rightarrow> None | Some (_, fr3) \<Rightarrow> Some (1, st3, fr3))
                 else Some (1, st2, fr2)))"
| "atom_rm st fr jp bp c a rt =
     (case atom_take bp a of
        None \<Rightarrow> None
      | Some (Gone, v) \<Rightarrow> Some (0, set_val st jp bp v, fr)
      | Some (Released nx, v) \<Rightarrow>
          (case nx of
             None \<Rightarrow> Some (1, set_val st jp bp v, fr)
           | Some j \<Rightarrow> (case junc_free (free_levels st) st fr j of
                None \<Rightarrow> None | Some fr' \<Rightarrow> Some (1, set_val st jp bp v, fr')))
      | Some (Below nx bucket ht, v) \<Rightarrow>
          (case nx of
             None \<Rightarrow> if c_next c = None then None else Some (1, set_val st jp bp v, fr)
           | Some j \<Rightarrow>
               (let st1 = set_val st jp bp v; gone = VAtom (Some (buck_set ht bucket (bucket\<lparr>buck_next := None\<rparr>))) in
                case rm_next st1 fr j c rt of
                  None \<Rightarrow> None
                | Some (r, st2, fr2) \<Rightarrow>
                    if r = 0 then
                      (case drop_empty st2 fr2 j of
                         None \<Rightarrow> None
                       | Some (e, fr3) \<Rightarrow> Some (1, if e then set_val st2 jp bp gone else st2, fr3))
                    else Some (1, if r = - 1 then set_val st2 jp bp gone else st2, fr2))))"
| "ssn_rm st fr jp bp c a direction rt =
     (case br_val bp of
        VSsn t \<Rightarrow>
          (case ssn_delete t (oct_val (a_val a)) direction of
             None \<Rightarrow> None
           | Some (t', nx, js) \<Rightarrow>
               (case juncs_free (free_levels st) st fr js of
                  None \<Rightarrow> None
                | Some fr1 \<Rightarrow>
                    if t' = SNull then (if direction = FORWARD then None else Some (0, st, fr1))
                    else
                      (let st1 = set_val st jp bp (VSsn t') in
                       case nx of
                         None \<Rightarrow> Some (1, st1, fr1)
                       | Some j \<Rightarrow>
                           (case rm_next st1 fr1 j c rt of
                              None \<Rightarrow> None
                            | Some (r, st2, fr2) \<Rightarrow>
                                if r = 0 then
                                  (case drop_empty st2 fr2 j of
                                     None \<Rightarrow> None | Some (e, fr3) \<Rightarrow> Some (if e then - 1 else 1, st2, fr3))
                                else Some (1, st2, fr2)))))
      | _ \<Rightarrow> None)"
| "list_rm st fr bp c rt =
     (case br_val bp of
        VJunc None \<Rightarrow> Some (1, st, fr)
      | VJunc (Some j) \<Rightarrow>
          (case c_head c of
             None \<Rightarrow> None
           | Some h \<Rightarrow> (case element_rm st fr j h rt of None \<Rightarrow> None | Some (_, st', fr') \<Rightarrow> Some (1, st', fr')))
      | _ \<Rightarrow> None)"
| "rm_next st fr jp c rt =
     (case c_next c of
        Some n \<Rightarrow> element_rm st fr jp n rt
      | None \<Rightarrow> (case c_memberof c of
          Some p \<Rightarrow> rm_endoflist st fr jp p rt
        | None \<Rightarrow> rm_endofrule st fr jp rt))"
| "rm_endoflist st fr jp p rt =
     (if \<not> live st fr jp then None
      else case ARRFIND st jp SPOC_ENDOFLIST of
        None \<Rightarrow> None
      | Some bp0 \<Rightarrow>
          (let bp = bp0\<lparr>br_count := br_count bp0 - 1\<rparr>; st1 = set_item st jp SPOC_ENDOFLIST (Some bp) in
           if br_count bp = 0 then Some (0, set_item st1 jp SPOC_ENDOFLIST None, fr)
           else case br_val bp of
             VJunc None \<Rightarrow> if c_next p = None then None else Some (1, st1, fr)
           | VJunc (Some j) \<Rightarrow>
               (case rm_next st1 fr j p rt of
                  None \<Rightarrow> None
                | Some (r, st2, fr2) \<Rightarrow>
                    if r = 0 then
                      (case drop_empty st2 fr2 j of
                         None \<Rightarrow> None
                       | Some (e, fr3) \<Rightarrow> Some (1, if e then set_val st2 jp bp (VJunc None) else st2, fr3))
                    else Some (1, st2, fr2))
           | _ \<Rightarrow> None))"
  by pat_completeness auto
termination
proof (relation "measures [
    \<lambda>x. case x of Inl (Inl (st, fr, jp, c, rt)) \<Rightarrow> weight (c_el c) + after c
      | Inl (Inr (Inl (st, fr, jp, bp, c, a, rt))) \<Rightarrow> weight (c_el c) + after c
      | Inl (Inr (Inr (st, fr, jp, bp, c, a, d, rt))) \<Rightarrow> weight (c_el c) + after c
      | Inr (Inl (st, fr, bp, c, rt)) \<Rightarrow> weight (c_el c) + after c
      | Inr (Inr (Inl (st, fr, jp, c, rt))) \<Rightarrow> after c
      | Inr (Inr (Inr (st, fr, jp, p, rt))) \<Rightarrow> after p,
    \<lambda>x. case x of Inl (Inl _) \<Rightarrow> 1 | Inl (Inr _) \<Rightarrow> 0 | Inr (Inl _) \<Rightarrow> 0
      | Inr (Inr (Inl (st, fr, jp, c, rt))) \<Rightarrow> 2 * depth c + 2
      | Inr (Inr (Inr (st, fr, jp, p, rt))) \<Rightarrow> 2 * depth p + 3]")
qed (auto simp: weight_pos dest!: after_head after_next depth_memberof split: if_splits intro: after_head [OF sym])

declare element_rm.simps [simp del] atom_rm.simps [simp del] rm_next.simps [simp del] rm_endoflist.simps [simp del]

definition rule_rm :: "(bytes \<Rightarrow> int \<Rightarrow> bytes) \<Rightarrow> 'r store \<Rightarrow> freed \<Rightarrow> octet \<Rightarrow> 'r \<Rightarrow> (spocp_result \<times> 'r store \<times> freed) option" where
  "rule_rm shift st fr rule rt = do {
     (x, _) \<leftarrow> element_get shift (rule\<lparr>oct_size := 0\<rparr>);
     case x of
       Inl rc \<Rightarrow> Some (rc, st, fr)
     | Inr None \<Rightarrow> Some (SPOCP_SUCCESS, st, fr)
     | Inr (Some ep) \<Rightarrow> do {
         (r, st', fr') \<leftarrow> element_rm st fr 0 (c_top ep) rt;
         Some (if r = 1 then SPOCP_SUCCESS else SPOCP_OPERATIONSERROR, st', fr') } }"

subsection \<open>Removing a rule from the database\<close>

text \<open>\<open>dbapi_rule_rm\<close> gets the identifier, or the rule itself. What is deleted from the persistent store
  is the third result.\<close>

definition dbapi_rule_rm :: "(bytes \<Rightarrow> int \<Rightarrow> bytes) \<Rightarrow> dbase \<Rightarrow> freed \<Rightarrow> octet option \<Rightarrow> rule option \<Rightarrow>
    (spocp_result \<times> dbase \<times> freed \<times> bytes option) option" where
  "dbapi_rule_rm shift db fr op rule = do {
     found \<leftarrow> (case rule of
        Some rt \<Rightarrow> Some (Inr rt)
      | None \<Rightarrow> do {
          o1 \<leftarrow> op;
          rc \<leftarrow> check_uid o1;
          if rc \<noteq> SPOCP_SUCCESS then Some (Inl rc)
          else do {
            r \<leftarrow> get_rule db (Some o1);
            Some (case r of None \<Rightarrow> Inl SPOCP_SYNTAXERROR | Some rt \<Rightarrow> Inr rt) } });
     case found of
       Inl rc \<Rightarrow> Some (rc, db, fr, None)
     | Inr rt \<Rightarrow> do {
         (rc, st', fr') \<leftarrow> rule_rm shift (db_jp db) fr (ri_rule rt) rt;
         (_, db') \<leftarrow> free_rule (db\<lparr>db_jp := st'\<rparr>) (ri_uid rt);
         Some (rc, db', fr', Some (ri_uid rt)) } }"


subsection \<open>The union of a branch\<close>

text \<open>The value of a branch is a union, and its type tells the member. \<open>same_member t v\<close>: the value \<open>v\<close> is of
  the member that belongs to the type \<open>t\<close>.\<close>

text \<open>A hash table has the size that the table of primes has for it.\<close>

definition ph_sized :: "'n phash \<Rightarrow> bool" where
  "ph_sized ht \<longleftrightarrow> ph_pnr ht \<le> pnrmax \<and> ph_size ht = prime ! ph_pnr ht \<and> length (ph_arr ht) = ph_size ht"

lemma ph_put_sized [simp]: "ph_sized (ph_put ht i b) = ph_sized ht"
  by (simp add: ph_sized_def ph_put_def)

lemma hash_sized:
  shows "phash_resize f ht = Some h' \<Longrightarrow> ph_sized h'"
  and "ph_sized ht \<Longrightarrow> reinsert f ht bs = Some h' \<Longrightarrow> ph_sized h'"
  and "ph_sized ht \<Longrightarrow> phash_insert_bucket f ht bp = Some h' \<Longrightarrow> ph_sized h'"
proof (induction f ht and f ht bs and f ht bp arbitrary: h' and h' and h'
    rule: phash_resize_reinsert_phash_insert_bucket.induct)
  case (2 f ht)
  then show ?case by (auto simp: Let_def ph_sized_def pnrmax_def split: if_splits)
next
  case (5 f ht bp)
  then show ?case by (auto simp: phash_insert_bucket.simps [of f ht bp] Let_def split: option.splits place.splits if_splits nat.splits)
qed (auto split: option.splits)

lemma phash_insert_sized: "ph_sized ht \<Longrightarrow> phash_insert f ht v key = Some (h', b) \<Longrightarrow> ph_sized h'"
proof (induction f ht v key rule: phash_insert.induct)
  case (1 f ht v key)
  then show ?case
    by (auto simp: phash_insert.simps [of f ht v key] Let_def hash_sized(1) simp del: phash_resize.simps
        split: option.splits place.splits if_splits nat.splits)
qed

lemma phash_new_sized [simp]: "ph_sized (phash_new pnr d)"
  by (simp add: ph_sized_def phash_new_def Let_def)

lemma buck_set_sized [simp]: "ph_sized (buck_set ht b b') = ph_sized ht"
  by (simp add: ph_sized_def buck_set_def)

lemma bucket_rm_sized: "ph_sized ht \<Longrightarrow> bucket_rm f ht b = Some h' \<Longrightarrow> ph_sized h'"
proof -
  assume a: "ph_sized ht" "bucket_rm f ht b = Some h'"
  have "ph_sized (ht\<lparr>ph_arr := replicate (ph_size ht) None, ph_n := 0\<rparr>)" using a(1) by (simp add: ph_sized_def)
  from hash_sized(2) [OF this] show ?thesis using a by (auto simp: bucket_rm_def split: option.splits)
qed

definition same_member :: "nat \<Rightarrow> 'r bval \<Rightarrow> bool" where
  "same_member t v = (case v of
      VSet _ \<Rightarrow> t = SPOC_SET
    | VAtom h \<Rightarrow> t = SPOC_ATOM \<and> (case h of None \<Rightarrow> True | Some ht \<Rightarrow> ph_sized ht)
    | VJunc _ \<Rightarrow> t \<notin> {SPOC_SET, SPOC_ATOM, SPOC_PREFIX, SPOC_SUFFIX, SPOC_RANGE, SPOC_ENDOFRULE}
    | VSsn _ \<Rightarrow> t \<in> {SPOC_PREFIX, SPOC_SUFFIX}
    | VRange ss \<Rightarrow> t = SPOC_RANGE \<and> length ss = DATATYPES
    | VId _ \<Rightarrow> t = SPOC_ENDOFRULE)"

definition branch_typed :: "nat \<Rightarrow> 'r branch \<Rightarrow> bool" where
  "branch_typed t b \<longleftrightarrow> br_type b = t \<and> same_member t (br_val b)"

definition store_typed :: "'r store \<Rightarrow> bool" where
  "store_typed st \<longleftrightarrow> (\<forall>j < length (st_juncs st). length (st_juncs st ! j) = NTYPES \<and>
     (\<forall>t < NTYPES. \<forall>b. st_juncs st ! j ! t = Some b \<longrightarrow> branch_typed t b))"

lemma ARRFIND_typed: "store_typed st \<Longrightarrow> ARRFIND st jp t = Some b \<Longrightarrow> branch_typed t b"
  by (auto simp: store_typed_def ARRFIND_def split: if_splits)

lemma set_item_typed:
  assumes "store_typed st" "\<And>b. ob = Some b \<Longrightarrow> branch_typed t b"
  shows "store_typed (set_item st jp t ob)"
proof (cases "jp < length (st_juncs st)")
  case True
  have "(st_juncs st ! jp)[t := ob] ! u = (if u = t then ob else st_juncs st ! jp ! u)" if "u < NTYPES" for u
    using assms(1) True that by (auto simp: store_typed_def nth_list_update)
  then show ?thesis using assms True by (auto simp: store_typed_def set_item_def nth_list_update split: if_splits)
qed (use assms in \<open>simp add: store_typed_def set_item_def\<close>)

lemma zero_val_member: "same_member t (zero_val t)"
  by (auto simp: same_member_def zero_val_def DATATYPES_def SPOC_SET_def SPOC_ATOM_def SPOC_PREFIX_def SPOC_SUFFIX_def SPOC_RANGE_def SPOC_ENDOFRULE_def)

lemma set_val_typed: "store_typed st \<Longrightarrow> same_member (br_type bp) v \<Longrightarrow> store_typed (set_val st jp bp v)"
  unfolding set_val_def by (rule set_item_typed) (auto simp: branch_typed_def)

lemma branch_add_typed: "store_typed st \<Longrightarrow> same_member (br_type bp) (br_val bp) \<Longrightarrow> store_typed (branch_add st jp bp)"
  unfolding branch_add_def by (rule set_item_typed) (auto simp: branch_typed_def)

lemma junc_new_typed: "store_typed st \<Longrightarrow> store_typed (snd (junc_new st))"
  by (auto simp: store_typed_def junc_new_def nth_append NTYPES_def)

lemma alloc_typed: "store_typed st \<Longrightarrow> store_typed (alloc st n)"
  by (simp add: alloc_def junc_new_typed)

lemmas store_typed_steps = set_item_typed set_val_typed branch_add_typed alloc_typed

lemma rand_typed [simp]: "store_typed (st\<lparr>st_nrand := n\<rparr>) = store_typed st"
  by (simp add: store_typed_def)

lemma any_add_typed: "store_typed st \<Longrightarrow> branch_typed t bp \<Longrightarrow> any_add st jp bp = Some (st', n) \<Longrightarrow> store_typed st'"
  by (auto simp: any_add_def Let_def branch_typed_def same_member_def intro!: store_typed_steps split: bval.splits option.splits)

lemma leaf_add_typed:
  assumes "store_typed st" "branch_typed t bp" "leaf_add st jp bp e = Some (st', n)"
  shows "store_typed st'"
proof (cases e)
  case (ERange r)
  then show ?thesis using assms
    by (auto simp: leaf_add_def range_add_def Let_def branch_typed_def same_member_def
        intro!: store_typed_steps split: bval.splits option.splits if_splits)
next
  case (EAtom a)
  obtain h where h: "br_val bp = VAtom h" using assms(3) EAtom by (auto simp: leaf_add_def atom_add_def split: bval.splits)
  have "ph_sized (case h of None \<Rightarrow> phash_new 3 50 | Some ht \<Rightarrow> ht)" using assms(2) h by (auto simp: branch_typed_def same_member_def split: option.splits)
  from phash_insert_sized [OF this] show ?thesis using assms h EAtom
    by (auto simp: leaf_add_def atom_add_def Let_def branch_typed_def same_member_def intro!: store_typed_steps split: option.splits)
next
  case EAny
  then show ?thesis using any_add_typed [OF assms(1,2)] assms(3) by (simp add: leaf_add_def)
qed (use assms in \<open>auto simp: leaf_add_def atom_add_def prefix_add_def suffix_add_def ssn_add_def Let_def branch_typed_def
        same_member_def intro!: store_typed_steps split: bval.splits option.splits\<close>)

lemma list_end_typed: "store_typed st \<Longrightarrow> list_end st ap = Some (st', n) \<Longrightarrow> store_typed st'"
  by (auto simp: list_end_def new_branch_def branch_typed_def same_member_def SPOC_ENDOFLIST_def SPOC_SET_def SPOC_ATOM_def SPOC_PREFIX_def
      SPOC_SUFFIX_def SPOC_RANGE_def SPOC_ENDOFRULE_def
      dest: ARRFIND_typed junc_new_typed intro!: store_typed_steps split: bval.splits option.splits prod.splits)

lemma rule_end_typed: "store_typed st \<Longrightarrow> rule_end st ap ri = Some (st', n) \<Longrightarrow> store_typed st'"
  by (auto simp: rule_end_def new_branch_def branch_typed_def same_member_def
      dest: ARRFIND_typed intro!: store_typed_steps split: bval.splits option.splits)

lemma list_close_typed: "store_typed st \<Longrightarrow> list_close st ap c ri = Some (st', ap', p, eor) \<Longrightarrow> store_typed st'"
proof (induction st ap c ri rule: list_close.induct)
  case (2 st ap e es parent ri)
  then show ?case
    by (auto dest: list_end_typed rule_end_typed split: option.splits if_splits prod.splits)
qed simp

lemma enter_branch_typed: "store_typed st \<Longrightarrow> store_typed (enter_branch st jp t)"
  by (auto simp: enter_branch_def new_branch_def zero_val_member branch_typed_def dest: ARRFIND_typed intro!: store_typed_steps split: option.splits)

lemma leave_branch_typed: "store_typed st \<Longrightarrow> store_typed (leave_branch st jp t ap)"
  by (auto simp: leave_branch_def branch_typed_def dest: ARRFIND_typed intro!: store_typed_steps split: option.splits)

lemma dset_new_typed: "store_typed st \<Longrightarrow> branch_typed t bp \<Longrightarrow> dset_new st jp bp ri = Some st' \<Longrightarrow> store_typed st'"
  by (auto simp: dset_new_def branch_typed_def same_member_def intro!: store_typed_steps split: bval.splits)

lemma dset_va_typed: "store_typed st \<Longrightarrow> store_typed (dset_va st jp va)"
  by (auto simp: dset_va_def branch_typed_def same_member_def dest!: ARRFIND_typed intro!: store_typed_steps split: bval.splits option.splits)

lemma element_add_typed_aux:
  shows "store_typed st \<Longrightarrow> element_add st jp c ri = Some (st', r) \<Longrightarrow> store_typed st'"
    and "store_typed st \<Longrightarrow> set_add st jp c es ri va ap = Some (st', va', ap') \<Longrightarrow> store_typed st'"
    and "store_typed st \<Longrightarrow> add_next st jp c ri = Some (st', r) \<Longrightarrow> store_typed st'"
proof (induction st jp c ri and st jp c es ri va ap and st jp c ri arbitrary: st' r and st' va' ap' and st' r
    rule: element_add_set_add_add_next.induct)
  case (1 st jp c ri)
  let ?t = "element_type (c_el c)" and ?st1 = "enter_branch st jp (element_type (c_el c))"
  obtain bp where b: "ARRFIND ?st1 jp ?t = Some bp"
    using "1.prems"(2) by (auto simp: element_add.simps [of st] Let_def split: option.splits)
  have st1: "store_typed ?st1" using "1.prems"(1) by (rule enter_branch_typed)
  have bt: "branch_typed ?t bp" using ARRFIND_typed [OF st1 b] .
  note IH = "1.IH" [OF refl refl b]
  have leaf: "store_typed x2" if "leaf_add ?st1 jp bp (c_el c) = Some (s2, n)" "add_next s2 n c ri = Some (x2, ap)"
      "\<And>es. c_el c \<noteq> EList es" "\<And>es. c_el c \<noteq> ESet es" for s2 n x2 ap
    using IH(1,5-8) leaf_add_typed [OF st1 bt that(1)] that by (cases "c_el c") auto
  have list: "store_typed x2" if "c_el c = EList es" "list_junc ?st1 jp bp = Some (s2, lj)" "c_head c = Some h"
      "(case element_add s2 lj h ri of None \<Rightarrow> None | Some (st3, None) \<Rightarrow> Some (st3, None) | Some (st3, Some ap) \<Rightarrow> add_next st3 ap c ri) = Some (x2, ap)"
    for es s2 lj h x2 ap
  proof -
    note h = that
    have "store_typed s2" using any_add_typed [OF st1 bt] h(2) by (simp add: list_junc_def)
    moreover obtain s3 o3 where e: "element_add s2 lj h ri = Some (s3, o3)" using h(4) by (cases "element_add s2 lj h ri") auto
    ultimately have "store_typed s3" by (rule IH(2) [OF h(1,2) refl h(3)])
    then show ?thesis using IH(3) [OF h(1,2) refl h(3) e refl] h(4) e by (cases o3) auto
  qed
  have set: "store_typed x2" if "c_el c = ESet s" "dset_new ?st1 jp bp ri = Some s2"
      "(case s of None \<Rightarrow> Some (s2, None) | Some es \<Rightarrow> (case set_add s2 jp c es ri None None of
          None \<Rightarrow> None | Some (st3, va, ap) \<Rightarrow> Some (dset_va st3 jp va, ap))) = Some (x2, ap)" for s s2 x2 ap
    using dset_new_typed [OF st1 bt that(2)] IH(4) [OF that(1,2)] that(3)
    by (auto intro: dset_va_typed split: option.splits)
  obtain x2 ap where st': "st' = leave_branch x2 jp ?t ap" and "store_typed x2"
    using "1.prems"(2) b leaf list set
    by (cases "c_el c") (auto simp: element_add.simps [of st] Let_def split: option.splits)
  then show ?case by (simp add: leave_branch_typed)
next
  case (2 st jp c ri va ap)
  then show ?case by simp
next
  case (3 st jp c e es ri va ap)
  obtain st1 o1 where e: "element_add st jp (c_member c e) ri = Some (st1, o1)"
    using "3.prems"(2) by (auto split: option.splits)
  have t: "store_typed st1" by (rule "3.IH"(1) [OF "3.prems"(1) e])
  show ?case
  proof (cases o1)
    case None
    then show ?thesis using "3.prems"(2) e t by simp
  next
    case (Some n)
    then obtain va' where v: "varr_add va n = Some va'" using "3.prems"(2) e by (auto split: option.splits)
    then show ?thesis using "3.IH"(2) [OF e [unfolded Some] refl refl v t] "3.prems"(2) e Some by simp
  qed
next
  case (4 st jp c ri)
  show ?case
  proof (cases "c_next c")
    case (Some n)
    then show ?thesis using "4.IH"(2) [OF Some] "4.prems" by (simp add: add_next.simps [of st jp c])
  next
    case None
    note n = this
    show ?thesis
    proof (cases "c_memberof c = None \<or> is_list c")
      case False
      then obtain st1 jp1 p eor where l: "list_close st jp c ri = Some (st1, jp1, p, eor)"
        using "4.prems"(2) None by (auto simp: add_next.simps [of st jp c] split: option.splits)
      have "store_typed st1" by (rule list_close_typed [OF "4.prems"(1) l])
      then show ?thesis using "4.IH"(1) [OF None False l refl refl refl] "4.prems"(2) None False l
        by (auto simp: add_next.simps [of st jp c] split: option.splits if_splits)
    qed (use "4.prems" None in \<open>auto simp: add_next.simps [of st jp c]\<close>)
  qed
qed


lemma atom_take_typed:
  assumes "atom_take bp a = Some (x, v)" "same_member (br_type bp) (br_val bp)"
  shows "same_member (br_type bp) v" "x = Below nx bucket ht \<Longrightarrow> same_member (br_type bp) (VAtom (Some (buck_set ht bucket b)) :: 'r bval)"
proof -
  obtain h where h: "br_val bp = VAtom h" using assms(1) by (auto simp: atom_take_def split: bval.splits)
  have t: "br_type bp = SPOC_ATOM" "h = Some t \<Longrightarrow> ph_sized t" for t using assms(2) h by (auto simp: same_member_def)
  have "same_member (br_type bp) v \<and> (\<forall>nx bucket ht. x = Below nx bucket ht \<longrightarrow> ph_sized ht)"
  proof (cases h)
    case (Some ht)
    obtain p where p: "phash_search ht (a_val a) (a_hash a) = Some p" using assms(1) h Some by (auto simp: atom_take_def bind_eq_Some_conv)
    show ?thesis
    proof (cases p)
      case (Some bucket)
      define b' where "b' = bucket\<lparr>buck_refc := (buck_refc bucket + 2 ^ 32 - 1) mod 2 ^ 32\<rparr>"
      have eq: "atom_take bp a = (if buck_refc b' = 0 then do {
              ht2 \<leftarrow> bucket_rm (length prime) (buck_set ht bucket b') b';
              Some (if phash_index ht2 = 0 then (Gone, VAtom None) else (Released (buck_next b'), VAtom (Some ht2))) }
            else Some (Below (buck_next b') b' (buck_set ht bucket b'), VAtom (Some (buck_set ht bucket b'))))"
        unfolding atom_take_def h \<open>h = Some ht\<close> by (simp only: p Some bval.case option.case bind.bind_lunit Let_def b'_def)
      have sz: "ph_sized (buck_set ht bucket b')" using t(2) [OF \<open>h = Some ht\<close>] by simp
      show ?thesis
      proof (cases "buck_refc b' = 0")
        case True
        then show ?thesis using assms(1) t(1) bucket_rm_sized [OF sz] unfolding eq
          by (auto simp: same_member_def bind_eq_Some_conv split: if_splits)
      next
        case False
        then show ?thesis using assms(1) t(1) sz unfolding eq by (auto simp: same_member_def)
      qed
    next
      case None
      then have "x = Gone" "v = VAtom (Some ht)" using assms(1) h Some p by (simp_all add: atom_take_def)
      then show ?thesis using t(1) t(2) [OF Some] by (simp add: same_member_def)
    qed
  next
    case None
    then have "x = Gone" "v = VAtom None" using assms(1) h by (simp_all add: atom_take_def)
    then show ?thesis using t(1) by (simp add: same_member_def)
  qed
  then show "same_member (br_type bp) v" "x = Below nx bucket ht \<Longrightarrow> same_member (br_type bp) (VAtom (Some (buck_set ht bucket b)) :: 'r bval)"
    using t(1) by (auto simp: same_member_def)
qed

lemma rm_endofrule_typed: "store_typed st \<Longrightarrow> rm_endofrule st fr jp rt = Some (r, st', fr') \<Longrightarrow> store_typed st'"
  by (auto simp: rm_endofrule_def Let_def branch_typed_def same_member_def dest!: ARRFIND_typed intro!: set_item_typed
      split: if_splits option.splits bval.splits)

lemma element_rm_typed_aux:
  shows "store_typed st \<Longrightarrow> element_rm st fr jp c rt = Some (r, st', fr') \<Longrightarrow> store_typed st'"
    and "store_typed st \<Longrightarrow> same_member (br_type bp) (br_val bp) \<Longrightarrow> atom_rm st fr jp bp c a rt = Some (r, st', fr') \<Longrightarrow> store_typed st'"
    and "store_typed st \<Longrightarrow> same_member (br_type bp) (br_val bp) \<Longrightarrow> ssn_rm st fr jp bp c a d rt = Some (r, st', fr') \<Longrightarrow> store_typed st'"
    and "store_typed st \<Longrightarrow> list_rm st fr bp c rt = Some (r, st', fr') \<Longrightarrow> store_typed st'"
    and "store_typed st \<Longrightarrow> rm_next st fr jp c rt = Some (r, st', fr') \<Longrightarrow> store_typed st'"
    and "store_typed st \<Longrightarrow> rm_endoflist st fr jp c rt = Some (r, st', fr') \<Longrightarrow> store_typed st'"
proof (induction st fr jp c rt and st fr jp bp c a rt and st fr jp bp c a d rt and st fr bp c rt and st fr jp c rt and st fr jp c rt
    arbitrary: r st' fr' and r st' fr' and r st' fr' and r st' fr' and r st' fr' and r st' fr'
    rule: element_rm_atom_rm_ssn_rm_list_rm_rm_next_rm_endoflist.induct)
  case (1 st fr jp c rt)
  let ?t = "element_type (c_el c)"
  have l: "live st fr jp" using "1.prems"(2) by (auto simp: element_rm.simps [of st] Let_def split: if_splits)
  show ?case
  proof (cases "ARRFIND st jp ?t")
    case None
    then show ?thesis using "1.prems" l by (simp add: element_rm.simps [of st] Let_def)
  next
    case (Some bp0)
    define bp where "bp = bp0\<lparr>br_count := br_count bp0 - 1\<rparr>"
    define st1 where "st1 = set_item st jp ?t (Some bp)"
    have bt: "branch_typed ?t bp" using ARRFIND_typed [OF "1.prems"(1) Some] by (simp add: bp_def branch_typed_def)
    have st1: "store_typed st1" using "1.prems"(1) bt by (auto simp: st1_def intro: set_item_typed)
    note IH = "1.IH" [OF refl _ Some bp_def st1_def]
    have m: "same_member (br_type bp) (br_val bp)" using bt by (simp add: branch_typed_def)
    show ?thesis
    proof (cases "br_count bp = 0")
      case True
      then show ?thesis using "1.prems"(2) l Some st1
        by (auto simp: element_rm.simps [of st] Let_def bp_def [symmetric] st1_def [symmetric] intro!: set_item_typed split: option.splits)
    next
      case False
      define x where "x = (case c_el c of
                     EAtom a \<Rightarrow> atom_rm st1 fr jp bp c a rt
                   | EPrefix a \<Rightarrow> ssn_rm st1 fr jp bp c a FORWARD rt
                   | ESuffix a \<Rightarrow> ssn_rm st1 fr jp bp c a BACKWARD rt
                   | EList es \<Rightarrow> list_rm st1 fr bp c rt
                   | _ \<Rightarrow> Some (0, st1, fr))"
      have eq: "element_rm st fr jp c rt = (case x of None \<Rightarrow> None | Some (r, st2, fr2) \<Rightarrow>
                 if r = 0 then
                   (let st3 = set_item st2 jp ?t None in
                    case drop_empty st3 fr2 jp of None \<Rightarrow> None | Some (_, fr3) \<Rightarrow> Some (1, st3, fr3))
                 else Some (1, st2, fr2))"
        using l Some False unfolding x_def st1_def by (simp add: element_rm.simps [of st] Let_def bp_def [symmetric])
      have "store_typed s2" if "x = Some (q, s2, f2)" for q s2 f2
        using IH(1) [OF _ False _ st1 m] IH(2) [OF _ False _ st1] IH(3) [OF _ False _ st1 m] IH(4) [OF _ False _ st1 m] that st1 l
        by (cases "c_el c") (auto simp: x_def)
      then show ?thesis using "1.prems"(2) by (auto simp: eq Let_def intro!: set_item_typed split: option.splits if_splits)
    qed
  qed
next
  case (2 st fr jp bp c a rt)
  obtain x v where t: "atom_take bp a = Some (x, v)" using "2.prems"(3) by (auto simp: atom_rm.simps [of st] split: option.splits)
  note mem = atom_take_typed [OF t "2.prems"(2)]
  have st1: "store_typed (set_val st jp bp v)" using "2.prems"(1) mem(1) by (rule set_val_typed)
  show ?case
  proof (cases x)
    case (Below nx bucket ht)
    show ?thesis
    proof (cases nx)
      case None
      then show ?thesis using "2.prems"(3) t Below st1 by (auto simp: atom_rm.simps [of st] split: if_splits)
    next
      case (Some j)
      then obtain q s2 f2 where n: "rm_next (set_val st jp bp v) fr j c rt = Some (q, s2, f2)"
        using "2.prems"(3) t Below by (auto simp: atom_rm.simps [of st] Let_def split: option.splits)
      have "store_typed s2" using "2.IH" [OF t refl Below Some refl refl st1 n] .
      then show ?thesis using "2.prems"(3) t Below Some n mem(2) [OF Below]
        by (auto simp: atom_rm.simps [of st] Let_def intro!: set_val_typed split: option.splits if_splits)
    qed
  qed (use "2.prems"(3) t st1 in \<open>auto simp: atom_rm.simps [of st] split: option.splits\<close>)
next
  case (3 st fr jp bp c a d rt)
  obtain t where v: "br_val bp = VSsn t" using "3.prems"(3) by (auto split: bval.splits)
  obtain t' nx js where dl: "ssn_delete t (oct_val (a_val a)) d = Some (t', nx, js)" using "3.prems"(3) v by (auto split: option.splits)
  obtain fr1 where f: "juncs_free (free_levels st) st fr js = Some fr1" using "3.prems"(3) v dl by (auto split: option.splits)
  show ?case
  proof (cases "t' = SNull")
    case True
    then show ?thesis using "3.prems" v dl f by (auto split: if_splits)
  next
    case False
    define st1 where "st1 = set_val st jp bp (VSsn t')"
    have st1: "store_typed st1" using "3.prems"(1,2) v by (auto simp: st1_def same_member_def intro!: set_val_typed)
    show ?thesis
    proof (cases nx)
      case None
      then show ?thesis using "3.prems"(3) v dl f False st1 by (simp add: st1_def)
    next
      case (Some j)
      obtain q s2 f2 where n: "rm_next st1 fr1 j c rt = Some (q, s2, f2)"
        using "3.prems"(3) v dl f False Some by (auto simp: st1_def Let_def split: option.splits)
      have "store_typed s2" by (rule "3.IH" [OF v dl refl refl f False st1_def Some st1 n])
      then show ?thesis using "3.prems"(3) v dl f False Some n by (auto simp: st1_def [symmetric] Let_def split: option.splits if_splits)
    qed
  qed
next
  case (4 st fr bp c rt)
  then show ?case by (cases "br_val bp") (auto split: option.splits)
next
  case (5 st fr jp c rt)
  then show ?case by (auto simp: rm_next.simps [of st] dest: rm_endofrule_typed split: option.splits)
next
  case (6 st fr jp p rt)
  have l: "live st fr jp" using "6.prems"(2) by (auto simp: rm_endoflist.simps [of st] split: if_splits)
  obtain bp0 where b: "ARRFIND st jp SPOC_ENDOFLIST = Some bp0" using "6.prems"(2) l by (auto simp: rm_endoflist.simps [of st] split: option.splits)
  define bp where "bp = bp0\<lparr>br_count := br_count bp0 - 1\<rparr>"
  define st1 where "st1 = set_item st jp SPOC_ENDOFLIST (Some bp)"
  have bt: "branch_typed SPOC_ENDOFLIST bp" using ARRFIND_typed [OF "6.prems"(1) b] by (simp add: bp_def branch_typed_def)
  have st1: "store_typed st1" using "6.prems"(1) bt by (auto simp: st1_def intro: set_item_typed)
  show ?case
  proof (cases "br_count bp = 0")
    case True
    then show ?thesis using "6.prems"(2) l b st1
      by (auto simp: rm_endoflist.simps [of st] Let_def bp_def [symmetric] st1_def [symmetric] intro!: set_item_typed)
  next
    case False
    then consider "st' = st1" | j q s2 f2 where "br_val bp = VJunc (Some j)" "rm_next st1 fr j p rt = Some (q, s2, f2)"
      using "6.prems"(2) l b by (auto simp: rm_endoflist.simps [of st] Let_def bp_def st1_def split: bval.splits option.splits if_splits)
    then show ?thesis
    proof cases
      case 1
      then show ?thesis using st1 by simp
    next
      case n: 2
      have "store_typed s2" using "6.IH" [OF _ b bp_def st1_def False n(1) refl st1 n(2)] l by simp
      moreover have "same_member (br_type bp) (VJunc None :: 'a bval)" using bt n(1) by (simp add: branch_typed_def same_member_def)
      moreover have "st' = s2 \<or> st' = set_val s2 jp bp (VJunc None)"
        using "6.prems"(2) l b False n
        by (auto simp: rm_endoflist.simps [of st] Let_def bp_def [symmetric] st1_def [symmetric] split: option.splits if_splits)
      ultimately show ?thesis by (auto intro: set_val_typed)
    qed
  qed
qed


text \<open>The trees that storing and removing rules makes from the empty one.\<close>

inductive built :: "'r store \<Rightarrow> freed \<Rightarrow> bool" where
  built_empty: "built (empty_tree rnd before) []"
| built_add: "built st fr \<Longrightarrow> element_add st 0 (c_top e) ri = Some (st', r) \<Longrightarrow> built st' fr"
| built_rm: "built st fr \<Longrightarrow> element_rm st fr 0 (c_top e) rt = Some (q, st', fr') \<Longrightarrow> built st' fr'"

lemma built_typed: "built st fr \<Longrightarrow> store_typed st"
proof (induction rule: built.induct)
  case (built_empty rnd before)
  then show ?case by (auto simp: empty_tree_def store_typed_def)
qed (blast dest: element_add_typed_aux(1) element_rm_typed_aux(1))+

text \<open>C5: In a tree made by storing and removing rules in any order, the union in a branch always holds
  the member that the type of the branch and its place in the junction call for; a hash table in it has the size that the
  table of primes gives for it.\<close>

theorem union_member:
  assumes "built st fr" "ARRFIND st jp t = Some b"
  shows "br_type b = t \<and> same_member t (br_val b)"
  using ARRFIND_typed [OF built_typed [OF assms(1)] assms(2)] by (simp add: branch_typed_def)

theorem union_member_witness:
  "\<exists>st b. built st [] \<and> ARRFIND st 0 SPOC_ANY = Some (b :: nat branch) \<and> same_member SPOC_ANY (br_val b)"
proof -
  define st0 :: "nat store" where "st0 = empty_tree (\<lambda>i. 0) [NUL]"
  have "\<exists>st1 r. element_add st0 0 (c_top EAny) 7 = Some (st1, r) \<and> ARRFIND st1 0 SPOC_ANY \<noteq> None"
    by (simp add: st0_def empty_tree_def element_add.simps add_next.simps c_top_def c_next_def enter_branch_def ARRFIND_def branch_add_def
        set_item_def leaf_add_def any_add_def new_branch_def zero_val_def Let_def leave_branch_def alloc_def junc_new_def set_val_def
        SPOC_ANY_def SPOC_SET_def SPOC_ATOM_def SPOC_PREFIX_def SPOC_SUFFIX_def SPOC_RANGE_def SPOC_ENDOFRULE_def NTYPES_def)
  then obtain st1 r b where s: "element_add st0 0 (c_top EAny) 7 = Some (st1, r)" "ARRFIND st1 0 SPOC_ANY = Some b" by auto
  have "built st1 []" using built_add [OF _ s(1)] built_empty by (auto simp: st0_def)
  then show ?thesis using s(2) union_member by blast
qed

subsection \<open>Ranges, sets and wildcards\<close>

lemma junction_index_set:
  assumes "length (st_juncs st ! jp) = NTYPES" "jp < length (st_juncs st)" "t < NTYPES"
  shows "junction_index (set_item st jp t None) jp = 0 \<longleftrightarrow> (\<forall>u. u \<noteq> t \<longrightarrow> ARRFIND st jp u = None)"
proof -
  have "junction_index (set_item st jp t None) jp = 0 \<longleftrightarrow> (\<forall>u < NTYPES. (st_juncs st ! jp)[t := None] ! u = None)"
    using assms by (auto simp: junction_index_def set_item_def filter_empty_conv all_set_conv_all_nth)
  then show ?thesis using assms by (auto simp: ARRFIND_def nth_list_update)
qed

lemma junc_free_empty:
  assumes "live st fr jp" "junction_index st jp = 0"
  shows "junc_free (free_levels st) st fr jp = Some (jp # fr)"
proof -
  have "items_free n st fr bs = Some fr" if "\<forall>b \<in> set bs. b = None" for n bs
    using that by (induction bs) auto
  then show ?thesis using assms by (auto simp: live_def junction_index_def free_levels_def filter_empty_conv)
qed

text \<open>C6: Removing a rule that has a range, a set or a wildcard where other rules have one too drops the
  branch of all of them: no rule with such an element at this place is found any more. When the junction
  has no other branch it is released, while the element in front still leads to it.\<close>

theorem element_rm_drops_others:
  assumes "store_typed st" "live st fr jp" "ARRFIND st jp t = Some bp" "br_count bp \<noteq> 1"
    and "t = element_type (c_el c)" "t \<in> {SPOC_RANGE, SPOC_SET, SPOC_ANY}"
  shows "\<exists>st'. element_rm st fr jp c rt = Some (1, st', if \<exists>u. u \<noteq> t \<and> ARRFIND st jp u \<noteq> None then fr else jp # fr) \<and>
    ARRFIND st' jp t = None \<and> (\<forall>j u. j \<noteq> jp \<or> u \<noteq> t \<longrightarrow> ARRFIND st' j u = ARRFIND st j u)"
proof -
  define bp' where "bp' = bp\<lparr>br_count := br_count bp - 1\<rparr>"
  define st1 where "st1 = set_item st jp t (Some bp')"
  define st2 where "st2 = set_item st1 jp t None"
  have jp: "jp < length (st_juncs st)" "length (st_juncs st ! jp) = NTYPES" "jp \<notin> set fr" "t < NTYPES"
    using assms(1-3) by (auto simp: live_def store_typed_def ARRFIND_def split: if_splits)
  have st2: "st2 = set_item st jp t None" using jp by (simp add: st2_def st1_def set_item_def)
  have e: "(case c_el c of EAtom a \<Rightarrow> f a | EPrefix a \<Rightarrow> g a | ESuffix a \<Rightarrow> h a | EList es \<Rightarrow> k es | _ \<Rightarrow> Some (0, st1, fr)) = Some (0, st1, fr)"
    for f g h k
    using assms(5,6) by (cases "c_el c") (auto simp: SPOC_RANGE_def SPOC_SET_def SPOC_ANY_def SPOC_ATOM_def SPOC_LIST_def SPOC_PREFIX_def SPOC_SUFFIX_def)
  have live2: "live st2 fr jp" using jp by (simp add: live_def st2 set_item_def)
  have "element_rm st fr jp c rt = (case drop_empty st2 fr jp of None \<Rightarrow> None | Some (_, fr3) \<Rightarrow> Some (1, st2, fr3))"
    using assms(2-4) unfolding st2_def st1_def
    by (simp add: element_rm.simps [of st] assms(5) [symmetric] bp'_def [symmetric] e [unfolded st1_def] Let_def) (simp add: bp'_def)
  also have "\<dots> = Some (1, st2, if \<exists>u. u \<noteq> t \<and> ARRFIND st jp u \<noteq> None then fr else jp # fr)"
    using junction_index_set [OF jp(2,1,4)] junc_free_empty [OF live2] live2 by (auto simp: drop_empty_def st2)
  finally show ?thesis using jp by (intro exI [of _ st2]) (auto simp: st2 ARRFIND_def set_item_def nth_list_update)
qed

text \<open>A tree of one junction with one branch.\<close>

definition one_branch :: "nat \<Rightarrow> int \<Rightarrow> 'r bval \<Rightarrow> 'r store" where
  "one_branch t n v = set_item (empty_tree (\<lambda>i. 0) [NUL]) 0 t (Some \<lparr>br_type = t, br_count = n, br_parent = 0, br_val = v\<rparr>)"

lemma one_branch_simps:
  assumes "t < NTYPES" "same_member t v"
  shows "ARRFIND (one_branch t n v) 0 t = Some \<lparr>br_type = t, br_count = n, br_parent = 0, br_val = v\<rparr>"
    and "\<And>u. u \<noteq> t \<Longrightarrow> ARRFIND (one_branch t n v) 0 u = None"
    and "store_typed (one_branch t n v)" and "live (one_branch t n v) [] 0"
proof -
  show "ARRFIND (one_branch t n v) 0 t = Some \<lparr>br_type = t, br_count = n, br_parent = 0, br_val = v\<rparr>"
      "\<And>u. u \<noteq> t \<Longrightarrow> ARRFIND (one_branch t n v) 0 u = None" "live (one_branch t n v) [] 0"
    using assms(1) by (simp_all add: one_branch_def ARRFIND_def set_item_def empty_tree_def live_def)
  show "store_typed (one_branch t n v)" unfolding one_branch_def
    by (rule set_item_typed) (use assms(2) in \<open>auto simp: branch_typed_def store_typed_def empty_tree_def\<close>)
qed

lemma range_branch_ok: "SPOC_RANGE < NTYPES" "length ss = DATATYPES \<Longrightarrow> same_member SPOC_RANGE (VRange ss)"
  by (simp_all add: SPOC_RANGE_def NTYPES_def same_member_def)

theorem element_rm_drops_others_witness:
  "\<forall>r. \<exists>st'. element_rm (one_branch SPOC_RANGE 2 (VRange (replicate DATATYPES None))) [] 0 (c_top (ERange r)) (7 :: nat) = Some (1, st', [0]) \<and>
     ARRFIND st' 0 SPOC_RANGE = None"
proof
  fix r
  define st :: "nat store" where "st = one_branch SPOC_RANGE 2 (VRange (replicate DATATYPES None))"
  have "same_member SPOC_RANGE (VRange (replicate DATATYPES None) :: nat bval)" by (simp add: range_branch_ok)
  note b = one_branch_simps [OF range_branch_ok(1) this, where n = 2, folded st_def]
  have "(if \<exists>u. u \<noteq> SPOC_RANGE \<and> ARRFIND st 0 u \<noteq> None then [] else [0]) = [0 :: nat]" by (simp add: b(2) cong: conj_cong)
  then show "\<exists>st'. element_rm (one_branch SPOC_RANGE 2 (VRange (replicate DATATYPES None))) [] 0 (c_top (ERange r)) (7 :: nat) = Some (1, st', [0]) \<and>
     ARRFIND st' 0 SPOC_RANGE = None"
    using element_rm_drops_others [OF b(3,4,1), of "c_top (ERange r)" 7] by (auto simp: st_def [symmetric] c_top_def)
qed

text \<open>A branch with a list of ranges cannot be released: removing the last rule that has a range at
  some place reads released memory.\<close>

theorem element_rm_last_range:
  assumes "store_typed st" "ARRFIND st jp SPOC_RANGE = Some bp" "br_count bp = 1" "c_el c = ERange r"
    and "br_val bp = VRange ss" "Some s \<in> set ss" "sl_next (sl_nodes s ! sl_head s) \<noteq> []"
  shows "element_rm st fr jp c rt = None"
proof -
  have "sl_free_all ss = None" using assms(6,7) by (induction ss) (auto simp: sl_free_slist_def split: option.splits bind_splits)
  moreover have "br_type bp = SPOC_RANGE" using ARRFIND_typed [OF assms(1,2)] by (simp add: branch_typed_def)
  ultimately have "branch_juncs (bp\<lparr>br_count := 0\<rparr>) = None"
    using assms(5) by (simp add: branch_juncs_def SPOC_RANGE_def SPOC_ATOM_def SPOC_LIST_def SPOC_PREFIX_def)
  then show ?thesis using assms(2-4) by (simp add: element_rm.simps [of st] Let_def branch_free_def)
qed

theorem element_rm_last_range_witness:
  "\<forall>r. element_rm (one_branch SPOC_RANGE 1 (VRange (Some (sl_init 4) # replicate 5 None))) [] 0 (c_top (ERange r)) (7 :: nat) = None"
proof
  fix r
  define ss :: "nat slist option list" where "ss = Some (sl_init 4) # replicate 5 None"
  have "length ss = DATATYPES" by (simp add: ss_def DATATYPES_def)
  note b = one_branch_simps [OF range_branch_ok(1) range_branch_ok(2) [OF this], where n = 1]
  have "element_rm (one_branch SPOC_RANGE 1 (VRange ss)) [] 0 (c_top (ERange r)) (7 :: nat) = None"
    by (rule element_rm_last_range [OF b(3,1), of _ r ss "sl_init 4"]) (simp_all add: c_top_def ss_def sl_init_def sl_new_def)
  then show "element_rm (one_branch SPOC_RANGE 1 (VRange (Some (sl_init 4) # replicate 5 None))) [] 0 (c_top (ERange r)) (7 :: nat) = None"
    by (simp only: ss_def)
qed

subsection \<open>The index after a removal\<close>

lemma bsdrb_find_self: "r \<in> set rs \<Longrightarrow> bsdrb_find rs (ri_uid r) \<noteq> None"
  by (induction rs) auto

text \<open>C7: A rule that \<open>dbapi_rule_rm\<close> removes is not found under its identifier any more, and every other
  rule is found as before, whatever the removal from the tree returned.\<close>

theorem rule_rm_forgets:
  assumes "db_ok db" "dbapi_rule_rm shift db fr (Some o1) None = Some (rc, db', fr', Some u)"
  shows "db_ok db' \<and> ruleinst_find_by_uid (db_ri db) u \<noteq> None \<and> ruleinst_find_by_uid (db_ri db') u = None \<and>
    (\<forall>k. NUL \<notin> set k \<and> k \<noteq> u \<longrightarrow> ruleinst_find_by_uid (db_ri db') k = ruleinst_find_by_uid (db_ri db) k)"
proof -
  obtain rt st' q where rt: "get_rule db (Some o1) = Some (Some rt)" "ri_uid rt = u" "rule_rm shift (db_jp db) fr (ri_rule rt) rt = Some (q, st', fr')"
      "\<exists>n. free_rule (db\<lparr>db_jp := st'\<rparr>) u = Some (n, db')"
    using assms(2) by (auto simp: dbapi_rule_rm_def bind_eq_Some_conv split: if_splits option.splits)
  have i: "idx db' = snd (bsdrb_remove (idx db) u)"
    using rt(4) by (cases "db_ri db"; cases "bsdrb_remove (idx db) u") (auto simp: free_rule_def idx_def)
  obtain k where k: "bsdrb_find (idx db) k = Some rt" using rt(1) by (auto simp: get_rule_def find_idx bind_eq_Some_conv split: if_splits)
  then have "rt \<in> set (idx db)" using bsdrb_find_Some by blast
  then have u: "NUL \<notin> set u" "bsdrb_find (idx db) u \<noteq> None"
    using assms(1) rt(2) by (auto simp: db_ok_def rb_ok_def dest: bsdrb_find_self)
  then show ?thesis using assms(1) rb.inv_rem [of "idx db" u] by (auto simp: db_ok_def find_idx i rb.find_rem)
qed

definition old_rule :: rule where
  "old_rule = \<lparr>ri_uid = replicate 40 CHR ''a'', ri_rule = view (esexp (list_of [mk_atom ''read''])) [NUL] 0, ri_blob = None,
     ri_bcexp = None, ri_ep = None, ri_bcond = None\<rparr>"

definition old_db :: dbase where
  "old_db = \<lparr>db_jp = one_branch SPOC_LIST 1 (VJunc None), db_ri = Some [old_rule]\<rparr>"

lemma old_rule_parses:
  "element_get shift ((ri_rule old_rule)\<lparr>oct_size := 0\<rparr>) = Some (Inr (Some (list_of [mk_atom ''read''])), view [] [NUL] 0)"
proof -
  have "good_elem (list_of [mk_atom ''read''])" by (simp add: list_of_def good_atom_def)
  moreover have "esexp (list_of [mk_atom ''read'']) = ''(4:read)''"
    by (simp add: list_of_def netstr_def decimal.simps [of 4] digit_char_def) code_simp
  ultimately show ?thesis
    using good_elem_parses [of "list_of [mk_atom ''read'']" shift] parsesD [of shift "list_of [mk_atom ''read'']" "[]" "[NUL]" 0]
    by (simp add: old_rule_def view_def)
qed

theorem rule_rm_forgets_witness:
  "\<exists>db'. dbapi_rule_rm (\<lambda>t d. t) old_db [] (Some (view (replicate 40 CHR ''a'') [NUL] 0)) None =
      Some (SPOCP_SUCCESS, db', [], Some (replicate 40 CHR ''a'')) \<and> ruleinst_find_by_uid (db_ri db') (replicate 40 CHR ''a'') = None"
proof -
  have ok: "db_ok old_db" by (simp add: db_ok_def old_db_def idx_def old_rule_def)
  have l: "SPOC_LIST < NTYPES" "same_member SPOC_LIST (VJunc None :: rule bval)"
    by (simp_all add: same_member_def SPOC_LIST_def NTYPES_def SPOC_SET_def SPOC_ATOM_def SPOC_PREFIX_def SPOC_SUFFIX_def SPOC_RANGE_def SPOC_ENDOFRULE_def)
  note b = one_branch_simps [OF l, where n = 1]
  have "get_rule old_db (Some (view (replicate 40 CHR ''a'') [NUL] 0)) = Some (Some old_rule)"
    by (subst get_rule_find) (simp_all add: old_db_def idx_def old_rule_def)
  moreover have "check_uid (view (replicate 40 CHR ''a'') [NUL] 0) = Some SPOCP_SUCCESS" by code_simp
  moreover have "\<exists>st. element_rm (one_branch SPOC_LIST 1 (VJunc None)) [] 0 (c_top (list_of [mk_atom ''read''])) old_rule = Some (1, st, [])"
    using b(1,4) by (simp add: element_rm.simps c_top_def list_of_def Let_def branch_free_def branch_juncs_def SPOC_LIST_def SPOC_ATOM_def)
  ultimately have "\<exists>db'. dbapi_rule_rm (\<lambda>t d. t) old_db [] (Some (view (replicate 40 CHR ''a'') [NUL] 0)) None =
      Some (SPOCP_SUCCESS, db', [], Some (replicate 40 CHR ''a''))"
    by (auto simp: dbapi_rule_rm_def rule_rm_def old_rule_parses free_rule_def old_db_def)
       (auto simp: old_rule_def)
  then show ?thesis using rule_rm_forgets [OF ok] by blast
qed

end
