(* ===== verification/Dup.thy ===== *)
theory Dup
  imports Rm
begin

text \<open>
  Copying a database: \<open>junc_dup\<close> and \<open>ruleinfo_dup\<close> of \<open>lib/db0.c\<close> with \<open>phash_dup\<close> (\<open>lib/hash.c\<close>), \<open>ssn_dup\<close> (\<open>lib/ssn.c\<close>),
  \<open>sl_dup\<close> (\<open>lib/slist.c\<close>) and \<open>index_dup\<close> (\<open>lib/index.c\<close>), and \<open>db_dup\<close> of \<open>server/ss.c\<close>. The server copies its rulesets at the
  beginning of a transaction.

  The junctions are read in the store of the database and made in a new one; a copy is made of every junction as often as
  it is come to. The functions that call \<open>junc_dup\<close> have it as an argument.

  Three things come from outside: how many bytes an allocation really gives (\<open>usable\<close>), what the memory of a new node of a
  skip list holds in the field \<^verbatim>\<open>junc\<close>, which \<open>sln_dup\<close> does not set (\<open>junk\<close>), and the numbers of \<^verbatim>\<open>rand\<close>, which go on as in the original.
\<close>

type_synonym 's dup = "nat \<Rightarrow> 's \<Rightarrow> (nat \<times> 's) option"

subsection \<open>Rules\<close>

text \<open>The index of the rules is not copied. To search a null one follows the null pointer.\<close>

definition rdb_dup :: "'c ruleinst list option \<Rightarrow> 'c ruleinst list option" where
  "rdb_dup r = None"

definition rdb_search :: "'c ruleinst list option \<Rightarrow> bytes \<Rightarrow> 'c ruleinst option option" where
  "rdb_search r k = map_option (\<lambda>rs. bsdrb_find rs k) r"

definition ruleinfo_dup :: "'c ruleinst list option option \<Rightarrow> 'c ruleinst list option option" where
  "ruleinfo_dup ri = map_option rdb_dup ri"

text \<open>The rules at the end of a path are looked up in the copied index. The null pointer that is stored for a rule
  that is not there is a fault too: everything that reads the array follows it.\<close>

fun index_entries :: "'c ruleinst list option option \<Rightarrow> 'c ruleinst list \<Rightarrow> 'c ruleinst list option" where
  "index_entries ri [] = Some []"
| "index_entries ri (r # rs) = do {
     x \<leftarrow> (case ri of Some tree \<Rightarrow> rdb_search tree (ri_uid r) | None \<Rightarrow> Some (Some r));
     x' \<leftarrow> x;
     xs \<leftarrow> index_entries ri rs;
     Some (x' # xs) }"

definition index_dup :: "'c ruleinst spocp_index option \<Rightarrow> 'c ruleinst list option option \<Rightarrow> 'c ruleinst spocp_index option" where
  "index_dup old ri = do {
     i \<leftarrow> old;
     rs \<leftarrow> index_entries ri (si_arr i);
     Some ((index_new (si_size i))\<lparr>si_arr := rs\<rparr>) }"

subsection \<open>What a branch holds\<close>

fun smap :: "('x \<Rightarrow> 's \<Rightarrow> ('y \<times> 's) option) \<Rightarrow> 'x list \<Rightarrow> 's \<Rightarrow> ('y list \<times> 's) option" where
  "smap f [] st = Some ([], st)"
| "smap f (x # xs) st = do { (y, st1) \<leftarrow> f x st; (ys, st2) \<leftarrow> smap f xs st1; Some (y # ys, st2) }"

definition null_dup :: "('x \<Rightarrow> 's \<Rightarrow> ('y \<times> 's) option) \<Rightarrow> 'x option \<Rightarrow> 's \<Rightarrow> ('y option \<times> 's) option" where
  "null_dup f p st = (case p of None \<Rightarrow> Some (None, st) | Some x \<Rightarrow> map_option (apfst Some) (f x st))"

definition buck_dup :: "'s dup \<Rightarrow> nat buck \<Rightarrow> 's \<Rightarrow> (nat buck \<times> 's) option" where
  "buck_dup dup b st = do {
     new \<leftarrow> buck_new (buck_hash b) (buck_val b);
     (nx, st') \<leftarrow> null_dup dup (buck_next b) st;
     Some (new\<lparr>buck_refc := buck_refc b, buck_next := nx\<rparr>, st') }"

definition phash_dup :: "'s dup \<Rightarrow> nat phash option \<Rightarrow> 's \<Rightarrow> (nat phash \<times> 's) option" where
  "phash_dup dup php0 st = do {
     php \<leftarrow> php0;
     let new = phash_new (ph_pnr php) (ph_density php);
     if length (ph_arr php) < ph_size new then None
     else do {
       (arr, st') \<leftarrow> smap (null_dup (buck_dup dup)) (take (ph_size new) (ph_arr php)) st;
       Some (new\<lparr>ph_n := ph_n php, ph_arr := arr\<rparr>, st') } }"

fun ssn_dup :: "'s dup \<Rightarrow> nat ssn \<Rightarrow> 's \<Rightarrow> (nat ssn \<times> 's) option" where
  "ssn_dup dup SNull st = Some (SNull, st)"
| "ssn_dup dup (Ssn ch lt dn rt nx rc) st = do {
     (lt', st1) \<leftarrow> ssn_dup dup lt st;
     (rt', st2) \<leftarrow> ssn_dup dup rt st1;
     (dn', st3) \<leftarrow> ssn_dup dup dn st2;
     (nx', st4) \<leftarrow> null_dup dup nx st3;
     Some (Ssn ch lt' dn' rt' nx' rc, st4) }"

subsection \<open>Skip lists\<close>

text \<open>The links of a new node are null until \<open>sl_dup\<close> sets them.\<close>

definition sln_dup :: "nat varr option \<Rightarrow> nat slnode \<Rightarrow> nat slnode option" where
  "sln_dup junk old = do {
     item \<leftarrow> boundary_dup (sl_item old);
     Some \<lparr>sl_item = item, sl_refc = sl_refc old, sl_next = replicate (length (sl_next old)) 0, sl_junc = junk\<rparr> }"

text \<open>The nodes from a given one up to the first without links, which is the tail.\<close>

partial_function (option) sl_chain :: "nat slnode list \<Rightarrow> nat \<Rightarrow> nat list option" where
  [code]: "sl_chain h a =
     (if length h \<le> a then None
      else if sl_sz h a = 0 then Some [a]
      else do { nx \<leftarrow> next_at h a 0; rest \<leftarrow> sl_chain h nx; Some (a # rest) })"

fun list_pos :: "nat list \<Rightarrow> nat \<Rightarrow> nat option" where
  "list_pos [] x = None"
| "list_pos (y # ys) x = (if x = y then Some 0 else map_option Suc (list_pos ys x))"

text \<open>The links of one level. The copies are in the order of the list, so the node that is \<^verbatim>\<open>j\<close> steps ahead of a node is the
  one at the position plus \<^verbatim>\<open>j\<close>; counting the steps to a node that is not ahead runs off the end of the list.\<close>

partial_function (option) sl_connect ::
    "nat slnode list \<Rightarrow> nat list \<Rightarrow> nat \<Rightarrow> nat \<Rightarrow> nat \<Rightarrow> nat slnode list \<Rightarrow> nat slnode list option" where
  [code]: "sl_connect h ch tail i oc ns =
     (if oc = tail then Some ns
      else do {
        pc \<leftarrow> next_at h oc i;
        a \<leftarrow> list_pos ch oc;
        b \<leftarrow> list_pos ch pc;
        if b \<le> a then None else sl_connect h ch tail i pc (set_next ns a i b) })"

fun sl_levels :: "nat slnode list \<Rightarrow> nat list \<Rightarrow> nat \<Rightarrow> nat \<Rightarrow> nat list \<Rightarrow> nat slnode list \<Rightarrow> nat slnode list option" where
  "sl_levels h ch head tail [] ns = Some ns"
| "sl_levels h ch head tail (i # is) ns = do {
     ns' \<leftarrow> sl_connect h ch tail i head ns;
     sl_levels h ch head tail is ns' }"

text \<open>The junctions: for each pair of nodes the first one that they have in common is copied for both.\<close>

fun sl_pairs :: "'s dup \<Rightarrow> (nat \<Rightarrow> nat varr option) \<Rightarrow> (nat \<times> nat) list \<Rightarrow> nat slnode list \<Rightarrow> 's \<Rightarrow> (nat slnode list \<times> 's) option" where
  "sl_pairs dup junc [] ns st = Some (ns, st)"
| "sl_pairs dup junc ((a, b) # ps) ns st =
     (case varr_first_common (junc a) (junc b) of
        None \<Rightarrow> sl_pairs dup junc ps ns st
      | Some vp \<Rightarrow> do {
          (jp, st1) \<leftarrow> dup vp st;
          va \<leftarrow> varr_junc_add (sl_junc (ns ! a)) jp;
          let ns1 = ns[a := (ns ! a)\<lparr>sl_junc := Some va\<rparr>];
          vb \<leftarrow> varr_junc_add (sl_junc (ns1 ! b)) jp;
          sl_pairs dup junc ps (ns1[b := (ns1 ! b)\<lparr>sl_junc := Some vb\<rparr>]) st1 })"

definition sl_dup :: "'s dup \<Rightarrow> nat varr option \<Rightarrow> nat slist \<Rightarrow> 's \<Rightarrow> (nat slist \<times> 's) option" where
  "sl_dup dup junk old st = do {
     let h = sl_nodes old;
     ch \<leftarrow> sl_chain h (sl_head old);
     let k = length ch - 1;
     if k = 0 then None
     else do {
       ns \<leftarrow> those (map (\<lambda>a. sln_dup junk (h ! a)) ch);
       let ns1 = map (\<lambda>(i, nd). if i < k then nd\<lparr>sl_next := Suc i # replicate (length (sl_next nd) - 1) k\<rparr> else nd) (enumerate 0 ns);
       ns2 \<leftarrow> sl_levels h ch (sl_head old) (sl_tail old) [1..<sl_lgnmax old] ns1;
       (ns3, st') \<leftarrow> sl_pairs dup (\<lambda>i. sl_junc (h ! (ch ! i))) (concat (map (\<lambda>a. map (Pair a) [Suc a..<Suc k]) [0..<k])) ns2 st;
       Some (\<lparr>sl_nodes = ns3, sl_head = 0, sl_tail = k, sl_lgn = sl_lgn old, sl_lgnmax = sl_lgnmax old\<rparr>, st') } }"

subsection \<open>Junctions\<close>

text \<open>What the new branch at place \<open>i\<close> of a junction holds; sets and branches for any element are left zeroed.\<close>

definition val_dup :: "'s dup \<Rightarrow> nat varr option \<Rightarrow> 'c ruleinst list option option \<Rightarrow> nat \<Rightarrow> 'c ruleinst bval \<Rightarrow> 's \<Rightarrow>
    ('c ruleinst bval \<times> 's) option" where
  "val_dup dup junk ri i v st =
     (if i = SPOC_ATOM then
        (case v of VAtom ht \<Rightarrow> map_option (apfst (\<lambda>x. VAtom (Some x))) (phash_dup dup ht st) | _ \<Rightarrow> None)
      else if i = SPOC_LIST \<or> i = SPOC_ENDOFLIST then
        (case v of VJunc j \<Rightarrow> map_option (apfst VJunc) (null_dup dup j st) | _ \<Rightarrow> None)
      else if i = SPOC_PREFIX \<or> i = SPOC_SUFFIX then
        (case v of VSsn t \<Rightarrow> map_option (apfst VSsn) (ssn_dup dup t st) | _ \<Rightarrow> None)
      else if i = SPOC_RANGE then
        (case v of VRange ss \<Rightarrow> map_option (apfst VRange) (smap (null_dup (sl_dup dup junk)) (take DATATYPES ss) st) | _ \<Rightarrow> None)
      else if i = SPOC_ENDOFRULE then
        (case v of VId x \<Rightarrow> map_option (\<lambda>y. (VId (Some y), st)) (index_dup x ri) | _ \<Rightarrow> None)
      else Some (zero_val i, st))"

definition item_dup :: "'c ruleinst store dup \<Rightarrow> nat varr option \<Rightarrow> 'c ruleinst list option option \<Rightarrow> nat \<Rightarrow>
    nat \<times> 'c ruleinst branch option \<Rightarrow> 'c ruleinst store \<Rightarrow> (unit \<times> 'c ruleinst store) option" where
  "item_dup dup junk ri new ib st = (case ib of (i, b) \<Rightarrow> (case b of
      None \<Rightarrow> Some ((), st)
    | Some obp \<Rightarrow> do {
        (v, st') \<leftarrow> val_dup dup junk ri i (br_val obp) st;
        Some ((), set_item st' new i (Some \<lparr>br_type = br_type obp, br_count = br_count obp, br_parent = new, br_val = v\<rparr>)) }))"

text \<open>\<open>src\<close> is the store that is copied. The first argument bounds the levels; a tree has no more than it has junctions.\<close>

primrec junc_dup :: "nat \<Rightarrow> nat varr option \<Rightarrow> 'c ruleinst list option option \<Rightarrow> 'c ruleinst store \<Rightarrow> 'c ruleinst store dup" where
  "junc_dup 0 junk ri src = (\<lambda>jp st. None)"
| "junc_dup (Suc n) junk ri src = (\<lambda>jp st.
     if length (st_juncs src) \<le> jp then None
     else case junc_new st of (new, st1) \<Rightarrow>
       map_option (\<lambda>(_, st2). (new, st2))
         (smap (item_dup (junc_dup n junk ri src) junk ri new) (map (\<lambda>i. (i, ARRFIND src jp i)) [0..<NTYPES]) st1))"

subsection \<open>Databases\<close>

text \<open>The block for the copy is asked for with the size of a pointer, 8 bytes, and the pointer \<^verbatim>\<open>ri\<close> is at offset 8 of a database:
  to write it is a fault unless the allocator has given more than it was asked for.
  A database always has a rule information; \<open>db_ri\<close> is the index in it.\<close>

definition db_dup :: "(nat \<Rightarrow> nat) \<Rightarrow> nat varr option \<Rightarrow> dbase option \<Rightarrow> dbase option option" where
  "db_dup usable junk db0 = (case db0 of
      None \<Rightarrow> Some None
    | Some db \<Rightarrow>
        if usable 8 < 16 then None
        else do {
          let ri = ruleinfo_dup (Some (db_ri db));
          (jp, st) \<leftarrow> junc_dup (Suc (length (st_juncs (db_jp db)))) junk ri (db_jp db) 0 ((db_jp db)\<lparr>st_juncs := []\<rparr>);
          tree \<leftarrow> ri;
          Some (Some \<lparr>db_jp = st, db_ri = tree\<rparr>) })"

text \<open>\<open>dbapi_db_dup\<close> is the same, with a result.\<close>

definition dbapi_db_dup :: "(nat \<Rightarrow> nat) \<Rightarrow> nat varr option \<Rightarrow> dbase option \<Rightarrow> (spocp_result \<times> dbase option) option" where
  "dbapi_db_dup usable junk db = map_option (Pair SPOCP_SUCCESS) (db_dup usable junk db)"

subsection \<open>Databases that hold a rule\<close>

text \<open>A rule can be reached from a junction, along atoms and lists.\<close>

inductive holds_rule :: "'r store \<Rightarrow> nat \<Rightarrow> bool" for st where
  at_end: "ARRFIND st j SPOC_ENDOFRULE = Some bp \<Longrightarrow> br_val bp = VId (Some i) \<Longrightarrow> si_arr i \<noteq> [] \<Longrightarrow> holds_rule st j"
| by_list: "t = SPOC_LIST \<or> t = SPOC_ENDOFLIST \<Longrightarrow> ARRFIND st j t = Some bp \<Longrightarrow> br_val bp = VJunc (Some k) \<Longrightarrow> holds_rule st k \<Longrightarrow>
    holds_rule st j"
| by_atom: "ARRFIND st j SPOC_ATOM = Some bp \<Longrightarrow> br_val bp = VAtom (Some ht) \<Longrightarrow> Some b \<in> set (ph_arr ht) \<Longrightarrow>
    buck_next b = Some k \<Longrightarrow> holds_rule st k \<Longrightarrow> holds_rule st j"

lemma smap_fails: "x \<in> set xs \<Longrightarrow> (\<And>st. f x st = None) \<Longrightarrow> smap f xs st = None"
  by (induction xs arbitrary: st) (auto split: bind_splits)

text \<open>Copying such a database follows the null pointer that \<open>rdb_dup\<close> has returned, whatever was copied before.\<close>

lemma index_dup_fails: "si_arr i \<noteq> [] \<Longrightarrow> index_dup (Some i) (Some None) = None"
  by (cases "si_arr i") (simp_all add: index_dup_def rdb_search_def)

lemma junc_dup_item:
  assumes "ARRFIND src j t = Some bp" "\<And>st. val_dup (junc_dup n junk ri src) junk ri t (br_val bp) st = None"
  shows "junc_dup (Suc n) junk ri src j st = None"
proof -
  have "t < NTYPES" using assms(1) by (simp add: ARRFIND_def split: if_splits)
  then have "(t, Some bp) \<in> set (map (\<lambda>i. (i, ARRFIND src j i)) [0..<NTYPES])" using assms(1) by force
  moreover have "item_dup (junc_dup n junk ri src) junk ri new (t, Some bp) st = None" for new st by (simp add: item_dup_def assms(2))
  ultimately have "smap (item_dup (junc_dup n junk ri src) junk ri new) (map (\<lambda>i. (i, ARRFIND src j i)) [0..<NTYPES]) st = None" for new st
    by (rule smap_fails)
  then show ?thesis by (simp split: prod.split del: upt_Suc)
qed

lemma phash_new_size: "ph_sized ht \<Longrightarrow> ph_size (phash_new (ph_pnr ht) d :: nat phash) = length (ph_arr ht)"
  by (simp add: ph_sized_def phash_new_def Let_def)

lemma junc_dup_fails:
  assumes "store_typed src"
  shows "holds_rule src j \<Longrightarrow> junc_dup n junk (Some None) src j st = None"
proof (induction arbitrary: n st rule: holds_rule.induct)
  case (at_end j bp i)
  show ?case
  proof (cases n)
    case (Suc m)
    show ?thesis unfolding Suc by (rule junc_dup_item [OF at_end(1)]) (simp add: val_dup_def at_end(2) index_dup_fails [OF at_end(3)] type_codes)
  qed simp
next
  case (by_list t j bp k)
  show ?case
  proof (cases n)
    case (Suc m)
    show ?thesis unfolding Suc
      by (rule junc_dup_item [OF by_list(2)]) (use by_list(1) in \<open>auto simp: val_dup_def by_list(3) null_dup_def by_list(5) type_codes\<close>)
  qed simp
next
  case (by_atom j bp ht b k)
  show ?case
  proof (cases n)
    case (Suc m)
    have "buck_dup (junc_dup m junk (Some None) src) b st = None" for st
      by (simp add: buck_dup_def null_dup_def by_atom(4,6) split: bind_split)
    then have "smap (null_dup (buck_dup (junc_dup m junk (Some None) src))) (ph_arr ht) st = None" for st
      by (intro smap_fails [OF by_atom(3)]) (simp add: null_dup_def)
    moreover have "ph_sized ht" using ARRFIND_typed [OF assms by_atom(1)] by_atom(2) by (simp add: branch_typed_def same_member_def)
    ultimately show ?thesis unfolding Suc
      by (intro junc_dup_item [OF by_atom(1)]) (simp add: val_dup_def by_atom(2) phash_dup_def Let_def phash_new_size)
  qed simp
qed

lemma db_dup_fails: "built (db_jp db) fr \<Longrightarrow> holds_rule (db_jp db) 0 \<Longrightarrow> db_dup usable junk (Some db) = None"
  by (simp add: db_dup_def ruleinfo_dup_def rdb_dup_def junc_dup_fails [OF built_typed] del: junc_dup.simps)

text \<open>A database that has never held a rule has one empty junction, and so has its copy.\<close>

lemma db_dup_new: "16 \<le> usable 8 \<Longrightarrow> db_dup usable junk (Some (db_new rnd before)) = Some (Some (db_new rnd before))"
proof -
  have "smap (item_dup dup junk ri new) (map (\<lambda>i. (i, ARRFIND (empty_tree rnd before) 0 i)) is) st = Some (map (\<lambda>_. ()) is, st)"
    for dup ri new "is" and st :: "rule Tree.store"
    by (induction "is") (auto simp: item_dup_def ARRFIND_def empty_tree_def)
  moreover assume "16 \<le> usable 8"
  ultimately show ?thesis by (simp add: db_dup_def ruleinfo_dup_def rdb_dup_def db_new_def junc_new_def) (simp add: empty_tree_def junc_new_def)
qed

subsection \<open>Trees of atoms\<close>

text \<open>A tree that has a rule of atoms holds a rule.\<close>

lemma flat_holds_at: "flat st loc R \<Longrightarrow> loc (At p) = Some j \<Longrightarrow> holds_rule st j \<Longrightarrow> holds_rule st 0"
proof (induction p arbitrary: j rule: rev_induct)
  case Nil
  have "loc Root = Some 0" using Nil.prems(1) by (simp add: flat_def)
  then have "leads SPOC_LIST (ARRFIND st 0 SPOC_LIST) (Some j)" using flat_node [OF Nil.prems(1)] Nil.prems(2) by fastforce
  then show ?case using Nil.prems(3) by (auto simp: leads_def intro: by_list split: option.splits)
next
  case (snoc k p)
  obtain i where i: "loc (At p) = Some i" using flat_at_at [OF snoc.prems(1)] snoc.prems(2) by fastforce
  have "follows (ARRFIND st i SPOC_ATOM) (\<lambda>k. loc (At (p @ [k])))" using flat_node [OF snoc.prems(1) i] by simp
  moreover from this obtain bp where bp: "ARRFIND st i SPOC_ATOM = Some bp"
    using snoc.prems(2) by (cases "ARRFIND st i SPOC_ATOM") (auto simp: follows_def fun_eq_iff)
  ultimately obtain ht where b: "br_val bp = VAtom (Some ht)" "\<forall>k. map_option buck_next (ph_map ht k) = map_option Some (loc (At (p @ [k])))"
    by (auto simp: follows_def)
  have "map_option buck_next (ph_map ht k) = Some (Some j)" using b(2) snoc.prems(2) by simp
  then obtain x where x: "ph_map ht k = Some x" "buck_next x = Some j" by auto
  have "Some x \<in> set (ph_arr ht)" using ph_map_Some [OF x(1)] by (auto simp: ph_buckets_def List.map_filter_def)
  then have "holds_rule st i" by (rule by_atom [OF bp b(1) _ x(2) snoc.prems(3)])
  then show ?case using snoc.IH [OF snoc.prems(1) i] by blast
qed

lemma flat_holds:
  assumes "flat st loc R" "R \<noteq> []"
  shows "holds_rule st 0"
proof -
  obtain r where r: "r \<in> set R" using assms(2) by (cases R) auto
  then obtain j where j: "loc (End (fst r)) = Some j" using flat_end [OF assms(1)] by blast
  then obtain i where i: "loc (At (fst r)) = Some i" using flat_end_at [OF assms(1)] by blast
  have "rules_for R (fst r) \<noteq> []" using r by (auto simp: rules_for_def filter_empty_conv)
  moreover have "ends (ARRFIND st j SPOC_ENDOFRULE) (rules_for R (fst r))" using flat_node [OF assms(1) j] by simp
  ultimately have "holds_rule st j" by (auto simp: ends_def intro: at_end split: option.splits)
  moreover have "leads SPOC_ENDOFLIST (ARRFIND st i SPOC_ENDOFLIST) (Some j)" using flat_node [OF assms(1) i] j by simp
  ultimately have "holds_rule st i" by (auto simp: leads_def intro: by_list split: option.splits)
  then show ?thesis using flat_holds_at [OF assms(1) i] by blast
qed

end
