(* ===== verification/Srv.thy ===== *)
theory Srv
  imports Proto Dup
begin

text \<open>
  The operations of the server (\<open>server/srv.c\<close>) for a build without TLS and SASL: one definition for each
  handler, and \<open>run_operation\<close>, which calls the one that \<open>get_operation\<close> has found. LIST and SUMMARY, which
  write to the connection while they run, are not modelled.

  The rulesets are shared by all connections, but BEGIN gives a connection a copy of its own. What the
  handlers take from outside (the evaluation of conditions, the plugins, the memory of a new database,
  the memory of a copy) is collected in a record. The results are a fault or an endless wait (\<open>None\<close>), or the code that is
  returned with the server, the request and the connection as the handler leaves them.
\<close>

subsection \<open>State\<close>

text \<open>The data of a ruleset: the database, its boundary conditions, and the junctions of the database
  that have been released.\<close>

type_synonym 'p rsd = "(('p, rule) bcstore \<times> freed) rsdata"

type_synonym rspos = "bool \<times> side list"

text \<open>A pointer to a ruleset that is kept from one request to the next is the names on the way to it, which
  stay the same when other rulesets are created.\<close>

type_synonym rsnames = "bool \<times> bytes list"

datatype 'f tree_ref = Shared | Own 'f

record 'p srv =
  sv_readonly :: bool
  sv_uds :: bool
  sv_root :: "'p rsd forest"
  sv_transaction :: bool

record 'p env =
  e_shift :: "bytes \<Rightarrow> int \<Rightarrow> bytes"
  e_beval :: "nat evaluator"
  e_num :: int
  e_fuel :: nat
  e_sha1 :: "bytes \<Rightarrow> bytes"
  e_mem :: bytes
  e_plugin :: "(bytes \<times> 'p) list"
  e_new :: dbase
  e_zero :: "'p rsd"
  e_localcontext :: bytes
  e_usable :: "nat \<Rightarrow> nat"
  e_junk :: "nat varr option"
  e_behind :: "('p, rule) bcstore"

type_synonym ('r, 'p) sconn = "('r, rsnames opstack, 'p rsd forest tree_ref) conn"
type_synonym ('r, 'p) outcome = "(opresult \<times> 'p srv \<times> work_info \<times> ('r, 'p) sconn) option"

definition conn_tree :: "'p srv \<Rightarrow> ('r, 'p) sconn \<Rightarrow> 'p rsd forest option" where
  "conn_tree sv c = (case c_rs c of None \<Rightarrow> None | Some Shared \<Rightarrow> Some (sv_root sv) | Some (Own f) \<Rightarrow> Some f)"

definition put_tree :: "'p srv \<Rightarrow> ('r, 'p) sconn \<Rightarrow> 'p rsd forest \<Rightarrow> 'p srv \<times> ('r, 'p) sconn" where
  "put_tree sv c f = (case c_rs c of
      Some (Own _) \<Rightarrow> (sv, c\<lparr>c_rs := Some (Own f)\<rparr>)
    | Some Shared \<Rightarrow> (sv\<lparr>sv_root := f\<rparr>, c)
    | None \<Rightarrow> (sv, c))"

fun upd_at :: "('d \<Rightarrow> 'd) \<Rightarrow> side list \<Rightarrow> 'd ruleset \<Rightarrow> 'd ruleset" where
  "upd_at g [] r = Ruleset (rs_name r) (g (rs_data r)) (rs_down r)"
| "upd_at g (i # is) r = (case rs_down r of
      None \<Rightarrow> r
    | Some lv \<Rightarrow> Ruleset (rs_name r) (rs_data r) (Some (level_put lv i (upd_at g is (level_get lv i)))))"

definition rs_upd :: "'d forest \<Rightarrow> rspos \<Rightarrow> ('d \<Rightarrow> 'd) \<Rightarrow> 'd forest" where
  "rs_upd f p g = (if fst p then f\<lparr>fo_server := map_option (upd_at g (snd p)) (fo_server f)\<rparr>
     else f\<lparr>fo_root := upd_at g (snd p) (fo_root f)\<rparr>)"

fun path_names :: "side list \<Rightarrow> 'd ruleset \<Rightarrow> bytes list" where
  "path_names [] r = []"
| "path_names (i # is) r = (case rs_down r of
      None \<Rightarrow> []
    | Some lv \<Rightarrow> rs_name (level_get lv i) # path_names is (level_get lv i))"

definition level_side :: "'d level \<Rightarrow> bytes \<Rightarrow> side option" where
  "level_side lv n = (case lv of (ls, h, rs) \<Rightarrow>
     if rs_name h = n then Some Here
     else if n \<in> rs_name ` set ls then Some (Lft (length (takeWhile (\<lambda>r. rs_name r \<noteq> n) ls)))
     else if n \<in> rs_name ` set rs then Some (Rgt (length (takeWhile (\<lambda>r. rs_name r \<noteq> n) rs)))
     else None)"

fun names_path :: "bytes list \<Rightarrow> 'd ruleset \<Rightarrow> side list option" where
  "names_path [] r = Some []"
| "names_path (n # ns) r = (case rs_down r of
      None \<Rightarrow> None
    | Some lv \<Rightarrow> (case level_side lv n of
        None \<Rightarrow> None
      | Some i \<Rightarrow> map_option ((#) i) (names_path ns (level_get lv i))))"

definition names_of :: "'d forest \<Rightarrow> rspos \<Rightarrow> rsnames" where
  "names_of f p = (fst p, case (if fst p then fo_server f else Some (fo_root f)) of None \<Rightarrow> [] | Some r \<Rightarrow> path_names (snd p) r)"

definition pos_of :: "'d forest \<Rightarrow> rsnames \<Rightarrow> rspos option" where
  "pos_of f q = do { r \<leftarrow> (if fst q then fo_server f else Some (fo_root f)); map_option (Pair (fst q)) (names_path (snd q) r) }"

subsection \<open>The frame of an operation\<close>

definition op_access :: "'p env \<Rightarrow> 'p srv \<Rightarrow> work_info \<Rightarrow> ('r, 'p) sconn \<Rightarrow> (spocp_result \<times> ('r, 'p) sconn) option" where
  "op_access e sv wi c = operation_access (e_shift e) (e_beval e) (e_num e) (e_fuel e) (sv_uds sv) (e_localcontext e) (conn_tree sv c) wi c"

text \<open>The result has the ruleset that the operation is about; \<open>None\<close> is the null pointer.\<close>

definition opinitial :: "'p env \<Rightarrow> 'p srv \<Rightarrow> work_info \<Rightarrow> ('r, 'p) sconn \<Rightarrow> bool \<Rightarrow> nat \<Rightarrow> nat \<Rightarrow>
    (opresult \<times> rspos option \<times> work_info \<times> ('r, 'p) sconn) option" where
  "opinitial e sv wi c path mn mx = (case wi_oparg wi of
      None \<Rightarrow> Some (Rc (if mn \<noteq> 0 then SPOCP_MISSING_ARG else SPOCP_SUCCESS), Some (False, []), wi, c)
    | Some oa \<Rightarrow>
        if mx \<noteq> 0 \<and> (if path then 1 else 0) + mx < length (oa_arr oa) then Some (Rc SPOCP_PARAM_ERROR, Some (False, []), wi, c)
        else if length (oa_arr oa) < mn then Some (Rc SPOCP_MISSING_ARG, Some (False, []), wi, c)
        else do {
          slash \<leftarrow> (if path then (case oa_arr oa of [] \<Rightarrow> None | o1 # _ \<Rightarrow> map_option (\<lambda>ch. ch = CHR ''/'') (rd (oct_val o1) 0))
                    else Some False);
          let wi1 = (if slash then wi\<lparr>wi_oppath := fst (octarr_pop (Some oa)), wi_oparg := snd (octarr_pop (Some oa))\<rparr>
                     else wi\<lparr>wi_oppath := None\<rparr>);
          if (case wi_oparg wi1 of None \<Rightarrow> 0 | Some a \<Rightarrow> length (oa_arr a)) < mn then Some (Rc SPOCP_MISSING_ARG, Some (False, []), wi1, c)
          else do {
            (r, c1) \<leftarrow> op_access e sv wi1 c;
            if r = SPOCP_SUCCESS \<and> wi_oppath wi1 \<noteq> None then do {
              f \<leftarrow> conn_tree sv c1;
              (p, path') \<leftarrow> ruleset_find (wi_oppath wi1) f;
              Some (if p = None then UNKNOWN_RULESET else Rc SPOCP_SUCCESS, p, wi1\<lparr>wi_oppath := path'\<rparr>, c1) }
            else Some (Rc r, Some (False, []), wi1, c1) } })"

definition done_with :: "'p srv \<Rightarrow> work_info \<Rightarrow> ('r, 'p) sconn \<Rightarrow> opresult \<Rightarrow> ('r, 'p) outcome" where
  "done_with sv wi c rc = do { (r, wi', c') \<leftarrow> postop wi c rc None; Some (r, sv, wi', c') }"

subsection \<open>Simple operations\<close>

definition com_capa :: "'p env \<Rightarrow> 'p srv \<Rightarrow> work_info \<Rightarrow> ('r, 'p) sconn \<Rightarrow> ('r, 'p) outcome" where
  "com_capa e sv wi c = do {
     (r, c1) \<leftarrow> op_access e sv wi c;
     if r \<noteq> SPOCP_SUCCESS then done_with sv wi c1 (Rc r)
     else if c_transaction c1 then done_with sv wi c1 (Rc SPOCP_UNWILLING)
     else done_with sv wi c1 (Rc r) }"

definition com_auth :: "'p env \<Rightarrow> 'p srv \<Rightarrow> work_info \<Rightarrow> ('r, 'p) sconn \<Rightarrow> ('r, 'p) outcome" where
  "com_auth e sv wi c =
     (if c_transaction c then done_with sv wi c (Rc SPOCP_UNWILLING)
      else do {
        (r, c1) \<leftarrow> op_access e sv wi c;
        done_with sv wi c1 (Rc (if r \<noteq> SPOCP_SUCCESS then r else SPOCP_NOT_SUPPORTED)) })"

definition com_starttls :: "'p srv \<Rightarrow> work_info \<Rightarrow> ('r, 'p) sconn \<Rightarrow> ('r, 'p) outcome" where
  "com_starttls sv wi c = done_with sv wi c (Rc (if c_transaction c then SPOCP_UNWILLING else SPOCP_NOT_SUPPORTED))"

definition com_tlsneg :: "'p srv \<Rightarrow> work_info \<Rightarrow> ('r, 'p) sconn \<Rightarrow> ('r, 'p) outcome" where
  "com_tlsneg sv wi c = done_with sv wi c (Rc SPOCP_DENIED)"

definition com_rollback :: "'p srv \<Rightarrow> work_info \<Rightarrow> ('r, 'p) sconn \<Rightarrow> ('r, 'p) outcome" where
  "com_rollback sv wi c =
     (if sv_readonly sv then done_with sv wi c (Rc SPOCP_DENIED)
      else if c_transaction c then done_with sv wi (c\<lparr>c_ops := []\<rparr>) (Rc SPOCP_SUCCESS)
      else done_with sv wi c (Rc SPOCP_UNWILLING))"

text \<open>LOGOUT releases the operations of a transaction and keeps the pointer.\<close>

definition com_logout :: "'p srv \<Rightarrow> work_info \<Rightarrow> ('r, 'p) sconn \<Rightarrow> ('r, 'p) outcome" where
  "com_logout sv wi c = do {
     (r, sv', wi', c') \<leftarrow> done_with sv wi c (Rc SPOCP_CLOSE);
     Some (r, sv', wi', c'\<lparr>c_stop := True\<rparr>) }"

definition com_noop :: "'p srv \<Rightarrow> work_info \<Rightarrow> ('r, 'p) sconn \<Rightarrow> ('r, 'p) outcome" where
  "com_noop sv wi c = done_with sv wi c (Rc SPOCP_SUCCESS)"

definition com_login :: "'p srv \<Rightarrow> work_info \<Rightarrow> ('r, 'p) sconn \<Rightarrow> ('r, 'p) outcome" where
  "com_login sv wi c = done_with sv wi c (Rc SPOCP_DENIED)"

definition com_find :: "'p srv \<Rightarrow> work_info \<Rightarrow> ('r, 'p) sconn \<Rightarrow> ('r, 'p) outcome" where
  "com_find sv wi c = done_with sv wi c (Rc SPOCP_SUCCESS)"

definition com_subject :: "'p env \<Rightarrow> 'p srv \<Rightarrow> work_info \<Rightarrow> ('r, 'p) sconn \<Rightarrow> ('r, 'p) outcome" where
  "com_subject e sv wi c =
     (if c_transaction c then done_with sv wi c (Rc SPOCP_UNWILLING)
      else if sv_readonly sv then done_with sv wi c (Rc SPOCP_DENIED)
      else do {
        (r, _, wi1, c1) \<leftarrow> opinitial e sv wi c False 1 1;
        if r = Rc SPOCP_SUCCESS then
          (case octarr_pop (wi_oparg wi1) of
             (Some o1, oa') \<Rightarrow> done_with sv (wi1\<lparr>wi_oparg := oa'\<rparr>) (c1\<lparr>c_subject := Some o1\<rparr>) r
           | (None, _) \<Rightarrow> None)
        else done_with sv wi1 c1 r })"

subsection \<open>Queries\<close>

fun blob_responses :: "iobuf \<Rightarrow> octet list \<Rightarrow> (bool \<times> iobuf) option" where
  "blob_responses out [] = Some (True, out)"
| "blob_responses out (b # bs) = do {
     (r, out') \<leftarrow> add_response_blob out (Rc SPOCP_MULTI) (Some b);
     if r \<noteq> SPOCP_SUCCESS then Some (False, out') else blob_responses out' bs }"

fun result_responses :: "iobuf \<Rightarrow> rule resset \<Rightarrow> (bool \<times> iobuf) option" where
  "result_responses out [] = Some (True, out)"
| "result_responses out (n # ns) = do {
     (ok, out') \<leftarrow> (case rs_blob n of None \<Rightarrow> Some (True, out) | Some oa \<Rightarrow> blob_responses out (oa_arr oa));
     (ok', out'') \<leftarrow> result_responses out' ns;
     Some (ok \<and> ok', out'') }"

definition query_with :: "'p env \<Rightarrow> 'p srv \<Rightarrow> work_info \<Rightarrow> ('r, 'p) sconn \<Rightarrow> int \<Rightarrow> ('r, 'p) outcome" where
  "query_with e sv wi c all =
     (if c_transaction c then done_with sv wi c (Rc SPOCP_UNWILLING)
      else do {
        (r, p, wi1, c1) \<leftarrow> opinitial e sv wi c True 1 1;
        if r \<noteq> Rc SPOCP_SUCCESS then done_with sv wi1 c1 r
        else do {
          f \<leftarrow> conn_tree sv c1;
          rs \<leftarrow> Option.bind p (rs_at f);
          oa \<leftarrow> wi_oparg wi1;
          q \<leftarrow> (case oa_arr oa of [] \<Rightarrow> None | o1 # _ \<Rightarrow> Some o1);
          (rc, rset) \<leftarrow> ss_allow (e_shift e) (e_beval e) (e_num e) (e_fuel e) (Some rs) (Some q) (SUBTREE + all);
          if rc = SPOCP_SUCCESS then do {
            (ok, out) \<leftarrow> result_responses (wi_buf wi1) rset;
            done_with sv (wi1\<lparr>wi_buf := out\<rparr>) c1 (Rc (if ok then rc else SPOCP_OPERATIONSERROR)) }
          else done_with sv wi1 c1 (Rc rc) } })"

definition com_query :: "'p env \<Rightarrow> 'p srv \<Rightarrow> work_info \<Rightarrow> ('r, 'p) sconn \<Rightarrow> ('r, 'p) outcome" where
  "com_query e sv wi c = query_with e sv wi c 0"

definition com_bsearch :: "'p env \<Rightarrow> 'p srv \<Rightarrow> work_info \<Rightarrow> ('r, 'p) sconn \<Rightarrow> ('r, 'p) outcome" where
  "com_bsearch e sv wi c = query_with e sv wi c 16"

definition com_show :: "'p env \<Rightarrow> 'p srv \<Rightarrow> work_info \<Rightarrow> ('r, 'p) sconn \<Rightarrow> ('r, 'p) outcome" where
  "com_show e sv wi c = do {
     (r, p, wi1, c1) \<leftarrow> opinitial e sv wi c True 1 1;
     if r \<noteq> Rc SPOCP_SUCCESS then done_with sv wi1 c1 r
     else do {
       f \<leftarrow> conn_tree sv c1;
       rs \<leftarrow> Option.bind p (rs_at f);
       oa \<leftarrow> wi_oparg wi1;
       o1 \<leftarrow> (case oa_arr oa of [] \<Rightarrow> None | o1 # _ \<Rightarrow> Some o1);
       uid \<leftarrow> oct2strdup (Some o1) NUL;
       db \<leftarrow> rs_db rs;
       u \<leftarrow> (if db_ri db = None then Some [] else uid);
       case ruleinst_find_by_uid (db_ri db) (takeWhile (\<lambda>ch. ch \<noteq> NUL) u) of
         None \<Rightarrow> done_with sv wi1 c1 r
       | Some ri \<Rightarrow> do {
           oct \<leftarrow> ruleinst_print ri (Some (rs_name rs));
           (q, out) \<leftarrow> add_response_blob (wi_buf wi1) (Rc SPOCP_MULTI) (Some oct);
           done_with sv (wi1\<lparr>wi_buf := out\<rparr>) c1 (Rc q) } } }"


subsection \<open>Adding and deleting rules\<close>

text \<open>A rule goes into the database of its ruleset, with a condition of the ruleset itself or of one further
  up. The arguments are those that the last attempt has left.\<close>

definition ancestors :: "rspos \<Rightarrow> rspos list" where
  "ancestors p = map (\<lambda>k. (fst p, take k (snd p))) (rev [0..<Suc (length (snd p))])"

fun add_up :: "'p env \<Rightarrow> 'p rsd forest \<Rightarrow> rspos \<Rightarrow> rspos list \<Rightarrow> octarr option \<Rightarrow>
    (spocp_result \<times> rule option \<times> 'p rsd forest \<times> octarr option) option" where
  "add_up e f p [] oparg = Some (SPOCP_UNAVAILABLE, None, f, oparg)"
| "add_up e f p (a # as) oparg = do {
     rs \<leftarrow> rs_at f p;
     up \<leftarrow> rs_at f a;
     (rc, ri, db', s', oparg') \<leftarrow> dbapi_rule_add (e_sha1 e) (e_mem e) (e_plugin e) (e_shift e) (e_new e)
        (rs_db rs) (fst (snd (rs_data up))) oparg;
     let f' = rs_upd (rs_upd f p (\<lambda>(_, d). (db', d))) a (\<lambda>(db, _, fr). (db, s', fr));
     if rc = SPOCP_UNAVAILABLE then add_up e f' p as oparg' else Some (rc, ri, f', oparg') }"

text \<open>The ruleset that ADD uses: a new one when \<open>opinitial\<close> has found none.\<close>

definition add_ruleset :: "'p env \<Rightarrow> 'p srv \<Rightarrow> opresult \<Rightarrow> rspos option \<Rightarrow> work_info \<Rightarrow> ('r, 'p) sconn \<Rightarrow>
    (opresult \<times> rspos option \<times> 'p srv \<times> work_info \<times> ('r, 'p) sconn) option" where
  "add_ruleset e sv rc p wi c =
     (if rc = UNKNOWN_RULESET then do {
        f \<leftarrow> conn_tree sv c;
        (f', path') \<leftarrow> ruleset_create (e_zero e) (wi_oppath wi) f;
        (q, _) \<leftarrow> ruleset_find (octcln (wi_oppath wi)) f';
        let (sv', c') = put_tree sv c f';
        Some (Rc SPOCP_SUCCESS, q, sv', wi\<lparr>wi_oppath := path'\<rparr>, c') }
      else Some (rc, p, sv, wi, c))"

text \<open>The checks of ADD: the frame of the operation, its ruleset, and the access to the rules.\<close>

definition add_checks :: "'p env \<Rightarrow> 'p srv \<Rightarrow> work_info \<Rightarrow> ('r, 'p) sconn \<Rightarrow>
    (opresult \<times> rspos option \<times> 'p srv \<times> work_info \<times> ('r, 'p) sconn) option" where
  "add_checks e sv wi c = do {
     (rc0, p0, wi0, c0) \<leftarrow> (if sv_readonly sv then Some (Rc SPOCP_DENIED, Some (False, []), wi, c)
                             else opinitial e sv wi c True 1 3);
     (rc1, p, sv1, wi1, c1) \<leftarrow> add_ruleset e sv rc0 p0 wi0 c0;
     (ra, wi2, c2) \<leftarrow> rule_access (e_shift e) (e_beval e) (e_num e) (e_fuel e) (sv_uds sv1) (conn_tree sv1 c1) wi1 c1;
     Some (if ra \<noteq> SPOCP_SUCCESS then Rc SPOCP_DENIED else rc1, p, sv1, wi2, c2) }"

definition com_add :: "'p env \<Rightarrow> 'p srv \<Rightarrow> work_info \<Rightarrow> ('r, 'p) sconn \<Rightarrow> ('r, 'p) outcome" where
  "com_add e sv wi c = do {
     (rc, p, sv1, wi2, c2) \<leftarrow> add_checks e sv wi c;
     if rc \<noteq> Rc SPOCP_SUCCESS then done_with sv1 wi2 c2 rc
     else do {
       pos \<leftarrow> p;
       f \<leftarrow> conn_tree sv1 c2;
       if c_transaction c2 then do {
         op \<leftarrow> opstack_new SPOCP_ADD (names_of f pos) (wi_oparg wi2);
         done_with sv1 wi2 (c2\<lparr>c_ops := opstack_push (c_ops c2) [op]\<rparr>) rc }
       else do {
         (r, _, f', oparg') \<leftarrow> add_up e f pos (ancestors pos) (wi_oparg wi2);
         let (sv', c') = put_tree sv1 c2 f';
         done_with sv' (wi2\<lparr>wi_oparg := oparg'\<rparr>) c' (Rc r) } } }"

text \<open>The removal of a rule in the ruleset at a position.\<close>

definition rm_at :: "'p env \<Rightarrow> 'p rsd forest \<Rightarrow> rspos \<Rightarrow> octet option \<Rightarrow> rule option \<Rightarrow> (spocp_result \<times> 'p rsd forest) option" where
  "rm_at e f p op rule = do {
     rs \<leftarrow> rs_at f p;
     db \<leftarrow> rs_db rs;
     (rc, db', fr', _) \<leftarrow> dbapi_rule_rm (e_shift e) db (snd (snd (rs_data rs))) op rule;
     Some (rc, rs_upd f p (\<lambda>(_, s, _). (Some db', s, fr'))) }"

definition com_delete :: "'p env \<Rightarrow> 'p srv \<Rightarrow> work_info \<Rightarrow> ('r, 'p) sconn \<Rightarrow> ('r, 'p) outcome" where
  "com_delete e sv wi c = do {
     (rc, p, wi1, c1) \<leftarrow> (if sv_readonly sv then Some (Rc SPOCP_DENIED, Some (False, []), wi, c)
                           else opinitial e sv wi c True 1 1);
     if rc \<noteq> Rc SPOCP_SUCCESS then done_with sv wi1 c1 rc
     else do {
       f \<leftarrow> conn_tree sv c1;
       pos \<leftarrow> p;
       rs \<leftarrow> rs_at f pos;
       db \<leftarrow> rs_db rs;
       if db_ri db = None then done_with sv wi1 c1 (Rc SPOCP_DENIED)
       else if c_transaction c1 then do {
         op \<leftarrow> opstack_new SPOCP_DEL (names_of f pos) (wi_oparg wi1);
         done_with sv wi1 (c1\<lparr>c_ops := opstack_push (c_ops c1) [op]\<rparr>) rc }
       else do {
         oa \<leftarrow> wi_oparg wi1;
         oct \<leftarrow> (case oa_arr oa of [] \<Rightarrow> None | o1 # _ \<Rightarrow> Some o1);
         if oct_len oct \<noteq> SHA1HASHLEN then done_with sv wi1 c1 (Rc SPOCP_SYNTAXERROR)
         else do {
           (r, f') \<leftarrow> rm_at e f pos (Some oct) None;
           let (sv', c') = put_tree sv c1 f';
           done_with sv' wi1 c' (Rc r) } } } }"

subsection \<open>Transactions\<close>

text \<open>The plugins and the persistent store of a copied database are not set, and behind its memory; \<open>e_behind\<close> is what is read there.\<close>

definition ruleset_dup :: "'p env \<Rightarrow> 'p rsd ruleset \<Rightarrow> 'p rsd ruleset option" where
  "ruleset_dup e r = do {
     d \<leftarrow> db_dup (e_usable e) (e_junk e) (rs_db r);
     Some (Ruleset (rs_name r) (d, if d = None then snd (e_zero e) else (e_behind e, [])) None) }"

text \<open>\<open>rec_dup_rules\<close> for a whole subtree: \<^verbatim>\<open>down\<close> of a copy is its leftmost ruleset.\<close>

function rec_dup_rules :: "'p env \<Rightarrow> 'p rsd ruleset \<Rightarrow> 'p rsd ruleset option"
  and dup_kids :: "'p env \<Rightarrow> 'p rsd ruleset list \<Rightarrow> 'p rsd ruleset list option" where
  "rec_dup_rules e r = (case dup_kids e (kids r) of
      None \<Rightarrow> None
    | Some ks \<Rightarrow> map_option (\<lambda>d. Ruleset (rs_name d) (rs_data d) (case ks of [] \<Rightarrow> None | k # ks' \<Rightarrow> Some ([], k, ks')))
        (ruleset_dup e r))"
| "dup_kids e [] = Some []"
| "dup_kids e (k # ks) = (case rec_dup_rules e k of None \<Rightarrow> None | Some k' \<Rightarrow> map_option ((#) k') (dup_kids e ks))"
  by pat_completeness auto
termination
  by (relation "measure (case_sum (\<lambda>(_, r). 2 * size r) (\<lambda>(_, ks). 2 * size_list size ks + 1))") (auto intro: size_kids_twice)

declare rec_dup_rules.simps [simp del]

definition ss_dup :: "'p env \<Rightarrow> 'p rsd ruleset \<Rightarrow> 'p rsd ruleset option" where
  "ss_dup e rs = rec_dup_rules e rs"

text \<open>The mutex \<^verbatim>\<open>transaction\<close> of the root is taken and never given back; to wait for it is endless.\<close>

definition com_begin :: "'p env \<Rightarrow> 'p srv \<Rightarrow> work_info \<Rightarrow> ('r, 'p) sconn \<Rightarrow> ('r, 'p) outcome" where
  "com_begin e sv wi c =
     (if sv_readonly sv then done_with sv wi c (Rc SPOCP_DENIED)
      else if c_transaction c then done_with sv wi c (Rc SPOCP_EXISTS)
      else do {
        (r, c1) \<leftarrow> op_access e sv wi c;
        if r \<noteq> SPOCP_SUCCESS then done_with sv wi c1 (Rc r)
        else if sv_transaction sv then None
        else do {
          t \<leftarrow> ss_dup e (fo_root (sv_root sv));
          done_with (sv\<lparr>sv_transaction := True\<rparr>) wi
            (c1\<lparr>c_rs := Some (Own \<lparr>fo_server = None, fo_root = t\<rparr>), c_transaction := True\<rparr>) (Rc SPOCP_SUCCESS) } })"

text \<open>One operation of a transaction, and its withdrawal. \<open>oparg\<close> are the arguments of COMMIT.\<close>

definition exec_op :: "'p env \<Rightarrow> octarr option \<Rightarrow> 'p rsd forest \<Rightarrow> rsnames opstack \<Rightarrow>
    (spocp_result \<times> 'p rsd forest \<times> rsnames opstack) option" where
  "exec_op e oparg f op = (case os_oper op of
      SPOCP_ADD \<Rightarrow> do {
        pos \<leftarrow> pos_of f (os_rs op);
        (rc, ri, f', oa') \<leftarrow> add_up e f pos [(False, [])] (os_oparg op);
        Some (rc, f', op\<lparr>os_rule := ri, os_oparg := oa'\<rparr>) }
    | SPOCP_DEL \<Rightarrow> do {
        oa \<leftarrow> oparg;
        o1 \<leftarrow> (case oa_arr oa of [] \<Rightarrow> None | o1 # _ \<Rightarrow> Some o1);
        pos \<leftarrow> pos_of f (os_rs op);
        rs \<leftarrow> rs_at f pos;
        db \<leftarrow> rs_db rs;
        back \<leftarrow> rollback_info db o1;
        da \<leftarrow> os_oparg op;
        d1 \<leftarrow> (case oa_arr da of [] \<Rightarrow> None | o1 # _ \<Rightarrow> Some o1);
        (rc, f') \<leftarrow> rm_at e f pos (Some d1) None;
        Some (rc, f', op\<lparr>os_rollback := back\<rparr>) })"

fun commit_ops :: "'p env \<Rightarrow> octarr option \<Rightarrow> 'p rsd forest \<Rightarrow> rsnames opstack list \<Rightarrow>
    (spocp_result \<times> 'p rsd forest \<times> rsnames opstack list) option" where
  "commit_ops e oparg f [] = Some (SPOCP_SUCCESS, f, [])"
| "commit_ops e oparg f (op # ops) = do {
     (rc, f1, op') \<leftarrow> exec_op e oparg f op;
     if rc = SPOCP_SUCCESS then do {
       (rc', f2, ds) \<leftarrow> commit_ops e oparg f1 ops;
       Some (rc', f2, op' # ds) }
     else Some (rc, f1, [op']) }"

fun rollback_ops :: "'p env \<Rightarrow> octarr option \<Rightarrow> spocp_result \<Rightarrow> 'p rsd forest \<Rightarrow> rsnames opstack list \<Rightarrow>
    (spocp_result \<times> 'p rsd forest \<times> octarr option) option" where
  "rollback_ops e oparg rc f [] = Some (rc, f, oparg)"
| "rollback_ops e oparg rc f (op # ops) = (case os_oper op of
      SPOCP_ADD \<Rightarrow> do { pos \<leftarrow> pos_of f (os_rs op); (rc', f') \<leftarrow> rm_at e f pos None (os_rule op); rollback_ops e oparg rc' f' ops }
    | SPOCP_DEL \<Rightarrow> do {
        pos \<leftarrow> pos_of f (os_rs op);
        (rc', _, f', oparg') \<leftarrow> add_up e f pos (ancestors pos) oparg;
        rollback_ops e oparg' rc' f' ops })"

definition com_commit :: "'p env \<Rightarrow> 'p srv \<Rightarrow> work_info \<Rightarrow> ('r, 'p) sconn \<Rightarrow> ('r, 'p) outcome" where
  "com_commit e sv wi c =
     (if sv_readonly sv then done_with sv wi c (Rc SPOCP_DENIED)
      else if \<not> c_transaction c then done_with sv wi c (Rc SPOCP_UNWILLING)
      else do {
        f \<leftarrow> conn_tree sv c;
        (rc, f1, ds) \<leftarrow> commit_ops e (wi_oparg wi) f (c_ops c);
        (r, f2, oparg') \<leftarrow> (if rc \<noteq> SPOCP_SUCCESS then rollback_ops e (wi_oparg wi) rc f1 ds else Some (rc, f1, wi_oparg wi));
        let (sv', c') = put_tree sv c f2;
        done_with sv' (wi\<lparr>wi_oparg := oparg'\<rparr>) (c'\<lparr>c_ops := [], c_transaction := False\<rparr>) (Rc r) })"

subsection \<open>Running a request\<close>

definition handler :: "'p env \<Rightarrow> proto_op \<Rightarrow> ('p srv \<Rightarrow> work_info \<Rightarrow> ('r, 'p) sconn \<Rightarrow> ('r, 'p) outcome) option" where
  "handler e p = (case p of
      Starttls \<Rightarrow> Some com_starttls | Rollback \<Rightarrow> Some com_rollback | Subject \<Rightarrow> Some (com_subject e) | Summary \<Rightarrow> None
    | Bsearch \<Rightarrow> Some (com_bsearch e) | Logout \<Rightarrow> Some com_logout | Delete \<Rightarrow> Some (com_delete e) | Commit \<Rightarrow> Some (com_commit e)
    | Tlsneg \<Rightarrow> Some com_tlsneg | Query \<Rightarrow> Some (com_query e) | Login \<Rightarrow> Some com_login | Begin \<Rightarrow> Some (com_begin e)
    | Listing \<Rightarrow> None | Auth \<Rightarrow> Some (com_auth e) | Capa \<Rightarrow> Some (com_capa e) | Show \<Rightarrow> Some (com_show e) | Find \<Rightarrow> Some com_find
    | Noop \<Rightarrow> Some com_noop | Add \<Rightarrow> Some (com_add e))"


subsection \<open>What the handlers leave alone\<close>

text \<open>Access checks change nothing of a connection but the subject that is remembered.\<close>

definition same_conn :: "('r, 'p) sconn \<Rightarrow> ('r, 'p) sconn \<Rightarrow> bool" where
  "same_conn c c' \<longleftrightarrow> c_rs c' = c_rs c \<and> c_transaction c' = c_transaction c \<and> c_ops c' = c_ops c"

lemma same_conn_refl [simp]: "same_conn c c"
  by (simp add: same_conn_def)

lemma svar_value_same: "svar_value v wi c = Some (x, c') \<Longrightarrow> same_conn c c'"
  by (cases v) (auto simp: get_subject_def same_conn_def bind_eq_Some_conv split: option.splits)

lemma constr_args_same: "constr_args ps wi c = Some (fmt, args, c') \<Longrightarrow> same_conn c c'"
proof (induction ps wi c arbitrary: fmt args c' rule: constr_args.induct)
  case (3 af ty ps wi c)
  then show ?case using svar_value_same by (fastforce simp: bind_eq_Some_conv same_conn_def)
qed (auto simp: bind_eq_Some_conv)

lemma sexp_constr_same: "sexp_constr ap wi c = Some (x, c') \<Longrightarrow> same_conn c c'"
  by (auto simp: sexp_constr_def bind_eq_Some_conv dest: constr_args_same split: option.splits if_splits)

lemma spocp_access_same: "spocp_access sh be n fu u f arg path wi c = Some (r, path', c') \<Longrightarrow> same_conn c c'"
  using sexp_constr_same [of arg wi c _ c']
  by (auto simp: spocp_access_def split: option.splits if_splits sum.splits Option.bind_splits)

lemma op_access_same: "op_access e sv wi c = Some (r, c') \<Longrightarrow> same_conn c c'"
  by (auto simp: op_access_def operation_access_def Let_def bind_eq_Some_conv dest: spocp_access_same)

lemma rule_access_same: "rule_access sh be n fu u f wi c = Some (r, wi', c') \<Longrightarrow> same_conn c c'"
  by (auto simp: rule_access_def bind_eq_Some_conv dest: spocp_access_same)

lemma opinitial_same: "opinitial e sv wi c path mn mx = Some (r, p, wi', c') \<Longrightarrow> same_conn c c'"
  by (auto simp: opinitial_def Let_def bind_eq_Some_conv dest: op_access_same split: option.splits if_splits)

lemma done_with_same: "done_with sv wi c rc = Some (r, sv', wi', c') \<Longrightarrow> r = rc \<and> sv' = sv \<and> same_conn c c'"
  by (auto simp: done_with_def postop_def bind_eq_Some_conv same_conn_def)


lemma done_with_returns:
  assumes "wf_io (wi_buf wi)" "io_fits (wi_buf wi) 80" "wf_io (c_in c)"
  shows "\<exists>wi' c'. done_with sv wi c rc = Some (rc, sv, wi', c')"
proof -
  have "length (netstr (response_text rc)) \<le> 80"
    using response_text_bounds(2) [of rc] length_netstr_small [of "response_text rc"] by simp
  then have "io_fits (wi_buf wi) (length (netstr (response_text rc)))" using assms(2) by (simp add: io_fits_def)
  then obtain b where "add_response (wi_buf wi) rc None = Some (SPOCP_SUCCESS, b)" using add_response_content [OF assms(1)] by blast
  then show ?thesis using iobuf_shift_ok [OF assms(3)] by (auto simp: done_with_def postop_def)
qed

text \<open>The frame of every handler: a read-only server stays as it is, and from a connection with rulesets of
  its own nothing reaches those of the server.\<close>

definition sv_frame :: "'p srv \<Rightarrow> ('r, 'p) sconn \<Rightarrow> 'p srv \<Rightarrow> ('r, 'p) sconn \<Rightarrow> bool" where
  "sv_frame sv c sv' c' \<longleftrightarrow> (sv_readonly sv \<longrightarrow> sv' = sv) \<and> sv_readonly sv' = sv_readonly sv \<and>
     (\<forall>f. c_rs c = Some (Own f) \<longrightarrow> sv_root sv' = sv_root sv \<and> (\<exists>f'. c_rs c' = Some (Own f')))"

lemma sv_frame_refl: "same_conn c c' \<Longrightarrow> sv_frame sv c sv c'"
  by (simp add: sv_frame_def same_conn_def)

lemma frame_own: "sv_frame sv c sv (c\<lparr>c_ops := x\<rparr>)" "sv_frame sv c sv (c\<lparr>c_subject := y\<rparr>)"
  by (simp_all add: sv_frame_def)

lemma sv_frame_trans: "sv_frame sv c sv1 c1 \<Longrightarrow> sv_frame sv1 c1 sv2 c2 \<Longrightarrow> sv_frame sv c sv2 c2"
  by (auto simp: sv_frame_def)

lemma put_tree_frame: "put_tree sv c f = (sv', c') \<Longrightarrow> \<not> sv_readonly sv \<Longrightarrow> sv_frame sv c sv' c'"
  by (auto simp: put_tree_def sv_frame_def split: option.splits tree_ref.splits)

lemma frame_same: "sv_frame sv c sv1 c1 \<Longrightarrow> same_conn c1 c2 \<Longrightarrow> sv_frame sv c sv1 c2"
  by (auto simp: sv_frame_def same_conn_def)

lemmas same_frames = op_access_same [THEN sv_frame_refl] opinitial_same [THEN sv_frame_refl] rule_access_same [THEN sv_frame_refl]

lemma bind_SomeE: "Option.bind m g = Some y \<Longrightarrow> (\<And>x. m = Some x \<Longrightarrow> g x = Some y \<Longrightarrow> P) \<Longrightarrow> P"
  by (auto simp: bind_eq_Some_conv)

text \<open>\<open>keeps sv c m\<close>: whatever the outcome \<open>m\<close> of a handler is, it is in the frame.\<close>

definition keeps :: "'p srv \<Rightarrow> ('r, 'p) sconn \<Rightarrow> ('r, 'p) outcome \<Rightarrow> bool" where
  "keeps sv c m \<longleftrightarrow> (\<forall>r sv' wi' c'. m = Some (r, sv', wi', c') \<longrightarrow> sv_frame sv c sv' c')"

lemma keepsD: "keeps sv c m \<Longrightarrow> m = Some (r, sv', wi', c') \<Longrightarrow> sv_frame sv c sv' c'"
  by (simp add: keeps_def)

lemma keeps_None: "keeps sv c None"
  by (simp add: keeps_def)

lemma keeps_done: "sv_frame sv c sv1 c1 \<Longrightarrow> keeps sv c (done_with sv1 wi c1 rc)"
  by (auto simp: keeps_def dest!: done_with_same intro: frame_same)

lemma keeps_Some: "sv_frame sv c sv1 c1 \<Longrightarrow> keeps sv c (Some (r, sv1, wi, c1))"
  by (simp add: keeps_def)

lemma keeps_bind: "(\<And>x. m = Some x \<Longrightarrow> keeps sv c (g x)) \<Longrightarrow> keeps sv c (Option.bind m g)"
  by (cases m) (auto simp: keeps_None)

lemma keeps_if: "(b \<Longrightarrow> keeps sv c x) \<Longrightarrow> (\<not> b \<Longrightarrow> keeps sv c y) \<Longrightarrow> keeps sv c (if b then x else y)"
  by simp

lemma keeps_prod: "(\<And>a b. x = (a, b) \<Longrightarrow> keeps sv c (g a b)) \<Longrightarrow> keeps sv c (case x of (a, b) \<Rightarrow> g a b)"
  by (cases x) simp

lemma keeps_option: "(x = None \<Longrightarrow> keeps sv c y) \<Longrightarrow> (\<And>a. x = Some a \<Longrightarrow> keeps sv c (g a)) \<Longrightarrow>
    keeps sv c (case x of None \<Rightarrow> y | Some a \<Rightarrow> g a)"
  by (cases x) simp_all

lemma keeps_let: "keeps sv c (g x) \<Longrightarrow> keeps sv c (let y = x in g y)"
  by simp

lemmas keeps_rules = keeps_None keeps_done keeps_bind keeps_if keeps_prod keeps_option keeps_let

lemma simple_keeps:
  "keeps sv c (com_starttls sv wi c)" "keeps sv c (com_tlsneg sv wi c)" "keeps sv c (com_rollback sv wi c)" "keeps sv c (com_noop sv wi c)"
  "keeps sv c (com_login sv wi c)" "keeps sv c (com_find sv wi c)" "keeps sv c (com_logout sv wi c)"
  unfolding com_starttls_def com_tlsneg_def com_rollback_def com_noop_def com_login_def com_find_def com_logout_def
  by (intro keeps_rules frame_own sv_frame_refl same_conn_refl; (auto simp: sv_frame_def same_conn_def keeps_def dest!: done_with_same; fail)?)+

lemma access_keeps: "keeps sv c (com_capa e sv wi c)" "keeps sv c (com_auth e sv wi c)"
  unfolding com_capa_def com_auth_def by (intro keeps_rules; auto intro: same_frames sv_frame_refl)+

lemma subject_keeps: "keeps sv c (com_subject e sv wi c)"
  unfolding com_subject_def
  by (intro keeps_rules; auto simp: sv_frame_def same_conn_def dest!: opinitial_same)

lemma query_keeps: "keeps sv c (query_with e sv wi c all)"
  unfolding query_with_def by (intro keeps_rules; auto intro: same_frames sv_frame_refl)

lemma show_keeps: "keeps sv c (com_show e sv wi c)"
  unfolding com_show_def by (intro keeps_rules; auto intro: same_frames sv_frame_refl)


lemma add_ruleset_frame:
  assumes "add_ruleset e sv rc p wi c0 = Some (rc1, q, sv1, wi1, c1)" "same_conn c c0" "rc = UNKNOWN_RULESET \<Longrightarrow> \<not> sv_readonly sv"
  shows "sv_frame sv c sv1 c1"
proof (cases "rc = UNKNOWN_RULESET")
  case True
  then obtain f' where "put_tree sv c0 f' = (sv1, c1)" using assms(1)
    by (auto simp: add_ruleset_def bind_eq_Some_conv case_prod_unfold Let_def prod_eq_iff)
  then have "sv_frame sv c0 sv1 c1" using assms(3) True by (auto intro: put_tree_frame)
  then show ?thesis using assms(2) sv_frame_refl sv_frame_trans by blast
qed (use assms in \<open>auto simp: add_ruleset_def intro: sv_frame_refl\<close>)

lemma opinitial_readonly: "(if sv_readonly sv then Some (Rc SPOCP_DENIED, Some (False, []), wi, c) else opinitial e sv wi c pa mn mx) = Some (rc, p, wi1, c1) \<Longrightarrow>
    same_conn c c1 \<and> (rc = UNKNOWN_RULESET \<or> rc = Rc SPOCP_SUCCESS \<longrightarrow> \<not> sv_readonly sv)"
  by (auto dest: opinitial_same split: if_splits)

lemma add_checks_frame:
  assumes "add_checks e sv wi c = Some (rc, p, sv1, wi2, c2)"
  shows "sv_frame sv c sv1 c2" and "rc = Rc SPOCP_SUCCESS \<Longrightarrow> \<not> sv_readonly sv1"
proof -
  obtain rc0 p0 wi0 c0 rc1 wi1 c1 ra where s:
      "(if sv_readonly sv then Some (Rc SPOCP_DENIED, Some (False, []), wi, c) else opinitial e sv wi c True 1 3) = Some (rc0, p0, wi0, c0)"
      "add_ruleset e sv rc0 p0 wi0 c0 = Some (rc1, p, sv1, wi1, c1)"
      "rule_access (e_shift e) (e_beval e) (e_num e) (e_fuel e) (sv_uds sv1) (conn_tree sv1 c1) wi1 c1 = Some (ra, wi2, c2)"
      "rc = (if ra \<noteq> SPOCP_SUCCESS then Rc SPOCP_DENIED else rc1)"
    using assms unfolding add_checks_def by (elim bind_SomeE) (auto elim!: bind_SomeE simp del: if_split)
  have f: "sv_frame sv c sv1 c1" using add_ruleset_frame [OF s(2)] opinitial_readonly [OF s(1)] by blast
  show "sv_frame sv c sv1 c2" using f rule_access_same [OF s(3)] by (rule frame_same)
  show "\<not> sv_readonly sv1" if "rc = Rc SPOCP_SUCCESS"
  proof -
    have "rc1 = Rc SPOCP_SUCCESS" using that s(4) by (auto split: if_splits)
    then have "\<not> sv_readonly sv" using opinitial_readonly [OF s(1)] s(2) by (auto simp: add_ruleset_def split: if_splits)
    then show ?thesis using f by (simp add: sv_frame_def)
  qed
qed

lemma add_keeps: "keeps sv c (com_add e sv wi c)"
proof -
  have 2: "sv_frame sv c sv' c'" if "add_checks e sv wi c = Some (Rc SPOCP_SUCCESS, p, sv1, wi2, c2)" "put_tree sv1 c2 f' = (sv', c')"
    for p sv1 wi2 c2 f' sv' c'
    using sv_frame_trans [OF add_checks_frame(1) put_tree_frame [OF that(2) add_checks_frame(2)]] that(1) by blast
  have 3: "sv_frame sv c sv1 (c2\<lparr>c_ops := x\<rparr>)" if "add_checks e sv wi c = Some (rc, p, sv1, wi2, c2)" for rc p sv1 wi2 c2 x
    using add_checks_frame(1) [OF that] by (simp add: sv_frame_def)
  show ?thesis unfolding com_add_def by (intro keeps_rules; auto intro: 2 3 add_checks_frame)
qed

lemma delete_keeps: "keeps sv c (com_delete e sv wi c)"
proof -
  have 2: "sv_frame sv c sv' c'" if "same_conn c c1" "\<not> sv_readonly sv" "put_tree sv c1 f' = (sv', c')" for c1 f' sv' c'
    using sv_frame_trans [OF sv_frame_refl [OF that(1)] put_tree_frame [OF that(3,2)]] .
  have 3: "sv_frame sv c sv (c1\<lparr>c_ops := x\<rparr>)" if "same_conn c c1" for c1 x
    using that by (simp add: sv_frame_def same_conn_def)
  show ?thesis unfolding com_delete_def
    by (intro keeps_rules; auto intro: 2 3 sv_frame_refl dest!: opinitial_readonly)
qed

lemma begin_keeps: "keeps sv c (com_begin e sv wi c)"
proof -
  have "sv_frame sv c (sv\<lparr>sv_transaction := b\<rparr>) (c1\<lparr>c_rs := Some (Own f), c_transaction := b'\<rparr>)" if "\<not> sv_readonly sv" for b b' f c1
    using that by (simp add: sv_frame_def)
  then show ?thesis unfolding com_begin_def by (intro keeps_rules; auto intro: same_frames sv_frame_refl)
qed

lemma commit_keeps: "keeps sv c (com_commit e sv wi c)"
proof -
  have "sv_frame sv c sv' (c'\<lparr>c_ops := [], c_transaction := False\<rparr>)" if "\<not> sv_readonly sv" "put_tree sv c f' = (sv', c')" for f' sv' c'
    using put_tree_frame [OF that(2,1)] by (simp add: sv_frame_def)
  then show ?thesis unfolding com_commit_def by (intro keeps_rules; auto intro: sv_frame_refl)
qed

lemma handler_keeps: "handler e p = Some h \<Longrightarrow> keeps sv c (h sv wi c)"
  by (cases p) (auto simp: handler_def com_query_def com_bsearch_def intro: simple_keeps access_keeps subject_keeps query_keeps show_keeps
      add_keeps delete_keeps begin_keeps commit_keeps)


text \<open>C3: No request changes the rules, or anything else, of a server that is read-only.\<close>

theorem readonly_server:
  assumes "sv_readonly sv" "handler e p = Some h" "h sv wi c = Some (rc, sv', wi', c')"
  shows "sv' = sv"
  using keepsD [OF handler_keeps [OF assms(2)] assms(3)] assms(1) by (simp add: sv_frame_def)

subsection \<open>Transactions\<close>

text \<open>A sequence of requests on one connection.\<close>

fun serve :: "'p env \<Rightarrow> 'p srv \<Rightarrow> ('r, 'p) sconn \<Rightarrow> (proto_op \<times> work_info) list \<Rightarrow> ('p srv \<times> ('r, 'p) sconn) option" where
  "serve e sv c [] = Some (sv, c)"
| "serve e sv c ((p, wi) # reqs) = do {
     h \<leftarrow> handler e p;
     (rc, sv', wi', c') \<leftarrow> h sv wi c;
     serve e sv' c' reqs }"

lemma serve_own: "serve e sv c reqs = Some (sv', c') \<Longrightarrow> c_rs c = Some (Own f) \<Longrightarrow> sv_root sv' = sv_root sv \<and> (\<exists>f'. c_rs c' = Some (Own f'))"
proof (induction reqs arbitrary: sv c f)
  case (Cons q reqs)
  obtain p wi where q: "q = (p, wi)" by fastforce
  obtain h rc sv1 wi1 c1 where s: "handler e p = Some h" "h sv wi c = Some (rc, sv1, wi1, c1)" "serve e sv1 c1 reqs = Some (sv', c')"
    using Cons.prems(1) q by (auto simp: bind_eq_Some_conv)
  then have "sv_frame sv c sv1 c1" using handler_keeps keepsD by metis
  then obtain f' where "sv_root sv1 = sv_root sv" "c_rs c1 = Some (Own f')" using Cons.prems(2) by (auto simp: sv_frame_def)
  then show ?case using Cons.IH [OF s(3)] by simp
qed simp

text \<open>C4: Nothing of a transaction ever reaches the rules of the server: once a connection works on its own copy of the rulesets,
  as it does after a successful BEGIN, no sequence of its requests, COMMIT included, changes the rules of the server, and the
  connection stays with its copy. (BEGIN succeeds as long as no rule has been stored, see C8.)\<close>

theorem transaction_unseen:
  assumes "com_begin e sv wi c = Some (Rc SPOCP_SUCCESS, sv1, wi1, c1) \<or> sv1 = sv \<and> c_rs c1 = Some (Own f)"
    and "serve e sv1 c1 reqs = Some (sv2, c2)"
  shows "sv_root sv2 = sv_root sv \<and> (\<exists>f'. c_rs c2 = Some (Own f'))"
proof -
  have "sv_root sv1 = sv_root sv \<and> (\<exists>f. c_rs c1 = Some (Own f))"
    using assms(1) by (auto simp: com_begin_def bind_eq_Some_conv same_conn_def dest!: done_with_same split: if_splits)
  then show ?thesis using serve_own [OF assms(2)] by auto
qed

lemma uds_op: "sv_uds sv \<Longrightarrow> op_access e sv wi c = Some (SPOCP_SUCCESS, c)"
  by (simp add: op_access_def operation_access_def spocp_access_def Let_def)

lemma rec_dup_fails: "db_dup (e_usable e) (e_junk e) (rs_db r) = None \<Longrightarrow> rec_dup_rules e r = None"
  by (simp add: rec_dup_rules.simps [of e r] ruleset_dup_def split: option.split)

text \<open>C8: BEGIN does not come back on a server that has a rule at its root. \<open>ruleinfo_dup\<close> leaves the copy without an index
  of rules, and \<open>index_dup\<close> follows the null pointer when it looks up the first rule that it comes to, whatever the size of the block
  that \<open>db_dup\<close> has been given. This is so for every tree that storing and removing rules has made, when a rule can still be reached in it
  along atoms and lists. Nor does BEGIN return, on any server, once a connection has begun a transaction, whether it has
  ended or not: the mutex is never given back. The request is one that is not refused before.\<close>

theorem begin_never_returns:
  assumes "\<not> sv_readonly sv" "\<not> c_transaction c" "op_access e sv wi c = Some (SPOCP_SUCCESS, c1)"
    and "sv_transaction sv \<or> (\<exists>db fr. rs_db (fo_root (sv_root sv)) = Some db \<and> built (db_jp db) fr \<and> holds_rule (db_jp db) 0)"
  shows "com_begin e sv wi c = None"
proof (cases "sv_transaction sv")
  case True
  then show ?thesis using assms(1-3) by (simp add: com_begin_def)
next
  case False
  then have "rec_dup_rules e (fo_root (sv_root sv)) = None" using assms(4) db_dup_fails by (intro rec_dup_fails) fastforce
  then show ?thesis using assms(1-3) by (simp add: com_begin_def ss_dup_def)
qed

definition demo_env :: "unit env" where
  "demo_env = \<lparr>e_shift = (\<lambda>t d. t), e_beval = (\<lambda>h r. None), e_num = 0, e_fuel = 5, e_sha1 = (\<lambda>t. t), e_mem = [], e_plugin = [],
     e_new = db_new (\<lambda>i. 0) [NUL], e_zero = (None, no_conds, []), e_localcontext = ''//server'',
     e_usable = (\<lambda>n. 24), e_junk = None, e_behind = no_conds\<rparr>"

definition demo_srv :: "bool \<Rightarrow> dbase option \<Rightarrow> unit srv" where
  "demo_srv ro db = \<lparr>sv_readonly = ro, sv_uds = True, sv_root = \<lparr>fo_server = None, fo_root = Ruleset [] (db, no_conds, []) None\<rparr>,
     sv_transaction = False\<rparr>"

definition demo_conn :: "(nat, unit) sconn" where
  "demo_conn = \<lparr>c_fd = 1, c_status = CNST_ACTIVE, c_sslstatus = INACTIVE, c_con_type = 0, c_phase = 0,
       c_ops_pending = 0, c_stop = False, c_operations = 0, c_layer = 0, c_hostname = None,
       c_hostaddr = None, c_subject = None, c_sexp_subject = None, c_rs = Some Shared, c_transaction = False, c_ops = [],
       c_in = in_io, c_out = tiny_io, c_head = []\<rparr>"

lemma idle_wf: "wf_io (wi_buf idle_request)" "io_fits (wi_buf idle_request) 80"
  by (simp_all add: idle_request_def tiny_io_def wf_io_def io_fits_def io_sizes)

theorem readonly_server_witness:
  "\<exists>sv' wi' c'. com_delete demo_env (demo_srv True None) idle_request demo_conn = Some (Rc SPOCP_DENIED, sv', wi', c') \<and> sv' = demo_srv True None"
proof -
  obtain sv' wi' c' where d: "com_delete demo_env (demo_srv True None) idle_request demo_conn = Some (Rc SPOCP_DENIED, sv', wi', c')"
    using done_with_returns [OF idle_wf, of demo_conn "demo_srv True None" "Rc SPOCP_DENIED"] in_io_wf(1)
    by (auto simp: com_delete_def demo_srv_def demo_conn_def)
  have "handler demo_env Delete = Some (com_delete demo_env :: unit srv \<Rightarrow> work_info \<Rightarrow> (nat, unit) sconn \<Rightarrow> (nat, unit) outcome)" by (simp add: handler_def)
  from readonly_server [OF _ this d] show ?thesis using d by (simp add: demo_srv_def)
qed

text \<open>A transaction on a server that has a database and no rules yet.\<close>

theorem transaction_unseen_witness:
  "\<exists>sv1 wi1 c1 sv2 c2. com_begin demo_env (demo_srv False (Some (db_new (\<lambda>i. 0) [NUL]))) idle_request demo_conn = Some (Rc SPOCP_SUCCESS, sv1, wi1, c1) \<and>
     serve demo_env sv1 c1 [(Commit, idle_request)] = Some (sv2, c2) \<and> sv_root sv2 = sv_root (demo_srv False (Some (db_new (\<lambda>i. 0) [NUL])))"
proof -
  define db where "db = db_new (\<lambda>i. 0) [NUL]"
  define sv where "sv = demo_srv False (Some db)"
  define own :: "unit rsd forest" where "own = \<lparr>fo_server = None, fo_root = Ruleset [] (Some db, no_conds, []) None\<rparr>"
  define c0 where "c0 = demo_conn\<lparr>c_rs := Some (Own own), c_transaction := True\<rparr>"
  have sv: "sv_uds sv" "\<not> sv_readonly sv" "\<not> sv_transaction sv" by (simp_all add: sv_def demo_srv_def)
  have "db_dup (e_usable demo_env) (e_junk demo_env) (Some db) = Some (Some db)" unfolding db_def by (rule db_dup_new) (simp add: demo_env_def)
  then have "ss_dup demo_env (fo_root (sv_root sv)) = Some (fo_root own)"
    by (simp add: ss_dup_def rec_dup_rules.simps sv_def demo_srv_def kids_def ruleset_dup_def own_def) (simp add: demo_env_def)
  moreover obtain wi1 c1 where d1: "done_with (sv\<lparr>sv_transaction := True\<rparr>) idle_request c0 (Rc SPOCP_SUCCESS) =
      Some (Rc SPOCP_SUCCESS, sv\<lparr>sv_transaction := True\<rparr>, wi1, c1)"
    using done_with_returns [OF idle_wf, of c0 "sv\<lparr>sv_transaction := True\<rparr>" "Rc SPOCP_SUCCESS"] in_io_wf(1)
    by (auto simp: c0_def demo_conn_def)
  moreover have "\<not> c_transaction demo_conn" by (simp add: demo_conn_def)
  ultimately have b: "com_begin demo_env sv idle_request demo_conn = Some (Rc SPOCP_SUCCESS, sv\<lparr>sv_transaction := True\<rparr>, wi1, c1)"
    using sv by (simp add: com_begin_def uds_op c0_def own_def)
  have c1: "c_rs c1 = Some (Own own)" "c_transaction c1" "c_ops c1 = []" "wf_io (c_in c1)"
  proof -
    show "c_rs c1 = Some (Own own)" "c_transaction c1" "c_ops c1 = []" using done_with_same [OF d1] by (auto simp: same_conn_def c0_def demo_conn_def)
    show "wf_io (c_in c1)" using d1 iobuf_shift_ok [of "c_in c0"] in_io_wf(1)
      by (auto simp: done_with_def postop_def bind_eq_Some_conv c0_def demo_conn_def)
  qed
  define sv1 where "sv1 = sv\<lparr>sv_transaction := True\<rparr>"
  have sv1: "\<not> sv_readonly sv1" using sv(2) by (simp add: sv1_def)
  obtain wi2 c2 where "done_with sv1 idle_request (c1\<lparr>c_rs := Some (Own own), c_ops := [], c_transaction := False\<rparr>) (Rc SPOCP_SUCCESS) =
      Some (Rc SPOCP_SUCCESS, sv1, wi2, c2)"
    using done_with_returns [OF idle_wf, of "c1\<lparr>c_rs := Some (Own own), c_ops := [], c_transaction := False\<rparr>" sv1 "Rc SPOCP_SUCCESS"] c1(4) by auto
  then have s: "serve demo_env sv1 c1 [(Commit, idle_request)] = Some (sv1, c2)"
    using c1 sv1 by (simp add: handler_def com_commit_def conn_tree_def put_tree_def)
  have "sv_root sv1 = sv_root sv" using transaction_unseen [OF disjI1 [OF b] s [unfolded sv1_def]] by (simp add: sv1_def)
  then show ?thesis using b s by (auto simp: sv1_def sv_def db_def)
qed

text \<open>A server whose database has one rule.\<close>

theorem begin_never_returns_witness:
  "\<exists>db. rules (Some db) \<and> com_begin demo_env (demo_srv False (Some db)) idle_request demo_conn = None"
proof -
  define ri :: rule where "ri = \<lparr>ri_uid = replicate 40 CHR ''a'', ri_rule = mk_octet ''(1:a)'', ri_blob = None, ri_bcexp = None, ri_ep = None, ri_bcond = None\<rparr>"
  have ok: "atom_ok (mk_atom ''a'')" by (simp add: atom_ok_def mk_atom_def wf_octet_def content_def)
  obtain st where st: "store_atoms (empty_tree (\<lambda>i. 0) [NUL]) [mk_atom ''a''] ri = Some st" using store_first [OF ok, of "\<lambda>i. 0" "[NUL]" ri] by auto
  then obtain r where e: "element_add (empty_tree (\<lambda>i. 0) [NUL]) 0 (c_top (EList (map EAtom [mk_atom ''a'']))) ri = Some (st, r)"
    by (auto simp: store_atoms_def list_of_def split: option.splits)
  define db where "db = \<lparr>db_jp = st, db_ri = Some [ri]\<rparr>"
  have "built (db_jp db) []" using built_add [OF built_empty e] by (simp add: db_def)
  moreover have "holds_rule (db_jp db) 0" using element_add_flat [OF empty_flat _ _ e] flat_holds ok by (fastforce simp: db_def)
  ultimately have "com_begin demo_env (demo_srv False (Some db)) idle_request demo_conn = None"
    by (intro begin_never_returns [OF _ _ uds_op]) (auto simp: demo_srv_def demo_conn_def)
  moreover have "rules (Some db)" by (simp add: rules_def nrules_def rdb_rules_def bsdrb_empty_def db_def)
  ultimately show ?thesis by blast
qed

end
