(* ===== verification/Cache.thy ===== *)
theory Cache
  imports Octarr Hashfunc
begin

text \<open>
  What a plugin keeps between two calls: the cache of its results (\<open>lib/cache.c\<close>) and the pool of its
  connections (\<open>lib/be_cpool.c\<close>). The time that \<^verbatim>\<open>time\<close> returns is an argument.

  A cached result is found by the hash of the argument alone. \<open>cached\<close> returns 0, \<^verbatim>\<open>EXPIRED\<close> or a result
  with the flag \<^verbatim>\<open>CACHED\<close>; these are the constructors of \<open>cache_hit\<close>. A connection is known by its address, and a
  connection in use holds its lock: to lock it once more in the same thread is an endless wait, \<open>None\<close>.
\<close>

subsection \<open>Cached results\<close>

record cacheval =
  cv_hash :: u32
  cv_blob :: octet
  cv_timeout :: nat
  cv_res :: spocp_result

type_synonym cache = "cacheval list"

datatype cache_hit = Miss | Expired | Hit spocp_result octet

definition MAX_CACHED_VALUES :: nat where "MAX_CACHED_VALUES = 1024"

definition no_blob :: octet where
  "no_blob = \<lparr>oct_val = [], oct_len = 0, oct_size = 0\<rparr>"

definition cacheval_new :: "nat \<Rightarrow> u32 \<Rightarrow> nat \<Rightarrow> spocp_result \<Rightarrow> cacheval" where
  "cacheval_new now h ct r = \<lparr>cv_hash = h, cv_blob = no_blob, cv_timeout = (now + ct) mod 2 ^ 32, cv_res = r\<rparr>"

definition arg_hash :: "octet \<Rightarrow> u32 option" where
  "arg_hash arg = lhash (oct_val arg) (oct_len arg) 0"

definition cache_find :: "cache \<Rightarrow> octet \<Rightarrow> cacheval option option" where
  "cache_find c arg = map_option (\<lambda>h. List.find (\<lambda>v. cv_hash v = h) c) (arg_hash arg)"

definition cache_fifo_rm :: "cache \<Rightarrow> cache" where
  "cache_fifo_rm c = tl c"

text \<open>A null cache is the empty one. The blob goes to the cache.\<close>

definition cache_value :: "nat \<Rightarrow> cache \<Rightarrow> octet \<Rightarrow> nat \<Rightarrow> spocp_result \<Rightarrow> octet option \<Rightarrow> cache option" where
  "cache_value now cp arg ct r blob = do {
     h \<leftarrow> arg_hash arg;
     let cvp = cacheval_new now h ct r;
     let cp1 = (if length cp = MAX_CACHED_VALUES then cache_fifo_rm cp else cp);
     let cvp1 = (case blob of None \<Rightarrow> cvp | Some b \<Rightarrow> if oct_len b \<noteq> 0 then cvp\<lparr>cv_blob := b\<rparr> else cvp);
     Some (cp1 @ [cvp1]) }"

definition cached :: "nat \<Rightarrow> cache \<Rightarrow> octet \<Rightarrow> cache_hit option" where
  "cached now cp arg = do {
     f \<leftarrow> cache_find cp arg;
     Some (case f of
         None \<Rightarrow> Miss
       | Some v \<Rightarrow> if cv_timeout v < now then Expired else Hit (cv_res v) ((cv_blob v)\<lparr>oct_size := 0\<rparr>)) }"

text \<open>\<open>varr_rm\<close> reads the array without a test for the null pointer, which an empty cache has, and compares its
  values with the one given; the null pointer is equal to none of them.\<close>

definition cache_del :: "cache \<Rightarrow> cacheval option \<Rightarrow> cache option" where
  "cache_del c cvp = (if c = [] then None else Some (case cvp of None \<Rightarrow> c | Some v \<Rightarrow> remove1 v c))"

text \<open>The test in \<open>cached_rm\<close> is the wrong way round: a value that is found is left where it is, and otherwise
  \<open>cache_del\<close> is called with the null pointer.\<close>

definition cached_rm :: "cache \<Rightarrow> octet \<Rightarrow> cache option" where
  "cached_rm cp arg = do {
     f \<leftarrow> cache_find cp arg;
     (case f of Some _ \<Rightarrow> Some cp | None \<Rightarrow> cache_del cp None) }"

subsection \<open>Pools of connections\<close>

record 'c becon =
  bc_id :: nat
  bc_con :: 'c
  bc_active :: bool
  bc_arg :: octet
  bc_last :: nat

record 'c becpool =
  bp_list :: "'c becon list"
  bp_size :: nat
  bp_max :: nat

definition becpool_new :: "nat \<Rightarrow> 'c becpool" where
  "becpool_new mx = \<lparr>bp_list = [], bp_size = 0, bp_max = mx\<rparr>"

definition becpool_full :: "'c becpool \<Rightarrow> bool" where
  "becpool_full bcp \<longleftrightarrow> bp_size bcp = bp_max bcp"

text \<open>\<open>new\<close> is the address that the allocation returns. The new connection is locked and put at the end.\<close>

definition becon_push :: "nat \<Rightarrow> nat \<Rightarrow> octet \<Rightarrow> 'c \<Rightarrow> 'c becpool \<Rightarrow> (nat option \<times> 'c becpool) option" where
  "becon_push now new arg con bcp =
     (if becpool_full bcp then Some (None, bcp)
      else do {
        a \<leftarrow> octdup (Some arg);
        a \<leftarrow> a;
        Some (Some new, bcp\<lparr>bp_list := bp_list bcp @ [\<lparr>bc_id = new, bc_con = con, bc_active = True, bc_arg = a, bc_last = now\<rparr>],
          bp_size := bp_size bcp + 1\<rparr>) })"

text \<open>The first free connection of that name, which is moved to the end.\<close>

fun get_loop :: "octet \<Rightarrow> 'c becon list \<Rightarrow> ('c becon list \<times> 'c becon \<times> 'c becon list) option option" where
  "get_loop arg [] = Some None"
| "get_loop arg (b # bs) = do {
     r \<leftarrow> octcmp (Some (bc_arg b)) (Some arg);
     if r = 0 \<and> \<not> bc_active b then Some (Some ([], b, bs))
     else map_option (map_option (\<lambda>(xs, y, ys). (b # xs, y, ys))) (get_loop arg bs) }"

definition becon_get :: "nat \<Rightarrow> octet \<Rightarrow> 'c becpool option \<Rightarrow> ('c becon option \<times> 'c becpool option) option" where
  "becon_get now arg bcp = (case bcp of
      None \<Rightarrow> Some (None, None)
    | Some p \<Rightarrow> do {
        f \<leftarrow> get_loop arg (bp_list p);
        Some (case f of
            None \<Rightarrow> (None, Some p)
          | Some (xs, b, ys) \<Rightarrow>
              (let b' = b\<lparr>bc_active := True, bc_last := now\<rparr> in (Some b', Some (p\<lparr>bp_list := xs @ ys @ [b']\<rparr>)))) })"

definition becon_change :: "nat \<Rightarrow> ('c becon \<Rightarrow> 'c becon) \<Rightarrow> 'c becpool \<Rightarrow> 'c becpool" where
  "becon_change i f p = p\<lparr>bp_list := map (\<lambda>b. if bc_id b = i then f b else b) (bp_list p)\<rparr>"

definition becon_return :: "nat \<Rightarrow> nat \<Rightarrow> 'c becpool \<Rightarrow> 'c becpool" where
  "becon_return now i p = becon_change i (\<lambda>b. b\<lparr>bc_active := False, bc_last := now\<rparr>) p"

definition becon_update :: "nat \<Rightarrow> 'c \<Rightarrow> 'c becpool \<Rightarrow> 'c becpool" where
  "becon_update i con p = becon_change i (\<lambda>b. b\<lparr>bc_con := con\<rparr>) p"

text \<open>\<open>becon_free\<close> locks the connection before it closes it.\<close>

definition becon_rm :: "nat \<Rightarrow> 'c becpool \<Rightarrow> 'c becpool option" where
  "becon_rm i p =
     (if list_ex (\<lambda>b. bc_id b = i \<and> bc_active b) (bp_list p) then None
      else Some (p\<lparr>bp_list := filter (\<lambda>b. bc_id b \<noteq> i) (bp_list p), bp_size := szsub (bp_size p) 1\<rparr>))"

subsection \<open>What the cache returns\<close>

lemma cache_find_app:
  assumes "arg_hash arg = Some h"
  shows "cache_find (c @ [v]) arg = Some (case List.find (\<lambda>v. cv_hash v = h) c of Some w \<Rightarrow> Some w | None \<Rightarrow> if cv_hash v = h then Some v else None)"
proof -
  have "List.find P (c @ [v]) = (case List.find P c of Some w \<Rightarrow> Some w | None \<Rightarrow> if P v then Some v else None)" for P
    by (induction c) auto
  then show ?thesis using assms by (simp add: cache_find_def)
qed

text \<open>A result that is cached for an argument that the cache does not know is returned for that argument until
  its time is over.\<close>

theorem cache_value_hit:
  assumes "cached now cp arg = Some Miss" and "cache_value now cp arg ct r None = Some cp'" and "now + ct < 2 ^ 32" and "t \<le> now + ct"
  shows "cached t cp' arg = Some (Hit r no_blob)"
proof -
  obtain h where h: "arg_hash arg = Some h" using assms(2) by (auto simp: cache_value_def bind_eq_Some_conv)
  define c where "c = (if length cp = MAX_CACHED_VALUES then cache_fifo_rm cp else cp)"
  have n: "List.find (\<lambda>v. cv_hash v = h) cp = None"
    using assms(1) h by (auto simp: cached_def cache_find_def split: option.splits if_splits)
  then have "List.find (\<lambda>v. cv_hash v = h) c = None" by (cases cp) (auto simp: c_def cache_fifo_rm_def split: if_splits)
  moreover have "cp' = c @ [cacheval_new now h ct r]" using assms(2) h by (simp add: cache_value_def c_def Let_def)
  ultimately show ?thesis using cache_find_app [OF h, of c] assms(3,4) by (simp add: cached_def cacheval_new_def no_blob_def)
qed

text \<open>The calls a plugin makes between two look-ups: a result is stored for some argument at some time, or an
  argument is to be removed.\<close>

datatype cache_call = Store nat octet nat spocp_result "octet option" | Remove octet

definition cache_step :: "cache_call \<Rightarrow> cache \<Rightarrow> cache option" where
  "cache_step k cp = (case k of
      Store now arg ct r blob \<Rightarrow> cache_value now cp arg ct r blob
    | Remove arg \<Rightarrow> cached_rm cp arg)"

fun cache_run :: "cache_call list \<Rightarrow> cache \<Rightarrow> cache option" where
  "cache_run [] cp = Some cp"
| "cache_run (k # ks) cp = Option.bind (cache_step k cp) (cache_run ks)"

fun stores :: "cache_call list \<Rightarrow> nat" where
  "stores [] = 0"
| "stores (Store _ _ _ _ _ # ks) = Suc (stores ks)"
| "stores (Remove _ # ks) = stores ks"

lemma cached_rm_same: "cached_rm cp arg = Some cp' \<Longrightarrow> cp' = cp"
  by (auto simp: cached_rm_def cache_del_def bind_eq_Some_conv split: option.splits if_splits)

lemma cache_value_appends:
  assumes "cache_value now cp arg ct r blob = Some cp'" and "length cp < MAX_CACHED_VALUES"
  shows "\<exists>v. cp' = cp @ [v]"
  using assms by (auto simp: cache_value_def bind_eq_Some_conv Let_def)

text \<open>Below the limit a run of calls only appends: one value for every result that is stored.\<close>

lemma cache_run_appends:
  "cache_run ks cp = Some cp' \<Longrightarrow> length cp + stores ks \<le> MAX_CACHED_VALUES \<Longrightarrow> \<exists>vs. cp' = cp @ vs \<and> length vs = stores ks"
proof (induction ks arbitrary: cp rule: stores.induct)
  case (2 now arg ct r blob ks)
  obtain c where c: "cache_value now cp arg ct r blob = Some c" "cache_run ks c = Some cp'"
    using "2.prems"(1) by (auto simp: cache_step_def bind_eq_Some_conv)
  then obtain v where v: "c = cp @ [v]" using cache_value_appends "2.prems"(2) by fastforce
  then obtain vs where "cp' = c @ vs" "length vs = stores ks" using "2.IH" [OF c(2)] "2.prems"(2) by auto
  then show ?case using v by auto
next
  case (3 arg ks)
  then show ?case by (auto simp: cache_step_def bind_eq_Some_conv dest: cached_rm_same)
qed simp

lemma cached_append:
  assumes "cached now cp arg = Some Expired" and "now \<le> t"
  shows "cached t (cp @ vs) arg = Some Expired"
proof -
  obtain h v where h: "arg_hash arg = Some h" "List.find (\<lambda>v. cv_hash v = h) cp = Some v" "cv_timeout v < now"
    using assms(1) by (auto simp: cached_def cache_find_def bind_eq_Some_conv split: option.splits if_splits)
  have "List.find P (cp @ vs) = Some v" if "List.find P cp = Some v" for P using that by (induction cp) (auto split: if_splits)
  then show ?thesis using h assms(2) by (simp add: cached_def cache_find_def)
qed

lemma cached_rm_found: "cached now cp arg = Some Expired \<Longrightarrow> cached_rm cp arg = Some cp"
  by (auto simp: cached_def cached_rm_def cache_find_def bind_eq_Some_conv split: option.splits)

text \<open>C33: Once the time of a cached result is over, the call that is to remove it leaves the cache as it is. Whatever
  results are stored and arguments removed after that, for this argument or for others, every look-up of the argument
  says that the result has expired, and a newer result is not found, until the cache is full: the expired result
  goes only when it is the oldest of \<^verbatim>\<open>MAX_CACHED_VALUES\<close> values and one more is stored.\<close>

theorem cache_expired_stays:
  assumes "cached now cp arg = Some Expired" and "cache_run ks cp = Some cp'" and "length cp + stores ks \<le> MAX_CACHED_VALUES"
    and "now \<le> t"
  shows "cached_rm cp arg = Some cp \<and> cached t cp' arg = Some Expired \<and> cached_rm cp' arg = Some cp'"
proof -
  have "cached t cp' arg = Some Expired" using cache_run_appends [OF assms(2,3)] cached_append [OF assms(1,4)] by auto
  then show ?thesis using cached_rm_found assms(1) by blast
qed

lemma arg_hash_mk: "arg_hash (mk_octet s) = Some (bj_hash s 0)"
  by (simp add: arg_hash_def lhash_def mk_octet_def)

theorem cache_value_hit_witness:
  "\<exists>cp'. cache_value 100 [] (mk_octet ''a'') 60 SPOCP_SUCCESS None = Some cp' \<and> cached 160 cp' (mk_octet ''a'') = Some (Hit SPOCP_SUCCESS no_blob)"
  using cache_value_hit [of 100 "[]" "mk_octet ''a''" 60 SPOCP_SUCCESS _ 160]
  by (simp add: cached_def cache_find_def cache_value_def arg_hash_mk Let_def MAX_CACHED_VALUES_def)

theorem cache_expired_stays_witness:
  "\<exists>cp'. cache_run [Remove (mk_octet ''a''), Store 200 (mk_octet ''a'') 60 SPOCP_SUCCESS None, Remove (mk_octet ''b'')]
      [cacheval_new 100 (bj_hash ''a'' 0) 60 SPOCP_SUCCESS] = Some cp' \<and>
    length cp' = 2 \<and> cached 201 cp' (mk_octet ''a'') = Some Expired \<and> cached_rm cp' (mk_octet ''a'') = Some cp'"
proof -
  let ?cp = "[cacheval_new 100 (bj_hash ''a'' 0) 60 SPOCP_SUCCESS]"
  let ?ks = "[Remove (mk_octet ''a''), Store 200 (mk_octet ''a'') 60 SPOCP_SUCCESS None, Remove (mk_octet ''b'')]"
  have e: "cached 200 ?cp (mk_octet ''a'') = Some Expired" by (simp add: cached_def cache_find_def arg_hash_mk cacheval_new_def)
  have "\<exists>cp'. cache_run ?ks ?cp = Some cp' \<and> length cp' = 2"
    by (cases "bj_hash ''a'' 0 = bj_hash ''b'' 0")
      (simp_all add: cache_step_def cache_value_def cached_rm_def cache_del_def cache_find_def arg_hash_mk cacheval_new_def Let_def MAX_CACHED_VALUES_def)
  then obtain cp' where r: "cache_run ?ks ?cp = Some cp'" "length cp' = 2" by blast
  moreover have "length ?cp + stores ?ks \<le> MAX_CACHED_VALUES" by (simp add: MAX_CACHED_VALUES_def)
  ultimately show ?thesis using cache_expired_stays [OF e r(1), of 201] by auto
qed

subsection \<open>What the pool keeps\<close>

text \<open>The counted size is the number of connections, which is never more than the limit, and each has an
  address of its own.\<close>

definition becpool_ok :: "'c becpool \<Rightarrow> bool" where
  "becpool_ok p \<longleftrightarrow> bp_size p = length (bp_list p) \<and> bp_size p \<le> bp_max p \<and> distinct (map bc_id (bp_list p))"

lemma get_loop_split: "get_loop arg bs = Some (Some (xs, b, ys)) \<Longrightarrow> bs = xs @ b # ys \<and> \<not> bc_active b \<and> octcmp (Some (bc_arg b)) (Some arg) = Some 0"
  by (induction bs arbitrary: xs) (auto simp: bind_eq_Some_conv split: if_splits)

lemma becon_push_ok:
  assumes "becpool_ok p" "new \<notin> bc_id ` set (bp_list p)" "becon_push now new arg con p = Some (r, p')"
  shows "becpool_ok p'"
  using assms by (auto simp: becon_push_def becpool_full_def becpool_ok_def bind_eq_Some_conv split: if_splits)

lemma becon_get_ok:
  assumes "becpool_ok p" "becon_get now arg (Some p) = Some (r, q)"
  shows "\<exists>p'. q = Some p' \<and> becpool_ok p' \<and> bc_id ` set (bp_list p') = bc_id ` set (bp_list p) \<and>
    (\<forall>b. r = Some b \<longrightarrow> b \<in> set (bp_list p') \<and> bc_active b \<and> octcmp (Some (bc_arg b)) (Some arg) = Some 0)"
proof -
  obtain f where f: "get_loop arg (bp_list p) = Some f" using assms(2) by (auto simp: becon_get_def bind_eq_Some_conv)
  show ?thesis
  proof (cases f)
    case None
    then show ?thesis using assms f by (auto simp: becon_get_def)
  next
    case (Some t)
    obtain xs b ys where t: "t = (xs, b, ys)" by (cases t)
    have l: "bp_list p = xs @ b # ys" "octcmp (Some (bc_arg b)) (Some arg) = Some 0" using get_loop_split f Some t by blast+
    define b' where "b' = b\<lparr>bc_active := True, bc_last := now\<rparr>"
    have "r = Some b'" "q = Some (p\<lparr>bp_list := xs @ ys @ [b']\<rparr>)" using assms(2) f Some t by (auto simp: becon_get_def b'_def Let_def)
    moreover have "becpool_ok (p\<lparr>bp_list := xs @ ys @ [b']\<rparr>)" using assms(1) l(1) by (auto simp: becpool_ok_def b'_def)
    ultimately show ?thesis using l by (auto simp: b'_def)
  qed
qed

lemma becon_change_ok: "(\<And>b. bc_id (f b) = bc_id b) \<Longrightarrow> becpool_ok (becon_change i f p) = becpool_ok p"
proof -
  assume "\<And>b. bc_id (f b) = bc_id b"
  then have "map bc_id (map (\<lambda>b. if bc_id b = i then f b else b) (bp_list p)) = map bc_id (bp_list p)" by (induction "bp_list p") auto
  then show ?thesis unfolding becpool_ok_def becon_change_def by (simp del: map_map)
qed

text \<open>A plugin that has taken a connection from its pool cannot remove it: \<open>becon_rm\<close> waits for the lock that the
  connection has been taken with. This is what the plugins do when a file can not be opened again.\<close>

theorem becon_rm_waits:
  assumes "becpool_ok p" and "becon_get now arg (Some p) = Some (Some b, Some p')"
  shows "becon_rm (bc_id b) p' = None"
  using becon_get_ok [OF assms] by (auto simp: becon_rm_def list_ex_iff)

theorem becon_rm_waits_witness:
  "let b = \<lparr>bc_id = 1, bc_con = (), bc_active = False, bc_arg = mk_octet ''f'', bc_last = 0\<rparr>;
       p' = \<lparr>bp_list = [b\<lparr>bc_active := True, bc_last := 5\<rparr>], bp_size = 1, bp_max = 4\<rparr>
   in becon_get 5 (mk_octet ''f'') (Some \<lparr>bp_list = [b], bp_size = 1, bp_max = 4\<rparr>) = Some (Some (b\<lparr>bc_active := True, bc_last := 5\<rparr>), Some p') \<and> becon_rm 1 p' = None"
proof -
  let ?b = "\<lparr>bc_id = 1, bc_con = (), bc_active = False, bc_arg = mk_octet ''f'', bc_last = 0\<rparr>"
  have "octcmp (Some (mk_octet ''f'')) (Some (mk_octet ''f'')) = Some 0" by (simp add: octcmp_def mk_octet_def i32_def)
  then have "becon_get 5 (mk_octet ''f'') (Some \<lparr>bp_list = [?b], bp_size = 1, bp_max = 4\<rparr>) =
      Some (Some (?b\<lparr>bc_active := True, bc_last := 5\<rparr>), Some \<lparr>bp_list = [?b\<lparr>bc_active := True, bc_last := 5\<rparr>], bp_size = 1, bp_max = 4\<rparr>)"
    by (simp add: becon_get_def Let_def)
  moreover have "becpool_ok \<lparr>bp_list = [?b], bp_size = 1, bp_max = 4\<rparr>" by (simp add: becpool_ok_def)
  ultimately show ?thesis using becon_rm_waits by fastforce
qed

end
