(* ===== verification/Backends.thy ===== *)
theory Backends
  imports Bcond Cache
begin

text \<open>
  The tests of some of the plugins in \<^verbatim>\<open>backends\<close>: \<open>strmatch\<close>, \<open>time\<close>, \<open>difftime\<close>, \<open>regexp\<close>, and those that look into a
  file, \<open>ipnum\<close>, \<open>mailmatch\<close>, \<open>flatfile\<close> and \<open>localgroup\<close>. A test gets what the condition has picked from the query
  and the rest of the condition, as \<open>bcond_eval\<close> calls it.

  The clock, the calendar functions of the C library, regular expressions, \<^verbatim>\<open>inet_aton\<close> and the files are
  arguments. A file is its contents, which \<open>fgets_all\<close> cuts into what successive calls of \<^verbatim>\<open>fgets\<close> return.
\<close>

subsection \<open>Strings\<close>

text \<open>\<open>line_split\<close> (\<open>lib/string.c\<close>): an empty piece is a null pointer. An escape character makes the loop step over
  the three characters from it on, which must be there.\<close>

fun ls_scan :: "bytes \<Rightarrow> char \<Rightarrow> char \<Rightarrow> (bytes \<times> bytes option) option" where
  "ls_scan [] c ec = Some ([], None)"
| "ls_scan (x # xs) c ec =
     (if x = ec then
        (case xs of y # z # ys \<Rightarrow> map_option (apfst (\<lambda>p. x # y # z # p)) (ls_scan ys c ec) | _ \<Rightarrow> None)
      else if x = c then Some ([], Some xs)
      else map_option (apfst ((#) x)) (ls_scan xs c ec))"

fun ls_loop :: "nat \<Rightarrow> bytes \<Rightarrow> char \<Rightarrow> char \<Rightarrow> bool \<Rightarrow> bytes option list option" where
  "ls_loop 0 sp c ec flag = Some [Some sp]"
| "ls_loop (Suc k) sp c ec flag = (case ls_scan sp c ec of
      None \<Rightarrow> None
    | Some (_, None) \<Rightarrow> Some [Some sp]
    | Some (p, Some r) \<Rightarrow>
        map_option ((#) (if p = [] then None else Some p)) (ls_loop k (if flag then dropWhile (\<lambda>x. x = c) r else r) c ec flag))"

definition line_split :: "bytes \<Rightarrow> char \<Rightarrow> char \<Rightarrow> bool \<Rightarrow> nat \<Rightarrow> bytes option list option" where
  "line_split s c ec flag mx =
     (let s1 = (if flag then dropWhile (\<lambda>x. x = c) s else s) in
      if flag \<and> s1 = [] then None
      else let s2 = (if flag then rev (dropWhile (\<lambda>x. x = c) (rev s1)) else s1) in
        ls_loop ((if mx = 0 then length (filter (\<lambda>x. x = c) s2) + 1 else mx) - 1) s2 c ec flag)"

text \<open>\<^verbatim>\<open>index\<close>: what precedes the character and what follows it.\<close>

fun cut_at :: "char \<Rightarrow> bytes \<Rightarrow> (bytes \<times> bytes) option" where
  "cut_at c [] = None"
| "cut_at c (x # xs) = (if x = c then Some ([], xs) else map_option (apfst ((#) x)) (cut_at c xs))"

fun strncasecmp0 :: "bytes \<Rightarrow> bytes \<Rightarrow> nat \<Rightarrow> bool option" where
  "strncasecmp0 p q 0 = Some True"
| "strncasecmp0 (x # p) (y # q) (Suc n) =
     (if tolower x \<noteq> tolower y then Some False else if x = NUL then Some True else strncasecmp0 p q n)"
| "strncasecmp0 p q (Suc n) = None"

fun atoi_digits :: "int \<Rightarrow> bytes \<Rightarrow> int" where
  "atoi_digits v [] = v"
| "atoi_digits v (c # cs) = (if DIGIT c then atoi_digits (i32 (v * 10 + digitval c)) cs else v)"

definition atoi :: "bytes \<Rightarrow> int" where
  "atoi s = (case dropWhile (\<lambda>c. c \<in> set '' '' \<or> c \<in> {CHR 0x09, CHR 0x0A, CHR 0x0B, CHR 0x0C, CHR 0x0D}) s of
      [] \<Rightarrow> 0
    | c # cs \<Rightarrow> if c = CHR ''-'' then - atoi_digits 0 cs else if c = CHR ''+'' then atoi_digits 0 cs else atoi_digits 0 (c # cs))"

subsection \<open>Tests without a file\<close>

definition split_args :: "octet \<Rightarrow> char \<Rightarrow> char \<Rightarrow> octarr option" where
  "split_args oct c ec = do { a \<leftarrow> oct_split (Some oct) c ec False 0; a }"

definition strmatch_test :: "'p tester" where
  "strmatch_test p q r x arg =
     (if oct_len arg = 0 then Some (SPOCP_MISSING_ARG, null_octet)
      else do {
        sub \<leftarrow> element_atom_sub arg x;
        case sub of
          None \<Rightarrow> Some (SPOCP_DENIED, null_octet)
        | Some oct \<Rightarrow> do {
            argv \<leftarrow> split_args oct CHR '':'' NUL;
            case oa_arr argv of
              a # b # _ \<Rightarrow> do { c \<leftarrow> octcmp (Some a) (Some b); Some (if c = 0 then SPOCP_SUCCESS else SPOCP_DENIED, null_octet) }
            | _ \<Rightarrow> Some (SPOCP_MISSING_ARG, null_octet) } })"

text \<open>The time of day as \<^verbatim>\<open>ctime_r\<close> writes it, the day of the week, the seconds, and the functions that make
  seconds of a date.\<close>

record clock =
  ck_tod :: bytes
  ck_wday :: int
  ck_time :: int
  ck_mktime :: "bytes \<Rightarrow> int"
  ck_shift :: "bytes \<Rightarrow> int \<Rightarrow> bytes"

definition check_time_of_day :: "clock \<Rightarrow> octet \<Rightarrow> bool \<Rightarrow> spocp_result option" where
  "check_time_of_day ck tod flag =
     (if oct_len tod = 0 then Some SPOCP_SUCCESS
      else do {
        r \<leftarrow> oct2strncmp tod (ck_tod ck) 8;
        Some (if (if flag then r > 0 else r < 0) then SPOCP_DENIED else SPOCP_SUCCESS) })"

definition check_date :: "clock \<Rightarrow> octet \<Rightarrow> bool \<Rightarrow> spocp_result option" where
  "check_date ck date flag =
     (if oct_len date = 0 then Some SPOCP_SUCCESS
      else do {
        ok \<leftarrow> is_date date;
        if ok \<noteq> SPOCP_SUCCESS then Some SPOCP_DENIED
        else do {
          gmt \<leftarrow> to_gmt (ck_shift ck) date null_octet;
          let t = ck_mktime ck (takeWhile (\<lambda>c. c \<noteq> NUL) (oct_val gmt));
          Some (if (if flag then ck_time ck > t else ck_time ck < t) then SPOCP_DENIED else SPOCP_SUCCESS) } })"

text \<open>The days of the week on which the test holds: the loop stops at the end, at a NUL or at the day.\<close>

fun day_loop :: "clock \<Rightarrow> bytes \<Rightarrow> nat \<Rightarrow> bool option" where
  "day_loop ck sp 0 = Some False"
| "day_loop ck [] (Suc n) = None"
| "day_loop ck (c # sp) (Suc n) = (if c = NUL \<or> digitval c = ck_wday ck then Some True else day_loop ck sp n)"

definition check_day :: "clock \<Rightarrow> octet \<Rightarrow> spocp_result option" where
  "check_day ck day =
     (if oct_len day = 0 then Some SPOCP_SUCCESS
      else map_option (\<lambda>ok. if ok then SPOCP_SUCCESS else SPOCP_DENIED) (day_loop ck (oct_val day) (oct_len day)))"

definition and_then :: "spocp_result option \<Rightarrow> spocp_result option \<Rightarrow> spocp_result option" where
  "and_then a b = (case a of Some SPOCP_SUCCESS \<Rightarrow> b | _ \<Rightarrow> a)"

definition time_test :: "clock \<Rightarrow> 'p tester" where
  "time_test ck p q r x arg = do {
     sub \<leftarrow> element_atom_sub arg x;
     case sub of
       None \<Rightarrow> Some (SPOCP_SYNTAXERROR, null_octet)
     | Some oct \<Rightarrow> do {
         argv \<leftarrow> split_args oct CHR '';'' NUL;
         let a = oa_arr argv;
         if 5 < length a then Some (SPOCP_SYNTAXERROR, null_octet)
         else if a = [] then Some (SPOCP_DENIED, null_octet)
         else do {
           res \<leftarrow> and_then (if 5 \<le> length a then check_time_of_day ck (a ! 4) True else Some SPOCP_SUCCESS)
             (and_then (if 4 \<le> length a then check_time_of_day ck (a ! 3) False else Some SPOCP_SUCCESS)
             (and_then (if 3 \<le> length a then check_day ck (a ! 2) else Some SPOCP_SUCCESS)
             (and_then (if 2 \<le> length a then check_date ck (a ! 1) True else Some SPOCP_SUCCESS)
               (check_date ck (a ! 0) False))));
           Some (res, null_octet) } } }"

text \<open>\<open>diff2seconds\<close> takes the colons between hours, minutes and seconds for digits.\<close>

definition diff2seconds :: "octet \<Rightarrow> int option" where
  "diff2seconds arg = do {
     s \<leftarrow> rdn (oct_val arg) 13;
     let d = (\<lambda>i. digitval (s ! i));
     Some ((d 0 * 3650 + d 1 * 365 + d 2 * 300 + d 3 * 30 + d 4 * 10 + d 5) * 86400 +
       d 7 * 36000 + d 8 * 3600 + d 9 * 600 + d 10 * 60 + d 11 * 10 + d 12) }"

definition difftime_signs :: "int \<Rightarrow> int \<Rightarrow> int \<Rightarrow> char \<Rightarrow> char \<Rightarrow> spocp_result" where
  "difftime_signs pt gt sec a b =
     (if a = CHR ''+'' \<and> pt > gt \<and> (b = CHR ''+'' \<and> pt - gt > sec \<or> b = CHR ''-'' \<and> pt - gt < sec) \<or>
         a = CHR ''-'' \<and> pt < gt \<and> (b = CHR ''+'' \<and> gt - pt > sec \<or> b = CHR ''-'' \<and> gt - pt < sec)
      then SPOCP_SUCCESS else SPOCP_DENIED)"

definition difftime_test :: "clock \<Rightarrow> 'p tester" where
  "difftime_test ck p q r x arg = do {
     sub \<leftarrow> element_atom_sub arg x;
     case sub of
       None \<Rightarrow> Some (SPOCP_SYNTAXERROR, null_octet)
     | Some oct \<Rightarrow> do {
         argv \<leftarrow> split_args oct CHR '';'' NUL;
         case oa_arr argv of
           d # g # rest \<Rightarrow>
             if oct_len d \<noteq> 15 then Some (SPOCP_DENIED, null_octet)
             else do {
               sec \<leftarrow> diff2seconds d;
               if 30 < oct_len g then Some (SPOCP_SYNTAXERROR, null_octet)
               else do {
                 (n, tmp) \<leftarrow> oct2strcpy g 30 NUL;
                 if n < 0 then Some (SPOCP_WORKING, null_octet)
                 else do {
                   let gt = ck_mktime ck (takeWhile (\<lambda>c. c \<noteq> NUL) tmp);
                   o3 \<leftarrow> (case rest of [] \<Rightarrow> None | o3 # _ \<Rightarrow> Some o3);
                   a \<leftarrow> rd (oct_val o3) 0;
                   b \<leftarrow> (if a = CHR ''+'' \<and> ck_time ck > gt \<or> a = CHR ''-'' \<and> ck_time ck < gt then rd (oct_val o3) 1 else Some NUL);
                   Some (difftime_signs (ck_time ck) gt sec a b, null_octet) } } }
         | _ \<Rightarrow> Some (SPOCP_DENIED, null_octet) } }"

text \<open>A regular expression, whether case is ignored, and a string: \<open>None\<close> when the expression is wrong. The test
  returns 1 and 0, which are \<open>SPOCP_SUCCESS\<close> and \<open>SPOCP_WORKING\<close>.\<close>

definition regexp_test :: "(bytes \<Rightarrow> bool \<Rightarrow> bytes \<Rightarrow> bool option) \<Rightarrow> 'p tester" where
  "regexp_test regex p q r x arg =
     (if oct_len arg = 0 then Some (SPOCP_MISSING_ARG, null_octet)
      else do {
        sub \<leftarrow> element_atom_sub arg x;
        case sub of
          None \<Rightarrow> Some (SPOCP_SYNTAXERROR, null_octet)
        | Some oct \<Rightarrow> do {
            argv \<leftarrow> split_args oct CHR '';'' NUL;
            case oa_arr argv of
              f # e # s # _ \<Rightarrow> do {
                flags \<leftarrow> oct2strdup (Some f) NUL;
                expr \<leftarrow> oct2strdup (Some e) NUL;
                str \<leftarrow> oct2strdup (Some s) NUL;
                expr \<leftarrow> expr;
                str \<leftarrow> str;
                let cs = (\<lambda>t. takeWhile (\<lambda>c. c \<noteq> NUL) t);
                let icase = (case flags of None \<Rightarrow> False | Some t \<Rightarrow> CHR ''i'' \<in> set (cs t) \<or> CHR ''I'' \<in> set (cs t));
                Some (if regex (cs expr) icase (cs str) = Some True then SPOCP_SUCCESS else SPOCP_WORKING, null_octet) }
            | _ \<Rightarrow> Some (SPOCP_MISSING_ARG, null_octet) } })"

subsection \<open>Tests with a file\<close>

text \<open>\<^verbatim>\<open>fgets\<close> with a buffer of \<open>n\<close> bytes: a line with its end, or the \<open>n - 1\<close> bytes that fit. The tests take what it
  reads for a string, which ends at a NUL.\<close>

definition fgets_text :: "bytes \<Rightarrow> bytes" where
  "fgets_text s = takeWhile (\<lambda>c. c \<noteq> NUL) s"

fun line_cut :: "nat \<Rightarrow> bytes \<Rightarrow> bytes \<times> bytes" where
  "line_cut 0 s = ([], s)"
| "line_cut (Suc n) [] = ([], [])"
| "line_cut (Suc n) (c # s) = (if c = CHR 0x0A then ([c], s) else apfst ((#) c) (line_cut n s))"

lemma line_cut_length: "length (snd (line_cut n s)) \<le> length s"
  by (induction n s rule: line_cut.induct) (auto simp: apfst_def map_prod_def split: prod.splits)

function fgets_all :: "nat \<Rightarrow> bytes \<Rightarrow> bytes list" where
  "fgets_all n s = (if s = [] \<or> n < 2 then []
     else fst (line_cut (n - 1) s) # fgets_all n (snd (line_cut (n - 1) s)))"
  by pat_completeness auto
termination
proof (relation "measure (\<lambda>(n, s). length s)")
  fix n :: nat and s :: bytes
  assume "\<not> (s = [] \<or> n < 2)"
  then obtain k c t where "n - 1 = Suc k" "s = c # t"
    by (cases s; cases "n - 1") auto
  then show "((n, snd (line_cut (n - 1) s)), n, s) \<in> measure (\<lambda>(n, s). length s)"
    using line_cut_length [of k t] by (auto simp: apfst_def map_prod_def split: prod.splits)
qed auto

declare fgets_all.simps [simp del]

record pdyn =
  pd_cv :: cache
  pd_ct :: "cachetime list"
  pd_bcp :: "bytes becpool option"
  pd_size :: nat

text \<open>What the tests take from the system: the time, what the files hold, whether a file of the pool can be read
  again from its start, and the next address of an allocation.\<close>

record system =
  sy_now :: nat
  sy_open :: "bytes \<Rightarrow> bytes option"
  sy_seek :: bool
  sy_new :: nat

text \<open>Opening a file through the pool. The result has the file, \<open>None\<close> when it is not available, and the
  connection. A connection that can not be opened again is removed.\<close>

definition open_file :: "system \<Rightarrow> octet \<Rightarrow> bytes \<Rightarrow> pdyn option \<Rightarrow> (bytes option \<times> nat option \<times> pdyn option) option" where
  "open_file sy name fname dyn = do {
     (bc, dyn1) \<leftarrow> (case dyn of
         None \<Rightarrow> Some (None, None)
       | Some d \<Rightarrow> do { (bc, p) \<leftarrow> becon_get (sy_now sy) name (pd_bcp d); Some (bc, Some (d\<lparr>pd_bcp := p\<rparr>)) });
     case bc of
       None \<Rightarrow> (case sy_open sy fname of
           None \<Rightarrow> Some (None, None, dyn1)
         | Some fp \<Rightarrow> (case dyn1 of
             None \<Rightarrow> Some (Some fp, None, None)
           | Some d \<Rightarrow>
               if pd_size d = 0 then Some (Some fp, None, Some d)
               else do {
                 (i, p) \<leftarrow> becon_push (sy_now sy) (sy_new sy) name fp (case pd_bcp d of None \<Rightarrow> becpool_new (pd_size d) | Some p \<Rightarrow> p);
                 Some (Some fp, i, Some (d\<lparr>pd_bcp := Some p\<rparr>)) }))
     | Some b \<Rightarrow>
         if sy_seek sy then Some (Some (bc_con b), Some (bc_id b), dyn1)
         else do {
           d \<leftarrow> dyn1;
           p \<leftarrow> pd_bcp d;
           case sy_open sy fname of
             None \<Rightarrow> do { p' \<leftarrow> becon_rm (bc_id b) p; Some (None, None, Some (d\<lparr>pd_bcp := Some p'\<rparr>)) }
           | Some fp \<Rightarrow> Some (Some fp, Some (bc_id b), Some (d\<lparr>pd_bcp := Some (becon_update (bc_id b) fp p)\<rparr>)) } }"

definition close_file :: "system \<Rightarrow> nat option \<Rightarrow> pdyn option \<Rightarrow> pdyn option" where
  "close_file sy bc dyn = (case (bc, dyn) of
      (Some i, Some d) \<Rightarrow> Some (d\<lparr>pd_bcp := map_option (becon_return (sy_now sy) i) (pd_bcp d)\<rparr>)
    | _ \<Rightarrow> dyn)"

text \<open>The end of the tests: the result goes to the cache.\<close>

definition keep_result :: "system \<Rightarrow> octet \<Rightarrow> spocp_result \<Rightarrow> pdyn option \<Rightarrow> pdyn option option" where
  "keep_result sy oct r dyn = (case dyn of
      None \<Rightarrow> Some None
    | Some d \<Rightarrow>
        if pd_ct d \<noteq> [] \<and> (r = SPOCP_SUCCESS \<or> r = SPOCP_DENIED) then do {
          t \<leftarrow> cachetime_set oct (pd_ct d);
          c \<leftarrow> cache_value (sy_now sy) (pd_cv d) oct (nat (t mod 2 ^ 32)) r None;
          Some (Some (d\<lparr>pd_cv := c\<rparr>)) }
        else Some dyn)"

definition cstring :: "octet \<Rightarrow> bytes option" where
  "cstring o1 = do { s \<leftarrow> oct2strdup (Some o1) NUL; s \<leftarrow> s; Some (takeWhile (\<lambda>c. c \<noteq> NUL) s) }"

text \<open>The common frame of the tests. \<open>name\<close> gives the name of the file from the arguments and \<open>body\<close> looks into the
  file. With a cached result nothing else is done.\<close>

definition file_test :: "char \<Rightarrow> (octarr \<Rightarrow> (octet \<times> bytes) option) \<Rightarrow> (octarr \<Rightarrow> bytes option \<Rightarrow> spocp_result option) \<Rightarrow>
    system \<Rightarrow> pdyn option \<Rightarrow> xlist \<Rightarrow> octet \<Rightarrow> (spocp_result \<times> octet \<times> pdyn option) option" where
  "file_test ec name body sy dyn x arg = do {
     sub \<leftarrow> element_atom_sub arg x;
     case sub of
       None \<Rightarrow> Some (SPOCP_SYNTAXERROR, null_octet, dyn)
     | Some oct \<Rightarrow> do {
         h \<leftarrow> (case dyn of None \<Rightarrow> Some Miss | Some d \<Rightarrow> cached (sy_now sy) (pd_cv d) oct);
         case h of
           Hit r b \<Rightarrow> Some (r, if r = SPOCP_SUCCESS \<and> oct_len b \<noteq> 0 then b else null_octet, dyn)
         | _ \<Rightarrow> do {
             dyn1 \<leftarrow> (case dyn of
                 Some d \<Rightarrow> if h = Expired then do { c \<leftarrow> cached_rm (pd_cv d) oct; Some (Some (d\<lparr>pd_cv := c\<rparr>)) } else Some dyn
               | None \<Rightarrow> Some None);
             argv \<leftarrow> split_args oct CHR '':'' ec;
             (o1, fname) \<leftarrow> name argv;
             (fp, bc, dyn2) \<leftarrow> open_file sy o1 fname dyn1;
             r \<leftarrow> body argv fp;
             dyn3 \<leftarrow> keep_result sy oct r (close_file sy bc dyn2);
             Some (r, null_octet, dyn3) } } }"

definition first_arg :: "octarr \<Rightarrow> (octet \<times> bytes) option" where
  "first_arg argv = (case oa_arr argv of [] \<Rightarrow> None | a # _ \<Rightarrow> map_option (Pair a) (cstring a))"

text \<open>The common part of the loops over the lines: \<open>act\<close> says what becomes of the result with a line, \<open>None\<close> for
  a fault, and the loop ends when the result is not \<open>SPOCP_DENIED\<close> any more.\<close>

fun line_loop :: "(bytes \<Rightarrow> spocp_result option) \<Rightarrow> bytes list \<Rightarrow> spocp_result option" where
  "line_loop act [] = Some SPOCP_DENIED"
| "line_loop act (l # ls) = (case act l of
      Some SPOCP_DENIED \<Rightarrow> line_loop act ls
    | r \<Rightarrow> r)"

text \<open>\<open>ipnumcmp\<close>: \<open>aton\<close> gives the number of an address. An address that does not fit the local buffer leaves it
  unset. The code shifts by the length of the network part.\<close>

definition ipnumcmp :: "(bytes \<Rightarrow> nat option) \<Rightarrow> octet \<Rightarrow> bytes \<Rightarrow> int option" where
  "ipnumcmp aton ipnum ipser = do {
     (n, h1) \<leftarrow> oct2strcpy ipnum 16 NUL;
     if n < 0 then None
     else Some (case aton (takeWhile (\<lambda>c. c \<noteq> NUL) h1) of
         None \<Rightarrow> - 1
       | Some ia1 \<Rightarrow>
           if 18 \<le> length ipser then - 1
           else (case aton (case cut_at CHR ''/'' ipser of None \<Rightarrow> ipser | Some (h2, _) \<Rightarrow> h2) of
               None \<Rightarrow> - 1
             | Some ia2 \<Rightarrow> (case cut_at CHR ''/'' ipser of
                   None \<Rightarrow> if ia1 = ia2 then 0 else 1
                 | Some (_, np) \<Rightarrow>
                     let netpart = atoi np in
                     if netpart > 31 \<or> netpart < 0 then 1
                     else if drop_bit (nat netpart) ia1 = drop_bit (nat netpart) ia2 then 0 else 1))) }"

fun ip_loop :: "(bytes \<Rightarrow> nat option) \<Rightarrow> octet \<Rightarrow> bytes option list \<Rightarrow> bool option" where
  "ip_loop aton ipnum [] = Some False"
| "ip_loop aton ipnum (a # arr) = do {
     a \<leftarrow> a;
     sp \<leftarrow> rmlt a;
     c \<leftarrow> ipnumcmp aton ipnum sp;
     if c = 0 then Some True else ip_loop aton ipnum arr }"

definition ipnum_line :: "(bytes \<Rightarrow> nat option) \<Rightarrow> octet list \<Rightarrow> bytes \<Rightarrow> spocp_result option" where
  "ipnum_line aton argv line =
     (if take 1 line = ''#'' then Some SPOCP_DENIED
      else case cut_at CHR '':'' line of
        None \<Rightarrow> Some SPOCP_DENIED
      | Some (key, rest) \<Rightarrow> do {
          let cp = rmcrlf rest;
          c \<leftarrow> oct2strcmp (Some (argv ! 1)) (Some key);
          if c \<noteq> 0 then Some SPOCP_DENIED
          else if cp = [] \<or> length argv = 2 then Some SPOCP_SUCCESS
          else do {
            b \<leftarrow> (if length argv = 3 then rd (oct_val (argv ! 2)) 0 else Some CHR ''x'');
            if b = NUL then Some SPOCP_SUCCESS
            else do {
              arr \<leftarrow> line_split cp CHR '','' CHR 0x5C False 0;
              hit \<leftarrow> ip_loop aton (argv ! 2) arr;
              Some (if hit then SPOCP_SUCCESS else SPOCP_DENIED) } } })"

definition ipnum_body :: "(bytes \<Rightarrow> nat option) \<Rightarrow> octarr \<Rightarrow> bytes option \<Rightarrow> spocp_result option" where
  "ipnum_body aton argv fp = (case fp of
      None \<Rightarrow> Some SPOCP_UNAVAILABLE
    | Some s \<Rightarrow> if 2 \<le> length (oa_arr argv) then line_loop (ipnum_line aton (oa_arr argv)) (map fgets_text (fgets_all 256 s))
        else Some SPOCP_DENIED)"

definition ipnum_test :: "(bytes \<Rightarrow> nat option) \<Rightarrow> system \<Rightarrow> pdyn option \<Rightarrow> xlist \<Rightarrow> octet \<Rightarrow> (spocp_result \<times> octet \<times> pdyn option) option" where
  "ipnum_test aton sy dyn x arg =
     (if oct_len arg = 0 then Some (SPOCP_MISSING_ARG, null_octet, dyn)
      else file_test CHR 0x5C first_arg (ipnum_body aton) sy dyn x arg)"

text \<open>\<open>mailmatch\<close>: the line without its end must be the end of the address, and shorter than it.\<close>

definition addrmatch_line :: "octet \<Rightarrow> bytes \<Rightarrow> spocp_result option" where
  "addrmatch_line o1 l =
     (if take 1 l = ''#'' then Some SPOCP_DENIED
      else let line = rmcrlf l in
        if oct_len o1 \<le> length line then Some SPOCP_DENIED
        else map_option (\<lambda>b. if b then SPOCP_SUCCESS else SPOCP_DENIED)
          (strncasecmp0 (drop (oct_len o1 - length line) (oct_val o1)) line (length line)))"

definition addrmatch_body :: "octarr \<Rightarrow> bytes option \<Rightarrow> spocp_result option" where
  "addrmatch_body argv fp = (case fp of
      None \<Rightarrow> Some SPOCP_UNAVAILABLE
    | Some s \<Rightarrow> (case oa_arr argv of
        _ # o1 # _ \<Rightarrow> line_loop (addrmatch_line o1) (map fgets_text (fgets_all 512 s))
      | _ \<Rightarrow> Some SPOCP_DENIED))"

definition addrmatch_test :: "system \<Rightarrow> pdyn option \<Rightarrow> xlist \<Rightarrow> octet \<Rightarrow> (spocp_result \<times> octet \<times> pdyn option) option" where
  "addrmatch_test sy dyn x arg =
     (if oct_len arg = 0 then Some (SPOCP_MISSING_ARG, null_octet, dyn)
      else file_test CHR 0x5C first_arg addrmatch_body sy dyn x arg)"

text \<open>\<open>flatfile\<close>: up to 4095 bytes are read into a buffer of 256.\<close>

fun in_values :: "octet list \<Rightarrow> bytes \<Rightarrow> bool option" where
  "in_values [] sp = Some False"
| "in_values (a # as) sp = do { c \<leftarrow> oct2strcmp (Some a) (Some sp); if c = 0 then Some True else in_values as sp }"

fun value_loop :: "octet list \<Rightarrow> bytes option list \<Rightarrow> bool option" where
  "value_loop as [] = Some False"
| "value_loop as (a # arr) = do {
     a \<leftarrow> a;
     sp \<leftarrow> rmlt a;
     hit \<leftarrow> in_values as sp;
     if hit then Some True else value_loop as arr }"

definition flatfile_line :: "octet list \<Rightarrow> bytes \<Rightarrow> spocp_result option" where
  "flatfile_line argv l =
     (if take 1 l = ''#'' then Some SPOCP_DENIED
      else do {
        let line = rmcrlf l;
        c \<leftarrow> oct2strcmp (Some (argv ! 1)) (Some (case cut_at CHR '':'' line of None \<Rightarrow> line | Some (key, _) \<Rightarrow> key));
        if c \<noteq> 0 then Some SPOCP_DENIED
        else if length argv = 2 then Some SPOCP_SUCCESS
        else case cut_at CHR '':'' line of
          None \<Rightarrow> Some SPOCP_DENIED
        | Some (_, cp) \<Rightarrow> do {
            arr \<leftarrow> line_split cp CHR '','' CHR 0x5C False 0;
            hit \<leftarrow> value_loop (drop 2 argv) arr;
            Some (if hit then SPOCP_SUCCESS else SPOCP_DENIED) } })"

definition flatfile_body :: "octarr \<Rightarrow> bytes option \<Rightarrow> spocp_result option" where
  "flatfile_body argv fp = (case fp of
      None \<Rightarrow> Some SPOCP_UNAVAILABLE
    | Some s \<Rightarrow> if length (oa_arr argv) = 1 then Some SPOCP_SUCCESS
        else line_loop (\<lambda>l. if 256 \<le> length l then None else flatfile_line (oa_arr argv) (fgets_text l)) (fgets_all 4096 s))"

definition flatfile_test :: "system \<Rightarrow> pdyn option \<Rightarrow> xlist \<Rightarrow> octet \<Rightarrow> (spocp_result \<times> octet \<times> pdyn option) option" where
  "flatfile_test = file_test NUL first_arg flatfile_body"

text \<open>\<open>localgroup\<close>: the line of the group decides.\<close>

fun member_loop :: "octet \<Rightarrow> bytes option list \<Rightarrow> bool option" where
  "member_loop m [] = Some False"
| "member_loop m (p # ps) = do { c \<leftarrow> oct2strcmp (Some m) p; if c = 0 then Some True else member_loop m ps }"

definition ismember :: "octet \<Rightarrow> bytes \<Rightarrow> bool option" where
  "ismember m grp = (if grp = [] then Some False else do { p \<leftarrow> line_split grp CHR '','' NUL False 0; member_loop m p })"

fun group_loop :: "octet \<Rightarrow> octet \<Rightarrow> bytes list \<Rightarrow> spocp_result option" where
  "group_loop grp user [] = Some SPOCP_DENIED"
| "group_loop grp user (l # ls) = (case cut_at CHR '':'' (rmcrlf l) of
      None \<Rightarrow> group_loop grp user ls
    | Some (name, cp) \<Rightarrow> do {
        c \<leftarrow> oct2strcmp (Some grp) (Some name);
        if c \<noteq> 0 then group_loop grp user ls
        else case cut_at CHR '':'' cp of
          None \<Rightarrow> group_loop grp user ls
        | Some (_, cp) \<Rightarrow> (case cut_at CHR '':'' cp of
            None \<Rightarrow> group_loop grp user ls
          | Some (_, cp) \<Rightarrow> do { m \<leftarrow> ismember user cp; Some (if m then SPOCP_SUCCESS else SPOCP_DENIED) }) })"

definition localgroup_body :: "octarr \<Rightarrow> bytes option \<Rightarrow> spocp_result option" where
  "localgroup_body argv fp = (case oa_arr argv of
      grp # user # _ \<Rightarrow> (case fp of
          None \<Rightarrow> Some SPOCP_UNAVAILABLE
        | Some s \<Rightarrow> group_loop grp user (map fgets_text (fgets_all 8192 s)))
    | _ \<Rightarrow> None)"

definition group_file :: "octarr \<Rightarrow> (octet \<times> bytes) option" where
  "group_file argv = do {
     fn \<leftarrow> (if length (oa_arr argv) = 3 then cstring (oa_arr argv ! 2) else Some ''/etc/group'');
     Some (oct_assign fn, fn) }"

definition localgroup_test :: "system \<Rightarrow> pdyn option \<Rightarrow> xlist \<Rightarrow> octet \<Rightarrow> (spocp_result \<times> octet \<times> pdyn option) option" where
  "localgroup_test = file_test NUL group_file localgroup_body"

subsection \<open>Networks\<close>

lemma cut_at_append: "c \<notin> set p \<Longrightarrow> cut_at c (p @ c # q) = Some (p, q)"
  by (induction p) auto

lemma cut_at_none: "c \<notin> set p \<Longrightarrow> cut_at c p = None"
  by (induction p) auto

lemma fgets_text_id: "NUL \<notin> set s \<Longrightarrow> fgets_text s = s"
  by (auto simp: fgets_text_def takeWhile_eq_all_conv)

lemma oct2strcpy_text:
  assumes "s \<noteq> []" "NUL \<notin> set s" "length s < n"
  shows "oct2strcpy (view s x sz) n NUL = Some (int (length s), s @ [NUL])"
  using assms by (simp add: oct2strcpy_def)

text \<open>C31: \<open>ipnumcmp\<close> drops as many of the low bits of the two addresses as the network part is long and compares
  the rest, where the length of the network part means the number of high bits that count.\<close>

theorem ipnumcmp_drops_network_bits:
  assumes "addr \<noteq> []" "NUL \<notin> set addr" "length addr < 16" and "CHR ''/'' \<notin> set net" "length (net @ ''/'' @ bits) < 18"
    and "aton addr = Some a" "aton net = Some b" and "atoi bits = int n" "n < 32"
  shows "ipnumcmp aton (view addr x sz) (net @ ''/'' @ bits) = Some (if a div 2 ^ n = b div 2 ^ n then 0 else 1)"
proof -
  have "takeWhile (\<lambda>c. c \<noteq> NUL) (addr @ [NUL]) = addr" using assms(2) by (subst takeWhile_append2) auto
  then show ?thesis
    using oct2strcpy_text [OF assms(1,2,3), of x sz] cut_at_append [OF assms(4), of bits] assms(5-)
    by (simp add: ipnumcmp_def drop_bit_nat_eq drop_bit_eq_div)
qed

text \<open>With a prefix of 24 bits the address 10.200.30.40 is taken to be in the network 10.1.2.0: only the first
  number of the addresses is compared.\<close>

theorem ipnumcmp_drops_network_bits_witness:
  "ipnumcmp (\<lambda>s. if s = ''10.200.30.40'' then Some 0x0AC81E28 else if s = ''10.1.2.0'' then Some 0x0A010200 else None)
     (view ''10.200.30.40'' [NUL] 0) ''10.1.2.0/24'' = Some 0"
proof -
  have "atoi ''24'' = int 24" by code_simp
  then show ?thesis
    using ipnumcmp_drops_network_bits [where addr = "''10.200.30.40''" and net = "''10.1.2.0''" and bits = "''24''" and n = 24 and x = "[NUL]" and sz = 0
      and aton = "\<lambda>s. if s = ''10.200.30.40'' then Some 0x0AC81E28 else if s = ''10.1.2.0'' then Some 0x0A010200 else None"] by simp
qed

subsection \<open>Addresses\<close>

lemma strncasecmp0_same:
  "\<lbrakk>length p = length q; NUL \<notin> set p; NUL \<notin> set q\<rbrakk> \<Longrightarrow> strncasecmp0 (p @ x) q (length q) = Some (map tolower p = map tolower q)"
  by (induction p q rule: list_induct2) auto

lemma rmcrlf_prefix: "\<exists>t. s = rmcrlf s @ t"
proof -
  have "rev (rev s) = rev (dropWhile (\<lambda>c. c = CHR 0x0D \<or> c = CHR 0x0A) (rev s)) @ rev (takeWhile (\<lambda>c. c = CHR 0x0D \<or> c = CHR 0x0A) (rev s))"
    by (metis rev_append takeWhile_dropWhile_id)
  then show ?thesis by (auto simp: rmcrlf_def)
qed

text \<open>The rule of the file: a line that is no comment grants the addresses it is a proper end of.\<close>

definition grants_address :: "bytes \<Rightarrow> bytes \<Rightarrow> bool" where
  "grants_address l a \<longleftrightarrow> take 1 l \<noteq> ''#'' \<and> length (rmcrlf l) < length a \<and>
     map tolower (drop (length a - length (rmcrlf l)) a) = map tolower (rmcrlf l)"

lemma addrmatch_line_spec:
  assumes "NUL \<notin> set a" "NUL \<notin> set l"
  shows "addrmatch_line (view a x sz) l = Some (if grants_address l a then SPOCP_SUCCESS else SPOCP_DENIED)"
proof -
  have n: "NUL \<notin> set (rmcrlf l)" using assms(2) rmcrlf_prefix [of l] by (metis Un_iff set_append)
  have d: "NUL \<notin> set (drop k a)" for k using assms(1) by (meson in_set_dropD)
  show ?thesis
  proof (cases "length (rmcrlf l) < length a")
    case True
    then show ?thesis using strncasecmp0_same [OF _ d n, of "length a - length (rmcrlf l)" x]
      by (auto simp: addrmatch_line_def grants_address_def Let_def)
  qed (auto simp: addrmatch_line_def grants_address_def)
qed

lemma line_loop_spec:
  "(\<And>l. l \<in> set ls \<Longrightarrow> act l = Some (if P l then SPOCP_SUCCESS else SPOCP_DENIED)) \<Longrightarrow>
   line_loop act ls = Some (if \<exists>l \<in> set ls. P l then SPOCP_SUCCESS else SPOCP_DENIED)"
  by (induction ls) auto

text \<open>C32: The test \<open>mailmatch\<close> succeeds exactly when a line of the file that is no comment is, without its end and
  regardless of case, the end of the address and shorter than it. So an address that is written out in the file is not
  granted, and a blank line grants every address.\<close>

theorem addrmatch_suffix:
  assumes "oa_arr argv = [name, view a x sz]" "NUL \<notin> set a"
  shows "addrmatch_body argv (Some s) =
    Some (if \<exists>l \<in> set (map fgets_text (fgets_all 512 s)). grants_address l a then SPOCP_SUCCESS else SPOCP_DENIED)"
proof -
  have "NUL \<notin> set (fgets_text t)" for t by (auto simp: fgets_text_def dest: set_takeWhileD)
  then have "line_loop (addrmatch_line (view a x sz)) (map fgets_text (fgets_all 512 s)) =
      Some (if \<exists>l \<in> set (map fgets_text (fgets_all 512 s)). grants_address l a then SPOCP_SUCCESS else SPOCP_DENIED)"
    using assms(2) by (intro line_loop_spec addrmatch_line_spec) auto
  then show ?thesis using assms(1) by (simp add: addrmatch_body_def)
qed

theorem addrmatch_suffix_witness:
  "addrmatch_body \<lparr>oa_arr = [mk_octet ''f'', view ''leif@it.su.se'' [NUL] 0], oa_size = 2\<rparr> (Some ''leif@it.su.se'') = Some SPOCP_DENIED \<and>
   addrmatch_body \<lparr>oa_arr = [mk_octet ''f'', view ''leif@it.su.se'' [NUL] 0], oa_size = 2\<rparr> (Some [CHR 0x0A]) = Some SPOCP_SUCCESS"
proof -
  have f: "map fgets_text (fgets_all 512 ''leif@it.su.se'') = [''leif@it.su.se'']" "map fgets_text (fgets_all 512 [CHR 0x0A]) = [[CHR 0x0A]]"
    by code_simp+
  have g: "\<not> grants_address ''leif@it.su.se'' ''leif@it.su.se''" "grants_address [CHR 0x0A] ''leif@it.su.se''"
    by code_simp+
  show ?thesis
    using addrmatch_suffix [of "\<lparr>oa_arr = [mk_octet ''f'', view ''leif@it.su.se'' [NUL] 0], oa_size = 2\<rparr>" "mk_octet ''f''" "''leif@it.su.se''" "[NUL]" 0 "''leif@it.su.se''"]
      addrmatch_suffix [of "\<lparr>oa_arr = [mk_octet ''f'', view ''leif@it.su.se'' [NUL] 0], oa_size = 2\<rparr>" "mk_octet ''f''" "''leif@it.su.se''" "[NUL]" 0 "[CHR 0x0A]"]
    unfolding f using g by simp
qed

subsection \<open>Groups\<close>

text \<open>The lines of a group file: name, password, number and members.\<close>

type_synonym group_entry = "bytes \<times> bytes \<times> bytes \<times> bytes list"

fun comma_join :: "bytes list \<Rightarrow> bytes" where
  "comma_join [] = []"
| "comma_join [m] = m"
| "comma_join (m # m' # ms) = m @ '','' @ comma_join (m' # ms)"

definition group_text :: "group_entry \<Rightarrow> bytes" where
  "group_text g = (case g of (n, p, i, ms) \<Rightarrow> n @ '':'' @ p @ '':'' @ i @ '':'' @ comma_join ms)"

definition group_lines :: "group_entry list \<Rightarrow> bytes" where
  "group_lines gs = concat (map (\<lambda>g. group_text g @ [CHR 0x0A]) gs)"

definition plain_field :: "bytes \<Rightarrow> bool" where
  "plain_field s \<longleftrightarrow> set s \<inter> {CHR '':'', CHR '','', CHR 0x0A, CHR 0x0D, NUL} = {}"

definition group_ok :: "group_entry \<Rightarrow> bool" where
  "group_ok g \<longleftrightarrow> (case g of (n, p, i, ms) \<Rightarrow> n \<noteq> [] \<and> plain_field n \<and> plain_field p \<and> plain_field i \<and>
     (\<forall>m \<in> set ms. m \<noteq> [] \<and> plain_field m)) \<and> length (group_text g) < 8191"

text \<open>What the group decides about a user: the first entry with the name counts.\<close>

definition group_verdict :: "group_entry list \<Rightarrow> bytes \<Rightarrow> bytes \<Rightarrow> spocp_result" where
  "group_verdict gs grp user = (case find (\<lambda>g. fst g = grp) gs of
      Some (_, _, _, ms) \<Rightarrow> if user \<in> set ms then SPOCP_SUCCESS else SPOCP_DENIED
    | None \<Rightarrow> SPOCP_DENIED)"

lemma set_comma_join: "set (comma_join ms) \<subseteq> (\<Union>m \<in> set ms. set m) \<union> {CHR '',''}"
  by (induction ms rule: comma_join.induct) auto

lemma group_text_no_end: "group_ok g \<Longrightarrow> set (group_text g) \<inter> {CHR 0x0A, CHR 0x0D, NUL} = {}"
  using set_comma_join by (fastforce simp: group_ok_def group_text_def plain_field_def split: prod.splits)

lemma line_cut_line: "\<lbrakk>CHR 0x0A \<notin> set t; length t < n\<rbrakk> \<Longrightarrow> line_cut n (t @ CHR 0x0A # r) = (t @ [CHR 0x0A], r)"
proof (induction t arbitrary: n)
  case Nil
  then show ?case by (cases n) auto
next
  case (Cons c t)
  then show ?case by (cases n) auto
qed

lemma fgets_group_lines:
  "list_all group_ok gs \<Longrightarrow> map fgets_text (fgets_all 8192 (group_lines gs)) = map (\<lambda>g. group_text g @ [CHR 0x0A]) gs"
proof (induction gs)
  case Nil
  then show ?case by (simp add: group_lines_def fgets_all.simps)
next
  case (Cons g gs)
  have g: "set (group_text g) \<inter> {CHR 0x0A, CHR 0x0D, NUL} = {}" "length (group_text g) < 8191"
    using Cons.prems group_text_no_end [of g] by (auto simp: group_ok_def)
  then have "line_cut 8191 (group_text g @ CHR 0x0A # group_lines gs) = (group_text g @ [CHR 0x0A], group_lines gs)"
    by (intro line_cut_line) auto
  moreover have "fgets_text (group_text g @ [CHR 0x0A]) = group_text g @ [CHR 0x0A]" using g(1) by (intro fgets_text_id) auto
  ultimately show ?case using Cons by (subst fgets_all.simps) (simp add: group_lines_def)
qed

lemma rmcrlf_line: "set t \<inter> {CHR 0x0A, CHR 0x0D, NUL} = {} \<Longrightarrow> rmcrlf (t @ [CHR 0x0A]) = t"
proof -
  assume "set t \<inter> {CHR 0x0A, CHR 0x0D, NUL} = {}"
  then have "dropWhile (\<lambda>c. c = CHR 0x0D \<or> c = CHR 0x0A) (rev t) = rev t" by (cases "rev t") (auto simp: rev_eq_Cons_iff)
  then show ?thesis by (simp add: rmcrlf_def)
qed

lemma ls_scan_end: "\<lbrakk>c \<notin> set s; NUL \<notin> set s\<rbrakk> \<Longrightarrow> ls_scan s c NUL = Some (s, None)"
  by (induction s) auto

lemma ls_scan_sep: "\<lbrakk>c \<notin> set s; NUL \<notin> set s; c \<noteq> NUL\<rbrakk> \<Longrightarrow> ls_scan (s @ c # r) c NUL = Some (s, Some r)"
  by (induction s) auto

lemma ls_loop_join:
  "\<lbrakk>ms \<noteq> []; \<forall>m \<in> set ms. m \<noteq> [] \<and> plain_field m\<rbrakk> \<Longrightarrow> ls_loop (length ms - 1) (comma_join ms) CHR '','' NUL False = Some (map Some ms)"
proof (induction ms rule: comma_join.induct)
  case (3 m m' ms)
  then have "ls_scan (m @ CHR '','' # comma_join (m' # ms)) CHR '','' NUL = Some (m, Some (comma_join (m' # ms)))"
    by (intro ls_scan_sep) (auto simp: plain_field_def)
  then show ?case using 3 by simp
qed auto

lemma count_commas:
  "\<lbrakk>ms \<noteq> []; \<forall>m \<in> set ms. plain_field m\<rbrakk> \<Longrightarrow> length (filter (\<lambda>x. x = CHR '','') (comma_join ms)) = length ms - 1"
proof (induction ms rule: comma_join.induct)
  case (3 m m' ms)
  then have "filter (\<lambda>x. x = CHR '','') m = []" by (auto simp: plain_field_def filter_empty_conv)
  then show ?case using 3 by simp
qed (auto simp: plain_field_def filter_empty_conv)

lemma member_loop_spec:
  "\<lbrakk>wf_octet m; [] \<notin> set ps\<rbrakk> \<Longrightarrow> member_loop m (map Some ps) = Some (content m \<in> set ps)"
proof (induction ps)
  case (Cons p ps)
  then show ?case using oct2strcmp_reversed [of m p] by auto
qed auto

lemma ismember_spec:
  assumes "wf_octet m" "\<forall>m \<in> set ms. m \<noteq> [] \<and> plain_field m"
  shows "ismember m (comma_join ms) = Some (content m \<in> set ms)"
proof (cases "ms = []")
  case False
  then have "comma_join ms \<noteq> []" using assms(2) by (cases ms rule: comma_join.cases) auto
  moreover have "line_split (comma_join ms) CHR '','' NUL False 0 = Some (map Some ms)"
    using ls_loop_join [OF False assms(2)] count_commas [OF False] assms(2) by (simp add: line_split_def)
  ultimately show ?thesis using member_loop_spec [OF assms(1), of ms] assms(2) by (auto simp: ismember_def)
qed (simp add: ismember_def)

lemma group_loop_spec:
  assumes "wf_octet grp" "wf_octet user"
  shows "list_all group_ok gs \<Longrightarrow>
    group_loop grp user (map (\<lambda>g. group_text g @ [CHR 0x0A]) gs) = Some (group_verdict gs (content grp) (content user))"
proof (induction gs)
  case (Cons g gs)
  obtain n p i ms where g: "g = (n, p, i, ms)" by (cases g)
  have ok: "n \<noteq> []" "plain_field n" "plain_field p" "plain_field i" "\<forall>m \<in> set ms. m \<noteq> [] \<and> plain_field m"
    using Cons.prems by (auto simp: g group_ok_def)
  have r: "rmcrlf (group_text g @ [CHR 0x0A]) = group_text g" using rmcrlf_line [OF group_text_no_end] Cons.prems by simp
  have c: "cut_at CHR '':'' (group_text g) = Some (n, p @ CHR '':'' # i @ CHR '':'' # comma_join ms)"
    "cut_at CHR '':'' (p @ CHR '':'' # i @ CHR '':'' # comma_join ms) = Some (p, i @ CHR '':'' # comma_join ms)"
    "cut_at CHR '':'' (i @ CHR '':'' # comma_join ms) = Some (i, comma_join ms)"
    using ok cut_at_append [of "CHR '':''"] by (auto simp: g group_text_def plain_field_def)
  obtain z where z: "oct2strcmp (Some grp) (Some n) = Some z" "z = 0 \<longleftrightarrow> n = content grp"
    using oct2strcmp_reversed [OF assms(1) ok(1)] by blast
  show ?case using Cons z ismember_spec [OF assms(2) ok(5)] by (auto simp: r [unfolded g] c [unfolded g] group_verdict_def g)
qed (simp add: group_verdict_def)

lemma localgroup_body_spec:
  assumes "list_all group_ok gs" "oa_arr argv = grp # user # os" "wf_octet grp" "wf_octet user"
  shows "localgroup_body argv (Some (group_lines gs)) = Some (group_verdict gs (content grp) (content user))"
  using assms by (simp add: localgroup_body_def fgets_group_lines group_loop_spec)

text \<open>C11: On a group file the test \<open>localgroup\<close> decides by the first entry with the name of the group: it succeeds
  exactly when the user is among its members.\<close>

theorem localgroup_members:
  assumes "list_all group_ok gs" "oa_arr argv = grp # user # os" "wf_octet grp" "wf_octet user"
  shows "localgroup_body argv (Some (group_lines gs)) = Some (group_verdict gs (content grp) (content user))"
  using assms by (rule localgroup_body_spec)

theorem localgroup_members_witness:
  "localgroup_body \<lparr>oa_arr = [mk_octet ''staff'', mk_octet ''leif''], oa_size = 2\<rparr>
     (Some (group_lines [(''root'', ''x'', ''0'', []), (''staff'', ''x'', ''10'', [''roland'', ''leif''])])) = Some SPOCP_SUCCESS"
proof -
  have "list_all group_ok [(''root'', ''x'', ''0'', []), (''staff'', ''x'', ''10'', [''roland'', ''leif''])]"
    by (simp add: group_ok_def plain_field_def group_text_def)
  then have "localgroup_body \<lparr>oa_arr = [mk_octet ''staff'', mk_octet ''leif''], oa_size = 2\<rparr>
     (Some (group_lines [(''root'', ''x'', ''0'', []), (''staff'', ''x'', ''10'', [''roland'', ''leif''])])) =
     Some (group_verdict [(''root'', ''x'', ''0'', []), (''staff'', ''x'', ''10'', [''roland'', ''leif''])] (content (mk_octet ''staff'')) (content (mk_octet ''leif'')))"
    by (rule localgroup_members [where os = "[]"]) (simp_all add: wf_mk_octet)
  then show ?thesis by (simp add: group_verdict_def content_def mk_octet_def)
qed

subsection \<open>Arguments that come from the query\<close>

lemma decimal_small [simp]: "decimal 0 = ''0''" "decimal 1 = ''1''" "decimal (Suc 0) = ''1''"
  by code_simp+

text \<open>A test splits its argument after the references have been filled in.\<close>

lemma filled_split:
  assumes "template_ok (length vs) ps fin" "vs \<noteq> []" "length (template ps fin) < 2 ^ 30" "length (filled vs ps fin) < 2 ^ 31"
    and "filled vs ps fin \<noteq> []" "NUL \<notin> set (filled vs ps fin)" "c \<noteq> NUL"
  obtains r oa where "element_atom_sub (view (template ps fin) x sz) (atom_xlist vs) = Some (Some r)" "split_args r c NUL = Some oa"
    "list_all wf_octet (oa_arr oa)" "map content (oa_arr oa) = split_on c (filled vs ps fin)"
proof -
  obtain r where r: "element_atom_sub (view (template ps fin) x sz) (atom_xlist vs) = Some (Some r)" "wf_octet r" "content r = filled vs ps fin"
    using element_atom_sub_filled [OF assms(1-4)] by blast
  moreover have "oct_len r \<noteq> 0" using r(3) assms(5) by (intro notI) (simp add: content_def)
  ultimately obtain oa where "oct_split (Some r) c NUL False 0 = Some (Some oa)" "list_all wf_octet (oa_arr oa)" "pieces oa = split_on c (filled vs ps fin)"
    using oct_split_wf [of r c] assms(6,7) by auto
  then show ?thesis using that r(1) by (simp add: split_args_def pieces_def)
qed

text \<open>C9: With the argument \<open>${0}:${1}\<close> the test \<open>strmatch\<close> compares the first two fields of the two values run
  together. For values without a colon this says whether they are equal; but a query whose first value is \<open>v:v\<close> for some
  \<open>v\<close> passes the test, whatever the second value is.\<close>

theorem strmatch_fields:
  assumes "NUL \<notin> set (a @ b)" "length (a @ b) < 2 ^ 30"
  shows "strmatch_test p q e (atom_xlist [a, b]) (view ''${0}:${1}'' x sz) =
    Some (if (let f = split_on CHR '':'' (a @ '':'' @ b) in f ! 0 = f ! 1) then SPOCP_SUCCESS else SPOCP_DENIED, null_octet)"
proof -
  let ?f = "split_on CHR '':'' (a @ '':'' @ b)"
  have t: "template [([], 0), ('':'', 1)] [] = ''${0}:${1}''" "filled [a, b] [([], 0), ('':'', 1)] [] = a @ '':'' @ b"
    by (simp_all add: template_def filled_def ref_text_def)
  obtain r oa where r: "element_atom_sub (view ''${0}:${1}'' x sz) (atom_xlist [a, b]) = Some (Some r)" "split_args r CHR '':'' NUL = Some oa"
      "list_all wf_octet (oa_arr oa)" "map content (oa_arr oa) = ?f"
    using filled_split [of "[a, b]" "[([], 0), ('':'', 1)]" "[]" "CHR '':''" x sz] assms unfolding t by (auto simp: template_ok_def)
  have "2 \<le> length ?f" by (induction a) (auto split: list.splits simp: Suc_le_eq)
  then obtain u v os where o: "oa_arr oa = u # v # os"
    using r(4) by (cases "oa_arr oa" rule: list.exhaust; cases "tl (oa_arr oa)") (auto dest: arg_cong [where f = length])
  obtain z where "octcmp (Some u) (Some v) = Some z" "z = 0 \<longleftrightarrow> content u = content v"
    using octcmp_lex [of u v] r(3) o by auto
  moreover have "?f ! 0 = content u" "?f ! 1 = content v" using r(4) [symmetric] o by simp_all
  ultimately show ?thesis using r(1,2) o by (simp add: strmatch_test_def Let_def)
qed

theorem strmatch_fields_witness:
  "(\<forall>p q e. strmatch_test p q e (atom_xlist [''leif'', ''roland'']) (view ''${0}:${1}'' [NUL] 0) = Some (SPOCP_DENIED, null_octet)) \<and>
   (\<forall>p q e. strmatch_test p q e (atom_xlist [''x:x'', ''roland'']) (view ''${0}:${1}'' [NUL] 0) = Some (SPOCP_SUCCESS, null_octet))"
  by (intro conjI allI) (simp_all add: strmatch_fields)

text \<open>C10: A condition that gives \<open>localgroup\<close> a group and a name from the query leaves the choice of the group file to
  the query: with a colon and a file name behind the name the test reads that file, and succeeds when it lists the name.\<close>

theorem localgroup_query_names_file:
  assumes "plain_field g" "plain_field u" "plain_field f" "g \<noteq> []" "u \<noteq> []" "f \<noteq> []" "CHR ''$'' \<notin> set g" "length (g @ u @ f) < 4096"
    and "sy_open sy f = Some (group_lines [(g, ''x'', ''0'', [u])])"
  shows "localgroup_test sy None (atom_xlist [u @ '':'' @ f]) (view (g @ '':${0}'') x sz) = Some (SPOCP_SUCCESS, null_octet, None)"
proof -
  have t: "template [(g @ '':'', 0)] [] = g @ '':${0}''" "filled [u @ '':'' @ f] [(g @ '':'', 0)] [] = g @ '':'' @ u @ '':'' @ f"
    by (simp_all add: template_def filled_def ref_text_def)
  have s: "split_on CHR '':'' (g @ '':'' @ u @ '':'' @ f) = [g, u, f]"
    using assms(1-3) by (auto simp: plain_field_def split_on_sep split_on_no_sep)
  obtain r oa where r: "element_atom_sub (view (g @ '':${0}'') x sz) (atom_xlist [u @ '':'' @ f]) = Some (Some r)" "split_args r CHR '':'' NUL = Some oa"
      "list_all wf_octet (oa_arr oa)" "map content (oa_arr oa) = [g, u, f]"
    using filled_split [of "[u @ '':'' @ f]" "[(g @ '':'', 0)]" "[]" "CHR '':''" x sz] assms(1-8) unfolding t s
    by (auto simp: template_ok_def plain_field_def)
  then obtain a b c where o: "oa_arr oa = [a, b, c]" "content a = g" "content b = u" "content c = f" "wf_octet a" "wf_octet b" "wf_octet c"
    by (auto simp: map_eq_Cons_conv)
  have "oct_len c = length f" "f = take (oct_len c) (oct_val c)" using length_content [OF o(7)] o(4) by (auto simp: content_def)
  then have "oct2strdup (Some c) NUL = Some (Some (f @ [NUL]))"
    using o(7) assms(6) by (auto simp: oct2strdup_def rdn_def wf_octet_def)
  moreover have "takeWhile (\<lambda>c. c \<noteq> NUL) (f @ [NUL]) = f" using assms(3) by (subst takeWhile_append2) (auto simp: plain_field_def)
  ultimately have n: "group_file oa = Some (oct_assign f, f)" by (simp add: group_file_def o(1) cstring_def)
  have "group_ok (g, ''x'', ''0'', [u])" using assms(1-8) by (auto simp: group_ok_def group_text_def plain_field_def)
  then have "localgroup_body oa (Some (group_lines [(g, ''x'', ''0'', [u])])) = Some SPOCP_SUCCESS"
    using localgroup_body_spec [of "[(g, ''x'', ''0'', [u])]" oa a b "[c]"] o by (simp add: group_verdict_def)
  then show ?thesis
    using r(1,2) n assms(9) by (simp add: localgroup_test_def file_test_def open_file_def close_file_def keep_result_def)
qed

theorem localgroup_query_names_file_witness:
  "localgroup_test \<lparr>sy_now = 0, sy_open = (\<lambda>f. if f = ''/tmp/g'' then Some (group_lines [(''staff'', ''x'', ''0'', [''eve''])]) else None), sy_seek = True, sy_new = 0\<rparr>
     None (atom_xlist [''eve:/tmp/g'']) (view ''staff:${0}'' [NUL] 0) = Some (SPOCP_SUCCESS, null_octet, None)"
  using localgroup_query_names_file [of "''staff''" "''eve''" "''/tmp/g''"
    "\<lparr>sy_now = 0, sy_open = (\<lambda>f. if f = ''/tmp/g'' then Some (group_lines [(''staff'', ''x'', ''0'', [''eve''])]) else None), sy_seek = True, sy_new = 0\<rparr>" "[NUL]" 0]
  by (simp add: plain_field_def)

subsection \<open>Differences of time\<close>

text \<open>In a difference of the documented form the colons are read as digits of the value ten and the seconds are not
  looked at: no difference at all is an hour, forty minutes and ten seconds.\<close>

lemma diff2seconds_colons: "diff2seconds (mk_octet ''000000_00:00:00'') = Some 6010" "diff2seconds (mk_octet ''000000_00:00:59'') = Some 6010"
  by code_simp+

text \<open>The comment gives \<open>--\<close> for more than the difference before the date and \<open>-+\<close> for less; the code has them the
  other way round.\<close>

lemma difftime_signs_swapped:
  "difftime_signs pt gt d CHR ''-'' CHR ''-'' = SPOCP_SUCCESS \<longleftrightarrow> pt < gt \<and> pt > gt - d"
  "difftime_signs pt gt d CHR ''-'' CHR ''+'' = SPOCP_SUCCESS \<longleftrightarrow> pt < gt \<and> pt < gt - d"
  by (auto simp: difftime_signs_def)

end
