(* ===== verification/Spec2Isabelle.thy ===== *)
theory Spec2Isabelle
  imports Reply Tpool Srv Backends
begin

text \<open>
  SPOCP is an authorization server: it keeps rules, which are S-expressions, and decides whether a query
  is allowed by one of them. This is a library of definitions and lemmas on the C sources of its rule
  engine and its server.

  \<^bold>\<open>The program and its parts.\<close> A client sends requests over a connection. The server takes the bytes
  from the input buffer, splits them into an operation and its arguments, checks the request against rules
  about itself, and a thread of a pool runs the handler of the operation. QUERY parses the argument into an
  element and matches it against the rule tree of a ruleset; ADD and DELETE change the tree, the index of
  the rules by identifier, and the persistent store. A rule may carry a boundary condition, which is
  evaluated when a query reaches the rule, and a blob, which is returned with a granted query. The responses
  go through a queue, which puts them into the order of the requests, to the output buffer.

  \<^bold>\<open>The theories\<close>, from the bottom up, with the files under \<^verbatim>\<open>src\<close> they model. Definitions have the names
  of the functions and types of the code.

  \<^item> \<open>Spocp_Base\<close> (\<open>include/spocp.h\<close>, \<open>include/proto.h\<close>, \<open>include/macros.h\<close>): bytes, result codes, reads that may
    fault, integer widths, numerals; the conventions of the whole development and the shared lemmas.
  \<^item> \<open>Octet\<close> (\<open>lib/oct.c\<close>), \<open>Dynarray\<close> (\<open>lib/varr.c\<close>), \<open>Octarr\<close> (\<open>lib/octarr.c\<close>, \<open>lib/string.c\<close>, \<open>lib/cachetime.c\<close>),
    \<open>Resset\<close> (\<open>lib/index.c\<close>, \<open>lib/resset.c\<close>): the containers. An \<^verbatim>\<open>octet_t\<close> is the record \<open>octet\<close>; its invariant
    is \<open>wf_octet\<close>. The lemmas give the contents after each operation, the order of \<open>octcmp\<close>, the escaping round
    trip and the bounds of the copies.
  \<^item> \<open>Sexp\<close> (\<open>lib/sexp.c\<close>), \<open>Verify\<close> (\<open>lib/verify.c\<close>), \<open>Element\<close> (\<open>lib/element.c\<close>, \<open>include/struct.h\<close>), \<open>Input\<close>
    (\<open>lib/input.c\<close>): canonical S-expressions, the checks on values of ranges, the datatype \<open>element\<close>, and the
    parser. The lemmas are the round trips of printer and parser, exactness of the length functions, the checks
    of ranges, and the inputs on which the parser leaves its data.
  \<^item> \<open>Hashfunc\<close>, \<open>Hash\<close> (\<open>lib/hashfunc.c\<close>, \<open>lib/hash.c\<close>), \<open>Ssn\<close> (\<open>lib/ssn.c\<close>), \<open>Slist\<close> and \<open>Srange\<close> (\<open>lib/slist.c\<close>): the
    branches of a junction: a hash table for atoms, tries for prefixes and suffixes, a skip list for ranges.
    Each has an invariant that insertion keeps and an abstract view (a map, a set of stored strings, a set of
    ranges) that search and match are proved to compute.
  \<^item> \<open>Tree\<close> (first half of \<open>lib/db0.c\<close>), \<open>Match\<close> (\<open>lib/match.c\<close>, \<open>lib/check.c\<close>, \<open>lib/aci.c\<close>), \<open>Authz\<close>: the rule tree,
    the match of a query, and the decision: for rules and queries that are lists of atoms \<open>allowed\<close> grants
    exactly when a stored rule is a prefix of the query and its condition holds.
  \<^item> \<open>Rvapi\<close> (\<open>lib/rvapi.c\<close>): parts of a query: copying and comparing elements, the paths by which a condition picks
    parts of the query, and the references by which it hands them to a plugin. The lemmas say what a path and
    a search pick and that references are filled in.
  \<^item> \<open>Cache\<close> (\<open>lib/cache.c\<close>, \<open>lib/be_cpool.c\<close>), \<open>Backends\<close> (\<open>strmatch\<close>, \<open>time\<close>, \<open>difftime\<close>, \<open>regexp\<close>, \<open>ipnum\<close>,
    \<open>mailmatch\<close>, \<open>flatfile\<close> and \<open>localgroup\<close> in \<^verbatim>\<open>backends\<close>): the results and connections that plugins keep, and the
    tests of the plugins that need no service. The lemmas say what the tests compare, and what a query can make
    of an argument that is split after its values have been filled in.
  \<^item> \<open>Bcond\<close> (\<open>lib/bcond.c\<close>, \<open>lib/plugin.c\<close>), \<open>Sha1\<close> (\<open>lib/sha1.c\<close>), \<open>Dback\<close> (\<open>lib/dback.c\<close>), \<open>Db\<close> (\<open>lib/db0.c\<close>,
    \<open>lib/dbapi.c\<close>, \<open>lib/bsdrb.c\<close>, \<open>lib/rdb.c\<close>), \<open>Rm\<close> (\<open>lib/rm.c\<close>, \<open>lib/free.c\<close>), \<open>Dup\<close> (\<open>junc_dup\<close> and
    the other \<^verbatim>\<open>_dup\<close> functions of \<open>lib/db0.c\<close>, \<open>lib/hash.c\<close>, \<open>lib/ssn.c\<close>, \<open>lib/slist.c\<close> and \<open>lib/index.c\<close>): boundary conditions, the digest
    that names them and the rules, the entries of the persistent store, adding and finding rules, removing
    rules, copying a database. The lemmas on copying say that it fails on every database that holds a rule.
  \<^item> \<open>Ruleset\<close> (\<open>server/ruleset.c\<close>), \<open>Ss\<close> (\<open>server/ss.c\<close>): the tree of rulesets and queries over it.
  \<^item> \<open>Iobuf\<close>, \<open>Conn\<close>, \<open>Reply\<close>, \<open>Pool\<close>, \<open>Tpool\<close> (the files of these names in \<^verbatim>\<open>server\<close>): buffers, connections, the
    queue of replies, pools of items and the thread pool, as steps on their shared state.
  \<^item> \<open>Saci\<close> (\<open>server/saci.c\<close>, \<open>lib/sexptool.c\<close>), \<open>Proto\<close> and \<open>Srv\<close> (\<open>server/srv.c\<close>, \<open>server/opstack.c\<close>, copying
    rulesets from \<open>server/ss.c\<close>): the access control of the server itself, requests and responses, transactions and
    the handlers.
  \<^item> This theory: a rule that was added over the protocol decides the queries that come after it.

  \<^bold>\<open>State.\<close> Structures are records with the fields of the source. Objects that several others point to (the
  junctions of the rule tree, the nodes of a skip list, the definitions of conditions, the items of a pool)
  are in stores, and a pointer to one is its position. A fault (a read outside of a buffer, a null pointer, a
  released object), a call that ends the process and one that does not return is \<open>None\<close>; errors of the program
  are its result codes. What a lock protects is one step.

  \<^bold>\<open>Interfaces.\<close> \<open>growable\<close> (arrays that grow; instances for \<open>varr\<close>, \<open>octarr\<close> and \<open>index\<close>), \<open>atom_table\<close> (the hash
  table), \<open>pattern_index\<close> (the tries, in both directions), \<open>bound_order\<close> (the limits of ranges; numbers and
  strings), \<open>rule_base\<close> (the rule tree), \<open>rule_index\<close> (rules by identifier), \<open>byte_queue\<close> (buffers; two ways of
  adding) and \<open>item_pool\<close> (linked pools) state what a component promises; the interpretations are on the
  definitions of the code.

  \<^bold>\<open>Bounds.\<close> Recursions that may not end in the code are \<open>partial_function (option)\<close> (the search in a hash
  table, the walks over a skip list and a pool, the join of an array with itself). \<open>element_match_r\<close> has a bound on its depth; the
  lemmas on decisions hold for every bound above the number of atoms of the query. \<open>bcexp_eval\<close> has a bound on
  the depth of references, \<open>bcexp_eval_boolean\<close> shows from which on it returns. \<open>junc_free\<close> and \<open>junc_dup\<close> have a bound of
  the number of junctions, which no chain of distinct junctions exceeds.

  \<^bold>\<open>Not modelled.\<close> TLS and SASL, the plugins that ask services (LDAP, SQL, DBM, DNS, other programs), the client
  library, reading configuration and rule files, the main loop with its system calls, the operations LIST and
  SUMMARY, the balancing inside \<open>include/tree.h\<close>, logging and the printing of debug output. The evaluation of a
  condition takes the test of a plugin as a parameter; the tests of \<open>Backends\<close> without a file have its type. The C
  library's allocator is a parameter where the code relies on it (the bytes that a block really has, the contents of new memory).
\<close>

section \<open>From a request to a decision\<close>












end
